(* ===== verification/Prelude.thy ===== *)
theory Prelude
  imports Main "HOL-Library.Word"
begin

text \<open>
  Shared vocabulary of the development: the names of the C integer types, C's
  truncating division, byte buffers, and the list and word lemmas that several
  components use.  The collections \<open>kcp_ops\<close>, \<open>pico_ops\<close> and \<open>heap_ops\<close> hold the
  definitions a component unfolds together.
\<close>

unbundle bit_operations_syntax

named_theorems heap_ops \<open>the pointer assignments of the intrusive lists\<close>
named_theorems kcp_ops \<open>field updates of the KCP control block\<close>
named_theorems pico_ops \<open>the macros of the pico HTTP scanner\<close>

section \<open>C integer types\<close>

type_synonym u8 = "8 word"
type_synonym u16 = "16 word"
type_synonym u32 = "32 word"
type_synonym u64 = "64 word"

text \<open>Signed fields are stored at their width as well and read with \<^const>\<open>sint\<close>.\<close>

type_synonym i32 = "32 word"
type_synonym bytes = "8 word list"

text \<open>C99 integer division and remainder truncate towards zero.\<close>

definition cdiv :: "int \<Rightarrow> int \<Rightarrow> int" where
  "cdiv a b = sgn a * sgn b * (\<bar>a\<bar> div \<bar>b\<bar>)"

definition cmod :: "int \<Rightarrow> int \<Rightarrow> int" where
  "cmod a b = a - cdiv a b * b"

lemma cdiv_nonneg [simp]: "0 \<le> a \<Longrightarrow> 0 < b \<Longrightarrow> cdiv a b = a div b"
  by (cases "a = 0") (simp_all add: cdiv_def)

lemma cmod_nonneg [simp]: "0 \<le> a \<Longrightarrow> 0 < b \<Longrightarrow> cmod a b = a mod b"
  by (simp add: cmod_def minus_div_mult_eq_mod)

text \<open>The bytes of a string literal, as the C compiler lays them out (without the NUL).\<close>

definition cstr :: "string \<Rightarrow> bytes" where
  "cstr s = map (\<lambda>c. of_nat (of_char c)) s"

lemma length_cstr [simp]: "length (cstr s) = length s"
  by (simp add: cstr_def)

text \<open>The decimal digits of a number, as \<open>snprintf\<close> writes it.\<close>

fun decimal_text :: "nat \<Rightarrow> bytes" where
  "decimal_text n = (if n < 10 then [] else decimal_text (n div 10)) @ [48 + of_nat (n mod 10)]"

declare decimal_text.simps [simp del]

lemma length_decimal_text: "n < 10 ^ Suc k \<Longrightarrow> length (decimal_text n) \<le> Suc k"
proof (induction k arbitrary: n)
  case 0
  then show ?case by (simp add: decimal_text.simps)
next
  case (Suc k)
  then have "n div 10 < 10 ^ Suc k" by (simp add: less_mult_imp_div_less mult.commute)
  from Suc.IH [OF this] show ?case by (simp add: decimal_text.simps [of n])
qed

text \<open>Reads and writes of several bytes of a memory; \<open>None\<close> leaves it.\<close>

definition put_bytes :: "bytes \<Rightarrow> nat \<Rightarrow> bytes \<Rightarrow> bytes option" where
  "put_bytes m p bs =
    (if p + length bs \<le> length m then Some (take p m @ bs @ drop (p + length bs) m) else None)"

definition get_bytes :: "bytes \<Rightarrow> nat \<Rightarrow> nat \<Rightarrow> bytes option" where
  "get_bytes m p n = (if p + n \<le> length m then Some (take n (drop p m)) else None)"

section \<open>Words\<close>

lemma unat_lt_2_32 [simp]: "unat (w :: u32) < 4294967296"
  using unsigned_less [where w = w] by simp

lemma unat_plus_1:
  fixes w :: "'a::len word"
  assumes "unat w + 1 < 2 ^ LENGTH('a)"
  shows "unat (w + 1) = unat w + 1"
  using assms by (simp add: unat_word_ariths)

lemma word_of_nat_Suc: "(of_nat (Suc n) :: 'a::len word) = of_nat n + 1"
  by simp

lemma unat_sub_zero_iff [simp]: "unat (a - b) = 0 \<longleftrightarrow> a = (b :: 'a::len word)"
  by (simp add: unat_eq_0)

text \<open>Signed reading of a 32-bit difference.\<close>

lemma mod_shift_31:
  fixes u :: int
  assumes "0 \<le> u" "u < 4294967296"
  shows "(u + 2147483648) mod 4294967296
    = (if u < 2147483648 then u + 2147483648 else u - 2147483648)"
proof (cases "u < 2147483648")
  case True
  with assms show ?thesis by (simp add: mod_pos_pos_trivial)
next
  case False
  have "(u + 2147483648) mod 4294967296 = (u - 2147483648 + 4294967296) mod 4294967296"
    by (rule arg_cong [where f = "\<lambda>x. x mod 4294967296"]) simp
  also have "\<dots> = (u - 2147483648) mod 4294967296"
    by (rule mod_add_self2)
  also have "\<dots> = u - 2147483648"
    using assms False by (intro mod_pos_pos_trivial) simp_all
  finally show ?thesis using False by simp
qed

lemma sint_u32_cases:
  fixes w :: u32
  shows "sint w = (if unat w < 2147483648 then int (unat w) else int (unat w) - 4294967296)"
proof -
  have "sint w = (uint w + 2147483648) mod 4294967296 - 2147483648"
    by (simp add: sint_uint signed_take_bit_eq_take_bit_shift take_bit_eq_mod)
  also have "\<dots> = (if uint w < 2147483648 then uint w else uint w - 4294967296)"
    using uint_lt2p [of w] mod_shift_31 [of "uint w"] by simp
  finally show ?thesis
    using nat_less_eq_zless [of "uint w" 2147483648] by simp
qed

text \<open>
  Serial-number arithmetic: within half the number space, the sign of a 32-bit difference
  is the order of the offsets from any common origin.
\<close>

lemma sint_diff_u32:
  fixes x y :: u32
  assumes "unat x < 2147483648" "unat y < 2147483648"
  shows "sint (x - y) = int (unat x) - int (unat y)"
proof (cases "y \<le> x")
  case True
  then have d: "unat (x - y) = unat x - unat y" "unat y \<le> unat x"
    by (simp_all add: unat_sub word_le_nat_alt)
  with assms have "unat (x - y) < 2147483648" by linarith
  with d show ?thesis unfolding sint_u32_cases by (simp only: if_True of_nat_diff)
next
  case False
  then have d: "unat (x - y) = unat x + 4294967296 - unat y" "unat x < unat y"
    by (simp_all add: unat_sub_if' word_le_nat_alt)
  with assms have "\<not> unat (x - y) < 2147483648" by linarith
  with d show ?thesis unfolding sint_u32_cases by (simp only: if_False)
qed

lemma sint_diff_origin:
  fixes a b n :: u32
  assumes "unat (a - n) < 2147483648" "unat (b - n) < 2147483648"
  shows "sint (a - b) = int (unat (a - n)) - int (unat (b - n))"
  using sint_diff_u32 [OF assms] by simp

text \<open>A word as its low byte and the rest, and back.\<close>

lemma and_255: "w AND 255 = take_bit 8 (w :: 'a::len word)"
  by (simp add: take_bit_eq_mask mask_eq_exp_minus_1)

lemma byte_join_or:
  fixes b :: u8 and x :: "'a::len word"
  shows "(ucast b :: 'a word) + push_bit 8 x = ucast b OR push_bit 8 x"
  by (rule disjunctive_add_eq_or, rule bit_word_eqI)
    (auto simp: bit_simps dest: bit_imp_le_length)

lemma byte_join [simp]:
  fixes w :: "'a::len word"
  shows "(ucast (ucast (w AND 255) :: u8) :: 'a word) + push_bit 8 (drop_bit 8 w) = w"
  unfolding byte_join_or and_255
proof (rule bit_word_eqI)
  fix n assume "n < LENGTH('a)"
  then show "bit ((ucast (ucast (take_bit 8 w) :: u8) :: 'a word) OR push_bit 8 (drop_bit 8 w)) n = bit w n"
    by (cases "n < 8") (auto simp: bit_simps)
qed

lemma byte_low:
  fixes b :: u8 and x :: "'a::len word"
  assumes "8 \<le> LENGTH('a)"
  shows "ucast ((ucast b + push_bit 8 x) AND 255) = b"
  unfolding byte_join_or and_255
  by (rule bit_word_eqI) (use assms in \<open>auto simp: bit_simps\<close>)

lemma byte_high:
  fixes b :: u8 and x :: "'a::len word"
  assumes "x = take_bit (LENGTH('a) - 8) x"
  shows "drop_bit 8 (ucast b + push_bit 8 x) = x"
  unfolding byte_join_or
  by (rule bit_word_eqI, subst (2) assms)
    (auto simp: bit_simps dest: bit_imp_le_length)
section \<open>Lists\<close>

lemma take_append_length [simp]: "take (length xs) (xs @ ys) = xs"
  by simp

lemma nth_append_Cons_length [simp]: "(xs @ y # ys) ! length xs = y"
  by simp

lemma takeWhile_dropWhile_length:
  "length (takeWhile P xs) + length (dropWhile P xs) = length xs"
  by (metis length_append takeWhile_dropWhile_id)

lemma dropWhile_Cons_hd: "dropWhile P xs = y # ys \<Longrightarrow> \<not> P y"
  using hd_dropWhile [of P xs] by (metis list.distinct(1) list.sel(1))

end
