(* ===== verification/Intrusive_List.thy ===== *)
theory Intrusive_List
  imports Prelude
begin

text \<open>
  The intrusive circular doubly-linked lists of the repository: \<open>struct list_node\<close>
  of \<open>C/container/list.h\<close> (used by \<open>C/logging/log_async.c\<close>) and \<open>struct IQUEUEHEAD\<close> of
  \<open>CPP/muduo/src/kcp/ikcp.h\<close> (used by \<open>ikcp.c\<close>).  The heap is explicit, every
  operation is the sequence of pointer assignments of the source, and the ring predicate
  says which list of node addresses a head denotes.
\<close>

section \<open>The heap of nodes\<close>

type_synonym addr = nat

text \<open>\<open>struct list_node { next, prev }\<close>; address 0 is the null pointer.\<close>

record heap =
  nxt :: "addr \<Rightarrow> addr"
  prv :: "addr \<Rightarrow> addr"

abbreviation (input) NULL :: addr where "NULL \<equiv> 0"

definition set_next :: "addr \<Rightarrow> addr \<Rightarrow> heap \<Rightarrow> heap" where
  "set_next p q h = h\<lparr>nxt := (nxt h)(p := q)\<rparr>"

definition set_prev :: "addr \<Rightarrow> addr \<Rightarrow> heap \<Rightarrow> heap" where
  "set_prev p q h = h\<lparr>prv := (prv h)(p := q)\<rparr>"

lemma set_next_sel [simp]:
  "nxt (set_next p q h) = (nxt h)(p := q)" "prv (set_next p q h) = prv h"
  by (simp_all add: set_next_def)

lemma set_prev_sel [simp]:
  "prv (set_prev p q h) = (prv h)(p := q)" "nxt (set_prev p q h) = nxt h"
  by (simp_all add: set_prev_def)

section \<open>C/container/list.h\<close>

definition list_init :: "addr \<Rightarrow> heap \<Rightarrow> heap" where
  "list_init head h =
     (let h = set_next head head h;
          h = set_prev head (nxt h head) h
      in h)"

definition list_empty :: "addr \<Rightarrow> heap \<Rightarrow> bool" where
  "list_empty head h \<longleftrightarrow> nxt h head = head"

definition list_push_front :: "addr \<Rightarrow> addr \<Rightarrow> heap \<Rightarrow> heap" where
  "list_push_front head elem h =
     (let h = set_prev (nxt h head) elem h;
          h = set_next elem (nxt h head) h;
          h = set_prev elem head h;
          h = set_next head elem h
      in h)"

definition list_push_back :: "addr \<Rightarrow> addr \<Rightarrow> heap \<Rightarrow> heap" where
  "list_push_back head elem h =
     (let h = set_next (prv h head) elem h;
          h = set_prev elem (prv h head) h;
          h = set_next elem head h;
          h = set_prev head elem h
      in h)"

definition list_del_between :: "addr \<Rightarrow> addr \<Rightarrow> heap \<Rightarrow> heap" where
  "list_del_between p n h =
     (let h = set_next p n h;
          h = set_prev n p h
      in h)"

definition list_del :: "addr \<Rightarrow> heap \<Rightarrow> heap" where
  "list_del elem h =
     (let h = list_del_between (prv h elem) (nxt h elem) h;
          h = set_prev elem NULL h;
          h = set_next elem NULL h
      in h)"

definition list_del_init :: "addr \<Rightarrow> heap \<Rightarrow> heap" where
  "list_del_init elem h =
     (let h = list_del_between (prv h elem) (nxt h elem) h;
          h = set_prev elem elem h;
          h = set_next elem elem h
      in h)"

definition list_swap :: "addr \<Rightarrow> addr \<Rightarrow> heap \<Rightarrow> heap" where
  "list_swap new_head old_head h =
     (let h = set_next new_head (nxt h old_head) h;
          h = set_prev new_head (prv h old_head) h;
          h = set_prev (nxt h old_head) new_head h;
          h = set_next (prv h old_head) new_head h
      in list_init old_head h)"

text \<open>
  \<open>list_for_each(pos, head)\<close>: the addresses the loop visits.  The loop ends only when it
  meets the head again, so it is given fuel; \<open>None\<close> is a loop that is still running.
\<close>

fun list_walk :: "nat \<Rightarrow> addr \<Rightarrow> addr \<Rightarrow> heap \<Rightarrow> addr list option" where
  "list_walk 0 pos head h = None"
| "list_walk (Suc fuel) pos head h =
     (if pos = head then Some []
      else map_option ((#) pos) (list_walk fuel (nxt h pos) head h))"

definition list_for_each :: "nat \<Rightarrow> addr \<Rightarrow> heap \<Rightarrow> addr list option" where
  "list_for_each fuel head h = list_walk fuel (nxt h head) head h"

text \<open>
  \<open>list_for_each_safe(p, q, head)\<close>: \<open>q\<close> is read before the body runs, so the body may
  unlink or free \<open>p\<close>.  \<open>body\<close> is the loop body as a heap transformer.
\<close>

fun list_walk_safe ::
  "nat \<Rightarrow> (addr \<Rightarrow> heap \<Rightarrow> heap) \<Rightarrow> addr \<Rightarrow> addr \<Rightarrow> addr \<Rightarrow> heap \<Rightarrow> (addr list \<times> heap) option" where
  "list_walk_safe 0 body p q head h = None"
| "list_walk_safe (Suc fuel) body p q head h =
     (if p = head then Some ([], h)
      else let h' = body p h in
        map_option (\<lambda>(ps, h''). (p # ps, h'')) (list_walk_safe fuel body q (nxt h' q) head h'))"

definition list_for_each_safe ::
  "nat \<Rightarrow> (addr \<Rightarrow> heap \<Rightarrow> heap) \<Rightarrow> addr \<Rightarrow> heap \<Rightarrow> (addr list \<times> heap) option" where
  "list_for_each_safe fuel body head h =
     (let p = nxt h head; q = nxt h p in list_walk_safe fuel body p q head h)"

lemmas list_h_defs = list_init_def list_empty_def list_push_front_def list_push_back_def
  list_del_between_def list_del_def list_del_init_def list_swap_def

declare list_h_defs [heap_ops] Let_def [heap_ops]

section \<open>The queue macros of ikcp.h\<close>

definition iqueue_init :: "addr \<Rightarrow> heap \<Rightarrow> heap" where
  "iqueue_init ptr h = set_prev ptr ptr (set_next ptr ptr h)"

definition iqueue_add :: "addr \<Rightarrow> addr \<Rightarrow> heap \<Rightarrow> heap" where
  "iqueue_add node head h =
     (let h = set_prev node head h;
          h = set_next node (nxt h head) h;
          h = set_prev (nxt h head) node h;
          h = set_next head node h
      in h)"

definition iqueue_add_tail :: "addr \<Rightarrow> addr \<Rightarrow> heap \<Rightarrow> heap" where
  "iqueue_add_tail node head h =
     (let h = set_prev node (prv h head) h;
          h = set_next node head h;
          h = set_next (prv h head) node h;
          h = set_prev head node h
      in h)"

definition iqueue_del :: "addr \<Rightarrow> heap \<Rightarrow> heap" where
  "iqueue_del entry h =
     (let h = set_prev (nxt h entry) (prv h entry) h;
          h = set_next (prv h entry) (nxt h entry) h;
          h = set_next entry NULL h;
          h = set_prev entry NULL h
      in h)"

definition iqueue_del_init :: "addr \<Rightarrow> heap \<Rightarrow> heap" where
  "iqueue_del_init entry h = iqueue_init entry (iqueue_del entry h)"

definition iqueue_is_empty :: "addr \<Rightarrow> heap \<Rightarrow> bool" where
  "iqueue_is_empty entry h \<longleftrightarrow> entry = nxt h entry"

definition iqueue_splice :: "addr \<Rightarrow> addr \<Rightarrow> heap \<Rightarrow> heap" where
  "iqueue_splice l head h =
     (if iqueue_is_empty l h then h
      else let first = nxt h l; last = prv h l; at = nxt h head;
               h = set_prev first head h;
               h = set_next head first h;
               h = set_next last at h;
               h = set_prev at last h
           in h)"

definition iqueue_splice_init :: "addr \<Rightarrow> addr \<Rightarrow> heap \<Rightarrow> heap" where
  "iqueue_splice_init l head h = iqueue_init l (iqueue_splice l head h)"

lemmas iqueue_defs = iqueue_init_def iqueue_add_def iqueue_add_tail_def iqueue_del_def
  iqueue_del_init_def iqueue_is_empty_def

declare iqueue_defs [heap_ops]

section \<open>Rings\<close>

text \<open>
  \<open>links h a xs b\<close>: following \<open>next\<close> from \<open>a\<close> visits exactly \<open>xs\<close> and arrives at
  \<open>b\<close>, and every \<open>prev\<close> pointer is the inverse.  A ring is a path of distinct nodes
  from the head to itself.
\<close>

fun links :: "heap \<Rightarrow> addr \<Rightarrow> addr list \<Rightarrow> addr \<Rightarrow> bool" where
  "links h a [] b \<longleftrightarrow> nxt h a = b \<and> prv h b = a"
| "links h a (x # xs) b \<longleftrightarrow> nxt h a = x \<and> prv h x = a \<and> links h x xs b"

definition ring :: "heap \<Rightarrow> addr \<Rightarrow> addr list \<Rightarrow> bool" where
  "ring h head xs \<longleftrightarrow> distinct (head # xs) \<and> links h head xs head"

lemma links_append:
  "links h a (xs @ y # ys) b \<longleftrightarrow> links h a xs y \<and> links h y ys b"
  by (induction xs arbitrary: a) auto

lemma links_cong:
  "(\<And>p. p \<in> set (a # xs) \<Longrightarrow> nxt h' p = nxt h p) \<Longrightarrow>
   (\<And>p. p \<in> set (xs @ [b]) \<Longrightarrow> prv h' p = prv h p) \<Longrightarrow>
   links h' a xs b = links h a xs b"
  by (induction xs arbitrary: a) auto

lemma links_upd_next [simp]:
  "p \<notin> set (a # xs) \<Longrightarrow> links (set_next p q h) a xs b = links h a xs b"
  by (rule links_cong) auto

lemma links_upd_prev [simp]:
  "p \<notin> set (xs @ [b]) \<Longrightarrow> links (set_prev p q h) a xs b = links h a xs b"
  by (rule links_cong) auto

lemma links_last: "links h a xs b \<Longrightarrow> prv h b = last (a # xs)"
  by (induction xs arbitrary: a) auto

lemma links_first: "links h a xs b \<Longrightarrow> nxt h a = hd (xs @ [b])"
  by (cases xs) auto

lemma ring_last: "ring h head xs \<Longrightarrow> prv h head = last (head # xs)"
  by (auto simp: ring_def dest: links_last)

lemma ring_first: "ring h head xs \<Longrightarrow> nxt h head = hd (xs @ [head])"
  by (auto simp: ring_def dest: links_first)

text \<open>Every node of a ring is linked to its two neighbours.\<close>

lemma ring_neighbours:
  assumes "ring h head (xs @ e # ys)"
  shows "prv h e = last (head # xs)" "nxt h e = hd (ys @ [head])"
  using assms by (auto simp: ring_def links_append dest: links_last links_first)

text \<open>Operations on nodes outside a ring leave it alone.\<close>

lemma ring_frame:
  assumes "ring h head xs"
    and "\<And>p. p \<in> set (head # xs) \<Longrightarrow> nxt h' p = nxt h p \<and> prv h' p = prv h p"
  shows "ring h' head xs"
proof -
  have "links h' head xs head = links h head xs head"
    by (rule links_cong) (use assms(2) in auto)
  with assms(1) show ?thesis by (simp add: ring_def)
qed

text \<open>
  The one surgery all insertions are: a fresh node \<open>e\<close> between the neighbours \<open>a\<close> and
  \<open>b\<close>; and its inverse.
\<close>

definition spliced_in :: "addr \<Rightarrow> addr \<Rightarrow> addr \<Rightarrow> heap \<Rightarrow> heap \<Rightarrow> bool" where
  "spliced_in a e b h h' \<longleftrightarrow>
     nxt h' = (nxt h)(a := e, e := b) \<and> prv h' = (prv h)(b := e, e := a)"

definition spliced_out :: "addr \<Rightarrow> addr \<Rightarrow> addr \<Rightarrow> heap \<Rightarrow> heap \<Rightarrow> bool" where
  "spliced_out a e b h h' \<longleftrightarrow>
     nxt h' a = b \<and> prv h' b = a \<and>
     (\<forall>p. p \<noteq> a \<longrightarrow> p \<noteq> e \<longrightarrow> nxt h' p = nxt h p) \<and>
     (\<forall>p. p \<noteq> b \<longrightarrow> p \<noteq> e \<longrightarrow> prv h' p = prv h p)"

lemma links_spliced_in:
  assumes "links h s (xs @ ys) t" "distinct (s # xs @ ys)" "t \<notin> set (xs @ ys)"
    and "e \<notin> set (s # xs @ ys @ [t])"
    and "spliced_in (last (s # xs)) e (hd (ys @ [t])) h h'"
  shows "links h' s (xs @ e # ys) t"
  using assms
proof (induction xs arbitrary: s)
  case Nil
  show ?case
  proof (cases ys)
    case Nil
    with Nil.prems show ?thesis by (auto simp: spliced_in_def)
  next
    case (Cons y ys')
    have "links h' y ys' t = links h y ys' t"
      by (rule links_cong) (use Nil.prems Cons in \<open>auto simp: spliced_in_def\<close>)
    with Nil.prems Cons show ?thesis by (auto simp: spliced_in_def)
  qed
next
  case (Cons x xs)
  have "links h' x (xs @ e # ys) t"
    by (rule Cons.IH) (use Cons.prems in auto)
  moreover have "nxt h' s = x"
    using Cons.prems by (auto simp: spliced_in_def)
  moreover have "prv h' x = s"
    using Cons.prems by (cases ys) (auto simp: spliced_in_def)
  ultimately show ?case by simp
qed

lemma spliced_outD:
  assumes "spliced_out a e b h h'"
  shows "nxt h' a = b" "prv h' b = a"
    and "p \<noteq> a \<Longrightarrow> p \<noteq> e \<Longrightarrow> nxt h' p = nxt h p"
    and "p \<noteq> b \<Longrightarrow> p \<noteq> e \<Longrightarrow> prv h' p = prv h p"
  using assms by (auto simp: spliced_out_def)

lemma links_spliced_out:
  assumes "links h s (xs @ e # ys) t" "distinct (s # xs @ e # ys)" "t \<notin> set (xs @ e # ys)"
    and "spliced_out (last (s # xs)) e (hd (ys @ [t])) h h'"
  shows "links h' s (xs @ ys) t"
  using assms
proof (induction xs arbitrary: s)
  case Nil
  note out = spliced_outD [OF Nil.prems(4)]
  show ?case
  proof (cases ys)
    case Nil
    with Nil.prems out show ?thesis by simp
  next
    case (Cons y ys')
    have "links h' y ys' t = links h y ys' t"
    proof (rule links_cong)
      show "nxt h' p = nxt h p" if "p \<in> set (y # ys')" for p
        by (rule out(3)) (use that Nil.prems Cons in auto)
      show "prv h' p = prv h p" if "p \<in> set (ys' @ [t])" for p
        by (rule out(4)) (use that Nil.prems Cons in auto)
    qed
    with Nil.prems Cons out show ?thesis by simp
  qed
next
  case (Cons x xs)
  note out = spliced_outD [OF Cons.prems(4)]
  have "links h' x (xs @ ys) t"
    by (rule Cons.IH) (use Cons.prems in auto)
  moreover have "nxt h' s = nxt h s"
    by (rule out(3)) (use Cons.prems in auto)
  moreover have "prv h' x = prv h x"
    by (rule out(4)) (use Cons.prems in \<open>cases ys; auto\<close>)+
  ultimately show ?case using Cons.prems by simp
qed

lemma ring_spliced_in:
  assumes "ring h head (xs @ ys)" "e \<notin> set (head # xs @ ys)"
    and "spliced_in (last (head # xs)) e (hd (ys @ [head])) h h'"
  shows "ring h' head (xs @ e # ys)"
  using assms links_spliced_in [of h head xs ys head e h'] by (auto simp: ring_def)

lemma ring_spliced_out:
  assumes "ring h head (xs @ e # ys)"
    and "spliced_out (last (head # xs)) e (hd (ys @ [head])) h h'"
  shows "ring h' head (xs @ ys)"
  using assms links_spliced_out [of h head xs e ys head h'] by (auto simp: ring_def)

lemma last_neq_notin: "e \<notin> set (a # xs) \<Longrightarrow> last (a # xs) \<noteq> e"
  by (metis last_in_set list.distinct(1))

lemma hd_neq_notin: "e \<notin> set (xs @ [b]) \<Longrightarrow> hd (xs @ [b]) \<noteq> e"
  by (metis hd_in_set list.distinct(1) snoc_eq_iff_butlast)

lemma ring_empty_iff: "ring h head xs \<Longrightarrow> nxt h head = head \<longleftrightarrow> xs = []"
  by (cases xs) (auto simp: ring_def)

text \<open>What each operation writes, as a splice.\<close>

lemma push_back_spliced:
  "e \<noteq> head \<Longrightarrow> prv h head \<noteq> e \<Longrightarrow> spliced_in (prv h head) e head h (list_push_back head e h)"
  by (auto simp: heap_ops spliced_in_def fun_eq_iff)

lemma push_front_spliced:
  "e \<noteq> head \<Longrightarrow> nxt h head \<noteq> e \<Longrightarrow> spliced_in head e (nxt h head) h (list_push_front head e h)"
  by (auto simp: heap_ops spliced_in_def fun_eq_iff)

lemma add_tail_spliced:
  "e \<noteq> head \<Longrightarrow> prv h head \<noteq> e \<Longrightarrow> spliced_in (prv h head) e head h (iqueue_add_tail e head h)"
  by (auto simp: heap_ops spliced_in_def fun_eq_iff)

lemma add_spliced:
  "e \<noteq> a \<Longrightarrow> nxt h a \<noteq> e \<Longrightarrow> spliced_in a e (nxt h a) h (iqueue_add e a h)"
  by (auto simp: heap_ops spliced_in_def fun_eq_iff)

lemma del_spliced:
  "prv h e = a \<Longrightarrow> nxt h e = b \<Longrightarrow> a \<noteq> e \<Longrightarrow> b \<noteq> e \<Longrightarrow> spliced_out a e b h (list_del e h)"
  by (simp add: heap_ops spliced_out_def)

lemma del_init_spliced:
  "prv h e = a \<Longrightarrow> nxt h e = b \<Longrightarrow> a \<noteq> e \<Longrightarrow> b \<noteq> e \<Longrightarrow> spliced_out a e b h (list_del_init e h)"
  by (simp add: heap_ops spliced_out_def)

lemma iqueue_del_spliced:
  "prv h e = a \<Longrightarrow> nxt h e = b \<Longrightarrow> a \<noteq> e \<Longrightarrow> b \<noteq> e \<Longrightarrow> spliced_out a e b h (iqueue_del e h)"
  by (simp add: heap_ops spliced_out_def)

lemma iqueue_del_init_spliced:
  "prv h e = a \<Longrightarrow> nxt h e = b \<Longrightarrow> a \<noteq> e \<Longrightarrow> b \<noteq> e \<Longrightarrow> spliced_out a e b h (iqueue_del_init e h)"
  by (simp add: heap_ops spliced_out_def)

lemma list_push_back_ring:
  assumes "ring h head xs" "e \<notin> set (head # xs)"
  shows "ring (list_push_back head e h) head (xs @ [e])"
proof (rule ring_spliced_in [where ys = "[]", simplified, rotated 2])
  show "spliced_in (if xs = [] then head else last xs) e head h (list_push_back head e h)"
    using push_back_spliced [of e head h] assms ring_last [OF assms(1)] last_neq_notin [OF assms(2)]
    by simp
qed (use assms in auto)

lemma list_push_front_ring:
  assumes "ring h head xs" "e \<notin> set (head # xs)"
  shows "ring (list_push_front head e h) head (e # xs)"
proof (rule ring_spliced_in [where xs = "[]", simplified, rotated 2])
  show "spliced_in head e (hd (xs @ [head])) h (list_push_front head e h)"
    using push_front_spliced [of e head h] assms ring_first [OF assms(1)] hd_neq_notin [of e xs head]
    by simp
qed (use assms in auto)

lemma list_del_ring:
  assumes "ring h head (xs @ e # ys)"
  shows "ring (list_del e h) head (xs @ ys)" "ring (list_del_init e h) head (xs @ ys)"
proof -
  have d: "e \<notin> set (head # xs)" "e \<notin> set (ys @ [head])"
    using assms by (auto simp: ring_def)
  have nb: "prv h e = last (head # xs)" "nxt h e = hd (ys @ [head])"
    using assms by (rule ring_neighbours)+
  note ne = last_neq_notin [OF d(1)] hd_neq_notin [OF d(2)]
  show "ring (list_del e h) head (xs @ ys)"
    by (rule ring_spliced_out [OF assms del_spliced [OF nb ne]])
  show "ring (list_del_init e h) head (xs @ ys)"
    by (rule ring_spliced_out [OF assms del_init_spliced [OF nb ne]])
qed

lemma iqueue_add_tail_ring:
  assumes "ring h head xs" "e \<notin> set (head # xs)"
  shows "ring (iqueue_add_tail e head h) head (xs @ [e])"
proof (rule ring_spliced_in [where ys = "[]", simplified, rotated 2])
  show "spliced_in (if xs = [] then head else last xs) e head h (iqueue_add_tail e head h)"
    using add_tail_spliced [of e head h] assms ring_last [OF assms(1)] last_neq_notin [OF assms(2)]
    by simp
qed (use assms in auto)

text \<open>\<open>iqueue_add\<close> is also used with an inner node as its second argument, to insert after it.\<close>

lemma iqueue_add_ring:
  assumes "ring h head (xs @ ys)" "e \<notin> set (head # xs @ ys)"
  shows "ring (iqueue_add e (last (head # xs)) h) head (xs @ e # ys)"
proof (rule ring_spliced_in)
  have "nxt h (last (head # xs)) = hd (ys @ [head])"
  proof (cases xs rule: rev_cases)
    case Nil
    then show ?thesis using ring_first [of h head ys] assms(1) by simp
  next
    case (snoc zs z)
    then show ?thesis using ring_neighbours(2) [of h head zs z ys] assms(1) by simp
  qed
  moreover have "last (head # xs) \<noteq> e"
    by (rule last_neq_notin) (use assms(2) in auto)
  moreover have "hd (ys @ [head]) \<noteq> e"
    by (rule hd_neq_notin) (use assms(2) in auto)
  ultimately show "spliced_in (last (head # xs)) e (hd (ys @ [head])) h
      (iqueue_add e (last (head # xs)) h)"
    using add_spliced [of e "last (head # xs)" h] by (simp del: last.simps)
qed (use assms in auto)

lemma iqueue_del_ring:
  assumes "ring h head (xs @ e # ys)"
  shows "ring (iqueue_del e h) head (xs @ ys)" "ring (iqueue_del_init e h) head (xs @ ys)"
proof -
  have d: "e \<notin> set (head # xs)" "e \<notin> set (ys @ [head])"
    using assms by (auto simp: ring_def)
  have nb: "prv h e = last (head # xs)" "nxt h e = hd (ys @ [head])"
    using assms by (rule ring_neighbours)+
  note ne = last_neq_notin [OF d(1)] hd_neq_notin [OF d(2)]
  show "ring (iqueue_del e h) head (xs @ ys)"
    by (rule ring_spliced_out [OF assms iqueue_del_spliced [OF nb ne]])
  show "ring (iqueue_del_init e h) head (xs @ ys)"
    by (rule ring_spliced_out [OF assms iqueue_del_init_spliced [OF nb ne]])
qed

section \<open>The queue interface\<close>

text \<open>
  What a client of the intrusive lists relies on, whichever header provides it: the ring a
  head denotes after each operation, and the nodes an operation leaves alone.
\<close>

locale intrusive_queue =
  fixes init :: "addr \<Rightarrow> heap \<Rightarrow> heap"
    and add_tail :: "addr \<Rightarrow> addr \<Rightarrow> heap \<Rightarrow> heap"
    and del :: "addr \<Rightarrow> heap \<Rightarrow> heap"
    and is_empty :: "addr \<Rightarrow> heap \<Rightarrow> bool"
  assumes init_ring: "ring (init head h) head []"
    and add_tail_ring: "ring h head xs \<Longrightarrow> e \<notin> set (head # xs) \<Longrightarrow>
      ring (add_tail head e h) head (xs @ [e])"
    and del_ring: "ring h head (xs @ e # ys) \<Longrightarrow> ring (del e h) head (xs @ ys)"
    and is_empty_iff: "ring h head xs \<Longrightarrow> is_empty head h \<longleftrightarrow> xs = []"
    and add_tail_frame: "p \<noteq> head \<Longrightarrow> p \<noteq> e \<Longrightarrow> p \<noteq> prv h head \<Longrightarrow>
      nxt (add_tail head e h) p = nxt h p \<and> prv (add_tail head e h) p = prv h p"
    and del_frame: "p \<noteq> e \<Longrightarrow> p \<noteq> prv h e \<Longrightarrow> p \<noteq> nxt h e \<Longrightarrow>
      nxt (del e h) p = nxt h p \<and> prv (del e h) p = prv h p"
begin

lemma add_tail_other_ring:
  assumes "ring h head xs" "ring h head' ys"
    and "set (head # xs) \<inter> set (head' # ys) = {}" "e \<notin> set (head' # ys)"
  shows "ring (add_tail head e h) head' ys"
proof (rule ring_frame [OF assms(2)])
  fix p assume p: "p \<in> set (head' # ys)"
  have "prv h head \<in> set (head # xs)"
    using ring_last [OF assms(1)] by (metis last_in_set list.distinct(1))
  then show "nxt (add_tail head e h) p = nxt h p \<and> prv (add_tail head e h) p = prv h p"
    by (intro add_tail_frame) (use p assms(3,4) in auto)
qed

lemma del_other_ring:
  assumes "ring h head (xs @ e # ys)" "ring h head' zs"
    and "set (head # xs @ e # ys) \<inter> set (head' # zs) = {}"
  shows "ring (del e h) head' zs"
proof (rule ring_frame [OF assms(2)])
  fix p assume p: "p \<in> set (head' # zs)"
  have "prv h e \<in> set (head # xs)"
    using ring_neighbours(1) [OF assms(1)] by (metis last_in_set list.distinct(1))
  moreover have "nxt h e \<in> set (ys @ [head])"
    using ring_neighbours(2) [OF assms(1)] by (metis hd_in_set snoc_eq_iff_butlast)
  ultimately show "nxt (del e h) p = nxt h p \<and> prv (del e h) p = prv h p"
    by (intro del_frame) (use p assms(3) in auto)
qed

text \<open>A node taken off the front of one queue and appended to another.\<close>

lemma move_head:
  assumes "ring h a (e # xs)" "ring h b ys" "set (a # e # xs) \<inter> set (b # ys) = {}"
  shows "ring (add_tail b e (del e h)) a xs" "ring (add_tail b e (del e h)) b (ys @ [e])"
proof -
  have a: "ring (del e h) a xs"
    using del_ring [of h a "[]"] assms(1) by simp
  have b: "ring (del e h) b ys"
    using del_other_ring [of h a "[]" e xs b ys] assms by simp
  have "e \<notin> set (a # xs)"
    using assms(1) by (auto simp: ring_def)
  then show "ring (add_tail b e (del e h)) a xs"
    by (intro add_tail_other_ring [OF b a]) (use assms(3) in auto)
  show "ring (add_tail b e (del e h)) b (ys @ [e])"
    by (rule add_tail_ring [OF b]) (use assms(3) in auto)
qed

lemma add_all:
  "ring h head xs \<Longrightarrow> distinct (head # xs @ es) \<Longrightarrow> ring (fold (add_tail head) es h) head (xs @ es)"
proof (induction es arbitrary: h xs)
  case Nil
  then show ?case by simp
next
  case (Cons e es)
  have "ring (add_tail head e h) head (xs @ [e])"
    by (rule add_tail_ring) (use Cons.prems in auto)
  from Cons.IH [OF this] Cons.prems(2) show ?case by simp
qed

lemma del_all: "ring h head (es @ xs) \<Longrightarrow> ring (fold del es h) head xs"
proof (induction es arbitrary: h)
  case Nil
  then show ?case by simp
next
  case (Cons e es)
  have "ring (del e h) head (es @ xs)"
    using del_ring [of h head "[]" e "es @ xs"] Cons.prems by simp
  from Cons.IH [OF this] show ?case by simp
qed

end

interpretation list_h: intrusive_queue list_init list_push_back list_del list_empty
proof unfold_locales
  show "ring (list_init head h) head []" for head h
    by (simp add: ring_def heap_ops)
  show "ring (list_push_back head e h) head (xs @ [e])"
    if "ring h head xs" "e \<notin> set (head # xs)" for h head xs e
    using that by (rule list_push_back_ring)
  show "ring (list_del e h) head (xs @ ys)" if "ring h head (xs @ e # ys)" for h head xs e ys
    using that by (rule list_del_ring)
  show "list_empty head h \<longleftrightarrow> xs = []" if "ring h head xs" for h head xs
    using ring_empty_iff [OF that] by (simp add: list_empty_def)
qed (auto simp: heap_ops)

interpretation iqueue: intrusive_queue iqueue_init "\<lambda>head node. iqueue_add_tail node head"
  iqueue_del iqueue_is_empty
proof unfold_locales
  show "ring (iqueue_init head h) head []" for head h
    by (simp add: ring_def heap_ops)
  show "ring (iqueue_add_tail e head h) head (xs @ [e])"
    if "ring h head xs" "e \<notin> set (head # xs)" for h head xs e
    using that by (rule iqueue_add_tail_ring)
  show "ring (iqueue_del e h) head (xs @ ys)" if "ring h head (xs @ e # ys)" for h head xs e ys
    using that by (rule iqueue_del_ring)
  show "iqueue_is_empty head h \<longleftrightarrow> xs = []" if "ring h head xs" for h head xs
    using ring_empty_iff [OF that] by (auto simp: iqueue_is_empty_def)
qed (auto simp: heap_ops)

section \<open>Traversal\<close>

lemma list_walk_links:
  "links h a xs head \<Longrightarrow> head \<notin> set xs \<Longrightarrow> length xs < fuel \<Longrightarrow>
   list_walk fuel (nxt h a) head h = Some xs"
proof (induction xs arbitrary: a fuel)
  case Nil
  then show ?case by (cases fuel) auto
next
  case (Cons x xs)
  then show ?case by (cases fuel) auto
qed

lemma list_for_each_ring:
  "ring h head xs \<Longrightarrow> length xs < fuel \<Longrightarrow> list_for_each fuel head h = Some xs"
  by (simp add: list_for_each_def ring_def list_walk_links)

text \<open>
  The body of the safe loop may change the node it is given in any way (it frees it), but
  not the \<open>next\<close> pointers of the nodes still to be visited.
\<close>

fun nexts :: "heap \<Rightarrow> addr list \<Rightarrow> addr \<Rightarrow> bool" where
  "nexts h [] t \<longleftrightarrow> True"
| "nexts h (x # xs) t \<longleftrightarrow> nxt h x = hd (xs @ [t]) \<and> nexts h xs t"

lemma nexts_cong: "(\<And>q. q \<in> set xs \<Longrightarrow> nxt h' q = nxt h q) \<Longrightarrow> nexts h' xs t = nexts h xs t"
  by (induction xs) auto

lemma links_nexts: "links h a xs b \<Longrightarrow> nexts h xs b"
  by (induction xs arbitrary: a) (auto dest: links_first)

definition local_body :: "(addr \<Rightarrow> heap \<Rightarrow> heap) \<Rightarrow> addr list \<Rightarrow> bool" where
  "local_body body xs \<longleftrightarrow> (\<forall>p\<in>set xs. \<forall>q\<in>set xs. \<forall>g. q \<noteq> p \<longrightarrow> nxt (body p g) q = nxt g q)"

lemma list_walk_safe_nexts:
  "nexts h xs head \<Longrightarrow> head \<notin> set xs \<Longrightarrow> distinct xs \<Longrightarrow> length xs < fuel \<Longrightarrow>
   local_body body xs \<Longrightarrow>
   list_walk_safe fuel body (hd (xs @ [head])) (nxt h (hd (xs @ [head]))) head h
     = Some (xs, fold body xs h)"
proof (induction xs arbitrary: h fuel)
  case Nil
  then show ?case by (cases fuel) auto
next
  case (Cons x xs)
  then obtain n where n: "fuel = Suc n" "length xs < n"
    by (cases fuel) auto
  have "nexts (body x h) xs head"
  proof (subst nexts_cong [where h = h])
    show "nxt (body x h) q = nxt h q" if "q \<in> set xs" for q
      using that Cons.prems by (auto simp: local_body_def)
    show "nexts h xs head" using Cons.prems by simp
  qed
  then have "list_walk_safe n body (hd (xs @ [head])) (nxt (body x h) (hd (xs @ [head]))) head (body x h)
      = Some (xs, fold body xs (body x h))"
    by (rule Cons.IH) (use Cons.prems n in \<open>auto simp: local_body_def\<close>)
  with Cons.prems n show ?case by (auto simp: Let_def)
qed

lemma list_for_each_safe_ring:
  assumes "ring h head xs" "length xs < fuel" "local_body body xs"
  shows "list_for_each_safe fuel body head h = Some (xs, fold body xs h)"
  using assms list_walk_safe_nexts [OF links_nexts, of h head xs head fuel body]
    ring_first [OF assms(1)]
  by (simp add: list_for_each_safe_def ring_def)

text \<open>
  \<open>list_swap\<close> moves the whole ring to a new head.  The old head is written last, so the
  ring must not be empty: with an empty one the new head is left pointing at the old one.
\<close>

lemma links_replace_last:
  assumes "links h a xs b" "xs \<noteq> []" "b' \<notin> set xs" "distinct xs" "a \<notin> set xs"
    and "nxt h' (last xs) = b'" "prv h' b' = last xs"
    and "\<And>p. p \<in> set (a # butlast xs) \<Longrightarrow> nxt h' p = nxt h p"
    and "\<And>p. p \<in> set xs \<Longrightarrow> prv h' p = prv h p"
  shows "links h' a xs b'"
  using assms
proof (induction xs arbitrary: a)
  case Nil
  then show ?case by simp
next
  case (Cons x xs)
  show ?case
  proof (cases "xs = []")
    case True
    with Cons.prems show ?thesis by auto
  next
    case False
    have "links h' x xs b'"
      by (rule Cons.IH) (use Cons.prems False in \<open>auto split: if_splits\<close>)
    with Cons.prems False show ?thesis by auto
  qed
qed

lemma list_swap_ring:
  assumes r: "ring h old (x # xs)" and new: "new \<notin> set (old # x # xs)"
  shows "ring (list_swap new old h) new (x # xs)" "ring (list_swap new old h) old []"
proof -
  let ?h' = "list_swap new old h"
  let ?l = "last (x # xs)"
  have l: "prv h old = ?l" "nxt h old = x" and d: "distinct (old # x # xs)"
    using r ring_last [OF r] ring_first [OF r] by (auto simp: ring_def)
  have "?l \<in> set (x # xs)" by (rule last_in_set) simp
  with d new have ne: "?l \<noteq> old" "?l \<noteq> new" "x \<noteq> old" "x \<noteq> new" "old \<noteq> new"
    by (metis distinct.simps(2) list.set_intros)+
  have n: "nxt ?h' = (nxt h)(new := x, ?l := new, old := old)"
    using l ne by (auto simp: heap_ops fun_eq_iff simp del: last.simps)
  have p: "prv ?h' = (prv h)(new := ?l, x := new, old := old)"
    using l ne by (auto simp: heap_ops fun_eq_iff simp del: last.simps)
  show "ring ?h' old []"
    using n p ne by (simp add: ring_def)
  have h: "links h x xs old"
    using r by (simp add: ring_def)
  have "links ?h' x xs new"
  proof (cases "xs = []")
    case True
    with n p ne show ?thesis by simp
  next
    case False
    show ?thesis
    proof (rule links_replace_last [OF h False])
      show "nxt ?h' q = nxt h q" if "q \<in> set (x # butlast xs)" for q
      proof -
        have "q \<noteq> last xs"
          using that d False by (metis append_butlast_last_id distinct.simps(2)
            distinct_append in_set_butlastD last_in_set not_distinct_conv_prefix set_ConsD
            distinct_butlast)
        with that n False d new show ?thesis by (auto dest: in_set_butlastD)
      qed
    qed (use n p ne False d new in \<open>auto split: if_splits\<close>)
  qed
  with n p ne d new show "ring ?h' new (x # xs)"
    by (auto simp: ring_def)
qed

end
