(* ===== verification/Kcp_Base.thy ===== *)
theory Kcp_Base
  imports Prelude
begin

text \<open>
  KCP (\<open>CPP/muduo/src/kcp/ikcp.c\<close>, \<open>ikcp.h\<close>): constants, the segment and control-block
  structures, the wire encoding, and the round-trip laws of the encoding.

  A queue of segments (\<open>struct IQUEUEHEAD\<close> plus the embedded nodes) is the list of its
  segments in ring order; \<open>Intrusive_List\<close> proves that the queue macros act on rings as
  the list operations used here.  Fields the C code leaves uninitialised in a fresh
  segment are 0; each of them is written before it is read.
\<close>

section \<open>Constants\<close>

definition IKCP_RTO_NDL :: u32 where [simp]: "IKCP_RTO_NDL = 30"
definition IKCP_RTO_MIN :: u32 where [simp]: "IKCP_RTO_MIN = 100"
definition IKCP_RTO_DEF :: u32 where [simp]: "IKCP_RTO_DEF = 200"
definition IKCP_RTO_MAX :: u32 where [simp]: "IKCP_RTO_MAX = 60000"
definition IKCP_CMD_PUSH :: u32 where [simp]: "IKCP_CMD_PUSH = 81"
definition IKCP_CMD_ACK :: u32 where [simp]: "IKCP_CMD_ACK = 82"
definition IKCP_CMD_WASK :: u32 where [simp]: "IKCP_CMD_WASK = 83"
definition IKCP_CMD_WINS :: u32 where [simp]: "IKCP_CMD_WINS = 84"
definition IKCP_ASK_SEND :: u32 where [simp]: "IKCP_ASK_SEND = 1"
definition IKCP_ASK_TELL :: u32 where [simp]: "IKCP_ASK_TELL = 2"
definition IKCP_WND_SND :: u32 where [simp]: "IKCP_WND_SND = 32"
definition IKCP_WND_RCV :: u32 where [simp]: "IKCP_WND_RCV = 128"
definition IKCP_MTU_DEF :: u32 where [simp]: "IKCP_MTU_DEF = 1400"
definition IKCP_INTERVAL :: u32 where [simp]: "IKCP_INTERVAL = 100"
definition IKCP_OVERHEAD :: u32 where [simp]: "IKCP_OVERHEAD = 24"
definition IKCP_DEADLINK :: u32 where [simp]: "IKCP_DEADLINK = 20"
definition IKCP_THRESH_INIT :: u32 where [simp]: "IKCP_THRESH_INIT = 2"
definition IKCP_THRESH_MIN :: u32 where [simp]: "IKCP_THRESH_MIN = 2"
definition IKCP_PROBE_INIT :: u32 where [simp]: "IKCP_PROBE_INIT = 7000"
definition IKCP_PROBE_LIMIT :: u32 where [simp]: "IKCP_PROBE_LIMIT = 120000"
definition IKCP_FASTACK_LIMIT :: int where [simp]: "IKCP_FASTACK_LIMIT = 5"

section \<open>Arithmetic helpers\<close>

definition imin :: "u32 \<Rightarrow> u32 \<Rightarrow> u32" where
  "imin a b = (if a \<le> b then a else b)"

definition imax :: "u32 \<Rightarrow> u32 \<Rightarrow> u32" where
  "imax a b = (if a \<ge> b then a else b)"

definition ibound :: "u32 \<Rightarrow> u32 \<Rightarrow> u32 \<Rightarrow> u32" where
  "ibound lower middle upper = imin (imax lower middle) upper"

definition itimediff :: "u32 \<Rightarrow> u32 \<Rightarrow> int" where
  "itimediff later earlier = sint (later - earlier)"

section \<open>Segments and the control block\<close>

record IKCPSEG =
  seg_conv :: u32
  seg_cmd :: u32
  seg_frg :: u32
  seg_wnd :: u32
  seg_ts :: u32
  seg_sn :: u32
  seg_una :: u32
  seg_len :: u32
  seg_resendts :: u32
  seg_rto :: u32
  seg_fastack :: u32
  seg_xmit :: u32
  seg_data :: bytes

record ikcpcb =
  kcp_conv :: u32
  kcp_mtu :: u32
  kcp_mss :: u32
  kcp_state :: u32
  kcp_snd_una :: u32
  kcp_snd_nxt :: u32
  kcp_rcv_nxt :: u32
  kcp_ts_recent :: u32
  kcp_ts_lastack :: u32
  kcp_ssthresh :: u32
  kcp_rx_rttval :: i32
  kcp_rx_srtt :: i32
  kcp_rx_rto :: i32
  kcp_rx_minrto :: i32
  kcp_snd_wnd :: u32
  kcp_rcv_wnd :: u32
  kcp_rmt_wnd :: u32
  kcp_cwnd :: u32
  kcp_probe :: u32
  kcp_current :: u32
  kcp_interval :: u32
  kcp_ts_flush :: u32
  kcp_xmit :: u32
  kcp_nrcv_buf :: u32
  kcp_nsnd_buf :: u32
  kcp_nrcv_que :: u32
  kcp_nsnd_que :: u32
  kcp_nodelay :: u32
  kcp_updated :: u32
  kcp_ts_probe :: u32
  kcp_probe_wait :: u32
  kcp_dead_link :: u32
  kcp_incr :: u32
  kcp_snd_queue :: "IKCPSEG list"
  kcp_rcv_queue :: "IKCPSEG list"
  kcp_snd_buf :: "IKCPSEG list"
  kcp_rcv_buf :: "IKCPSEG list"
  kcp_acklist :: "u32 list"
  kcp_ackcount :: u32
  kcp_ackblock :: u32
  kcp_bufsize :: int \<comment> \<open>the size \<open>kcp->buffer\<close> was allocated with\<close>
  kcp_fastresend :: int
  kcp_fastlimit :: int
  kcp_nocwnd :: int
  kcp_stream :: int

text \<open>\<open>ikcp_segment_new(kcp, size)\<close> followed by the assignment of \<open>len\<close>, \<open>frg\<close> and the data.\<close>

definition ikcp_segment_new :: "u32 \<Rightarrow> u32 \<Rightarrow> bytes \<Rightarrow> IKCPSEG" where
  "ikcp_segment_new len frg d =
     \<lparr>seg_conv = 0, seg_cmd = 0, seg_frg = frg, seg_wnd = 0, seg_ts = 0, seg_sn = 0,
      seg_una = 0, seg_len = len, seg_resendts = 0, seg_rto = 0, seg_fastack = 0,
      seg_xmit = 0, seg_data = d\<rparr>"

lemma segment_new_sel [simp]:
  "seg_len (ikcp_segment_new len frg d) = len" "seg_frg (ikcp_segment_new len frg d) = frg"
  "seg_data (ikcp_segment_new len frg d) = d"
  by (simp_all add: ikcp_segment_new_def)

section \<open>Creation\<close>

text \<open>
  \<open>ikcp_create\<close>: the two allocations may fail (\<open>mem 0\<close>, \<open>mem 1\<close> say whether they
  succeed); failure is the null pointer.
\<close>

definition ikcp_create :: "(nat \<Rightarrow> bool) \<Rightarrow> u32 \<Rightarrow> ikcpcb option" where
  "ikcp_create mem conv =
     (if \<not> mem 0 then None
      else if \<not> mem 1 then None
      else Some
     \<lparr>kcp_conv = conv, kcp_mtu = IKCP_MTU_DEF, kcp_mss = IKCP_MTU_DEF - IKCP_OVERHEAD,
      kcp_state = 0, kcp_snd_una = 0, kcp_snd_nxt = 0, kcp_rcv_nxt = 0, kcp_ts_recent = 0,
      kcp_ts_lastack = 0, kcp_ssthresh = IKCP_THRESH_INIT, kcp_rx_rttval = 0, kcp_rx_srtt = 0,
      kcp_rx_rto = IKCP_RTO_DEF, kcp_rx_minrto = IKCP_RTO_MIN, kcp_snd_wnd = IKCP_WND_SND,
      kcp_rcv_wnd = IKCP_WND_RCV, kcp_rmt_wnd = IKCP_WND_RCV, kcp_cwnd = 0, kcp_probe = 0,
      kcp_current = 0, kcp_interval = IKCP_INTERVAL, kcp_ts_flush = IKCP_INTERVAL, kcp_xmit = 0,
      kcp_nrcv_buf = 0, kcp_nsnd_buf = 0, kcp_nrcv_que = 0, kcp_nsnd_que = 0, kcp_nodelay = 0,
      kcp_updated = 0, kcp_ts_probe = 0, kcp_probe_wait = 0, kcp_dead_link = IKCP_DEADLINK,
      kcp_incr = 0, kcp_snd_queue = [], kcp_rcv_queue = [], kcp_snd_buf = [], kcp_rcv_buf = [],
      kcp_acklist = [], kcp_ackcount = 0, kcp_ackblock = 0,
      kcp_bufsize = uint ((IKCP_MTU_DEF + IKCP_OVERHEAD) * 3),
      kcp_fastresend = 0, kcp_fastlimit = IKCP_FASTACK_LIMIT, kcp_nocwnd = 0, kcp_stream = 0\<rparr>)"

section \<open>Wire encoding\<close>

text \<open>
  The encoders write at \<open>p\<close> and return the advanced pointer: the first argument is what
  has been written so far.  The decoders return the value and the rest of the input;
  \<open>None\<close> is a read past its end.
\<close>

definition ikcp_encode8u :: "bytes \<Rightarrow> u8 \<Rightarrow> bytes" where
  "ikcp_encode8u p c = p @ [c]"

fun ikcp_decode8u :: "bytes \<Rightarrow> (u8 \<times> bytes) option" where
  "ikcp_decode8u (c # p) = Some (c, p)"
| "ikcp_decode8u [] = None"

definition ikcp_encode16u :: "bytes \<Rightarrow> u16 \<Rightarrow> bytes" where
  "ikcp_encode16u p w = p @ [ucast (w AND 255), ucast (drop_bit 8 w)]"

fun ikcp_decode16u :: "bytes \<Rightarrow> (u16 \<times> bytes) option" where
  "ikcp_decode16u (p0 # p1 # p) =
     (let w = ucast p1; w = ucast p0 + push_bit 8 w in Some (w, p))"
| "ikcp_decode16u _ = None"

definition ikcp_encode32u :: "bytes \<Rightarrow> u32 \<Rightarrow> bytes" where
  "ikcp_encode32u p l = p @
     [ucast (drop_bit 0 l AND 0xff), ucast (drop_bit 8 l AND 0xff),
      ucast (drop_bit 16 l AND 0xff), ucast (drop_bit 24 l AND 0xff)]"

fun ikcp_decode32u :: "bytes \<Rightarrow> (u32 \<times> bytes) option" where
  "ikcp_decode32u (p0 # p1 # p2 # p3 # p) =
     (let l = ucast p3; l = ucast p2 + push_bit 8 l; l = ucast p1 + push_bit 8 l;
          l = ucast p0 + push_bit 8 l
      in Some (l, p))"
| "ikcp_decode32u _ = None"

definition ikcp_encode_seg :: "bytes \<Rightarrow> IKCPSEG \<Rightarrow> bytes" where
  "ikcp_encode_seg ptr seg =
     (let ptr = ikcp_encode32u ptr (seg_conv seg);
          ptr = ikcp_encode8u ptr (ucast (seg_cmd seg));
          ptr = ikcp_encode8u ptr (ucast (seg_frg seg));
          ptr = ikcp_encode16u ptr (ucast (seg_wnd seg));
          ptr = ikcp_encode32u ptr (seg_ts seg);
          ptr = ikcp_encode32u ptr (seg_sn seg);
          ptr = ikcp_encode32u ptr (seg_una seg);
          ptr = ikcp_encode32u ptr (seg_len seg)
      in ptr)"

text \<open>
  The header as \<open>ikcp_input\<close> reads it: \<open>(conv, cmd, frg, wnd, ts, sn, una, len)\<close>, where a
  wrong \<open>conv\<close> is noticed before the rest is read.
\<close>

record ikcp_hdr =
  h_cmd :: u8
  h_frg :: u8
  h_wnd :: u16
  h_ts :: u32
  h_sn :: u32
  h_una :: u32
  h_len :: u32

definition ikcp_decode_hdr :: "bytes \<Rightarrow> (ikcp_hdr \<times> bytes) option" where
  "ikcp_decode_hdr data =
     Option.bind (ikcp_decode8u data) (\<lambda>(cmd, data).
     Option.bind (ikcp_decode8u data) (\<lambda>(frg, data).
     Option.bind (ikcp_decode16u data) (\<lambda>(wnd, data).
     Option.bind (ikcp_decode32u data) (\<lambda>(ts, data).
     Option.bind (ikcp_decode32u data) (\<lambda>(sn, data).
     Option.bind (ikcp_decode32u data) (\<lambda>(una, data).
     Option.bind (ikcp_decode32u data) (\<lambda>(len, data).
       Some (\<lparr>h_cmd = cmd, h_frg = frg, h_wnd = wnd, h_ts = ts, h_sn = sn, h_una = una,
              h_len = len\<rparr>, data))))))))"

definition ikcp_getconv :: "bytes \<Rightarrow> u32 option" where
  "ikcp_getconv ptr = map_option fst (ikcp_decode32u ptr)"

section \<open>Codecs\<close>

text \<open>What the protocol relies on: a fixed-width code that parses back, with the rest untouched.\<close>

locale byte_codec =
  fixes enc :: "bytes \<Rightarrow> 'a \<Rightarrow> bytes"
    and dec :: "bytes \<Rightarrow> ('a \<times> bytes) option"
    and width :: nat
  assumes enc_append: "enc p x = p @ enc [] x"
    and length_enc: "length (enc [] x) = width"
    and dec_enc: "dec (enc [] x @ r) = Some (x, r)"
    and dec_Some: "dec bs = Some (x, r) \<Longrightarrow> bs = enc [] x @ r"
    and dec_total: "width \<le> length bs \<Longrightarrow> dec bs \<noteq> None"
begin

lemma dec_None: "dec bs = None \<longleftrightarrow> length bs < width"
proof (cases "dec bs")
  case None
  then show ?thesis using dec_total [of bs] not_le [of width "length bs"] by blast
next
  case (Some a)
  then obtain x r where "dec bs = Some (x, r)" by (cases a) auto
  from dec_Some [OF this] have "length bs = width + length r"
    by (simp add: length_enc)
  with Some show ?thesis by simp
qed

lemma enc_inject: "enc [] x = enc [] y \<Longrightarrow> x = y"
  by (drule arg_cong [where f = "\<lambda>bs. dec (bs @ [])"]) (simp only: dec_enc option.inject prod.inject)

lemma dec_rest: "dec bs = Some (x, r) \<Longrightarrow> r = drop width bs"
  by (drule dec_Some) (simp only: drop_append length_enc drop_all order_refl diff_self_eq_0
      drop_0 append_Nil)

lemma dec_obtain:
  assumes "width \<le> length bs"
  obtains x where "dec bs = Some (x, drop width bs)"
proof -
  from assms obtain a where a: "dec bs = Some a"
    using dec_total [of bs] by auto
  then obtain x r where xr: "dec bs = Some (x, r)" by (cases a) auto
  with dec_rest [OF xr] that show ?thesis by blast
qed

end

interpretation u8_codec: byte_codec ikcp_encode8u ikcp_decode8u 1
proof unfold_locales
  show "bs = ikcp_encode8u [] x @ r" if "ikcp_decode8u bs = Some (x, r)" for bs x r
    using that by (cases bs) (auto simp: ikcp_encode8u_def)
  show "ikcp_decode8u bs \<noteq> None" if "1 \<le> length bs" for bs
    using that by (cases bs) auto
qed (auto simp: ikcp_encode8u_def)

lemma top_byte_16: "ucast (drop_bit 8 (w :: u16)) = (ucast (drop_bit 8 w AND 255) :: u8)"
  unfolding and_255 by (rule bit_word_eqI) (auto simp: bit_simps)

lemma top_byte_16_ucast: "(ucast (ucast (drop_bit 8 (w :: u16)) :: u8) :: u16) = drop_bit 8 w"
  by (rule bit_word_eqI) (auto simp: bit_simps dest: bit_imp_le_length)

lemma top_byte_32: "(ucast (ucast (drop_bit 24 (l :: u32) AND 255) :: u8) :: u32) = drop_bit 24 l"
  unfolding and_255 by (rule bit_word_eqI) (auto simp: bit_simps dest: bit_imp_le_length)

lemma byte_high_u8:
  fixes b c :: u8
  shows "drop_bit 8 (ucast b + push_bit 8 (ucast c) :: u16) = ucast c"
  by (rule byte_high, rule bit_word_eqI) (auto simp: bit_simps dest: bit_imp_le_length)

interpretation u16_codec: byte_codec ikcp_encode16u ikcp_decode16u 2
proof unfold_locales
  show "ikcp_decode16u (ikcp_encode16u [] x @ r) = Some (x, r)" for x r
    by (simp add: ikcp_encode16u_def top_byte_16_ucast)
  show "bs = ikcp_encode16u [] x @ r" if "ikcp_decode16u bs = Some (x, r)" for bs x r
    using that
  proof (cases bs rule: ikcp_decode16u.cases)
    case (1 p0 p1 p)
    have "ucast (ucast p1 :: u16) = p1"
      by (rule bit_word_eqI) (auto simp: bit_simps)
    with 1 that show ?thesis
      by (auto simp: ikcp_encode16u_def Let_def byte_low byte_high_u8)
  qed auto
  show "ikcp_decode16u bs \<noteq> None" if "2 \<le> length bs" for bs
    using that by (cases bs rule: ikcp_decode16u.cases) (auto simp: Let_def)
qed (auto simp: ikcp_encode16u_def)

lemma decode_join_32:
  fixes p0 p1 p2 p3 :: u8 and l :: u32
  assumes "l = ucast p0 + push_bit 8 (ucast p1 + push_bit 8 (ucast p2 + push_bit 8 (ucast p3)))"
  shows "ucast (l AND 255) = p0" "ucast (drop_bit 8 l AND 255) = p1"
    "ucast (drop_bit 16 l AND 255) = p2" "ucast (drop_bit 24 l AND 255) = p3"
proof -
  let ?c = "ucast p2 + push_bit 8 (ucast p3) :: u32"
  let ?b = "ucast p1 + push_bit 8 ?c"
  have c: "drop_bit 8 ?c = ucast p3"
    by (rule byte_high, rule bit_word_eqI) (auto simp: bit_simps dest: bit_imp_le_length)
  have b: "drop_bit 8 ?b = ?c"
    by (rule byte_high, unfold byte_join_or, rule bit_word_eqI)
      (auto simp: bit_simps dest: bit_imp_le_length)
  have a: "drop_bit 8 l = ?b"
    unfolding assms
    by (rule byte_high, unfold byte_join_or, rule bit_word_eqI)
      (auto simp: bit_simps dest: bit_imp_le_length)
  have d16: "drop_bit 16 l = ?c"
    using arg_cong [OF a, of "drop_bit 8"] b by simp
  have d24: "drop_bit 24 l = ucast p3"
    using arg_cong [OF d16, of "drop_bit 8"] c by simp
  show "ucast (l AND 255) = p0" unfolding assms by (rule byte_low) simp
  show "ucast (drop_bit 8 l AND 255) = p1" unfolding a by (rule byte_low) simp
  show "ucast (drop_bit 16 l AND 255) = p2" unfolding d16 by (rule byte_low) simp
  show "ucast (drop_bit 24 l AND 255) = p3" unfolding d24 and_255
    by (rule bit_word_eqI) (auto simp: bit_simps)
qed

interpretation u32_codec: byte_codec ikcp_encode32u ikcp_decode32u 4
proof unfold_locales
  show "ikcp_decode32u (ikcp_encode32u [] x @ r) = Some (x, r)" for x r
    using byte_join [of "drop_bit 16 x"] byte_join [of "drop_bit 8 x"] byte_join [of x]
    by (simp add: ikcp_encode32u_def top_byte_32)
  show "bs = ikcp_encode32u [] x @ r" if "ikcp_decode32u bs = Some (x, r)" for bs x r
    using that
  proof (cases bs rule: ikcp_decode32u.cases)
    case (1 p0 p1 p2 p3 p)
    with that have x: "x = ucast p0 + push_bit 8 (ucast p1 + push_bit 8 (ucast p2 + push_bit 8 (ucast p3)))"
      and r: "r = p" by (simp_all add: Let_def)
    show ?thesis
      unfolding 1 r by (simp add: ikcp_encode32u_def decode_join_32 [OF x])
  qed auto
  show "ikcp_decode32u bs \<noteq> None" if "4 \<le> length bs" for bs
    using that by (cases bs rule: ikcp_decode32u.cases) (auto simp: Let_def)
qed (auto simp: ikcp_encode32u_def)

text \<open>The whole header, behind the conversation number.\<close>

definition hdr_of_seg :: "IKCPSEG \<Rightarrow> ikcp_hdr" where
  "hdr_of_seg seg =
     \<lparr>h_cmd = ucast (seg_cmd seg), h_frg = ucast (seg_frg seg), h_wnd = ucast (seg_wnd seg),
      h_ts = seg_ts seg, h_sn = seg_sn seg, h_una = seg_una seg, h_len = seg_len seg\<rparr>"

lemmas codec_append = u8_codec.enc_append u16_codec.enc_append u32_codec.enc_append

lemma ikcp_encode_seg_append: "ikcp_encode_seg p seg = p @ ikcp_encode_seg [] seg"
  by (simp add: ikcp_encode_seg_def ikcp_encode8u_def ikcp_encode16u_def ikcp_encode32u_def Let_def)

lemma length_encode_seg [simp]: "length (ikcp_encode_seg p seg) = length p + 24"
  by (simp add: ikcp_encode_seg_def ikcp_encode8u_def ikcp_encode16u_def ikcp_encode32u_def Let_def)

lemma encode_seg_flat:
  "ikcp_encode_seg [] seg = ikcp_encode32u [] (seg_conv seg) @ ikcp_encode8u [] (ucast (seg_cmd seg))
     @ ikcp_encode8u [] (ucast (seg_frg seg)) @ ikcp_encode16u [] (ucast (seg_wnd seg))
     @ ikcp_encode32u [] (seg_ts seg) @ ikcp_encode32u [] (seg_sn seg)
     @ ikcp_encode32u [] (seg_una seg) @ ikcp_encode32u [] (seg_len seg)"
  by (simp add: ikcp_encode_seg_def ikcp_encode8u_def ikcp_encode16u_def ikcp_encode32u_def Let_def)

lemma decode_encode_seg:
  "Option.bind (ikcp_decode32u (ikcp_encode_seg [] seg @ r)) (\<lambda>(conv, d). 
     map_option (\<lambda>h. (conv, h)) (ikcp_decode_hdr d))
   = Some (seg_conv seg, hdr_of_seg seg, r)"
  by (simp only: encode_seg_flat append_assoc ikcp_decode_hdr_def u8_codec.dec_enc u16_codec.dec_enc
      u32_codec.dec_enc Option.bind.simps prod.case option.map hdr_of_seg_def)

lemma decode_hdr_total:
  assumes "20 \<le> length d"
  obtains h where "ikcp_decode_hdr d = Some (h, drop 20 d)"
proof -
  obtain c where 1: "ikcp_decode8u d = Some (c, drop 1 d)"
    by (rule u8_codec.dec_obtain [of d]) (use assms in auto)
  obtain f where 2: "ikcp_decode8u (drop 1 d) = Some (f, drop 2 d)"
    by (rule u8_codec.dec_obtain [of "drop 1 d"]) (use assms in \<open>auto simp: eval_nat_numeral\<close>)
  obtain w where 3: "ikcp_decode16u (drop 2 d) = Some (w, drop 4 d)"
    by (rule u16_codec.dec_obtain [of "drop 2 d"]) (use assms in auto)
  obtain t where 4: "ikcp_decode32u (drop 4 d) = Some (t, drop 8 d)"
    by (rule u32_codec.dec_obtain [of "drop 4 d"]) (use assms in auto)
  obtain n where 5: "ikcp_decode32u (drop 8 d) = Some (n, drop 12 d)"
    by (rule u32_codec.dec_obtain [of "drop 8 d"]) (use assms in auto)
  obtain u where 6: "ikcp_decode32u (drop 12 d) = Some (u, drop 16 d)"
    by (rule u32_codec.dec_obtain [of "drop 12 d"]) (use assms in auto)
  obtain l where 7: "ikcp_decode32u (drop 16 d) = Some (l, drop 20 d)"
    by (rule u32_codec.dec_obtain [of "drop 16 d"]) (use assms in auto)
  show thesis
    by (rule that) (simp only: ikcp_decode_hdr_def 1 2 3 4 5 6 7 Option.bind.simps prod.case)
qed

end
