(* ===== verification/Kcp_Ops.thy ===== *)
theory Kcp_Ops
  imports Kcp_Base
begin

text \<open>
  The operations of \<open>ikcp.c\<close> on one control block: user send and receive, the parsing of
  acknowledgements and data, the input loop, the flush, the clock and the settings.  The
  functions are in the order of the source; a function that changes the block returns it.
  Log calls (\<open>ikcp_log\<close>) and the freeing of segments have no effect on the block and are
  left out.
\<close>

section \<open>Upper level receive\<close>

text \<open>\<open>ikcp_peeksize\<close>: the loop adds lengths up to and including the first segment with \<open>frg = 0\<close>.\<close>

fun peek_length :: "IKCPSEG list \<Rightarrow> u32 \<Rightarrow> u32" where
  "peek_length [] len = len"
| "peek_length (seg # segs) len =
     (let len = len + seg_len seg in if seg_frg seg = 0 then len else peek_length segs len)"

definition ikcp_peeksize :: "ikcpcb \<Rightarrow> int" where
  "ikcp_peeksize kcp =
     (case kcp_rcv_queue kcp of
        [] \<Rightarrow> -1
      | seg # _ \<Rightarrow>
          if seg_frg seg = 0 then sint (seg_len seg)
          else if kcp_nrcv_que kcp < seg_frg seg + 1 then -1
          else sint (peek_length (kcp_rcv_queue kcp) 0))"

text \<open>
  The merge loop of \<open>ikcp_recv\<close>: the bytes copied out, the length counted, and the
  segments after the last one merged.
\<close>

fun merge_fragments :: "IKCPSEG list \<Rightarrow> bytes \<Rightarrow> u32 \<Rightarrow> u32 \<Rightarrow> bytes \<times> u32 \<times> u32 \<times> IKCPSEG list" where
  "merge_fragments [] buf len taken = (buf, len, taken, [])"
| "merge_fragments (seg # segs) buf len taken =
     (let buf = buf @ take (unat (seg_len seg)) (seg_data seg);
          len = len + seg_len seg;
          taken = taken + 1
      in if seg_frg seg = 0 then (buf, len, taken, segs)
         else merge_fragments segs buf len taken)"

text \<open>Move available data from \<open>rcv_buf\<close> to \<open>rcv_queue\<close> (the same loop ends \<open>ikcp_parse_data\<close>).\<close>

function ikcp_move_rcv :: "ikcpcb \<Rightarrow> ikcpcb" where
  "ikcp_move_rcv kcp =
     (case kcp_rcv_buf kcp of
        [] \<Rightarrow> kcp
      | seg # rest \<Rightarrow>
          if seg_sn seg = kcp_rcv_nxt kcp \<and> kcp_nrcv_que kcp < kcp_rcv_wnd kcp
          then ikcp_move_rcv (kcp\<lparr>kcp_rcv_buf := rest, kcp_nrcv_buf := kcp_nrcv_buf kcp - 1,
                 kcp_rcv_queue := kcp_rcv_queue kcp @ [seg], kcp_nrcv_que := kcp_nrcv_que kcp + 1,
                 kcp_rcv_nxt := kcp_rcv_nxt kcp + 1\<rparr>)
          else kcp)"
  by pat_completeness auto
termination
  by (relation "measure (\<lambda>kcp. length (kcp_rcv_buf kcp))") auto

declare ikcp_move_rcv.simps [simp del]

text \<open>
  \<open>ikcp_recv(kcp, buffer, len)\<close> for a non-null buffer: the return value, the bytes written
  to the buffer, and the block.  A negative \<open>len\<close> peeks.
\<close>

definition ikcp_recv :: "ikcpcb \<Rightarrow> int \<Rightarrow> int \<times> bytes \<times> ikcpcb" where
  "ikcp_recv kcp len =
     (let ispeek = len < 0 in
      if kcp_rcv_queue kcp = [] then (-1, [], kcp)
      else let len = (if len < 0 then - len else len);
               peeksize = ikcp_peeksize kcp in
      if peeksize < 0 then (-2, [], kcp)
      else if peeksize > len then (-3, [], kcp)
      else let recover = kcp_nrcv_que kcp \<ge> kcp_rcv_wnd kcp;
               (buf, mlen, taken, rest) = merge_fragments (kcp_rcv_queue kcp) [] 0 0;
               kcp = (if ispeek then kcp
                      else kcp\<lparr>kcp_rcv_queue := rest, kcp_nrcv_que := kcp_nrcv_que kcp - taken\<rparr>);
               kcp = ikcp_move_rcv kcp;
               kcp = (if kcp_nrcv_que kcp < kcp_rcv_wnd kcp \<and> recover
                      then kcp\<lparr>kcp_probe := kcp_probe kcp OR IKCP_ASK_TELL\<rparr> else kcp)
           in (sint mlen, buf, kcp))"

section \<open>Upper level send\<close>

text \<open>
  \<open>ikcp_send(kcp, buffer, len)\<close> for a non-null buffer.  \<open>mem i\<close> tells whether the
  \<open>i\<close>-th segment allocation of the call succeeds; with assertions compiled out a failure
  returns \<open>-2\<close> and leaves what was queued before.
\<close>

fun send_fragments ::
  "(nat \<Rightarrow> bool) \<Rightarrow> nat \<Rightarrow> nat \<Rightarrow> ikcpcb \<Rightarrow> bytes \<Rightarrow> int \<Rightarrow> int \<times> ikcpcb" where
  "send_fragments mem a 0 kcp buffer len = (0, kcp)"
| "send_fragments mem a (Suc n) kcp buffer len =
     (let size = (if len > sint (kcp_mss kcp) then sint (kcp_mss kcp) else len) in
      if \<not> mem a then (-2, kcp)
      else let seg = ikcp_segment_new (word_of_int size)
                       (if kcp_stream kcp = 0 then of_nat n else 0) (take (nat size) buffer);
               kcp = kcp\<lparr>kcp_snd_queue := kcp_snd_queue kcp @ [seg],
                         kcp_nsnd_que := kcp_nsnd_que kcp + 1\<rparr>
           in send_fragments mem (Suc a) n kcp (drop (nat size) buffer) (len - size))"

definition send_count :: "ikcpcb \<Rightarrow> int \<Rightarrow> int" where
  "send_count kcp len =
     (if len \<le> sint (kcp_mss kcp) then 1
      else sint ((word_of_int len + kcp_mss kcp - 1) div kcp_mss kcp))"

definition send_rest :: "(nat \<Rightarrow> bool) \<Rightarrow> nat \<Rightarrow> ikcpcb \<Rightarrow> bytes \<Rightarrow> int \<Rightarrow> int \<times> ikcpcb" where
  "send_rest mem a kcp buffer len =
     (let count = send_count kcp len in
      if count \<ge> sint IKCP_WND_RCV then (-2, kcp)
      else let count = (if count = 0 then 1 else count)
           in send_fragments mem a (nat count) kcp buffer len)"

text \<open>Streaming mode: top up the last queued segment first.\<close>

definition send_extend :: "IKCPSEG \<Rightarrow> ikcpcb \<Rightarrow> bytes \<Rightarrow> int \<Rightarrow> ikcpcb" where
  "send_extend old kcp buffer ext =
     (let seg = ikcp_segment_new (seg_len old + word_of_int ext) 0
                  (take (unat (seg_len old)) (seg_data old) @ take (nat ext) buffer)
      in kcp\<lparr>kcp_snd_queue := butlast (kcp_snd_queue kcp) @ [seg]\<rparr>)"

definition ikcp_send :: "(nat \<Rightarrow> bool) \<Rightarrow> ikcpcb \<Rightarrow> bytes \<Rightarrow> int \<Rightarrow> int \<times> ikcpcb" where
  "ikcp_send mem kcp buffer len =
     (if len < 0 then (-1, kcp)
      else if kcp_stream kcp \<noteq> 0 then
        (if kcp_snd_queue kcp \<noteq> [] \<and> seg_len (last (kcp_snd_queue kcp)) < kcp_mss kcp then
           let old = last (kcp_snd_queue kcp);
               capacity = sint (kcp_mss kcp - seg_len old);
               ext = (if len < capacity then len else capacity)
           in if \<not> mem 0 then (-2, kcp)
              else let kcp = send_extend old kcp buffer ext;
                       len = len - ext
                   in if len \<le> 0 then (0, kcp)
                      else send_rest mem 1 kcp (drop (nat ext) buffer) len
         else if len \<le> 0 then (0, kcp)
         else send_rest mem 0 kcp buffer len)
      else send_rest mem 0 kcp buffer len)"

section \<open>Acknowledgements\<close>

definition ikcp_update_ack :: "ikcpcb \<Rightarrow> i32 \<Rightarrow> ikcpcb" where
  "ikcp_update_ack kcp rtt =
     (let kcp =
        (if kcp_rx_srtt kcp = 0 then
           kcp\<lparr>kcp_rx_srtt := rtt, kcp_rx_rttval := word_of_int (cdiv (sint rtt) 2)\<rparr>
         else
           let delta = sint (rtt - kcp_rx_srtt kcp);
               delta = (if delta < 0 then - delta else delta);
               rttval = word_of_int (cdiv (sint (3 * kcp_rx_rttval kcp) + delta) 4);
               srtt = word_of_int (cdiv (sint (7 * kcp_rx_srtt kcp + rtt)) 8);
               srtt = (if sint srtt < 1 then 1 else srtt)
           in kcp\<lparr>kcp_rx_rttval := rttval, kcp_rx_srtt := srtt\<rparr>);
          rto = kcp_rx_srtt kcp + imax (kcp_interval kcp) (4 * kcp_rx_rttval kcp)
      in kcp\<lparr>kcp_rx_rto := ibound (kcp_rx_minrto kcp) rto IKCP_RTO_MAX\<rparr>)"

definition ikcp_shrink_buf :: "ikcpcb \<Rightarrow> ikcpcb" where
  "ikcp_shrink_buf kcp =
     (case kcp_snd_buf kcp of
        seg # _ \<Rightarrow> kcp\<lparr>kcp_snd_una := seg_sn seg\<rparr>
      | [] \<Rightarrow> kcp\<lparr>kcp_snd_una := kcp_snd_nxt kcp\<rparr>)"

text \<open>The loop of \<open>ikcp_parse_ack\<close>: the queue after it and the number of segments deleted.\<close>

fun ack_remove :: "u32 \<Rightarrow> IKCPSEG list \<Rightarrow> IKCPSEG list \<times> u32" where
  "ack_remove sn [] = ([], 0)"
| "ack_remove sn (seg # segs) =
     (if sn = seg_sn seg then (segs, 1)
      else if itimediff sn (seg_sn seg) < 0 then (seg # segs, 0)
      else let (rest, n) = ack_remove sn segs in (seg # rest, n))"

definition ikcp_parse_ack :: "ikcpcb \<Rightarrow> u32 \<Rightarrow> ikcpcb" where
  "ikcp_parse_ack kcp sn =
     (if itimediff sn (kcp_snd_una kcp) < 0 \<or> itimediff sn (kcp_snd_nxt kcp) \<ge> 0 then kcp
      else let (rest, n) = ack_remove sn (kcp_snd_buf kcp)
           in kcp\<lparr>kcp_snd_buf := rest, kcp_nsnd_buf := kcp_nsnd_buf kcp - n\<rparr>)"

fun una_remove :: "u32 \<Rightarrow> IKCPSEG list \<Rightarrow> u32 \<Rightarrow> IKCPSEG list \<times> u32" where
  "una_remove una [] n = ([], n)"
| "una_remove una (seg # segs) n =
     (if itimediff una (seg_sn seg) > 0 then una_remove una segs (n - 1) else (seg # segs, n))"

definition ikcp_parse_una :: "ikcpcb \<Rightarrow> u32 \<Rightarrow> ikcpcb" where
  "ikcp_parse_una kcp una =
     (let (rest, n) = una_remove una (kcp_snd_buf kcp) (kcp_nsnd_buf kcp)
      in kcp\<lparr>kcp_snd_buf := rest, kcp_nsnd_buf := n\<rparr>)"

text \<open>\<open>IKCP_FASTACK_CONSERVE\<close> is not defined, so the timestamp argument is unused.\<close>

fun fastack_mark :: "u32 \<Rightarrow> IKCPSEG list \<Rightarrow> IKCPSEG list" where
  "fastack_mark sn [] = []"
| "fastack_mark sn (seg # segs) =
     (if itimediff sn (seg_sn seg) < 0 then seg # segs
      else if sn \<noteq> seg_sn seg then seg\<lparr>seg_fastack := seg_fastack seg + 1\<rparr> # fastack_mark sn segs
      else seg # fastack_mark sn segs)"

definition ikcp_parse_fastack :: "ikcpcb \<Rightarrow> u32 \<Rightarrow> u32 \<Rightarrow> ikcpcb" where
  "ikcp_parse_fastack kcp sn ts =
     (if itimediff sn (kcp_snd_una kcp) < 0 \<or> itimediff sn (kcp_snd_nxt kcp) \<ge> 0 then kcp
      else kcp\<lparr>kcp_snd_buf := fastack_mark sn (kcp_snd_buf kcp)\<rparr>)"

text \<open>
  \<open>ikcp_ack_push\<close>: the array holds pairs \<open>(sn, ts)\<close> in consecutive cells and is
  reallocated to the next power of two, at least 8.  Fresh cells are 0 in the model.
\<close>

function next_block :: "nat \<Rightarrow> nat \<Rightarrow> nat" where
  "next_block newsize newblock =
     (if 0 < newblock \<and> newblock < newsize then next_block newsize (2 * newblock) else newblock)"
  by pat_completeness auto
termination
  by (relation "measure (\<lambda>(newsize, newblock). newsize - newblock)") auto

declare next_block.simps [simp del]

definition ikcp_ack_push :: "ikcpcb \<Rightarrow> u32 \<Rightarrow> u32 \<Rightarrow> ikcpcb" where
  "ikcp_ack_push kcp sn ts =
     (let newsize = unat (kcp_ackcount kcp + 1);
          kcp = (if newsize > unat (kcp_ackblock kcp) then
                   let newblock = next_block newsize 8;
                       old = take (2 * unat (kcp_ackcount kcp)) (kcp_acklist kcp)
                   in kcp\<lparr>kcp_acklist := old @ replicate (2 * newblock - length old) 0,
                          kcp_ackblock := of_nat newblock\<rparr>
                 else kcp);
          p = 2 * unat (kcp_ackcount kcp)
      in kcp\<lparr>kcp_acklist := (kcp_acklist kcp)[p := sn, p + 1 := ts],
             kcp_ackcount := kcp_ackcount kcp + 1\<rparr>)"

definition ikcp_ack_get :: "ikcpcb \<Rightarrow> nat \<Rightarrow> u32 \<times> u32" where
  "ikcp_ack_get kcp p = (kcp_acklist kcp ! (p * 2 + 0), kcp_acklist kcp ! (p * 2 + 1))"

section \<open>Parse data\<close>

text \<open>
  The scan of \<open>rcv_buf\<close> from its tail: the first argument is the part not yet scanned,
  reversed, the second the part behind the cursor.
\<close>

fun rcv_scan :: "u32 \<Rightarrow> IKCPSEG list \<Rightarrow> IKCPSEG list \<Rightarrow> bool \<times> IKCPSEG list \<times> IKCPSEG list" where
  "rcv_scan sn [] after = (False, [], after)"
| "rcv_scan sn (seg # front) after =
     (if seg_sn seg = sn then (True, seg # front, after)
      else if itimediff sn (seg_sn seg) > 0 then (False, seg # front, after)
      else rcv_scan sn front (seg # after))"

definition ikcp_parse_data :: "ikcpcb \<Rightarrow> IKCPSEG \<Rightarrow> ikcpcb" where
  "ikcp_parse_data kcp newseg =
     (let sn = seg_sn newseg in
      if itimediff sn (kcp_rcv_nxt kcp + kcp_rcv_wnd kcp) \<ge> 0 \<or> itimediff sn (kcp_rcv_nxt kcp) < 0
      then kcp
      else let (repeat, front, after) = rcv_scan sn (rev (kcp_rcv_buf kcp)) [];
               kcp = (if repeat then kcp
                      else kcp\<lparr>kcp_rcv_buf := rev front @ newseg # after,
                               kcp_nrcv_buf := kcp_nrcv_buf kcp + 1\<rparr>)
           in ikcp_move_rcv kcp)"

section \<open>Input\<close>

text \<open>
  One segment of \<open>ikcp_input\<close>'s loop after its header has been accepted; \<open>data\<close> starts at
  the payload.  The loop variables \<open>flag\<close>, \<open>maxack\<close> and \<open>latest_ts\<close> are threaded.
\<close>

record input_st =
  in_kcp :: ikcpcb
  in_flag :: bool
  in_maxack :: u32
  in_latest_ts :: u32

definition input_ack :: "ikcp_hdr \<Rightarrow> input_st \<Rightarrow> input_st" where
  "input_ack h st =
     (let kcp = in_kcp st; ts = h_ts h; sn = h_sn h;
          kcp = (if itimediff (kcp_current kcp) ts \<ge> 0
                 then ikcp_update_ack kcp (word_of_int (itimediff (kcp_current kcp) ts)) else kcp);
          kcp = ikcp_parse_ack kcp sn;
          kcp = ikcp_shrink_buf kcp
      in if \<not> in_flag st
         then st\<lparr>in_kcp := kcp, in_flag := True, in_maxack := sn, in_latest_ts := ts\<rparr>
         else if itimediff sn (in_maxack st) > 0
         then st\<lparr>in_kcp := kcp, in_maxack := sn, in_latest_ts := ts\<rparr>
         else st\<lparr>in_kcp := kcp\<rparr>)"

definition input_push :: "u32 \<Rightarrow> ikcp_hdr \<Rightarrow> bytes \<Rightarrow> ikcpcb \<Rightarrow> ikcpcb" where
  "input_push conv h data kcp =
     (let ts = h_ts h; sn = h_sn h in
      if itimediff sn (kcp_rcv_nxt kcp + kcp_rcv_wnd kcp) < 0 then
        (let kcp = ikcp_ack_push kcp sn ts in
         if itimediff sn (kcp_rcv_nxt kcp) \<ge> 0 then
           ikcp_parse_data kcp
             ((ikcp_segment_new (h_len h) (ucast (h_frg h)) (take (unat (h_len h)) data))
                \<lparr>seg_conv := conv, seg_cmd := ucast (h_cmd h), seg_wnd := ucast (h_wnd h),
                 seg_ts := ts, seg_sn := sn, seg_una := h_una h\<rparr>)
         else kcp)
      else kcp)"

definition input_segment :: "u32 \<Rightarrow> ikcp_hdr \<Rightarrow> bytes \<Rightarrow> input_st \<Rightarrow> input_st" where
  "input_segment conv h data st =
     (let kcp = (in_kcp st)\<lparr>kcp_rmt_wnd := ucast (h_wnd h)\<rparr>;
          kcp = ikcp_parse_una kcp (h_una h);
          kcp = ikcp_shrink_buf kcp;
          st = st\<lparr>in_kcp := kcp\<rparr>;
          cmd = ucast (h_cmd h)
      in if cmd = IKCP_CMD_ACK then input_ack h st
         else if cmd = IKCP_CMD_PUSH then st\<lparr>in_kcp := input_push conv h data kcp\<rparr>
         else if cmd = IKCP_CMD_WASK
         then st\<lparr>in_kcp := kcp\<lparr>kcp_probe := kcp_probe kcp OR IKCP_ASK_TELL\<rparr>\<rparr>
         else st)"

text \<open>
  The loop.  An \<open>Inl\<close> result is an early return with its code (and the block as it is then);
  \<open>None\<close> would be a read past the end of the datagram.
\<close>

function input_loop :: "bytes \<Rightarrow> input_st \<Rightarrow> ((int \<times> ikcpcb) + input_st) option" where
  "input_loop data st =
     (if length data < unat IKCP_OVERHEAD then Some (Inr st)
      else case ikcp_decode32u data of
        None \<Rightarrow> None
      | Some (conv, d1) \<Rightarrow>
          if conv \<noteq> kcp_conv (in_kcp st) then Some (Inl (-1, in_kcp st))
          else case ikcp_decode_hdr d1 of
            None \<Rightarrow> None
          | Some (h, d2) \<Rightarrow>
              if int (length data - unat IKCP_OVERHEAD) < uint (h_len h) \<or> sint (h_len h) < 0
              then Some (Inl (-2, in_kcp st))
              else if ucast (h_cmd h) \<noteq> IKCP_CMD_PUSH \<and> ucast (h_cmd h) \<noteq> IKCP_CMD_ACK
                \<and> ucast (h_cmd h) \<noteq> IKCP_CMD_WASK \<and> ucast (h_cmd h) \<noteq> IKCP_CMD_WINS
              then Some (Inl (-3, in_kcp st))
              else input_loop (drop (unat IKCP_OVERHEAD + unat (h_len h)) data)
                     (input_segment conv h d2 st))"
  by pat_completeness auto
termination
  by (relation "measure (\<lambda>(data, st). length data)") auto

declare input_loop.simps [simp del]

text \<open>Congestion window growth when the input acknowledged something new.\<close>

definition input_cwnd :: "u32 \<Rightarrow> ikcpcb \<Rightarrow> ikcpcb" where
  "input_cwnd prev_una kcp =
     (if itimediff (kcp_snd_una kcp) prev_una > 0 \<and> kcp_cwnd kcp < kcp_rmt_wnd kcp then
        let mss = kcp_mss kcp;
            kcp = (if kcp_cwnd kcp < kcp_ssthresh kcp
                   then kcp\<lparr>kcp_cwnd := kcp_cwnd kcp + 1, kcp_incr := kcp_incr kcp + mss\<rparr>
                   else let incr = (if kcp_incr kcp < mss then mss else kcp_incr kcp);
                            incr = incr + ((mss * mss) div incr + mss div 16);
                            cwnd = (if (kcp_cwnd kcp + 1) * mss \<le> incr
                                    then kcp_cwnd kcp + 1 else kcp_cwnd kcp)
                        in kcp\<lparr>kcp_incr := incr, kcp_cwnd := cwnd\<rparr>)
        in if kcp_cwnd kcp > kcp_rmt_wnd kcp
           then kcp\<lparr>kcp_cwnd := kcp_rmt_wnd kcp, kcp_incr := kcp_rmt_wnd kcp * mss\<rparr>
           else kcp
      else kcp)"

text \<open>\<open>ikcp_input(kcp, data, size)\<close>: \<open>None\<close> as \<open>data\<close> is the null pointer.\<close>

definition ikcp_input :: "ikcpcb \<Rightarrow> bytes option \<Rightarrow> (int \<times> ikcpcb) option" where
  "ikcp_input kcp data =
     (case data of
        None \<Rightarrow> Some (-1, kcp)
      | Some data \<Rightarrow>
          if length data < unat IKCP_OVERHEAD then Some (-1, kcp)
          else let prev_una = kcp_snd_una kcp in
            case input_loop data \<lparr>in_kcp = kcp, in_flag = False, in_maxack = 0, in_latest_ts = 0\<rparr> of
              None \<Rightarrow> None
            | Some (Inl r) \<Rightarrow> Some r
            | Some (Inr st) \<Rightarrow>
                let kcp = (if in_flag st
                           then ikcp_parse_fastack (in_kcp st) (in_maxack st) (in_latest_ts st)
                           else in_kcp st)
                in Some (0, input_cwnd prev_una kcp))"

section \<open>Flush\<close>

definition ikcp_wnd_unused :: "ikcpcb \<Rightarrow> int" where
  "ikcp_wnd_unused kcp =
     (if kcp_nrcv_que kcp < kcp_rcv_wnd kcp then sint (kcp_rcv_wnd kcp - kcp_nrcv_que kcp) else 0)"

text \<open>
  \<open>ikcp_output\<close> hands the buffer to the callback unless it is empty.  The flush is modelled
  by the datagrams it hands over, in order; \<open>ptr\<close> is what has been encoded since.
\<close>

definition ikcp_output :: "bytes \<Rightarrow> bytes list \<Rightarrow> bytes list" where
  "ikcp_output data out = (if data = [] then out else out @ [data])"

definition flush_room :: "ikcpcb \<Rightarrow> int \<Rightarrow> bytes \<times> bytes list \<Rightarrow> bytes \<times> bytes list" where
  "flush_room kcp need = (\<lambda>(ptr, out).
     if int (length ptr) + need > sint (kcp_mtu kcp) then ([], ikcp_output ptr out) else (ptr, out))"

definition flush_hdr :: "ikcpcb \<Rightarrow> IKCPSEG \<Rightarrow> bytes \<times> bytes list \<Rightarrow> bytes \<times> bytes list" where
  "flush_hdr kcp seg b =
     (let (ptr, out) = flush_room kcp (sint IKCP_OVERHEAD) b in (ikcp_encode_seg ptr seg, out))"

text \<open>Flush acknowledges: the template segment keeps the last \<open>sn\<close> and \<open>ts\<close> it carried.\<close>

fun flush_acks :: "ikcpcb \<Rightarrow> nat list \<Rightarrow> IKCPSEG \<Rightarrow> bytes \<times> bytes list \<Rightarrow>
    IKCPSEG \<times> bytes \<times> bytes list" where
  "flush_acks kcp [] seg b = (seg, b)"
| "flush_acks kcp (i # is) seg b =
     (let (ptr, out) = flush_room kcp (sint IKCP_OVERHEAD) b;
          (sn, ts) = ikcp_ack_get kcp i;
          seg = seg\<lparr>seg_sn := sn, seg_ts := ts\<rparr>
      in flush_acks kcp is seg (ikcp_encode_seg ptr seg, out))"

text \<open>Probe window size (if remote window size equals zero).\<close>

definition flush_probe :: "ikcpcb \<Rightarrow> ikcpcb" where
  "flush_probe kcp =
     (if kcp_rmt_wnd kcp = 0 then
        if kcp_probe_wait kcp = 0 then
          kcp\<lparr>kcp_probe_wait := IKCP_PROBE_INIT, kcp_ts_probe := kcp_current kcp + IKCP_PROBE_INIT\<rparr>
        else if itimediff (kcp_current kcp) (kcp_ts_probe kcp) \<ge> 0 then
          let w = (if kcp_probe_wait kcp < IKCP_PROBE_INIT then IKCP_PROBE_INIT
                   else kcp_probe_wait kcp);
              w = w + w div 2;
              w = (if w > IKCP_PROBE_LIMIT then IKCP_PROBE_LIMIT else w)
          in kcp\<lparr>kcp_probe_wait := w, kcp_ts_probe := kcp_current kcp + w,
                 kcp_probe := kcp_probe kcp OR IKCP_ASK_SEND\<rparr>
        else kcp
      else kcp\<lparr>kcp_ts_probe := 0, kcp_probe_wait := 0\<rparr>)"

definition flush_probes :: "ikcpcb \<Rightarrow> IKCPSEG \<Rightarrow> bytes \<times> bytes list \<Rightarrow> IKCPSEG \<times> bytes \<times> bytes list" where
  "flush_probes kcp seg b =
     (let (seg, b) = (if kcp_probe kcp AND IKCP_ASK_SEND \<noteq> 0
            then let seg = seg\<lparr>seg_cmd := IKCP_CMD_WASK\<rparr> in (seg, flush_hdr kcp seg b)
            else (seg, b));
          (seg, b) = (if kcp_probe kcp AND IKCP_ASK_TELL \<noteq> 0
            then let seg = seg\<lparr>seg_cmd := IKCP_CMD_WINS\<rparr> in (seg, flush_hdr kcp seg b)
            else (seg, b))
      in (seg, b))"

definition flush_window :: "ikcpcb \<Rightarrow> u32" where
  "flush_window kcp =
     (let cwnd = imin (kcp_snd_wnd kcp) (kcp_rmt_wnd kcp)
      in if kcp_nocwnd kcp = 0 then imin (kcp_cwnd kcp) cwnd else cwnd)"

text \<open>Move data from \<open>snd_queue\<close> to \<open>snd_buf\<close>.\<close>

definition flush_stamp :: "u32 \<Rightarrow> ikcpcb \<Rightarrow> IKCPSEG \<Rightarrow> IKCPSEG" where
  "flush_stamp wnd kcp newseg = newseg
     \<lparr>seg_conv := kcp_conv kcp, seg_cmd := IKCP_CMD_PUSH, seg_wnd := wnd,
      seg_ts := kcp_current kcp, seg_sn := kcp_snd_nxt kcp, seg_una := kcp_rcv_nxt kcp,
      seg_resendts := kcp_current kcp, seg_rto := kcp_rx_rto kcp, seg_fastack := 0,
      seg_xmit := 0\<rparr>"

function flush_move :: "u32 \<Rightarrow> u32 \<Rightarrow> ikcpcb \<Rightarrow> ikcpcb" where
  "flush_move cwnd wnd kcp =
     (if itimediff (kcp_snd_nxt kcp) (kcp_snd_una kcp + cwnd) < 0 then
        (case kcp_snd_queue kcp of
           [] \<Rightarrow> kcp
         | newseg # rest \<Rightarrow>
             flush_move cwnd wnd (kcp\<lparr>kcp_snd_queue := rest,
               kcp_snd_buf := kcp_snd_buf kcp @ [flush_stamp wnd kcp newseg],
               kcp_nsnd_que := kcp_nsnd_que kcp - 1, kcp_nsnd_buf := kcp_nsnd_buf kcp + 1,
               kcp_snd_nxt := kcp_snd_nxt kcp + 1\<rparr>))
      else kcp)"
  by pat_completeness auto
termination
  by (relation "measure (\<lambda>(cwnd, wnd, kcp). length (kcp_snd_queue kcp))") auto

declare flush_move.simps [simp del]

text \<open>Flush data segments: one iteration of the loop over \<open>snd_buf\<close>.\<close>

record flush_st =
  fl_kcp :: ikcpcb
  fl_buf :: "bytes \<times> bytes list"
  fl_change :: int
  fl_lost :: bool

definition flush_decide :: "u32 \<Rightarrow> u32 \<Rightarrow> IKCPSEG \<Rightarrow> flush_st \<Rightarrow> bool \<times> IKCPSEG \<times> flush_st" where
  "flush_decide resent rtomin seg st =
     (let kcp = fl_kcp st; current = kcp_current kcp in
      if seg_xmit seg = 0 then
        (True, seg\<lparr>seg_xmit := seg_xmit seg + 1, seg_rto := kcp_rx_rto kcp,
                   seg_resendts := current + kcp_rx_rto kcp + rtomin\<rparr>, st)
      else if itimediff current (seg_resendts seg) \<ge> 0 then
        (let rto = (if kcp_nodelay kcp = 0 then seg_rto seg + kcp_rx_rto kcp
                    else seg_rto seg + word_of_int (cdiv (sint (kcp_rx_rto kcp)) 2))
         in (True, seg\<lparr>seg_xmit := seg_xmit seg + 1, seg_rto := rto, seg_resendts := current + rto\<rparr>,
             st\<lparr>fl_kcp := kcp\<lparr>kcp_xmit := kcp_xmit kcp + 1\<rparr>, fl_lost := True\<rparr>))
      else if seg_fastack seg \<ge> resent
        \<and> (sint (seg_xmit seg) \<le> kcp_fastlimit kcp \<or> kcp_fastlimit kcp \<le> 0) then
        (True, seg\<lparr>seg_xmit := seg_xmit seg + 1, seg_fastack := 0,
                   seg_resendts := current + seg_rto seg\<rparr>,
         st\<lparr>fl_change := fl_change st + 1\<rparr>)
      else (False, seg, st))"

definition flush_emit :: "u32 \<Rightarrow> IKCPSEG \<Rightarrow> flush_st \<Rightarrow> IKCPSEG \<times> flush_st" where
  "flush_emit wnd seg st =
     (let kcp = fl_kcp st;
          seg = seg\<lparr>seg_ts := kcp_current kcp, seg_wnd := wnd, seg_una := kcp_rcv_nxt kcp\<rparr>;
          need = sint (IKCP_OVERHEAD + seg_len seg);
          (ptr, out) = flush_room kcp need (fl_buf st);
          ptr = ikcp_encode_seg ptr seg;
          ptr = ptr @ take (unat (seg_len seg)) (seg_data seg);
          kcp = (if seg_xmit seg \<ge> kcp_dead_link kcp then kcp\<lparr>kcp_state := -1\<rparr> else kcp)
      in (seg, st\<lparr>fl_kcp := kcp, fl_buf := (ptr, out)\<rparr>))"

definition flush_segment :: "u32 \<Rightarrow> u32 \<Rightarrow> u32 \<Rightarrow> IKCPSEG \<Rightarrow> flush_st \<Rightarrow> IKCPSEG \<times> flush_st" where
  "flush_segment wnd resent rtomin seg st =
     (let (needsend, seg, st) = flush_decide resent rtomin seg st
      in if needsend then flush_emit wnd seg st else (seg, st))"

fun flush_data :: "u32 \<Rightarrow> u32 \<Rightarrow> u32 \<Rightarrow> IKCPSEG list \<Rightarrow> flush_st \<Rightarrow> IKCPSEG list \<times> flush_st" where
  "flush_data wnd resent rtomin [] st = ([], st)"
| "flush_data wnd resent rtomin (seg # segs) st =
     (let (seg, st) = flush_segment wnd resent rtomin seg st;
          (segs, st) = flush_data wnd resent rtomin segs st
      in (seg # segs, st))"

text \<open>Update \<open>ssthresh\<close> and the congestion window.\<close>

definition flush_cwnd :: "u32 \<Rightarrow> u32 \<Rightarrow> bool \<Rightarrow> bool \<Rightarrow> ikcpcb \<Rightarrow> ikcpcb" where
  "flush_cwnd cwnd resent change lost kcp =
     (let kcp = (if change then
                   let inflight = kcp_snd_nxt kcp - kcp_snd_una kcp;
                       ss = inflight div 2;
                       ss = (if ss < IKCP_THRESH_MIN then IKCP_THRESH_MIN else ss)
                   in kcp\<lparr>kcp_ssthresh := ss, kcp_cwnd := ss + resent,
                          kcp_incr := (ss + resent) * kcp_mss kcp\<rparr>
                 else kcp);
          kcp = (if lost then
                   let ss = cwnd div 2;
                       ss = (if ss < IKCP_THRESH_MIN then IKCP_THRESH_MIN else ss)
                   in kcp\<lparr>kcp_ssthresh := ss, kcp_cwnd := 1, kcp_incr := kcp_mss kcp\<rparr>
                 else kcp)
      in if kcp_cwnd kcp < 1 then kcp\<lparr>kcp_cwnd := 1, kcp_incr := kcp_mss kcp\<rparr> else kcp)"

definition flush_template :: "ikcpcb \<Rightarrow> IKCPSEG" where
  "flush_template kcp =
     (ikcp_segment_new 0 0 [])\<lparr>seg_conv := kcp_conv kcp, seg_cmd := IKCP_CMD_ACK,
        seg_wnd := word_of_int (ikcp_wnd_unused kcp), seg_una := kcp_rcv_nxt kcp\<rparr>"

definition ikcp_flush :: "ikcpcb \<Rightarrow> bytes list \<times> ikcpcb" where
  "ikcp_flush kcp =
     (if kcp_updated kcp = 0 then ([], kcp)
      else let
        (seg, b) = flush_acks kcp [0..<nat (sint (kcp_ackcount kcp))] (flush_template kcp) ([], []);
        kcp = kcp\<lparr>kcp_ackcount := 0\<rparr>;
        kcp = flush_probe kcp;
        (seg, b) = flush_probes kcp seg b;
        kcp = kcp\<lparr>kcp_probe := 0\<rparr>;
        cwnd = flush_window kcp;
        kcp = flush_move cwnd (seg_wnd seg) kcp;
        resent = (if kcp_fastresend kcp > 0 then word_of_int (kcp_fastresend kcp) else 0xffffffff);
        rtomin = (if kcp_nodelay kcp = 0 then signed_drop_bit 3 (kcp_rx_rto kcp) else 0);
        (segs, st) = flush_data (seg_wnd seg) resent rtomin (kcp_snd_buf kcp)
            \<lparr>fl_kcp = kcp, fl_buf = b, fl_change = 0, fl_lost = False\<rparr>;
        kcp = (fl_kcp st)\<lparr>kcp_snd_buf := segs\<rparr>;
        (ptr, out) = fl_buf st;
        out = ikcp_output ptr out
      in (out, flush_cwnd cwnd resent (fl_change st \<noteq> 0) (fl_lost st) kcp))"

section \<open>Clock and settings\<close>

definition ikcp_update :: "ikcpcb \<Rightarrow> u32 \<Rightarrow> bytes list \<times> ikcpcb" where
  "ikcp_update kcp current =
     (let kcp = kcp\<lparr>kcp_current := current\<rparr>;
          kcp = (if kcp_updated kcp = 0
                 then kcp\<lparr>kcp_updated := 1, kcp_ts_flush := kcp_current kcp\<rparr> else kcp);
          slap = itimediff (kcp_current kcp) (kcp_ts_flush kcp);
          (slap, kcp) = (if slap \<ge> 10000 \<or> slap < -10000
                         then (0, kcp\<lparr>kcp_ts_flush := kcp_current kcp\<rparr>) else (slap, kcp))
      in if slap \<ge> 0 then
           let kcp = kcp\<lparr>kcp_ts_flush := kcp_ts_flush kcp + kcp_interval kcp\<rparr>;
               kcp = (if itimediff (kcp_current kcp) (kcp_ts_flush kcp) \<ge> 0
                      then kcp\<lparr>kcp_ts_flush := kcp_current kcp + kcp_interval kcp\<rparr> else kcp)
           in ikcp_flush kcp
         else ([], kcp))"

text \<open>The loop of \<open>ikcp_check\<close>: \<open>None\<close> when a segment is due.\<close>

fun check_packets :: "u32 \<Rightarrow> IKCPSEG list \<Rightarrow> int \<Rightarrow> int option" where
  "check_packets current [] tm_packet = Some tm_packet"
| "check_packets current (seg # segs) tm_packet =
     (let diff = itimediff (seg_resendts seg) current in
      if diff \<le> 0 then None
      else check_packets current segs (if diff < tm_packet then diff else tm_packet))"

definition ikcp_check :: "ikcpcb \<Rightarrow> u32 \<Rightarrow> u32" where
  "ikcp_check kcp current =
     (if kcp_updated kcp = 0 then current
      else let ts_flush = kcp_ts_flush kcp;
               ts_flush = (if itimediff current ts_flush \<ge> 10000 \<or> itimediff current ts_flush < -10000
                           then current else ts_flush)
           in if itimediff current ts_flush \<ge> 0 then current
              else let tm_flush = itimediff ts_flush current in
                case check_packets current (kcp_snd_buf kcp) 0x7fffffff of
                  None \<Rightarrow> current
                | Some tm_packet \<Rightarrow>
                    let minimal = word_of_int (if tm_packet < tm_flush then tm_packet else tm_flush);
                        minimal = (if minimal \<ge> kcp_interval kcp then kcp_interval kcp else minimal)
                    in current + minimal)"

definition ikcp_setmtu :: "(nat \<Rightarrow> bool) \<Rightarrow> ikcpcb \<Rightarrow> int \<Rightarrow> int \<times> ikcpcb" where
  "ikcp_setmtu mem kcp mtu =
     (if mtu < 50 \<or> mtu < sint IKCP_OVERHEAD then (-1, kcp)
      else if \<not> mem 0 then (-2, kcp)
      else (0, kcp\<lparr>kcp_mtu := word_of_int mtu, kcp_mss := word_of_int mtu - IKCP_OVERHEAD,
                   kcp_bufsize := uint ((word_of_int mtu + IKCP_OVERHEAD) * 3)\<rparr>))"

definition ikcp_interval :: "ikcpcb \<Rightarrow> int \<Rightarrow> ikcpcb" where
  "ikcp_interval kcp interval =
     (let interval = (if interval > 5000 then 5000 else if interval < 10 then 10 else interval)
      in kcp\<lparr>kcp_interval := word_of_int interval\<rparr>)"

definition ikcp_nodelay :: "ikcpcb \<Rightarrow> int \<Rightarrow> int \<Rightarrow> int \<Rightarrow> int \<Rightarrow> ikcpcb" where
  "ikcp_nodelay kcp nodelay interval resend nc =
     (let kcp = (if nodelay \<ge> 0 then
                   kcp\<lparr>kcp_nodelay := word_of_int nodelay,
                       kcp_rx_minrto := (if nodelay \<noteq> 0 then IKCP_RTO_NDL else IKCP_RTO_MIN)\<rparr>
                 else kcp);
          kcp = (if interval \<ge> 0 then
                   let interval = (if interval > 5000 then 5000 else if interval < 10 then 10
                                   else interval)
                   in kcp\<lparr>kcp_interval := word_of_int interval\<rparr>
                 else kcp);
          kcp = (if resend \<ge> 0 then kcp\<lparr>kcp_fastresend := resend\<rparr> else kcp)
      in if nc \<ge> 0 then kcp\<lparr>kcp_nocwnd := nc\<rparr> else kcp)"

definition ikcp_wndsize :: "ikcpcb \<Rightarrow> int \<Rightarrow> int \<Rightarrow> ikcpcb" where
  "ikcp_wndsize kcp sndwnd rcvwnd =
     (let kcp = (if sndwnd > 0 then kcp\<lparr>kcp_snd_wnd := word_of_int sndwnd\<rparr> else kcp)
      in if rcvwnd > 0 then kcp\<lparr>kcp_rcv_wnd := imax (word_of_int rcvwnd) IKCP_WND_RCV\<rparr> else kcp)"

definition ikcp_waitsnd :: "ikcpcb \<Rightarrow> int" where
  "ikcp_waitsnd kcp = sint (kcp_nsnd_buf kcp + kcp_nsnd_que kcp)"

end
