(* ===== verification/Kcp_Recv.thy ===== *)
theory Kcp_Recv
  imports Kcp_Ops
begin

text \<open>
  The receiving half of KCP: what \<open>ikcp_parse_data\<close> keeps in \<open>rcv_buf\<close>, what it moves to
  \<open>rcv_queue\<close>, and what \<open>ikcp_recv\<close> hands to the user.
\<close>

section \<open>Moving segments to the receive queue\<close>

lemma move_rcv_spec:
  "\<exists>k\<le>length (kcp_rcv_buf kcp).
     ikcp_move_rcv kcp = kcp\<lparr>kcp_rcv_buf := drop k (kcp_rcv_buf kcp),
       kcp_nrcv_buf := kcp_nrcv_buf kcp - of_nat k,
       kcp_rcv_queue := kcp_rcv_queue kcp @ take k (kcp_rcv_buf kcp),
       kcp_nrcv_que := kcp_nrcv_que kcp + of_nat k,
       kcp_rcv_nxt := kcp_rcv_nxt kcp + of_nat k\<rparr>
   \<and> (\<forall>i<k. seg_sn (kcp_rcv_buf kcp ! i) = kcp_rcv_nxt kcp + of_nat i
        \<and> kcp_nrcv_que kcp + of_nat i < kcp_rcv_wnd kcp)
   \<and> (k < length (kcp_rcv_buf kcp) \<longrightarrow> kcp_nrcv_que kcp + of_nat k < kcp_rcv_wnd kcp \<longrightarrow>
        seg_sn (kcp_rcv_buf kcp ! k) \<noteq> kcp_rcv_nxt kcp + of_nat k)"
proof (induction kcp rule: ikcp_move_rcv.induct)
  case (1 kcp)
  show ?case
  proof (cases "kcp_rcv_buf kcp")
    case Nil
    then show ?thesis by (simp add: ikcp_move_rcv.simps [of kcp])
  next
    case (Cons seg rest)
    show ?thesis
    proof (cases "seg_sn seg = kcp_rcv_nxt kcp \<and> kcp_nrcv_que kcp < kcp_rcv_wnd kcp")
      case False
      with Cons show ?thesis
        by (intro exI [of _ 0]) (auto simp: ikcp_move_rcv.simps [of kcp])
    next
      case True
      let ?kcp = "kcp\<lparr>kcp_rcv_buf := rest, kcp_nrcv_buf := kcp_nrcv_buf kcp - 1,
        kcp_rcv_queue := kcp_rcv_queue kcp @ [seg], kcp_nrcv_que := kcp_nrcv_que kcp + 1,
        kcp_rcv_nxt := kcp_rcv_nxt kcp + 1\<rparr>"
      have step: "ikcp_move_rcv kcp = ikcp_move_rcv ?kcp"
        using Cons True by (simp add: ikcp_move_rcv.simps [of kcp])
      from "1.IH" [OF Cons True] obtain k where k: "k \<le> length rest"
        and eq: "ikcp_move_rcv ?kcp = ?kcp\<lparr>kcp_rcv_buf := drop k rest,
            kcp_nrcv_buf := kcp_nrcv_buf kcp - 1 - of_nat k,
            kcp_rcv_queue := (kcp_rcv_queue kcp @ [seg]) @ take k rest,
            kcp_nrcv_que := kcp_nrcv_que kcp + 1 + of_nat k,
            kcp_rcv_nxt := kcp_rcv_nxt kcp + 1 + of_nat k\<rparr>"
        and run: "\<forall>i<k. seg_sn (rest ! i) = kcp_rcv_nxt kcp + 1 + of_nat i
            \<and> kcp_nrcv_que kcp + 1 + of_nat i < kcp_rcv_wnd kcp"
        and stop: "k < length rest \<longrightarrow> kcp_nrcv_que kcp + 1 + of_nat k < kcp_rcv_wnd kcp \<longrightarrow>
            seg_sn (rest ! k) \<noteq> kcp_rcv_nxt kcp + 1 + of_nat k"
        by auto
      have "\<forall>i<Suc k. seg_sn ((seg # rest) ! i) = kcp_rcv_nxt kcp + of_nat i
          \<and> kcp_nrcv_que kcp + of_nat i < kcp_rcv_wnd kcp"
        using run True by (auto simp: less_Suc_eq_0_disj algebra_simps)
      with k eq stop step Cons show ?thesis
        by (intro exI [of _ "Suc k"]) (simp add: algebra_simps)
    qed
  qed
qed

section \<open>The receive invariant\<close>

text \<open>
  Sequence numbers are ordered by their offset from \<open>rcv_nxt\<close>; everything held in
  \<open>rcv_buf\<close> is less than half the number space ahead.
\<close>

definition rcv_off :: "ikcpcb \<Rightarrow> IKCPSEG \<Rightarrow> nat" where
  "rcv_off kcp seg = unat (seg_sn seg - kcp_rcv_nxt kcp)"

definition seg_ok :: "IKCPSEG \<Rightarrow> bool" where
  "seg_ok seg \<longleftrightarrow> unat (seg_len seg) = length (seg_data seg)"

definition rcv_inv :: "ikcpcb \<Rightarrow> bool" where
  "rcv_inv kcp \<longleftrightarrow>
     128 \<le> unat (kcp_rcv_wnd kcp) \<and> unat (kcp_rcv_wnd kcp) < 2147483648 \<and>
     kcp_nrcv_que kcp = of_nat (length (kcp_rcv_queue kcp)) \<and>
     length (kcp_rcv_queue kcp) < 2147483648 \<and>
     kcp_nrcv_buf kcp = of_nat (length (kcp_rcv_buf kcp)) \<and>
     sorted_wrt (<) (map (rcv_off kcp) (kcp_rcv_buf kcp)) \<and>
     (\<forall>s\<in>set (kcp_rcv_buf kcp). rcv_off kcp s < 2147483648) \<and>
     (\<forall>s\<in>set (kcp_rcv_queue kcp) \<union> set (kcp_rcv_buf kcp). seg_ok s)"

text \<open>The fields the receive side reads and writes; any other operation leaves them alone.\<close>

definition rcv_same :: "ikcpcb \<Rightarrow> ikcpcb \<Rightarrow> bool" where
  "rcv_same kcp kcp' \<longleftrightarrow>
     kcp_rcv_wnd kcp' = kcp_rcv_wnd kcp \<and> kcp_nrcv_que kcp' = kcp_nrcv_que kcp \<and>
     kcp_rcv_queue kcp' = kcp_rcv_queue kcp \<and> kcp_nrcv_buf kcp' = kcp_nrcv_buf kcp \<and>
     kcp_rcv_buf kcp' = kcp_rcv_buf kcp \<and> kcp_rcv_nxt kcp' = kcp_rcv_nxt kcp"

lemma rcv_same_inv: "rcv_same kcp kcp' \<Longrightarrow> rcv_inv kcp' = rcv_inv kcp"
proof -
  assume same: "rcv_same kcp kcp'"
  then have "rcv_off kcp' = rcv_off kcp"
    by (simp add: rcv_same_def rcv_off_def fun_eq_iff)
  with same show ?thesis by (simp add: rcv_inv_def rcv_same_def)
qed

lemma rcv_same_refl [simp]: "rcv_same kcp kcp"
  by (simp add: rcv_same_def)

lemma rcv_same_trans: "rcv_same a b \<Longrightarrow> rcv_same b c \<Longrightarrow> rcv_same a c"
  by (simp add: rcv_same_def)

lemma unat_word_of_nat_32: "m < 4294967296 \<Longrightarrow> unat (of_nat m :: u32) = m"
  by (simp add: unat_of_nat)

lemma itimediff_origin:
  assumes "unat (a - n) < 2147483648" "unat (b - n) < 2147483648"
  shows "0 < itimediff a b \<longleftrightarrow> unat (b - n) < unat (a - n)"
    and "itimediff a b < 0 \<longleftrightarrow> unat (a - n) < unat (b - n)"
  using sint_diff_origin [OF assms] unfolding itimediff_def by linarith+

lemma rcv_accept_iff:
  assumes "unat (kcp_rcv_wnd kcp) < 2147483648"
  shows "itimediff sn (kcp_rcv_nxt kcp + kcp_rcv_wnd kcp) \<ge> 0 \<or> itimediff sn (kcp_rcv_nxt kcp) < 0
    \<longleftrightarrow> unat (kcp_rcv_wnd kcp) \<le> unat (sn - kcp_rcv_nxt kcp)"
proof (cases "unat (sn - kcp_rcv_nxt kcp) < 2147483648")
  case True
  have "itimediff sn (kcp_rcv_nxt kcp + kcp_rcv_wnd kcp)
      = sint ((sn - kcp_rcv_nxt kcp) - kcp_rcv_wnd kcp)"
    by (simp add: itimediff_def algebra_simps)
  also have "\<dots> = int (unat (sn - kcp_rcv_nxt kcp)) - int (unat (kcp_rcv_wnd kcp))"
    using sint_diff_u32 [OF True assms] .
  finally have wnd: "itimediff sn (kcp_rcv_nxt kcp + kcp_rcv_wnd kcp)
      = int (unat (sn - kcp_rcv_nxt kcp)) - int (unat (kcp_rcv_wnd kcp))" .
  have "itimediff sn (kcp_rcv_nxt kcp) = int (unat (sn - kcp_rcv_nxt kcp))"
    using True unfolding itimediff_def by (simp only: sint_u32_cases if_True)
  with wnd show ?thesis by linarith
next
  case False
  then have "itimediff sn (kcp_rcv_nxt kcp) < 0"
    using unat_lt_2_32 [of "sn - kcp_rcv_nxt kcp"]
    by (simp only: itimediff_def sint_u32_cases if_False)
  with False assms show ?thesis by linarith
qed

lemma rcv_scan_spec:
  fixes n :: u32
  defines "off \<equiv> \<lambda>s. unat (seg_sn s - n)"
  assumes "sorted_wrt (>) (map off r)" "\<forall>s\<in>set r. off s < 2147483648" "unat (sn - n) < 2147483648"
    and "rcv_scan sn r after = (rep, front', after')"
  shows "rev front' @ after' = rev r @ after \<and> (rep \<longleftrightarrow> (\<exists>s\<in>set r. seg_sn s = sn))
    \<and> (\<not> rep \<longrightarrow> (\<forall>s\<in>set front'. off s < unat (sn - n)) \<and>
         (\<exists>mid. after' = mid @ after \<and> (\<forall>s\<in>set mid. unat (sn - n) < off s)))"
  using assms(2-)
proof (induction r arbitrary: after)
  case Nil
  then show ?case by auto
next
  case (Cons s r)
  have diff: "0 < itimediff sn (seg_sn s) \<longleftrightarrow> off s < unat (sn - n)"
    using Cons.prems itimediff_origin [of sn n "seg_sn s"] by (simp add: off_def)
  consider "seg_sn s = sn" | "seg_sn s \<noteq> sn" "off s < unat (sn - n)" | "unat (sn - n) < off s"
  proof -
    have "off s = unat (sn - n) \<Longrightarrow> seg_sn s = sn"
      unfolding off_def by (drule word_unat_eq_iff [THEN iffD2]) simp
    with that show ?thesis by (metis linorder_neqE_nat)
  qed
  then show ?case
  proof cases
    case 1
    with Cons.prems show ?thesis by auto
  next
    case 2
    have "\<forall>s'\<in>set r. off s' < off s"
      using Cons.prems(1) by auto
    moreover from this have "\<forall>s'\<in>set r. seg_sn s' \<noteq> sn"
      using 2 by (auto simp: off_def)
    ultimately show ?thesis using 2 diff Cons.prems by (auto dest: less_trans)
  next
    case 3
    then have ne: "seg_sn s \<noteq> sn" by (auto simp: off_def)
    with 3 diff Cons.prems have scan: "rcv_scan sn r (s # after) = (rep, front', after')"
      by simp
    have "rev front' @ after' = rev r @ s # after \<and> (rep \<longleftrightarrow> (\<exists>s\<in>set r. seg_sn s = sn))
      \<and> (\<not> rep \<longrightarrow> (\<forall>s\<in>set front'. off s < unat (sn - n)) \<and>
           (\<exists>mid. after' = mid @ s # after \<and> (\<forall>s\<in>set mid. unat (sn - n) < off s)))"
      by (rule Cons.IH) (use Cons.prems scan in auto)
    with ne 3 show ?thesis
      by (auto 0 4 intro: exI [of _ "_ @ [s]"])
  qed
qed

text \<open>Inserting a segment that passed the window check.\<close>

definition rcv_insert :: "ikcpcb \<Rightarrow> IKCPSEG \<Rightarrow> ikcpcb" where
  "rcv_insert kcp newseg =
     (let (repeat, front, after) = rcv_scan (seg_sn newseg) (rev (kcp_rcv_buf kcp)) []
      in if repeat then kcp
         else kcp\<lparr>kcp_rcv_buf := rev front @ newseg # after,
                  kcp_nrcv_buf := kcp_nrcv_buf kcp + 1\<rparr>)"

lemma parse_data_insert:
  "unat (kcp_rcv_wnd kcp) < 2147483648 \<Longrightarrow>
   ikcp_parse_data kcp seg =
     (if unat (kcp_rcv_wnd kcp) \<le> rcv_off kcp seg then kcp else ikcp_move_rcv (rcv_insert kcp seg))"
  unfolding ikcp_parse_data_def rcv_insert_def Let_def rcv_accept_iff rcv_off_def
  by (simp split: prod.split)

lemma rcv_insert_inv:
  assumes inv: "rcv_inv kcp" and off: "rcv_off kcp seg < 2147483648" and ok: "seg_ok seg"
  shows "rcv_inv (rcv_insert kcp seg)"
    and "set (kcp_rcv_buf (rcv_insert kcp seg)) \<subseteq> insert seg (set (kcp_rcv_buf kcp))"
    and "kcp_rcv_nxt (rcv_insert kcp seg) = kcp_rcv_nxt kcp"
    and "kcp_rcv_queue (rcv_insert kcp seg) = kcp_rcv_queue kcp"
    and "\<exists>s\<in>set (kcp_rcv_buf (rcv_insert kcp seg)). seg_sn s = seg_sn seg"
proof -
  obtain rep front after where
    scan: "rcv_scan (seg_sn seg) (rev (kcp_rcv_buf kcp)) [] = (rep, front, after)"
    by (metis prod_cases3)
  have sorted: "sorted_wrt (>) (map (\<lambda>s. unat (seg_sn s - kcp_rcv_nxt kcp)) (rev (kcp_rcv_buf kcp)))"
    using inv unfolding rcv_inv_def rcv_off_def
    by (simp add: rev_map [symmetric] sorted_wrt_rev)
  have bound: "\<forall>s\<in>set (rev (kcp_rcv_buf kcp)). unat (seg_sn s - kcp_rcv_nxt kcp) < 2147483648"
    using inv unfolding rcv_inv_def rcv_off_def by simp
  note spec = rcv_scan_spec [OF sorted bound off [unfolded rcv_off_def] scan, simplified]
  show "kcp_rcv_nxt (rcv_insert kcp seg) = kcp_rcv_nxt kcp"
    "kcp_rcv_queue (rcv_insert kcp seg) = kcp_rcv_queue kcp"
    by (auto simp: rcv_insert_def scan)
  have buf: "rev front @ after = kcp_rcv_buf kcp"
    using spec by simp
  show "set (kcp_rcv_buf (rcv_insert kcp seg)) \<subseteq> insert seg (set (kcp_rcv_buf kcp))"
    using scan by (auto simp: rcv_insert_def buf [symmetric])
  show "\<exists>s\<in>set (kcp_rcv_buf (rcv_insert kcp seg)). seg_sn s = seg_sn seg"
    using spec by (auto simp: rcv_insert_def scan)
  show "rcv_inv (rcv_insert kcp seg)"
  proof (cases rep)
    case True
    with inv show ?thesis by (simp add: rcv_insert_def scan)
  next
    case False
    let ?kcp = "kcp\<lparr>kcp_rcv_buf := rev front @ seg # after, kcp_nrcv_buf := kcp_nrcv_buf kcp + 1\<rparr>"
    have off_eq: "rcv_off ?kcp = rcv_off kcp"
      by (simp add: rcv_off_def fun_eq_iff)
    have len: "length (kcp_rcv_buf kcp) = length front + length after"
      using buf [symmetric] by simp
    have old: "sorted_wrt (<) (map (rcv_off kcp) (rev front @ after))"
      "\<forall>s\<in>set (rev front @ after). rcv_off kcp s < 2147483648 \<and> seg_ok s"
      using inv unfolding rcv_inv_def buf by auto
    have "\<forall>s\<in>set front. rcv_off kcp s < rcv_off kcp seg" "\<forall>s\<in>set after. rcv_off kcp seg < rcv_off kcp s"
      using spec False by (simp_all add: rcv_off_def)
    with old(1) have "sorted_wrt (<) (map (rcv_off kcp) (rev front @ seg # after))"
      by (auto simp: sorted_wrt_append)
    moreover have "kcp_nrcv_buf kcp + 1 = of_nat (length (rev front @ seg # after))"
      using inv len by (simp add: rcv_inv_def)
    ultimately have "rcv_inv ?kcp"
      using inv old(2) off ok unfolding rcv_inv_def off_eq by auto
    with False show ?thesis by (simp add: rcv_insert_def scan)
  qed
qed

text \<open>Moving the ready segments keeps the invariant.\<close>

lemma rcv_off_shift:
  assumes "k \<le> rcv_off kcp s"
  shows "rcv_off (kcp\<lparr>kcp_rcv_nxt := kcp_rcv_nxt kcp + of_nat k\<rparr>) s = rcv_off kcp s - k"
proof -
  let ?d = "seg_sn s - kcp_rcv_nxt kcp"
  have k: "unat (of_nat k :: u32) = k"
    using assms unat_lt_2_32 [of ?d] unfolding rcv_off_def by (intro unat_word_of_nat_32) linarith
  have "unat (?d - of_nat k) = unat ?d - k"
    using assms k by (simp add: unat_sub word_le_nat_alt rcv_off_def)
  then show ?thesis by (simp add: rcv_off_def algebra_simps)
qed

lemma rcv_prefix_off:
  assumes "\<forall>i<k. seg_sn (kcp_rcv_buf kcp ! i) = kcp_rcv_nxt kcp + of_nat i"
    and "k \<le> length (kcp_rcv_buf kcp)" "sorted_wrt (<) (map (rcv_off kcp) (kcp_rcv_buf kcp))"
    and "\<forall>s\<in>set (kcp_rcv_buf kcp). rcv_off kcp s < 2147483648"
  shows "\<forall>i<k. rcv_off kcp (kcp_rcv_buf kcp ! i) = i"
    and "\<forall>s\<in>set (drop k (kcp_rcv_buf kcp)). k \<le> rcv_off kcp s"
proof -
  have ge: "i \<le> rcv_off kcp (kcp_rcv_buf kcp ! i)" if "i < length (kcp_rcv_buf kcp)" for i
    using that
  proof (induction i)
    case (Suc i)
    then have "rcv_off kcp (kcp_rcv_buf kcp ! i) < rcv_off kcp (kcp_rcv_buf kcp ! Suc i)"
      using sorted_wrt_nth_less [OF assms(3), of i "Suc i"] by simp
    with Suc show ?case by simp
  qed simp
  show "\<forall>s\<in>set (drop k (kcp_rcv_buf kcp)). k \<le> rcv_off kcp s"
  proof
    fix s assume "s \<in> set (drop k (kcp_rcv_buf kcp))"
    then obtain j where "j < length (kcp_rcv_buf kcp) - k" "s = kcp_rcv_buf kcp ! (k + j)"
      by (auto simp: in_set_conv_nth)
    with ge [of "k + j"] assms(2) show "k \<le> rcv_off kcp s" by (simp add: less_diff_conv add.commute)
  qed
  show "\<forall>i<k. rcv_off kcp (kcp_rcv_buf kcp ! i) = i"
  proof (intro allI impI)
    fix i assume i: "i < k"
    with assms(2) have "i < length (kcp_rcv_buf kcp)" by simp
    with ge [of i] have "i \<le> rcv_off kcp (kcp_rcv_buf kcp ! i)" by simp
    then have "i < 4294967296"
      unfolding rcv_off_def using unat_lt_2_32 [of "seg_sn (kcp_rcv_buf kcp ! i) - kcp_rcv_nxt kcp"]
      by linarith
    with assms(1) i show "rcv_off kcp (kcp_rcv_buf kcp ! i) = i"
      by (simp add: rcv_off_def unat_word_of_nat_32)
  qed
qed

lemma move_rcv_inv:
  assumes inv: "rcv_inv kcp"
  shows "\<exists>k\<le>length (kcp_rcv_buf kcp). rcv_inv (ikcp_move_rcv kcp)
    \<and> ikcp_move_rcv kcp = kcp\<lparr>kcp_rcv_buf := drop k (kcp_rcv_buf kcp),
         kcp_nrcv_buf := kcp_nrcv_buf kcp - of_nat k,
         kcp_rcv_queue := kcp_rcv_queue kcp @ take k (kcp_rcv_buf kcp),
         kcp_nrcv_que := kcp_nrcv_que kcp + of_nat k,
         kcp_rcv_nxt := kcp_rcv_nxt kcp + of_nat k\<rparr>
    \<and> (\<forall>i<k. rcv_off kcp (kcp_rcv_buf kcp ! i) = i)
    \<and> (\<forall>s\<in>set (drop k (kcp_rcv_buf kcp)). k \<le> rcv_off kcp s)
    \<and> (0 < k \<longrightarrow> length (kcp_rcv_queue kcp) + k \<le> unat (kcp_rcv_wnd kcp))"
proof -
  let ?B = "kcp_rcv_buf kcp"
  from move_rcv_spec [of kcp] obtain k where k: "k \<le> length ?B"
    and eq: "ikcp_move_rcv kcp = kcp\<lparr>kcp_rcv_buf := drop k ?B,
         kcp_nrcv_buf := kcp_nrcv_buf kcp - of_nat k,
         kcp_rcv_queue := kcp_rcv_queue kcp @ take k ?B,
         kcp_nrcv_que := kcp_nrcv_que kcp + of_nat k,
         kcp_rcv_nxt := kcp_rcv_nxt kcp + of_nat k\<rparr>"
    and run: "\<forall>i<k. seg_sn (?B ! i) = kcp_rcv_nxt kcp + of_nat i
        \<and> kcp_nrcv_que kcp + of_nat i < kcp_rcv_wnd kcp"
    by auto
  note I = inv [unfolded rcv_inv_def]
  have off: "\<forall>i<k. rcv_off kcp (?B ! i) = i" "\<forall>s\<in>set (drop k ?B). k \<le> rcv_off kcp s"
    using rcv_prefix_off [of k kcp] run k I by blast+
  have que: "length (kcp_rcv_queue kcp) + k \<le> unat (kcp_rcv_wnd kcp)" if "0 < k"
  proof -
    have small: "k - 1 < 2147483648"
    proof -
      have "?B ! (k - 1) \<in> set ?B" "rcv_off kcp (?B ! (k - 1)) = k - 1"
        using off(1) that k by simp_all
      with I show ?thesis by metis
    qed
    have "of_nat (length (kcp_rcv_queue kcp) + (k - 1)) < kcp_rcv_wnd kcp"
    proof -
      from that have "k - 1 < k" by simp
      with run have "kcp_nrcv_que kcp + of_nat (k - 1) < kcp_rcv_wnd kcp" by blast
      then show ?thesis using I by (simp only: of_nat_add)
    qed
    moreover have "unat (of_nat (length (kcp_rcv_queue kcp) + (k - 1)) :: u32)
        = length (kcp_rcv_queue kcp) + (k - 1)"
      using small I by (intro unat_word_of_nat_32) linarith
    ultimately show ?thesis using that by (simp add: word_less_nat_alt)
  qed
  let ?kcp = "kcp\<lparr>kcp_rcv_nxt := kcp_rcv_nxt kcp + of_nat k\<rparr>"
  have shift: "rcv_off ?kcp s = rcv_off kcp s - k" if "s \<in> set (drop k ?B)" for s
    using rcv_off_shift off(2) that by blast
  have sorted: "sorted_wrt (<) (map (rcv_off ?kcp) (drop k ?B))"
  proof -
    have "sorted_wrt (<) (map (rcv_off kcp) (drop k ?B))"
      using I by (simp add: drop_map [symmetric] sorted_wrt_drop)
    then have "sorted_wrt (\<lambda>a b. rcv_off kcp a < rcv_off kcp b) (drop k ?B)"
      by (simp add: sorted_wrt_map)
    then have "sorted_wrt (\<lambda>a b. rcv_off ?kcp a < rcv_off ?kcp b) (drop k ?B)"
      by (rule sorted_wrt_mono_rel [rotated]) (use shift off(2) in force)
    then show ?thesis by (simp add: sorted_wrt_map)
  qed
  have off_eq: "rcv_off (ikcp_move_rcv kcp) = rcv_off ?kcp"
    by (simp add: eq rcv_off_def fun_eq_iff)
  have small: "\<forall>s\<in>set (drop k ?B). rcv_off ?kcp s < 2147483648"
    using shift I by (metis in_set_dropD less_imp_diff_less)
  have oks: "\<forall>s\<in>set (kcp_rcv_queue kcp @ take k ?B) \<union> set (drop k ?B). seg_ok s"
    using I by (auto dest: in_set_takeD in_set_dropD)
  have len: "length (kcp_rcv_queue kcp @ take k ?B) < 2147483648"
    using que k I by (cases "k = 0") auto
  have nque: "kcp_nrcv_que kcp + of_nat k = of_nat (length (kcp_rcv_queue kcp @ take k ?B))"
    using k I by simp
  have nbuf: "kcp_nrcv_buf kcp - of_nat k = of_nat (length (drop k ?B))"
    using k I by (simp add: of_nat_diff)
  have "rcv_inv (ikcp_move_rcv kcp)"
    unfolding rcv_inv_def off_eq
    using I sorted small oks len nque nbuf by (simp add: eq)
  with k eq off que show ?thesis by blast
qed

lemma parse_data_inv:
  assumes inv: "rcv_inv kcp" and ok: "seg_ok seg"
  shows "rcv_inv (ikcp_parse_data kcp seg)"
proof -
  have wnd: "unat (kcp_rcv_wnd kcp) < 2147483648" using inv by (simp add: rcv_inv_def)
  show ?thesis
  proof (cases "unat (kcp_rcv_wnd kcp) \<le> rcv_off kcp seg")
    case True
    with inv show ?thesis by (simp add: parse_data_insert [OF wnd])
  next
    case False
    with wnd have "rcv_off kcp seg < 2147483648" by linarith
    from move_rcv_inv [OF rcv_insert_inv(1) [OF inv this ok]] False show ?thesis
      by (auto simp: parse_data_insert [OF wnd])
  qed
qed

section \<open>In-order, exactly-once delivery\<close>

text \<open>
  The part of a segment that reaches the user: its fragment number and its data.  \<open>f m\<close> is
  the payload of the \<open>m\<close>-th segment the peer has ever stamped; every transmission of it
  carries the sequence number \<open>m\<close> modulo \<open>2\<^sup>3\<^sup>2\<close>, while timestamp, window and cumulative
  acknowledgement differ from one transmission to the next.
\<close>

type_synonym payload = "u32 \<times> bytes"

definition seg_payload :: "IKCPSEG \<Rightarrow> payload" where
  "seg_payload s = (seg_frg s, seg_data s)"

definition sent_as :: "(nat \<Rightarrow> payload) \<Rightarrow> nat \<Rightarrow> IKCPSEG \<Rightarrow> bool" where
  "sent_as f m s \<longleftrightarrow> seg_sn s = of_nat m \<and> seg_ok s \<and> seg_payload s = f m"

text \<open>
  The receiver has delivered the first \<open>n\<close> of them when \<open>rcv_nxt\<close> is \<open>n\<close> modulo \<open>2\<^sup>3\<^sup>2\<close> and
  what waits in \<open>rcv_buf\<close> is the peer's.
\<close>

definition rcv_tracks :: "(nat \<Rightarrow> payload) \<Rightarrow> nat \<Rightarrow> ikcpcb \<Rightarrow> bool" where
  "rcv_tracks f n kcp \<longleftrightarrow>
     rcv_inv kcp \<and> kcp_rcv_nxt kcp = of_nat n \<and>
     (\<forall>s\<in>set (kcp_rcv_buf kcp). seg_payload s = f (n + rcv_off kcp s))"

lemma rcv_tracks_same: "rcv_same kcp kcp' \<Longrightarrow> rcv_tracks f n kcp \<Longrightarrow> rcv_tracks f n kcp'"
proof -
  assume same: "rcv_same kcp kcp'" and tr: "rcv_tracks f n kcp"
  have "rcv_off kcp' = rcv_off kcp"
    using same by (simp add: rcv_same_def rcv_off_def fun_eq_iff)
  with tr same rcv_same_inv [OF same] show ?thesis
    by (simp add: rcv_tracks_def rcv_same_def)
qed

lemma arrival_off:
  fixes n m :: nat
  assumes "m < n + 2147483648" "n \<le> m + 2147483648"
  shows "n \<le> m \<Longrightarrow> unat (of_nat m - of_nat n :: u32) = m - n"
    and "m < n \<Longrightarrow> 2147483648 \<le> unat (of_nat m - of_nat n :: u32)"
proof -
  show "unat (of_nat m - of_nat n :: u32) = m - n" if "n \<le> m"
  proof -
    have "(of_nat m - of_nat n :: u32) = of_nat (m - n)"
      using that by (simp add: of_nat_diff)
    then show ?thesis using assms that by (simp only: unat_word_of_nat_32)
  qed
  show "2147483648 \<le> unat (of_nat m - of_nat n :: u32)" if "m < n"
  proof -
    define d :: u32 where "d = of_nat (n - m)"
    have d: "unat d = n - m" unfolding d_def
      using assms that by (intro unat_word_of_nat_32) linarith
    have "(of_nat m - of_nat n :: u32) = 0 - d"
      using that by (simp add: d_def of_nat_diff)
    moreover have "unat (0 - d) = 4294967296 - (n - m)"
      using that d unat_sub_if' [of 0 d] by simp
    ultimately show ?thesis using assms that by simp
  qed
qed

lemma move_rcv_tracks:
  assumes "rcv_tracks f n kcp"
  shows "\<exists>k. rcv_tracks f (n + k) (ikcp_move_rcv kcp)
    \<and> map seg_payload (kcp_rcv_queue (ikcp_move_rcv kcp))
        = map seg_payload (kcp_rcv_queue kcp) @ map f [n..<n + k]
    \<and> kcp_rcv_wnd (ikcp_move_rcv kcp) = kcp_rcv_wnd kcp"
proof -
  let ?B = "kcp_rcv_buf kcp"
  from assms have inv: "rcv_inv kcp" and nxt: "kcp_rcv_nxt kcp = of_nat n"
    and buf: "\<forall>s\<in>set ?B. seg_payload s = f (n + rcv_off kcp s)"
    by (auto simp: rcv_tracks_def)
  from move_rcv_inv [OF inv] obtain k where k: "k \<le> length ?B"
    and inv': "rcv_inv (ikcp_move_rcv kcp)"
    and eq: "ikcp_move_rcv kcp = kcp\<lparr>kcp_rcv_buf := drop k ?B,
         kcp_nrcv_buf := kcp_nrcv_buf kcp - of_nat k,
         kcp_rcv_queue := kcp_rcv_queue kcp @ take k ?B,
         kcp_nrcv_que := kcp_nrcv_que kcp + of_nat k,
         kcp_rcv_nxt := kcp_rcv_nxt kcp + of_nat k\<rparr>"
    and off: "\<forall>i<k. rcv_off kcp (?B ! i) = i" "\<forall>s\<in>set (drop k ?B). k \<le> rcv_off kcp s"
    by blast
  have "map seg_payload (take k ?B) = map f [n..<n + k]"
  proof (rule nth_equalityI)
    show "length (map seg_payload (take k ?B)) = length (map f [n..<n + k])" using k by simp
    fix i assume "i < length (map seg_payload (take k ?B))"
    then have "i < k" "i < length ?B" using k by auto
    moreover from this have "seg_payload (?B ! i) = f (n + i)"
      using buf off(1) by simp
    ultimately show "map seg_payload (take k ?B) ! i = map f [n..<n + k] ! i"
      by simp
  qed
  moreover have "seg_payload s = f (n + k + rcv_off (ikcp_move_rcv kcp) s)" if "s \<in> set (drop k ?B)" for s
  proof -
    have "rcv_off (ikcp_move_rcv kcp) s = rcv_off kcp s - k"
      using rcv_off_shift [of k kcp s] off(2) that by (simp add: eq rcv_off_def)
    with that off(2) buf show ?thesis
      by (metis add.assoc in_set_dropD le_add_diff_inverse)
  qed
  ultimately show ?thesis
    using inv' nxt by (intro exI [of _ k]) (simp add: rcv_tracks_def eq)
qed

lemma parse_data_tracks:
  assumes tr: "rcv_tracks f n kcp" and f: "sent_as f m seg"
    and m: "m < n + 2147483648" "n \<le> m + 2147483648"
  shows "\<exists>k. rcv_tracks f (n + k) (ikcp_parse_data kcp seg)
    \<and> map seg_payload (kcp_rcv_queue (ikcp_parse_data kcp seg))
        = map seg_payload (kcp_rcv_queue kcp) @ map f [n..<n + k]
    \<and> kcp_rcv_wnd (ikcp_parse_data kcp seg) = kcp_rcv_wnd kcp"
proof -
  from tr have inv: "rcv_inv kcp" and nxt: "kcp_rcv_nxt kcp = of_nat n"
    and wnd: "unat (kcp_rcv_wnd kcp) < 2147483648"
    by (auto simp: rcv_tracks_def rcv_inv_def)
  have off: "rcv_off kcp seg = unat (of_nat m - of_nat n :: u32)"
    using f nxt by (simp add: rcv_off_def sent_as_def)
  show ?thesis
  proof (cases "unat (kcp_rcv_wnd kcp) \<le> rcv_off kcp seg")
    case True
    then have "ikcp_parse_data kcp seg = kcp"
      by (simp add: parse_data_insert [OF wnd])
    with tr show ?thesis by (intro exI [of _ 0]) simp
  next
    case False
    then have "n \<le> m"
      using arrival_off(2) [OF m] off wnd by linarith
    then have om: "rcv_off kcp seg = m - n"
      using arrival_off(1) [OF m] off by simp
    let ?kcp = "rcv_insert kcp seg"
    have ok: "seg_ok seg" and small: "rcv_off kcp seg < 2147483648"
      using f False wnd by (auto simp: sent_as_def)
    note ins = rcv_insert_inv [OF inv small ok]
    have "rcv_off ?kcp = rcv_off kcp"
      using ins(3) by (simp add: rcv_off_def fun_eq_iff)
    with ins tr nxt om \<open>n \<le> m\<close> have "rcv_tracks f n ?kcp"
      using f by (auto simp: rcv_tracks_def sent_as_def)
    moreover have "kcp_rcv_wnd ?kcp = kcp_rcv_wnd kcp"
      by (auto simp: rcv_insert_def split: prod.split)
    ultimately show ?thesis
      using move_rcv_tracks [of f n ?kcp] ins(4) False by (simp add: parse_data_insert [OF wnd])
  qed
qed

section \<open>What the user receives\<close>

text \<open>The number of segments the next message occupies: up to and including the first with \<open>frg = 0\<close>.\<close>

fun msg_segs :: "IKCPSEG list \<Rightarrow> nat" where
  "msg_segs [] = 0"
| "msg_segs (seg # segs) = (if seg_frg seg = 0 then 1 else Suc (msg_segs segs))"

lemma msg_segs_le: "msg_segs q \<le> length q"
  by (induction q) auto

lemma merge_fragments_spec:
  "\<forall>s\<in>set q. seg_ok s \<Longrightarrow>
   merge_fragments q buf len taken =
     (buf @ concat (map seg_data (take (msg_segs q) q)), peek_length q len,
      taken + of_nat (msg_segs q), drop (msg_segs q) q)"
proof (induction q arbitrary: buf len taken)
  case Nil
  then show ?case by simp
next
  case (Cons s q)
  then have "take (unat (seg_len s)) (seg_data s) = seg_data s"
    by (simp add: seg_ok_def)
  with Cons show ?case by (simp add: Let_def algebra_simps)
qed

lemma merge_fragments_len:
  "fst (snd (merge_fragments q buf len taken)) = peek_length q len"
  by (induction q arbitrary: buf len taken) (auto simp: Let_def)

text \<open>The assertion \<open>len == peeksize\<close> of \<open>ikcp_recv\<close>: both loops add the same lengths.\<close>

lemma peeksize_nonneg:
  assumes "0 \<le> ikcp_peeksize kcp"
  shows "ikcp_peeksize kcp = sint (peek_length (kcp_rcv_queue kcp) 0)"
  using assms unfolding ikcp_peeksize_def by (auto simp: Let_def split: list.splits if_splits)

lemma ikcp_recv_ok:
  assumes inv: "rcv_inv kcp" and len: "0 \<le> len"
    and r: "ikcp_recv kcp len = (r, buf, kcp')" and ok: "0 \<le> r \<or> buf \<noteq> [] \<or> kcp' \<noteq> kcp"
  defines "k \<equiv> msg_segs (kcp_rcv_queue kcp)"
  shows "r = ikcp_peeksize kcp" "r \<le> len"
    and "buf = concat (map seg_data (take k (kcp_rcv_queue kcp)))"
    and "rcv_same (ikcp_move_rcv (kcp\<lparr>kcp_rcv_queue := drop k (kcp_rcv_queue kcp),
           kcp_nrcv_que := kcp_nrcv_que kcp - of_nat k\<rparr>)) kcp'"
proof -
  have okq: "\<forall>s\<in>set (kcp_rcv_queue kcp). seg_ok s"
    using inv by (simp add: rcv_inv_def)
  have ne: "kcp_rcv_queue kcp \<noteq> []" "\<not> ikcp_peeksize kcp < 0" "\<not> ikcp_peeksize kcp > len"
    using r ok len by (auto simp: ikcp_recv_def Let_def split: if_splits)
  have pk: "sint (peek_length (kcp_rcv_queue kcp) 0) = ikcp_peeksize kcp"
    using peeksize_nonneg [of kcp] ne by simp
  note eqs = r [unfolded ikcp_recv_def Let_def merge_fragments_spec [OF okq] prod.case k_def [symmetric]]
  show "r = ikcp_peeksize kcp"
    using eqs ne len pk by (auto split: if_splits)
  with ne show "r \<le> len" by simp
  show "buf = concat (map seg_data (take k (kcp_rcv_queue kcp)))"
    using eqs ne len by (auto split: if_splits)
  show "rcv_same (ikcp_move_rcv (kcp\<lparr>kcp_rcv_queue := drop k (kcp_rcv_queue kcp),
           kcp_nrcv_que := kcp_nrcv_que kcp - of_nat k\<rparr>)) kcp'"
    using eqs ne len by (auto simp: rcv_same_def split: if_splits)
qed

section \<open>Runs of the receiver\<close>

text \<open>
  \<open>rcv_reach f kcp cs out\<close>: from a fresh block, after any number of arrivals (segments of
  the peer, in any order, lost or repeated, but within half the sequence space of the
  delivery point), successful user reads, and operations that leave the receive side alone
  (sending, flushing, acknowledging), the user has taken segments with the payloads \<open>cs\<close>
  and has been given the bytes \<open>out\<close>.
\<close>

inductive rcv_reach :: "(nat \<Rightarrow> payload) \<Rightarrow> ikcpcb \<Rightarrow> payload list \<Rightarrow> bytes \<Rightarrow> bool" for f where
  create: "ikcp_create mem conv = Some kcp \<Longrightarrow> rcv_reach f kcp [] []"
| arrive: "rcv_reach f kcp cs out \<Longrightarrow> n = length cs + length (kcp_rcv_queue kcp) \<Longrightarrow>
    m < n + 2147483648 \<Longrightarrow> n \<le> m + 2147483648 \<Longrightarrow> sent_as f m seg \<Longrightarrow>
    rcv_reach f (ikcp_parse_data kcp seg) cs out"
| receive: "rcv_reach f kcp cs out \<Longrightarrow> 0 \<le> len \<Longrightarrow> ikcp_recv kcp len = (r, buf, kcp') \<Longrightarrow> 0 \<le> r \<Longrightarrow>
    rcv_reach f kcp'
      (cs @ map seg_payload (take (msg_segs (kcp_rcv_queue kcp)) (kcp_rcv_queue kcp))) (out @ buf)"
| other: "rcv_reach f kcp cs out \<Longrightarrow> rcv_same kcp kcp' \<Longrightarrow> rcv_reach f kcp' cs out"

definition rcv_state :: "(nat \<Rightarrow> payload) \<Rightarrow> ikcpcb \<Rightarrow> payload list \<Rightarrow> bytes \<Rightarrow> bool" where
  "rcv_state f kcp cs out \<longleftrightarrow>
     (let n = length cs + length (kcp_rcv_queue kcp) in
      rcv_tracks f n kcp \<and> cs @ map seg_payload (kcp_rcv_queue kcp) = map f [0..<n] \<and>
      out = concat (map snd cs))"

lemma rcv_state_create:
  assumes "ikcp_create mem conv = Some kcp"
  shows "rcv_state f kcp [] []"
proof -
  have "kcp_rcv_queue kcp = []" "kcp_rcv_buf kcp = []" "kcp_nrcv_que kcp = 0" "kcp_nrcv_buf kcp = 0"
    "kcp_rcv_wnd kcp = 128" "kcp_rcv_nxt kcp = 0"
    using assms by (auto simp: ikcp_create_def split: if_splits)
  then show ?thesis by (simp add: rcv_state_def rcv_tracks_def rcv_inv_def)
qed

lemma map_upt_app: "map f [0..<n] @ map f [n..<n + k] = map f [0..<n + k]"
  by (simp add: upt_add_eq_append [of 0 n k] flip: map_append)

lemma rcv_state_arrive:
  assumes st: "rcv_state f kcp cs out" and f: "sent_as f m seg"
    and "n = length cs + length (kcp_rcv_queue kcp)" "m < n + 2147483648" "n \<le> m + 2147483648"
  shows "rcv_state f (ikcp_parse_data kcp seg) cs out"
proof -
  let ?kcp = "ikcp_parse_data kcp seg"
  from st assms(3) have tr: "rcv_tracks f n kcp"
    and eq: "cs @ map seg_payload (kcp_rcv_queue kcp) = map f [0..<n]"
    and out: "out = concat (map snd cs)"
    by (auto simp: rcv_state_def Let_def)
  from parse_data_tracks [OF tr f assms(4,5)] obtain k where k: "rcv_tracks f (n + k) ?kcp"
    and q: "map seg_payload (kcp_rcv_queue ?kcp) = map seg_payload (kcp_rcv_queue kcp) @ map f [n..<n + k]"
    by blast
  have "cs @ map seg_payload (kcp_rcv_queue ?kcp) = map f [0..<n + k]"
    unfolding q append_assoc [symmetric] eq map_upt_app ..
  moreover have "length cs + length (kcp_rcv_queue ?kcp) = n + k"
    using arg_cong [OF q, of length] assms(3) by simp
  ultimately show ?thesis
    using k out by (simp add: rcv_state_def)
qed

lemma rcv_inv_take:
  assumes "rcv_inv kcp" "k \<le> length (kcp_rcv_queue kcp)"
  shows "rcv_inv (kcp\<lparr>kcp_rcv_queue := drop k (kcp_rcv_queue kcp),
           kcp_nrcv_que := kcp_nrcv_que kcp - of_nat k\<rparr>)" (is "rcv_inv ?kcp")
proof -
  have "rcv_off ?kcp = rcv_off kcp"
    by (simp add: rcv_off_def fun_eq_iff)
  then show ?thesis
    using assms by (auto simp: rcv_inv_def of_nat_diff dest: in_set_dropD)
qed

lemma rcv_state_receive:
  assumes st: "rcv_state f kcp cs out" and r: "0 \<le> len" "ikcp_recv kcp len = (r, buf, kcp')" "0 \<le> r"
  defines "k \<equiv> msg_segs (kcp_rcv_queue kcp)"
  shows "rcv_state f kcp' (cs @ map seg_payload (take k (kcp_rcv_queue kcp))) (out @ buf)"
proof -
  let ?q = "kcp_rcv_queue kcp" and ?n = "length cs + length (kcp_rcv_queue kcp)"
  let ?k1 = "kcp\<lparr>kcp_rcv_queue := drop k ?q, kcp_nrcv_que := kcp_nrcv_que kcp - of_nat k\<rparr>"
  from st have tr: "rcv_tracks f ?n kcp" and eq: "cs @ map seg_payload ?q = map f [0..<?n]"
    and out: "out = concat (map snd cs)"
    by (auto simp: rcv_state_def Let_def)
  then have inv: "rcv_inv kcp" by (simp add: rcv_tracks_def)
  have k: "k \<le> length ?q" by (simp add: k_def msg_segs_le)
  note ok = ikcp_recv_ok [OF inv r(1,2), folded k_def]
  have "rcv_off ?k1 = rcv_off kcp" by (simp add: rcv_off_def fun_eq_iff)
  then have "rcv_tracks f ?n ?k1"
    using tr rcv_inv_take [OF inv k] by (simp add: rcv_tracks_def)
  from move_rcv_tracks [OF this] obtain j where j: "rcv_tracks f (?n + j) (ikcp_move_rcv ?k1)"
    and q: "map seg_payload (kcp_rcv_queue (ikcp_move_rcv ?k1))
        = map seg_payload (drop k ?q) @ map f [?n..<?n + j]"
    by auto
  have same: "rcv_same (ikcp_move_rcv ?k1) kcp'" using ok(4) r(3) by simp
  have tr': "rcv_tracks f (?n + j) kcp'" by (rule rcv_tracks_same [OF same j])
  have q': "map seg_payload (kcp_rcv_queue kcp') = map seg_payload (drop k ?q) @ map f [?n..<?n + j]"
    using same q by (simp add: rcv_same_def)
  have "(cs @ map seg_payload (take k ?q)) @ map seg_payload (kcp_rcv_queue kcp')
      = (cs @ map seg_payload (take k ?q @ drop k ?q)) @ map f [?n..<?n + j]"
    unfolding q' map_append append_assoc ..
  also have "\<dots> = map f [0..<?n + j]"
    unfolding append_take_drop_id eq map_upt_app ..
  finally have eq': "(cs @ map seg_payload (take k ?q)) @ map seg_payload (kcp_rcv_queue kcp')
      = map f [0..<?n + j]" .
  have len: "length (cs @ map seg_payload (take k ?q)) + length (kcp_rcv_queue kcp') = ?n + j"
    using arg_cong [OF q', of length] k by simp
  have "snd \<circ> seg_payload = seg_data"
    by (simp add: seg_payload_def fun_eq_iff)
  then have "out @ buf = concat (map snd (cs @ map seg_payload (take k ?q)))"
    using ok(3) out r(3) by simp
  with tr' eq' show ?thesis unfolding rcv_state_def Let_def len by blast
qed

lemma rcv_reach_state:
  "rcv_reach f kcp cs out \<Longrightarrow> rcv_state f kcp cs out"
proof (induction rule: rcv_reach.induct)
  case (create mem conv kcp)
  then show ?case by (intro rcv_state_create)
next
  case (arrive kcp cs out n m seg)
  then show ?case by (intro rcv_state_arrive) auto
next
  case (receive kcp cs out len r buf kcp')
  then show ?case using rcv_state_receive [of f kcp cs out len r buf kcp'] by simp
next
  case (other kcp cs out kcp')
  then have "kcp_rcv_queue kcp' = kcp_rcv_queue kcp" by (simp add: rcv_same_def)
  with other rcv_tracks_same [of kcp kcp'] show ?case by (simp add: rcv_state_def Let_def)
qed

text \<open>
  C2 (reliable delivery).  Whatever order the peer's segments arrive in, and however often,
  what the user has read is exactly the concatenation of the payloads of an initial piece
  of the peer's segment sequence, and what waits in \<open>rcv_queue\<close> continues it without a gap.
\<close>

theorem kcp_delivers_prefix:
  assumes "rcv_reach f kcp cs out"
  shows "cs @ map seg_payload (kcp_rcv_queue kcp) = map f [0..<length cs + length (kcp_rcv_queue kcp)]
    \<and> out = concat (map (\<lambda>m. snd (f m)) [0..<length cs])"
proof -
  from rcv_reach_state [OF assms]
  have eq: "cs @ map seg_payload (kcp_rcv_queue kcp) = map f [0..<length cs + length (kcp_rcv_queue kcp)]"
    and out: "out = concat (map snd cs)"
    by (auto simp: rcv_state_def Let_def)
  have cs: "cs = map f [0..<length cs]"
    using arg_cong [OF eq, of "take (length cs)"] by (simp add: take_map)
  have "map snd cs = map (\<lambda>m. snd (f m)) [0..<length cs]"
    by (subst cs) simp
  with eq out show ?thesis by simp
qed

end
