(* ===== verification/Kcp_Frames.thy ===== *)
theory Kcp_Frames
  imports Kcp_Recv
begin

text \<open>
  Which group of fields each KCP operation can change (the frame conditions), and the
  acknowledgement array.
\<close>

section \<open>Groups of fields\<close>

definition snd_same :: "ikcpcb \<Rightarrow> ikcpcb \<Rightarrow> bool" where
  "snd_same kcp kcp' \<longleftrightarrow>
     kcp_snd_queue kcp' = kcp_snd_queue kcp \<and> kcp_snd_buf kcp' = kcp_snd_buf kcp \<and>
     kcp_nsnd_que kcp' = kcp_nsnd_que kcp \<and> kcp_nsnd_buf kcp' = kcp_nsnd_buf kcp \<and>
     kcp_snd_una kcp' = kcp_snd_una kcp \<and> kcp_snd_nxt kcp' = kcp_snd_nxt kcp"

definition ack_same :: "ikcpcb \<Rightarrow> ikcpcb \<Rightarrow> bool" where
  "ack_same kcp kcp' \<longleftrightarrow>
     kcp_acklist kcp' = kcp_acklist kcp \<and> kcp_ackcount kcp' = kcp_ackcount kcp \<and>
     kcp_ackblock kcp' = kcp_ackblock kcp"

text \<open>The settings, which only the configuration calls change.\<close>

definition cfg_same :: "ikcpcb \<Rightarrow> ikcpcb \<Rightarrow> bool" where
  "cfg_same kcp kcp' \<longleftrightarrow>
     kcp_conv kcp' = kcp_conv kcp \<and> kcp_mtu kcp' = kcp_mtu kcp \<and> kcp_mss kcp' = kcp_mss kcp \<and>
     kcp_bufsize kcp' = kcp_bufsize kcp \<and> kcp_interval kcp' = kcp_interval kcp \<and>
     kcp_rx_minrto kcp' = kcp_rx_minrto kcp \<and> kcp_stream kcp' = kcp_stream kcp \<and>
     kcp_snd_wnd kcp' = kcp_snd_wnd kcp \<and> kcp_rcv_wnd kcp' = kcp_rcv_wnd kcp \<and>
     kcp_nodelay kcp' = kcp_nodelay kcp"

named_theorems kcp_frame \<open>the groups of fields an operation leaves alone\<close>

lemmas same_defs = rcv_same_def snd_same_def ack_same_def cfg_same_def

lemma same_refl [simp]: "snd_same k k" "ack_same k k" "cfg_same k k"
  by (simp_all add: same_defs)

lemma same_trans:
  "snd_same a b \<Longrightarrow> snd_same b c \<Longrightarrow> snd_same a c"
  "ack_same a b \<Longrightarrow> ack_same b c \<Longrightarrow> ack_same a c"
  "cfg_same a b \<Longrightarrow> cfg_same b c \<Longrightarrow> cfg_same a c"
  by (simp_all add: same_defs)

section \<open>Frames of the input operations\<close>

lemma update_ack_frame [kcp_frame]:
  "rcv_same kcp (ikcp_update_ack kcp rtt)" "snd_same kcp (ikcp_update_ack kcp rtt)"
  "ack_same kcp (ikcp_update_ack kcp rtt)" "cfg_same kcp (ikcp_update_ack kcp rtt)"
  "kcp_rmt_wnd (ikcp_update_ack kcp rtt) = kcp_rmt_wnd kcp"
  by (simp_all add: same_defs ikcp_update_ack_def Let_def)

lemma shrink_buf_frame [kcp_frame]:
  "rcv_same kcp (ikcp_shrink_buf kcp)" "ack_same kcp (ikcp_shrink_buf kcp)"
  "cfg_same kcp (ikcp_shrink_buf kcp)" "kcp_rmt_wnd (ikcp_shrink_buf kcp) = kcp_rmt_wnd kcp"
  by (simp_all add: same_defs ikcp_shrink_buf_def split: list.split)

lemma parse_ack_frame [kcp_frame]:
  "rcv_same kcp (ikcp_parse_ack kcp sn)" "ack_same kcp (ikcp_parse_ack kcp sn)"
  "cfg_same kcp (ikcp_parse_ack kcp sn)" "kcp_rmt_wnd (ikcp_parse_ack kcp sn) = kcp_rmt_wnd kcp"
  by (simp_all add: same_defs ikcp_parse_ack_def split: prod.split)

lemma parse_una_frame [kcp_frame]:
  "rcv_same kcp (ikcp_parse_una kcp una)" "ack_same kcp (ikcp_parse_una kcp una)"
  "cfg_same kcp (ikcp_parse_una kcp una)" "kcp_rmt_wnd (ikcp_parse_una kcp una) = kcp_rmt_wnd kcp"
  by (simp_all add: same_defs ikcp_parse_una_def split: prod.split)

lemma parse_fastack_frame [kcp_frame]:
  "rcv_same kcp (ikcp_parse_fastack kcp sn ts)" "ack_same kcp (ikcp_parse_fastack kcp sn ts)"
  "cfg_same kcp (ikcp_parse_fastack kcp sn ts)"
  "kcp_rmt_wnd (ikcp_parse_fastack kcp sn ts) = kcp_rmt_wnd kcp"
  by (simp_all add: same_defs ikcp_parse_fastack_def)

lemma ack_push_frame [kcp_frame]:
  "rcv_same kcp (ikcp_ack_push kcp sn ts)" "snd_same kcp (ikcp_ack_push kcp sn ts)"
  "cfg_same kcp (ikcp_ack_push kcp sn ts)" "kcp_rmt_wnd (ikcp_ack_push kcp sn ts) = kcp_rmt_wnd kcp"
  by (simp_all add: same_defs ikcp_ack_push_def Let_def)

lemma move_rcv_frame [kcp_frame]:
  "snd_same kcp (ikcp_move_rcv kcp)" "ack_same kcp (ikcp_move_rcv kcp)"
  "cfg_same kcp (ikcp_move_rcv kcp)" "kcp_rmt_wnd (ikcp_move_rcv kcp) = kcp_rmt_wnd kcp"
proof -
  obtain k where "ikcp_move_rcv kcp = kcp\<lparr>kcp_rcv_buf := drop k (kcp_rcv_buf kcp),
       kcp_nrcv_buf := kcp_nrcv_buf kcp - of_nat k,
       kcp_rcv_queue := kcp_rcv_queue kcp @ take k (kcp_rcv_buf kcp),
       kcp_nrcv_que := kcp_nrcv_que kcp + of_nat k,
       kcp_rcv_nxt := kcp_rcv_nxt kcp + of_nat k\<rparr>"
    using move_rcv_spec [of kcp] by blast
  then show "snd_same kcp (ikcp_move_rcv kcp)" "ack_same kcp (ikcp_move_rcv kcp)"
    "cfg_same kcp (ikcp_move_rcv kcp)" "kcp_rmt_wnd (ikcp_move_rcv kcp) = kcp_rmt_wnd kcp"
    by (simp_all add: same_defs)
qed

lemma parse_data_frame [kcp_frame]:
  "snd_same kcp (ikcp_parse_data kcp seg)" "ack_same kcp (ikcp_parse_data kcp seg)"
  "cfg_same kcp (ikcp_parse_data kcp seg)" "kcp_rmt_wnd (ikcp_parse_data kcp seg) = kcp_rmt_wnd kcp"
  using move_rcv_frame by (auto simp: same_defs ikcp_parse_data_def Let_def split: prod.split)

lemma input_cwnd_frame [kcp_frame]:
  "rcv_same kcp (input_cwnd u kcp)" "snd_same kcp (input_cwnd u kcp)"
  "ack_same kcp (input_cwnd u kcp)" "cfg_same kcp (input_cwnd u kcp)"
  "kcp_rmt_wnd (input_cwnd u kcp) = kcp_rmt_wnd kcp"
  by (simp_all add: same_defs input_cwnd_def Let_def)

lemma input_push_frame [kcp_frame]:
  "snd_same kcp (input_push conv h d kcp)" "cfg_same kcp (input_push conv h d kcp)"
  "kcp_rmt_wnd (input_push conv h d kcp) = kcp_rmt_wnd kcp"
  using ack_push_frame [of kcp "h_sn h" "h_ts h"] parse_data_frame [of "ikcp_ack_push kcp (h_sn h) (h_ts h)"]
  by (simp_all add: input_push_def Let_def same_defs)

lemma input_ack_frame [kcp_frame]:
  "rcv_same (in_kcp st) (in_kcp (input_ack h st))" "ack_same (in_kcp st) (in_kcp (input_ack h st))"
  "cfg_same (in_kcp st) (in_kcp (input_ack h st))"
  "kcp_rmt_wnd (in_kcp (input_ack h st)) = kcp_rmt_wnd (in_kcp st)"
  by (simp_all add: input_ack_def Let_def same_defs update_ack_frame [unfolded same_defs]
      parse_ack_frame [unfolded same_defs] shrink_buf_frame [unfolded same_defs])

text \<open>What every accepted segment does first.\<close>

definition input_common :: "ikcp_hdr \<Rightarrow> ikcpcb \<Rightarrow> ikcpcb" where
  "input_common h kcp =
     ikcp_shrink_buf (ikcp_parse_una (kcp\<lparr>kcp_rmt_wnd := ucast (h_wnd h)\<rparr>) (h_una h))"

lemma input_common_frame [kcp_frame]:
  "rcv_same kcp (input_common h kcp)" "ack_same kcp (input_common h kcp)"
  "cfg_same kcp (input_common h kcp)" "kcp_rmt_wnd (input_common h kcp) = ucast (h_wnd h)"
  by (simp_all add: input_common_def same_defs parse_una_frame [unfolded same_defs]
      shrink_buf_frame [unfolded same_defs])

lemma input_segment_cases:
  "input_segment conv h d st =
     (let st' = st\<lparr>in_kcp := input_common h (in_kcp st)\<rparr>; cmd = ucast (h_cmd h) in
      if cmd = IKCP_CMD_ACK then input_ack h st'
      else if cmd = IKCP_CMD_PUSH then st'\<lparr>in_kcp := input_push conv h d (in_kcp st')\<rparr>
      else if cmd = IKCP_CMD_WASK
      then st'\<lparr>in_kcp := (in_kcp st')\<lparr>kcp_probe := kcp_probe (in_kcp st') OR IKCP_ASK_TELL\<rparr>\<rparr>
      else st')"
  by (simp add: input_segment_def input_common_def Let_def)

lemma input_segment_cfg [kcp_frame]: "cfg_same (in_kcp st) (in_kcp (input_segment conv h d st))"
proof -
  let ?st = "st\<lparr>in_kcp := input_common h (in_kcp st)\<rparr>"
  have c: "cfg_same (in_kcp st) (in_kcp ?st)"
    by (simp add: input_common_frame)
  have "cfg_same (in_kcp ?st) (in_kcp (input_segment conv h d st))"
    unfolding input_segment_cases Let_def
    using input_ack_frame(3) [of ?st h] input_push_frame(2) [of "in_kcp ?st" conv h d]
    by (auto simp: cfg_same_def)
  with c show ?thesis by (rule same_trans)
qed

section \<open>The acknowledgement array\<close>

text \<open>The pairs pushed since the last flush.\<close>

definition acks :: "ikcpcb \<Rightarrow> (u32 \<times> u32) list" where
  "acks kcp = map (ikcp_ack_get kcp) [0..<unat (kcp_ackcount kcp)]"

text \<open>The array has room for \<open>ackblock\<close> pairs.\<close>

definition ack_inv :: "ikcpcb \<Rightarrow> bool" where
  "ack_inv kcp \<longleftrightarrow> length (kcp_acklist kcp) = 2 * unat (kcp_ackblock kcp)
     \<and> unat (kcp_ackcount kcp) \<le> unat (kcp_ackblock kcp)"

lemma next_block_ge: "0 < b \<Longrightarrow> newsize \<le> next_block newsize b"
proof (induction newsize b rule: next_block.induct)
  case (1 newsize b)
  then show ?case by (cases "b < newsize") (simp_all add: next_block.simps [of newsize b])
qed

lemma next_block_less:
  "0 < b \<Longrightarrow> b < 2 * newsize \<Longrightarrow> next_block newsize b < 2 * newsize"
proof (induction newsize b rule: next_block.induct)
  case (1 newsize b)
  then show ?case by (cases "b < newsize") (simp_all add: next_block.simps [of newsize b])
qed

lemma next_block_8: "next_block newsize 8 = 8 \<or> next_block newsize 8 < 2 * newsize"
proof (cases "8 < newsize")
  case True
  then show ?thesis by (intro disjI2 next_block_less) auto
next
  case False
  then show ?thesis by (simp add: next_block.simps [of newsize 8])
qed

lemma ack_push_room:
  assumes inv: "ack_inv kcp" and small: "unat (kcp_ackcount kcp) < 2147483647"
  shows "ack_inv (ikcp_ack_push kcp sn ts) \<and> acks (ikcp_ack_push kcp sn ts) = acks kcp @ [(sn, ts)]"
proof -
  define c where "c = unat (kcp_ackcount kcp)"
  have c1: "unat (kcp_ackcount kcp + 1) = c + 1"
    using small by (simp add: c_def unat_plus_1)
  obtain A B where A: "A = take (2 * c) (kcp_acklist kcp) @ B" "2 * c + 2 \<le> length A"
    and push: "kcp_acklist (ikcp_ack_push kcp sn ts) = A[2 * c := sn, 2 * c + 1 := ts]"
    and len: "length A = 2 * unat (kcp_ackblock (ikcp_ack_push kcp sn ts))"
  proof (cases "c + 1 > unat (kcp_ackblock kcp)")
    case True
    let ?nb = "next_block (c + 1) 8"
    have nb: "c + 1 \<le> ?nb" "?nb < 4294967296"
      using next_block_ge [of 8 "c + 1"] next_block_8 [of "c + 1"] small by (auto simp: c_def)
    have lo: "length (take (2 * c) (kcp_acklist kcp)) = 2 * c"
      using inv by (simp add: ack_inv_def c_def)
    show ?thesis
      by (rule that [of "take (2 * c) (kcp_acklist kcp) @ replicate (2 * ?nb - 2 * c) 0"])
        (use True nb lo c1 in \<open>simp_all add: ikcp_ack_push_def Let_def c_def [symmetric] unat_word_of_nat_32\<close>)
  next
    case False
    show ?thesis
      by (rule that [of "kcp_acklist kcp" "drop (2 * c) (kcp_acklist kcp)"])
        (use False inv c1 in \<open>simp_all add: ikcp_ack_push_def Let_def c_def [symmetric] ack_inv_def\<close>)
  qed
  have cnt: "kcp_ackcount (ikcp_ack_push kcp sn ts) = kcp_ackcount kcp + 1"
    by (simp add: ikcp_ack_push_def Let_def)
  have lc: "2 * c \<le> length (kcp_acklist kcp)"
    using inv by (simp add: ack_inv_def c_def)
  have "ikcp_ack_get (ikcp_ack_push kcp sn ts) i = ikcp_ack_get kcp i" if "i < c" for i
    using that lc A by (simp add: ikcp_ack_get_def push nth_append)
  moreover have "ikcp_ack_get (ikcp_ack_push kcp sn ts) c = (sn, ts)"
    using A(2) by (simp add: ikcp_ack_get_def push mult.commute [of c 2])
  ultimately have "acks (ikcp_ack_push kcp sn ts) = acks kcp @ [(sn, ts)]"
    by (simp add: acks_def cnt c1 c_def [symmetric])
  moreover have "ack_inv (ikcp_ack_push kcp sn ts)"
    using A(2) len by (simp add: ack_inv_def cnt c1 push)
  ultimately show ?thesis by simp
qed

end
