(* ===== verification/Kcp_Input.thy ===== *)
theory Kcp_Input
  imports Kcp_Frames
begin

text \<open>
  \<open>ikcp_input\<close>: it never reads past the datagram, it processes a well-formed datagram
  segment by segment, and it keeps the invariants of the receive side, of the
  acknowledgement array and of the send buffer.
\<close>

section \<open>Memory safety\<close>

lemma input_loop_total: "input_loop data st \<noteq> None"
proof (induction data st rule: input_loop.induct)
  case (1 data st)
  show ?case
  proof (cases "length data < 24")
    case True
    then show ?thesis by (simp add: input_loop.simps [of data st])
  next
    case False
    then obtain conv where c: "ikcp_decode32u data = Some (conv, drop 4 data)"
      by (auto intro: u32_codec.dec_obtain [of data])
    obtain h where h: "ikcp_decode_hdr (drop 4 data) = Some (h, drop 20 (drop 4 data))"
      by (rule decode_hdr_total [of "drop 4 data"]) (use False in auto)
    show ?thesis
      using "1.IH" [OF _ c _ _ h] False
      by (subst input_loop.simps) (auto simp: c h)
  qed
qed

lemma input_in_bounds: "ikcp_input kcp data \<noteq> None"
  by (auto simp: ikcp_input_def Let_def input_loop_total split: option.split sum.split)


section \<open>Well-formed datagrams\<close>

text \<open>A segment on the wire, and the segments \<open>ikcp_flush\<close> puts there.\<close>

definition wire :: "IKCPSEG \<Rightarrow> bytes" where
  "wire seg = ikcp_encode_seg [] seg @ seg_data seg"

definition wire_ok :: "u32 \<Rightarrow> IKCPSEG \<Rightarrow> bool" where
  "wire_ok conv seg \<longleftrightarrow> seg_conv seg = conv \<and> seg_ok seg \<and> unat (seg_len seg) < 2147483648 \<and>
     seg_cmd seg \<in> {IKCP_CMD_PUSH, IKCP_CMD_ACK, IKCP_CMD_WASK, IKCP_CMD_WINS}"

lemma length_wire: "seg_ok seg \<Longrightarrow> length (wire seg) = 24 + unat (seg_len seg)"
  by (simp add: wire_def seg_ok_def)

lemma input_push_payload:
  "unat (h_len h) = length d \<Longrightarrow> input_push conv h (d @ r) kcp = input_push conv h d kcp"
  by (simp add: input_push_def Let_def)

lemma input_segment_payload:
  "unat (h_len h) = length d \<Longrightarrow> input_segment conv h (d @ r) st = input_segment conv h d st"
  by (simp add: input_segment_cases Let_def input_push_payload)

definition input_wire :: "IKCPSEG \<Rightarrow> input_st \<Rightarrow> input_st" where
  "input_wire seg = input_segment (seg_conv seg) (hdr_of_seg seg) (seg_data seg)"

lemma input_wire_conv: "kcp_conv (in_kcp (input_wire seg st)) = kcp_conv (in_kcp st)"
  using input_segment_cfg [of st] by (simp add: input_wire_def cfg_same_def)

lemma wire_decode:
  assumes "wire_ok conv seg"
  shows "ikcp_decode32u (wire seg @ r) = Some (conv, drop 4 (wire seg @ r))"
    and "ikcp_decode_hdr (drop 4 (wire seg @ r)) = Some (hdr_of_seg seg, seg_data seg @ r)"
proof -
  have c: "\<exists>d. ikcp_decode32u (wire seg @ r) = Some (conv, d)
      \<and> ikcp_decode_hdr d = Some (hdr_of_seg seg, seg_data seg @ r)"
    using decode_encode_seg [of seg "seg_data seg @ r"] assms
    by (auto simp: wire_def wire_ok_def Option.bind_eq_Some_conv)
  then obtain d where d: "ikcp_decode32u (wire seg @ r) = Some (conv, d)"
      "ikcp_decode_hdr d = Some (hdr_of_seg seg, seg_data seg @ r)"
    by blast
  from u32_codec.dec_rest [OF d(1)] d
  show "ikcp_decode32u (wire seg @ r) = Some (conv, drop 4 (wire seg @ r))"
    "ikcp_decode_hdr (drop 4 (wire seg @ r)) = Some (hdr_of_seg seg, seg_data seg @ r)"
    by simp_all
qed

lemma input_loop_wire:
  assumes ok: "wire_ok (kcp_conv (in_kcp st)) seg"
  shows "input_loop (wire seg @ r) st = input_loop r (input_wire seg st)"
proof -
  have sok: "seg_ok seg" and small: "unat (seg_len seg) < 2147483648"
    using ok by (auto simp: wire_ok_def)
  have len: "length (wire seg @ r) = 24 + unat (seg_len seg) + length r"
    using sok by (simp add: length_wire)
  have c1: "(length (wire seg @ r) < unat IKCP_OVERHEAD) = False"
    unfolding len by simp
  have c2: "(int (length (wire seg @ r) - unat IKCP_OVERHEAD) < uint (h_len (hdr_of_seg seg))
      \<or> sint (h_len (hdr_of_seg seg)) < 0) = False"
  proof -
    have "sint (seg_len seg) = int (unat (seg_len seg))"
      using small by (simp only: sint_u32_cases if_True)
    then have "\<not> sint (seg_len seg) < 0" by linarith
    moreover have "\<not> int (24 + unat (seg_len seg) + length r - unat IKCP_OVERHEAD) < uint (seg_len seg)"
      by simp
    ultimately show ?thesis
      unfolding len by (simp only: hdr_of_seg_def ikcp_hdr.select_convs simp_thms)
  qed
  have c3: "(ucast (h_cmd (hdr_of_seg seg)) \<noteq> IKCP_CMD_PUSH \<and> ucast (h_cmd (hdr_of_seg seg)) \<noteq> IKCP_CMD_ACK
      \<and> ucast (h_cmd (hdr_of_seg seg)) \<noteq> IKCP_CMD_WASK \<and> ucast (h_cmd (hdr_of_seg seg)) \<noteq> IKCP_CMD_WINS)
      = False"
    using ok by (auto simp: wire_ok_def hdr_of_seg_def)
  have c4: "drop (unat IKCP_OVERHEAD + unat (h_len (hdr_of_seg seg))) (wire seg @ r) = r"
    using sok by (simp add: length_wire hdr_of_seg_def)
  have c5: "input_segment (kcp_conv (in_kcp st)) (hdr_of_seg seg) (seg_data seg @ r) st
      = input_wire seg st"
    using ok input_segment_payload [of "hdr_of_seg seg" "seg_data seg"]
    by (simp add: input_wire_def wire_ok_def hdr_of_seg_def seg_ok_def)
  show ?thesis
    unfolding input_loop.simps [of "wire seg @ r" st]
    by (simp only: c1 wire_decode [OF ok] c2 c3 c4 c5 if_False option.case prod.case
        not_True_eq_False simp_thms)
qed

lemma input_loop_wires:
  "\<forall>s\<in>set segs. wire_ok (kcp_conv (in_kcp st)) s \<Longrightarrow>
   input_loop (concat (map wire segs)) st = Some (Inr (fold input_wire segs st))"
proof (induction segs arbitrary: st)
  case Nil
  then show ?case by (simp add: input_loop.simps)
next
  case (Cons s segs)
  then show ?case
    by (simp add: input_loop_wire input_wire_conv)
qed


text \<open>The end of \<open>ikcp_input\<close>, after the last segment.\<close>

definition input_finish :: "u32 \<Rightarrow> input_st \<Rightarrow> ikcpcb" where
  "input_finish prev_una st =
     input_cwnd prev_una
       (if in_flag st then ikcp_parse_fastack (in_kcp st) (in_maxack st) (in_latest_ts st)
        else in_kcp st)"

definition input_start :: "ikcpcb \<Rightarrow> input_st" where
  "input_start kcp = \<lparr>in_kcp = kcp, in_flag = False, in_maxack = 0, in_latest_ts = 0\<rparr>"

lemma input_segments:
  assumes "segs \<noteq> []" "\<forall>s\<in>set segs. wire_ok (kcp_conv kcp) s"
  shows "ikcp_input kcp (Some (concat (map wire segs)))
    = Some (0, input_finish (kcp_snd_una kcp) (fold input_wire segs (input_start kcp)))"
proof -
  obtain s segs' where "segs = s # segs'" using assms(1) by (cases segs) auto
  moreover have "length (wire s) \<ge> 24" by (simp add: wire_def)
  ultimately have "\<not> length (concat (map wire segs)) < unat IKCP_OVERHEAD" by simp
  moreover have "input_loop (concat (map wire segs)) (input_start kcp)
      = Some (Inr (fold input_wire segs (input_start kcp)))"
    using assms(2) by (intro input_loop_wires) (simp add: input_start_def)
  ultimately show ?thesis
    by (simp only: ikcp_input_def option.case if_False Let_def input_start_def [symmetric]
        sum.case input_finish_def)
qed

text \<open>
  C8 (framing).  A datagram made of well-formed segments of this conversation, end to end, is
  split at exactly the segment boundaries and every segment is processed, in order.
\<close>

theorem ikcp_input_segments:
  assumes "segs \<noteq> []" "\<forall>s\<in>set segs. wire_ok (kcp_conv kcp) s"
  shows "ikcp_input kcp (Some (concat (map wire segs)))
    = Some (0, input_finish (kcp_snd_una kcp) (fold input_wire segs (input_start kcp)))"
  using assms by (rule input_segments)

section \<open>What input keeps\<close>

lemma input_push_inv:
  assumes "rcv_inv kcp" "unat (h_len h) \<le> length d"
  shows "rcv_inv (input_push conv h d kcp)"
proof -
  let ?k = "ikcp_ack_push kcp (h_sn h) (h_ts h)"
  let ?seg = "(ikcp_segment_new (h_len h) (ucast (h_frg h)) (take (unat (h_len h)) d))
                \<lparr>seg_conv := conv, seg_cmd := ucast (h_cmd h), seg_wnd := ucast (h_wnd h),
                 seg_ts := h_ts h, seg_sn := h_sn h, seg_una := h_una h\<rparr>"
  have k: "rcv_inv ?k" using assms(1) rcv_same_inv [OF ack_push_frame(1)] by simp
  have ok: "seg_ok ?seg" using assms(2) by (simp add: seg_ok_def)
  have "rcv_inv (ikcp_parse_data ?k ?seg)"
    by (rule parse_data_inv [OF k ok])
  with k assms(1) show ?thesis by (simp add: input_push_def Let_def)
qed

lemma input_segment_rcv_inv:
  assumes "rcv_inv (in_kcp st)" "unat (h_len h) \<le> length d"
  shows "rcv_inv (in_kcp (input_segment conv h d st))"
proof -
  let ?st = "st\<lparr>in_kcp := input_common h (in_kcp st)\<rparr>"
  have c: "rcv_inv (input_common h (in_kcp st))"
    using assms(1) rcv_same_inv [OF input_common_frame(1)] by simp
  have "rcv_inv (in_kcp (input_ack h ?st))"
    using c rcv_same_inv [OF input_ack_frame(1) [of ?st h]] by simp
  moreover have "rcv_inv (k\<lparr>kcp_probe := p\<rparr>) = rcv_inv k" for k p
    by (rule rcv_same_inv) (simp add: rcv_same_def)
  ultimately show ?thesis
    using c input_push_inv [OF c assms(2)] by (simp add: input_segment_cases Let_def)
qed


text \<open>
  The interface of the input loop: an invariant kept by one segment and by the two closing
  steps is kept by \<open>ikcp_input\<close>, for every datagram and every return code.
\<close>

locale input_kept =
  fixes I :: "ikcpcb \<Rightarrow> bool"
  assumes kept_segment:
      "I (in_kcp st) \<Longrightarrow> unat (h_len h) \<le> length d \<Longrightarrow> I (in_kcp (input_segment conv h d st))"
    and kept_fastack: "I kcp \<Longrightarrow> I (ikcp_parse_fastack kcp sn ts)"
    and kept_cwnd: "I kcp \<Longrightarrow> I (input_cwnd u kcp)"
begin

lemma kept_loop:
  "input_loop data st = Some r \<Longrightarrow> I (in_kcp st) \<Longrightarrow>
   I (case r of Inl (e, kcp) \<Rightarrow> kcp | Inr st \<Rightarrow> in_kcp st)"
proof (induction data st rule: input_loop.induct)
  case (1 data st)
  show ?case
  proof (cases "length data < 24")
    case True
    with 1(2,3) show ?thesis by (auto simp: input_loop.simps [of data st])
  next
    case False
    then obtain conv where c: "ikcp_decode32u data = Some (conv, drop 4 data)"
      by (auto intro: u32_codec.dec_obtain [of data])
    obtain h where h: "ikcp_decode_hdr (drop 4 data) = Some (h, drop 20 (drop 4 data))"
      by (rule decode_hdr_total [of "drop 4 data"]) (use False in auto)
    show ?thesis
    proof (cases "conv = kcp_conv (in_kcp st) \<and>
        \<not> (int (length data - 24) < uint (h_len h) \<or> sint (h_len h) < 0) \<and>
        ucast (h_cmd h) \<in> {81, 82, 83, 84 :: u32}")
      case False
      with 1(2,3) \<open>\<not> length data < 24\<close> show ?thesis
        by (subst (asm) input_loop.simps) (auto simp: c h split: if_splits)
    next
      case True
      then have "uint (h_len h) \<le> int (length data - 24)" by simp
      then have len: "unat (h_len h) \<le> length (drop 20 (drop 4 data))"
        unfolding unat_eq_nat_uint nat_le_iff by simp
      show ?thesis
        by (rule "1.IH" [OF _ c _ _ h])
          (use True 1(2,3) False c h len kept_segment in
            \<open>auto simp: input_loop.simps [of data st] split: if_splits\<close>)
    qed
  qed
qed

lemma kept_input: "ikcp_input kcp data = Some (r, kcp') \<Longrightarrow> I kcp \<Longrightarrow> I kcp'"
  using kept_loop [of _ "input_start kcp"]
  by (fastforce simp: ikcp_input_def Let_def input_start_def kept_fastack kept_cwnd
      split: option.splits if_splits sum.splits)

end

interpretation input_rcv: input_kept rcv_inv
  using rcv_same_inv [OF parse_fastack_frame(1)] rcv_same_inv [OF input_cwnd_frame(1)]
  by unfold_locales (auto intro: input_segment_rcv_inv)

interpretation input_cfg: input_kept "cfg_same kcp" for kcp
  using same_trans(3) [OF _ input_segment_cfg] same_trans(3) [OF _ parse_fastack_frame(3)]
    same_trans(3) [OF _ input_cwnd_frame(4)]
  by unfold_locales


section \<open>Rejected datagrams\<close>


end
