(* ===== verification/Kcp_Send.thy ===== *)
theory Kcp_Send
  imports Kcp_Input
begin

text \<open>
  The sending half of KCP: the invariant of the send queue and the send buffer, what the
  acknowledgements remove, and how \<open>ikcp_send\<close> cuts a message into segments.
\<close>

section \<open>The send invariant\<close>

definition snd_off :: "u32 \<Rightarrow> IKCPSEG \<Rightarrow> nat" where
  "snd_off una seg = unat (seg_sn seg - una)"

definition snd_core :: "u32 \<Rightarrow> u32 \<Rightarrow> IKCPSEG list \<Rightarrow> bool" where
  "snd_core una nxt buf \<longleftrightarrow>
     sorted_wrt (<) (map (snd_off una) buf) \<and> unat (nxt - una) < 65536 \<and>
     (\<forall>s\<in>set buf. snd_off una s < unat (nxt - una))"

text \<open>A queued or sent segment fits one datagram, and is what the wire format can carry.\<close>

definition fits :: "u32 \<Rightarrow> IKCPSEG \<Rightarrow> bool" where
  "fits mss s \<longleftrightarrow> seg_ok s \<and> unat (seg_len s) \<le> unat mss \<and> unat (seg_frg s) < 256"

definition in_snd_buf :: "u32 \<Rightarrow> u32 \<Rightarrow> IKCPSEG \<Rightarrow> bool" where
  "in_snd_buf conv mss s \<longleftrightarrow> fits mss s \<and> seg_conv s = conv \<and> seg_cmd s = IKCP_CMD_PUSH"

definition snd_inv :: "ikcpcb \<Rightarrow> bool" where
  "snd_inv kcp \<longleftrightarrow>
     kcp_nsnd_que kcp = of_nat (length (kcp_snd_queue kcp)) \<and>
     kcp_nsnd_buf kcp = of_nat (length (kcp_snd_buf kcp)) \<and>
     snd_core (kcp_snd_una kcp) (kcp_snd_nxt kcp) (kcp_snd_buf kcp) \<and>
     kcp_snd_una kcp = (case kcp_snd_buf kcp of [] \<Rightarrow> kcp_snd_nxt kcp | s # _ \<Rightarrow> seg_sn s) \<and>
     (\<forall>s\<in>set (kcp_snd_queue kcp). fits (kcp_mss kcp) s) \<and>
     (\<forall>s\<in>set (kcp_snd_buf kcp). in_snd_buf (kcp_conv kcp) (kcp_mss kcp) s) \<and>
     unat (kcp_rmt_wnd kcp) < 65536 \<and>
     kcp_mtu kcp = kcp_mss kcp + 24 \<and> 26 \<le> unat (kcp_mss kcp) \<and> unat (kcp_mss kcp) < 2147483624"

text \<open>The invariant with \<open>snd_una\<close> not yet brought up to date: inside the acknowledgement parsers.\<close>

definition snd_inv0 :: "ikcpcb \<Rightarrow> bool" where
  "snd_inv0 kcp \<longleftrightarrow>
     kcp_nsnd_que kcp = of_nat (length (kcp_snd_queue kcp)) \<and>
     kcp_nsnd_buf kcp = of_nat (length (kcp_snd_buf kcp)) \<and>
     snd_core (kcp_snd_una kcp) (kcp_snd_nxt kcp) (kcp_snd_buf kcp) \<and>
     (\<forall>s\<in>set (kcp_snd_queue kcp). fits (kcp_mss kcp) s) \<and>
     (\<forall>s\<in>set (kcp_snd_buf kcp). in_snd_buf (kcp_conv kcp) (kcp_mss kcp) s) \<and>
     unat (kcp_rmt_wnd kcp) < 65536 \<and>
     kcp_mtu kcp = kcp_mss kcp + 24 \<and> 26 \<le> unat (kcp_mss kcp) \<and> unat (kcp_mss kcp) < 2147483624"

lemma snd_inv_iff:
  "snd_inv kcp \<longleftrightarrow> snd_inv0 kcp \<and>
     kcp_snd_una kcp = (case kcp_snd_buf kcp of [] \<Rightarrow> kcp_snd_nxt kcp | s # _ \<Rightarrow> seg_sn s)"
  by (auto simp: snd_inv_def snd_inv0_def)

lemma create_snd_inv:
  assumes "ikcp_create mem conv = Some kcp"
  shows "snd_inv kcp"
proof -
  have "kcp = the (ikcp_create mem conv)" using assms by simp
  with assms show ?thesis
    by (auto simp: ikcp_create_def snd_inv_def snd_core_def split: if_splits)
qed

lemma snd_inv0_core: "snd_inv0 kcp \<Longrightarrow> snd_core (kcp_snd_una kcp) (kcp_snd_nxt kcp) (kcp_snd_buf kcp)"
  unfolding snd_inv0_def by blast

lemma snd_core_sorted: "snd_core una nxt buf \<Longrightarrow> sorted_wrt (<) (map (snd_off una) buf)"
  unfolding snd_core_def by blast

lemma snd_inv0_buf:
  assumes "snd_inv0 kcp" "snd_core (kcp_snd_una kcp) (kcp_snd_nxt kcp) buf'"
    and "c = of_nat (length buf')" "set buf' \<subseteq> set (kcp_snd_buf kcp)"
  shows "snd_inv0 (kcp\<lparr>kcp_snd_buf := buf', kcp_nsnd_buf := c\<rparr>)"
proof -
  have "\<forall>s\<in>set buf'. in_snd_buf (kcp_conv kcp) (kcp_mss kcp) s"
    using assms(1,4) unfolding snd_inv0_def by blast
  with assms(1,2,3) show ?thesis by (simp add: snd_inv0_def)
qed

lemma snd_core_subset:
  assumes "snd_core una nxt buf" "sorted_wrt (<) (map (snd_off una) buf')" "set buf' \<subseteq> set buf"
  shows "snd_core una nxt buf'"
  using assms by (auto simp: snd_core_def)

lemma snd_core_shift:
  assumes "snd_core una nxt (s # buf)"
  shows "snd_core (seg_sn s) nxt (s # buf)"
proof -
  have so: "snd_off una s < unat (nxt - una)" and small: "unat (nxt - una) < 65536"
    and all: "\<forall>x\<in>set buf. snd_off una s < snd_off una x \<and> snd_off una x < unat (nxt - una)"
    and sorted: "sorted_wrt (<) (map (snd_off una) buf)"
    using assms by (auto simp: snd_core_def)
  have sub: "unat (y - seg_sn s) = unat (y - una) - snd_off una s"
    if "snd_off una s \<le> unat (y - una)" for y
  proof -
    have "y - seg_sn s = (y - una) - (seg_sn s - una)" by simp
    with that show ?thesis by (simp only: snd_off_def unat_sub word_le_nat_alt)
  qed
  have off: "snd_off (seg_sn s) x = snd_off una x - snd_off una s" if "x \<in> set buf" for x
  proof -
    have "snd_off una s \<le> unat (seg_sn x - una)"
      using that all by (simp add: snd_off_def less_imp_le)
    from sub [OF this] show ?thesis by (simp only: snd_off_def)
  qed
  have nxt: "unat (nxt - seg_sn s) = unat (nxt - una) - snd_off una s"
    using so by (intro sub) simp
  have "sorted_wrt (\<lambda>a b. snd_off una a < snd_off una b) buf"
    using sorted by (simp add: sorted_wrt_map)
  then have "sorted_wrt (\<lambda>a b. snd_off (seg_sn s) a < snd_off (seg_sn s) b) buf"
    by (rule sorted_wrt_mono_rel [rotated]) (use all off in fastforce)
  moreover have "snd_off (seg_sn s) s = 0" by (simp add: snd_off_def)
  moreover have "\<forall>x\<in>set buf. 0 < snd_off (seg_sn s) x \<and> snd_off (seg_sn s) x < unat (nxt - seg_sn s)"
    using all by (auto simp: off nxt intro: diff_less_mono less_imp_le)
  moreover have "0 < unat (nxt - seg_sn s)" "unat (nxt - seg_sn s) < 65536"
    using so small nxt by linarith+
  ultimately show ?thesis by (simp add: snd_core_def sorted_wrt_map)
qed

lemma shrink_buf_inv: "snd_inv0 kcp \<Longrightarrow> snd_inv (ikcp_shrink_buf kcp)"
proof (cases "kcp_snd_buf kcp")
  case Nil
  assume "snd_inv0 kcp"
  with Nil show ?thesis by (simp add: snd_inv_iff snd_inv0_def ikcp_shrink_buf_def snd_core_def)
next
  case (Cons s buf)
  assume "snd_inv0 kcp"
  with Cons snd_core_shift [of "kcp_snd_una kcp" "kcp_snd_nxt kcp" s buf] show ?thesis
    by (simp add: snd_inv_iff snd_inv0_def ikcp_shrink_buf_def)
qed

section \<open>Acknowledgements\<close>

lemma una_remove_eq:
  "una_remove una buf n =
     (dropWhile (\<lambda>s. 0 < itimediff una (seg_sn s)) buf,
      n - of_nat (length (takeWhile (\<lambda>s. 0 < itimediff una (seg_sn s)) buf)))"
  by (induction buf arbitrary: n) (auto simp: algebra_simps)

lemma sorted_dropWhile_map:
  "sorted_wrt R (map g xs) \<Longrightarrow> sorted_wrt R (map g (dropWhile P xs))"
  by (induction xs) auto

lemma dropWhile_less_filter:
  "sorted_wrt (<) (map g xs) \<Longrightarrow> \<forall>x\<in>set xs. P x \<longleftrightarrow> g x < (b :: nat) \<Longrightarrow>
   dropWhile P xs = filter (\<lambda>x. b \<le> g x) xs"
proof (induction xs)
  case (Cons x xs)
  show ?case
  proof (cases "P x")
    case True
    with Cons show ?thesis by auto
  next
    case False
    then have "b \<le> g x" using Cons.prems by auto
    moreover from this have "\<forall>y\<in>set xs. b \<le> g y" using Cons.prems(1) by auto
    ultimately show ?thesis using False by simp
  qed
qed simp

lemma parse_una_inv0: "snd_inv0 kcp \<Longrightarrow> snd_inv0 (ikcp_parse_una kcp una)"
proof -
  let ?P = "\<lambda>s. 0 < itimediff una (seg_sn s)"
  assume inv: "snd_inv0 kcp"
  have core: "snd_core (kcp_snd_una kcp) (kcp_snd_nxt kcp) (dropWhile ?P (kcp_snd_buf kcp))"
    by (rule snd_core_subset [OF snd_inv0_core [OF inv]
          sorted_dropWhile_map [OF snd_core_sorted [OF snd_inv0_core [OF inv]]]])
      (auto dest: set_dropWhileD)
  have len: "length (kcp_snd_buf kcp)
      = length (takeWhile ?P (kcp_snd_buf kcp)) + length (dropWhile ?P (kcp_snd_buf kcp))"
    by (simp add: takeWhile_dropWhile_length)
  have "kcp_nsnd_buf kcp = of_nat (length (kcp_snd_buf kcp))"
    using inv by (simp only: snd_inv0_def)
  then have cnt: "kcp_nsnd_buf kcp - of_nat (length (takeWhile ?P (kcp_snd_buf kcp)))
      = of_nat (length (dropWhile ?P (kcp_snd_buf kcp)))"
    unfolding len of_nat_add by simp
  show ?thesis
    unfolding ikcp_parse_una_def una_remove_eq Let_def prod.case
    by (rule snd_inv0_buf [OF inv core cnt]) (auto dest: set_dropWhileD)
qed

text \<open>
  A cumulative acknowledgement: an \<open>una\<close> inside the window removes exactly the segments
  before it from the send buffer, and afterwards \<open>snd_una\<close> is the oldest one left.
\<close>

theorem kcp_una_removes_exactly:
  assumes inv: "snd_inv kcp" and una: "unat (una - kcp_snd_una kcp) \<le> unat (kcp_snd_nxt kcp - kcp_snd_una kcp)"
  shows "kcp_snd_buf (ikcp_shrink_buf (ikcp_parse_una kcp una))
      = filter (\<lambda>s. unat (una - kcp_snd_una kcp) \<le> unat (seg_sn s - kcp_snd_una kcp)) (kcp_snd_buf kcp)
    \<and> snd_inv (ikcp_shrink_buf (ikcp_parse_una kcp una))"
proof
  have core: "snd_core (kcp_snd_una kcp) (kcp_snd_nxt kcp) (kcp_snd_buf kcp)"
    using inv unfolding snd_inv_def by blast
  have "kcp_snd_buf (ikcp_shrink_buf (ikcp_parse_una kcp una))
      = dropWhile (\<lambda>s. 0 < itimediff una (seg_sn s)) (kcp_snd_buf kcp)"
    by (simp add: ikcp_shrink_buf_def ikcp_parse_una_def una_remove_eq split: list.split)
  also have "\<dots> = filter (\<lambda>s. unat (una - kcp_snd_una kcp) \<le> snd_off (kcp_snd_una kcp) s) (kcp_snd_buf kcp)"
  proof (rule dropWhile_less_filter)
    show "sorted_wrt (<) (map (snd_off (kcp_snd_una kcp)) (kcp_snd_buf kcp))"
      using core by (simp add: snd_core_def)
    show "\<forall>s\<in>set (kcp_snd_buf kcp). 0 < itimediff una (seg_sn s) \<longleftrightarrow>
        snd_off (kcp_snd_una kcp) s < unat (una - kcp_snd_una kcp)"
    proof
      fix s assume "s \<in> set (kcp_snd_buf kcp)"
      then have "unat (seg_sn s - kcp_snd_una kcp) < 2147483648" "unat (una - kcp_snd_una kcp) < 2147483648"
        using core una by (auto simp: snd_core_def snd_off_def)
      then show "0 < itimediff una (seg_sn s) \<longleftrightarrow> snd_off (kcp_snd_una kcp) s < unat (una - kcp_snd_una kcp)"
        unfolding snd_off_def by (rule itimediff_origin(1) [rotated])
    qed
  qed
  finally show "kcp_snd_buf (ikcp_shrink_buf (ikcp_parse_una kcp una))
      = filter (\<lambda>s. unat (una - kcp_snd_una kcp) \<le> unat (seg_sn s - kcp_snd_una kcp)) (kcp_snd_buf kcp)"
    by (simp add: snd_off_def)
  show "snd_inv (ikcp_shrink_buf (ikcp_parse_una kcp una))"
    using inv unfolding snd_inv_iff [of kcp] by (blast intro: shrink_buf_inv parse_una_inv0)
qed

lemma ack_remove_spec:
  "\<exists>n. snd (ack_remove sn buf) = of_nat n \<and> length buf = length (fst (ack_remove sn buf)) + n
    \<and> set (fst (ack_remove sn buf)) \<subseteq> set buf
    \<and> (sorted_wrt R (map g buf) \<longrightarrow> sorted_wrt R (map g (fst (ack_remove sn buf))))"
proof (induction buf)
  case (Cons s buf)
  then obtain n where n: "snd (ack_remove sn buf) = of_nat n"
    "length buf = length (fst (ack_remove sn buf)) + n"
    "set (fst (ack_remove sn buf)) \<subseteq> set buf"
    "sorted_wrt R (map g buf) \<longrightarrow> sorted_wrt R (map g (fst (ack_remove sn buf)))"
    by blast
  obtain rest c where r: "ack_remove sn buf = (rest, c)" by fastforce
  show ?case
  proof (cases "sn = seg_sn s")
    case True
    then show ?thesis by (intro exI [of _ 1]) auto
  next
    case False
    then show ?thesis
    proof (cases "itimediff sn (seg_sn s) < 0")
      case True
      with False show ?thesis by (intro exI [of _ 0]) auto
    next
      case ge: False
      have "set rest \<subseteq> set buf" using n(3) r by simp
      with n r False ge show ?thesis
        by (intro exI [of _ n]) auto
    qed
  qed
qed simp

lemma ack_remove_filter:
  assumes "\<forall>s\<in>set buf. unat (seg_sn s - una) < 2147483648" "unat (sn - una) < 2147483648"
    and "sorted_wrt (<) (map (snd_off una) buf)"
  shows "fst (ack_remove sn buf) = filter (\<lambda>s. seg_sn s \<noteq> sn) buf"
  using assms
proof (induction buf)
  case (Cons s buf)
  have later: "\<forall>x\<in>set buf. snd_off una s < snd_off una x" using Cons.prems by auto
  show ?case
  proof (cases "sn = seg_sn s")
    case True
    with later have "\<forall>x\<in>set buf. seg_sn x \<noteq> sn" by (auto simp: snd_off_def)
    with True show ?thesis by simp
  next
    case False
    show ?thesis
    proof (cases "itimediff sn (seg_sn s) < 0")
      case True
      then have "unat (sn - una) < snd_off una s"
        using Cons.prems itimediff_origin(2) [of sn una "seg_sn s"] by (simp add: snd_off_def)
      with later have "\<forall>x\<in>set buf. seg_sn x \<noteq> sn" by (auto simp: snd_off_def dest: less_trans)
      with True False show ?thesis by simp
    next
      case ge: False
      with False Cons show ?thesis by (simp add: split_def)
    qed
  qed
qed simp

lemma parse_ack_inv0: "snd_inv0 kcp \<Longrightarrow> snd_inv0 (ikcp_parse_ack kcp sn)"
proof -
  assume inv: "snd_inv0 kcp"
  obtain rest c where r: "ack_remove sn (kcp_snd_buf kcp) = (rest, c)" by fastforce
  from ack_remove_spec [of sn "kcp_snd_buf kcp" "(<)" "snd_off (kcp_snd_una kcp)"] r
  obtain n where n: "c = of_nat n" "length (kcp_snd_buf kcp) = length rest + n"
    "set rest \<subseteq> set (kcp_snd_buf kcp)"
    "sorted_wrt (<) (map (snd_off (kcp_snd_una kcp)) (kcp_snd_buf kcp)) \<longrightarrow>
     sorted_wrt (<) (map (snd_off (kcp_snd_una kcp)) rest)"
    by auto
  have "snd_core (kcp_snd_una kcp) (kcp_snd_nxt kcp) rest"
    using snd_core_subset [OF snd_inv0_core [OF inv] _ n(3)] n(4)
      snd_core_sorted [OF snd_inv0_core [OF inv]] by blast
  moreover have "kcp_nsnd_buf kcp - c = of_nat (length rest)"
    using inv unfolding snd_inv0_def n(1,2) by simp
  ultimately have "snd_inv0 (kcp\<lparr>kcp_snd_buf := rest, kcp_nsnd_buf := kcp_nsnd_buf kcp - c\<rparr>)"
    by (intro snd_inv0_buf [OF inv _ _ n(3)])
  with inv show ?thesis unfolding ikcp_parse_ack_def Let_def r prod.case by simp
qed

text \<open>
  A selective acknowledgement: acknowledging one sequence number takes that segment, and
  no other, out of the send buffer; outside the window nothing is removed.
\<close>

theorem kcp_ack_removes_one:
  assumes inv: "snd_inv kcp"
  shows "kcp_snd_buf (ikcp_parse_ack kcp sn)
    = (if unat (sn - kcp_snd_una kcp) < unat (kcp_snd_nxt kcp - kcp_snd_una kcp)
       then filter (\<lambda>s. seg_sn s \<noteq> sn) (kcp_snd_buf kcp) else kcp_snd_buf kcp)"
proof -
  have core: "snd_core (kcp_snd_una kcp) (kcp_snd_nxt kcp) (kcp_snd_buf kcp)"
    using inv unfolding snd_inv_def by blast
  have nxt: "unat (kcp_snd_nxt kcp - kcp_snd_una kcp) < 2147483648"
    using core by (simp add: snd_core_def)
  have win: "itimediff sn (kcp_snd_nxt kcp) \<ge> 0 \<or> itimediff sn (kcp_snd_una kcp) < 0
      \<longleftrightarrow> unat (kcp_snd_nxt kcp - kcp_snd_una kcp) \<le> unat (sn - kcp_snd_una kcp)"
    using rcv_accept_iff [of "kcp\<lparr>kcp_rcv_wnd := kcp_snd_nxt kcp - kcp_snd_una kcp,
        kcp_rcv_nxt := kcp_snd_una kcp\<rparr>" sn] nxt by simp
  show ?thesis
  proof (cases "unat (sn - kcp_snd_una kcp) < unat (kcp_snd_nxt kcp - kcp_snd_una kcp)")
    case False
    with win show ?thesis by (auto simp: ikcp_parse_ack_def)
  next
    case True
    with win have "ikcp_parse_ack kcp sn = (let (rest, n) = ack_remove sn (kcp_snd_buf kcp)
           in kcp\<lparr>kcp_snd_buf := rest, kcp_nsnd_buf := kcp_nsnd_buf kcp - n\<rparr>)"
      by (auto simp: ikcp_parse_ack_def)
    moreover have "fst (ack_remove sn (kcp_snd_buf kcp)) = filter (\<lambda>s. seg_sn s \<noteq> sn) (kcp_snd_buf kcp)"
      by (rule ack_remove_filter [of _ "kcp_snd_una kcp"])
        (use core True nxt in \<open>auto simp: snd_core_def snd_off_def\<close>)
    ultimately show ?thesis using True by (simp add: split_def)
  qed
qed

text \<open>
  C10 (acknowledgements).  A cumulative acknowledgement inside the window removes exactly the segments in
  front of it from the send buffer, and afterwards \<open>snd_una\<close> is the oldest one left; a selective one
  removes that segment and no other, and outside the window nothing.
\<close>

theorem kcp_acks_remove_exactly:
  assumes inv: "snd_inv kcp"
  shows "(unat (una - kcp_snd_una kcp) \<le> unat (kcp_snd_nxt kcp - kcp_snd_una kcp) \<longrightarrow>
      kcp_snd_buf (ikcp_shrink_buf (ikcp_parse_una kcp una))
        = filter (\<lambda>s. unat (una - kcp_snd_una kcp) \<le> unat (seg_sn s - kcp_snd_una kcp)) (kcp_snd_buf kcp)
      \<and> snd_inv (ikcp_shrink_buf (ikcp_parse_una kcp una)))
    \<and> kcp_snd_buf (ikcp_parse_ack kcp sn)
      = (if unat (sn - kcp_snd_una kcp) < unat (kcp_snd_nxt kcp - kcp_snd_una kcp)
         then filter (\<lambda>s. seg_sn s \<noteq> sn) (kcp_snd_buf kcp) else kcp_snd_buf kcp)"
  using kcp_una_removes_exactly [OF inv] kcp_ack_removes_one [OF inv] by blast

section \<open>Input and the send side\<close>

lemma snd_inv_same:
  assumes "snd_same kcp kcp'" "cfg_same kcp kcp'" "kcp_rmt_wnd kcp' = kcp_rmt_wnd kcp"
  shows "snd_inv kcp' = snd_inv kcp"
  using assms unfolding snd_inv_def snd_same_def cfg_same_def by (simp cong: list.case_cong)

lemma snd_inv_imp0: "snd_inv kcp \<Longrightarrow> snd_inv0 kcp"
  by (simp only: snd_inv_iff)

lemma input_common_snd_inv:
  assumes "snd_inv kcp"
  shows "snd_inv (input_common h kcp)"
proof -
  have "unat (ucast (h_wnd h) :: u32) < 65536"
    using unsigned_less [of "h_wnd h", where ?'a = nat]
    by (simp add: unsigned_ucast_eq le_less_trans [OF take_bit_nat_less_eq_self])
  then have "snd_inv0 (kcp\<lparr>kcp_rmt_wnd := ucast (h_wnd h)\<rparr>)"
    using snd_inv_imp0 [OF assms] by (simp add: snd_inv0_def)
  then show ?thesis
    unfolding input_common_def by (intro shrink_buf_inv parse_una_inv0)
qed

lemma input_ack_snd_inv:
  assumes "snd_inv (in_kcp st)"
  shows "snd_inv (in_kcp (input_ack h st))"
proof -
  define k where "k = (if itimediff (kcp_current (in_kcp st)) (h_ts h) \<ge> 0
       then ikcp_update_ack (in_kcp st) (word_of_int (itimediff (kcp_current (in_kcp st)) (h_ts h)))
       else in_kcp st)"
  have "snd_inv k"
    using assms snd_inv_same [OF update_ack_frame(2,4,5)] by (simp add: k_def)
  then have "snd_inv (ikcp_shrink_buf (ikcp_parse_ack k (h_sn h)))"
    by (intro shrink_buf_inv parse_ack_inv0 snd_inv_imp0)
  then show ?thesis
    unfolding input_ack_def Let_def k_def [symmetric] by simp
qed

lemma input_segment_snd_inv:
  assumes "snd_inv (in_kcp st)"
  shows "snd_inv (in_kcp (input_segment conv h d st))"
proof -
  let ?st = "st\<lparr>in_kcp := input_common h (in_kcp st)\<rparr>"
  have c: "snd_inv (in_kcp ?st)" using input_common_snd_inv [OF assms] by simp
  have "snd_inv (input_push conv h d (in_kcp ?st))"
    using c snd_inv_same [OF input_push_frame] by simp
  moreover have "snd_inv ((in_kcp ?st)\<lparr>kcp_probe := p\<rparr>)" for p
    using c snd_inv_same [of "in_kcp ?st" "(in_kcp ?st)\<lparr>kcp_probe := p\<rparr>"] by (simp add: same_defs)
  ultimately show ?thesis
    using c input_ack_snd_inv [OF c, of h] by (simp add: input_segment_cases Let_def)
qed

lemma fastack_mark_map:
  "map seg_sn (fastack_mark sn buf) = map seg_sn buf"
  "(\<forall>s\<in>set (fastack_mark sn buf). in_snd_buf c m s) = (\<forall>s\<in>set buf. in_snd_buf c m s)"
  by (induction buf) (auto simp: in_snd_buf_def fits_def seg_ok_def)

lemma snd_core_sns:
  "map seg_sn buf' = map seg_sn buf \<Longrightarrow> snd_core una nxt buf' = snd_core una nxt buf"
proof -
  assume eq: "map seg_sn buf' = map seg_sn buf"
  have m: "map (snd_off una) b = map (\<lambda>n. unat (n - una)) (map seg_sn b)" for b
    by (simp add: snd_off_def)
  have "(\<forall>s\<in>set b. snd_off una s < k) = (\<forall>n\<in>set (map seg_sn b). unat (n - una) < k)" for b k
    by (simp add: snd_off_def)
  then show ?thesis unfolding snd_core_def m eq by (simp only: eq)
qed

lemma parse_fastack_snd_inv:
  assumes "snd_inv kcp"
  shows "snd_inv (ikcp_parse_fastack kcp sn ts)"
proof -
  let ?b = "fastack_mark sn (kcp_snd_buf kcp)"
  note eq = fastack_mark_map(1) [of sn "kcp_snd_buf kcp"]
  have "length ?b = length (kcp_snd_buf kcp)" using arg_cong [OF eq, of length] by simp
  moreover have "(case ?b of [] \<Rightarrow> n | s # _ \<Rightarrow> seg_sn s)
      = (case kcp_snd_buf kcp of [] \<Rightarrow> n | s # _ \<Rightarrow> seg_sn s)" for n
    using eq by (cases "?b"; cases "kcp_snd_buf kcp") simp_all
  moreover have "snd_inv0 (kcp\<lparr>kcp_snd_buf := ?b\<rparr>)"
    using snd_inv_imp0 [OF assms] \<open>length ?b = length (kcp_snd_buf kcp)\<close>
    by (simp add: snd_inv0_def snd_core_sns [OF eq] fastack_mark_map(2))
  ultimately have "snd_inv (kcp\<lparr>kcp_snd_buf := ?b\<rparr>)"
    using assms unfolding snd_inv_iff by (simp cong: list.case_cong)
  with assms show ?thesis by (simp add: ikcp_parse_fastack_def)
qed

interpretation input_snd: input_kept snd_inv
  using snd_inv_same [OF input_cwnd_frame(2,4,5)]
  by unfold_locales (auto intro: input_segment_snd_inv parse_fastack_snd_inv)

text \<open>
  C6 (input keeps the send side).  No datagram, however malformed or hostile, breaks the send
  buffer: its counters, its order, the link of \<open>snd_una\<close> to the oldest segment and the bound
  on what is in flight survive every \<open>ikcp_input\<close>.
\<close>

theorem ikcp_input_snd_inv:
  "snd_inv kcp \<Longrightarrow> ikcp_input kcp data = Some (r, kcp') \<Longrightarrow> snd_inv kcp'"
  by (rule input_snd.kept_input)

section \<open>Fragmentation\<close>

text \<open>The pieces of a message, and the segments they become: the last one has \<open>frg = 0\<close>.\<close>

fun chunks :: "nat \<Rightarrow> bytes \<Rightarrow> bytes list" where
  "chunks m data =
     (if m = 0 \<or> length data \<le> m then [data] else take m data # chunks m (drop m data))"

declare chunks.simps [simp del]

fun number_down :: "bytes list \<Rightarrow> IKCPSEG list" where
  "number_down [] = []"
| "number_down (d # ds) =
     ikcp_segment_new (of_nat (length d)) (of_nat (length ds)) d # number_down ds"

definition fragments :: "u32 \<Rightarrow> bytes \<Rightarrow> IKCPSEG list" where
  "fragments mss data = number_down (chunks (unat mss) data)"

lemma concat_chunks: "concat (chunks m data) = data"
  by (induction m data rule: chunks.induct) (subst chunks.simps, auto)

lemma chunks_nonempty [simp]: "chunks m data \<noteq> []"
  by (subst chunks.simps) simp

lemma chunks_le: "0 < m \<Longrightarrow> \<forall>d\<in>set (chunks m data). length d \<le> m"
  by (induction m data rule: chunks.induct) (subst chunks.simps, auto)

lemma length_chunks:
  "0 < m \<Longrightarrow> length (chunks m data) = (if length data \<le> m then 1 else (length data + m - 1) div m)"
proof (induction m data rule: chunks.induct)
  case (1 m data)
  show ?case
  proof (cases "length data \<le> m")
    case True
    then show ?thesis by (subst chunks.simps) simp
  next
    case False
    have "length (chunks m (drop m data)) = (length data - 1) div m"
    proof (cases "length data - m \<le> m")
      case True
      have "(length data - 1) div m = 1"
        using True False by (intro div_nat_eqI) auto
      with True show ?thesis using "1.IH" "1.prems" False by simp
    next
      case gt: False
      then have "length data - m + m - 1 = length data - 1" by simp
      then show ?thesis using "1.IH" "1.prems" False gt by simp
    qed
    moreover have "(length data + m - 1) div m = Suc ((length data - 1) div m)"
    proof -
      have "length data + m - 1 = (length data - 1) + m" using False by simp
      then show ?thesis using "1.prems" by (simp only: div_add_self2)
    qed
    ultimately show ?thesis using False "1.prems" by (subst chunks.simps) simp
  qed
qed

lemma map_data_number_down [simp]: "map seg_data (number_down ds) = ds"
  by (induction ds) auto

lemma length_number_down [simp]: "length (number_down ds) = length ds"
  by (induction ds) auto

lemma send_fragments_spec:
  assumes "kcp_stream kcp = 0" "\<forall>i. mem i" "0 < unat (kcp_mss kcp)" "unat (kcp_mss kcp) < 2147483648"
  shows "send_fragments mem a (length (chunks (unat (kcp_mss kcp)) data)) kcp data (int (length data))
    = (0, kcp\<lparr>kcp_snd_queue := kcp_snd_queue kcp @ fragments (kcp_mss kcp) data,
         kcp_nsnd_que := kcp_nsnd_que kcp + of_nat (length (chunks (unat (kcp_mss kcp)) data))\<rparr>)"
  using assms
proof (induction "unat (kcp_mss kcp)" data arbitrary: a kcp rule: chunks.induct)
  case (1 data)
  let ?m = "unat (kcp_mss kcp)"
  have mss: "sint (kcp_mss kcp) = int ?m"
    using "1.prems" by (simp only: sint_u32_cases if_True)
  show ?case
  proof (cases "length data \<le> ?m")
    case True
    then have ch: "chunks ?m data = [data]" by (subst chunks.simps) simp
    from True have "\<not> int (length data) > int ?m" by (simp only: of_nat_less_iff not_less)
    then show ?thesis
      unfolding ch fragments_def using "1.prems" by (simp add: mss [simplified] ch fragments_def)
  next
    case False
    let ?rest = "drop ?m data"
    let ?n = "length (chunks ?m ?rest)"
    let ?seg = "ikcp_segment_new (of_nat ?m) (of_nat ?n) (take ?m data)"
    let ?k = "kcp\<lparr>kcp_snd_queue := kcp_snd_queue kcp @ [?seg], kcp_nsnd_que := kcp_nsnd_que kcp + 1\<rparr>"
    have ch: "chunks ?m data = take ?m data # chunks ?m ?rest"
      using False "1.prems" by (subst chunks.simps) simp
    have size: "(if int (length data) > int ?m then int ?m else int (length data)) = int ?m"
      using False by (intro if_P) (simp only: not_le of_nat_less_iff)
    have rest: "int (length data) - int ?m = int (length ?rest)"
      using False by (simp add: of_nat_diff)
    have "send_fragments mem a (length (chunks ?m data)) kcp data (int (length data))
        = send_fragments mem (Suc a) ?n ?k ?rest (int (length ?rest))"
      unfolding ch list.size(4) add_Suc_right add_0_right send_fragments.simps(2) mss size rest
      using "1.prems" rest by simp
    also have "\<dots> = (0, ?k\<lparr>kcp_snd_queue := kcp_snd_queue ?k @ fragments (kcp_mss ?k) ?rest,
         kcp_nsnd_que := kcp_nsnd_que ?k + of_nat (length (chunks (unat (kcp_mss ?k)) ?rest))\<rparr>)"
      using "1.hyps" [of ?k] False "1.prems" by simp
    finally have eq: "send_fragments mem a (length (chunks ?m data)) kcp data (int (length data)) = \<dots>" .
    have "fragments (kcp_mss kcp) data = ?seg # fragments (kcp_mss kcp) ?rest"
      using False by (simp add: fragments_def ch min_absorb2)
    with eq show ?thesis by (simp add: ch algebra_simps)
  qed
qed

lemma send_message:
  assumes "snd_inv kcp" "kcp_stream kcp = 0" "\<forall>i. mem i" "length data < 2147483648"
  defines "n \<equiv> length (chunks (unat (kcp_mss kcp)) data)"
  shows "ikcp_send mem kcp data (int (length data)) =
    (if n < 128
     then (0, kcp\<lparr>kcp_snd_queue := kcp_snd_queue kcp @ fragments (kcp_mss kcp) data,
                   kcp_nsnd_que := kcp_nsnd_que kcp + of_nat n\<rparr>)
     else (-2, kcp))"
proof -
  let ?m = "unat (kcp_mss kcp)"
  have m: "26 \<le> ?m" "?m < 2147483624" using assms(1) unfolding snd_inv_def by blast+
  have mss: "sint (kcp_mss kcp) = int ?m"
  proof -
    have "?m < 2147483648" using m by linarith
    then show ?thesis by (simp only: sint_u32_cases if_True)
  qed
  have n: "n = (if length data \<le> ?m then 1 else (length data + ?m - 1) div ?m)"
    using m unfolding n_def by (intro length_chunks) simp
  have cnt: "send_count kcp (int (length data)) = int n"
  proof (cases "length data \<le> ?m")
    case True
    then have "int (length data) \<le> int ?m" by (simp only: of_nat_le_iff)
    with True n show ?thesis by (simp only: send_count_def mss if_True)
  next
    case False
    let ?w = "word_of_int (int (length data)) + kcp_mss kcp - 1 :: u32"
    have "?w = of_nat (length data + ?m - 1)" using m by (simp add: of_nat_diff)
    then have w: "unat ?w = length data + ?m - 1"
      using assms(4) m by (simp only: unat_word_of_nat_32)
    have "unat (?w div kcp_mss kcp) = n" using n False w by (simp only: unat_div if_False)
    moreover have "n \<le> length data + ?m - 1" using n False by simp
    moreover have "n < 2147483648"
    proof -
      have "(length data + ?m - 1) div ?m \<le> (length data + ?m - 1) div 26"
        using m by (intro div_le_mono2) auto
      moreover have "(length data + ?m - 1) div 26 < 2147483648"
        using assms(4) m by (intro less_mult_imp_div_less) auto
      ultimately show ?thesis using n False by (simp only: if_False)
    qed
    ultimately have "sint (?w div kcp_mss kcp) = int n"
      by (simp only: sint_u32_cases if_True)
    moreover have "\<not> int (length data) \<le> int ?m" using False by (simp only: of_nat_le_iff simp_thms)
    ultimately show ?thesis by (simp only: send_count_def mss if_False)
  qed
  have n0: "n \<noteq> 0" using chunks_nonempty by (simp add: n_def)
  have frag: "send_fragments mem 0 n kcp data (int (length data)) =
     (0, kcp\<lparr>kcp_snd_queue := kcp_snd_queue kcp @ fragments (kcp_mss kcp) data,
             kcp_nsnd_que := kcp_nsnd_que kcp + of_nat n\<rparr>)"
    unfolding n_def using assms m by (intro send_fragments_spec) auto
  have "ikcp_send mem kcp data (int (length data)) = send_rest mem 0 kcp data (int (length data))"
    using assms(2) by (simp add: ikcp_send_def)
  then show ?thesis
    using n0 frag by (simp add: send_rest_def cnt sint_u32_cases)
qed

text \<open>
  C4 (fragmentation).  In message mode \<open>ikcp_send\<close> cuts the message into pieces of at most
  \<open>mss\<close> bytes, numbered downwards to 0, and queues them all, or, when the message needs 128
  pieces or more, refuses it with \<open>-2\<close> and queues nothing.
\<close>

theorem ikcp_send_fragments:
  assumes "snd_inv kcp" "kcp_stream kcp = 0" "\<forall>i. mem i" "length data < 2147483648"
  defines "n \<equiv> length (chunks (unat (kcp_mss kcp)) data)"
  shows "ikcp_send mem kcp data (int (length data)) =
    (if n < 128
     then (0, kcp\<lparr>kcp_snd_queue := kcp_snd_queue kcp @ fragments (kcp_mss kcp) data,
                   kcp_nsnd_que := kcp_nsnd_que kcp + of_nat n\<rparr>)
     else (-2, kcp))"
  unfolding n_def by (rule send_message [OF assms(1-4)])

lemma number_down_frg:
  "i < length ds \<Longrightarrow> seg_frg (number_down ds ! i) = of_nat (length ds - Suc i)"
  by (induction ds arbitrary: i) (auto simp: nth_Cons split: nat.split)

lemma payload_new [simp]: "seg_payload (ikcp_segment_new len frg d) = (frg, d)"
  by (simp add: seg_payload_def)

lemma number_down_msg:
  assumes "map seg_payload q = map seg_payload (number_down ds) @ tail" "ds \<noteq> []" "length ds < 4294967296"
  shows "msg_segs q = length ds"
  using assms
proof (induction ds arbitrary: q)
  case (Cons d ds)
  then have "map seg_payload q
      = (of_nat (length ds), d) # (map seg_payload (number_down ds) @ tail)" by simp
  then obtain s q' where q: "q = s # q'" and s: "seg_payload s = (of_nat (length ds), d)"
    and q': "map seg_payload q' = map seg_payload (number_down ds) @ tail"
    by (auto simp: map_eq_Cons_conv)
  have frg: "seg_frg s = of_nat (length ds)" using s by (simp add: seg_payload_def)
  show ?case
  proof (cases "ds = []")
    case True
    then show ?thesis by (simp add: q frg)
  next
    case False
    have "unat (of_nat (length ds) :: u32) = length ds"
      using Cons.prems(3) by (intro unat_word_of_nat_32) simp
    then have "(of_nat (length ds) :: u32) \<noteq> 0"
      using False by (metis length_0_conv unat_0)
    then show ?thesis using Cons.IH [OF q' False] Cons.prems(3) by (simp add: q frg)
  qed
qed simp

lemma peek_length_msg: "peek_length q len = len + (\<Sum>s\<leftarrow>take (msg_segs q) q. seg_len s)"
  by (induction q arbitrary: len) (auto simp: Let_def algebra_simps)

lemma sum_seg_len:
  "\<forall>s\<in>set q. seg_ok s \<Longrightarrow> (\<Sum>s\<leftarrow>q. seg_len s) = of_nat (length (concat (map seg_data q)))"
proof (induction q)
  case (Cons s q)
  then have "seg_len s = of_nat (length (seg_data s))"
  proof -
    have "of_nat (unat (seg_len s)) = seg_len s" by simp
    with Cons.prems show ?thesis by (simp only: seg_ok_def list.set_intros)
  qed
  with Cons show ?case by simp
qed simp

text \<open>The size of the message whose first piece says how many follow it.\<close>

lemma peeksize_head:
  assumes inv: "rcv_inv kcp" and q: "kcp_rcv_queue kcp = s # q'" "seg_frg s = of_nat (k - 1)"
    and k: "0 < k" "k < 4294967296"
  shows "ikcp_peeksize kcp =
    (if k \<le> length (kcp_rcv_queue kcp) then sint (peek_length (kcp_rcv_queue kcp) 0) else - 1)"
proof (cases "k = 1")
  case True
  then show ?thesis using q by (simp add: ikcp_peeksize_def)
next
  case False
  have nque: "kcp_nrcv_que kcp = of_nat (length (kcp_rcv_queue kcp))" and lq: "length (kcp_rcv_queue kcp) < 2147483648"
    using inv unfolding rcv_inv_def by blast+
  have u: "unat (of_nat (k - 1) :: u32) = k - 1" "unat (of_nat k :: u32) = k"
    "unat (of_nat (length (kcp_rcv_queue kcp)) :: u32) = length (kcp_rcv_queue kcp)"
    using k lq by (intro unat_word_of_nat_32; linarith)+
  have f0: "seg_frg s \<noteq> 0"
    using q(2) u(1) False k(1) by (metis One_nat_def diff_is_0_eq le_Suc_eq le_zero_eq neq0_conv unat_0)
  have "seg_frg s + 1 = of_nat k" using k(1) q(2) by (simp add: of_nat_diff)
  then have "kcp_nrcv_que kcp < seg_frg s + 1 \<longleftrightarrow> \<not> k \<le> length (kcp_rcv_queue kcp)"
    unfolding nque word_less_nat_alt u(3) using u(2) by (simp only: not_le)
  then show ?thesis using f0 by (simp add: ikcp_peeksize_def q(1))
qed

text \<open>A queue that starts with the pieces of a message.\<close>

lemma number_down_head:
  assumes "map seg_payload q = map seg_payload (number_down ds) @ tail" "ds \<noteq> []"
  obtains s q' where "q = s # q'" "seg_frg s = of_nat (length ds - 1)"
  using assms by (cases ds) (auto simp: map_eq_Cons_conv seg_payload_def)

lemma number_down_data:
  assumes "map seg_payload q = map seg_payload (number_down ds) @ tail"
  shows "concat (map seg_data (take (length ds) q)) = concat ds" "map seg_payload (drop (length ds) q) = tail"
proof -
  have "map seg_payload (take (length ds) q) = map seg_payload (number_down ds)"
    using arg_cong [OF assms, of "take (length ds)"] by (simp add: take_map)
  from arg_cong [OF this, of "map snd"] have "map seg_data (take (length ds) q) = ds"
    by (simp add: seg_payload_def comp_def)
  then show "concat (map seg_data (take (length ds) q)) = concat ds" by simp
  show "map seg_payload (drop (length ds) q) = tail"
    using arg_cong [OF assms, of "drop (length ds)"] by (simp add: drop_map)
qed


section \<open>Sending keeps the invariant\<close>

lemma fits_new:
  assumes "0 \<le> sz" "sz \<le> int (unat mss)" "sz \<le> int (length buffer)" "unat frg < 256"
  shows "fits mss (ikcp_segment_new (word_of_int sz) frg (take (nat sz) buffer))"
proof -
  have "word_of_int sz = (of_nat (nat sz) :: u32)" using assms(1) by simp
  moreover have "nat sz < 4294967296" using assms(1,2) unat_lt_2_32 [of mss] by linarith
  ultimately have "unat (word_of_int sz :: u32) = nat sz"
    by (simp only: unat_word_of_nat_32)
  moreover have "nat sz \<le> unat mss" "nat sz \<le> length buffer" using assms by linarith+
  ultimately show ?thesis using assms(4) by (simp add: fits_def seg_ok_def)
qed

lemma snd_inv_mss: "snd_inv kcp \<Longrightarrow> sint (kcp_mss kcp) = int (unat (kcp_mss kcp)) \<and> 26 \<le> unat (kcp_mss kcp)"
proof -
  assume "snd_inv kcp"
  then have m: "26 \<le> unat (kcp_mss kcp)" "unat (kcp_mss kcp) < 2147483624"
    unfolding snd_inv_def by blast+
  then have "unat (kcp_mss kcp) < 2147483648" by linarith
  then have "sint (kcp_mss kcp) = int (unat (kcp_mss kcp))" by (simp only: sint_u32_cases if_True)
  with m show ?thesis by blast
qed

lemma snd_inv_queue:
  assumes "snd_inv kcp" "c = of_nat (length q)" "\<forall>s\<in>set q. fits (kcp_mss kcp) s"
  shows "snd_inv (kcp\<lparr>kcp_snd_queue := q, kcp_nsnd_que := c\<rparr>)"
proof -
  have "snd_inv0 (kcp\<lparr>kcp_snd_queue := q, kcp_nsnd_que := c\<rparr>)"
    using snd_inv_imp0 [OF assms(1)] assms(2,3) by (simp add: snd_inv0_def)
  moreover have "kcp_snd_una kcp = (case kcp_snd_buf kcp of [] \<Rightarrow> kcp_snd_nxt kcp | s # _ \<Rightarrow> seg_sn s)"
    using assms(1) unfolding snd_inv_def by blast
  ultimately show ?thesis unfolding snd_inv_iff by (simp cong: list.case_cong)
qed

lemma snd_inv_enqueue:
  "snd_inv kcp \<Longrightarrow> fits (kcp_mss kcp) seg \<Longrightarrow>
   snd_inv (kcp\<lparr>kcp_snd_queue := kcp_snd_queue kcp @ [seg], kcp_nsnd_que := kcp_nsnd_que kcp + 1\<rparr>)"
  by (rule snd_inv_queue) (auto simp: snd_inv_def)

lemma send_fragments_snd_inv:
  "snd_inv kcp \<Longrightarrow> n \<le> 128 \<Longrightarrow> 0 \<le> len \<Longrightarrow> len \<le> int (length buffer) \<Longrightarrow>
   snd_inv (snd (send_fragments mem a n kcp buffer len))"
proof (induction n arbitrary: a kcp buffer len)
  case (Suc n)
  let ?m = "sint (kcp_mss kcp)"
  define sz where "sz = (if len > ?m then ?m else len)"
  define frg :: u32 where "frg = (if kcp_stream kcp = 0 then of_nat n else 0)"
  have sz: "0 \<le> sz" "sz \<le> int (unat (kcp_mss kcp))" "sz \<le> len"
    using snd_inv_mss [OF Suc.prems(1)] Suc.prems(3) unfolding sz_def by auto
  have n: "n < 4294967296" "n < 256" using Suc.prems(2) by linarith+
  have "unat frg < 256"
    using n by (auto simp: frg_def unat_word_of_nat_32)
  then have "fits (kcp_mss kcp) (ikcp_segment_new (word_of_int sz) frg (take (nat sz) buffer))"
    using sz Suc.prems(4) by (intro fits_new) auto
  note k = snd_inv_enqueue [OF Suc.prems(1) this]
  show ?case
  proof (cases "mem a")
    case True
    have eq: "send_fragments mem a (Suc n) kcp buffer len = send_fragments mem (Suc a) n
        (kcp\<lparr>kcp_snd_queue := kcp_snd_queue kcp @
             [ikcp_segment_new (word_of_int sz) frg (take (nat sz) buffer)],
           kcp_nsnd_que := kcp_nsnd_que kcp + 1\<rparr>) (drop (nat sz) buffer) (len - sz)"
      using True by (simp add: sz_def frg_def Let_def)
    have "len - sz \<le> int (length (drop (nat sz) buffer))"
      using sz Suc.prems(4) by auto
    then show ?thesis
      unfolding eq using sz Suc.prems(2) by (intro Suc.IH [OF k]) auto
  next
    case False
    then show ?thesis using Suc.prems(1) by (simp add: Let_def)
  qed
qed simp

lemma send_rest_snd_inv:
  assumes "snd_inv kcp" "0 \<le> len" "len \<le> int (length buffer)"
  shows "snd_inv (snd (send_rest mem a kcp buffer len))"
proof (cases "send_count kcp len < 128")
  case True
  then have "nat (if send_count kcp len = 0 then 1 else send_count kcp len) \<le> 128" by auto
  from send_fragments_snd_inv [OF assms(1) this assms(2,3)] True show ?thesis
    by (simp add: send_rest_def sint_u32_cases not_le Let_def)
next
  case False
  with assms(1) show ?thesis by (simp add: send_rest_def sint_u32_cases not_less)
qed

lemma send_extend_snd_inv:
  assumes inv: "snd_inv kcp" and q: "kcp_snd_queue kcp \<noteq> []" "old = last (kcp_snd_queue kcp)"
    and ext: "0 \<le> ext" "int (unat (seg_len old)) + ext \<le> int (unat (kcp_mss kcp))" "ext \<le> int (length buffer)"
  shows "snd_inv (send_extend old kcp buffer ext)"
proof -
  have fits: "\<forall>s\<in>set (kcp_snd_queue kcp). fits (kcp_mss kcp) s"
    using inv unfolding snd_inv_def by blast
  then have old: "fits (kcp_mss kcp) old" using q by simp
  let ?len = "seg_len old + word_of_int ext"
  have "?len = of_nat (unat (seg_len old) + nat ext)" using ext(1) by simp
  moreover have "unat (seg_len old) + nat ext < 4294967296"
    using ext unat_lt_2_32 [of "kcp_mss kcp"] by linarith
  ultimately have len: "unat ?len = unat (seg_len old) + nat ext"
    by (simp only: unat_word_of_nat_32)
  have "fits (kcp_mss kcp)
      (ikcp_segment_new ?len 0 (take (unat (seg_len old)) (seg_data old) @ take (nat ext) buffer))"
  proof -
    have "unat (seg_len old) + nat ext \<le> unat (kcp_mss kcp)" "nat ext \<le> length buffer"
      using ext by linarith+
    then show ?thesis using old by (simp add: fits_def seg_ok_def len)
  qed
  moreover have "kcp_nsnd_que kcp = of_nat (length (butlast (kcp_snd_queue kcp) @ [x]))" for x
    using q(1) inv by (simp add: snd_inv_def)
  ultimately have "snd_inv (kcp\<lparr>kcp_snd_queue := butlast (kcp_snd_queue kcp) @
      [ikcp_segment_new ?len 0 (take (unat (seg_len old)) (seg_data old) @ take (nat ext) buffer)],
      kcp_nsnd_que := kcp_nsnd_que kcp\<rparr>)"
    using fits by (intro snd_inv_queue [OF inv]) (auto dest: in_set_butlastD)
  then show ?thesis by (simp add: send_extend_def Let_def)
qed

lemma send_snd_inv:
  assumes inv: "snd_inv kcp" and len: "len \<le> int (length buffer)"
  shows "snd_inv (snd (ikcp_send mem kcp buffer len))"
proof -
  let ?old = "last (kcp_snd_queue kcp)"
  define cap where "cap = sint (kcp_mss kcp - seg_len ?old)"
  define ext where "ext = (if len < cap then len else cap)"
  have m: "unat (kcp_mss kcp) < 2147483624" using inv unfolding snd_inv_def by blast
  have ext: "0 \<le> ext" "int (unat (seg_len ?old)) + ext \<le> int (unat (kcp_mss kcp))" "ext \<le> len"
    if "seg_len ?old < kcp_mss kcp" "0 \<le> len"
  proof -
    from that(1) have l: "unat (seg_len ?old) < unat (kcp_mss kcp)" by (simp add: word_less_nat_alt)
    then have "unat (kcp_mss kcp - seg_len ?old) = unat (kcp_mss kcp) - unat (seg_len ?old)"
      by (intro unat_sub) (simp add: word_le_nat_alt)
    then have "cap = int (unat (kcp_mss kcp)) - int (unat (seg_len ?old))"
      using m l unfolding cap_def by (simp only: sint_u32_cases) (simp only: split: if_split, linarith)
    moreover have "int (unat (seg_len ?old)) < int (unat (kcp_mss kcp))"
      using l by (simp only: of_nat_less_iff)
    ultimately show "0 \<le> ext" "int (unat (seg_len ?old)) + ext \<le> int (unat (kcp_mss kcp))" "ext \<le> len"
      using that(2) by (atomize (full), auto simp: ext_def)
  qed
  have rest: "snd_inv (snd (send_rest mem 1 (send_extend ?old kcp buffer ext)
        (drop (nat ext) buffer) (len - ext)))"
    if "kcp_snd_queue kcp \<noteq> []" "seg_len ?old < kcp_mss kcp" "0 < len - ext" "0 \<le> len"
    using that ext len by (intro send_rest_snd_inv send_extend_snd_inv inv) auto
  have extend: "snd_inv (send_extend ?old kcp buffer ext)"
    if "kcp_snd_queue kcp \<noteq> []" "seg_len ?old < kcp_mss kcp" "0 \<le> len"
    using that ext len by (intro send_extend_snd_inv inv) auto
  have whole: "snd_inv (snd (send_rest mem 0 kcp buffer len))" if "0 \<le> len"
    using that len by (rule send_rest_snd_inv [OF inv])
  show ?thesis
  proof (cases "len < 0")
    case True
    with inv show ?thesis by (simp add: ikcp_send_def)
  next
    case False
    then have "0 \<le> len" by simp
    then show ?thesis
      unfolding ikcp_send_def Let_def cap_def [symmetric] ext_def [symmetric]
      using inv whole rest extend by (simp split: if_split)
  qed
qed

text \<open>
  Send keeps the invariant: in both modes, whatever allocations fail and whatever the
  return code, \<open>ikcp_send\<close> leaves segments of at most \<open>mss\<close> bytes and exact counters.
\<close>

theorem ikcp_send_snd_inv:
  assumes inv: "snd_inv kcp" and len: "len \<le> int (length buffer)"
  shows "snd_inv (snd (ikcp_send mem kcp buffer len))"
  using assms by (rule send_snd_inv)

end
