(* ===== verification/Kcp_Flush.thy ===== *)
theory Kcp_Flush
  imports Kcp_Send
begin

text \<open>
  \<open>ikcp_flush\<close>: which segments enter the send buffer, which segments are transmitted, and how
  they are packed into datagrams.
\<close>

section \<open>From the send queue to the send buffer\<close>

definition flush_stamps :: "u32 \<Rightarrow> ikcpcb \<Rightarrow> nat \<Rightarrow> IKCPSEG list" where
  "flush_stamps wnd kcp k =
     map (\<lambda>i. flush_stamp wnd (kcp\<lparr>kcp_snd_nxt := kcp_snd_nxt kcp + of_nat i\<rparr>) (kcp_snd_queue kcp ! i)) [0..<k]"

definition in_flight :: "ikcpcb \<Rightarrow> nat" where
  "in_flight kcp = unat (kcp_snd_nxt kcp - kcp_snd_una kcp)"

definition flush_moved :: "u32 \<Rightarrow> ikcpcb \<Rightarrow> nat \<Rightarrow> ikcpcb" where
  "flush_moved wnd kcp k = kcp
     \<lparr>kcp_snd_queue := drop k (kcp_snd_queue kcp),
      kcp_snd_buf := kcp_snd_buf kcp @ flush_stamps wnd kcp k,
      kcp_nsnd_que := kcp_nsnd_que kcp - of_nat k, kcp_nsnd_buf := kcp_nsnd_buf kcp + of_nat k,
      kcp_snd_nxt := kcp_snd_nxt kcp + of_nat k\<rparr>"

lemma window_test:
  assumes "in_flight kcp < 2147483648" "unat cwnd < 2147483648"
  shows "itimediff (kcp_snd_nxt kcp) (kcp_snd_una kcp + cwnd) < 0 \<longleftrightarrow> in_flight kcp < unat cwnd"
proof -
  have "itimediff (kcp_snd_nxt kcp) (kcp_snd_una kcp + cwnd)
      = sint ((kcp_snd_nxt kcp - kcp_snd_una kcp) - cwnd)"
    by (simp add: itimediff_def algebra_simps)
  also have "\<dots> = int (in_flight kcp) - int (unat cwnd)"
    using assms unfolding in_flight_def by (rule sint_diff_u32)
  finally show ?thesis by linarith
qed

lemma flush_stamps_Suc:
  assumes "kcp_snd_queue kcp = s # rest"
  shows "flush_stamps wnd kcp (Suc k) = flush_stamp wnd kcp s #
    flush_stamps wnd (kcp\<lparr>kcp_snd_queue := rest, kcp_snd_buf := b, kcp_nsnd_que := q, kcp_nsnd_buf := n,
      kcp_snd_nxt := kcp_snd_nxt kcp + 1\<rparr>) k"
  unfolding flush_stamps_def upt_conv_Cons [OF zero_less_Suc] map_Suc_upt [symmetric]
  by (simp add: assms flush_stamp_def add.assoc)

lemma flush_move_spec:
  assumes "in_flight kcp < 2147483648" "unat cwnd < 2147483648"
  shows "\<exists>k\<le>length (kcp_snd_queue kcp). flush_move cwnd wnd kcp = flush_moved wnd kcp k
    \<and> (0 < k \<longrightarrow> in_flight kcp + k \<le> unat cwnd)
    \<and> (k < length (kcp_snd_queue kcp) \<longrightarrow> unat cwnd \<le> in_flight kcp + k)"
  using assms
proof (induction cwnd wnd kcp rule: flush_move.induct)
  case (1 cwnd wnd kcp)
  note test = window_test [OF "1.prems"]
  show ?case
  proof (cases "in_flight kcp < unat cwnd \<and> kcp_snd_queue kcp \<noteq> []")
    case False
    have "flush_move cwnd wnd kcp = kcp"
      using False by (subst flush_move.simps) (auto simp: test)
    also have "kcp = flush_moved wnd kcp 0" by (simp add: flush_moved_def flush_stamps_def)
    finally show ?thesis using False by (intro exI [of _ 0]) auto
  next
    case True
    then obtain s rest where q: "kcp_snd_queue kcp = s # rest" by (cases "kcp_snd_queue kcp") auto
    let ?k = "kcp\<lparr>kcp_snd_queue := rest, kcp_snd_buf := kcp_snd_buf kcp @ [flush_stamp wnd kcp s],
               kcp_nsnd_que := kcp_nsnd_que kcp - 1, kcp_nsnd_buf := kcp_nsnd_buf kcp + 1,
               kcp_snd_nxt := kcp_snd_nxt kcp + 1\<rparr>"
    have step: "flush_move cwnd wnd kcp = flush_move cwnd wnd ?k"
      using True by (subst flush_move.simps) (simp add: test q)
    have fl: "in_flight ?k = Suc (in_flight kcp)"
    proof -
      have nxt: "kcp_snd_nxt ?k - kcp_snd_una ?k = (kcp_snd_nxt kcp - kcp_snd_una kcp) + 1" by simp
      have "unat ((kcp_snd_nxt kcp - kcp_snd_una kcp) + 1)
          = unat (kcp_snd_nxt kcp - kcp_snd_una kcp) + 1"
        using "1.prems"(1) by (intro unat_plus_1) (simp add: in_flight_def)
      then show ?thesis unfolding in_flight_def nxt by simp
    qed
    from True fl "1.prems" have "in_flight ?k < 2147483648" by linarith
    with "1.IH" [OF _ q] True test "1.prems"(2) obtain k where k: "k \<le> length rest"
      and eq: "flush_move cwnd wnd ?k = flush_moved wnd ?k k"
      and win: "0 < k \<longrightarrow> in_flight ?k + k \<le> unat cwnd"
        "k < length rest \<longrightarrow> unat cwnd \<le> in_flight ?k + k"
      by auto
    have "flush_moved wnd ?k k = flush_moved wnd kcp (Suc k)"
      unfolding flush_moved_def
        flush_stamps_Suc [OF q, where b = "kcp_snd_buf ?k" and q = "kcp_nsnd_que ?k" and n = "kcp_nsnd_buf ?k"]
      by (simp add: q algebra_simps)
    with k eq step win fl True q show ?thesis
      by (intro exI [of _ "Suc k"]) auto
  qed
qed

lemma flush_stamp_in:
  "fits mss s \<Longrightarrow> kcp_conv kcp = conv \<Longrightarrow> in_snd_buf conv mss (flush_stamp wnd kcp s)"
  by (simp add: flush_stamp_def in_snd_buf_def fits_def seg_ok_def)

lemma flush_stamps_props:
  assumes "k \<le> length (kcp_snd_queue kcp)"
  shows "length (flush_stamps wnd kcp k) = k"
    and "i < k \<Longrightarrow> seg_sn (flush_stamps wnd kcp k ! i) = kcp_snd_nxt kcp + of_nat i"
    and "map seg_payload (flush_stamps wnd kcp k) = map seg_payload (take k (kcp_snd_queue kcp))"
proof -
  show "length (flush_stamps wnd kcp k) = k" by (simp add: flush_stamps_def)
  show "i < k \<Longrightarrow> seg_sn (flush_stamps wnd kcp k ! i) = kcp_snd_nxt kcp + of_nat i"
    by (simp add: flush_stamps_def flush_stamp_def)
  show "map seg_payload (flush_stamps wnd kcp k) = map seg_payload (take k (kcp_snd_queue kcp))"
    using assms by (intro nth_equalityI) (simp_all add: flush_stamps_def flush_stamp_def seg_payload_def)
qed

lemma flush_moved_snd_inv:
  assumes inv: "snd_inv kcp" and k: "k \<le> length (kcp_snd_queue kcp)"
    and win: "0 < k \<longrightarrow> in_flight kcp + k < 65536"
  shows "snd_inv (flush_moved wnd kcp k)"
proof (cases "k = 0")
  case True
  then show ?thesis using inv by (simp add: flush_moved_def flush_stamps_def)
next
  case False
  let ?una = "kcp_snd_una kcp" and ?nxt = "kcp_snd_nxt kcp" and ?buf = "kcp_snd_buf kcp"
  let ?new = "flush_stamps wnd kcp k"
  have core: "snd_core ?una ?nxt ?buf"
    and link: "?una = (case ?buf of [] \<Rightarrow> ?nxt | s # _ \<Rightarrow> seg_sn s)"
    and fits: "\<forall>s\<in>set (kcp_snd_queue kcp). fits (kcp_mss kcp) s"
    and old: "\<forall>s\<in>set ?buf. in_snd_buf (kcp_conv kcp) (kcp_mss kcp) s"
    using inv unfolding snd_inv_def by blast+
  have off: "unat (?nxt + of_nat i - ?una) = in_flight kcp + i" if "i \<le> k" for i
  proof -
    have "?nxt + of_nat i - ?una = of_nat (in_flight kcp + i)"
      by (simp add: in_flight_def)
    moreover have "in_flight kcp + i < 4294967296" using win False that by linarith
    ultimately show ?thesis by (simp only: unat_word_of_nat_32)
  qed
  have sn: "map (snd_off ?una) ?new = map (\<lambda>i. in_flight kcp + i) [0..<k]"
    using flush_stamps_props(1,2) [OF k] off
    by (intro nth_equalityI) (simp_all add: snd_off_def)
  have nxt: "unat (?nxt + of_nat k - ?una) = in_flight kcp + k" by (rule off) simp
  have new_off: "\<forall>s\<in>set ?new. in_flight kcp \<le> snd_off ?una s \<and> snd_off ?una s < in_flight kcp + k"
  proof
    fix s assume "s \<in> set ?new"
    then have "snd_off ?una s \<in> set (map (snd_off ?una) ?new)" by simp
    then show "in_flight kcp \<le> snd_off ?una s \<and> snd_off ?una s < in_flight kcp + k"
      unfolding sn by auto
  qed
  have "sorted_wrt (<) (map (snd_off ?una) ?new)"
    unfolding sn by (simp add: sorted_wrt_map)
  with core new_off have "sorted_wrt (<) (map (snd_off ?una) (?buf @ ?new))"
    by (fastforce simp: snd_core_def sorted_wrt_append in_flight_def [symmetric])
  then have core': "snd_core ?una (?nxt + of_nat k) (?buf @ ?new)"
    using core new_off win False unfolding snd_core_def nxt
    by (auto simp: in_flight_def [symmetric])
  have in_new: "\<forall>s\<in>set ?new. in_snd_buf (kcp_conv kcp) (kcp_mss kcp) s"
    using fits k by (auto simp: flush_stamps_def intro!: flush_stamp_in)
  have link': "?una = (case ?buf @ ?new of [] \<Rightarrow> ?nxt + of_nat k | s # _ \<Rightarrow> seg_sn s)"
  proof (cases ?buf)
    case Nil
    obtain s rest where new: "?new = s # rest"
      using flush_stamps_props(1) [OF k, of wnd] False by (cases ?new) auto
    have "seg_sn s = ?nxt" using flush_stamps_props(2) [OF k, where i = 0 and wnd = wnd] False new by simp
    with link Nil new show ?thesis by simp
  qed (use link in simp)
  have que: "kcp_nsnd_que kcp - of_nat k = of_nat (length (drop k (kcp_snd_queue kcp)))"
    using inv k by (simp add: snd_inv_def of_nat_diff)
  have buf: "kcp_nsnd_buf kcp + of_nat k = of_nat (length (?buf @ ?new))"
    using inv flush_stamps_props(1) [OF k] by (simp add: snd_inv_def)
  have "snd_inv0 (flush_moved wnd kcp k)"
    using snd_inv_imp0 [OF inv] que buf core' old in_new fits
    by (auto simp: flush_moved_def snd_inv0_def dest: in_set_dropD)
  with link' show ?thesis
    unfolding snd_inv_iff by (simp add: flush_moved_def cong: list.case_cong)
qed

lemma flush_window_small:
  assumes "snd_inv kcp"
  shows "unat (flush_window kcp) < 65536"
proof -
  have "unat (kcp_rmt_wnd kcp) < 65536" using assms unfolding snd_inv_def by blast
  then show ?thesis
    by (auto simp: flush_window_def imin_def Let_def word_le_nat_alt)
qed

lemma flush_move_window:
  assumes inv: "snd_inv kcp"
  shows "\<exists>k\<le>length (kcp_snd_queue kcp).
      flush_move (flush_window kcp) wnd kcp = flush_moved wnd kcp k
    \<and> snd_inv (flush_moved wnd kcp k)
    \<and> in_flight (flush_moved wnd kcp k) = in_flight kcp + k
    \<and> in_flight kcp + k \<le> max (in_flight kcp) (unat (flush_window kcp))
    \<and> (k = length (kcp_snd_queue kcp) \<or> unat (flush_window kcp) \<le> in_flight kcp + k)"
proof -
  have core: "snd_core (kcp_snd_una kcp) (kcp_snd_nxt kcp) (kcp_snd_buf kcp)"
    using inv unfolding snd_inv_def by blast
  then have fl: "in_flight kcp < 65536" by (simp add: snd_core_def in_flight_def)
  note w = flush_window_small [OF inv]
  from fl w have "in_flight kcp < 2147483648" "unat (flush_window kcp) < 2147483648" by linarith+
  from flush_move_spec [OF this] obtain k where k: "k \<le> length (kcp_snd_queue kcp)"
    and eq: "flush_move (flush_window kcp) wnd kcp = flush_moved wnd kcp k"
    and win: "0 < k \<longrightarrow> in_flight kcp + k \<le> unat (flush_window kcp)"
      "k < length (kcp_snd_queue kcp) \<longrightarrow> unat (flush_window kcp) \<le> in_flight kcp + k"
    by blast
  have "in_flight (flush_moved wnd kcp k) = in_flight kcp + k"
  proof -
    have "in_flight kcp + k < 4294967296" using win fl w by linarith
    moreover have "kcp_snd_nxt (flush_moved wnd kcp k) - kcp_snd_una (flush_moved wnd kcp k)
        = of_nat (in_flight kcp + k)"
      by (simp add: in_flight_def flush_moved_def)
    ultimately show ?thesis
      by (simp only: in_flight_def [of "flush_moved wnd kcp k"] unat_word_of_nat_32)
  qed
  moreover have "snd_inv (flush_moved wnd kcp k)"
    using win w by (intro flush_moved_snd_inv [OF inv k]) linarith
  ultimately show ?thesis using k eq win by (intro exI [of _ k]) auto
qed

text \<open>
  The sliding window: the move takes the longest prefix of the send queue the window admits,
  numbers it consecutively from \<open>snd_nxt\<close>, and keeps the invariant of the send side.
\<close>

theorem kcp_flush_move_window:
  assumes inv: "snd_inv kcp"
  shows "\<exists>k\<le>length (kcp_snd_queue kcp).
      flush_move (flush_window kcp) wnd kcp = flush_moved wnd kcp k
    \<and> snd_inv (flush_moved wnd kcp k)
    \<and> in_flight (flush_moved wnd kcp k) = in_flight kcp + k
    \<and> in_flight kcp + k \<le> max (in_flight kcp) (unat (flush_window kcp))
    \<and> (k = length (kcp_snd_queue kcp) \<or> unat (flush_window kcp) \<le> in_flight kcp + k)"
  using inv by (rule flush_move_window)

section \<open>Packing\<close>

text \<open>One segment goes out: flush the buffer first when it does not fit, then append it.\<close>

definition emit :: "u32 \<Rightarrow> IKCPSEG \<Rightarrow> bytes \<times> bytes list \<Rightarrow> bytes \<times> bytes list" where
  "emit mtu s b =
     (let (ptr, out) = (if length (fst b) + length (wire s) > unat mtu
                        then ([], ikcp_output (fst b) (snd b)) else b)
      in (ptr @ wire s, out))"

definition datagram :: "IKCPSEG list \<Rightarrow> bytes" where
  "datagram segs = concat (map wire segs)"

text \<open>\<open>packed mtu b segs\<close>: buffer and output hold exactly \<open>segs\<close>, in order, in datagrams of at most \<open>mtu\<close> bytes.\<close>

definition packed :: "u32 \<Rightarrow> bytes \<times> bytes list \<Rightarrow> IKCPSEG list \<Rightarrow> bool" where
  "packed mtu b segs \<longleftrightarrow>
     (\<exists>parts rest. snd b = map datagram parts \<and> fst b = datagram rest \<and> concat parts @ rest = segs \<and>
        [] \<notin> set parts \<and> (\<forall>p\<in>set parts. length (datagram p) \<le> unat mtu) \<and>
        length (datagram rest) \<le> unat mtu)"

lemma datagram_append [simp]: "datagram (a @ b) = datagram a @ datagram b"
  by (simp add: datagram_def)

lemma datagram_single [simp]: "datagram [s] = wire s"
  by (simp add: datagram_def)

lemma wire_nonempty [simp]: "wire s \<noteq> []"
  using length_encode_seg [of "[]" s] by (fastforce simp: wire_def simp del: length_encode_seg)

lemma datagram_empty [simp]: "datagram segs = [] \<longleftrightarrow> segs = []"
  by (cases segs) (simp_all add: datagram_def)

lemma packed_start: "packed mtu ([], []) []"
  unfolding packed_def by (intro exI [of _ "[]"]) (simp add: datagram_def)

lemma packed_emit:
  assumes "packed mtu b segs" "length (wire s) \<le> unat mtu"
  shows "packed mtu (emit mtu s b) (segs @ [s])"
proof -
  from assms(1) obtain parts rest where p: "snd b = map datagram parts" "fst b = datagram rest"
    "concat parts @ rest = segs" "[] \<notin> set parts" "\<forall>p\<in>set parts. length (datagram p) \<le> unat mtu"
    "length (datagram rest) \<le> unat mtu"
    by (auto simp: packed_def)
  show ?thesis
  proof (cases "length (fst b) + length (wire s) > unat mtu")
    case False
    then show ?thesis
      unfolding packed_def
      by (intro exI [of _ parts] exI [of _ "rest @ [s]"])
        (use p in \<open>auto simp: emit_def split: prod.split\<close>)
  next
    case True
    with assms(2) have "rest \<noteq> []" using p(2) by (auto simp: datagram_def)
    with True p assms(2) show ?thesis
      unfolding packed_def
      by (intro exI [of _ "parts @ [rest]"] exI [of _ "[s]"])
        (auto simp: emit_def ikcp_output_def)
  qed
qed

lemma packed_fold:
  "packed mtu b segs \<Longrightarrow> \<forall>s\<in>set ss. length (wire s) \<le> unat mtu \<Longrightarrow>
   packed mtu (fold (emit mtu) ss b) (segs @ ss)"
proof (induction ss arbitrary: b segs)
  case (Cons s ss)
  then show ?case using Cons.IH [OF packed_emit [of mtu b segs s]] by simp
qed simp

text \<open>Handing over the rest of the buffer ends the packing.\<close>

lemma packed_output:
  assumes "packed mtu (ptr, out) segs"
  shows "\<exists>parts. ikcp_output ptr out = map datagram parts \<and> concat parts = segs \<and> [] \<notin> set parts
    \<and> (\<forall>p\<in>set parts. length (datagram p) \<le> unat mtu)"
proof -
  from assms obtain parts rest where p: "out = map datagram parts" "ptr = datagram rest"
    "concat parts @ rest = segs" "[] \<notin> set parts" "\<forall>p\<in>set parts. length (datagram p) \<le> unat mtu"
    "length (datagram rest) \<le> unat mtu"
    by (auto simp: packed_def)
  show ?thesis
  proof (cases "rest = []")
    case True
    with p show ?thesis by (intro exI [of _ parts]) (auto simp: ikcp_output_def)
  next
    case False
    with p show ?thesis by (intro exI [of _ "parts @ [rest]"]) (auto simp: ikcp_output_def)
  qed
qed

section \<open>What is transmitted\<close>

definition mtu_ok :: "ikcpcb \<Rightarrow> bool" where
  "mtu_ok kcp \<longleftrightarrow> 24 \<le> unat (kcp_mtu kcp) \<and> unat (kcp_mtu kcp) < 2147483648"

lemma flush_room_emit:
  assumes "mtu_ok kcp" "need = int (length (wire s))"
    and "\<And>ptr. f ptr = ptr @ wire s"
  shows "(let (ptr, out) = flush_room kcp need b in (f ptr, out)) = emit (kcp_mtu kcp) s b"
proof -
  have "sint (kcp_mtu kcp) = int (unat (kcp_mtu kcp))"
    using assms(1) unfolding mtu_ok_def by (simp only: sint_u32_cases if_True)
  then have cmp: "int (length p) + need > sint (kcp_mtu kcp) \<longleftrightarrow> length p + length (wire s) > unat (kcp_mtu kcp)"
    for p :: bytes
    unfolding assms(2) by linarith
  show ?thesis
    unfolding flush_room_def emit_def Let_def cmp assms(3) by (simp add: split_def)
qed

lemma encode_bare: "seg_data s = [] \<Longrightarrow> ikcp_encode_seg ptr s = ptr @ wire s"
  by (simp add: wire_def ikcp_encode_seg_append [of ptr])

lemma encode_whole: "seg_ok s \<Longrightarrow> ikcp_encode_seg ptr s @ take (unat (seg_len s)) (seg_data s) = ptr @ wire s"
  by (simp add: wire_def ikcp_encode_seg_append [of ptr] seg_ok_def)

lemma length_wire_bare: "seg_data s = [] \<Longrightarrow> length (wire s) = 24"
  by (simp add: wire_def)

lemma flush_hdr_emit:
  "mtu_ok kcp \<Longrightarrow> seg_data s = [] \<Longrightarrow> flush_hdr kcp s b = emit (kcp_mtu kcp) s b"
  unfolding flush_hdr_def by (rule flush_room_emit) (simp_all add: encode_bare length_wire_bare)

text \<open>The acknowledgements, and the window probes.\<close>

definition ack_segs :: "ikcpcb \<Rightarrow> IKCPSEG \<Rightarrow> nat list \<Rightarrow> IKCPSEG list" where
  "ack_segs kcp seg is = map (\<lambda>i. seg\<lparr>seg_sn := fst (ikcp_ack_get kcp i), seg_ts := snd (ikcp_ack_get kcp i)\<rparr>) is"

lemma flush_acks_emit:
  assumes "mtu_ok kcp" "seg_data seg = []"
  shows "\<exists>sn ts. flush_acks kcp is seg b =
     (seg\<lparr>seg_sn := sn, seg_ts := ts\<rparr>, fold (emit (kcp_mtu kcp)) (ack_segs kcp seg is) b)"
  using assms(2)
proof (induction "is" arbitrary: seg b)
  case Nil
  show ?case by (intro exI [of _ "seg_sn seg"] exI [of _ "seg_ts seg"]) (simp add: ack_segs_def)
next
  case (Cons i "is")
  obtain sn ts where g: "ikcp_ack_get kcp i = (sn, ts)" by fastforce
  let ?s = "seg\<lparr>seg_sn := sn, seg_ts := ts\<rparr>"
  have "(let (ptr, out) = flush_room kcp (sint IKCP_OVERHEAD) b in (ikcp_encode_seg ptr ?s, out))
      = emit (kcp_mtu kcp) ?s b"
    using Cons.prems by (intro flush_room_emit assms(1)) (simp_all add: encode_bare length_wire_bare)
  then have step: "flush_acks kcp (i # is) seg b = flush_acks kcp is ?s (emit (kcp_mtu kcp) ?s b)"
    by (simp add: g split_def Let_def)
  have "seg_data ?s = []" using Cons.prems by simp
  from Cons.IH [OF this, of "emit (kcp_mtu kcp) ?s b"] obtain sn' ts' where "flush_acks kcp is ?s (emit (kcp_mtu kcp) ?s b) =
     (?s\<lparr>seg_sn := sn', seg_ts := ts'\<rparr>,
      fold (emit (kcp_mtu kcp)) (ack_segs kcp ?s is) (emit (kcp_mtu kcp) ?s b))"
    by auto
  moreover have "ack_segs kcp ?s is = ack_segs kcp seg is"
    by (simp add: ack_segs_def)
  ultimately show ?case unfolding step
    by (intro exI [of _ sn'] exI [of _ ts']) (simp add: ack_segs_def g)
qed

definition probe_segs :: "u32 \<Rightarrow> IKCPSEG \<Rightarrow> IKCPSEG list" where
  "probe_segs probe seg =
     (if probe AND IKCP_ASK_SEND \<noteq> 0 then [seg\<lparr>seg_cmd := IKCP_CMD_WASK\<rparr>] else []) @
     (if probe AND IKCP_ASK_TELL \<noteq> 0 then [seg\<lparr>seg_cmd := IKCP_CMD_WINS\<rparr>] else [])"

lemma flush_probes_emit:
  assumes "mtu_ok kcp" "seg_data seg = []"
  shows "\<exists>c. flush_probes kcp seg b =
     (seg\<lparr>seg_cmd := c\<rparr>, fold (emit (kcp_mtu kcp)) (probe_segs (kcp_probe kcp) seg) b)"
  by (intro exI [of _ "if kcp_probe kcp AND IKCP_ASK_TELL \<noteq> 0 then IKCP_CMD_WINS
      else if kcp_probe kcp AND IKCP_ASK_SEND \<noteq> 0 then IKCP_CMD_WASK else seg_cmd seg"])
    (use assms in \<open>simp add: flush_probes_def probe_segs_def Let_def flush_hdr_emit\<close>)

text \<open>
  The data segments: which are due, and what each looks like when it leaves.  The counters the
  loop changes in the block (\<open>xmit\<close>, \<open>state\<close>) do not influence this.
\<close>

definition flush_due :: "ikcpcb \<Rightarrow> u32 \<Rightarrow> IKCPSEG \<Rightarrow> bool" where
  "flush_due kcp resent seg \<longleftrightarrow>
     seg_xmit seg = 0 \<or> itimediff (kcp_current kcp) (seg_resendts seg) \<ge> 0 \<or>
     (seg_fastack seg \<ge> resent \<and> (sint (seg_xmit seg) \<le> kcp_fastlimit kcp \<or> kcp_fastlimit kcp \<le> 0))"

definition flush_sent :: "ikcpcb \<Rightarrow> u32 \<Rightarrow> u32 \<Rightarrow> u32 \<Rightarrow> IKCPSEG \<Rightarrow> IKCPSEG" where
  "flush_sent kcp wnd resent rtomin seg =
     (let (_, seg, _) = flush_decide resent rtomin seg
            \<lparr>fl_kcp = kcp, fl_buf = ([], []), fl_change = 0, fl_lost = False\<rparr>
      in seg\<lparr>seg_ts := kcp_current kcp, seg_wnd := wnd, seg_una := kcp_rcv_nxt kcp\<rparr>)"

definition flush_same :: "ikcpcb \<Rightarrow> ikcpcb \<Rightarrow> bool" where
  "flush_same kcp k \<longleftrightarrow> (\<exists>x s. k = kcp\<lparr>kcp_xmit := x, kcp_state := s\<rparr>)"

lemma flush_same_refl: "flush_same kcp kcp"
proof -
  have "kcp = kcp\<lparr>kcp_xmit := kcp_xmit kcp, kcp_state := kcp_state kcp\<rparr>" by simp
  then show ?thesis unfolding flush_same_def by blast
qed

lemma flush_same_upd:
  assumes "flush_same kcp k"
  shows "flush_same kcp (k\<lparr>kcp_xmit := x\<rparr>)" "flush_same kcp (k\<lparr>kcp_state := s\<rparr>)"
proof -
  from assms obtain y t where k: "k = kcp\<lparr>kcp_xmit := y, kcp_state := t\<rparr>"
    by (auto simp: flush_same_def)
  have "k\<lparr>kcp_xmit := x\<rparr> = kcp\<lparr>kcp_xmit := x, kcp_state := t\<rparr>"
    "k\<lparr>kcp_state := s\<rparr> = kcp\<lparr>kcp_xmit := y, kcp_state := s\<rparr>"
    by (simp_all add: k)
  then show "flush_same kcp (k\<lparr>kcp_xmit := x\<rparr>)" "flush_same kcp (k\<lparr>kcp_state := s\<rparr>)"
    unfolding flush_same_def by blast+
qed

text \<open>What a transmission cannot change.\<close>

definition same_segment :: "IKCPSEG \<Rightarrow> IKCPSEG \<Rightarrow> bool" where
  "same_segment s t \<longleftrightarrow> seg_conv t = seg_conv s \<and> seg_cmd t = seg_cmd s \<and> seg_frg t = seg_frg s \<and>
     seg_sn t = seg_sn s \<and> seg_len t = seg_len s \<and> seg_data t = seg_data s"

lemma flush_decide_same:
  assumes "flush_same kcp (fl_kcp st)" "flush_decide resent rtomin seg st = (due, seg', st')"
  shows "flush_same kcp (fl_kcp st')" "fl_buf st' = fl_buf st" "same_segment seg seg'"
  using assms flush_same_upd [OF assms(1)]
  by (auto simp: flush_decide_def same_segment_def Let_def split: if_splits)

lemma flush_decide_spec:
  assumes "flush_same kcp (fl_kcp st)" "flush_decide resent rtomin seg st = (due, seg', st')"
  shows "due \<longleftrightarrow> flush_due kcp resent seg"
    and "seg'\<lparr>seg_ts := kcp_current kcp, seg_wnd := wnd, seg_una := kcp_rcv_nxt kcp\<rparr>
      = flush_sent kcp wnd resent rtomin seg"
    and "\<not> due \<Longrightarrow> seg' = seg"
  using assms
  by (auto simp: flush_same_def flush_decide_def flush_due_def flush_sent_def Let_def split: if_splits)

lemma flush_sent_same: "same_segment seg (flush_sent kcp wnd resent rtomin seg)"
proof -
  let ?st = "\<lparr>fl_kcp = kcp, fl_buf = ([], []), fl_change = 0, fl_lost = False\<rparr>"
  obtain due seg' st' where d: "flush_decide resent rtomin seg ?st = (due, seg', st')"
    by (metis prod_cases3)
  from flush_decide_same(3) [OF _ d, of kcp] show ?thesis
    by (simp add: flush_sent_def d same_segment_def flush_same_refl)
qed

text \<open>One pass over the send buffer: what is sent, and what stays.\<close>

definition flush_kept :: "ikcpcb \<Rightarrow> u32 \<Rightarrow> u32 \<Rightarrow> u32 \<Rightarrow> IKCPSEG \<Rightarrow> IKCPSEG" where
  "flush_kept kcp wnd resent rtomin seg =
     (if flush_due kcp resent seg then flush_sent kcp wnd resent rtomin seg else seg)"

definition data_segs :: "ikcpcb \<Rightarrow> u32 \<Rightarrow> u32 \<Rightarrow> u32 \<Rightarrow> IKCPSEG list \<Rightarrow> IKCPSEG list" where
  "data_segs kcp wnd resent rtomin segs =
     map (flush_sent kcp wnd resent rtomin) (filter (flush_due kcp resent) segs)"

lemma flush_segment_spec:
  assumes same: "flush_same kcp (fl_kcp st)" and mtu: "mtu_ok kcp" and ok: "seg_ok seg"
    and len: "unat (seg_len seg) < 2147483624"
    and r: "flush_segment wnd resent rtomin seg st = (seg', st')"
  shows "seg' = flush_kept kcp wnd resent rtomin seg"
    and "fl_buf st' = fold (emit (kcp_mtu kcp)) (data_segs kcp wnd resent rtomin [seg]) (fl_buf st)"
    and "flush_same kcp (fl_kcp st')"
proof -
  obtain due seg1 st1 where d: "flush_decide resent rtomin seg st = (due, seg1, st1)"
    by (metis prod_cases3)
  note spec = flush_decide_spec [OF same d] and keep = flush_decide_same [OF same d]
  from keep(1) obtain x t where k: "fl_kcp st1 = kcp\<lparr>kcp_xmit := x, kcp_state := t\<rparr>"
    by (auto simp: flush_same_def)
  have "seg' = flush_kept kcp wnd resent rtomin seg
    \<and> fl_buf st' = fold (emit (kcp_mtu kcp)) (data_segs kcp wnd resent rtomin [seg]) (fl_buf st)
    \<and> flush_same kcp (fl_kcp st')"
  proof (cases due)
    case False
    then show ?thesis
      using r spec(1,3) keep(1,2) by (simp add: flush_segment_def d flush_kept_def data_segs_def)
  next
    case True
    let ?s = "flush_sent kcp wnd resent rtomin seg"
    have s: "seg1\<lparr>seg_ts := kcp_current (fl_kcp st1), seg_wnd := wnd, seg_una := kcp_rcv_nxt (fl_kcp st1)\<rparr> = ?s"
      using spec(2) [of wnd] by (simp add: k)
    have s1: "seg_len seg1 = seg_len ?s" "seg_data seg1 = seg_data ?s"
      using arg_cong [OF s, of seg_len] arg_cong [OF s, of seg_data] by simp_all
    have same_s: "seg_ok ?s" "seg_len ?s = seg_len seg"
      using flush_sent_same [of seg kcp wnd resent rtomin] ok by (simp_all add: same_segment_def seg_ok_def)
    have mtu1: "mtu_ok (fl_kcp st1)" "kcp_mtu (fl_kcp st1) = kcp_mtu kcp"
      using mtu by (simp_all add: k mtu_ok_def)
    have need: "sint (IKCP_OVERHEAD + seg_len ?s) = int (length (wire ?s))"
    proof -
      have "unat (IKCP_OVERHEAD + seg_len ?s) = 24 + unat (seg_len ?s)"
        using len same_s(2) by (simp add: unat_word_ariths)
      moreover from this have "unat (IKCP_OVERHEAD + seg_len ?s) < 2147483648"
        using len same_s(2) by simp
      ultimately show ?thesis
        using same_s(1) by (simp only: sint_u32_cases if_True length_wire)
    qed
    have "(let (ptr, out) = flush_room (fl_kcp st1) (sint (IKCP_OVERHEAD + seg_len ?s)) (fl_buf st1)
         in (ikcp_encode_seg ptr ?s @ take (unat (seg_len ?s)) (seg_data ?s), out))
       = emit (kcp_mtu kcp) ?s (fl_buf st1)"
      unfolding mtu1(2) [symmetric]
      by (rule flush_room_emit [OF mtu1(1) need]) (rule encode_whole [OF same_s(1)])
    then have "seg' = ?s" "fl_buf st' = emit (kcp_mtu kcp) ?s (fl_buf st)"
      "fl_kcp st' = fl_kcp st1 \<or> fl_kcp st' = (fl_kcp st1)\<lparr>kcp_state := -1\<rparr>"
      using r True keep(2)
      by (auto simp: flush_segment_def d flush_emit_def Let_def s s1 split_def)
    then show ?thesis
      using True spec(1) keep(1) flush_same_upd(2) [OF keep(1), of "-1"]
      by (auto simp: flush_kept_def data_segs_def)
  qed
  then show "seg' = flush_kept kcp wnd resent rtomin seg"
    and "fl_buf st' = fold (emit (kcp_mtu kcp)) (data_segs kcp wnd resent rtomin [seg]) (fl_buf st)"
    and "flush_same kcp (fl_kcp st')"
    by blast+
qed

lemma flush_data_spec:
  assumes "flush_same kcp (fl_kcp st)" "mtu_ok kcp"
    and "\<forall>s\<in>set segs. seg_ok s \<and> unat (seg_len s) < 2147483624"
    and "flush_data wnd resent rtomin segs st = (segs', st')"
  shows "segs' = map (flush_kept kcp wnd resent rtomin) segs
    \<and> fl_buf st' = fold (emit (kcp_mtu kcp)) (data_segs kcp wnd resent rtomin segs) (fl_buf st)
    \<and> flush_same kcp (fl_kcp st')"
  using assms
proof (induction segs arbitrary: st segs')
  case Nil
  then show ?case by (simp add: data_segs_def)
next
  case (Cons seg segs)
  obtain seg1 st1 where 1: "flush_segment wnd resent rtomin seg st = (seg1, st1)" by fastforce
  obtain segs2 st2 where 2: "flush_data wnd resent rtomin segs st1 = (segs2, st2)" by fastforce
  have res: "segs' = seg1 # segs2" "st' = st2"
    using Cons.prems(4) 1 2 by simp_all
  note s = flush_segment_spec [OF Cons.prems(1,2) _ _ 1]
  have ok: "seg_ok seg" "unat (seg_len seg) < 2147483624" using Cons.prems(3) by simp_all
  have "\<forall>s\<in>set segs. seg_ok s \<and> unat (seg_len s) < 2147483624" using Cons.prems(3) by simp
  from Cons.IH [OF s(3) [OF ok] Cons.prems(2) this 2 [folded res(2)]]
  show ?case
    using s(1,2) [OF ok] res by (auto simp: data_segs_def)
qed

section \<open>The whole flush\<close>

lemma flush_probe_frame [kcp_frame]:
  "rcv_same kcp (flush_probe kcp)" "snd_same kcp (flush_probe kcp)" "ack_same kcp (flush_probe kcp)"
  "cfg_same kcp (flush_probe kcp)" "kcp_rmt_wnd (flush_probe kcp) = kcp_rmt_wnd kcp"
  by (simp_all add: same_defs flush_probe_def Let_def)

lemma flush_cwnd_frame [kcp_frame]:
  "rcv_same kcp (flush_cwnd c r ch l kcp)" "snd_same kcp (flush_cwnd c r ch l kcp)"
  "ack_same kcp (flush_cwnd c r ch l kcp)" "cfg_same kcp (flush_cwnd c r ch l kcp)"
  "kcp_rmt_wnd (flush_cwnd c r ch l kcp) = kcp_rmt_wnd kcp"
  by (simp_all add: same_defs flush_cwnd_def Let_def)

definition flush_resent :: "ikcpcb \<Rightarrow> u32" where
  "flush_resent kcp = (if kcp_fastresend kcp > 0 then word_of_int (kcp_fastresend kcp) else 0xffffffff)"

definition flush_rtomin :: "ikcpcb \<Rightarrow> u32" where
  "flush_rtomin kcp = (if kcp_nodelay kcp = 0 then signed_drop_bit 3 (kcp_rx_rto kcp) else 0)"

text \<open>The block between the probing and the data loop, and what the loop leaves in the send buffer.\<close>

definition flush_ready :: "ikcpcb \<Rightarrow> ikcpcb" where
  "flush_ready kcp = (flush_probe (kcp\<lparr>kcp_ackcount := 0\<rparr>))\<lparr>kcp_probe := 0\<rparr>"

definition flush_wnd :: "ikcpcb \<Rightarrow> u32" where
  "flush_wnd kcp = seg_wnd (flush_template kcp)"

lemma flush_ready_snd_inv: "snd_inv kcp \<Longrightarrow> snd_inv (flush_ready kcp)"
  using snd_inv_same [of kcp "flush_ready kcp"] flush_probe_frame [of "kcp\<lparr>kcp_ackcount := 0\<rparr>"]
  by (simp add: flush_ready_def same_defs)

lemma snd_inv_mtu: "snd_inv kcp \<Longrightarrow> mtu_ok kcp \<and> unat (kcp_mtu kcp) = unat (kcp_mss kcp) + 24"
proof -
  assume "snd_inv kcp"
  then have m: "kcp_mtu kcp = kcp_mss kcp + 24" "unat (kcp_mss kcp) < 2147483624"
    unfolding snd_inv_def by blast+
  have "unat (kcp_mss kcp + 24) = unat (kcp_mss kcp) + 24"
    using m(2) by (simp add: unat_word_ariths)
  with m show ?thesis by (simp add: mtu_ok_def)
qed

lemma snd_inv_kept:
  assumes inv: "snd_inv kcp" and same: "\<forall>s\<in>set (kcp_snd_buf kcp). same_segment s (f s)"
  shows "snd_inv (kcp\<lparr>kcp_snd_buf := map f (kcp_snd_buf kcp)\<rparr>)"
proof -
  let ?b = "kcp_snd_buf kcp"
  have sn: "map seg_sn (map f ?b) = map seg_sn ?b"
    using same by (simp add: same_segment_def)
  have "\<forall>s\<in>set (map f ?b). in_snd_buf (kcp_conv kcp) (kcp_mss kcp) s"
  proof -
    have "\<forall>s\<in>set ?b. in_snd_buf (kcp_conv kcp) (kcp_mss kcp) s"
      using inv unfolding snd_inv_def by blast
    with same show ?thesis by (auto simp: same_segment_def in_snd_buf_def fits_def seg_ok_def)
  qed
  then have "snd_inv0 (kcp\<lparr>kcp_snd_buf := map f ?b\<rparr>)"
    using snd_inv_imp0 [OF inv] by (simp add: snd_inv0_def snd_core_sns [OF sn] del: list.set_map)
  moreover have "(case map f ?b of [] \<Rightarrow> n | s # _ \<Rightarrow> seg_sn s) = (case ?b of [] \<Rightarrow> n | s # _ \<Rightarrow> seg_sn s)" for n
    using same by (cases ?b) (simp_all add: same_segment_def)
  ultimately show ?thesis using inv unfolding snd_inv_iff by (simp cong: list.case_cong)
qed

lemma flush_kept_same: "same_segment s (flush_kept kcp wnd resent rtomin s)"
  using flush_sent_same [of s kcp wnd resent rtomin] by (simp add: flush_kept_def same_segment_def)

text \<open>The block once \<open>k\<close> segments have moved.\<close>

definition flush_body :: "ikcpcb \<Rightarrow> nat \<Rightarrow> ikcpcb" where
  "flush_body kcp k = flush_moved (flush_wnd kcp) (flush_ready kcp) k"

lemma flush_body_sel:
  "kcp_conv (flush_body kcp k) = kcp_conv kcp" "kcp_mtu (flush_body kcp k) = kcp_mtu kcp"
  "kcp_fastresend (flush_body kcp k) = kcp_fastresend kcp" "kcp_rx_rto (flush_body kcp k) = kcp_rx_rto kcp"
  "kcp_nodelay (flush_body kcp k) = kcp_nodelay kcp" "kcp_ackcount (flush_body kcp k) = 0"
  "kcp_rcv_nxt (flush_body kcp k) = kcp_rcv_nxt kcp"
  "rcv_same kcp (flush_body kcp k)" "cfg_same kcp (flush_body kcp k)"
  "kcp_acklist (flush_body kcp k) = kcp_acklist kcp" "kcp_ackblock (flush_body kcp k) = kcp_ackblock kcp"
  "kcp_updated (flush_body kcp k) = kcp_updated kcp"
  "kcp_snd_buf (flush_body kcp k) = kcp_snd_buf kcp @ flush_stamps (flush_wnd kcp) (flush_ready kcp) k"
  "kcp_snd_queue (flush_body kcp k) = drop k (kcp_snd_queue kcp)"
  "kcp_snd_nxt (flush_body kcp k) = kcp_snd_nxt kcp + of_nat k"
  "kcp_snd_una (flush_body kcp k) = kcp_snd_una kcp"
  by (simp_all add: flush_body_def flush_moved_def flush_ready_def flush_probe_def same_defs Let_def)

definition flush_acked :: "ikcpcb \<Rightarrow> IKCPSEG list" where
  "flush_acked kcp = ack_segs kcp (flush_template kcp) [0..<nat (sint (kcp_ackcount kcp))]"

definition flush_probed :: "ikcpcb \<Rightarrow> u32 \<Rightarrow> u32 \<Rightarrow> IKCPSEG list" where
  "flush_probed kcp sn ts = probe_segs (kcp_probe (flush_probe (kcp\<lparr>kcp_ackcount := 0\<rparr>)))
     ((flush_template kcp)\<lparr>seg_sn := sn, seg_ts := ts\<rparr>)"

definition flush_datas :: "ikcpcb \<Rightarrow> nat \<Rightarrow> IKCPSEG list" where
  "flush_datas kcp k = data_segs (flush_body kcp k) (flush_wnd kcp) (flush_resent kcp) (flush_rtomin kcp)
     (kcp_snd_buf (flush_body kcp k))"

definition flush_left :: "ikcpcb \<Rightarrow> nat \<Rightarrow> IKCPSEG list" where
  "flush_left kcp k = map (flush_kept (flush_body kcp k) (flush_wnd kcp) (flush_resent kcp) (flush_rtomin kcp))
     (kcp_snd_buf (flush_body kcp k))"

lemma ikcp_flush_run:
  assumes inv: "snd_inv kcp" and upd: "kcp_updated kcp \<noteq> 0"
    and r: "ikcp_flush kcp = (out, kcp')"
  obtains k sn ts ptr out0 c ch l x t where "k \<le> length (kcp_snd_queue kcp)" "snd_inv (flush_body kcp k)"
    "in_flight kcp + k \<le> max (in_flight kcp) (unat (flush_window (flush_ready kcp)))"
    "k = length (kcp_snd_queue kcp) \<or> unat (flush_window (flush_ready kcp)) \<le> in_flight kcp + k"
    "out = ikcp_output ptr out0"
    "(ptr, out0) = fold (emit (kcp_mtu kcp)) (flush_acked kcp @ flush_probed kcp sn ts @ flush_datas kcp k) ([], [])"
    "kcp' = flush_cwnd c (flush_resent kcp) ch l
       ((flush_body kcp k)\<lparr>kcp_xmit := x, kcp_state := t, kcp_snd_buf := flush_left kcp k\<rparr>)"
proof -
  let ?T = "flush_template kcp" and ?kp = "flush_probe (kcp\<lparr>kcp_ackcount := 0\<rparr>)"
  let ?E = "fold (emit (kcp_mtu kcp))"
  note mtu = snd_inv_mtu [OF inv, THEN conjunct1]
  have T: "seg_data ?T = []" by (simp add: flush_template_def)
  obtain sn ts where A: "flush_acks kcp [0..<nat (sint (kcp_ackcount kcp))] ?T ([], [])
      = (?T\<lparr>seg_sn := sn, seg_ts := ts\<rparr>, ?E (flush_acked kcp) ([], []))"
    using flush_acks_emit [OF mtu T] unfolding flush_acked_def by blast
  have kp: "kcp_mtu ?kp = kcp_mtu kcp" "mtu_ok ?kp"
    using flush_probe_frame(4) [of "kcp\<lparr>kcp_ackcount := 0\<rparr>"] mtu by (simp_all add: cfg_same_def mtu_ok_def)
  have T': "seg_data (?T\<lparr>seg_sn := sn, seg_ts := ts\<rparr>) = []" using T by simp
  obtain c0 where P: "flush_probes ?kp (?T\<lparr>seg_sn := sn, seg_ts := ts\<rparr>) (?E (flush_acked kcp) ([], []))
      = (?T\<lparr>seg_sn := sn, seg_ts := ts, seg_cmd := c0\<rparr>,
         ?E (flush_probed kcp sn ts) (?E (flush_acked kcp) ([], [])))"
    using flush_probes_emit [OF kp(2) T', of "?E (flush_acked kcp) ([], [])"]
    unfolding flush_probed_def kp(1) by auto
  have w: "seg_wnd (?T\<lparr>seg_sn := sn, seg_ts := ts, seg_cmd := c0\<rparr>) = flush_wnd kcp"
    by (simp add: flush_wnd_def)
  note rinv = flush_ready_snd_inv [OF inv]
  have rq: "kcp_snd_queue (flush_ready kcp) = kcp_snd_queue kcp" "in_flight (flush_ready kcp) = in_flight kcp"
    by (simp_all add: flush_ready_def flush_probe_def in_flight_def Let_def)
  obtain k where k: "k \<le> length (kcp_snd_queue kcp)"
    and M: "flush_move (flush_window (flush_ready kcp)) (flush_wnd kcp) (flush_ready kcp) = flush_body kcp k"
    and binv: "snd_inv (flush_body kcp k)"
    and win: "in_flight kcp + k \<le> max (in_flight kcp) (unat (flush_window (flush_ready kcp)))"
      "k = length (kcp_snd_queue kcp) \<or> unat (flush_window (flush_ready kcp)) \<le> in_flight kcp + k"
    using flush_move_window [OF rinv, of "flush_wnd kcp"] unfolding rq flush_body_def by blast
  let ?b = "?E (flush_probed kcp sn ts) (?E (flush_acked kcp) ([], []))"
  let ?st = "\<lparr>fl_kcp = flush_body kcp k, fl_buf = ?b, fl_change = 0, fl_lost = False\<rparr>"
  obtain segs st where D: "flush_data (flush_wnd kcp) (flush_resent kcp) (flush_rtomin kcp)
      (kcp_snd_buf (flush_body kcp k)) ?st = (segs, st)" by fastforce
  have mss: "unat (kcp_mss (flush_body kcp k)) < 2147483624"
    and bufs: "\<forall>s\<in>set (kcp_snd_buf (flush_body kcp k)).
        in_snd_buf (kcp_conv (flush_body kcp k)) (kcp_mss (flush_body kcp k)) s"
    using binv unfolding snd_inv_def by blast+
  have ok: "\<forall>s\<in>set (kcp_snd_buf (flush_body kcp k)). seg_ok s \<and> unat (seg_len s) < 2147483624"
  proof
    fix s assume "s \<in> set (kcp_snd_buf (flush_body kcp k))"
    with bufs have "fits (kcp_mss (flush_body kcp k)) s" by (simp only: in_snd_buf_def)
    with mss show "seg_ok s \<and> unat (seg_len s) < 2147483624" unfolding fits_def by linarith
  qed
  have bmtu: "mtu_ok (flush_body kcp k)" using mtu by (simp add: mtu_ok_def flush_body_sel)
  from flush_data_spec [OF _ bmtu ok D] have segs: "segs = flush_left kcp k"
    and buf: "fl_buf st = ?E (flush_datas kcp k) ?b" and same: "flush_same (flush_body kcp k) (fl_kcp st)"
    by (simp_all add: flush_left_def flush_datas_def flush_body_sel flush_same_refl)
  from same obtain x t where fk: "fl_kcp st = (flush_body kcp k)\<lparr>kcp_xmit := x, kcp_state := t\<rparr>"
    by (auto simp: flush_same_def)
  obtain ptr out0 where pb: "fl_buf st = (ptr, out0)" by fastforce
  have cst: "(if kcp_fastresend (flush_body kcp k) > 0 then word_of_int (kcp_fastresend (flush_body kcp k))
      else 0xffffffff) = flush_resent kcp"
    "(if kcp_nodelay (flush_body kcp k) = 0 then signed_drop_bit 3 (kcp_rx_rto (flush_body kcp k)) else 0)
      = flush_rtomin kcp"
    by (simp_all add: flush_resent_def flush_rtomin_def flush_body_sel)
  have res: "(out, kcp') = (ikcp_output ptr out0,
     flush_cwnd (flush_window (flush_ready kcp)) (flush_resent kcp) (fl_change st \<noteq> 0) (fl_lost st)
       ((fl_kcp st)\<lparr>kcp_snd_buf := segs\<rparr>))"
    using r upd unfolding ikcp_flush_def Let_def A prod.case P w flush_ready_def [symmetric] M cst D pb
    by simp
  show thesis
    by (rule that [OF k binv win, where ptr = ptr and ?out0.0 = out0 and sn = sn and ts = ts])
      (use res buf pb in \<open>simp_all add: segs fk\<close>)
qed

lemma wire_ok_template:
  assumes "c \<in> {IKCP_CMD_ACK, IKCP_CMD_WASK, IKCP_CMD_WINS}"
  shows "wire_ok (kcp_conv kcp) ((flush_template kcp)\<lparr>seg_sn := sn, seg_ts := ts, seg_cmd := c\<rparr>)"
    and "length (wire ((flush_template kcp)\<lparr>seg_sn := sn, seg_ts := ts, seg_cmd := c\<rparr>)) = 24"
  using assms by (auto simp: wire_ok_def flush_template_def seg_ok_def wire_def)

lemma flush_acked_segs:
  "s \<in> set (flush_acked kcp) \<Longrightarrow>
   \<exists>sn ts. s = (flush_template kcp)\<lparr>seg_sn := sn, seg_ts := ts, seg_cmd := IKCP_CMD_ACK\<rparr>"
proof -
  have "(flush_template kcp)\<lparr>seg_sn := a, seg_ts := b\<rparr>
      = (flush_template kcp)\<lparr>seg_sn := a, seg_ts := b, seg_cmd := IKCP_CMD_ACK\<rparr>" for a b
    by (simp add: flush_template_def)
  then show "s \<in> set (flush_acked kcp) \<Longrightarrow> ?thesis"
    unfolding flush_acked_def ack_segs_def by auto
qed

lemma flush_probed_segs:
  "s \<in> set (flush_probed kcp sn ts) \<Longrightarrow>
   \<exists>c\<in>{IKCP_CMD_WASK, IKCP_CMD_WINS}. s = (flush_template kcp)\<lparr>seg_sn := sn, seg_ts := ts, seg_cmd := c\<rparr>"
  by (auto simp: flush_probed_def probe_segs_def split: if_splits)

lemma flush_datas_segs:
  assumes "snd_inv (flush_body kcp k)" "s \<in> set (flush_datas kcp k)"
  shows "in_snd_buf (kcp_conv kcp) (kcp_mss kcp) s"
    and "\<exists>t\<in>set (kcp_snd_buf (flush_body kcp k)). same_segment t s"
proof -
  from assms(2) obtain t where t: "t \<in> set (kcp_snd_buf (flush_body kcp k))" "same_segment t s"
    using flush_sent_same by (auto simp: flush_datas_def data_segs_def)
  then show "\<exists>t\<in>set (kcp_snd_buf (flush_body kcp k)). same_segment t s" by blast
  have "kcp_mss (flush_body kcp k) = kcp_mss kcp"
    using flush_body_sel(9) [of kcp k] by (simp add: cfg_same_def)
  moreover have "in_snd_buf (kcp_conv (flush_body kcp k)) (kcp_mss (flush_body kcp k)) t"
    using assms(1) t(1) unfolding snd_inv_def by blast
  ultimately show "in_snd_buf (kcp_conv kcp) (kcp_mss kcp) s"
    using t(2) by (simp add: flush_body_sel same_segment_def in_snd_buf_def fits_def seg_ok_def)
qed

lemma in_snd_buf_wire:
  assumes "snd_inv kcp" "in_snd_buf (kcp_conv kcp) (kcp_mss kcp) s"
  shows "wire_ok (kcp_conv kcp) s" "length (wire s) \<le> unat (kcp_mtu kcp)"
proof -
  have "unat (kcp_mss kcp) < 2147483624" using assms(1) unfolding snd_inv_def by blast
  moreover have "seg_ok s" "unat (seg_len s) \<le> unat (kcp_mss kcp)" "seg_conv s = kcp_conv kcp"
    "seg_cmd s = IKCP_CMD_PUSH"
    using assms(2) by (simp_all add: in_snd_buf_def fits_def)
  ultimately show "wire_ok (kcp_conv kcp) s" "length (wire s) \<le> unat (kcp_mtu kcp)"
    using snd_inv_mtu [OF assms(1)] by (simp_all add: wire_ok_def length_wire)
qed

lemma ikcp_flush_parts:
  assumes inv: "snd_inv kcp" and upd: "kcp_updated kcp \<noteq> 0"
    and r: "ikcp_flush kcp = (out, kcp')"
  obtains k sn ts parts c ch l x t where "k \<le> length (kcp_snd_queue kcp)" "snd_inv (flush_body kcp k)"
    "in_flight kcp + k < 65536" "out = map datagram parts" "[] \<notin> set parts" "\<forall>p\<in>set parts. length (datagram p) \<le> unat (kcp_mtu kcp)"
    "concat parts = flush_acked kcp @ flush_probed kcp sn ts @ flush_datas kcp k"
    "\<forall>s\<in>set (concat parts). wire_ok (kcp_conv kcp) s"
    "kcp' = flush_cwnd c (flush_resent kcp) ch l
       ((flush_body kcp k)\<lparr>kcp_xmit := x, kcp_state := t, kcp_snd_buf := flush_left kcp k\<rparr>)"
proof -
  obtain k sn ts ptr out0 c ch l x t where k: "k \<le> length (kcp_snd_queue kcp)"
    and binv: "snd_inv (flush_body kcp k)"
    and win: "in_flight kcp + k \<le> max (in_flight kcp) (unat (flush_window (flush_ready kcp)))"
    and out: "out = ikcp_output ptr out0"
    and pk: "(ptr, out0) = fold (emit (kcp_mtu kcp))
        (flush_acked kcp @ flush_probed kcp sn ts @ flush_datas kcp k) ([], [])"
    and k': "kcp' = flush_cwnd c (flush_resent kcp) ch l
       ((flush_body kcp k)\<lparr>kcp_xmit := x, kcp_state := t, kcp_snd_buf := flush_left kcp k\<rparr>)"
    by (rule ikcp_flush_run [OF assms])
  let ?segs = "flush_acked kcp @ flush_probed kcp sn ts @ flush_datas kcp k"
  have "snd_core (kcp_snd_una kcp) (kcp_snd_nxt kcp) (kcp_snd_buf kcp)"
    using inv unfolding snd_inv_def by blast
  then have "in_flight kcp < 65536" by (simp add: snd_core_def in_flight_def)
  with win flush_window_small [OF flush_ready_snd_inv [OF inv]] have win': "in_flight kcp + k < 65536"
    by linarith
  have mtu: "24 \<le> unat (kcp_mtu kcp)" using snd_inv_mtu [OF inv] by simp
  have ok: "wire_ok (kcp_conv kcp) s \<and> length (wire s) \<le> unat (kcp_mtu kcp)" if "s \<in> set ?segs" for s
  proof -
    from that consider "s \<in> set (flush_acked kcp)" | "s \<in> set (flush_probed kcp sn ts)"
      | "s \<in> set (flush_datas kcp k)" by auto
    then show ?thesis
    proof cases
      case 1
      with flush_acked_segs [OF this] mtu wire_ok_template [of IKCP_CMD_ACK] show ?thesis by auto
    next
      case 2
      with flush_probed_segs [OF this] mtu wire_ok_template [of IKCP_CMD_WASK]
        wire_ok_template [of IKCP_CMD_WINS] show ?thesis by auto
    next
      case 3
      with flush_datas_segs(1) [OF binv this] in_snd_buf_wire [OF inv] show ?thesis by blast
    qed
  qed
  then have "\<forall>s\<in>set ?segs. length (wire s) \<le> unat (kcp_mtu kcp)" by blast
  from packed_output [OF packed_fold [OF packed_start this, folded pk]]
  obtain parts where "ikcp_output ptr out0 = map datagram parts" "concat parts = ?segs" "[] \<notin> set parts"
    "\<forall>p\<in>set parts. length (datagram p) \<le> unat (kcp_mtu kcp)" by auto
  then show thesis
    using that [OF k binv win', of parts] ok out k' by metis
qed

lemma flush_snd_inv:
  assumes "snd_inv kcp" "ikcp_flush kcp = (out, kcp')"
  shows "snd_inv kcp'"
proof (cases "kcp_updated kcp = 0")
  case True
  with assms show ?thesis by (simp add: ikcp_flush_def)
next
  case False
  obtain k c ch l x t where binv: "snd_inv (flush_body kcp k)"
    and k': "kcp' = flush_cwnd c (flush_resent kcp) ch l
       ((flush_body kcp k)\<lparr>kcp_xmit := x, kcp_state := t, kcp_snd_buf := flush_left kcp k\<rparr>)"
    by (rule ikcp_flush_parts [OF assms(1) False assms(2)])
  have 1: "snd_inv ((flush_body kcp k)\<lparr>kcp_snd_buf := flush_left kcp k\<rparr>)"
    unfolding flush_left_def by (rule snd_inv_kept [OF binv]) (simp add: flush_kept_same)
  have "snd_inv ((flush_body kcp k)\<lparr>kcp_xmit := x, kcp_state := t, kcp_snd_buf := flush_left kcp k\<rparr>)"
    using 1 snd_inv_same [of "(flush_body kcp k)\<lparr>kcp_snd_buf := flush_left kcp k\<rparr>"
        "(flush_body kcp k)\<lparr>kcp_xmit := x, kcp_state := t, kcp_snd_buf := flush_left kcp k\<rparr>"]
    by (simp add: same_defs)
  then show ?thesis
    unfolding k' using snd_inv_same [OF flush_cwnd_frame(2,4,5)] by blast
qed

lemma flush_frame:
  assumes "snd_inv kcp" "ikcp_flush kcp = (out, kcp')"
  shows "rcv_same kcp kcp'" "cfg_same kcp kcp'" "kcp_updated kcp \<noteq> 0 \<Longrightarrow> kcp_ackcount kcp' = 0"
    "kcp_acklist kcp' = kcp_acklist kcp" "kcp_ackblock kcp' = kcp_ackblock kcp"
proof -
  have "rcv_same kcp kcp' \<and> cfg_same kcp kcp' \<and> (kcp_updated kcp \<noteq> 0 \<longrightarrow> kcp_ackcount kcp' = 0) \<and>
    kcp_acklist kcp' = kcp_acklist kcp \<and> kcp_ackblock kcp' = kcp_ackblock kcp"
  proof (cases "kcp_updated kcp = 0")
    case True
    with assms show ?thesis by (simp add: ikcp_flush_def)
  next
    case False
    obtain k c ch l x t where k': "kcp' = flush_cwnd c (flush_resent kcp) ch l
       ((flush_body kcp k)\<lparr>kcp_xmit := x, kcp_state := t, kcp_snd_buf := flush_left kcp k\<rparr>)"
      by (rule ikcp_flush_parts [OF assms(1) False assms(2)])
    show ?thesis
      unfolding k' using flush_cwnd_frame flush_body_sel [of kcp k] by (simp add: same_defs)
  qed
  then show "rcv_same kcp kcp'" "cfg_same kcp kcp'" "kcp_updated kcp \<noteq> 0 \<Longrightarrow> kcp_ackcount kcp' = 0"
    "kcp_acklist kcp' = kcp_acklist kcp" "kcp_ackblock kcp' = kcp_ackblock kcp" by blast+
qed

text \<open>
  C3 (packing).  Every datagram a flush hands to the output callback is non-empty, at most
  \<open>mtu\<close> bytes long, and a sequence of whole, well-formed segments of this conversation; all
  segments together are the pending acknowledgements in arrival order, then the window probes,
  then the due data segments, and the send invariant is kept.
\<close>

theorem kcp_flush_packs:
  assumes "snd_inv kcp" "kcp_updated kcp \<noteq> 0" "ikcp_flush kcp = (out, kcp')"
  shows "snd_inv kcp' \<and> (\<exists>parts k sn ts. out = map datagram parts
    \<and> (\<forall>p\<in>set parts. p \<noteq> [] \<and> length (datagram p) \<le> unat (kcp_mtu kcp) \<and> (\<forall>s\<in>set p. wire_ok (kcp_conv kcp) s))
    \<and> concat parts = flush_acked kcp @ flush_probed kcp sn ts @ flush_datas kcp k)"
proof
  show "snd_inv kcp'" by (rule flush_snd_inv [OF assms(1,3)])
  obtain k sn ts parts where parts: "out = map datagram parts" "[] \<notin> set parts"
    "\<forall>p\<in>set parts. length (datagram p) \<le> unat (kcp_mtu kcp)"
    "concat parts = flush_acked kcp @ flush_probed kcp sn ts @ flush_datas kcp k"
    and "\<forall>s\<in>set (concat parts). wire_ok (kcp_conv kcp) s"
    by (rule ikcp_flush_parts [OF assms])
  then have "\<forall>p\<in>set parts. \<forall>s\<in>set p. wire_ok (kcp_conv kcp) s"
    unfolding set_concat by blast
  with parts show "\<exists>parts k sn ts. out = map datagram parts
    \<and> (\<forall>p\<in>set parts. p \<noteq> [] \<and> length (datagram p) \<le> unat (kcp_mtu kcp) \<and> (\<forall>s\<in>set p. wire_ok (kcp_conv kcp) s))
    \<and> concat parts = flush_acked kcp @ flush_probed kcp sn ts @ flush_datas kcp k"
    by blast
qed

end
