(* ===== verification/Kcp_System.thy ===== *)
theory Kcp_System
  imports Kcp_Flush
begin

text \<open>
  Two KCP endpoints and the network between them: whatever the network loses, repeats or
  reorders, the messages \<open>ikcp_recv\<close> returns on one side are the messages \<open>ikcp_send\<close>
  accepted on the other, in order and with their boundaries.
\<close>

section \<open>The sender's history\<close>

text \<open>
  \<open>all\<close> lists the payloads of every segment ever queued; the first \<open>N\<close> of them have been
  stamped with a sequence number.
\<close>

definition numbered :: "payload list \<Rightarrow> nat \<Rightarrow> IKCPSEG \<Rightarrow> bool" where
  "numbered all N s \<longleftrightarrow>
     (\<exists>m<N. N \<le> m + 65536 \<and> m < length all \<and> seg_sn s = of_nat m \<and> seg_payload s = all ! m)"

definition snd_track :: "payload list \<Rightarrow> nat \<Rightarrow> ikcpcb \<Rightarrow> bool" where
  "snd_track all N kcp \<longleftrightarrow> snd_inv kcp \<and> kcp_snd_nxt kcp = of_nat N \<and> N \<le> length all \<and>
     map seg_payload (kcp_snd_queue kcp) = drop N all \<and>
     (\<forall>s\<in>set (kcp_snd_buf kcp). numbered all N s)"

lemma numbered_same: "same_segment t s \<Longrightarrow> numbered all N t \<Longrightarrow> numbered all N s"
  by (auto simp: numbered_def same_segment_def seg_payload_def)

lemma numbered_append: "numbered all N s \<Longrightarrow> numbered (all @ more') N s"
  by (fastforce simp: numbered_def nth_append)

lemma in_flight_numbered:
  assumes "snd_inv kcp" "kcp_snd_nxt kcp = of_nat N" "s \<in> set (kcp_snd_buf kcp)"
    and "seg_sn s = of_nat m" "m < N" "N \<le> m + 131072"
  shows "N - m \<le> in_flight kcp"
proof -
  have core: "snd_core (kcp_snd_una kcp) (kcp_snd_nxt kcp) (kcp_snd_buf kcp)"
    using assms(1) unfolding snd_inv_def by blast
  then have off: "snd_off (kcp_snd_una kcp) s < in_flight kcp"
    using assms(3) by (simp add: snd_core_def in_flight_def)
  have "kcp_snd_nxt kcp - seg_sn s = of_nat (N - m)"
    using assms by (simp add: of_nat_diff)
  then have d: "unat (kcp_snd_nxt kcp - seg_sn s) = N - m"
    using assms(5,6) by (simp only: unat_word_of_nat_32)
  have "kcp_snd_nxt kcp - seg_sn s = (kcp_snd_nxt kcp - kcp_snd_una kcp) - (seg_sn s - kcp_snd_una kcp)"
    by simp
  then have "unat (kcp_snd_nxt kcp - seg_sn s) = in_flight kcp - snd_off (kcp_snd_una kcp) s"
    using off by (simp only: in_flight_def snd_off_def unat_sub word_le_nat_alt less_imp_le)
  with d show ?thesis by simp
qed

lemma snd_track_inv: "snd_track all N kcp \<Longrightarrow> snd_inv kcp"
  unfolding snd_track_def by blast

text \<open>Everything but the flush and the send leaves the history alone.\<close>

lemma snd_track_mono:
  assumes "snd_track all N kcp" "snd_inv kcp'" "kcp_snd_nxt kcp' = kcp_snd_nxt kcp"
    and "kcp_snd_queue kcp' = kcp_snd_queue kcp"
    and "\<And>s. s \<in> set (kcp_snd_buf kcp') \<Longrightarrow> \<exists>t\<in>set (kcp_snd_buf kcp). same_segment t s"
  shows "snd_track all N kcp'"
  using assms numbered_same unfolding snd_track_def by metis

lemma same_segment_refl [simp]: "same_segment s s"
  by (simp add: same_segment_def)

lemma snd_track_same:
  assumes "snd_track all N kcp" "snd_same kcp kcp'" "cfg_same kcp kcp'" "kcp_rmt_wnd kcp' = kcp_rmt_wnd kcp"
  shows "snd_track all N kcp'"
  using assms snd_inv_same [OF assms(2-4)] unfolding snd_track_def by (simp add: snd_same_def)

section \<open>Input and the history\<close>

lemma shrink_buf_sel [simp]:
  "kcp_snd_buf (ikcp_shrink_buf kcp) = kcp_snd_buf kcp" "kcp_snd_queue (ikcp_shrink_buf kcp) = kcp_snd_queue kcp"
  "kcp_snd_nxt (ikcp_shrink_buf kcp) = kcp_snd_nxt kcp"
  by (simp_all add: ikcp_shrink_buf_def split: list.split)

lemma parse_una_sub:
  "set (kcp_snd_buf (ikcp_parse_una kcp una)) \<subseteq> set (kcp_snd_buf kcp)"
  "kcp_snd_queue (ikcp_parse_una kcp una) = kcp_snd_queue kcp"
  "kcp_snd_nxt (ikcp_parse_una kcp una) = kcp_snd_nxt kcp"
  by (auto simp: ikcp_parse_una_def una_remove_eq dest: set_dropWhileD)

lemma parse_ack_sub:
  "set (kcp_snd_buf (ikcp_parse_ack kcp sn)) \<subseteq> set (kcp_snd_buf kcp)"
  "kcp_snd_queue (ikcp_parse_ack kcp sn) = kcp_snd_queue kcp"
  "kcp_snd_nxt (ikcp_parse_ack kcp sn) = kcp_snd_nxt kcp"
  using ack_remove_spec [of sn "kcp_snd_buf kcp" "(<)" "\<lambda>s. 0 :: nat"]
  by (auto simp: ikcp_parse_ack_def split_def)

lemma input_common_track: "snd_track all N kcp \<Longrightarrow> snd_track all N (input_common h kcp)"
  using parse_una_sub [of "kcp\<lparr>kcp_rmt_wnd := ucast (h_wnd h)\<rparr>" "h_una h"]
  by (rule_tac kcp = kcp in snd_track_mono)
    (auto simp: input_common_def [symmetric] snd_track_inv input_common_snd_inv,
     auto simp: input_common_def intro: same_segment_refl)

lemma input_ack_track:
  assumes "snd_track all N (in_kcp st)"
  shows "snd_track all N (in_kcp (input_ack h st))"
proof -
  define k where "k = (if itimediff (kcp_current (in_kcp st)) (h_ts h) \<ge> 0
       then ikcp_update_ack (in_kcp st) (word_of_int (itimediff (kcp_current (in_kcp st)) (h_ts h)))
       else in_kcp st)"
  have k: "snd_same (in_kcp st) k"
    using update_ack_frame(2) by (simp add: k_def)
  have r: "in_kcp (input_ack h st) = ikcp_shrink_buf (ikcp_parse_ack k (h_sn h))"
    unfolding input_ack_def Let_def k_def [symmetric] by simp
  show ?thesis
  proof (rule snd_track_mono [OF assms input_ack_snd_inv [OF snd_track_inv [OF assms]]])
    fix s assume "s \<in> set (kcp_snd_buf (in_kcp (input_ack h st)))"
    then show "\<exists>t\<in>set (kcp_snd_buf (in_kcp st)). same_segment t s"
      using parse_ack_sub(1) [of k "h_sn h"] k by (auto simp: r snd_same_def intro!: bexI [of _ s])
  qed (use k in \<open>simp_all add: r parse_ack_sub snd_same_def\<close>)
qed

lemma input_segment_track:
  assumes "snd_track all N (in_kcp st)"
  shows "snd_track all N (in_kcp (input_segment conv h d st))"
proof -
  let ?st = "st\<lparr>in_kcp := input_common h (in_kcp st)\<rparr>"
  have c: "snd_track all N (in_kcp ?st)" using input_common_track [OF assms] by simp
  have "snd_track all N (input_push conv h d (in_kcp ?st))"
    by (rule snd_track_same [OF c input_push_frame])
  moreover have "snd_track all N ((in_kcp ?st)\<lparr>kcp_probe := p\<rparr>)" for p
    by (rule snd_track_same [OF c]) (simp_all add: same_defs)
  ultimately show ?thesis
    using c input_ack_track [OF c, of h] by (simp add: input_segment_cases Let_def)
qed

lemma fastack_mark_segs: "\<forall>s\<in>set (fastack_mark sn buf). \<exists>t\<in>set buf. same_segment t s"
  by (induction buf) (auto simp: same_segment_def)

lemma parse_fastack_track:
  assumes "snd_track all N kcp"
  shows "snd_track all N (ikcp_parse_fastack kcp sn ts)"
  by (rule snd_track_mono [OF assms parse_fastack_snd_inv [OF snd_track_inv [OF assms]]])
    (use fastack_mark_segs in \<open>auto simp: ikcp_parse_fastack_def split: if_splits intro: same_segment_refl\<close>)

interpretation input_track: input_kept "snd_track all N" for all N
  by unfold_locales
    (auto intro: input_segment_track parse_fastack_track snd_track_same [OF _ input_cwnd_frame(2,4,5)])

section \<open>Flush and the history\<close>

text \<open>What travels: whole segments; the data segments among them belong to the history.\<close>

definition carries :: "u32 \<Rightarrow> payload list \<Rightarrow> nat \<Rightarrow> bytes \<Rightarrow> bool" where
  "carries conv all N d \<longleftrightarrow>
     (\<exists>segs. segs \<noteq> [] \<and> d = datagram segs \<and> (\<forall>s\<in>set segs. wire_ok conv s \<and>
        (seg_cmd s = IKCP_CMD_PUSH \<longrightarrow> unat (seg_frg s) < 256 \<and> numbered all N s)))"

lemma carries_append: "carries conv all N d \<Longrightarrow> carries conv (all @ new) N d"
  unfolding carries_def using numbered_append by metis

lemma flush_body_track:
  assumes tr: "snd_track all N kcp" and k: "k \<le> length (kcp_snd_queue kcp)"
    and binv: "snd_inv (flush_body kcp k)" and win: "in_flight kcp + k < 65536"
  shows "snd_track all (N + k) (flush_body kcp k)"
proof -
  let ?b = "flush_body kcp k" and ?new = "flush_stamps (flush_wnd kcp) (flush_ready kcp) k"
  have nxt: "kcp_snd_nxt kcp = of_nat N" and N: "N \<le> length all"
    and q: "map seg_payload (kcp_snd_queue kcp) = drop N all"
    and buf: "\<forall>s\<in>set (kcp_snd_buf kcp). numbered all N s"
    using tr unfolding snd_track_def by blast+
  have len: "length (kcp_snd_queue kcp) = length all - N"
    using arg_cong [OF q, of length] by simp
  have rq: "kcp_snd_queue (flush_ready kcp) = kcp_snd_queue kcp" "kcp_snd_nxt (flush_ready kcp) = kcp_snd_nxt kcp"
    by (simp_all add: flush_ready_def flush_probe_def Let_def)
  have k': "k \<le> length (kcp_snd_queue (flush_ready kcp))" using k by (simp add: rq)
  have nxt': "kcp_snd_nxt ?b = of_nat (N + k)" using nxt by (simp add: flush_body_sel)
  have fl: "in_flight ?b < 65536"
    using binv unfolding snd_inv_def snd_core_def in_flight_def by blast
  have pay: "seg_payload (?new ! i) = all ! (N + i)" "seg_sn (?new ! i) = of_nat (N + i)" if "i < k" for i
  proof -
    have "map seg_payload ?new = take k (drop N all)"
      using flush_stamps_props(3) [OF k'] by (simp add: rq q flip: take_map)
    then have "map seg_payload ?new ! i = all ! (N + i)" using that len k by simp
    then show "seg_payload (?new ! i) = all ! (N + i)"
      using flush_stamps_props(1) [OF k', of "flush_wnd kcp"] that by simp
    show "seg_sn (?new ! i) = of_nat (N + i)"
      using flush_stamps_props(2) [OF k' that] nxt by (simp add: rq)
  qed
  have "numbered all (N + k) s" if s: "s \<in> set (kcp_snd_buf ?b)" for s
  proof -
    have "\<exists>m<N + k. m < length all \<and> N + k \<le> m + 131072 \<and> seg_sn s = of_nat m \<and> seg_payload s = all ! m"
    proof (cases "s \<in> set (kcp_snd_buf kcp)")
      case True
      with buf obtain m where "m < N" "N \<le> m + 65536" "m < length all" "seg_sn s = of_nat m"
        "seg_payload s = all ! m" unfolding numbered_def by blast
      with win show ?thesis by (intro exI [of _ m]) auto
    next
      case False
      then obtain i where "i < k" "s = ?new ! i"
        using s flush_stamps_props(1) [OF k', of "flush_wnd kcp"] by (auto simp: flush_body_sel in_set_conv_nth)
      with pay [of i] k len win show ?thesis by (intro exI [of _ "N + i"]) auto
    qed
    then obtain m where m: "m < N + k" "m < length all" "N + k \<le> m + 131072" "seg_sn s = of_nat m"
      "seg_payload s = all ! m" by blast
    have "N + k - m \<le> in_flight ?b"
      by (rule in_flight_numbered [OF binv nxt' s m(4,1,3)])
    with fl m show ?thesis unfolding numbered_def by (intro exI [of _ m]) auto
  qed
  moreover have "map seg_payload (kcp_snd_queue ?b) = drop (N + k) all"
    using q by (simp add: flush_body_sel drop_map [symmetric] add.commute)
  ultimately show ?thesis
    using binv nxt' N k len unfolding snd_track_def by simp
qed

lemma flush_track:
  assumes tr: "snd_track all N kcp" and r: "ikcp_flush kcp = (out, kcp')"
  shows "\<exists>k. length (kcp_snd_queue kcp) = k + length (kcp_snd_queue kcp') \<and> snd_track all (N + k) kcp'
    \<and> (\<forall>d\<in>set out. carries (kcp_conv kcp) all (N + k) d)"
proof (cases "kcp_updated kcp = 0")
  case True
  with r tr show ?thesis by (intro exI [of _ 0]) (simp add: ikcp_flush_def)
next
  case False
  note inv = snd_track_inv [OF tr]
  obtain k sn ts parts c ch l x t where k: "k \<le> length (kcp_snd_queue kcp)"
    and binv: "snd_inv (flush_body kcp k)" and win: "in_flight kcp + k < 65536"
    and parts: "out = map datagram parts" "[] \<notin> set parts"
      "concat parts = flush_acked kcp @ flush_probed kcp sn ts @ flush_datas kcp k"
    and ok: "\<forall>s\<in>set (concat parts). wire_ok (kcp_conv kcp) s"
    and k': "kcp' = flush_cwnd c (flush_resent kcp) ch l
       ((flush_body kcp k)\<lparr>kcp_xmit := x, kcp_state := t, kcp_snd_buf := flush_left kcp k\<rparr>)"
    by (rule ikcp_flush_parts [OF inv False r])
  note btr = flush_body_track [OF tr k binv win]
  have same: "snd_same ((flush_body kcp k)\<lparr>kcp_xmit := x, kcp_state := t, kcp_snd_buf := flush_left kcp k\<rparr>) kcp'"
    unfolding k' by (rule flush_cwnd_frame)
  have left: "\<exists>u\<in>set (kcp_snd_buf (flush_body kcp k)). same_segment u s"
    if "s \<in> set (kcp_snd_buf kcp')" for s
  proof -
    have "s \<in> set (flush_left kcp k)" using that same by (simp add: snd_same_def)
    then obtain u where "u \<in> set (kcp_snd_buf (flush_body kcp k))"
      "s = flush_kept (flush_body kcp k) (flush_wnd kcp) (flush_resent kcp) (flush_rtomin kcp) u"
      unfolding flush_left_def by auto
    then show ?thesis using flush_kept_same by blast
  qed
  have "snd_track all (N + k) kcp'"
    using same by (intro snd_track_mono [OF btr flush_snd_inv [OF inv r] _ _ left]) (simp_all add: snd_same_def)
  moreover have "length (kcp_snd_queue kcp) = k + length (kcp_snd_queue kcp')"
    using same k by (simp add: snd_same_def flush_body_sel)
  moreover have "carries (kcp_conv kcp) all (N + k) d" if "d \<in> set out" for d
  proof -
    from that parts(1) obtain p where p: "p \<in> set parts" "d = datagram p" by auto
    have "unat (seg_frg s) < 256 \<and> numbered all (N + k) s"
      if "s \<in> set p" "seg_cmd s = IKCP_CMD_PUSH" for s
    proof -
      have "s \<in> set (concat parts)" using that(1) p(1) by auto
      then have "s \<in> set (flush_datas kcp k)"
        using that(2) flush_acked_segs [of s kcp] flush_probed_segs [of s kcp sn ts]
        unfolding parts(3) by auto
      from flush_datas_segs [OF binv this] btr numbered_same show ?thesis
        unfolding snd_track_def in_snd_buf_def fits_def by blast
    qed
    moreover have "\<forall>s\<in>set p. wire_ok (kcp_conv kcp) s" using ok p(1) unfolding set_concat by blast
    moreover have "p \<noteq> []" using p(1) parts(2) by blast
    ultimately show ?thesis unfolding carries_def using p(2) by blast
  qed
  ultimately show ?thesis by blast
qed

section \<open>Send and the history\<close>

text \<open>The payloads of the pieces of a message.\<close>

definition pieces :: "u32 \<Rightarrow> bytes \<Rightarrow> payload list" where
  "pieces mss data = map seg_payload (fragments mss data)"

lemma send_track:
  assumes tr: "snd_track all N kcp" and msg: "kcp_stream kcp = 0" "\<forall>i. mem i" "length data < 2147483648"
    and r: "ikcp_send mem kcp data (int (length data)) = (r, kcp')"
  shows "snd_track (if r = 0 then all @ pieces (kcp_mss kcp) data else all) N kcp'"
proof -
  note inv = snd_track_inv [OF tr]
  let ?n = "length (chunks (unat (kcp_mss kcp)) data)"
  have sinv: "snd_inv kcp'"
    using send_snd_inv [OF inv, of "int (length data)" data mem] r by simp
  note res = send_message [OF inv msg, unfolded r]
  show ?thesis
  proof (cases "?n < 128")
    case False
    with res tr show ?thesis by simp
  next
    case True
    with res have r0: "r = 0" and k: "kcp' = kcp\<lparr>kcp_snd_queue := kcp_snd_queue kcp @ fragments (kcp_mss kcp) data,
        kcp_nsnd_que := kcp_nsnd_que kcp + of_nat ?n\<rparr>" by simp_all
    have "\<forall>s\<in>set (kcp_snd_buf kcp). numbered (all @ pieces (kcp_mss kcp) data) N s"
      using tr numbered_append unfolding snd_track_def by blast
    with tr sinv r0 show ?thesis
      unfolding snd_track_def by (simp add: k pieces_def)
  qed
qed

section \<open>Arrival and the history\<close>

lemma parse_data_room:
  assumes "rcv_inv kcp" "seg_ok seg"
  shows "length (kcp_rcv_queue kcp) \<le> length (kcp_rcv_queue (ikcp_parse_data kcp seg))"
    and "length (kcp_rcv_queue (ikcp_parse_data kcp seg))
      \<le> max (length (kcp_rcv_queue kcp)) (unat (kcp_rcv_wnd kcp))"
    and "kcp_rcv_wnd (ikcp_parse_data kcp seg) = kcp_rcv_wnd kcp"
proof -
  have wnd: "unat (kcp_rcv_wnd kcp) < 2147483648" using assms(1) unfolding rcv_inv_def by blast
  have "length (kcp_rcv_queue kcp) \<le> length (kcp_rcv_queue (ikcp_parse_data kcp seg))
    \<and> length (kcp_rcv_queue (ikcp_parse_data kcp seg))
      \<le> max (length (kcp_rcv_queue kcp)) (unat (kcp_rcv_wnd kcp))
    \<and> kcp_rcv_wnd (ikcp_parse_data kcp seg) = kcp_rcv_wnd kcp"
  proof (cases "unat (kcp_rcv_wnd kcp) \<le> rcv_off kcp seg")
    case True
    then show ?thesis by (simp add: parse_data_insert [OF wnd])
  next
    case False
    with wnd have "rcv_off kcp seg < 2147483648" by linarith
    note ins = rcv_insert_inv [OF assms(1) this assms(2)]
    have w: "kcp_rcv_wnd (rcv_insert kcp seg) = kcp_rcv_wnd kcp"
      by (auto simp: rcv_insert_def split: prod.split)
    from move_rcv_inv [OF ins(1)] obtain k where k: "k \<le> length (kcp_rcv_buf (rcv_insert kcp seg))"
      "ikcp_move_rcv (rcv_insert kcp seg) = (rcv_insert kcp seg)\<lparr>kcp_rcv_buf := drop k (kcp_rcv_buf (rcv_insert kcp seg)),
         kcp_nrcv_buf := kcp_nrcv_buf (rcv_insert kcp seg) - of_nat k,
         kcp_rcv_queue := kcp_rcv_queue (rcv_insert kcp seg) @ take k (kcp_rcv_buf (rcv_insert kcp seg)),
         kcp_nrcv_que := kcp_nrcv_que (rcv_insert kcp seg) + of_nat k,
         kcp_rcv_nxt := kcp_rcv_nxt (rcv_insert kcp seg) + of_nat k\<rparr>"
      "0 < k \<longrightarrow> length (kcp_rcv_queue (rcv_insert kcp seg)) + k \<le> unat (kcp_rcv_wnd (rcv_insert kcp seg))"
      by blast
    from k(3) ins(4) w show ?thesis
      unfolding parse_data_insert [OF wnd] using False k(1) by (auto simp: k(2) w)
  qed
  then show "length (kcp_rcv_queue kcp) \<le> length (kcp_rcv_queue (ikcp_parse_data kcp seg))"
    "length (kcp_rcv_queue (ikcp_parse_data kcp seg))
      \<le> max (length (kcp_rcv_queue kcp)) (unat (kcp_rcv_wnd kcp))"
    "kcp_rcv_wnd (ikcp_parse_data kcp seg) = kcp_rcv_wnd kcp" by blast+
qed

lemma rcv_state_same: "rcv_same kcp kcp' \<Longrightarrow> rcv_state f kcp cs out \<Longrightarrow> rcv_state f kcp' cs out"
  using rcv_tracks_same [of kcp kcp' f] by (auto simp: rcv_state_def Let_def rcv_same_def)

lemma rcv_state_inv: "rcv_state f kcp cs out \<Longrightarrow> rcv_inv kcp"
  by (simp add: rcv_state_def rcv_tracks_def Let_def)

text \<open>One arriving segment: what it leaves of the receive state, and how far the queue can grow.\<close>

definition arrives :: "(nat \<Rightarrow> payload) \<Rightarrow> nat \<Rightarrow> IKCPSEG \<Rightarrow> bool" where
  "arrives f n s \<longleftrightarrow> seg_cmd s = IKCP_CMD_PUSH \<longrightarrow> unat (seg_frg s) < 256 \<and>
     (\<exists>m. sent_as f m s \<and> m < n + 1073741824 \<and> n \<le> m + 1073741824)"

lemma input_push_wire:
  assumes "unat (seg_len s) = length (seg_data s)" "unat (seg_frg s) < 256"
  obtains "rcv_same kcp (input_push conv (hdr_of_seg s) (seg_data s) kcp)"
  | t k where "input_push conv (hdr_of_seg s) (seg_data s) kcp = ikcp_parse_data k t" "rcv_same kcp k"
      "seg_sn t = seg_sn s" "seg_ok t" "seg_payload t = seg_payload s"
proof -
  let ?k = "ikcp_ack_push kcp (seg_sn s) (seg_ts s)"
  let ?t = "(ikcp_segment_new (seg_len s) (ucast (ucast (seg_frg s) :: u8)) (seg_data s))
      \<lparr>seg_conv := conv, seg_cmd := ucast (ucast (seg_cmd s) :: u8), seg_wnd := ucast (ucast (seg_wnd s) :: u16),
       seg_ts := seg_ts s, seg_sn := seg_sn s, seg_una := seg_una s\<rparr>"
  have frg: "ucast (ucast (seg_frg s) :: u8) = seg_frg s"
  proof -
    have "unat (ucast (ucast (seg_frg s) :: u8) :: u32) = unat (seg_frg s)"
      using assms(2) by (simp add: unsigned_ucast_eq unsigned_take_bit_eq take_bit_nat_eq_self)
    then show ?thesis by (simp only: word_unat_eq_iff)
  qed
  have push: "input_push conv (hdr_of_seg s) (seg_data s) kcp = kcp \<or>
      input_push conv (hdr_of_seg s) (seg_data s) kcp = ?k \<or>
      input_push conv (hdr_of_seg s) (seg_data s) kcp = ikcp_parse_data ?k ?t"
    using assms(1) by (simp add: input_push_def hdr_of_seg_def Let_def)
  have k: "rcv_same kcp ?k" by (rule ack_push_frame)
  have t: "seg_sn ?t = seg_sn s" "seg_ok ?t" "seg_payload ?t = seg_payload s"
    using assms(1) frg by (simp_all add: seg_ok_def seg_payload_def)
  from push that k t show thesis by (metis rcv_same_refl)
qed

text \<open>The receive state after a whole datagram; \<open>q0\<close> is the queue length when it arrived.\<close>

definition rcv_ready :: "(nat \<Rightarrow> payload) \<Rightarrow> nat \<Rightarrow> payload list \<Rightarrow> bytes \<Rightarrow> ikcpcb \<Rightarrow> bool" where
  "rcv_ready f q0 cs out kcp \<longleftrightarrow> rcv_state f kcp cs out \<and> q0 \<le> length (kcp_rcv_queue kcp) \<and>
     length (kcp_rcv_queue kcp) \<le> max q0 (unat (kcp_rcv_wnd kcp)) \<and>
     unat (kcp_rcv_wnd kcp) \<le> 536870912"

lemma rcv_ready_same: "rcv_same kcp kcp' \<Longrightarrow> rcv_ready f q0 cs out kcp \<Longrightarrow> rcv_ready f q0 cs out kcp'"
  using rcv_state_same [of kcp kcp' f] by (auto simp: rcv_ready_def rcv_same_def)

lemma rcv_ready_parse:
  assumes rd: "rcv_ready f q0 cs out kcp" and ar: "sent_as f m t"
    and m: "m < length cs + q0 + 1073741824" "length cs + q0 \<le> m + 1073741824"
  shows "rcv_ready f q0 cs out (ikcp_parse_data kcp t)"
proof -
  let ?n = "length cs + length (kcp_rcv_queue kcp)"
  have st: "rcv_state f kcp cs out" and q: "q0 \<le> length (kcp_rcv_queue kcp)"
    "length (kcp_rcv_queue kcp) \<le> max q0 (unat (kcp_rcv_wnd kcp))" "unat (kcp_rcv_wnd kcp) \<le> 536870912"
    using rd by (simp_all add: rcv_ready_def)
  have "m < ?n + 2147483648" "?n \<le> m + 2147483648"
    using q m by linarith+
  note st' = rcv_state_arrive [OF st ar refl this]
  have "seg_ok t" using ar by (simp add: sent_as_def)
  note room = parse_data_room [OF rcv_state_inv [OF st] this]
  show ?thesis
    using st' room q unfolding rcv_ready_def by (auto simp: max_def split: if_splits)
qed

lemma input_wire_ready:
  assumes rd: "rcv_ready f q0 cs out (in_kcp st)" and ok: "wire_ok conv s"
    and ar: "arrives f (length cs + q0) s"
  shows "rcv_ready f q0 cs out (in_kcp (input_wire s st))"
proof -
  let ?h = "hdr_of_seg s" and ?st = "st\<lparr>in_kcp := input_common (hdr_of_seg s) (in_kcp st)\<rparr>"
  have c: "rcv_ready f q0 cs out (in_kcp ?st)"
    using rcv_ready_same [OF input_common_frame(1) rd] by simp
  have cmd: "ucast (h_cmd ?h) = seg_cmd s"
    using ok by (auto simp: wire_ok_def hdr_of_seg_def)
  have "rcv_ready f q0 cs out (input_push (seg_conv s) ?h (seg_data s) (in_kcp ?st))"
    if push: "seg_cmd s = IKCP_CMD_PUSH"
  proof -
    from ar push obtain m where frg: "unat (seg_frg s) < 256" and m: "sent_as f m s"
      "m < length cs + q0 + 1073741824" "length cs + q0 \<le> m + 1073741824"
      unfolding arrives_def by blast
    have "unat (seg_len s) = length (seg_data s)" using ok by (simp add: wire_ok_def seg_ok_def)
    from this frg show ?thesis
    proof (rule input_push_wire [where conv = "seg_conv s" and kcp = "in_kcp ?st"])
      assume "rcv_same (in_kcp ?st) (input_push (seg_conv s) ?h (seg_data s) (in_kcp ?st))"
      from rcv_ready_same [OF this c] show ?thesis .
    next
      fix t k
      assume eq: "input_push (seg_conv s) ?h (seg_data s) (in_kcp ?st) = ikcp_parse_data k t"
        and k: "rcv_same (in_kcp ?st) k" and t: "seg_sn t = seg_sn s" "seg_ok t" "seg_payload t = seg_payload s"
      have "sent_as f m t" using m(1) t by (simp add: sent_as_def)
      from rcv_ready_parse [OF rcv_ready_same [OF k c] this m(2,3)] eq show ?thesis by simp
    qed
  qed
  moreover have "rcv_ready f q0 cs out (in_kcp (input_ack ?h ?st))"
    by (rule rcv_ready_same [OF input_ack_frame(1) c])
  moreover have "rcv_ready f q0 cs out ((in_kcp ?st)\<lparr>kcp_probe := p\<rparr>)" for p
    by (rule rcv_ready_same [OF _ c]) (simp add: rcv_same_def)
  ultimately show ?thesis
    using c by (simp add: input_wire_def input_segment_cases Let_def cmd)
qed

lemma input_datagram_ready:
  assumes rd: "rcv_ready f (length (kcp_rcv_queue kcp)) cs out kcp"
    and segs: "segs \<noteq> []" "\<forall>s\<in>set segs. wire_ok (kcp_conv kcp) s \<and>
      arrives f (length cs + length (kcp_rcv_queue kcp)) s"
  shows "\<exists>kcp'. ikcp_input kcp (Some (datagram segs)) = Some (0, kcp')
    \<and> rcv_ready f (length (kcp_rcv_queue kcp)) cs out kcp'"
proof -
  let ?q = "length (kcp_rcv_queue kcp)"
  have "rcv_ready f ?q cs out (in_kcp (fold input_wire segs st))"
    if "rcv_ready f ?q cs out (in_kcp st)" for st
    using that segs(2)
  proof (induction segs arbitrary: st)
    case (Cons s segs)
    then show ?case using Cons.IH [OF input_wire_ready [of f ?q cs out st _ s]] by auto
  qed simp
  from this [of "input_start kcp"] rd
  have "rcv_ready f ?q cs out (in_kcp (fold input_wire segs (input_start kcp)))"
    by (simp add: input_start_def)
  then have "rcv_ready f ?q cs out (input_finish (kcp_snd_una kcp) (fold input_wire segs (input_start kcp)))"
    unfolding input_finish_def
    by (auto intro: rcv_ready_same [OF input_cwnd_frame(1)] rcv_ready_same [OF parse_fastack_frame(1)])
  moreover have "ikcp_input kcp (Some (datagram segs))
      = Some (0, input_finish (kcp_snd_una kcp) (fold input_wire segs (input_start kcp)))"
    unfolding datagram_def using segs by (intro input_segments) auto
  ultimately show ?thesis by blast
qed

section \<open>Reads\<close>

lemma recv_fail:
  assumes "rcv_inv kcp" "0 \<le> len" "ikcp_recv kcp len = (r, buf, kcp')" "r < 0"
  shows "kcp' = kcp"
proof (rule ccontr)
  assume "kcp' \<noteq> kcp"
  with ikcp_recv_ok(1) [OF assms(1-3)] have "r = ikcp_peeksize kcp" by blast
  with assms(4) have "ikcp_peeksize kcp < 0" by simp
  with assms(2,3) \<open>kcp' \<noteq> kcp\<close> show False by (auto simp: ikcp_recv_def Let_def split: if_splits)
qed

lemma recv_peek:
  assumes "rcv_inv kcp" "len < 0" "ikcp_recv kcp len = (r, buf, kcp')"
  shows "rcv_same kcp kcp' \<or> rcv_same (ikcp_move_rcv kcp) kcp'"
proof -
  have "\<forall>s\<in>set (kcp_rcv_queue kcp). seg_ok s" using assms(1) unfolding rcv_inv_def by blast
  with assms(2,3) show ?thesis
    by (auto simp: ikcp_recv_def Let_def merge_fragments_spec rcv_same_def split: if_splits)
qed

lemma rcv_state_move:
  assumes "rcv_state f kcp cs out"
  shows "rcv_state f (ikcp_move_rcv kcp) cs out"
proof -
  let ?n = "length cs + length (kcp_rcv_queue kcp)"
  from assms have tr: "rcv_tracks f ?n kcp" and eq: "cs @ map seg_payload (kcp_rcv_queue kcp) = map f [0..<?n]"
    and out: "out = concat (map snd cs)"
    by (auto simp: rcv_state_def Let_def)
  from move_rcv_tracks [OF tr] obtain k where k: "rcv_tracks f (?n + k) (ikcp_move_rcv kcp)"
    and q: "map seg_payload (kcp_rcv_queue (ikcp_move_rcv kcp))
      = map seg_payload (kcp_rcv_queue kcp) @ map f [?n..<?n + k]" by blast
  have "cs @ map seg_payload (kcp_rcv_queue (ikcp_move_rcv kcp)) = map f [0..<?n + k]"
    unfolding q append_assoc [symmetric] eq map_upt_app ..
  moreover have "length cs + length (kcp_rcv_queue (ikcp_move_rcv kcp)) = ?n + k"
    using arg_cong [OF q, of length] by simp
  ultimately show ?thesis using k out by (simp add: rcv_state_def Let_def add.assoc)
qed

text \<open>A successful read returns one whole message, even when the queue holds only part of the next.\<close>

lemma recv_message:
  assumes inv: "rcv_inv kcp" and len: "0 \<le> len" and r: "ikcp_recv kcp len = (r, buf, kcp')" "0 \<le> r"
    and q: "map seg_payload (kcp_rcv_queue kcp) = take k (pieces mss data @ rest)"
    and n: "length (chunks (unat mss) data) < 4294967296"
  shows "buf = data" "msg_segs (kcp_rcv_queue kcp) = length (pieces mss data)"
    "length (pieces mss data) \<le> length (kcp_rcv_queue kcp)"
proof -
  let ?q = "kcp_rcv_queue kcp" and ?ds = "chunks (unat mss) data"
  have lp: "length (pieces mss data) = length ?ds" "0 < length ?ds"
    by (simp_all add: pieces_def fragments_def)
  note ok = ikcp_recv_ok [OF inv len r(1)]
  have peek: "0 \<le> ikcp_peeksize kcp" using ok(1) r(2) by simp
  obtain s q' where sq: "?q = s # q'" using peek by (cases ?q) (auto simp: ikcp_peeksize_def)
  have "k \<noteq> 0" using arg_cong [OF q, of length] sq by auto
  then have "seg_payload s = seg_payload (number_down ?ds ! 0)"
    using arg_cong [OF q, of hd] sq lp(2) by (cases ?ds) (auto simp: pieces_def fragments_def hd_take)
  then have "seg_frg s = of_nat (length ?ds - 1)"
    using number_down_frg [OF lp(2)] by (simp add: seg_payload_def)
  from peeksize_head [OF inv sq this lp(2) n] peek have big: "length ?ds \<le> length ?q"
    by (simp split: if_splits)
  then show "length (pieces mss data) \<le> length ?q" by (simp add: lp)
  have "length ?q \<le> k" using arg_cong [OF q, of length] big by simp
  then have q': "map seg_payload ?q = map seg_payload (number_down ?ds) @ take (k - length ?ds) rest"
    using q big by (simp add: pieces_def fragments_def)
  have msg: "msg_segs ?q = length ?ds"
    by (rule number_down_msg [OF q']) (use lp n in auto)
  then show "msg_segs ?q = length (pieces mss data)" by (simp add: lp)
  show "buf = data"
    using ok(3) r(2) number_down_data(1) [OF q'] by (simp add: msg concat_chunks)
qed

section \<open>Two endpoints and a network\<close>

text \<open>
  \<open>lk_snd\<close> talks to \<open>lk_rcv\<close>.  \<open>lk_net\<close> holds every datagram the sender has ever put on the
  wire, with the number of segments it had stamped by then; a datagram may be delivered any
  number of times or never.  \<open>lk_sent\<close> are the messages \<open>ikcp_send\<close> accepted, \<open>lk_got\<close> the
  messages \<open>ikcp_recv\<close> returned; the two counters only serve to say what a stale datagram is.
\<close>

record link =
  lk_snd :: ikcpcb
  lk_rcv :: ikcpcb
  lk_net :: "(nat \<times> bytes) set"
  lk_sent :: "bytes list"
  lk_got :: "bytes list"
  lk_stamped :: nat
  lk_taken :: nat

definition link_emit :: "link \<Rightarrow> bytes list \<Rightarrow> ikcpcb \<Rightarrow> link" where
  "link_emit l out kcp =
     (let n = lk_stamped l + (length (kcp_snd_queue (lk_snd l)) - length (kcp_snd_queue kcp))
      in l\<lparr>lk_snd := kcp, lk_stamped := n, lk_net := lk_net l \<union> (\<lambda>d. (n, d)) ` set out\<rparr>)"

text \<open>Not stale: within a quarter of the sequence space of the delivery point.\<close>

definition link_near :: "link \<Rightarrow> nat \<Rightarrow> bool" where
  "link_near l k \<longleftrightarrow>
     (let n = lk_taken l + length (kcp_rcv_queue (lk_rcv l)) in n \<le> k + 536870912 \<and> k \<le> n + 536870912)"

inductive kcp_run :: "link \<Rightarrow> bool" where
  create: "ikcp_create ma conv = Some a \<Longrightarrow> ikcp_create mb conv = Some b \<Longrightarrow>
    kcp_run \<lparr>lk_snd = a, lk_rcv = b, lk_net = {}, lk_sent = [], lk_got = [], lk_stamped = 0, lk_taken = 0\<rparr>"
| snd_send: "kcp_run l \<Longrightarrow> \<forall>i. mem i \<Longrightarrow> length data < 2147483648 \<Longrightarrow>
    ikcp_send mem (lk_snd l) data (int (length data)) = (r, a) \<Longrightarrow>
    kcp_run (l\<lparr>lk_snd := a, lk_sent := lk_sent l @ (if r = 0 then [data] else [])\<rparr>)"
| snd_input: "kcp_run l \<Longrightarrow> ikcp_input (lk_snd l) any = Some (r, a) \<Longrightarrow> kcp_run (l\<lparr>lk_snd := a\<rparr>)"
| snd_recv: "kcp_run l \<Longrightarrow> ikcp_recv (lk_snd l) len = (r, buf, a) \<Longrightarrow> kcp_run (l\<lparr>lk_snd := a\<rparr>)"
| snd_update: "kcp_run l \<Longrightarrow> ikcp_update (lk_snd l) now = (out, a) \<Longrightarrow> kcp_run (link_emit l out a)"
| snd_flush: "kcp_run l \<Longrightarrow> ikcp_flush (lk_snd l) = (out, a) \<Longrightarrow> kcp_run (link_emit l out a)"
| snd_tune: "kcp_run l \<Longrightarrow>
    kcp_run (l\<lparr>lk_snd := ikcp_wndsize (ikcp_nodelay (lk_snd l) nodelay interval resend nc) sndwnd rcvwnd\<rparr>)"
| deliver: "kcp_run l \<Longrightarrow> (k, d) \<in> lk_net l \<Longrightarrow> link_near l k \<Longrightarrow>
    ikcp_input (lk_rcv l) (Some d) = Some (r, b) \<Longrightarrow> kcp_run (l\<lparr>lk_rcv := b\<rparr>)"
| rcv_recv: "kcp_run l \<Longrightarrow> 0 \<le> len \<Longrightarrow> ikcp_recv (lk_rcv l) len = (r, buf, b) \<Longrightarrow>
    kcp_run (l\<lparr>lk_rcv := b, lk_got := lk_got l @ (if 0 \<le> r then [buf] else []),
       lk_taken := lk_taken l + (if 0 \<le> r then msg_segs (kcp_rcv_queue (lk_rcv l)) else 0)\<rparr>)"
| rcv_peek: "kcp_run l \<Longrightarrow> len < 0 \<Longrightarrow> ikcp_recv (lk_rcv l) len = (r, buf, b) \<Longrightarrow> kcp_run (l\<lparr>lk_rcv := b\<rparr>)"
| rcv_send: "kcp_run l \<Longrightarrow> len \<le> int (length data) \<Longrightarrow> ikcp_send mem (lk_rcv l) data len = (r, b) \<Longrightarrow> kcp_run (l\<lparr>lk_rcv := b\<rparr>)"
| rcv_update: "kcp_run l \<Longrightarrow> ikcp_update (lk_rcv l) now = (out, b) \<Longrightarrow> kcp_run (l\<lparr>lk_rcv := b\<rparr>)"

text \<open>
  The invariant of a run.  The payloads the receiver holds are compared with every function
  \<open>f\<close> that agrees with the sender's history, so that nothing is said of segments that do not
  exist yet.
\<close>

definition stream_of :: "bytes list \<Rightarrow> payload list" where
  "stream_of ms = concat (map (pieces 1376) ms)"

definition follows :: "payload list \<Rightarrow> (nat \<Rightarrow> payload) \<Rightarrow> bool" where
  "follows all f \<longleftrightarrow> (\<forall>m<length all. f m = all ! m)"

definition snd_side :: "link \<Rightarrow> bool" where
  "snd_side l \<longleftrightarrow> snd_track (stream_of (lk_sent l)) (lk_stamped l) (lk_snd l) \<and>
     kcp_mss (lk_snd l) = 1376 \<and> kcp_stream (lk_snd l) = 0 \<and>
     (\<forall>m\<in>set (lk_sent l). length (chunks 1376 m) < 4294967296)"

definition net_side :: "u32 \<Rightarrow> link \<Rightarrow> bool" where
  "net_side conv l \<longleftrightarrow> (\<forall>(k, d)\<in>lk_net l. k \<le> length (stream_of (lk_sent l)) \<and>
     carries conv (stream_of (lk_sent l)) k d)"

definition rcv_side :: "link \<Rightarrow> bool" where
  "rcv_side l \<longleftrightarrow> snd_inv (lk_rcv l) \<and> unat (kcp_rcv_wnd (lk_rcv l)) \<le> 536870912 \<and>
     (\<forall>f. follows (stream_of (lk_sent l)) f \<longrightarrow>
        (\<exists>cs. length cs = lk_taken l \<and> rcv_state f (lk_rcv l) cs (concat (lk_got l)))) \<and>
     (\<exists>j\<le>length (lk_sent l). lk_got l = take j (lk_sent l) \<and> lk_taken l = length (stream_of (lk_got l)))"

definition link_inv :: "link \<Rightarrow> bool" where
  "link_inv l \<longleftrightarrow> snd_side l \<and> rcv_side l \<and>
     (\<exists>conv. kcp_conv (lk_snd l) = conv \<and> kcp_conv (lk_rcv l) = conv \<and> net_side conv l)"

lemma stream_of_append [simp]: "stream_of (a @ b) = stream_of a @ stream_of b"
  by (simp add: stream_of_def)

lemma stream_of_short [simp]: "stream_of [] = []" "stream_of [m] = pieces 1376 m"
  by (simp_all add: stream_of_def)

lemma follows_append: "follows (all @ new) f \<Longrightarrow> follows all f"
  by (auto simp: follows_def nth_append)

text \<open>The receiver holds nothing beyond the history: its queue is a piece of it.\<close>

lemma rcv_side_queue:
  assumes "rcv_side l"
  shows "map seg_payload (kcp_rcv_queue (lk_rcv l))
      = take (length (kcp_rcv_queue (lk_rcv l))) (drop (lk_taken l) (stream_of (lk_sent l)))"
    and "lk_taken l + length (kcp_rcv_queue (lk_rcv l)) \<le> length (stream_of (lk_sent l))"
proof -
  let ?all = "stream_of (lk_sent l)" and ?q = "kcp_rcv_queue (lk_rcv l)" and ?t = "lk_taken l"
  have ex: "\<exists>cs. length cs = ?t \<and> cs @ map seg_payload ?q = map f [0..<?t + length ?q]"
    if "follows ?all f" for f
    using assms that by (fastforce simp: rcv_side_def rcv_state_def Let_def)
  have q: "map seg_payload ?q = map f [?t..<?t + length ?q]" if fol: "follows ?all f" for f
  proof -
    obtain cs where cs: "length cs = ?t" "cs @ map seg_payload ?q = map f [0..<?t + length ?q]"
      using ex [OF fol] by blast
    from arg_cong [OF cs(2), of "drop ?t"] cs(1) show ?thesis by (simp add: drop_map)
  qed
  have t: "?t \<le> length ?all"
  proof -
    obtain j where j: "lk_got l = take j (lk_sent l)" "?t = length (stream_of (lk_got l))"
      using assms by (auto simp: rcv_side_def)
    have "stream_of (lk_sent l) = stream_of (take j (lk_sent l)) @ stream_of (drop j (lk_sent l))"
      by (simp flip: stream_of_append)
    with j show ?thesis by simp
  qed
  let ?f = "\<lambda>x m. if m < length ?all then ?all ! m else x :: payload"
  have fol: "follows ?all (?f x)" for x by (simp add: follows_def)
  show le: "?t + length ?q \<le> length ?all"
  proof (rule ccontr)
    assume "\<not> ?t + length ?q \<le> length ?all"
    with t have i: "length ?all - ?t < length ?q" by linarith
    have "map seg_payload ?q ! (length ?all - ?t) = x" for x
      using q [OF fol [of x]] i t by simp
    from this [of "(0, [])"] this [of "(1, [])"] show False by simp
  qed
  show "map seg_payload ?q = take (length ?q) (drop ?t ?all)"
    unfolding q [OF fol [of "(0, [])"]]
    using le by (intro nth_equalityI) auto
qed

text \<open>How the transitions act on the two sides.\<close>

lemma snd_side_upd:
  assumes "snd_side l" "snd_track (stream_of (lk_sent l)) (lk_stamped l) a"
    and "kcp_mss a = kcp_mss (lk_snd l)" "kcp_stream a = kcp_stream (lk_snd l)"
  shows "snd_side (l\<lparr>lk_snd := a\<rparr>)"
  using assms by (simp add: snd_side_def)

lemma rcv_side_snd [simp]: "rcv_side (l\<lparr>lk_snd := a\<rparr>) = rcv_side l"
  by (simp add: rcv_side_def)

lemma snd_side_rcv [simp]: "snd_side (l\<lparr>lk_rcv := b\<rparr>) = snd_side l"
  by (simp add: snd_side_def)

lemma net_side_upd [simp]: "net_side conv (l\<lparr>lk_snd := a\<rparr>) = net_side conv l"
  "net_side conv (l\<lparr>lk_rcv := b\<rparr>) = net_side conv l"
  by (simp_all add: net_side_def)

lemma link_inv_snd:
  assumes inv: "link_inv l" and tr: "snd_track (stream_of (lk_sent l)) (lk_stamped l) a"
    and same: "kcp_mss a = kcp_mss (lk_snd l)" "kcp_stream a = kcp_stream (lk_snd l)"
      "kcp_conv a = kcp_conv (lk_snd l)"
  shows "link_inv (l\<lparr>lk_snd := a\<rparr>)"
  using inv snd_side_upd [OF _ tr same(1,2)] same(3) by (auto simp: link_inv_def)

lemma link_inv_track: "link_inv l \<Longrightarrow> snd_track (stream_of (lk_sent l)) (lk_stamped l) (lk_snd l)"
  by (simp add: link_inv_def snd_side_def)

lemma link_inv_rcv:
  assumes inv: "link_inv l" and b: "snd_inv b" "unat (kcp_rcv_wnd b) \<le> 536870912"
      "kcp_conv b = kcp_conv (lk_rcv l)"
    and st: "\<And>f cs. follows (stream_of (lk_sent l)) f \<Longrightarrow> length cs = lk_taken l \<Longrightarrow>
      rcv_state f (lk_rcv l) cs (concat (lk_got l)) \<Longrightarrow> rcv_state f b cs (concat (lk_got l))"
  shows "link_inv (l\<lparr>lk_rcv := b\<rparr>)"
proof -
  have "rcv_side (l\<lparr>lk_rcv := b\<rparr>)"
    using inv b st unfolding link_inv_def rcv_side_def by (simp, metis)
  with inv b(3) show ?thesis by (auto simp: link_inv_def)
qed

lemma link_inv_rcv_same:
  assumes inv: "link_inv l" and b: "snd_inv b" "rcv_same (lk_rcv l) b" "kcp_conv b = kcp_conv (lk_rcv l)"
  shows "link_inv (l\<lparr>lk_rcv := b\<rparr>)"
proof (rule link_inv_rcv [OF inv b(1) _ b(3)])
  show "unat (kcp_rcv_wnd b) \<le> 536870912"
    using inv b(2) by (simp add: link_inv_def rcv_side_def rcv_same_def)
qed (rule rcv_state_same [OF b(2)])

section \<open>Frames of the remaining operations\<close>

definition queue_upd :: "ikcpcb \<Rightarrow> ikcpcb \<Rightarrow> bool" where
  "queue_upd kcp kcp' \<longleftrightarrow> (\<exists>q n. kcp' = kcp\<lparr>kcp_snd_queue := q, kcp_nsnd_que := n\<rparr>)"

lemma queue_upd_intros [simp]:
  "queue_upd kcp kcp" "queue_upd kcp (kcp\<lparr>kcp_snd_queue := q, kcp_nsnd_que := n\<rparr>)"
  "queue_upd kcp (kcp\<lparr>kcp_snd_queue := q\<rparr>)"
proof -
  have eq: "kcp = kcp\<lparr>kcp_snd_queue := kcp_snd_queue kcp, kcp_nsnd_que := kcp_nsnd_que kcp\<rparr>"
    "kcp\<lparr>kcp_snd_queue := q\<rparr> = kcp\<lparr>kcp_snd_queue := q, kcp_nsnd_que := kcp_nsnd_que kcp\<rparr>"
    by simp_all
  show "queue_upd kcp kcp" unfolding queue_upd_def using eq(1) by blast
  show "queue_upd kcp (kcp\<lparr>kcp_snd_queue := q, kcp_nsnd_que := n\<rparr>)" unfolding queue_upd_def by blast
  show "queue_upd kcp (kcp\<lparr>kcp_snd_queue := q\<rparr>)" unfolding queue_upd_def using eq(2) by blast
qed

lemma queue_upd_trans: "queue_upd a b \<Longrightarrow> queue_upd b c \<Longrightarrow> queue_upd a c"
  unfolding queue_upd_def by (clarsimp, blast)

lemma queue_upd_frame:
  assumes "queue_upd kcp kcp'"
  shows "rcv_same kcp kcp'" "cfg_same kcp kcp'" "ack_same kcp kcp'"
  using assms by (auto simp: queue_upd_def same_defs)

lemma send_fragments_upd: "queue_upd kcp (snd (send_fragments mem a n kcp buffer len))"
proof (induction n arbitrary: a kcp buffer len)
  case (Suc n)
  note step = queue_upd_trans [OF queue_upd_intros(2) Suc.IH]
  show ?case by (simp add: Let_def step)
qed simp

lemma send_upd: "queue_upd kcp (snd (ikcp_send mem kcp buffer len))"
proof -
  have rest: "queue_upd kcp (snd (send_rest mem a kcp b n))" for a kcp b n
    by (auto simp: send_rest_def Let_def send_fragments_upd)
  have "queue_upd kcp (send_extend old kcp b e)" for old b e
    by (simp add: send_extend_def Let_def)
  then show ?thesis
    using rest queue_upd_trans [OF _ rest] by (auto simp: ikcp_send_def Let_def)
qed

lemma recv_frame:
  assumes "ikcp_recv kcp len = (r, buf, kcp')"
  shows "snd_same kcp kcp'" "cfg_same kcp kcp'" "kcp_rmt_wnd kcp' = kcp_rmt_wnd kcp"
proof -
  obtain b m t rest where mf: "merge_fragments (kcp_rcv_queue kcp) [] 0 0 = (b, m, t, rest)"
    by (metis prod_cases4)
  let ?k = "kcp\<lparr>kcp_rcv_queue := rest, kcp_nrcv_que := kcp_nrcv_que kcp - t\<rparr>"
  have "kcp' = kcp \<or> (\<exists>p k. (k = kcp \<or> k = ?k) \<and> (kcp' = ikcp_move_rcv k \<or>
      kcp' = (ikcp_move_rcv k)\<lparr>kcp_probe := p\<rparr>))"
    using assms by (auto simp: ikcp_recv_def Let_def mf split: if_splits)
  then have "snd_same kcp kcp' \<and> cfg_same kcp kcp' \<and> kcp_rmt_wnd kcp' = kcp_rmt_wnd kcp"
    using move_rcv_frame [of kcp] move_rcv_frame [of ?k] by (auto simp: same_defs)
  then show "snd_same kcp kcp'" "cfg_same kcp kcp'" "kcp_rmt_wnd kcp' = kcp_rmt_wnd kcp" by blast+
qed

text \<open>\<open>ikcp_update\<close> sets the clock and flushes, or sets the clock.\<close>

definition clock_upd :: "ikcpcb \<Rightarrow> ikcpcb \<Rightarrow> bool" where
  "clock_upd kcp k \<longleftrightarrow> (\<exists>c u t. k = kcp\<lparr>kcp_current := c, kcp_updated := u, kcp_ts_flush := t\<rparr>)"

lemma clock_upd_step:
  assumes "clock_upd kcp k"
  shows "clock_upd kcp (k\<lparr>kcp_updated := u\<rparr>)" "clock_upd kcp (k\<lparr>kcp_ts_flush := t\<rparr>)"
proof -
  from assms obtain c u' t' where k: "k = kcp\<lparr>kcp_current := c, kcp_updated := u', kcp_ts_flush := t'\<rparr>"
    by (auto simp: clock_upd_def)
  have "k\<lparr>kcp_updated := u\<rparr> = kcp\<lparr>kcp_current := c, kcp_updated := u, kcp_ts_flush := t'\<rparr>"
    "k\<lparr>kcp_ts_flush := t\<rparr> = kcp\<lparr>kcp_current := c, kcp_updated := u', kcp_ts_flush := t\<rparr>"
    by (simp_all add: k)
  then show "clock_upd kcp (k\<lparr>kcp_updated := u\<rparr>)" "clock_upd kcp (k\<lparr>kcp_ts_flush := t\<rparr>)"
    unfolding clock_upd_def by blast+
qed

lemma clock_upd_start: "clock_upd kcp (kcp\<lparr>kcp_current := c\<rparr>)"
proof -
  have "kcp\<lparr>kcp_current := c\<rparr>
      = kcp\<lparr>kcp_current := c, kcp_updated := kcp_updated kcp, kcp_ts_flush := kcp_ts_flush kcp\<rparr>" by simp
  then show ?thesis unfolding clock_upd_def by blast
qed

lemma clock_upd_frame:
  assumes "clock_upd kcp k"
  shows "rcv_same kcp k" "snd_same kcp k" "cfg_same kcp k" "ack_same kcp k" "kcp_rmt_wnd k = kcp_rmt_wnd kcp"
  using assms by (auto simp: clock_upd_def same_defs)

lemma update_cases:
  assumes "ikcp_update kcp now = (out, kcp')"
  obtains k where "clock_upd kcp k" "(out, kcp') = ([], k) \<or> (out, kcp') = ikcp_flush k"
proof -
  define k1 where "k1 = kcp\<lparr>kcp_current := now\<rparr>"
  define k2 where "k2 = (if kcp_updated k1 = 0 then k1\<lparr>kcp_updated := 1, kcp_ts_flush := kcp_current k1\<rparr> else k1)"
  define slap where "slap = itimediff (kcp_current k2) (kcp_ts_flush k2)"
  define k3 where "k3 = (if slap \<ge> 10000 \<or> slap < -10000 then k2\<lparr>kcp_ts_flush := kcp_current k2\<rparr> else k2)"
  define slap3 where "slap3 = (if slap \<ge> 10000 \<or> slap < -10000 then 0 else slap)"
  define k4 where "k4 = k3\<lparr>kcp_ts_flush := kcp_ts_flush k3 + kcp_interval k3\<rparr>"
  define k5 where "k5 = (if itimediff (kcp_current k4) (kcp_ts_flush k4) \<ge> 0
       then k4\<lparr>kcp_ts_flush := kcp_current k4 + kcp_interval k4\<rparr> else k4)"
  have k1: "clock_upd kcp k1" unfolding k1_def by (rule clock_upd_start)
  have k2: "clock_upd kcp k2" unfolding k2_def using k1 clock_upd_step by simp
  have k3: "clock_upd kcp k3" unfolding k3_def using k2 clock_upd_step by simp
  have k5: "clock_upd kcp k5" unfolding k5_def k4_def using k3 clock_upd_step by simp
  have "(out, kcp') = (if slap3 \<ge> 0 then ikcp_flush k5 else ([], k3))"
    unfolding assms [symmetric] ikcp_update_def Let_def k1_def [symmetric] k2_def [symmetric]
      slap_def [symmetric]
    by (auto simp: k3_def slap3_def k4_def k5_def)
  with that k3 k5 show thesis by (cases "slap3 \<ge> 0") auto
qed

section \<open>The invariant holds in every run\<close>

lemma link_inv_emit:
  assumes inv: "link_inv l" and r: "ikcp_flush k = (out, a)"
    and k: "snd_same (lk_snd l) k" "cfg_same (lk_snd l) k" "kcp_rmt_wnd k = kcp_rmt_wnd (lk_snd l)"
  shows "link_inv (link_emit l out a)"
proof -
  let ?all = "stream_of (lk_sent l)"
  have tr: "snd_track ?all (lk_stamped l) k"
    by (rule snd_track_same [OF link_inv_track [OF inv] k])
  from flush_track [OF this r] obtain n where n: "length (kcp_snd_queue k) = n + length (kcp_snd_queue a)"
    and tra: "snd_track ?all (lk_stamped l + n) a"
    and cr: "\<forall>d\<in>set out. carries (kcp_conv k) ?all (lk_stamped l + n) d"
    by blast
  have cfg: "cfg_same (lk_snd l) a"
    using flush_frame(2) [OF snd_track_inv [OF tr] r] k(2) by (rule same_trans(3) [rotated])
  have n': "length (kcp_snd_queue (lk_snd l)) - length (kcp_snd_queue a) = n"
    using n k(1) by (simp add: snd_same_def)
  have le: "lk_stamped l + n \<le> length ?all" using tra unfolding snd_track_def by blast
  have conv: "kcp_conv k = kcp_conv (lk_snd l)" using k(2) by (simp add: cfg_same_def)
  show ?thesis
    using inv tra cr cfg le conv
    unfolding link_inv_def snd_side_def rcv_side_def net_side_def link_emit_def Let_def n'
    by (auto simp: cfg_same_def)
qed

lemma link_inv_send:
  assumes inv: "link_inv l" and mem: "\<forall>i. mem i" "length data < 2147483648"
    and r: "ikcp_send mem (lk_snd l) data (int (length data)) = (r, a)"
  shows "link_inv (l\<lparr>lk_snd := a, lk_sent := lk_sent l @ (if r = 0 then [data] else [])\<rparr>)"
proof -
  have side: "snd_side l" using inv by (simp add: link_inv_def)
  then have mss: "kcp_mss (lk_snd l) = 1376" "kcp_stream (lk_snd l) = 0" by (simp_all add: snd_side_def)
  have fr: "cfg_same (lk_snd l) a"
    using queue_upd_frame(2) [OF send_upd] r by (metis snd_conv)
  have len: "length (chunks 1376 data) < 4294967296"
    using mem(2) by (subst length_chunks) auto
  note tr = send_track [OF link_inv_track [OF inv] mss(2) mem r, unfolded mss]
  have all: "stream_of (lk_sent l @ (if r = 0 then [data] else []))
      = (if r = 0 then stream_of (lk_sent l) @ pieces 1376 data else stream_of (lk_sent l))"
    by (simp add: stream_of_def)
  have s: "snd_side (l\<lparr>lk_snd := a, lk_sent := lk_sent l @ (if r = 0 then [data] else [])\<rparr>)"
    using side tr fr len unfolding snd_side_def by (auto simp: all cfg_same_def)
  have n: "net_side conv (l\<lparr>lk_snd := a, lk_sent := lk_sent l @ (if r = 0 then [data] else [])\<rparr>)"
    if "net_side conv l" for conv
    using that carries_append unfolding net_side_def by (fastforce simp: all)
  have q: "rcv_side (l\<lparr>lk_snd := a, lk_sent := lk_sent l @ (if r = 0 then [data] else [])\<rparr>)"
  proof -
    have old: "rcv_side l" using inv by (simp add: link_inv_def)
    then obtain j where j: "j \<le> length (lk_sent l)" "lk_got l = take j (lk_sent l)"
      "lk_taken l = length (stream_of (lk_got l))" by (auto simp: rcv_side_def)
    from old have st: "\<exists>cs. length cs = lk_taken l \<and> rcv_state f (lk_rcv l) cs (concat (lk_got l))"
      if "follows (stream_of (lk_sent l @ (if r = 0 then [data] else []))) f" for f
      using that follows_append unfolding rcv_side_def stream_of_append by blast
    show ?thesis
      using old st j unfolding rcv_side_def
      by (intro conjI exI [of _ j]) (auto simp: rcv_side_def)
  qed
  show ?thesis
    using inv s n q fr by (auto simp: link_inv_def cfg_same_def)
qed

lemma carries_arrives:
  assumes "carries conv (stream_of (lk_sent l)) k d" "follows (stream_of (lk_sent l)) f"
    and "link_near l k"
  obtains segs where "segs \<noteq> []" "d = datagram segs"
    "\<forall>s\<in>set segs. wire_ok conv s \<and> arrives f (lk_taken l + length (kcp_rcv_queue (lk_rcv l))) s"
proof -
  let ?n = "lk_taken l + length (kcp_rcv_queue (lk_rcv l))"
  from assms(1) obtain segs where segs: "segs \<noteq> []" "d = datagram segs"
    and ok: "\<forall>s\<in>set segs. wire_ok conv s \<and>
      (seg_cmd s = IKCP_CMD_PUSH \<longrightarrow> unat (seg_frg s) < 256 \<and> numbered (stream_of (lk_sent l)) k s)"
    unfolding carries_def by blast
  have "arrives f ?n s" if s: "s \<in> set segs" for s
    unfolding arrives_def
  proof
    assume "seg_cmd s = IKCP_CMD_PUSH"
    with ok s obtain m where m: "unat (seg_frg s) < 256" "m < k" "k \<le> m + 65536"
      "m < length (stream_of (lk_sent l))" "seg_sn s = of_nat m" "seg_payload s = stream_of (lk_sent l) ! m"
      unfolding numbered_def by blast
    have "seg_ok s" using ok s by (simp add: wire_ok_def)
    then have "sent_as f m s" using m assms(2) by (simp add: sent_as_def follows_def)
    moreover have "m < ?n + 1073741824" "?n \<le> m + 1073741824"
      using assms(3) m(2,3) unfolding link_near_def Let_def by linarith+
    ultimately show "unat (seg_frg s) < 256 \<and>
        (\<exists>m. sent_as f m s \<and> m < ?n + 1073741824 \<and> ?n \<le> m + 1073741824)"
      using m(1) by blast
  qed
  with segs ok that show thesis by blast
qed

lemma link_inv_deliver:
  assumes inv: "link_inv l" and d: "(k, d) \<in> lk_net l" "link_near l k"
    and r: "ikcp_input (lk_rcv l) (Some d) = Some (r, b)"
  shows "link_inv (l\<lparr>lk_rcv := b\<rparr>)"
proof -
  have side: "rcv_side l" and net: "net_side (kcp_conv (lk_rcv l)) l"
    using inv by (auto simp: link_inv_def)
  have cr: "carries (kcp_conv (lk_rcv l)) (stream_of (lk_sent l)) k d"
    using net d(1) by (auto simp: net_side_def)
  have sinv: "snd_inv b" using input_snd.kept_input [OF r] side by (simp add: rcv_side_def)
  have cfg: "cfg_same (lk_rcv l) b" by (rule input_cfg.kept_input [OF r]) simp
  show ?thesis
  proof (rule link_inv_rcv [OF inv sinv])
    show "unat (kcp_rcv_wnd b) \<le> 536870912" "kcp_conv b = kcp_conv (lk_rcv l)"
      using cfg side by (simp_all add: cfg_same_def rcv_side_def)
  next
    fix f cs
    assume f: "follows (stream_of (lk_sent l)) f" and cs: "length cs = lk_taken l"
      and st: "rcv_state f (lk_rcv l) cs (concat (lk_got l))"
    from cr f d(2) obtain segs where segs: "segs \<noteq> []" "d = datagram segs"
      "\<forall>s\<in>set segs. wire_ok (kcp_conv (lk_rcv l)) s
        \<and> arrives f (lk_taken l + length (kcp_rcv_queue (lk_rcv l))) s"
      by (rule carries_arrives)
    have "rcv_ready f (length (kcp_rcv_queue (lk_rcv l))) cs (concat (lk_got l)) (lk_rcv l)"
      using st side by (simp add: rcv_ready_def rcv_side_def)
    from input_datagram_ready [OF this segs(1)] segs(2,3) cs r
    show "rcv_state f b cs (concat (lk_got l))" by (auto simp: rcv_ready_def)
  qed
qed

lemma rcv_side_inv:
  assumes "rcv_side l"
  shows "rcv_inv (lk_rcv l)"
proof -
  obtain f where "follows (stream_of (lk_sent l)) f"
    using that by (force simp: follows_def)
  with assms rcv_state_inv show ?thesis unfolding rcv_side_def by blast
qed

text \<open>The message at the front of the queue is the next one that has been sent.\<close>

lemma rcv_side_message:
  assumes inv: "link_inv l" and len: "0 \<le> len" and r: "ikcp_recv (lk_rcv l) len = (r, buf, b)" "0 \<le> r"
  shows "\<exists>j<length (lk_sent l). lk_got l = take j (lk_sent l) \<and> buf = lk_sent l ! j \<and>
    lk_taken l + msg_segs (kcp_rcv_queue (lk_rcv l)) = length (stream_of (lk_got l @ [buf]))"
proof -
  let ?q = "kcp_rcv_queue (lk_rcv l)"
  have side: "rcv_side l" using inv by (simp add: link_inv_def)
  then obtain j where j: "j \<le> length (lk_sent l)" "lk_got l = take j (lk_sent l)"
    "lk_taken l = length (stream_of (lk_got l))" by (auto simp: rcv_side_def)
  have "stream_of (lk_sent l) = stream_of (lk_got l) @ stream_of (drop j (lk_sent l))"
    using j(2) by (simp flip: stream_of_append)
  then have q: "map seg_payload ?q = take (length ?q) (stream_of (drop j (lk_sent l)))"
    using rcv_side_queue(1) [OF side] j(3) by simp
  have "?q \<noteq> []" using r by (auto simp: ikcp_recv_def split: if_splits)
  with q have jl: "j < length (lk_sent l)" by (cases "j < length (lk_sent l)") auto
  then have "map seg_payload ?q = take (length ?q) (pieces 1376 (lk_sent l ! j) @ stream_of (drop (Suc j) (lk_sent l)))"
    using q by (simp add: stream_of_def flip: Cons_nth_drop_Suc [OF jl])
  moreover have "length (chunks (unat (1376 :: u32)) (lk_sent l ! j)) < 4294967296"
    using inv jl by (simp add: link_inv_def snd_side_def)
  ultimately have "buf = lk_sent l ! j" "msg_segs ?q = length (pieces 1376 (lk_sent l ! j))"
    by (rule recv_message [OF rcv_side_inv [OF side] len r])+
  with j jl show ?thesis by (intro exI [of _ j]) simp
qed

lemma link_inv_recv:
  assumes inv: "link_inv l" and len: "0 \<le> len" and r: "ikcp_recv (lk_rcv l) len = (r, buf, b)"
  shows "link_inv (l\<lparr>lk_rcv := b, lk_got := lk_got l @ (if 0 \<le> r then [buf] else []),
       lk_taken := lk_taken l + (if 0 \<le> r then msg_segs (kcp_rcv_queue (lk_rcv l)) else 0)\<rparr>)"
proof (cases "0 \<le> r")
  case False
  have "rcv_inv (lk_rcv l)" using inv by (simp add: link_inv_def rcv_side_inv)
  then have "b = lk_rcv l" using recv_fail [OF _ len r] False by simp
  with False inv show ?thesis by simp
next
  case True
  let ?q = "kcp_rcv_queue (lk_rcv l)" and ?all = "stream_of (lk_sent l)"
  have side: "rcv_side l" using inv by (simp add: link_inv_def)
  obtain j where j: "j < length (lk_sent l)" "lk_got l = take j (lk_sent l)" "buf = lk_sent l ! j"
    "lk_taken l + msg_segs ?q = length (stream_of (lk_got l @ [buf]))"
    using rcv_side_message [OF inv len r True] by blast
  have fr: "snd_same (lk_rcv l) b" "cfg_same (lk_rcv l) b" "kcp_rmt_wnd b = kcp_rmt_wnd (lk_rcv l)"
    using recv_frame [OF r] by blast+
  have sinv: "snd_inv b" using snd_inv_same [OF fr] side by (simp add: rcv_side_def)
  let ?l = "l\<lparr>lk_rcv := b, lk_got := lk_got l @ [buf], lk_taken := lk_taken l + msg_segs ?q\<rparr>"
  have "\<exists>cs. length cs = lk_taken l + msg_segs ?q \<and> rcv_state f b cs (concat (lk_got l @ [buf]))"
    if fol: "follows ?all f" for f
  proof -
    obtain cs where cs: "length cs = lk_taken l" "rcv_state f (lk_rcv l) cs (concat (lk_got l))"
      using side fol unfolding rcv_side_def by blast
    from rcv_state_receive [OF cs(2) len r True] cs(1) show ?thesis
      by (intro exI [of _ "cs @ map seg_payload (take (msg_segs ?q) ?q)"])
        (simp add: min_absorb2 msg_segs_le)
  qed
  moreover have "lk_got l @ [buf] = take (Suc j) (lk_sent l)"
    using j(1-3) by (simp add: take_Suc_conv_app_nth)
  ultimately have "rcv_side ?l"
    using side sinv fr(2) j(1,4) unfolding rcv_side_def by (auto simp: cfg_same_def intro!: exI [of _ "Suc j"])
  moreover have "snd_side ?l" "net_side conv ?l = net_side conv l" for conv
    using inv by (simp_all add: link_inv_def snd_side_def net_side_def)
  ultimately show ?thesis
    using inv True fr(2) by (auto simp: link_inv_def cfg_same_def)
qed

lemma link_inv_create:
  assumes "ikcp_create ma conv = Some a" "ikcp_create mb conv = Some b"
  shows "link_inv \<lparr>lk_snd = a, lk_rcv = b, lk_net = {}, lk_sent = [], lk_got = [], lk_stamped = 0, lk_taken = 0\<rparr>"
proof -
  have a: "kcp_mss a = 1376" "kcp_stream a = 0" "kcp_conv a = conv" "kcp_snd_nxt a = 0"
    "kcp_snd_queue a = []" "kcp_snd_buf a = []"
    using assms(1) by (auto simp: ikcp_create_def split: if_splits)
  have b: "kcp_conv b = conv" "kcp_rcv_wnd b = 128"
    using assms(2) by (auto simp: ikcp_create_def split: if_splits)
  show ?thesis
    using a b create_snd_inv [OF assms(1)] create_snd_inv [OF assms(2)] rcv_state_create [OF assms(2)]
    by (simp add: link_inv_def snd_side_def snd_track_def rcv_side_def net_side_def)
qed

lemma tune_frame:
  assumes "snd_track all N kcp"
  shows "snd_track all N (ikcp_wndsize (ikcp_nodelay kcp nodelay interval resend nc) sndwnd rcvwnd)"
    and "kcp_mss (ikcp_wndsize (ikcp_nodelay kcp nodelay interval resend nc) sndwnd rcvwnd) = kcp_mss kcp"
    and "kcp_stream (ikcp_wndsize (ikcp_nodelay kcp nodelay interval resend nc) sndwnd rcvwnd) = kcp_stream kcp"
    and "kcp_conv (ikcp_wndsize (ikcp_nodelay kcp nodelay interval resend nc) sndwnd rcvwnd) = kcp_conv kcp"
proof -
  let ?k = "ikcp_wndsize (ikcp_nodelay kcp nodelay interval resend nc) sndwnd rcvwnd"
  have fr: "snd_same kcp ?k" "kcp_mss ?k = kcp_mss kcp" "kcp_mtu ?k = kcp_mtu kcp"
    "kcp_conv ?k = kcp_conv kcp" "kcp_rmt_wnd ?k = kcp_rmt_wnd kcp" "kcp_stream ?k = kcp_stream kcp"
    by (simp_all add: snd_same_def ikcp_wndsize_def ikcp_nodelay_def Let_def)
  then have "snd_inv ?k = snd_inv kcp"
    unfolding snd_inv_def snd_same_def by (simp cong: list.case_cong)
  with fr assms show "snd_track all N ?k" "kcp_mss ?k = kcp_mss kcp" "kcp_stream ?k = kcp_stream kcp"
    "kcp_conv ?k = kcp_conv kcp"
    by (simp_all add: snd_track_def snd_same_def)
qed

text \<open>Each kind of step, on the side that sends and on the side that receives.\<close>

lemma link_inv_snd_input:
  assumes inv: "link_inv l" and r: "ikcp_input (lk_snd l) any = Some (r, a)"
  shows "link_inv (l\<lparr>lk_snd := a\<rparr>)"
proof -
  have "cfg_same (lk_snd l) a" by (rule input_cfg.kept_input [OF r]) simp
  then show ?thesis
    using input_track.kept_input [OF r link_inv_track [OF inv]]
    by (intro link_inv_snd [OF inv]) (simp_all add: cfg_same_def)
qed

lemma link_inv_snd_recv:
  assumes inv: "link_inv l" and r: "ikcp_recv (lk_snd l) len = (r, buf, a)"
  shows "link_inv (l\<lparr>lk_snd := a\<rparr>)"
  using snd_track_same [OF link_inv_track [OF inv] recv_frame [OF r]] recv_frame(2) [OF r]
  by (intro link_inv_snd [OF inv]) (simp_all add: cfg_same_def)

lemma link_inv_snd_update:
  assumes inv: "link_inv l" and upd: "ikcp_update (lk_snd l) now = (out, a)"
  shows "link_inv (link_emit l out a)"
proof -
  obtain k where k: "clock_upd (lk_snd l) k" and res: "(out, a) = ([], k) \<or> (out, a) = ikcp_flush k"
    by (rule update_cases [OF upd])
  note fr = clock_upd_frame [OF k]
  from res show ?thesis
  proof
    assume "(out, a) = ikcp_flush k"
    with link_inv_emit [OF inv _ fr(2,3,5)] show ?thesis by simp
  next
    assume "(out, a) = ([], k)"
    moreover have "link_emit l [] k = l\<lparr>lk_snd := k\<rparr>"
      using fr(2) by (simp add: link_emit_def snd_same_def)
    moreover have "link_inv (l\<lparr>lk_snd := k\<rparr>)"
      using snd_track_same [OF link_inv_track [OF inv] fr(2,3,5)] fr(3)
      by (intro link_inv_snd [OF inv]) (simp_all add: cfg_same_def)
    ultimately show ?thesis by simp
  qed
qed

lemma link_inv_rcv_peek:
  assumes inv: "link_inv l" and len: "len < 0" and r: "ikcp_recv (lk_rcv l) len = (r, buf, b)"
  shows "link_inv (l\<lparr>lk_rcv := b\<rparr>)"
proof (rule link_inv_rcv [OF inv])
  have side: "rcv_side l" using inv by (simp add: link_inv_def)
  note fr = recv_frame [OF r]
  show "snd_inv b" using snd_inv_same [OF fr] side by (simp add: rcv_side_def)
  show "unat (kcp_rcv_wnd b) \<le> 536870912" "kcp_conv b = kcp_conv (lk_rcv l)"
    using fr(2) side by (simp_all add: cfg_same_def rcv_side_def)
  fix f cs assume "rcv_state f (lk_rcv l) cs (concat (lk_got l))"
  then show "rcv_state f b cs (concat (lk_got l))"
    using recv_peek [OF rcv_state_inv len r] rcv_state_same rcv_state_move by blast
qed

lemma link_inv_rcv_send:
  assumes inv: "link_inv l" and len: "len \<le> int (length data)" and r: "ikcp_send mem (lk_rcv l) data len = (r, b)"
  shows "link_inv (l\<lparr>lk_rcv := b\<rparr>)"
proof -
  have side: "rcv_side l" using inv by (simp add: link_inv_def)
  have up: "queue_upd (lk_rcv l) b" using send_upd r by (metis snd_conv)
  have "snd_inv b" using send_snd_inv [of "lk_rcv l" len data mem] side len r by (simp add: rcv_side_def)
  with queue_upd_frame [OF up] show ?thesis
    by (intro link_inv_rcv_same [OF inv]) (simp_all add: cfg_same_def)
qed

lemma link_inv_rcv_update:
  assumes inv: "link_inv l" and upd: "ikcp_update (lk_rcv l) now = (out, b)"
  shows "link_inv (l\<lparr>lk_rcv := b\<rparr>)"
proof -
  have side: "rcv_side l" using inv by (simp add: link_inv_def)
  obtain k where k: "clock_upd (lk_rcv l) k" and res: "(out, b) = ([], k) \<or> (out, b) = ikcp_flush k"
    by (rule update_cases [OF upd])
  note fr = clock_upd_frame [OF k]
  have kinv: "snd_inv k" using snd_inv_same [OF fr(2,3,5)] side by (simp add: rcv_side_def)
  from res show ?thesis
  proof
    assume f: "(out, b) = ikcp_flush k"
    note ff = flush_frame [OF kinv f [symmetric]]
    show ?thesis
      using ff(2) fr(3) flush_snd_inv [OF kinv f [symmetric]] rcv_same_trans [OF fr(1) ff(1)]
      by (intro link_inv_rcv_same [OF inv]) (simp_all add: cfg_same_def)
  next
    assume "(out, b) = ([], k)"
    then show ?thesis
      using kinv fr by (intro link_inv_rcv_same [OF inv]) (simp_all add: cfg_same_def)
  qed
qed

lemma kcp_run_inv: "kcp_run l \<Longrightarrow> link_inv l"
proof (induction rule: kcp_run.induct)
  case (snd_flush l out a)
  then show ?case by (intro link_inv_emit [of l "lk_snd l"]) simp_all
next
  case (snd_tune l nodelay interval resend nc sndwnd rcvwnd)
  then show ?case using tune_frame [OF link_inv_track] by (intro link_inv_snd)
qed (blast intro: link_inv_create link_inv_send link_inv_snd_input link_inv_snd_recv link_inv_snd_update
    link_inv_deliver link_inv_recv link_inv_rcv_peek link_inv_rcv_send link_inv_rcv_update)+


end
