(* ===== verification/Kcp_Examples.thy ===== *)
theory Kcp_Examples
  imports Kcp_System
begin

text \<open>
  A concrete session: one endpoint sends the bytes 1, 2, 3 and flushes twice (the congestion
  window only opens with the first flush), the other takes the datagram in.  The KCP
  properties are instantiated on its states.
\<close>

definition msg0 :: IKCPSEG where
  "msg0 = \<lparr>seg_conv = 0, seg_cmd = 0, seg_frg = 0, seg_wnd = 0, seg_ts = 0, seg_sn = 0, seg_una = 0,
     seg_len = 3, seg_resendts = 0, seg_rto = 0, seg_fastack = 0, seg_xmit = 0, seg_data = [1, 2, 3]\<rparr>"

definition peer0 :: ikcpcb where
  "peer0 =
     \<lparr>kcp_conv = 7, kcp_mtu = 1400, kcp_mss = 1376, kcp_state = 0, kcp_snd_una = 0, kcp_snd_nxt = 0,
      kcp_rcv_nxt = 0, kcp_ts_recent = 0, kcp_ts_lastack = 0, kcp_ssthresh = 2, kcp_rx_rttval = 0,
      kcp_rx_srtt = 0, kcp_rx_rto = 200, kcp_rx_minrto = 100, kcp_snd_wnd = 32, kcp_rcv_wnd = 128,
      kcp_rmt_wnd = 128, kcp_cwnd = 0, kcp_probe = 0, kcp_current = 0, kcp_interval = 100,
      kcp_ts_flush = 100, kcp_xmit = 0, kcp_nrcv_buf = 0, kcp_nsnd_buf = 0, kcp_nrcv_que = 0,
      kcp_nsnd_que = 0, kcp_nodelay = 0, kcp_updated = 0, kcp_ts_probe = 0, kcp_probe_wait = 0,
      kcp_dead_link = 20, kcp_incr = 0, kcp_snd_queue = [], kcp_rcv_queue = [], kcp_snd_buf = [],
      kcp_rcv_buf = [], kcp_acklist = [], kcp_ackcount = 0, kcp_ackblock = 0, kcp_bufsize = 4272,
      kcp_fastresend = 0, kcp_fastlimit = 5, kcp_nocwnd = 0, kcp_stream = 0\<rparr>"

definition peer1 :: ikcpcb where
  "peer1 = peer0\<lparr>kcp_snd_queue := [msg0], kcp_nsnd_que := 1\<rparr>"

definition peer2 :: ikcpcb where
  "peer2 = peer1\<lparr>kcp_cwnd := 1, kcp_current := 1000, kcp_ts_flush := 1100, kcp_updated := 1,
     kcp_incr := 1376\<rparr>"

definition peer3 :: ikcpcb where
  "peer3 = peer2\<lparr>kcp_snd_nxt := 1, kcp_current := 1100, kcp_ts_flush := 1200, kcp_nsnd_buf := 1,
     kcp_nsnd_que := 0, kcp_snd_queue := [], kcp_snd_buf := [msg0\<lparr>seg_conv := 7, seg_cmd := 81,
       seg_wnd := 128, seg_ts := 1100, seg_resendts := 1325, seg_rto := 200, seg_xmit := 1\<rparr>]\<rparr>"

definition wire3 :: bytes where
  "wire3 = [7, 0, 0, 0, 81, 0, 128, 0, 76, 4, 0, 0, 0, 0, 0, 0, 0, 0, 0, 0, 3, 0, 0, 0, 1, 2, 3]"

definition other1 :: ikcpcb where
  "other1 = peer0\<lparr>kcp_rcv_nxt := 1, kcp_nrcv_que := 1,
     kcp_rcv_queue := [msg0\<lparr>seg_conv := 7, seg_cmd := 81, seg_wnd := 128, seg_ts := 1100\<rparr>],
     kcp_acklist := [0, 1100, 0, 0, 0, 0, 0, 0, 0, 0, 0, 0, 0, 0, 0, 0], kcp_ackcount := 1, kcp_ackblock := 8\<rparr>"

lemma peer0: "ikcp_create (\<lambda>_. True) 7 = Some peer0" by code_simp
lemma peer1: "ikcp_send (\<lambda>_. True) peer0 [1, 2, 3] 3 = (0, peer1)" by code_simp
lemma peer2: "ikcp_update peer1 1000 = ([], peer2)" by code_simp
lemma peer3: "ikcp_update peer2 1100 = ([wire3], peer3)" by code_simp
lemma other1: "ikcp_input peer0 (Some wire3) = Some (0, other1)" by code_simp

lemma peer0_inv: "snd_inv peer0" "rcv_inv peer0"
  using create_snd_inv [OF peer0] rcv_state_inv [OF rcv_state_create [OF peer0]] by auto

lemma peer1_inv: "snd_inv peer1"
  using send_snd_inv [OF peer0_inv(1), of 3 "[1, 2, 3]" "\<lambda>_. True"] by (simp add: peer1)

lemma update_snd_inv: "snd_inv kcp \<Longrightarrow> ikcp_update kcp now = (out, kcp') \<Longrightarrow> snd_inv kcp'"
proof -
  assume inv: "snd_inv kcp" and "ikcp_update kcp now = (out, kcp')"
  from this(2) obtain k where k: "clock_upd kcp k" and r: "(out, kcp') = ([], k) \<or> (out, kcp') = ikcp_flush k"
    by (rule update_cases)
  have "snd_inv k" using snd_inv_same [OF clock_upd_frame(2) [OF k] clock_upd_frame(3) [OF k] clock_upd_frame(5) [OF k]] inv by simp
  with r flush_snd_inv [of k out kcp'] show ?thesis by auto
qed

lemma peer3_inv: "snd_inv peer2" "snd_inv peer3"
  using update_snd_inv [OF peer1_inv peer2] update_snd_inv [OF _ peer3] by auto

lemma other1_inv: "rcv_inv other1"
  using input_rcv.kept_input [OF other1 peer0_inv(2)] .

section \<open>The session as a run\<close>

definition link0 :: link where
  "link0 = \<lparr>lk_snd = peer0, lk_rcv = peer0, lk_net = {}, lk_sent = [], lk_got = [], lk_stamped = 0, lk_taken = 0\<rparr>"

lemma session:
  "\<exists>l. kcp_run l \<and> lk_sent l = [[1, 2, 3]] \<and> lk_got l = [[1, 2, 3]]"
proof -
  have l0: "kcp_run link0"
    unfolding link0_def by (rule kcp_run.create [OF peer0 peer0])
  have s: "ikcp_send (\<lambda>_. True) (lk_snd link0) [1, 2, 3] (int (length [1, 2, 3 :: u8])) = (0, peer1)"
    using peer1 by (simp add: link0_def)
  let ?l1 = "link0\<lparr>lk_snd := peer1, lk_sent := [[1, 2, 3]]\<rparr>"
  have l1: "kcp_run ?l1"
    using kcp_run.snd_send [OF l0 _ _ s] by (simp add: link0_def)
  let ?l2 = "link_emit ?l1 [] peer2"
  have l2: "kcp_run ?l2" by (rule kcp_run.snd_update [OF l1, of 1000]) (simp add: peer2)
  let ?l3 = "link_emit ?l2 [wire3] peer3"
  have l3: "kcp_run ?l3" by (rule kcp_run.snd_update [OF l2, of 1100]) (simp add: peer3 link_emit_def Let_def)
  have q: "length (kcp_snd_queue peer1) = 1" "length (kcp_snd_queue peer2) = 1"
    "length (kcp_snd_queue peer3) = 0" "kcp_rcv_queue peer0 = []"
    by code_simp+
  have l4: "kcp_run (?l3\<lparr>lk_rcv := other1\<rparr>)"
    by (rule kcp_run.deliver [OF l3, of 1 wire3])
      (simp_all add: link_emit_def Let_def link0_def link_near_def q other1 Un_iff)
  have "fst (ikcp_recv other1 10) = 3" "fst (snd (ikcp_recv other1 10)) = [1, 2, 3]" by code_simp+
  then obtain r b where rb: "ikcp_recv other1 10 = (r, [1, 2, 3], b)" "r = 3"
    by (cases "ikcp_recv other1 10") auto
  show ?thesis
    by (rule exI, rule conjI, rule kcp_run.rcv_recv [OF l4, of 10 r "[1, 2, 3]" b])
      (use rb in \<open>simp_all add: link_emit_def Let_def link0_def\<close>)
qed

section \<open>Instances of the properties\<close>


lemma kcp_delivers_prefix_witness:
  "\<exists>k. rcv_reach (\<lambda>m. (0, [5])) k [(0, [5])] [5] \<and>
    [(0, [5])] @ map seg_payload (kcp_rcv_queue k) = map (\<lambda>m. (0, [5])) [0..<1 + length (kcp_rcv_queue k)]"
proof -
  let ?f = "\<lambda>m :: nat. (0, [5]) :: payload" and ?s = "ikcp_segment_new 1 0 [5]"
  let ?k = "ikcp_parse_data peer0 ?s"
  have q: "length (kcp_rcv_queue peer0) = 0" by code_simp
  have "rcv_reach ?f ?k [] []"
    by (rule rcv_reach.arrive [OF rcv_reach.create [OF peer0], of 0 0])
      (simp_all add: q sent_as_def seg_ok_def ikcp_segment_new_def seg_payload_def)
  moreover have "fst (ikcp_recv ?k 1) = 1" "fst (snd (ikcp_recv ?k 1)) = [5]"
    "map seg_payload (take (msg_segs (kcp_rcv_queue ?k)) (kcp_rcv_queue ?k)) = [(0, [5])]"
    by code_simp+
  ultimately have r: "rcv_reach ?f (snd (snd (ikcp_recv ?k 1))) [(0, [5])] [5]"
    using rcv_reach.receive [of ?f ?k "[]" "[]" 1 1 "[5]" "snd (snd (ikcp_recv ?k 1))"]
    by (metis append_Nil prod.collapse zero_le_one)
  from kcp_delivers_prefix [OF r] r show ?thesis by (intro exI [of _ "snd (snd (ikcp_recv ?k 1))"]) simp
qed

lemma kcp_flush_packs_witness:
  "\<exists>parts k sn ts. fst (ikcp_flush peer3) = map datagram parts
    \<and> concat parts = flush_acked peer3 @ flush_probed peer3 sn ts @ flush_datas peer3 k"
proof -
  have "kcp_updated peer3 \<noteq> 0" by code_simp
  from kcp_flush_packs [OF peer3_inv(2) this prod.collapse [symmetric]] show ?thesis by blast
qed

lemma kcp_flush_move_window_witness:
  "\<exists>k\<le>1. flush_move (flush_window peer2) 0 peer2 = flush_moved 0 peer2 k"
proof -
  have "length (kcp_snd_queue peer2) = 1" by code_simp
  with kcp_flush_move_window [OF peer3_inv(1), of 0] show ?thesis by auto
qed

lemma ikcp_send_fragments_witness:
  "fst (ikcp_send (\<lambda>_. True) peer0 [1, 2, 3] (int (length [1, 2, 3 :: u8]))) = 0"
proof -
  have "kcp_stream peer0 = 0" "length (chunks (unat (kcp_mss peer0)) [1, 2, 3]) = 1" by code_simp+
  with ikcp_send_fragments [OF peer0_inv(1), of "\<lambda>_. True" "[1, 2, 3]"] show ?thesis by simp
qed



lemma ikcp_input_snd_inv_witness: "snd_inv other1"
  using ikcp_input_snd_inv [OF peer0_inv(1) other1] .

lemma ikcp_input_segments_witness:
  "ikcp_input peer0 (Some (concat (map wire (kcp_snd_buf peer3))))
    = Some (0, input_finish (kcp_snd_una peer0) (fold input_wire (kcp_snd_buf peer3) (input_start peer0)))"
proof -
  have "kcp_snd_buf peer3 \<noteq> []" "\<forall>s\<in>set (kcp_snd_buf peer3). wire_ok (kcp_conv peer0) s"
    by (simp_all add: peer3_def peer2_def peer1_def peer0_def msg0_def wire_ok_def seg_ok_def)
  then show ?thesis by (rule ikcp_input_segments)
qed


lemma kcp_una_removes_exactly_witness:
  "kcp_snd_buf (ikcp_shrink_buf (ikcp_parse_una peer3 1)) = []"
proof -
  have "unat (1 - kcp_snd_una peer3) \<le> unat (kcp_snd_nxt peer3 - kcp_snd_una peer3)"
    "filter (\<lambda>s. unat (1 - kcp_snd_una peer3) \<le> unat (seg_sn s - kcp_snd_una peer3)) (kcp_snd_buf peer3) = []"
    by code_simp+
  with kcp_una_removes_exactly [OF peer3_inv(2), of 1] show ?thesis by simp
qed

lemma kcp_ack_removes_one_witness: "kcp_snd_buf (ikcp_parse_ack peer3 0) = []"
proof -
  have "unat (0 - kcp_snd_una peer3) < unat (kcp_snd_nxt peer3 - kcp_snd_una peer3)"
    "filter (\<lambda>s. seg_sn s \<noteq> 0) (kcp_snd_buf peer3) = []" by code_simp+
  with kcp_ack_removes_one [OF peer3_inv(2), of 0] show ?thesis by simp
qed

lemma kcp_acks_remove_exactly_witness:
  "kcp_snd_buf (ikcp_shrink_buf (ikcp_parse_una peer3 1)) = [] \<and> kcp_snd_buf (ikcp_parse_ack peer3 0) = []"
proof -
  have "unat (1 - kcp_snd_una peer3) \<le> unat (kcp_snd_nxt peer3 - kcp_snd_una peer3)"
    "filter (\<lambda>s. unat (1 - kcp_snd_una peer3) \<le> unat (seg_sn s - kcp_snd_una peer3)) (kcp_snd_buf peer3) = []"
    "unat (0 - kcp_snd_una peer3) < unat (kcp_snd_nxt peer3 - kcp_snd_una peer3)"
    "filter (\<lambda>s. seg_sn s \<noteq> 0) (kcp_snd_buf peer3) = []" by code_simp+
  with kcp_acks_remove_exactly [OF peer3_inv(2), of 1 0] show ?thesis by simp
qed

lemma ikcp_send_snd_inv_witness: "snd_inv (snd (ikcp_send (\<lambda>_. True) peer0 [1, 2, 3] 3))"
  using ikcp_send_snd_inv [OF peer0_inv(1), of 3 "[1, 2, 3]" "\<lambda>_. True"] by simp

end
