(* ===== verification/Pico_Scan.thy ===== *)
theory Pico_Scan
  imports Prelude
begin

text \<open>
  The scanning layer of \<open>picohttpparser.c\<close>: the macros \<open>CHECK_EOF\<close>, \<open>EXPECT_CHAR\<close> and
  \<open>ADVANCE_TOKEN\<close>, the vectorised \<open>findchar_fast\<close>, \<open>get_token_to_eol\<close> in both of its builds, and
  \<open>is_complete\<close>.  A pointer into the buffer is the list of the bytes from it to \<open>buf_end\<close>, a token
  (start pointer and length) is the bytes it spans.  A call yields the advanced pointer, or the
  code it stores through \<open>ret\<close>; \<open>POob\<close> is a read at or behind \<open>buf_end\<close>.  The argument
  \<open>sse\<close> says whether the file is compiled with \<open>__SSE4_2__\<close>.
\<close>

section \<open>Results\<close>

datatype 'a pres = POk 'a | PRet int | POob

fun pbind :: "'a pres \<Rightarrow> ('a \<Rightarrow> 'b pres) \<Rightarrow> 'b pres" where
  "pbind (POk a) f = f a"
| "pbind (PRet r) f = PRet r"
| "pbind POob f = POob"

text \<open>The same for code that has written output parameters \<open>s\<close> before it fails.\<close>

fun pthen :: "'a pres \<Rightarrow> 's \<Rightarrow> ('a \<Rightarrow> 'b pres \<times> 's) \<Rightarrow> 'b pres \<times> 's" where
  "pthen (POk a) s f = f a"
| "pthen (PRet r) s f = (PRet r, s)"
| "pthen POob s f = (POob, s)"

lemma pbind_POk [simp]: "pbind m f = POk b \<longleftrightarrow> (\<exists>a. m = POk a \<and> f a = POk b)"
  by (cases m) simp_all

lemma pbind_POob: "pbind m f = POob \<longleftrightarrow> m = POob \<or> (\<exists>a. m = POk a \<and> f a = POob)"
  by (cases m) simp_all

lemma pthen_POk: "pthen m s f = (POk b, t) \<longleftrightarrow> (\<exists>a. m = POk a \<and> f a = (POk b, t))"
  by (cases m) simp_all

lemma pthen_POob:
  "fst (pthen m s f) = POob \<longleftrightarrow> m = POob \<or> (\<exists>a. m = POk a \<and> fst (f a) = POob)"
  by (cases m) simp_all

section \<open>The macros\<close>

definition IS_PRINTABLE_ASCII :: "u8 \<Rightarrow> bool" where
  "IS_PRINTABLE_ASCII c \<longleftrightarrow> (ucast c :: u32) - 32 < 95"

definition CHECK_EOF :: "bytes \<Rightarrow> bytes pres" where
  "CHECK_EOF buf = (if buf = [] then PRet (-2) else POk buf)"

fun EXPECT_CHAR_NO_CHECK :: "u8 \<Rightarrow> bytes \<Rightarrow> bytes pres" where
  "EXPECT_CHAR_NO_CHECK ch [] = POob"
| "EXPECT_CHAR_NO_CHECK ch (c # buf) = (if c \<noteq> ch then PRet (-1) else POk buf)"

definition EXPECT_CHAR :: "u8 \<Rightarrow> bytes \<Rightarrow> bytes pres" where
  "EXPECT_CHAR ch buf = pbind (CHECK_EOF buf) (EXPECT_CHAR_NO_CHECK ch)"

text \<open>\<open>++buf\<close>, which must not leave the buffer.\<close>

fun advance :: "bytes \<Rightarrow> bytes pres" where
  "advance [] = POob"
| "advance (c # buf) = POk buf"

section \<open>The vectorised search\<close>

text \<open>
  \<open>_mm_cmpestri\<close> in range mode returns the index of the first byte of the block inside one of the
  ranges, and 16 when there is none.  The ranges are the pairs of bounds the code lists.
\<close>

fun in_ranges :: "u8 list \<Rightarrow> u8 \<Rightarrow> bool" where
  "in_ranges (lo # hi # rs) c \<longleftrightarrow> lo \<le> c \<and> c \<le> hi \<or> in_ranges rs c"
| "in_ranges rs c \<longleftrightarrow> False"

definition mm_cmpestri :: "u8 list \<Rightarrow> bytes \<Rightarrow> nat" where
  "mm_cmpestri ranges block = length (takeWhile (\<lambda>c. \<not> in_ranges ranges c) block)"

function findchar_blocks :: "u8 list \<Rightarrow> bytes \<Rightarrow> bytes \<times> bool" where
  "findchar_blocks ranges buf =
    (if length buf < 16 then (buf, False)
     else let r = mm_cmpestri ranges (take 16 buf)
          in if r \<noteq> 16 then (drop r buf, True) else findchar_blocks ranges (drop 16 buf))"
  by pat_completeness auto
termination by (relation "measure (\<lambda>(ranges, buf). length buf)") auto

declare findchar_blocks.simps [simp del]

definition findchar_fast :: "bool \<Rightarrow> u8 list \<Rightarrow> bytes \<Rightarrow> bytes \<times> bool" where
  "findchar_fast sse ranges buf = (if sse then findchar_blocks ranges buf else (buf, False))"

section \<open>Tokens\<close>

text \<open>The loop of \<open>ADVANCE_TOKEN\<close>; its result is the pointer to the space behind the token.\<close>

fun token_loop :: "bytes \<Rightarrow> bytes pres" where
  "token_loop [] = POob"
| "token_loop (c # buf) =
    (if c = 32 then POk (c # buf)
     else if \<not> IS_PRINTABLE_ASCII c \<and> (c < 32 \<or> c = 127) then PRet (-1)
     else if buf = [] then PRet (-2) else token_loop buf)"

definition token_ranges :: "u8 list" where
  "token_ranges = [0, 32, 127, 127]"

text \<open>\<open>ADVANCE_TOKEN\<close> sets the token only on success: the token and the pointer behind it.\<close>

definition ADVANCE_TOKEN :: "bool \<Rightarrow> bytes \<Rightarrow> (bytes \<times> bytes) pres" where
  "ADVANCE_TOKEN sse tok_start =
    (let (buf, found2) = findchar_fast sse token_ranges tok_start
     in pbind (if found2 then POk buf else CHECK_EOF buf) (\<lambda>buf.
        pbind (token_loop buf) (\<lambda>buf.
        POk (take (length tok_start - length buf) tok_start, buf))))"

section \<open>\<open>get_token_to_eol\<close>\<close>

text \<open>The control characters that end a line value: all but HT, and DEL.\<close>

definition ctl :: "u8 \<Rightarrow> bool" where
  "ctl c \<longleftrightarrow> c < 32 \<and> c \<noteq> 9 \<or> c = 127"

definition eol_ranges :: "u8 list" where
  "eol_ranges = [0, 8, 10, 31, 127, 127]"

text \<open>The plain loop, ending at \<open>FOUND_CTL\<close>.\<close>

fun eol_slow :: "bytes \<Rightarrow> bytes pres" where
  "eol_slow [] = PRet (-2)"
| "eol_slow (c # buf) =
    (if \<not> IS_PRINTABLE_ASCII c \<and> ctl c then POk (c # buf) else eol_slow buf)"

text \<open>
  The loop unrolled eight times of the build without SSE: \<open>n\<close> expansions of \<open>DOIT\<close>, which stop
  (result \<open>True\<close>) in front of a byte that is not printable.
\<close>

fun DOIT :: "nat \<Rightarrow> bytes \<Rightarrow> (bytes \<times> bool) pres" where
  "DOIT 0 buf = POk (buf, False)"
| "DOIT (Suc n) [] = POob"
| "DOIT (Suc n) (c # buf) =
    (if \<not> IS_PRINTABLE_ASCII c then POk (c # buf, True) else DOIT n buf)"

lemma DOIT_shrinks: "DOIT n buf = POk (buf', b) \<Longrightarrow> length buf' + (if b then 0 else n) \<le> length buf"
  by (induction n buf rule: DOIT.induct) (auto split: if_splits)

function eol_unrolled :: "bytes \<Rightarrow> bytes pres" where
  "eol_unrolled buf =
    (if length buf < 8 then eol_slow buf
     else case DOIT 8 buf of
       POk (buf', False) \<Rightarrow> eol_unrolled buf'
     | POk (c # buf', True) \<Rightarrow> if ctl c then POk (c # buf') else eol_unrolled buf'
     | POk ([], True) \<Rightarrow> POob
     | PRet r \<Rightarrow> PRet r
     | POob \<Rightarrow> POob)"
  by pat_completeness auto
termination
  by (relation "measure length") (auto dest!: DOIT_shrinks)

declare eol_unrolled.simps [simp del]

text \<open>The search up to \<open>FOUND_CTL\<close>.\<close>

definition eol_find :: "bool \<Rightarrow> bytes \<Rightarrow> bytes pres" where
  "eol_find sse buf =
    (if sse
     then let (buf, found) = findchar_fast sse eol_ranges buf in if found then POk buf else eol_slow buf
     else eol_unrolled buf)"

fun eol_finish :: "bytes \<Rightarrow> bytes \<Rightarrow> (bytes \<times> bytes) pres" where
  "eol_finish token_start [] = POob"
| "eol_finish token_start (c # buf) =
    (if c = 13
     then pbind (EXPECT_CHAR 10 buf) (\<lambda>buf.
       POk (take (length token_start - length buf - 2) token_start, buf))
     else if c = 10 then POk (take (length token_start - length (c # buf)) token_start, buf)
     else PRet (-1))"

definition get_token_to_eol :: "bool \<Rightarrow> bytes \<Rightarrow> (bytes \<times> bytes) pres" where
  "get_token_to_eol sse token_start = pbind (eol_find sse token_start) (eol_finish token_start)"

section \<open>\<open>is_complete\<close>\<close>

fun complete_loop :: "nat \<Rightarrow> bytes \<Rightarrow> bytes pres" where
  "complete_loop ret_cnt [] = PRet (-2)"
| "complete_loop ret_cnt (c # buf) =
    (if c = 13
     then case buf of [] \<Rightarrow> PRet (-2)
        | d # buf \<Rightarrow> if d \<noteq> 10 then PRet (-1)
                    else if Suc ret_cnt = 2 then POk buf else complete_loop (Suc ret_cnt) buf
     else if c = 10 then if Suc ret_cnt = 2 then POk buf else complete_loop (Suc ret_cnt) buf
     else complete_loop 0 buf)"

text \<open>A start behind \<open>buf_end\<close> never meets it, so the loop reads past the buffer.\<close>

definition is_complete :: "bytes \<Rightarrow> nat \<Rightarrow> bytes pres" where
  "is_complete buf last_len =
    (if last_len < 3 then complete_loop 0 buf
     else if length buf < last_len - 3 then POob
     else complete_loop 0 (drop (last_len - 3) buf))"

section \<open>The vectorised search is transparent\<close>

lemma IS_PRINTABLE_ASCII_iff [simp]: "IS_PRINTABLE_ASCII c \<longleftrightarrow> 32 \<le> c \<and> c < 127"
proof -
  have "unat c < 256" using unsigned_less [of c] by simp
  then show ?thesis
    unfolding IS_PRINTABLE_ASCII_def word_less_nat_alt word_le_nat_alt
    by (auto simp: unat_sub_if' unsigned_ucast_eq unsigned_take_bit_eq take_bit_nat_eq_self)
qed

lemma CHECK_EOF_simps [simp]: "CHECK_EOF [] = PRet (-2)" "CHECK_EOF (c # buf) = POk (c # buf)"
  by (simp_all add: CHECK_EOF_def)

lemma mm_cmpestri_none: "length block = 16 \<Longrightarrow> mm_cmpestri ranges block = 16 \<longleftrightarrow> (\<forall>c \<in> set block. \<not> in_ranges ranges c)"
  unfolding mm_cmpestri_def by (metis takeWhile_eq_all_conv takeWhile_eq_take take_all order_refl)

text \<open>
  The contract between the search and a scanning loop: the loop passes every byte outside the
  ranges, so starting it behind such bytes changes nothing.
\<close>

locale scanner =
  fixes ranges :: "u8 list" and loop :: "bytes \<Rightarrow> 'a pres"
  assumes skip: "\<not> in_ranges ranges c \<Longrightarrow>
    pbind (CHECK_EOF (c # buf)) loop = pbind (CHECK_EOF buf) loop"
begin

lemma skip_all: "\<forall>c \<in> set xs. \<not> in_ranges ranges c \<Longrightarrow>
    pbind (CHECK_EOF (xs @ buf)) loop = pbind (CHECK_EOF buf) loop"
  by (induction xs) (simp_all add: skip del: CHECK_EOF_simps)

lemma blocks:
  "findchar_blocks ranges buf = (buf', found) \<Longrightarrow>
    pbind (CHECK_EOF buf') loop = pbind (CHECK_EOF buf) loop \<and>
    (found \<longrightarrow> (\<exists>c r. buf' = c # r \<and> in_ranges ranges c))"
proof (induction buf rule: measure_induct_rule [where f = length])
  case (less buf)
  define r where "r = mm_cmpestri ranges (take 16 buf)"
  have eq: "findchar_blocks ranges buf = (if length buf < 16 then (buf, False)
     else if r \<noteq> 16 then (drop r buf, True) else findchar_blocks ranges (drop 16 buf))"
    by (simp add: findchar_blocks.simps [of ranges buf] r_def Let_def)
  let ?p = "\<lambda>c. \<not> in_ranges ranges c"
  consider "length buf < 16" | "16 \<le> length buf" "r \<noteq> 16" | "16 \<le> length buf" "r = 16"
    by linarith
  then show ?case
  proof cases
    case 1
    then show ?thesis using less.prems eq by auto
  next
    case 2
    have r: "take r buf = takeWhile ?p (take 16 buf)" "r \<le> 16"
      unfolding r_def mm_cmpestri_def
      by (metis length_takeWhile_le min.absorb1 take_take takeWhile_eq_take length_take min.bounded_iff)
        (metis length_take length_takeWhile_le min.bounded_iff)
    then have "r < 16" using 2 by simp
    then have nth: "drop r buf = buf ! r # drop (Suc r) buf" and at: "take 16 buf ! r = buf ! r"
      using 2 by (simp_all add: Cons_nth_drop_Suc)
    have "in_ranges ranges (buf ! r)"
      using nth_length_takeWhile [of ?p "take 16 buf"] \<open>r < 16\<close> 2 at
      by (simp add: r_def mm_cmpestri_def)
    moreover have "\<forall>c \<in> set (take r buf). ?p c"
      unfolding r using set_takeWhileD by fast
    ultimately show ?thesis
      using skip_all [of "take r buf" "drop r buf"] less.prems eq 2
      by (simp del: CHECK_EOF_simps) (metis nth)
  next
    case 3
    then have "\<forall>c \<in> set (take 16 buf). ?p c"
      using mm_cmpestri_none [of "take 16 buf" ranges] by (simp add: r_def)
    then show ?thesis
      using skip_all [of "take 16 buf" "drop 16 buf"] less.IH [of "drop 16 buf"] less.prems eq 3
      by simp
  qed
qed

lemma fast:
  assumes "findchar_fast sse ranges buf = (buf', found)"
  shows "pbind (if found then POk buf' else CHECK_EOF buf') loop = pbind (CHECK_EOF buf) loop"
proof (cases sse)
  case True
  with assms blocks [of buf buf' found] show ?thesis
    by (cases found) (auto simp: findchar_fast_def)
next
  case False
  with assms show ?thesis by (auto simp: findchar_fast_def)
qed

end

text \<open>When every byte inside the ranges also stops the loop, a hit needs no second look.\<close>

locale exact_scanner = scanner ranges loop for ranges and loop :: "bytes \<Rightarrow> bytes pres" +
  assumes hit: "in_ranges ranges c \<Longrightarrow> loop (c # buf) = POk (c # buf)"
begin

lemma fast_exact:
  assumes "findchar_fast sse ranges buf = (buf', found)"
  shows "(if found then POk buf' else pbind (CHECK_EOF buf') loop) = pbind (CHECK_EOF buf) loop"
proof (cases found)
  case True
  with assms obtain c r where "buf' = c # r" "in_ranges ranges c"
    by (cases sse) (auto simp: findchar_fast_def dest: blocks)
  then show ?thesis using fast [OF assms] True hit by simp
next
  case False
  then show ?thesis using fast [OF assms] by simp
qed

end

interpretation token_scan: scanner token_ranges token_loop
proof
  fix c :: u8 and buf
  assume "\<not> in_ranges token_ranges c"
  then have "32 < c" "c \<noteq> 127" by (auto simp: token_ranges_def not_le)
  then show "pbind (CHECK_EOF (c # buf)) token_loop = pbind (CHECK_EOF buf) token_loop"
    by (auto simp: CHECK_EOF_def)
qed

lemma eol_slow_Cons: "eol_slow (c # buf) = (if ctl c then POk (c # buf) else eol_slow buf)"
  by (auto simp: ctl_def)

lemma ctl_ranges: "in_ranges eol_ranges c \<longleftrightarrow> ctl c"
proof -
  have "unat c < 256" using unsigned_less [of c] by simp
  then show ?thesis
    by (auto simp: eol_ranges_def ctl_def word_less_nat_alt word_le_nat_alt word_unat_eq_iff)
qed

interpretation eol_scan: exact_scanner eol_ranges eol_slow
  by unfold_locales (auto simp: ctl_ranges eol_slow_Cons CHECK_EOF_def simp del: eol_slow.simps(2))

lemma DOIT_eol_slow:
  "DOIT n buf = POk (buf', b) \<Longrightarrow> eol_slow buf = eol_slow buf' \<and> (b \<longrightarrow> buf' \<noteq> [])"
  by (induction n buf rule: DOIT.induct) (auto simp: eol_slow_Cons ctl_def split: if_splits)

lemma DOIT_total: "n \<le> length buf \<Longrightarrow> \<exists>p. DOIT n buf = POk p"
  by (induction n buf rule: DOIT.induct) auto

lemma eol_unrolled_slow [simp]: "eol_unrolled buf = eol_slow buf"
proof (induction buf rule: measure_induct_rule [where f = length])
  case (less buf)
  show ?case
  proof (cases "length buf < 8")
    case True
    then show ?thesis by (simp add: eol_unrolled.simps)
  next
    case False
    then obtain buf' b where d: "DOIT 8 buf = POk (buf', b)"
      using DOIT_total [of 8 buf] by force
    with DOIT_eol_slow [OF d] DOIT_shrinks [OF d] False less.IH show ?thesis
      by (cases b; cases buf')
        (auto simp: eol_unrolled.simps [of buf] eol_unrolled.simps [of "[]"] eol_slow_Cons
          simp del: eol_slow.simps(2))
  qed
qed

lemma eol_find_slow: "eol_find sse buf = eol_slow buf"
proof -
  have "pbind (CHECK_EOF b) eol_slow = eol_slow b" for b by (cases b) simp_all
  then show ?thesis
    using eol_scan.fast_exact [of sse buf]
    by (auto simp: eol_find_def split: prod.splits)
qed

text \<open>Both builds of the tokenisers, in one equation each.\<close>

lemma scan_take:
  "pbind (pbind m f) g = pbind m (\<lambda>x. pbind (f x) g)"
  by (cases m) simp_all

lemma ADVANCE_TOKEN_eq:
  "ADVANCE_TOKEN sse buf = pbind (CHECK_EOF buf) (\<lambda>b.
    pbind (token_loop b) (\<lambda>r. POk (take (length buf - length r) buf, r)))"
proof -
  obtain b found where f: "findchar_fast sse token_ranges buf = (b, found)" by fastforce
  show ?thesis
    unfolding ADVANCE_TOKEN_def Let_def f prod.case
    unfolding scan_take [symmetric] token_scan.fast [OF f] ..
qed

lemma get_token_to_eol_eq:
  "get_token_to_eol sse buf = pbind (eol_slow buf) (eol_finish buf)"
  by (simp add: get_token_to_eol_def eol_find_slow)

end
