(* ===== verification/Pico_Parse.thy ===== *)
theory Pico_Parse
  imports Pico_Scan "HOL-Library.Sublist"
begin

text \<open>
  The parsers of \<open>picohttpparser.c\<close> over the scanning layer: the HTTP version, the header block,
  the request and the response line, and the three entry points.  The output parameters are a
  record that is threaded through, so that what a failing call has already stored is kept.
\<close>

section \<open>Output parameters\<close>

text \<open>\<open>struct phr_header\<close>; the name is \<open>None\<close> for a continuation line (a NULL pointer in C).\<close>

record phr_header =
  hname :: "bytes option"
  hvalue :: bytes

record phr_request =
  rq_method :: bytes
  rq_path :: bytes
  rq_minor :: int
  rq_headers :: "phr_header list"

record phr_response =
  rs_minor :: int
  rs_status :: int
  rs_msg :: bytes
  rs_headers :: "phr_header list"

text \<open>The entry points return the bytes consumed as an \<open>int\<close>.\<close>

definition ptr_diff :: "nat \<Rightarrow> int" where
  "ptr_diff n = sint (of_nat n :: i32)"

section \<open>Numbers and the version\<close>

text \<open>\<open>PARSE_INT\<close> reads one digit and scales it.\<close>

fun PARSE_INT :: "int \<Rightarrow> bytes \<Rightarrow> (int \<times> bytes) pres" where
  "PARSE_INT mul [] = POob"
| "PARSE_INT mul (c # buf) =
    (if c < 48 \<or> 57 < c then PRet (-1) else POk (mul * (uint c - 48), buf))"

text \<open>\<open>PARSE_INT_3\<close> has stored the digits read so far when a later one fails.\<close>

definition PARSE_INT_3 :: "bytes \<Rightarrow> int \<Rightarrow> bytes pres \<times> int" where
  "PARSE_INT_3 buf val =
    pthen (PARSE_INT 100 buf) val (\<lambda>(a, buf).
    pthen (PARSE_INT 10 buf) a (\<lambda>(b, buf).
    pthen (PARSE_INT 1 buf) (a + b) (\<lambda>(c, buf). (POk buf, a + b + c))))"

fun expect_string :: "bytes \<Rightarrow> bytes \<Rightarrow> bytes pres" where
  "expect_string [] buf = POk buf"
| "expect_string (ch # chs) buf = pbind (EXPECT_CHAR_NO_CHECK ch buf) (expect_string chs)"

text \<open>The bytes of \<open>HTTP/1.\<close>, which the code expects one by one.\<close>

definition http_1 :: bytes where
  "http_1 = [72, 84, 84, 80, 47, 49, 46]"

definition parse_http_version :: "bytes \<Rightarrow> (int \<times> bytes) pres" where
  "parse_http_version buf =
    (if length buf < 9 then PRet (-2)
     else pbind (expect_string http_1 buf) (PARSE_INT 1))"

section \<open>Headers\<close>

text \<open>\<open>token_char_map\<close>, row by row.\<close>

definition token_char_map :: "u8 list" where
  "token_char_map =
    replicate 32 0 @
    [0,1,0,1,1,1,1,1,0,0,1,1,0,1,1,0, 1,1,1,1,1,1,1,1,1,1,0,0,0,0,0,0] @
    [0,1,1,1,1,1,1,1,1,1,1,1,1,1,1,1, 1,1,1,1,1,1,1,1,1,1,1,0,0,0,1,1] @
    [1,1,1,1,1,1,1,1,1,1,1,1,1,1,1,1, 1,1,1,1,1,1,1,1,1,1,1,0,1,0,1,0] @
    replicate 128 0"

definition name_ranges :: "u8 list" where
  "name_ranges = [0, 32, 34, 34, 40, 41, 44, 44, 47, 47, 58, 64, 91, 93, 123, 255]"

fun name_loop :: "bytes \<Rightarrow> bytes pres" where
  "name_loop [] = POob"
| "name_loop (c # buf) =
    (if c = 58 then POk (c # buf)
     else if token_char_map ! unat c = 0 then PRet (-1)
     else if buf = [] then PRet (-2) else name_loop buf)"

fun skip_blanks :: "bytes \<Rightarrow> bytes pres" where
  "skip_blanks [] = PRet (-2)"
| "skip_blanks (c # buf) = (if \<not> (c = 32 \<or> c = 9) then POk (c # buf) else skip_blanks buf)"

text \<open>A header name up to its colon, and the blanks behind the colon.\<close>

definition parse_header_name :: "bool \<Rightarrow> bytes \<Rightarrow> (bytes \<times> bytes) pres" where
  "parse_header_name sse start =
    (let (buf, found) = findchar_fast sse name_ranges start
     in pbind (if found then POk buf else CHECK_EOF buf) (\<lambda>buf.
        pbind (name_loop buf) (\<lambda>buf.
        let name = take (length start - length buf) start
        in if name = [] then PRet (-1)
           else pbind (advance buf) (\<lambda>buf. pbind (skip_blanks buf) (\<lambda>buf. POk (name, buf))))))"

text \<open>Trailing blanks of a value are cut off.\<close>

definition trim_end :: "bytes \<Rightarrow> bytes" where
  "trim_end v = rev (dropWhile (\<lambda>c. c = 32 \<or> c = 9) (rev v))"

definition parse_header :: "bool \<Rightarrow> bool \<Rightarrow> bytes \<Rightarrow> (phr_header \<times> bytes) pres" where
  "parse_header sse first buf =
    (case buf of [] \<Rightarrow> POob
     | c # _ \<Rightarrow>
       pbind (if \<not> (\<not> first \<and> (c = 32 \<or> c = 9))
              then pbind (parse_header_name sse buf) (\<lambda>(n, buf). POk (Some n, buf))
              else POk (None, buf)) (\<lambda>(n, buf).
       pbind (get_token_to_eol sse buf) (\<lambda>(v, buf).
       POk (\<lparr>hname = n, hvalue = trim_end v\<rparr>, buf))))"

text \<open>The end of the header block: \<open>None\<close> when another header follows.\<close>

fun end_of_headers :: "bytes \<Rightarrow> bytes pres option" where
  "end_of_headers [] = Some (PRet (-2))"
| "end_of_headers (c # buf) =
    (if c = 13 then Some (EXPECT_CHAR 10 buf)
     else if c = 10 then Some (POk buf) else None)"

section \<open>What the scanners consume\<close>

lemma token_loop_suffix: "token_loop buf = POk r \<Longrightarrow> suffix r buf"
  by (induction buf rule: token_loop.induct) (auto split: if_splits intro: suffix_ConsI)

lemma eol_slow_suffix: "eol_slow buf = POk r \<Longrightarrow> suffix r buf"
  by (induction buf rule: eol_slow.induct) (auto split: if_splits intro: suffix_ConsI)

lemma name_loop_suffix: "name_loop buf = POk r \<Longrightarrow> suffix r buf"
  by (induction buf rule: name_loop.induct) (auto split: if_splits intro: suffix_ConsI)

lemma skip_blanks_suffix: "skip_blanks buf = POk r \<Longrightarrow> suffix r buf"
  by (induction buf rule: skip_blanks.induct) (auto split: if_splits intro: suffix_ConsI)

lemma name_ranges_complete:
  "list_all2 (\<lambda>i v. in_ranges name_ranges (word_of_int i) \<or> i \<noteq> 58 \<and> v \<noteq> 0)
    [0..255] token_char_map"
  by code_simp

lemma name_ranges_token:
  assumes "\<not> in_ranges name_ranges c"
  shows "c \<noteq> 58 \<and> token_char_map ! unat c \<noteq> 0"
proof -
  have u: "unat c < 256" using unsigned_less [of c] by simp
  then have "0 + int (unat c) \<le> 255" by linarith
  from nth_upto [OF this] have n: "[0..255] ! unat c = int (unat c)" by simp
  from u have "in_ranges name_ranges (word_of_int (int (unat c))) \<or>
      int (unat c) \<noteq> 58 \<and> token_char_map ! unat c \<noteq> 0"
    using list_all2_nthD [OF name_ranges_complete, of "unat c"] unfolding n by simp
  moreover have "word_of_int (int (unat c)) = c" by simp
  ultimately have t: "int (unat c) \<noteq> 58 \<and> token_char_map ! unat c \<noteq> 0"
    using assms by (metis (no_types))
  then have "c \<noteq> 58" by auto
  with t show ?thesis by simp
qed

interpretation name_scan: scanner name_ranges name_loop
proof
  fix c :: u8 and buf
  assume "\<not> in_ranges name_ranges c"
  then show "pbind (CHECK_EOF (c # buf)) name_loop = pbind (CHECK_EOF buf) name_loop"
    using name_ranges_token by (auto simp: CHECK_EOF_def)
qed

lemma parse_header_name_eq:
  "parse_header_name sse start = pbind (CHECK_EOF start) (\<lambda>b. pbind (name_loop b) (\<lambda>buf.
        let name = take (length start - length buf) start
        in if name = [] then PRet (-1)
           else pbind (advance buf) (\<lambda>buf. pbind (skip_blanks buf) (\<lambda>buf. POk (name, buf)))))"
proof -
  obtain b found where f: "findchar_fast sse name_ranges start = (b, found)" by fastforce
  show ?thesis
    unfolding parse_header_name_def Let_def f prod.case
    unfolding scan_take [symmetric] name_scan.fast [OF f] ..
qed

lemma eol_finish_shrinks: "eol_finish t buf = POk (v, r) \<Longrightarrow> suffix r buf \<and> length r < length buf"
  by (cases buf) (auto simp: EXPECT_CHAR_def CHECK_EOF_def neq_Nil_conv suffix_def split: if_splits)

lemma get_token_to_eol_shrinks:
  "get_token_to_eol sse buf = POk (v, r) \<Longrightarrow> suffix r buf \<and> length r < length buf"
  unfolding get_token_to_eol_eq
  by (force dest!: eol_slow_suffix eol_finish_shrinks dest: suffix_length_le
      intro: suffix_order.order_trans)

lemma advance_suffix: "advance buf = POk r \<Longrightarrow> suffix r buf"
  by (cases buf) (auto intro: suffix_ConsI)

lemma CHECK_EOF_POk: "CHECK_EOF buf = POk r \<longleftrightarrow> r = buf \<and> buf \<noteq> []"
  by (auto simp: CHECK_EOF_def)

lemma parse_header_name_suffix: "parse_header_name sse buf = POk (n, r) \<Longrightarrow> suffix r buf"
  unfolding parse_header_name_eq
  by (auto simp: CHECK_EOF_POk Let_def split: if_splits
      dest!: name_loop_suffix advance_suffix skip_blanks_suffix
      intro: suffix_order.order_trans)

lemma parse_header_shrinks:
  "parse_header sse first buf = POk (h, r) \<Longrightarrow> suffix r buf \<and> length r < length buf"
  unfolding parse_header_def
  by (auto split: list.splits if_splits dest!: parse_header_name_suffix get_token_to_eol_shrinks
      dest: suffix_length_le intro: suffix_order.order_trans)

section \<open>The header block\<close>

function parse_headers ::
  "bool \<Rightarrow> nat \<Rightarrow> bytes \<Rightarrow> phr_header list \<Rightarrow> bytes pres \<times> phr_header list"
where
  "parse_headers sse max_headers buf headers =
    (case end_of_headers buf of
       Some r \<Rightarrow> (r, headers)
     | None \<Rightarrow>
         if length headers = max_headers then (PRet (-1), headers)
         else case parse_header sse (headers = []) buf of
           POk (h, buf) \<Rightarrow> parse_headers sse max_headers buf (headers @ [h])
         | PRet r \<Rightarrow> (PRet r, headers)
         | POob \<Rightarrow> (POob, headers))"
  by pat_completeness auto
termination
  by (relation "measure (\<lambda>(sse, m, buf, hs). length buf)") (auto dest!: parse_header_shrinks)

declare parse_headers.simps [simp del]

section \<open>Requests\<close>

text \<open>An empty line in front of the request line is skipped.\<close>

definition skip_first_line :: "bytes \<Rightarrow> bytes pres" where
  "skip_first_line buf =
    pbind (CHECK_EOF buf) (\<lambda>buf.
      if hd buf = 13 then EXPECT_CHAR 10 (tl buf)
      else if hd buf = 10 then POk (tl buf) else POk buf)"

text \<open>The line end behind the version; the code does not check for \<open>buf_end\<close> here.\<close>

fun line_end :: "bytes \<Rightarrow> bytes pres" where
  "line_end [] = POob"
| "line_end (c # buf) =
    (if c = 13 then EXPECT_CHAR 10 buf else if c = 10 then POk buf else PRet (-1))"

definition parse_request ::
  "bool \<Rightarrow> nat \<Rightarrow> bytes \<Rightarrow> phr_request \<Rightarrow> bytes pres \<times> phr_request"
where
  "parse_request sse max_headers buf q =
    pthen (skip_first_line buf) q (\<lambda>buf.
    pthen (ADVANCE_TOKEN sse buf) q (\<lambda>(t, buf). let q = q\<lparr>rq_method := t\<rparr> in
    pthen (advance buf) q (\<lambda>buf.
    pthen (ADVANCE_TOKEN sse buf) q (\<lambda>(t, buf). let q = q\<lparr>rq_path := t\<rparr> in
    pthen (advance buf) q (\<lambda>buf.
    if rq_method q = [] \<or> rq_path q = [] then (PRet (-1), q)
    else pthen (parse_http_version buf) q (\<lambda>(v, buf). let q = q\<lparr>rq_minor := v\<rparr> in
    pthen (line_end buf) q (\<lambda>buf.
    let (r, hs) = parse_headers sse max_headers buf [] in (r, q\<lparr>rq_headers := hs\<rparr>))))))))"

text \<open>What an entry point returns for the parse of a buffer of \<open>n\<close> bytes.\<close>

fun phr_return :: "nat \<Rightarrow> bytes pres \<Rightarrow> int option" where
  "phr_return n (POk buf) = Some (ptr_diff (n - length buf))"
| "phr_return n (PRet r) = Some r"
| "phr_return n POob = None"

text \<open>The check that a request fed in pieces is complete, made unless \<open>last_len\<close> is 0.\<close>

definition check_complete :: "bytes \<Rightarrow> nat \<Rightarrow> bytes pres" where
  "check_complete buf last_len = (if last_len \<noteq> 0 then is_complete buf last_len else POk buf)"

definition phr_parse_request ::
  "bool \<Rightarrow> nat \<Rightarrow> bytes \<Rightarrow> nat \<Rightarrow> int option \<times> phr_request"
where
  "phr_parse_request sse max_headers buf last_len =
    (let q = \<lparr>rq_method = [], rq_path = [], rq_minor = -1, rq_headers = []\<rparr>;
         (r, q) = pthen (check_complete buf last_len) q (\<lambda>_. parse_request sse max_headers buf q)
     in (phr_return (length buf) r, q))"

section \<open>Responses and bare headers\<close>

definition parse_response ::
  "bool \<Rightarrow> nat \<Rightarrow> bytes \<Rightarrow> phr_response \<Rightarrow> bytes pres \<times> phr_response"
where
  "parse_response sse max_headers buf q =
    pthen (parse_http_version buf) q (\<lambda>(v, buf). let q = q\<lparr>rs_minor := v\<rparr> in
    pthen (EXPECT_CHAR_NO_CHECK 32 buf) q (\<lambda>buf.
    if length buf < 4 then (PRet (-2), q)
    else let (r, st) = PARSE_INT_3 buf (rs_status q); q = q\<lparr>rs_status := st\<rparr> in
    pthen r q (\<lambda>buf.
    pthen (get_token_to_eol sse buf) q (\<lambda>(msg, buf). let q = q\<lparr>rs_msg := msg\<rparr> in
    if msg \<noteq> [] \<and> hd msg \<noteq> 32 then (PRet (-1), q)
    else let q = q\<lparr>rs_msg := tl msg\<rparr>;
             (r, hs) = parse_headers sse max_headers buf [] in (r, q\<lparr>rs_headers := hs\<rparr>)))))"

definition phr_parse_response ::
  "bool \<Rightarrow> nat \<Rightarrow> bytes \<Rightarrow> nat \<Rightarrow> int option \<times> phr_response"
where
  "phr_parse_response sse max_headers buf last_len =
    (let q = \<lparr>rs_minor = -1, rs_status = 0, rs_msg = [], rs_headers = []\<rparr>;
         (r, q) = pthen (check_complete buf last_len) q (\<lambda>_. parse_response sse max_headers buf q)
     in (phr_return (length buf) r, q))"

definition phr_parse_headers ::
  "bool \<Rightarrow> nat \<Rightarrow> bytes \<Rightarrow> nat \<Rightarrow> int option \<times> phr_header list"
where
  "phr_parse_headers sse max_headers buf last_len =
    (let (r, hs) = pthen (check_complete buf last_len) [] (\<lambda>_. parse_headers sse max_headers buf [])
     in (phr_return (length buf) r, hs))"

end
