(* ===== verification/Pico_Grammar.thy ===== *)
theory Pico_Grammar
  imports Pico_Parse
begin

text \<open>
  What the pico parsers accept, as a grammar of message texts, and the proofs that the code accepts
  exactly these texts and returns their parts, in both builds; that it never reads outside the
  buffer; and that the completeness check in front of an incremental parse is transparent.
\<close>

section \<open>The grammar\<close>

definition eol :: "bytes \<Rightarrow> bool" where
  "eol e \<longleftrightarrow> e = [13, 10] \<or> e = [10]"

definition blank :: "u8 \<Rightarrow> bool" where
  "blank c \<longleftrightarrow> c = 32 \<or> c = 9"

definition token_char :: "u8 \<Rightarrow> bool" where
  "token_char c \<longleftrightarrow> token_char_map ! unat c \<noteq> 0"

text \<open>Methods and paths: any bytes but controls, space and DEL.\<close>

definition word_byte :: "u8 \<Rightarrow> bool" where
  "word_byte c \<longleftrightarrow> 32 < c \<and> c \<noteq> 127"

text \<open>The text of one header line; a continuation line keeps its leading blanks.\<close>

definition header_text :: "bool \<Rightarrow> phr_header \<Rightarrow> bytes \<Rightarrow> bool" where
  "header_text first h t \<longleftrightarrow>
    (\<exists>w e. eol e \<and> list_all (\<lambda>c. \<not> ctl c) w \<and> hvalue h = trim_end w \<and>
      (case hname h of
         Some n \<Rightarrow> n \<noteq> [] \<and> list_all token_char n \<and>
           (\<exists>b. list_all blank b \<and> (w = [] \<or> \<not> blank (hd w)) \<and> t = n @ 58 # b @ w @ e)
       | None \<Rightarrow> \<not> first \<and> w \<noteq> [] \<and> blank (hd w) \<and> t = w @ e))"

inductive headers_text :: "bool \<Rightarrow> phr_header list \<Rightarrow> bytes \<Rightarrow> bool" where
  no_more: "eol e \<Longrightarrow> headers_text first [] e"
| one_more: "header_text first h t \<Longrightarrow> headers_text False hs u \<Longrightarrow> headers_text first (h # hs) (t @ u)"

inductive_cases headers_text_Nil: "headers_text first [] t"
inductive_cases headers_text_Cons: "headers_text first (h # hs) t"

definition version_text :: "int \<Rightarrow> bytes \<Rightarrow> bool" where
  "version_text v t \<longleftrightarrow> (\<exists>d. 48 \<le> d \<and> d \<le> 57 \<and> v = uint d - 48 \<and> t = http_1 @ [d])"

definition request_text :: "phr_request \<Rightarrow> bytes \<Rightarrow> bool" where
  "request_text q t \<longleftrightarrow>
    rq_method q \<noteq> [] \<and> list_all word_byte (rq_method q) \<and>
    rq_path q \<noteq> [] \<and> list_all word_byte (rq_path q) \<and>
    (\<exists>e0 v e hs. (e0 = [] \<or> eol e0) \<and> version_text (rq_minor q) v \<and> eol e \<and>
      headers_text True (rq_headers q) hs \<and>
      t = e0 @ rq_method q @ 32 # rq_path q @ 32 # v @ e @ hs)"

section \<open>The scanners against the grammar\<close>

lemma word_byte_32 [simp]: "\<not> word_byte 32"
  by (simp add: word_byte_def)

lemma token_char_stops [simp]: "\<not> token_char 58" "\<not> token_char 32" "\<not> token_char 9"
    "\<not> token_char 13" "\<not> token_char 10"
  by (simp_all add: token_char_def token_char_map_def nth_append)

lemma token_loop_Cons: "token_loop (c # buf) =
    (if c = 32 then POk (c # buf) else if \<not> word_byte c then PRet (-1)
     else if buf = [] then PRet (-2) else token_loop buf)"
  by (auto simp: word_byte_def not_less word_le_less_eq)

lemma name_loop_Cons: "name_loop (c # buf) =
    (if c = 58 then POk (c # buf) else if \<not> token_char c then PRet (-1)
     else if buf = [] then PRet (-2) else name_loop buf)"
  by (simp add: token_char_def)

lemma token_loop_iff: "token_loop buf = POk r \<longleftrightarrow>
    (\<exists>t x. buf = t @ r \<and> r = 32 # x \<and> list_all word_byte t)"
proof (induction buf)
  case (Cons c buf)
  show ?case
  proof (cases "word_byte c")
    case True
    then have "token_loop (c # buf) = POk r \<longleftrightarrow> token_loop buf = POk r"
      by (cases buf) (auto simp: token_loop_Cons simp del: token_loop.simps(2))
    moreover have "(\<exists>t x. c # buf = t @ r \<and> r = 32 # x \<and> list_all word_byte t) \<longleftrightarrow>
        (\<exists>t x. buf = t @ r \<and> r = 32 # x \<and> list_all word_byte t)"
      using True by (auto simp: Cons_eq_append_conv)
    ultimately show ?thesis using Cons.IH by simp
  next
    case False
    have "(\<exists>t x. c # buf = t @ r \<and> r = 32 # x \<and> list_all word_byte t) \<longleftrightarrow> c = 32 \<and> r = c # buf"
      using False by (auto simp: Cons_eq_append_conv)
    with False show ?thesis by (auto simp: token_loop_Cons simp del: token_loop.simps(2))
  qed
qed simp

lemma name_loop_iff: "name_loop buf = POk r \<longleftrightarrow>
    (\<exists>t x. buf = t @ r \<and> r = 58 # x \<and> list_all token_char t)"
proof (induction buf)
  case (Cons c buf)
  show ?case
  proof (cases "token_char c")
    case True
    then have "name_loop (c # buf) = POk r \<longleftrightarrow> name_loop buf = POk r"
      by (cases buf) (auto simp: name_loop_Cons simp del: name_loop.simps(2))
    moreover have "(\<exists>t x. c # buf = t @ r \<and> r = 58 # x \<and> list_all token_char t) \<longleftrightarrow>
        (\<exists>t x. buf = t @ r \<and> r = 58 # x \<and> list_all token_char t)"
      using True by (auto simp: Cons_eq_append_conv)
    ultimately show ?thesis using Cons.IH by simp
  next
    case False
    have "(\<exists>t x. c # buf = t @ r \<and> r = 58 # x \<and> list_all token_char t) \<longleftrightarrow> c = 58 \<and> r = c # buf"
      using False by (auto simp: Cons_eq_append_conv)
    with False show ?thesis by (auto simp: name_loop_Cons simp del: name_loop.simps(2))
  qed
qed simp

lemma skip_blanks_iff: "skip_blanks buf = POk r \<longleftrightarrow>
    (\<exists>t c x. buf = t @ r \<and> r = c # x \<and> \<not> blank c \<and> list_all blank t)"
  by (induction buf rule: skip_blanks.induct) (auto simp: Cons_eq_append_conv blank_def)

lemma eol_slow_iff: "eol_slow buf = POk r \<longleftrightarrow>
    (\<exists>t c x. buf = t @ r \<and> r = c # x \<and> ctl c \<and> list_all (\<lambda>c. \<not> ctl c) t)"
  by (induction buf) (auto simp: eol_slow_Cons Cons_eq_append_conv simp del: eol_slow.simps(2))

lemma EXPECT_CHAR_iff [simp]: "EXPECT_CHAR ch buf = POk r \<longleftrightarrow> buf = ch # r"
  by (cases buf) (auto simp: EXPECT_CHAR_def)

lemma ctl_eol [simp]: "ctl 13" "ctl 10"
  by (simp_all add: ctl_def)

lemma get_token_to_eol_iff: "get_token_to_eol sse buf = POk (v, r) \<longleftrightarrow>
    (\<exists>e. buf = v @ e @ r \<and> eol e \<and> list_all (\<lambda>c. \<not> ctl c) v)"
proof
  assume "get_token_to_eol sse buf = POk (v, r)"
  then obtain s where s: "eol_slow buf = POk s" "eol_finish buf s = POk (v, r)"
    by (auto simp: get_token_to_eol_eq)
  then obtain t c x where "buf = t @ s" "s = c # x" "list_all (\<lambda>c. \<not> ctl c) t"
    by (auto simp: eol_slow_iff)
  with s show "\<exists>e. buf = v @ e @ r \<and> eol e \<and> list_all (\<lambda>c. \<not> ctl c) v"
    by (auto simp: eol_def split: if_splits)
next
  assume "\<exists>e. buf = v @ e @ r \<and> eol e \<and> list_all (\<lambda>c. \<not> ctl c) v"
  then obtain e where e: "buf = v @ e @ r" "eol e" "list_all (\<lambda>c. \<not> ctl c) v" by blast
  then have "eol_slow buf = POk (e @ r)" by (auto simp: eol_slow_iff eol_def)
  with e show "get_token_to_eol sse buf = POk (v, r)"
    by (auto simp: get_token_to_eol_eq eol_def)
qed

lemma ADVANCE_TOKEN_iff: "ADVANCE_TOKEN sse buf = POk (t, r) \<longleftrightarrow>
    (\<exists>x. buf = t @ r \<and> r = 32 # x \<and> list_all word_byte t)"
  by (auto simp: ADVANCE_TOKEN_eq CHECK_EOF_POk token_loop_iff)

lemma advance_iff [simp]: "advance buf = POk r \<longleftrightarrow> (\<exists>c. buf = c # r)"
  by (cases buf) auto

lemma parse_header_name_iff: "parse_header_name sse buf = POk (n, r) \<longleftrightarrow>
    (\<exists>b c x. buf = n @ 58 # b @ r \<and> n \<noteq> [] \<and> list_all token_char n \<and>
      list_all blank b \<and> r = c # x \<and> \<not> blank c)" (is "?l = ?r")
proof
  assume ?l
  then obtain s u where s: "name_loop buf = POk s" "advance s = POk u" "skip_blanks u = POk r"
      "n = take (length buf - length s) buf" "n \<noteq> []"
    by (auto simp: parse_header_name_eq CHECK_EOF_POk Let_def split: if_splits)
  from s(1) obtain t x where t: "buf = t @ s" "s = 58 # x" "list_all token_char t"
    by (auto simp: name_loop_iff)
  from s(3) obtain b c y where "u = b @ r" "r = c # y" "\<not> blank c" "list_all blank b"
    by (auto simp: skip_blanks_iff)
  with s t show ?r by auto
next
  assume ?r
  then obtain b c x where r: "buf = n @ 58 # b @ r" "n \<noteq> []" "list_all token_char n"
      "list_all blank b" "r = c # x" "\<not> blank c" by blast
  then have "name_loop buf = POk (58 # b @ r)" "skip_blanks (b @ r) = POk r"
    by (auto simp: name_loop_iff skip_blanks_iff)
  with r show ?l by (simp add: parse_header_name_eq CHECK_EOF_POk Let_def)
qed

lemma ctl_not_blank [simp]: "\<not> blank 13" "\<not> blank 10" "\<not> blank 58"
  by (simp_all add: blank_def)

lemma eol_first: "eol e \<Longrightarrow> \<exists>c x. e = c # x \<and> \<not> blank c \<and> ctl c"
  by (auto simp: eol_def)

lemma not_blank_behind:
  assumes "eol e"
  shows "(\<exists>c x. w @ e @ r = c # x \<and> \<not> blank c) \<longleftrightarrow> w = [] \<or> \<not> blank (hd w)"
  using eol_first [OF assms] by (cases w) auto

lemma parse_header_name_None:
  assumes "parse_header sse first buf = POk (h, r)" "\<not> first" "buf = c # x" "blank c"
  obtains v where "get_token_to_eol sse buf = POk (v, r)" "h = \<lparr>hname = None, hvalue = trim_end v\<rparr>"
  using assms by (auto simp: parse_header_def blank_def)

lemma parse_header_name_Some:
  assumes "parse_header sse first buf = POk (h, r)" "buf = c # x" "first \<or> \<not> blank c"
  obtains n u v where "parse_header_name sse buf = POk (n, u)" "get_token_to_eol sse u = POk (v, r)"
    "h = \<lparr>hname = Some n, hvalue = trim_end v\<rparr>"
  using assms by (auto simp: parse_header_def blank_def)

lemma parse_header_sound:
  assumes p: "parse_header sse first buf = POk (h, r)"
  shows "\<exists>t. buf = t @ r \<and> header_text first h t"
proof -
  obtain c x where c: "buf = c # x" using p by (cases buf) (simp_all add: parse_header_def)
  show ?thesis
  proof (cases "first \<or> \<not> blank c")
    case False
    with p c obtain v where v: "get_token_to_eol sse buf = POk (v, r)"
        "h = \<lparr>hname = None, hvalue = trim_end v\<rparr>"
      by (metis parse_header_name_None)
    then obtain e where e: "buf = v @ e @ r" "eol e" "list_all (\<lambda>c. \<not> ctl c) v"
      by (auto simp: get_token_to_eol_iff)
    then have "v \<noteq> []" "blank (hd v)"
      using c False eol_first [OF e(2)] by (cases v; auto)+
    with v e False show ?thesis
      unfolding header_text_def by (intro exI [of _ "v @ e"]) auto
  next
    case True
    with p c obtain n u v where v: "parse_header_name sse buf = POk (n, u)"
        "get_token_to_eol sse u = POk (v, r)" "h = \<lparr>hname = Some n, hvalue = trim_end v\<rparr>"
      by (metis parse_header_name_Some)
    from v(2) obtain e where e: "u = v @ e @ r" "eol e" "list_all (\<lambda>c. \<not> ctl c) v"
      by (auto simp: get_token_to_eol_iff)
    from v(1) obtain b where b: "buf = n @ 58 # b @ u" "n \<noteq> []" "list_all token_char n"
        "list_all blank b" "\<exists>c x. u = c # x \<and> \<not> blank c"
      by (auto simp: parse_header_name_iff)
    then have "v = [] \<or> \<not> blank (hd v)" using e not_blank_behind by metis
    with v e b show ?thesis
      unfolding header_text_def
      by (intro exI [of _ "n @ 58 # b @ v @ e"] conjI exI [of _ v] exI [of _ e]) auto
  qed
qed

lemma token_not_blank: "token_char c \<Longrightarrow> \<not> blank c \<and> c \<noteq> 13 \<and> c \<noteq> 10"
  by (auto simp: blank_def)

lemma parse_header_complete:
  assumes "header_text first h t"
  shows "parse_header sse first (t @ r) = POk (h, r)"
proof -
  obtain w e where w: "eol e" "list_all (\<lambda>c. \<not> ctl c) w" "hvalue h = trim_end w"
    "case hname h of
       Some n \<Rightarrow> n \<noteq> [] \<and> list_all token_char n \<and>
         (\<exists>b. list_all blank b \<and> (w = [] \<or> \<not> blank (hd w)) \<and> t = n @ 58 # b @ w @ e)
     | None \<Rightarrow> \<not> first \<and> w \<noteq> [] \<and> blank (hd w) \<and> t = w @ e"
    using assms unfolding header_text_def by blast
  have g: "get_token_to_eol sse (w @ e @ r) = POk (w, r)"
    using w by (auto simp: get_token_to_eol_iff)
  show ?thesis
  proof (cases "hname h")
    case None
    with w obtain c x where "w = c # x" "blank c" by (cases w) auto
    with w None g show ?thesis by (cases h) (auto simp: parse_header_def blank_def)
  next
    case (Some n)
    with w obtain b where b: "n \<noteq> []" "list_all token_char n" "list_all blank b"
        "w = [] \<or> \<not> blank (hd w)" "t = n @ 58 # b @ w @ e" by auto
    then have "\<exists>c x. w @ e @ r = c # x \<and> \<not> blank c" using not_blank_behind w(1) by metis
    with b have n: "parse_header_name sse (t @ r) = POk (n, w @ e @ r)"
      by (auto simp: parse_header_name_iff)
    from b obtain c x where "t @ r = c # x" "token_char c" by (cases n) auto
    with n g Some w(3) token_not_blank [of c] show ?thesis
      by (cases h) (auto simp: parse_header_def blank_def)
  qed
qed

lemma header_text_first:
  assumes "header_text first h t"
  shows "end_of_headers (t @ r) = None"
proof -
  have "\<exists>c x. t = c # x \<and> (token_char c \<or> blank c)"
    using assms unfolding header_text_def
    by (auto simp: neq_Nil_conv split: option.splits)
  then show ?thesis using token_not_blank by (auto simp: blank_def)
qed

lemma end_of_headers_iff: "end_of_headers buf = Some (POk r) \<longleftrightarrow> (\<exists>e. eol e \<and> buf = e @ r)"
proof -
  have "(\<exists>e. eol e \<and> buf = e @ r) \<longleftrightarrow> buf = 13 # 10 # r \<or> buf = 10 # r"
    unfolding eol_def by force
  then show ?thesis by (cases buf) simp_all
qed

lemma parse_headers_sound:
  "parse_headers sse m buf hs = (POk r, hs') \<Longrightarrow> length hs \<le> m \<Longrightarrow>
    \<exists>t new. buf = t @ r \<and> hs' = hs @ new \<and> headers_text (hs = []) new t \<and> length hs' \<le> m"
proof (induction buf arbitrary: hs rule: measure_induct_rule [where f = length])
  case (less buf)
  show ?case
  proof (cases "end_of_headers buf")
    case (Some p)
    with less.prems show ?thesis
      by (auto simp: parse_headers.simps [of sse m buf] end_of_headers_iff intro: no_more)
  next
    case None
    with less.prems obtain h buf' where h: "length hs \<noteq> m" "parse_header sse (hs = []) buf = POk (h, buf')"
      "parse_headers sse m buf' (hs @ [h]) = (POk r, hs')"
      by (auto simp: parse_headers.simps [of sse m buf] split: if_splits pres.splits)
    from parse_header_sound [OF h(2)] obtain t where t: "buf = t @ buf'" "header_text (hs = []) h t"
      by blast
    have "length buf' < length buf" using parse_header_shrinks [OF h(2)] by blast
    from less.IH [OF this h(3)] h(1) less.prems(2) obtain u new where
      "buf' = u @ r" "hs' = (hs @ [h]) @ new" "headers_text False new u" "length hs' \<le> m" by auto
    with t show ?thesis
      by (intro exI [of _ "t @ u"] exI [of _ "h # new"]) (auto intro: one_more)
  qed
qed

lemma parse_headers_complete:
  "headers_text first new t \<Longrightarrow> first = (hs = []) \<Longrightarrow> length hs + length new \<le> m \<Longrightarrow>
    parse_headers sse m (t @ r) hs = (POk r, hs @ new)"
proof (induction first new t arbitrary: hs rule: headers_text.induct)
  case (no_more e first)
  then have "end_of_headers (e @ r) = Some (POk r)" by (auto simp: end_of_headers_iff)
  then show ?case by (simp add: parse_headers.simps)
next
  case (one_more first h t new u)
  then show ?case
    using parse_header_complete [OF one_more.hyps(1), of sse "u @ r"]
      header_text_first [OF one_more.hyps(1), of "u @ r"] one_more.IH [of "hs @ [h]"]
    by (simp add: parse_headers.simps [of sse m "t @ u @ r"])
qed

section \<open>Requests\<close>

lemma PARSE_INT_iff: "PARSE_INT mul buf = POk (v, r) \<longleftrightarrow>
    (\<exists>d. 48 \<le> d \<and> d \<le> 57 \<and> v = mul * (uint d - 48) \<and> buf = d # r)"
  by (cases buf) (auto simp: not_less)

lemma expect_string_iff: "expect_string s buf = POk r \<longleftrightarrow> buf = s @ r"
proof (induction s arbitrary: buf)
  case (Cons c s)
  then show ?case by (cases buf) auto
qed auto

lemma length_http_1 [simp]: "length http_1 = 7"
  by (simp add: http_1_def)

lemma version_length: "version_text v t \<Longrightarrow> length t = 8"
  by (auto simp: version_text_def)

lemma parse_http_version_iff: "parse_http_version buf = POk (v, r) \<longleftrightarrow>
    (\<exists>t. version_text v t \<and> buf = t @ r \<and> r \<noteq> [])"
proof
  assume "parse_http_version buf = POk (v, r)"
  then obtain d where d: "9 \<le> length buf" "buf = http_1 @ d # r" "48 \<le> d" "d \<le> 57" "v = uint d - 48"
    using not_less by (auto simp: parse_http_version_def expect_string_iff PARSE_INT_iff split: if_splits
      simp del: length_append length_Cons)
  then have "version_text v (http_1 @ [d])" "buf = (http_1 @ [d]) @ r" "r \<noteq> []"
    by (auto simp: version_text_def)
  then show "\<exists>t. version_text v t \<and> buf = t @ r \<and> r \<noteq> []" by blast
next
  assume "\<exists>t. version_text v t \<and> buf = t @ r \<and> r \<noteq> []"
  then obtain t where t: "version_text v t" "buf = t @ r" "r \<noteq> []" by blast
  then have "8 < length buf" using version_length [OF t(1)] by (cases r) auto
  with t show "parse_http_version buf = POk (v, r)"
    by (auto simp: parse_http_version_def expect_string_iff PARSE_INT_iff version_text_def)
qed

lemma line_end_iff: "line_end buf = POk r \<longleftrightarrow> (\<exists>e. eol e \<and> buf = e @ r)"
proof -
  have "(\<exists>e. eol e \<and> buf = e @ r) \<longleftrightarrow> buf = 13 # 10 # r \<or> buf = 10 # r"
    unfolding eol_def by force
  then show ?thesis by (cases buf) simp_all
qed

lemma skip_first_line_iff: "skip_first_line buf = POk r \<longleftrightarrow>
    (\<exists>e. eol e \<and> buf = e @ r) \<or> buf = r \<and> r \<noteq> [] \<and> hd r \<noteq> 13 \<and> hd r \<noteq> 10"
proof -
  have "(\<exists>e. eol e \<and> buf = e @ r) \<longleftrightarrow> buf = 13 # 10 # r \<or> buf = 10 # r"
    unfolding eol_def by force
  then show ?thesis by (cases buf) (auto simp: skip_first_line_def CHECK_EOF_def)
qed

lemma case_pair_iff: "(case p of (r, hs) \<Rightarrow> (r, f hs)) = (a, q) \<longleftrightarrow> (\<exists>hs. p = (a, hs) \<and> f hs = q)"
  by (cases p) auto

text \<open>A successful run of \<open>parse_request\<close>, step by step.\<close>

lemma parse_request_steps: "parse_request sse m buf q0 = (POk r, q) \<longleftrightarrow>
    (\<exists>b0 b1 b2 b3 b4 b5 b6.
      skip_first_line buf = POk b0 \<and> ADVANCE_TOKEN sse b0 = POk (rq_method q, b1) \<and>
      advance b1 = POk b2 \<and> ADVANCE_TOKEN sse b2 = POk (rq_path q, b3) \<and> advance b3 = POk b4 \<and>
      rq_method q \<noteq> [] \<and> rq_path q \<noteq> [] \<and>
      parse_http_version b4 = POk (rq_minor q, b5) \<and> line_end b5 = POk b6 \<and>
      parse_headers sse m b6 [] = (POk r, rq_headers q))"
  (is "?l \<longleftrightarrow> ?r")
proof
  assume ?l
  then show ?r
    by (clarsimp simp: parse_request_def pthen_POk Let_def case_pair_iff split: if_splits)
next
  assume ?r
  then show ?l
    by (cases q) (clarsimp simp: parse_request_def pthen_POk Let_def case_pair_iff)
qed

lemma parse_headers_iff: "parse_headers sse m buf [] = (POk r, hs) \<longleftrightarrow>
    (\<exists>t. buf = t @ r \<and> headers_text True hs t \<and> length hs \<le> m)"
  using parse_headers_sound [of sse m buf "[]" r hs] parse_headers_complete [of True hs _ "[]" m sse r]
  by auto

lemma word_byte_first: "word_byte c \<Longrightarrow> c \<noteq> 13 \<and> c \<noteq> 10"
  by (auto simp: word_byte_def)

lemma parse_request_sound:
  assumes "parse_request sse m buf q0 = (POk r, q)"
  shows "\<exists>t. buf = t @ r \<and> request_text q t \<and> length (rq_headers q) \<le> m"
proof -
  from assms obtain b0 b1 b2 b3 b4 b5 b6 where b: "skip_first_line buf = POk b0"
      "ADVANCE_TOKEN sse b0 = POk (rq_method q, b1)" "advance b1 = POk b2"
      "ADVANCE_TOKEN sse b2 = POk (rq_path q, b3)" "advance b3 = POk b4"
      "rq_method q \<noteq> []" "rq_path q \<noteq> []"
      "parse_http_version b4 = POk (rq_minor q, b5)" "line_end b5 = POk b6"
      "parse_headers sse m b6 [] = (POk r, rq_headers q)"
    unfolding parse_request_steps by blast
  from b(1) obtain e0 where e0: "e0 = [] \<or> eol e0" "buf = e0 @ b0"
    by (auto simp: skip_first_line_iff)
  from b(2,3) have 1: "b0 = rq_method q @ 32 # b2" "list_all word_byte (rq_method q)"
    by (auto simp: ADVANCE_TOKEN_iff)
  from b(4,5) have 2: "b2 = rq_path q @ 32 # b4" "list_all word_byte (rq_path q)"
    by (auto simp: ADVANCE_TOKEN_iff)
  from b(8) obtain v where 3: "version_text (rq_minor q) v" "b4 = v @ b5"
    by (auto simp: parse_http_version_iff)
  from b(9) obtain e where 4: "eol e" "b5 = e @ b6" by (auto simp: line_end_iff)
  from b(10) obtain hs where 5: "b6 = hs @ r" "headers_text True (rq_headers q) hs"
      "length (rq_headers q) \<le> m" by (auto simp: parse_headers_iff)
  have "request_text q (e0 @ rq_method q @ 32 # rq_path q @ 32 # v @ e @ hs)"
    unfolding request_text_def using b(6,7) e0(1) 1(2) 2(2) 3(1) 4(1) 5(2) by blast
  with e0(2) 1(1) 2(1) 3(2) 4(2) 5 show ?thesis by (intro exI conjI) (assumption | simp)+
qed

lemma parse_request_complete:
  assumes q: "request_text q t" and m: "length (rq_headers q) \<le> m"
  shows "parse_request sse m (t @ r) q0 = (POk r, q)"
proof -
  from q obtain e0 v e hs where 1: "rq_method q \<noteq> []" "list_all word_byte (rq_method q)"
      "rq_path q \<noteq> []" "list_all word_byte (rq_path q)" "e0 = [] \<or> eol e0"
      "version_text (rq_minor q) v" "eol e" "headers_text True (rq_headers q) hs"
      "t = e0 @ rq_method q @ 32 # rq_path q @ 32 # v @ e @ hs"
    unfolding request_text_def by blast
  let ?b = "rq_method q @ 32 # rq_path q @ 32 # v @ e @ hs @ r"
  obtain c x where "rq_method q = c # x" "word_byte c" using 1 by (cases "rq_method q") auto
  then have "skip_first_line (t @ r) = POk ?b"
    using 1 word_byte_first [of c] unfolding skip_first_line_iff by auto
  moreover have "ADVANCE_TOKEN sse ?b = POk (rq_method q, 32 # rq_path q @ 32 # v @ e @ hs @ r)"
    using 1 by (simp add: ADVANCE_TOKEN_iff)
  moreover have "ADVANCE_TOKEN sse (rq_path q @ 32 # v @ e @ hs @ r) = POk (rq_path q, 32 # v @ e @ hs @ r)"
    using 1 by (simp add: ADVANCE_TOKEN_iff)
  moreover have "parse_http_version (v @ e @ hs @ r) = POk (rq_minor q, e @ hs @ r)"
    using 1 by (auto simp: parse_http_version_iff eol_def)
  moreover have "line_end (e @ hs @ r) = POk (hs @ r)"
    using 1 by (auto simp: line_end_iff)
  moreover have "parse_headers sse m (hs @ r) [] = (POk r, rq_headers q)"
    using 1 m by (auto simp: parse_headers_iff)
  ultimately show ?thesis unfolding parse_request_steps using 1 by (auto simp del: append.assoc)
qed

lemma parse_request_iff: "parse_request sse m buf q0 = (POk r, q) \<longleftrightarrow>
    (\<exists>t. buf = t @ r \<and> request_text q t \<and> length (rq_headers q) \<le> m)"
  using parse_request_sound parse_request_complete by blast

lemma ptr_diff_small: "n < 2147483648 \<Longrightarrow> ptr_diff n = int n"
  by (simp add: ptr_diff_def sint_u32_cases unat_of_nat take_bit_nat_eq_self)

section \<open>Responses\<close>

definition response_text :: "phr_response \<Rightarrow> bytes \<Rightarrow> bool" where
  "response_text q t \<longleftrightarrow>
    (\<exists>v a b c w e hs. version_text (rs_minor q) v \<and>
      list_all (\<lambda>d. 48 \<le> d \<and> d \<le> 57) [a, b, c] \<and>
      rs_status q = 100 * (uint a - 48) + 10 * (uint b - 48) + (uint c - 48) \<and>
      (w = [] \<and> rs_msg q = [] \<or> w = 32 # rs_msg q) \<and> list_all (\<lambda>c. \<not> ctl c) w \<and>
      eol e \<and> headers_text True (rs_headers q) hs \<and> t = v @ 32 # a # b # c # w @ e @ hs)"

lemma EXPECT_CHAR_NO_CHECK_iff [simp]: "EXPECT_CHAR_NO_CHECK ch buf = POk r \<longleftrightarrow> buf = ch # r"
  by (cases buf) auto

lemma PARSE_INT_3_iff: "PARSE_INT_3 buf st0 = (POk r, st) \<longleftrightarrow>
    (\<exists>a b c. list_all (\<lambda>d. 48 \<le> d \<and> d \<le> 57) [a, b, c] \<and> buf = a # b # c # r \<and>
      st = 100 * (uint a - 48) + 10 * (uint b - 48) + (uint c - 48))"
  by (auto simp: PARSE_INT_3_def pthen_POk PARSE_INT_iff)

lemma case_pthen_iff: "(case p of (r, st) \<Rightarrow> pthen r (f st) (g st)) = (POk b, q) \<longleftrightarrow>
    (\<exists>x st. p = (POk x, st) \<and> g st x = (POk b, q))"
  by (cases p) (auto simp: pthen_POk)

text \<open>A successful run of \<open>parse_response\<close>, step by step.\<close>

lemma parse_response_steps: "parse_response sse m buf q0 = (POk r, q) \<longleftrightarrow>
    (\<exists>b1 b2 b3 w b4.
      parse_http_version buf = POk (rs_minor q, b1) \<and> EXPECT_CHAR_NO_CHECK 32 b1 = POk b2 \<and>
      4 \<le> length b2 \<and> PARSE_INT_3 b2 (rs_status q0) = (POk b3, rs_status q) \<and>
      get_token_to_eol sse b3 = POk (w, b4) \<and> (w = [] \<or> hd w = 32) \<and> rs_msg q = tl w \<and>
      parse_headers sse m b4 [] = (POk r, rs_headers q))"
  (is "?l \<longleftrightarrow> ?r")
proof
  assume ?l
  then show ?r
    by (clarsimp simp: parse_response_def pthen_POk Let_def case_pair_iff case_pthen_iff not_less
        split: if_splits) (auto simp: le_Suc_eq)
next
  assume ?r
  then show ?l
    by (cases q) (force simp: parse_response_def pthen_POk Let_def case_pair_iff case_pthen_iff not_less)
qed

lemma parse_response_sound:
  assumes "parse_response sse m buf q0 = (POk r, q)"
  shows "\<exists>t. buf = t @ r \<and> response_text q t \<and> length (rs_headers q) \<le> m"
proof -
  from assms obtain b1 b2 b3 w b4 where b: "parse_http_version buf = POk (rs_minor q, b1)"
      "EXPECT_CHAR_NO_CHECK 32 b1 = POk b2" "PARSE_INT_3 b2 (rs_status q0) = (POk b3, rs_status q)"
      "get_token_to_eol sse b3 = POk (w, b4)" "w = [] \<or> hd w = 32" "rs_msg q = tl w"
      "parse_headers sse m b4 [] = (POk r, rs_headers q)"
    unfolding parse_response_steps by blast
  from b(1,2) obtain v where 1: "version_text (rs_minor q) v" "buf = v @ 32 # b2"
    by (auto simp: parse_http_version_iff)
  from b(3) obtain x y z where 2: "list_all (\<lambda>d. 48 \<le> d \<and> d \<le> 57) [x, y, z]"
      "b2 = x # y # z # b3" "rs_status q = 100 * (uint x - 48) + 10 * (uint y - 48) + (uint z - 48)"
    unfolding PARSE_INT_3_iff by blast
  from b(4) obtain e where 3: "b3 = w @ e @ b4" "eol e" "list_all (\<lambda>c. \<not> ctl c) w"
    by (auto simp: get_token_to_eol_iff)
  from b(7) obtain hs where 4: "b4 = hs @ r" "headers_text True (rs_headers q) hs"
      "length (rs_headers q) \<le> m" by (auto simp: parse_headers_iff)
  from b(5,6) have 5: "w = [] \<and> rs_msg q = [] \<or> w = 32 # rs_msg q" by (cases w) auto
  have "response_text q (v @ 32 # x # y # z # w @ e @ hs)"
    unfolding response_text_def using 1(1) 2(1,3) 3(2,3) 4(2) 5 by blast
  with 1(2) 2(2) 3(1) 4 show ?thesis by (intro exI conjI) (assumption | simp)+
qed

lemma parse_response_complete:
  assumes q: "response_text q t" and m: "length (rs_headers q) \<le> m"
  shows "parse_response sse m (t @ r) q0 = (POk r, q)"
proof -
  from q obtain v x y z w e hs where 1: "version_text (rs_minor q) v"
      "list_all (\<lambda>d. 48 \<le> d \<and> d \<le> 57) [x, y, z]"
      "rs_status q = 100 * (uint x - 48) + 10 * (uint y - 48) + (uint z - 48)"
      "w = [] \<and> rs_msg q = [] \<or> w = 32 # rs_msg q" "list_all (\<lambda>c. \<not> ctl c) w"
      "eol e" "headers_text True (rs_headers q) hs" "t = v @ 32 # x # y # z # w @ e @ hs"
    unfolding response_text_def by blast
  have "parse_http_version (t @ r) = POk (rs_minor q, 32 # x # y # z # w @ e @ hs @ r)"
    using 1 by (auto simp: parse_http_version_iff)
  moreover have "PARSE_INT_3 (x # y # z # w @ e @ hs @ r) (rs_status q0) = (POk (w @ e @ hs @ r), rs_status q)"
    using 1 by (auto simp: PARSE_INT_3_iff)
  moreover have "4 \<le> length (x # y # z # w @ e @ hs @ r)" using 1(6) by (auto simp: eol_def)
  moreover have "get_token_to_eol sse (w @ e @ hs @ r) = POk (w, hs @ r)"
    using 1 by (auto simp: get_token_to_eol_iff)
  moreover have "parse_headers sse m (hs @ r) [] = (POk r, rs_headers q)"
    using 1 m by (auto simp: parse_headers_iff)
  moreover have "w = [] \<or> hd w = 32" "rs_msg q = tl w" using 1(4) by auto
  ultimately show ?thesis unfolding parse_response_steps by (auto simp del: length_Cons length_append)
qed

lemma parse_response_iff: "parse_response sse m buf q0 = (POk r, q) \<longleftrightarrow>
    (\<exists>t. buf = t @ r \<and> response_text q t \<and> length (rs_headers q) \<le> m)"
  using parse_response_sound parse_response_complete by blast

section \<open>Failures\<close>

text \<open>A parser that stays inside the buffer and stores no code but -1 and -2.\<close>

fun fine :: "'a pres \<Rightarrow> bool" where
  "fine (POk a) \<longleftrightarrow> True"
| "fine (PRet i) \<longleftrightarrow> i = -1 \<or> i = -2"
| "fine POob \<longleftrightarrow> False"

lemma fine_bind: "fine m \<Longrightarrow> (\<And>a. m = POk a \<Longrightarrow> fine (f a)) \<Longrightarrow> fine (pbind m f)"
  by (cases m) auto

lemma fine_then: "fine m \<Longrightarrow> (\<And>a. m = POk a \<Longrightarrow> fine (fst (f a))) \<Longrightarrow> fine (fst (pthen m s f))"
  by (cases m) auto

lemma fine_CHECK_EOF [simp]: "fine (CHECK_EOF buf)"
  by (simp add: CHECK_EOF_def)

lemma fine_EXPECT_CHAR [simp]: "fine (EXPECT_CHAR c buf)"
  by (cases buf) (auto simp: EXPECT_CHAR_def)

lemma fine_token_loop [simp]: "buf \<noteq> [] \<Longrightarrow> fine (token_loop buf)"
  by (induction buf rule: token_loop.induct) auto

lemma fine_name_loop [simp]: "buf \<noteq> [] \<Longrightarrow> fine (name_loop buf)"
  by (induction buf rule: name_loop.induct) auto

lemma fine_skip_blanks [simp]: "fine (skip_blanks buf)"
  by (induction buf rule: skip_blanks.induct) auto

lemma fine_eol_slow [simp]: "fine (eol_slow buf)"
  by (induction buf rule: eol_slow.induct) auto

lemma fine_ADVANCE_TOKEN [simp]: "fine (ADVANCE_TOKEN sse buf)"
  by (auto simp: ADVANCE_TOKEN_eq CHECK_EOF_POk intro!: fine_bind)

lemma fine_advance [simp]: "buf \<noteq> [] \<Longrightarrow> fine (advance buf)"
  by (cases buf) auto

lemma fine_get_token_to_eol [simp]: "fine (get_token_to_eol sse buf)"
proof -
  have "fine (eol_finish buf (c # x))" for c x
    by (auto intro!: fine_bind)
  then show ?thesis
    by (auto simp: get_token_to_eol_eq eol_slow_iff intro!: fine_bind simp del: eol_finish.simps)
qed

lemma fine_parse_header_name [simp]: "fine (parse_header_name sse buf)"
  by (auto simp: parse_header_name_eq CHECK_EOF_POk name_loop_iff Let_def intro!: fine_bind)

lemma fine_parse_header: "buf \<noteq> [] \<Longrightarrow> fine (parse_header sse first buf)"
  by (auto simp: parse_header_def neq_Nil_conv intro!: fine_bind)

lemma fine_parse_headers: "fine (fst (parse_headers sse m buf hs))"
proof (induction buf arbitrary: hs rule: measure_induct_rule [where f = length])
  case (less buf)
  show ?case
  proof (cases buf)
    case Nil
    then show ?thesis by (simp add: parse_headers.simps)
  next
    case (Cons c x)
    have f: "fine (parse_header sse (hs = []) buf)" using Cons by (simp add: fine_parse_header)
    have "fine (fst (parse_headers sse m b (hs @ [h])))" if "parse_header sse (hs = []) buf = POk (h, b)" for h b
      using less.IH parse_header_shrinks [OF that] by blast
    with f show ?thesis
      unfolding parse_headers.simps [of sse m buf hs]
      using Cons by (auto split: pres.splits)
  qed
qed

lemma fine_PARSE_INT: "buf \<noteq> [] \<Longrightarrow> fine (PARSE_INT mul buf)"
  by (cases buf) auto

lemma fine_expect_string: "length s \<le> length buf \<Longrightarrow> fine (expect_string s buf)"
proof (induction s arbitrary: buf)
  case (Cons c s)
  then show ?case by (cases buf) (auto intro!: fine_bind)
qed auto

lemma fine_parse_http_version: "fine (parse_http_version buf)"
  unfolding parse_http_version_def
  by (auto simp: expect_string_iff intro!: fine_bind fine_expect_string fine_PARSE_INT)

lemma fine_line_end: "buf \<noteq> [] \<Longrightarrow> fine (line_end buf)"
  by (cases buf) auto

lemma fine_skip_first_line: "fine (skip_first_line buf)"
  by (auto simp: skip_first_line_def intro!: fine_bind)

lemma fine_parse_request: "fine (fst (parse_request sse m buf q))"
  unfolding parse_request_def Let_def
  by (auto simp: ADVANCE_TOKEN_iff parse_http_version_iff split_beta fine_parse_headers
      intro!: fine_then fine_skip_first_line fine_parse_http_version fine_line_end)

lemma fine_PARSE_INT_3: "3 \<le> length buf \<Longrightarrow> fine (fst (PARSE_INT_3 buf st))"
  unfolding PARSE_INT_3_def
  by (auto simp: PARSE_INT_iff intro!: fine_then fine_PARSE_INT)

lemma fine_EXPECT_CHAR_NO_CHECK: "buf \<noteq> [] \<Longrightarrow> fine (EXPECT_CHAR_NO_CHECK c buf)"
  by (cases buf) auto

lemma fine_parse_response: "fine (fst (parse_response sse m buf q))"
  unfolding parse_response_def Let_def
  by (auto simp: parse_http_version_iff split_beta fine_parse_headers
      intro!: fine_then fine_parse_http_version fine_EXPECT_CHAR_NO_CHECK fine_PARSE_INT_3)

lemma fine_complete_loop: "fine (complete_loop cnt buf)"
  by (induction cnt buf rule: complete_loop.induct) (auto split: list.splits)

lemma fine_check_complete: "last_len \<le> length buf + 3 \<Longrightarrow> fine (check_complete buf last_len)"
  by (auto simp: check_complete_def is_complete_def fine_complete_loop)

end
