(* ===== verification/Pico_Correct.thy ===== *)
theory Pico_Correct
  imports Pico_Grammar
begin

text \<open>
  The properties of the three entry points of \<open>picohttpparser.c\<close>: what they accept, that they stay
  inside the buffer, that the SSE build and the plain build agree, and that the completeness check
  of an incremental parse never changes the outcome for a message that has arrived in full.
\<close>

section \<open>What is accepted\<close>

lemma phr_return_POk:
  assumes "fine p" "k < 2147483648" "p = POk r \<longrightarrow> length r \<le> k"
  shows "phr_return k p = Some n \<and> 0 \<le> n \<longleftrightarrow> (\<exists>r. p = POk r \<and> n = int (k - length r))"
  using assms by (cases p) (auto simp: ptr_diff_small)

lemma phr_parse_request_0: "phr_parse_request sse m buf 0 =
    (let p = parse_request sse m buf \<lparr>rq_method = [], rq_path = [], rq_minor = -1, rq_headers = []\<rparr>
     in (phr_return (length buf) (fst p), snd p))"
  by (simp add: phr_parse_request_def check_complete_def Let_def split_beta)

lemma phr_parse_response_0: "phr_parse_response sse m buf 0 =
    (let p = parse_response sse m buf \<lparr>rs_minor = -1, rs_status = 0, rs_msg = [], rs_headers = []\<rparr>
     in (phr_return (length buf) (fst p), snd p))"
  by (simp add: phr_parse_response_def check_complete_def Let_def split_beta)

lemma accepts_iff:
  assumes fine: "fine (fst p)" and small: "length buf < 2147483648"
    and iff: "\<And>r q. p = (POk r, q) \<longleftrightarrow> (\<exists>t. buf = t @ r \<and> G q t)"
  shows "(phr_return (length buf) (fst p), snd p) = (Some n, q) \<and> 0 \<le> n \<longleftrightarrow>
    (\<exists>t r. buf = t @ r \<and> n = int (length t) \<and> G q t)"
proof -
  have "fst p = POk r \<longrightarrow> length r \<le> length buf" for r
    using iff [of r "snd p"] by (cases p) auto
  then have "phr_return (length buf) (fst p) = Some n \<and> 0 \<le> n \<longleftrightarrow>
      (\<exists>r. fst p = POk r \<and> n = int (length buf - length r))"
    using fine small by (cases "fst p") (auto simp: ptr_diff_small)
  then have "(phr_return (length buf) (fst p), snd p) = (Some n, q) \<and> 0 \<le> n \<longleftrightarrow>
      (\<exists>r. p = (POk r, q) \<and> n = int (length buf - length r))"
    by (auto simp: prod_eq_iff)
  also have "\<dots> \<longleftrightarrow> (\<exists>t r. buf = t @ r \<and> n = int (length t) \<and> G q t)"
    unfolding iff by auto
  finally show ?thesis .
qed

lemma request_accepts:
  assumes "length buf < 2147483648"
  shows "phr_parse_request sse m buf 0 = (Some n, q) \<and> 0 \<le> n \<longleftrightarrow>
    (\<exists>t r. buf = t @ r \<and> n = int (length t) \<and> request_text q t \<and> length (rq_headers q) \<le> m)"
  unfolding phr_parse_request_0 Let_def
  by (rule accepts_iff [OF fine_parse_request assms]) (rule parse_request_iff)

text \<open>
  C12 (requests).  \<open>phr_parse_request\<close> accepts exactly the buffers that start with a request of the
  grammar with at most the caller's number of headers; it returns the length of the request and
  its method, path, version and headers, in both builds.
\<close>

theorem phr_parse_request_grammar:
  assumes "length buf < 2147483648"
  shows "phr_parse_request sse m buf 0 = (Some n, q) \<and> 0 \<le> n \<longleftrightarrow>
    (\<exists>t r. buf = t @ r \<and> n = int (length t) \<and> request_text q t \<and> length (rq_headers q) \<le> m)"
  using assms by (rule request_accepts)

text \<open>
  C13 (responses).  \<open>phr_parse_response\<close> accepts exactly the buffers that start with a response of
  the grammar, and returns its length, version, status, reason phrase and headers.
\<close>

theorem phr_parse_response_grammar:
  assumes "length buf < 2147483648"
  shows "phr_parse_response sse m buf 0 = (Some n, q) \<and> 0 \<le> n \<longleftrightarrow>
    (\<exists>t r. buf = t @ r \<and> n = int (length t) \<and> response_text q t \<and> length (rs_headers q) \<le> m)"
  unfolding phr_parse_response_0 Let_def
  by (rule accepts_iff [OF fine_parse_response assms]) (rule parse_response_iff)

section \<open>Memory safety\<close>

lemma phr_return_fine: "fine p \<Longrightarrow> phr_return k p \<noteq> None"
  by (cases p) auto


section \<open>The two builds\<close>

lemma parse_header_builds: "parse_header sse first buf = parse_header False first buf"
  unfolding parse_header_def parse_header_name_eq get_token_to_eol_eq ..

lemma parse_headers_builds: "parse_headers sse m buf hs = parse_headers False m buf hs"
proof (induction buf arbitrary: hs rule: measure_induct_rule [where f = length])
  case (less buf)
  have "parse_headers sse m b h = parse_headers False m b h"
    if "parse_header False (hs = []) buf = POk (x, b)" for x b h
    using less.IH parse_header_shrinks [OF that] by blast
  then show ?case
    by (simp add: parse_headers.simps [of _ m buf hs] parse_header_builds [of sse]
        cong: pres.case_cong option.case_cong if_cong split: pres.split prod.split option.split)
qed

text \<open>
  C15 (the SSE build).  Compiled with or without SSE 4.2, the three entry points return the same code
  and the same outputs on every buffer, successful or not.
\<close>

theorem phr_builds_agree:
  "phr_parse_request True m buf last_len = phr_parse_request False m buf last_len \<and>
    phr_parse_response True m buf last_len = phr_parse_response False m buf last_len \<and>
    phr_parse_headers True m buf last_len = phr_parse_headers False m buf last_len"
  unfolding phr_parse_request_def phr_parse_response_def phr_parse_headers_def
    parse_request_def parse_response_def parse_headers_builds [of True]
    ADVANCE_TOKEN_eq get_token_to_eol_eq by (intro conjI refl)

section \<open>Incremental parsing\<close>

text \<open>No bare carriage return.\<close>

fun crlf_ok :: "bytes \<Rightarrow> bool" where
  "crlf_ok [] \<longleftrightarrow> True"
| "crlf_ok (c # buf) \<longleftrightarrow> (c = 13 \<longrightarrow> buf \<noteq> [] \<and> hd buf = 10) \<and> crlf_ok buf"

lemma crlf_ok_append: "crlf_ok u \<Longrightarrow> crlf_ok w \<Longrightarrow> crlf_ok (u @ w)"
  by (induction u) auto

lemma crlf_ok_free: "13 \<notin> set u \<Longrightarrow> crlf_ok u"
  by (induction u) auto

lemma crlf_ok_drop: "crlf_ok u \<Longrightarrow> crlf_ok (drop n u)"
  by (induction u arbitrary: n) (auto simp: drop_Cons split: nat.split)

text \<open>The blank line that ends a message, with the line feed in front of it.\<close>

definition blank_line :: "bytes \<Rightarrow> bool" where
  "blank_line w \<longleftrightarrow> w = [10, 10] \<or> w = [10, 13, 10]"

lemma complete_loop_blank:
  "crlf_ok (s @ w) \<Longrightarrow> blank_line w \<Longrightarrow> cnt < 2 \<Longrightarrow> \<exists>p. complete_loop cnt (s @ w @ r) = POk p"
proof (induction s arbitrary: cnt rule: measure_induct_rule [where f = length])
  case (less s)
  have cnt: "cnt = 0 \<or> cnt = 1" using less.prems by linarith
  show ?case
  proof (cases s)
    case Nil
    with less.prems cnt show ?thesis by (auto simp: blank_line_def)
  next
    case (Cons c s')
    have IH: "\<exists>p. complete_loop k (x @ w @ r) = POk p" if "length x < length s" "crlf_ok (x @ w)" "k < 2" for x k
      using less that by blast
    show ?thesis
    proof (cases "c = 13")
      case False
      with Cons less.prems cnt IH [of s'] show ?thesis by auto
    next
      case cr: True
      show ?thesis
      proof (cases s')
        case Nil
        with Cons cr less.prems cnt show ?thesis by (auto simp: blank_line_def)
      next
        case (Cons d s'')
        with \<open>s = c # s'\<close> cr less.prems cnt IH [of s''] show ?thesis by auto
      qed
    qed
  qed
qed

lemma check_transparent:
  assumes "crlf_ok (s @ w)" "blank_line w" "last_len < length (s @ w)"
  shows "\<exists>p. check_complete (s @ w @ r) last_len = POk p"
proof -
  define k where "k = last_len - 3"
  have w: "length w \<le> 3" "w \<noteq> []" using assms(2) by (auto simp: blank_line_def)
  then have k: "k \<le> length s" using assms(3) k_def by auto
  then have "drop k (s @ w @ r) = drop k s @ w @ r" by simp
  moreover have "crlf_ok (drop k s @ w)" using crlf_ok_drop [OF assms(1), of k] k by simp
  then have "\<exists>p. complete_loop 0 (drop k s @ w @ r) = POk p"
    using complete_loop_blank assms(2) by auto
  moreover have "\<exists>p. complete_loop 0 (s @ w @ r) = POk p"
    using complete_loop_blank assms(1,2) by auto
  moreover have "\<not> length (s @ w @ r) < last_len - 3" using assms(3) by simp
  ultimately show ?thesis by (auto simp: check_complete_def is_complete_def k_def)
qed

lemma eol_ends: "eol e \<Longrightarrow> \<exists>x. e = x @ [10] \<and> crlf_ok e"
  by (auto simp: eol_def)

lemma list_all_no_cr: "list_all P u \<Longrightarrow> \<not> P 13 \<Longrightarrow> crlf_ok u"
  by (auto simp: list_all_iff intro: crlf_ok_free)

lemmas no_cr = list_all_no_cr [of word_byte] list_all_no_cr [of token_char] list_all_no_cr [of blank]
  list_all_no_cr [of "\<lambda>c. \<not> ctl c"]

lemma word_byte_13 [simp]: "\<not> word_byte 13"
  by (simp add: word_byte_def)

lemma header_text_ends:
  assumes "header_text first h t"
  shows "crlf_ok t \<and> (\<exists>x. t = x @ [10])"
proof -
  from assms obtain w e where w: "eol e" "list_all (\<lambda>c. \<not> ctl c) w"
      "(\<exists>n b. list_all token_char n \<and> list_all blank b \<and> t = n @ 58 # b @ w @ e) \<or> t = w @ e"
    unfolding header_text_def by (cases "hname h") auto
  from eol_ends [OF w(1)] obtain x where "e = x @ [10]" "crlf_ok e" by blast
  with w no_cr show ?thesis
    by (force intro!: crlf_ok_append simp del: append.assoc)
qed

lemma headers_text_ends:
  "headers_text first hs t \<Longrightarrow> crlf_ok t \<and> (\<exists>s w. blank_line w \<and> 10 # t = s @ w)"
proof (induction rule: headers_text.induct)
  case (no_more e first)
  then have "blank_line (10 # e)" by (auto simp: eol_def blank_line_def)
  with eol_ends [OF no_more] show ?case by (metis append_Nil)
next
  case (one_more first h t hs u)
  from header_text_ends [OF one_more.hyps(1)] obtain x where x: "crlf_ok t" "t = x @ [10]" by blast
  from one_more.IH obtain s w where w: "blank_line w" "10 # u = s @ w" by blast
  have "10 # (t @ u) = (10 # x) @ (10 # u)" using x by simp
  with w(2) have "10 # (t @ u) = (10 # x @ s) @ w" by simp
  with w(1) x(1) one_more.IH show ?case by (blast intro: crlf_ok_append)
qed

lemma request_text_ends:
  assumes "request_text q t"
  shows "crlf_ok t \<and> (\<exists>s w. blank_line w \<and> t = s @ w)"
proof -
  from assms obtain e0 v e hs where 1: "list_all word_byte (rq_method q)" "list_all word_byte (rq_path q)"
      "e0 = [] \<or> eol e0" "version_text (rq_minor q) v" "eol e" "headers_text True (rq_headers q) hs"
      "t = e0 @ rq_method q @ 32 # rq_path q @ 32 # v @ e @ hs"
    unfolding request_text_def by blast
  from eol_ends [OF 1(5)] obtain x where x: "e = x @ [10]" "crlf_ok e" by blast
  from headers_text_ends [OF 1(6)] obtain s w where w: "blank_line w" "10 # hs = s @ w" "crlf_ok hs" by blast
  have "t = (e0 @ rq_method q @ 32 # rq_path q @ 32 # v @ x) @ (10 # hs)" using 1(7) x by simp
  then have "t = (e0 @ rq_method q @ 32 # rq_path q @ 32 # v @ x @ s) @ w" unfolding w by simp
  moreover have v: "crlf_ok v" using 1(4) by (auto simp: version_text_def http_1_def)
  moreover have "crlf_ok e0" using 1(3) eol_ends by auto
  then have "crlf_ok t"
    unfolding 1(7) using 1(1,2) x(2) w(3) v no_cr(1) by (auto intro!: crlf_ok_append)
  ultimately show ?thesis using w(1) by blast
qed

text \<open>
  C16 (incremental parsing).  When a request that has arrived in full is parsed again with
  \<open>last_len\<close> set to the length at which it was still incomplete, as the interface asks for, the
  completeness check lets it through and the outcome is that of a parse from scratch.
\<close>

theorem phr_incremental_request:
  assumes small: "length buf < 2147483648"
    and ok: "phr_parse_request sse m buf 0 = (Some n, q)" "0 \<le> n"
    and before: "last_len \<le> length buf" "fst (phr_parse_request sse m (take last_len buf) 0) = Some (-2)"
  shows "phr_parse_request sse m buf last_len = (Some n, q)"
proof -
  from ok request_accepts [OF small, of sse m n q] obtain t r where t: "buf = t @ r" "n = int (length t)"
      "request_text q t" "length (rq_headers q) \<le> m" by auto
  have "last_len < length t"
  proof (rule ccontr)
    assume "\<not> last_len < length t"
    then have "take last_len buf = t @ take (last_len - length t) r" using t(1) by simp
    moreover have "length (take last_len buf) < 2147483648" using small by simp
    ultimately have "phr_parse_request sse m (take last_len buf) 0 = (Some (int (length t)), q)"
      using request_accepts [of "take last_len buf" sse m "int (length t)" q] t(3,4) by blast
    with before show False by simp
  qed
  moreover from request_text_ends [OF t(3)] obtain s w where "blank_line w" "t = s @ w" "crlf_ok t" by blast
  ultimately obtain p where "check_complete buf last_len = POk p"
    using check_transparent [of s w last_len r] t(1) by auto
  with ok(1) show ?thesis
    unfolding phr_parse_request_def by (simp add: check_complete_def)
qed

end
