(* ===== verification/Pico_Chunked.thy ===== *)
theory Pico_Chunked
  imports Pico_Scan
begin

text \<open>
  The in-place decoder for the chunked transfer encoding, \<open>phr_decode_chunked\<close> of
  \<open>picohttpparser.c\<close>: its state machine over a buffer that is rewritten while it is read, and its
  refinement to a machine that takes one byte at a time.  The refinement gives the round trip with
  the encoding, and that feeding the data in pieces of any size makes no difference.
\<close>

section \<open>The decoder\<close>

datatype chunk_state =
    CHUNKED_IN_CHUNK_SIZE
  | CHUNKED_IN_CHUNK_EXT
  | CHUNKED_IN_CHUNK_DATA
  | CHUNKED_IN_CHUNK_CRLF
  | CHUNKED_IN_TRAILERS_LINE_HEAD
  | CHUNKED_IN_TRAILERS_LINE_MIDDLE

record phr_chunked_decoder =
  bytes_left_in_chunk :: u64
  consume_trailer :: bool
  hex_count :: u8
  cstate :: chunk_state

definition decode_hex :: "u8 \<Rightarrow> int" where
  "decode_hex ch =
    (if 48 \<le> ch \<and> ch \<le> 57 then uint ch - 48
     else if 65 \<le> ch \<and> ch \<le> 70 then uint ch - 65 + 10
     else if 97 \<le> ch \<and> ch \<le> 102 then uint ch - 97 + 10
     else -1)"

text \<open>\<open>memmove\<close> of \<open>n\<close> bytes inside the buffer, from index \<open>src\<close> to index \<open>dst\<close>.\<close>

definition memmove :: "bytes \<Rightarrow> nat \<Rightarrow> nat \<Rightarrow> nat \<Rightarrow> bytes" where
  "memmove buf dst src n =
    map (\<lambda>i. if dst \<le> i \<and> i < dst + n then buf ! (src + (i - dst)) else buf ! i) [0..<length buf]"

lemma length_memmove [simp]: "length (memmove buf dst src n) = length buf"
  by (simp add: memmove_def)

lemma memmove_append:
  assumes "dst \<le> src" "src + n \<le> length buf"
  shows "memmove buf dst src n = take dst buf @ take n (drop src buf) @ drop (dst + n) buf"
  by (rule nth_equalityI) (use assms in \<open>auto simp: memmove_def nth_append\<close>)

text \<open>
  The loops \<open>for (;; ++src)\<close>.  \<open>src\<close> never exceeds \<open>bufsz\<close>, the length of the buffer, so that the
  test \<open>src == bufsz\<close> is the test that it has been reached.
\<close>

datatype hex_result = HexEof | HexBad | HexEnd

function hex_loop ::
  "bytes \<Rightarrow> nat \<Rightarrow> phr_chunked_decoder \<Rightarrow> hex_result \<times> nat \<times> phr_chunked_decoder"
where
  "hex_loop buf src d =
    (if length buf \<le> src then (HexEof, src, d)
     else let v = decode_hex (buf ! src)
          in if v = -1 then (if hex_count d = 0 then HexBad else HexEnd, src, d)
             else if hex_count d = 16 then (HexBad, src, d)
             else hex_loop buf (Suc src)
               (d\<lparr>bytes_left_in_chunk := bytes_left_in_chunk d * 16 + word_of_int v,
                  hex_count := hex_count d + 1\<rparr>))"
  by pat_completeness auto
termination by (relation "measure (\<lambda>(buf, src, d). length buf - src)") auto

declare hex_loop.simps [simp del]

text \<open>The first index from \<open>src\<close> on whose byte satisfies \<open>P\<close>, or \<open>bufsz\<close>.\<close>

function scan_to :: "(u8 \<Rightarrow> bool) \<Rightarrow> bytes \<Rightarrow> nat \<Rightarrow> nat" where
  "scan_to P buf src =
    (if length buf \<le> src then src else if P (buf ! src) then src else scan_to P buf (Suc src))"
  by pat_completeness auto
termination by (relation "measure (\<lambda>(P, buf, src). length buf - src)") auto

declare scan_to.simps [simp del]

lemma scan_to_ge: "src \<le> scan_to P buf src"
  by (induction P buf src rule: scan_to.induct)
    (subst scan_to.simps, auto)

lemma scan_to_adv: "scan_to P buf src < length buf \<Longrightarrow>
    Suc (length buf - Suc (scan_to P buf src)) \<le> length buf - src"
  using scan_to_ge [of src P buf] by linarith

lemma hex_loop_ge: "hex_loop buf src d = (r, src', d') \<Longrightarrow> src \<le> src' \<and> cstate d' = cstate d"
proof (induction buf src d rule: hex_loop.induct)
  case (1 buf src d)
  then show ?case
    by (auto simp: hex_loop.simps [of buf src d] Let_def split: if_splits)
qed

text \<open>The label \<open>Exit\<close>: the bytes not decoded move behind the decoded ones.\<close>

definition chunk_exit ::
  "int \<Rightarrow> phr_chunked_decoder \<Rightarrow> bytes \<Rightarrow> nat \<Rightarrow> nat \<Rightarrow> int \<times> phr_chunked_decoder \<times> bytes \<times> nat"
where
  "chunk_exit ret d buf src dst =
    (ret, d, if dst \<noteq> src then memmove buf dst src (length buf - src) else buf, dst)"

fun chunk_rank :: "chunk_state \<Rightarrow> nat" where
  "chunk_rank CHUNKED_IN_CHUNK_SIZE = 2"
| "chunk_rank CHUNKED_IN_CHUNK_EXT = 1"
| "chunk_rank CHUNKED_IN_CHUNK_DATA = 1"
| "chunk_rank _ = 0"

text \<open>
  The loop around the \<open>switch\<close>: falling through to the next case and breaking out to the next round
  are the same, a dispatch on the state just set.
\<close>

function chunk_run ::
  "phr_chunked_decoder \<Rightarrow> bytes \<Rightarrow> nat \<Rightarrow> nat \<Rightarrow> int \<times> phr_chunked_decoder \<times> bytes \<times> nat"
where
  "chunk_run d buf src dst =
    (case cstate d of
       CHUNKED_IN_CHUNK_SIZE \<Rightarrow>
         (case hex_loop buf src d of
            (HexEof, src, d) \<Rightarrow> chunk_exit (-2) d buf src dst
          | (HexBad, src, d) \<Rightarrow> chunk_exit (-1) d buf src dst
          | (HexEnd, src, d) \<Rightarrow>
              chunk_run (d\<lparr>hex_count := 0, cstate := CHUNKED_IN_CHUNK_EXT\<rparr>) buf src dst)
     | CHUNKED_IN_CHUNK_EXT \<Rightarrow>
         let src = scan_to (\<lambda>c. c = 10) buf src in
         if length buf \<le> src then chunk_exit (-2) d buf src dst
         else if bytes_left_in_chunk d = 0
         then if consume_trailer d
              then chunk_run (d\<lparr>cstate := CHUNKED_IN_TRAILERS_LINE_HEAD\<rparr>) buf (Suc src) dst
              else chunk_exit (int (length buf - Suc src)) d buf (Suc src) dst
         else chunk_run (d\<lparr>cstate := CHUNKED_IN_CHUNK_DATA\<rparr>) buf (Suc src) dst
     | CHUNKED_IN_CHUNK_DATA \<Rightarrow>
         let avail = length buf - src; left = unat (bytes_left_in_chunk d) in
         if avail < left
         then chunk_exit (-2) (d\<lparr>bytes_left_in_chunk := bytes_left_in_chunk d - of_nat avail\<rparr>)
                (if dst \<noteq> src then memmove buf dst src avail else buf) (src + avail) (dst + avail)
         else chunk_run (d\<lparr>bytes_left_in_chunk := 0, cstate := CHUNKED_IN_CHUNK_CRLF\<rparr>)
                (if dst \<noteq> src then memmove buf dst src left else buf) (src + left) (dst + left)
     | CHUNKED_IN_CHUNK_CRLF \<Rightarrow>
         let src = scan_to (\<lambda>c. c \<noteq> 13) buf src in
         if length buf \<le> src then chunk_exit (-2) d buf src dst
         else if buf ! src \<noteq> 10 then chunk_exit (-1) d buf src dst
         else chunk_run (d\<lparr>cstate := CHUNKED_IN_CHUNK_SIZE\<rparr>) buf (Suc src) dst
     | CHUNKED_IN_TRAILERS_LINE_HEAD \<Rightarrow>
         let src = scan_to (\<lambda>c. c \<noteq> 13) buf src in
         if length buf \<le> src then chunk_exit (-2) d buf src dst
         else if buf ! src = 10
         then chunk_exit (int (length buf - Suc src)) d buf (Suc src) dst
         else chunk_run (d\<lparr>cstate := CHUNKED_IN_TRAILERS_LINE_MIDDLE\<rparr>) buf (Suc src) dst
     | CHUNKED_IN_TRAILERS_LINE_MIDDLE \<Rightarrow>
         let src = scan_to (\<lambda>c. c = 10) buf src in
         if length buf \<le> src then chunk_exit (-2) d buf src dst
         else chunk_run (d\<lparr>cstate := CHUNKED_IN_TRAILERS_LINE_HEAD\<rparr>) buf (Suc src) dst)"
  by pat_completeness auto

termination
  apply (relation "measure (\<lambda>(d, buf, src, dst). 3 * (length buf - src) + chunk_rank (cstate d))")
  apply simp
  apply (auto dest!: hex_loop_ge [OF sym] scan_to_adv simp: Let_def not_le)
  done

declare chunk_run.simps [simp del]

text \<open>The interface: the code, the decoder, the buffer and the number of decoded bytes in it.\<close>

definition phr_decode_chunked ::
  "phr_chunked_decoder \<Rightarrow> bytes \<Rightarrow> int \<times> phr_chunked_decoder \<times> bytes \<times> nat"
where
  "phr_decode_chunked decoder buf = chunk_run decoder buf 0 0"

definition phr_decode_chunked_is_in_data :: "phr_chunked_decoder \<Rightarrow> bool" where
  "phr_decode_chunked_is_in_data decoder \<longleftrightarrow> cstate decoder = CHUNKED_IN_CHUNK_DATA"

section \<open>The machine that takes one byte at a time\<close>

datatype chunk_next = Go phr_chunked_decoder bytes | Bad | Done phr_chunked_decoder

definition at_ext :: "phr_chunked_decoder \<Rightarrow> u8 \<Rightarrow> chunk_next" where
  "at_ext d c =
    (let d = d\<lparr>hex_count := 0, cstate := CHUNKED_IN_CHUNK_EXT\<rparr>
     in if c \<noteq> 10 then Go d []
        else if bytes_left_in_chunk d \<noteq> 0 then Go (d\<lparr>cstate := CHUNKED_IN_CHUNK_DATA\<rparr>) []
        else if consume_trailer d then Go (d\<lparr>cstate := CHUNKED_IN_TRAILERS_LINE_HEAD\<rparr>) []
        else Done d)"

definition chunk_byte :: "phr_chunked_decoder \<Rightarrow> u8 \<Rightarrow> chunk_next" where
  "chunk_byte d c =
    (case cstate d of
       CHUNKED_IN_CHUNK_SIZE \<Rightarrow>
         if decode_hex c = -1 then if hex_count d = 0 then Bad else at_ext d c
         else if hex_count d = 16 then Bad
         else Go (d\<lparr>bytes_left_in_chunk := bytes_left_in_chunk d * 16 + word_of_int (decode_hex c),
                    hex_count := hex_count d + 1\<rparr>) []
     | CHUNKED_IN_CHUNK_EXT \<Rightarrow> at_ext d c
     | CHUNKED_IN_CHUNK_DATA \<Rightarrow>
         let left = bytes_left_in_chunk d - 1
         in Go (d\<lparr>bytes_left_in_chunk := left,
                  cstate := if left = 0 then CHUNKED_IN_CHUNK_CRLF else CHUNKED_IN_CHUNK_DATA\<rparr>) [c]
     | CHUNKED_IN_CHUNK_CRLF \<Rightarrow>
         if c = 13 then Go d []
         else if c = 10 then Go (d\<lparr>cstate := CHUNKED_IN_CHUNK_SIZE\<rparr>) []
         else Bad
     | CHUNKED_IN_TRAILERS_LINE_HEAD \<Rightarrow>
         if c = 13 then Go d []
         else if c = 10 then Done d
         else Go (d\<lparr>cstate := CHUNKED_IN_TRAILERS_LINE_MIDDLE\<rparr>) []
     | CHUNKED_IN_TRAILERS_LINE_MIDDLE \<Rightarrow>
         if c = 10 then Go (d\<lparr>cstate := CHUNKED_IN_TRAILERS_LINE_HEAD\<rparr>) [] else Go d [])"

text \<open>Its run: whether it stopped, the decoded bytes, the bytes left, and the decoder.\<close>

datatype chunk_end = Incomplete | Failed | Complete

fun chunk_feed ::
  "phr_chunked_decoder \<Rightarrow> bytes \<Rightarrow> chunk_end \<times> bytes \<times> bytes \<times> phr_chunked_decoder"
where
  "chunk_feed d [] = (Incomplete, [], [], d)"
| "chunk_feed d (c # xs) =
    (case chunk_byte d c of
       Go d' out \<Rightarrow> (case chunk_feed d' xs of (e, outs, rest, d'') \<Rightarrow> (e, out @ outs, rest, d''))
     | Bad \<Rightarrow> (Failed, [], c # xs, d)
     | Done d' \<Rightarrow> (Complete, [], xs, d'))"

text \<open>The decoder states between two bytes.\<close>

definition chunk_ok :: "phr_chunked_decoder \<Rightarrow> bool" where
  "chunk_ok d \<longleftrightarrow>
    (cstate d \<noteq> CHUNKED_IN_CHUNK_SIZE \<longrightarrow> hex_count d = 0) \<and>
    (cstate d = CHUNKED_IN_CHUNK_DATA \<longrightarrow> bytes_left_in_chunk d \<noteq> 0)"

lemmas byte_defs = chunk_byte_def at_ext_def

section \<open>The loops of the code and the machine\<close>

lemma Cons_nth_drop: "src < length buf \<Longrightarrow> drop src buf = buf ! src # drop (Suc src) buf"
  by (simp add: Cons_nth_drop_Suc)

lemma hex_loop_feed:
  assumes "hex_loop buf src d = (r, s, d')" "src \<le> length buf" "cstate d = CHUNKED_IN_CHUNK_SIZE"
  shows "s \<le> length buf \<and> chunk_feed d (drop src buf) =
    (case r of HexEof \<Rightarrow> (Incomplete, [], [], d')
     | HexBad \<Rightarrow> (Failed, [], drop s buf, d')
     | HexEnd \<Rightarrow> chunk_feed (d'\<lparr>hex_count := 0, cstate := CHUNKED_IN_CHUNK_EXT\<rparr>) (drop s buf))
    \<and> (r = HexEof \<longrightarrow> s = length buf)"
  using assms
proof (induction buf src d rule: hex_loop.induct)
  case (1 buf src d)
  show ?case
  proof (cases "length buf \<le> src")
    case True
    with "1.prems" show ?thesis by (auto simp: hex_loop.simps [of buf src d])
  next
    case False
    then have drop: "drop src buf = buf ! src # drop (Suc src) buf" by (simp add: Cons_nth_drop)
    show ?thesis
    proof (cases "decode_hex (buf ! src) = -1 \<or> hex_count d = 16")
      case True
      with "1.prems" False drop show ?thesis
        by (auto simp: hex_loop.simps [of buf src d] byte_defs Let_def split: if_splits)
    next
      case no: False
      let ?d = "d\<lparr>bytes_left_in_chunk := bytes_left_in_chunk d * 16 + word_of_int (decode_hex (buf ! src)),
                  hex_count := hex_count d + 1\<rparr>"
      have "chunk_feed d (drop src buf) = chunk_feed ?d (drop (Suc src) buf)"
        using no drop "1.prems"(3) by (auto simp: chunk_byte_def split: prod.splits)
      moreover have "hex_loop buf (Suc src) ?d = (r, s, d')"
        using "1.prems"(1) no False by (simp add: hex_loop.simps [of buf src d] Let_def)
      ultimately show ?thesis
        using "1.IH" [OF False refl] no "1.prems" False by auto
    qed
  qed
qed

lemma scan_to_feed:
  assumes "\<And>c. \<not> P c \<Longrightarrow> chunk_byte d c = Go d []" "src \<le> length buf"
  shows "chunk_feed d (drop src buf) = chunk_feed d (drop (scan_to P buf src) buf) \<and>
    scan_to P buf src \<le> length buf \<and> (scan_to P buf src < length buf \<longrightarrow> P (buf ! scan_to P buf src))"
  using assms
proof (induction P buf src rule: scan_to.induct)
  case (1 P buf src)
  show ?case
  proof (cases "length buf \<le> src \<or> P (buf ! src)")
    case True
    then show ?thesis using "1.prems" by (auto simp: scan_to.simps [of P buf src])
  next
    case False
    then have s: "scan_to P buf src = scan_to P buf (Suc src)" by (simp add: scan_to.simps [of P buf src])
    have "chunk_feed d (drop src buf) = chunk_feed d (drop (Suc src) buf)"
      using False "1.prems"(1) by (simp add: Cons_nth_drop split: prod.splits)
    then show ?thesis using "1.IH" "1.prems" False unfolding s by auto
  qed
qed

lemma data_feed:
  assumes "cstate d = CHUNKED_IN_CHUNK_DATA" "bytes_left_in_chunk d \<noteq> 0"
  shows "chunk_feed d xs =
    (let left = unat (bytes_left_in_chunk d) in
     if length xs < left
     then (Incomplete, xs, [], d\<lparr>bytes_left_in_chunk := bytes_left_in_chunk d - of_nat (length xs)\<rparr>)
     else case chunk_feed (d\<lparr>bytes_left_in_chunk := 0, cstate := CHUNKED_IN_CHUNK_CRLF\<rparr>) (drop left xs) of
       (e, outs, rest, d'') \<Rightarrow> (e, take left xs @ outs, rest, d''))"
  using assms
proof (induction xs arbitrary: d)
  case Nil
  then show ?case by (simp add: unat_gt_0)
next
  case (Cons c xs)
  let ?l = "bytes_left_in_chunk d"
  have l: "unat ?l = Suc (unat (?l - 1))"
  proof -
    have "0 < unat ?l" using Cons.prems(2) by (simp add: unat_gt_0)
    moreover have "unat (?l - 1) = unat ?l - 1"
      using \<open>0 < unat ?l\<close> by (subst unat_sub) (simp_all add: word_le_nat_alt)
    ultimately show ?thesis by simp
  qed
  show ?case
  proof (cases "?l = 1")
    case True
    with Cons.prems show ?thesis
      by (auto simp: chunk_byte_def Let_def split: prod.splits)
  next
    case False
    let ?d = "d\<lparr>bytes_left_in_chunk := ?l - 1, cstate := CHUNKED_IN_CHUNK_DATA\<rparr>"
    have "chunk_byte d c = Go ?d [c]"
      using Cons.prems False by (simp add: chunk_byte_def Let_def)
    moreover have "chunk_feed ?d xs = (let left = unat (?l - 1) in
       if length xs < left
       then (Incomplete, xs, [], ?d\<lparr>bytes_left_in_chunk := ?l - 1 - of_nat (length xs)\<rparr>)
       else case chunk_feed (?d\<lparr>bytes_left_in_chunk := 0, cstate := CHUNKED_IN_CHUNK_CRLF\<rparr>) (drop left xs) of
         (e, outs, rest, d'') \<Rightarrow> (e, take left xs @ outs, rest, d''))"
      using False by (subst Cons.IH) (simp_all add: Let_def)
    moreover have "?d\<lparr>bytes_left_in_chunk := 0, cstate := CHUNKED_IN_CHUNK_CRLF\<rparr> =
        d\<lparr>bytes_left_in_chunk := 0, cstate := CHUNKED_IN_CHUNK_CRLF\<rparr>" by simp
    moreover have "?d\<lparr>bytes_left_in_chunk := ?l - 1 - of_nat (length xs)\<rparr> =
        d\<lparr>bytes_left_in_chunk := ?l - of_nat (length (c # xs))\<rparr>"
      using Cons.prems by (simp add: diff_diff_eq)
    ultimately show ?thesis
      by (simp add: l Let_def split: prod.splits)
  qed
qed

section \<open>The refinement\<close>

fun chunk_ret :: "chunk_end \<Rightarrow> bytes \<Rightarrow> int" where
  "chunk_ret Incomplete rest = -2"
| "chunk_ret Failed rest = -1"
| "chunk_ret Complete rest = int (length rest)"

text \<open>What a run of the code from \<open>src\<close> and \<open>dst\<close> on leaves, for a run of the machine.\<close>

definition chunk_done ::
  "bytes \<Rightarrow> nat \<Rightarrow> chunk_end \<times> bytes \<times> bytes \<times> phr_chunked_decoder
    \<Rightarrow> int \<times> phr_chunked_decoder \<times> bytes \<times> nat \<Rightarrow> bool"
where
  "chunk_done buf dst m r \<longleftrightarrow>
    (case m of (e, outs, rest, d) \<Rightarrow> case r of (ret, d', buf', dst') \<Rightarrow>
      ret = chunk_ret e rest \<and> d' = d \<and> dst' = dst + length outs \<and> length buf' = length buf \<and>
      take (dst' + length rest) buf' = take dst buf @ outs @ rest)"

lemma chunk_done_exit:
  assumes "dst \<le> src" "src \<le> length buf" "ret = chunk_ret e (drop src buf)"
  shows "chunk_done buf dst (e, [], drop src buf, d) (chunk_exit ret d buf src dst)"
  using assms
  by (cases "dst = src") (auto simp: chunk_done_def chunk_exit_def memmove_append)

lemma chunk_done_eof:
  assumes "dst \<le> length buf"
  shows "chunk_done buf dst (Incomplete, [], [], d) (chunk_exit (-2) d buf (length buf) dst)"
  using chunk_done_exit [of dst "length buf" buf "-2" Incomplete d] assms by simp

text \<open>The copy of \<open>n\<close> data bytes.\<close>

definition chunk_copy :: "bytes \<Rightarrow> nat \<Rightarrow> nat \<Rightarrow> nat \<Rightarrow> bytes" where
  "chunk_copy buf dst src n = (if dst \<noteq> src then memmove buf dst src n else buf)"

lemma chunk_copy:
  assumes "dst \<le> src" "src + n \<le> length buf"
  shows "length (chunk_copy buf dst src n) = length buf"
    "take (dst + n) (chunk_copy buf dst src n) = take dst buf @ take n (drop src buf)"
    "drop (src + n) (chunk_copy buf dst src n) = drop (src + n) buf"
proof -
  show "length (chunk_copy buf dst src n) = length buf" by (simp add: chunk_copy_def)
  show "take (dst + n) (chunk_copy buf dst src n) = take dst buf @ take n (drop src buf)"
    using assms by (cases "dst = src") (auto simp: chunk_copy_def memmove_append take_add min_def)
  show "drop (src + n) (chunk_copy buf dst src n) = drop (src + n) buf"
    using assms by (cases "dst = src") (auto simp: chunk_copy_def memmove_append)
qed

lemma chunk_done_copy:
  assumes "dst \<le> src" "src + n \<le> length buf"
    and "chunk_done (chunk_copy buf dst src n) (dst + n) (e, outs, rest, d) r"
  shows "chunk_done buf dst (e, take n (drop src buf) @ outs, rest, d) r"
  using assms chunk_copy [OF assms(1,2)]
  by (auto simp: chunk_done_def min_def split: prod.splits)

lemma scan_bound: "src \<le> length buf \<Longrightarrow> scan_to P buf src \<le> length buf"
proof (induction P buf src rule: scan_to.induct)
  case (1 P buf src)
  then show ?case by (auto simp: scan_to.simps [of P buf src])
qed

lemma decoder_same [simp]:
  "cstate d = st \<Longrightarrow> d\<lparr>cstate := st\<rparr> = d"
  "cstate d = st \<Longrightarrow> hex_count d = 0 \<Longrightarrow> d\<lparr>hex_count := 0, cstate := st\<rparr> = d"
  by (cases d; simp)+

text \<open>The simulation at one point, and at all points of a smaller measure.\<close>

definition sim_at :: "phr_chunked_decoder \<Rightarrow> bytes \<Rightarrow> nat \<Rightarrow> nat \<Rightarrow> bool" where
  "sim_at d buf src dst \<longleftrightarrow>
    (chunk_ok d \<and> dst \<le> src \<and> src \<le> length buf \<longrightarrow>
      chunk_done buf dst (chunk_feed d (drop src buf)) (chunk_run d buf src dst))"

definition chunk_measure :: "phr_chunked_decoder \<Rightarrow> bytes \<Rightarrow> nat \<Rightarrow> nat" where
  "chunk_measure d buf src = 3 * (length buf - src) + chunk_rank (cstate d)"

definition sims_below :: "nat \<Rightarrow> bool" where
  "sims_below k \<longleftrightarrow> (\<forall>d buf src dst. chunk_measure d buf src < k \<longrightarrow> sim_at d buf src dst)"

lemma sims_belowD:
  assumes "sims_below k" "chunk_measure d buf src < k" "chunk_ok d" "dst \<le> src" "src \<le> length buf"
  shows "chunk_done buf dst (chunk_feed d (drop src buf)) (chunk_run d buf src dst)"
  using assms unfolding sims_below_def sim_at_def by blast

text \<open>
  After a scan, \<open>s\<close> is the end of the buffer or the index of a byte on which the machine stops or
  goes on in another state.
\<close>

lemma sim_bad:
  assumes "s < length buf" "chunk_byte d (buf ! s) = Bad" "dst \<le> s"
  shows "chunk_done buf dst (chunk_feed d (drop s buf)) (chunk_exit (-1) d buf s dst)"
  using assms chunk_done_exit [of dst s buf "-1" Failed d] by (simp add: Cons_nth_drop)

lemma sim_done:
  assumes "s < length buf" "chunk_byte d (buf ! s) = Done d'" "dst \<le> s" "ret = int (length buf - Suc s)"
  shows "chunk_done buf dst (chunk_feed d (drop s buf)) (chunk_exit ret d' buf (Suc s) dst)"
  using assms chunk_done_exit [of dst "Suc s" buf _ Complete d'] by (simp add: Cons_nth_drop)

lemma sim_go:
  assumes "s < length buf" "chunk_byte d (buf ! s) = Go d' []" "dst \<le> s" "chunk_ok d'"
    "sims_below (chunk_measure d buf s)"
  shows "chunk_done buf dst (chunk_feed d (drop s buf)) (chunk_run d' buf (Suc s) dst)"
proof -
  have "chunk_rank (cstate d') \<le> 2" by (cases "cstate d'") auto
  then have "chunk_measure d' buf (Suc s) < chunk_measure d buf s"
    using assms(1) by (simp add: chunk_measure_def)
  with assms have "chunk_done buf dst (chunk_feed d' (drop (Suc s) buf)) (chunk_run d' buf (Suc s) dst)"
    by (intro sims_belowD) auto
  with assms show ?thesis by (simp add: Cons_nth_drop split: prod.splits)
qed

lemma sim_size:
  assumes d: "cstate d = CHUNKED_IN_CHUNK_SIZE" and le: "dst \<le> src" "src \<le> length buf"
    and IH: "sims_below (chunk_measure d buf src)"
  shows "chunk_done buf dst (chunk_feed d (drop src buf)) (chunk_run d buf src dst)"
proof -
  obtain r s d' where h: "hex_loop buf src d = (r, s, d')" by (metis prod_cases3)
  have s: "src \<le> s" "cstate d' = CHUNKED_IN_CHUNK_SIZE" using hex_loop_ge [OF h] d by auto
  note f = hex_loop_feed [OF h le(2) d]
  note r = chunk_run.simps [of d buf src dst] d h
  show ?thesis
  proof (cases r)
    case HexEof
    then show ?thesis using f le chunk_done_eof by (auto simp: r)
  next
    case HexBad
    then show ?thesis using f s le chunk_done_exit [of dst s buf "-1" Failed] by (auto simp: r)
  next
    case HexEnd
    let ?d = "d'\<lparr>hex_count := 0, cstate := CHUNKED_IN_CHUNK_EXT\<rparr>"
    have "chunk_done buf dst (chunk_feed ?d (drop s buf)) (chunk_run ?d buf s dst)"
      using IH by (rule sims_belowD) (use f s le d in \<open>auto simp: chunk_ok_def chunk_measure_def\<close>)
    then show ?thesis using f HexEnd by (simp add: r)
  qed
qed

lemma scan_feed:
  assumes IH: "sims_below (chunk_measure d buf src)" and
    "\<And>c. \<not> P c \<Longrightarrow> chunk_byte d c = Go d []" "src \<le> length buf" "s = scan_to P buf src"
  shows "chunk_feed d (drop src buf) = chunk_feed d (drop s buf)" "s \<le> length buf"
    "s < length buf \<Longrightarrow> P (buf ! s)" "src \<le> s" "sims_below (chunk_measure d buf s)"
proof -
  show f: "chunk_feed d (drop src buf) = chunk_feed d (drop s buf)" "s \<le> length buf"
    "s < length buf \<Longrightarrow> P (buf ! s)" "src \<le> s"
  using scan_to_feed [of P d src buf] scan_to_ge [of src P buf] assms by auto
  then show "sims_below (chunk_measure d buf s)"
    using IH unfolding sims_below_def chunk_measure_def by (meson diff_le_mono2 add_le_mono1
      less_le_trans mult_le_mono2)
qed

lemma sim_ext:
  assumes d: "cstate d = CHUNKED_IN_CHUNK_EXT" "hex_count d = 0" and le: "dst \<le> src" "src \<le> length buf"
    and IH: "sims_below (chunk_measure d buf src)"
  shows "chunk_done buf dst (chunk_feed d (drop src buf)) (chunk_run d buf src dst)"
proof -
  define s where "s = scan_to (\<lambda>c. c = 10) buf src"
  have f: "chunk_feed d (drop src buf) = chunk_feed d (drop s buf)" "s \<le> length buf"
      "s < length buf \<Longrightarrow> buf ! s = 10" "src \<le> s"
      "sims_below (chunk_measure d buf s)"
    using scan_feed [OF IH _ le(2) s_def] d by (auto simp: byte_defs)
  note r = chunk_run.simps [of d buf src dst] d s_def [symmetric] Let_def
  show ?thesis
  proof (cases "length buf \<le> s")
    case True
    with f le show ?thesis by (auto simp: r intro!: chunk_done_eof)
  next
    case False
    then have s: "s < length buf" "buf ! s = 10" using f by auto
    with f le d show ?thesis
      by (auto simp: r byte_defs chunk_ok_def intro!: sim_go sim_done)
  qed
qed

lemma sim_data:
  assumes d: "cstate d = CHUNKED_IN_CHUNK_DATA" "chunk_ok d" and le: "dst \<le> src" "src \<le> length buf"
    and IH: "sims_below (chunk_measure d buf src)"
  shows "chunk_done buf dst (chunk_feed d (drop src buf)) (chunk_run d buf src dst)"
proof -
  define avail left where "avail = length buf - src" and "left = unat (bytes_left_in_chunk d)"
  note r = chunk_run.simps [of d buf src dst] avail_def [symmetric] left_def [symmetric] d(1)
    chunk_copy_def [symmetric] Let_def
  have "bytes_left_in_chunk d \<noteq> 0" "hex_count d = 0" using d by (auto simp: chunk_ok_def)
  note f = data_feed [OF d(1) this(1), of "drop src buf"]
  show ?thesis
  proof (cases "avail < left")
    case True
    let ?d = "d\<lparr>bytes_left_in_chunk := bytes_left_in_chunk d - of_nat avail\<rparr>"
    let ?b = "chunk_copy buf dst src avail"
    have n: "src + avail = length buf" using le by (simp add: avail_def)
    note c = chunk_copy [of dst src avail buf, OF le(1)]
    have "chunk_done ?b (dst + avail) (Incomplete, [], [], ?d) (chunk_exit (-2) ?d ?b (length ?b) (dst + avail))"
      using c n le by (intro chunk_done_eof) simp
    from chunk_done_copy [OF le(1) _ this] n c True f show ?thesis by (simp add: r)
  next
    case False
    let ?d = "d\<lparr>bytes_left_in_chunk := 0, cstate := CHUNKED_IN_CHUNK_CRLF\<rparr>"
    let ?b = "chunk_copy buf dst src left"
    have n: "src + left \<le> length buf" using False le by (simp add: avail_def)
    note c = chunk_copy [OF le(1) n]
    obtain e outs rest d' where m: "chunk_feed ?d (drop (src + left) buf) = (e, outs, rest, d')"
      by (metis prod_cases4)
    have "chunk_done ?b (dst + left) (chunk_feed ?d (drop (src + left) ?b)) (chunk_run ?d ?b (src + left) (dst + left))"
      using IH by (rule sims_belowD) (use n le c d \<open>hex_count d = 0\<close> in \<open>auto simp: chunk_ok_def chunk_measure_def\<close>)
    then have "chunk_done buf dst (e, take left (drop src buf) @ outs, rest, d')
        (chunk_run ?d ?b (src + left) (dst + left))"
      using chunk_done_copy [OF le(1) n] m c by simp
    then show ?thesis using False f m n by (simp add: r add.commute)
  qed
qed

lemma sim_line:
  assumes d: "cstate d = CHUNKED_IN_CHUNK_CRLF \<or> cstate d = CHUNKED_IN_TRAILERS_LINE_HEAD" "hex_count d = 0"
    and le: "dst \<le> src" "src \<le> length buf" and IH: "sims_below (chunk_measure d buf src)"
  shows "chunk_done buf dst (chunk_feed d (drop src buf)) (chunk_run d buf src dst)"
proof -
  define s where "s = scan_to (\<lambda>c. c \<noteq> 13) buf src"
  have f: "chunk_feed d (drop src buf) = chunk_feed d (drop s buf)" "s \<le> length buf"
      "s < length buf \<Longrightarrow> buf ! s \<noteq> 13" "src \<le> s"
      "sims_below (chunk_measure d buf s)"
    using scan_feed [OF IH _ le(2) s_def] d by (auto simp: byte_defs)
  note r = chunk_run.simps [of d buf src dst] s_def [symmetric] Let_def
  show ?thesis
  proof (cases "length buf \<le> s")
    case True
    with f le d show ?thesis by (auto simp: r intro!: chunk_done_eof)
  next
    case False
    then have s: "s < length buf" "buf ! s \<noteq> 13" using f by auto
    with f le d show ?thesis
      by (auto simp: r byte_defs chunk_ok_def intro!: sim_go sim_done sim_bad)
  qed
qed

lemma sim_middle:
  assumes d: "cstate d = CHUNKED_IN_TRAILERS_LINE_MIDDLE" "hex_count d = 0"
    and le: "dst \<le> src" "src \<le> length buf" and IH: "sims_below (chunk_measure d buf src)"
  shows "chunk_done buf dst (chunk_feed d (drop src buf)) (chunk_run d buf src dst)"
proof -
  define s where "s = scan_to (\<lambda>c. c = 10) buf src"
  have f: "chunk_feed d (drop src buf) = chunk_feed d (drop s buf)" "s \<le> length buf"
      "s < length buf \<Longrightarrow> buf ! s = 10" "src \<le> s"
      "sims_below (chunk_measure d buf s)"
    using scan_feed [OF IH _ le(2) s_def] d by (auto simp: byte_defs)
  note r = chunk_run.simps [of d buf src dst] d s_def [symmetric] Let_def
  show ?thesis
  proof (cases "length buf \<le> s")
    case True
    with f le show ?thesis by (auto simp: r intro!: chunk_done_eof)
  next
    case False
    with f le d show ?thesis
      by (auto simp: r byte_defs chunk_ok_def intro!: sim_go)
  qed
qed

lemma chunk_run_sim: "sim_at d buf src dst"
proof (induction "chunk_measure d buf src" arbitrary: d buf src dst rule: less_induct)
  case less
  then have "sims_below (chunk_measure d buf src)" by (simp add: sims_below_def)
  then show ?case
    unfolding sim_at_def
    by (cases "cstate d") (auto simp: chunk_ok_def intro: sim_size sim_ext sim_data sim_line sim_middle)
qed

lemma decode_refines: "chunk_ok d \<Longrightarrow> chunk_done buf 0 (chunk_feed d buf) (phr_decode_chunked d buf)"
  using chunk_run_sim [of d buf 0 0] by (simp add: sim_at_def phr_decode_chunked_def)

text \<open>What one call yields, in terms of the machine.\<close>

lemma decode_feed:
  assumes "chunk_ok d" "phr_decode_chunked d buf = (ret, d', buf', n)"
  obtains e rest where "chunk_feed d buf = (e, take n buf', rest, d')" "ret = chunk_ret e rest"
    "take (n + length rest) buf' = take n buf' @ rest" "length buf' = length buf"
proof -
  obtain e outs rest d1 where m: "chunk_feed d buf = (e, outs, rest, d1)" by (metis prod_cases4)
  with decode_refines [OF assms(1), of buf] assms(2)
  have *: "ret = chunk_ret e rest" "d' = d1" "n = length outs" "length buf' = length buf"
    "take (n + length rest) buf' = outs @ rest" by (auto simp: chunk_done_def)
  have "take n buf' = take n (take (n + length rest) buf')" by simp
  also have "\<dots> = outs" unfolding *(5) using *(3) by simp
  finally show ?thesis using that m * by simp
qed

section \<open>Properties of the decoder\<close>

lemma at_ext_ok: "chunk_ok d \<Longrightarrow> at_ext d c = Go d' out \<Longrightarrow> chunk_ok d'"
  by (auto simp: at_ext_def chunk_ok_def Let_def split: if_splits)

lemma chunk_byte_ok: "chunk_ok d \<Longrightarrow> chunk_byte d c = Go d' out \<Longrightarrow> chunk_ok d'"
  by (cases "cstate d") (auto simp: chunk_byte_def chunk_ok_def Let_def
      dest: at_ext_ok [unfolded chunk_ok_def, rotated] split: if_splits)

lemma chunk_feed_ok: "chunk_ok d \<Longrightarrow> chunk_feed d xs = (Incomplete, outs, rest, d') \<Longrightarrow> chunk_ok d' \<and> rest = []"
proof (induction xs arbitrary: d outs)
  case (Cons c xs)
  then show ?case
    by (cases "chunk_byte d c") (auto dest: chunk_byte_ok split: prod.splits)
qed simp

lemma chunk_feed_append: "chunk_feed d (xs @ ys) =
    (case chunk_feed d xs of (e, outs, rest, d') \<Rightarrow>
       if e = Incomplete then case chunk_feed d' ys of (e', outs', rest', d'') \<Rightarrow> (e', outs @ outs', rest', d'')
       else (e, outs, rest @ ys, d'))"
  by (induction xs arbitrary: d) (auto split: chunk_next.splits prod.splits)

text \<open>
  C17 (in-place decoding).  The decoder, which rewrites the buffer it reads, implements the machine
  that takes one byte at a time: it returns its verdict and its state, the front of the buffer holds
  the decoded data, and the bytes it has not consumed follow.
\<close>

theorem phr_decode_chunked_refines:
  assumes "chunk_ok d"
  shows "chunk_done buf 0 (chunk_feed d buf) (phr_decode_chunked d buf)"
  using assms by (rule decode_refines)

text \<open>
  C18 (chunks in pieces).  Feeding the decoder data in two calls, the first of which is incomplete,
  yields the code, the decoder state and the data of a single call on all of it.
\<close>

theorem phr_decode_chunked_pieces:
  assumes "chunk_ok d" "phr_decode_chunked d xs = (-2, d1, b1, n1)"
    and "phr_decode_chunked d1 ys = (ret2, d2, b2, n2)"
    and "phr_decode_chunked d (xs @ ys) = (ret, d3, b, n)"
  shows "ret = ret2 \<and> d3 = d2 \<and> take n b = take n1 b1 @ take n2 b2"
proof -
  from decode_feed [OF assms(1,2)] obtain e rest where
    1: "chunk_feed d xs = (e, take n1 b1, rest, d1)" "chunk_ret e rest = -2" by metis
  then have e: "e = Incomplete" by (cases e) auto
  with 1 assms(1) have "chunk_ok d1" using chunk_feed_ok by blast
  from decode_feed [OF this assms(3)] obtain e2 rest2 where
    2: "chunk_feed d1 ys = (e2, take n2 b2, rest2, d2)" "ret2 = chunk_ret e2 rest2" by metis
  from decode_feed [OF assms(1,4)] obtain e3 rest3 where
    3: "chunk_feed d (xs @ ys) = (e3, take n b, rest3, d3)" "ret = chunk_ret e3 rest3" by metis
  from 1(1) 2(1) 3(1) e have "e3 = e2 \<and> take n b = take n1 b1 @ take n2 b2 \<and> rest3 = rest2 \<and> d3 = d2"
    by (simp add: chunk_feed_append)
  with 2 3 show ?thesis by simp
qed

section \<open>The encoding\<close>

definition hex_digit :: "nat \<Rightarrow> u8" where
  "hex_digit n = (if n < 10 then of_nat (48 + n) else of_nat (87 + n))"

fun hex_of :: "nat \<Rightarrow> bytes" where
  "hex_of n = (if n < 16 then [hex_digit n] else hex_of (n div 16) @ [hex_digit (n mod 16)])"

declare hex_of.simps [simp del]

text \<open>A chunk on the wire: its length in hexadecimal, the data, each with a line end.\<close>

definition chunk_text :: "bytes \<Rightarrow> bytes" where
  "chunk_text c = hex_of (length c) @ [13, 10] @ c @ [13, 10]"

definition chunk_start :: "bool \<Rightarrow> phr_chunked_decoder" where
  "chunk_start trailer = \<lparr>bytes_left_in_chunk = 0, consume_trailer = trailer, hex_count = 0,
    cstate = CHUNKED_IN_CHUNK_SIZE\<rparr>"

lemma decode_hex_digits: "list_all (\<lambda>n. decode_hex (hex_digit n) = int n) [0..<16]"
  by code_simp

lemma decode_hex_digit: "n < 16 \<Longrightarrow> decode_hex (hex_digit n) = int n"
  using decode_hex_digits by (simp add: list_all_iff del: upt.simps)

lemma length_hex_of: "n < 16 ^ Suc k \<Longrightarrow> length (hex_of n) \<le> Suc k"
proof (induction n arbitrary: k rule: hex_of.induct)
  case (1 n)
  show ?case
  proof (cases "n < 16")
    case True
    then show ?thesis by (simp add: hex_of.simps)
  next
    case False
    then obtain j where k: "k = Suc j" using "1.prems" by (cases k) auto
    have "n div 16 < 16 ^ Suc j" using "1.prems" k by (simp add: less_mult_imp_div_less mult.commute)
    from "1.IH" [OF False this] show ?thesis using False k by (simp add: hex_of.simps [of n])
  qed
qed

lemma hex_feed:
  "length (hex_of n) \<le> 16 \<Longrightarrow> chunk_feed (chunk_start t) (hex_of n) =
    (Incomplete, [], [], chunk_start t\<lparr>bytes_left_in_chunk := of_nat n, hex_count := of_nat (length (hex_of n))\<rparr>)"
proof (induction n rule: hex_of.induct)
  case (1 n)
  show ?case
  proof (cases "n < 16")
    case True
    then show ?thesis
      by (simp add: hex_of.simps [of n] chunk_start_def chunk_byte_def decode_hex_digit)
  next
    case False
    let ?m = "n div 16" and ?d = "n mod 16"
    have len: "length (hex_of n) = Suc (length (hex_of ?m))" using False by (simp add: hex_of.simps [of n])
    then have "length (hex_of ?m) < 16" using "1.prems" by simp
    then have c: "(of_nat (length (hex_of ?m)) :: u8) \<noteq> 16"
      by (simp add: word_unat_eq_iff unat_of_nat take_bit_nat_eq_self)
    have "n = ?m * 16 + ?d" by simp
    then have "(of_nat n :: u64) = of_nat ?m * 16 + of_nat ?d"
      by (metis of_nat_add of_nat_mult of_nat_numeral)
    moreover have "decode_hex (hex_digit ?d) = int ?d" by (simp add: decode_hex_digit)
    moreover have "int ?d \<noteq> -1" by linarith
    ultimately have "chunk_byte (chunk_start t\<lparr>bytes_left_in_chunk := of_nat ?m, hex_count := of_nat (length (hex_of ?m))\<rparr>)
        (hex_digit ?d) = Go (chunk_start t\<lparr>bytes_left_in_chunk := of_nat n, hex_count := of_nat (length (hex_of n))\<rparr>) []"
      using c by (simp add: chunk_byte_def chunk_start_def len)
    with "1.IH" [OF False] len "1.prems" show ?thesis
      using False by (simp add: hex_of.simps [of n] chunk_feed_append)
  qed
qed

lemma hex_of_not_Nil: "hex_of n \<noteq> []"
  by (simp add: hex_of.simps [of n])

text \<open>One non-empty chunk takes the machine back to its start.\<close>

lemma chunk_text_feed:
  assumes "c \<noteq> []" "length c < 18446744073709551616"
  shows "chunk_feed (chunk_start t) (chunk_text c) = (Incomplete, c, [], chunk_start t)"
proof -
  define h where "h = length (hex_of (length c))"
  have "length (hex_of (length c)) \<le> Suc 15" using assms(2) by (intro length_hex_of) simp
  then have h: "h \<le> 16" "0 < h" using hex_of_not_Nil by (simp_all add: h_def)
  then have hc: "(of_nat h :: u8) \<noteq> 0"
    by (simp add: word_unat_eq_iff unat_of_nat take_bit_nat_eq_self)
  have len: "unat (of_nat (length c) :: u64) = length c"
    using assms(2) by (simp add: unat_of_nat take_bit_nat_eq_self)
  then have nz: "(of_nat (length c) :: u64) \<noteq> 0"
    using assms(1) by (metis length_0_conv unsigned_0)
  let ?d = "chunk_start t\<lparr>bytes_left_in_chunk := of_nat (length c), cstate := CHUNKED_IN_CHUNK_DATA\<rparr>"
  have "chunk_feed (chunk_start t\<lparr>bytes_left_in_chunk := of_nat (length c), hex_count := of_nat h\<rparr>) [13, 10]
      = (Incomplete, [], [], ?d)"
    using hc nz by (simp add: chunk_start_def byte_defs decode_hex_def)
  moreover have "chunk_feed ?d c = (Incomplete, c, [],
      chunk_start t\<lparr>bytes_left_in_chunk := 0, cstate := CHUNKED_IN_CHUNK_CRLF\<rparr>)"
    using data_feed [of ?d c] nz len by (simp add: chunk_start_def)
  moreover have "chunk_feed (chunk_start t\<lparr>bytes_left_in_chunk := 0, cstate := CHUNKED_IN_CHUNK_CRLF\<rparr>) [13, 10]
      = (Incomplete, [], [], chunk_start t)"
    by (simp add: chunk_start_def byte_defs)
  moreover have "chunk_feed (chunk_start t) (hex_of (length c)) = (Incomplete, [], [],
      chunk_start t\<lparr>bytes_left_in_chunk := of_nat (length c), hex_count := of_nat h\<rparr>)"
    using hex_feed [of "length c" t] h by (simp add: h_def)
  ultimately show ?thesis
    by (simp only: chunk_text_def chunk_feed_append prod.case if_True append_Nil append_Nil2 simp_thms)
qed

lemma chunk_texts_feed:
  "\<forall>c \<in> set cs. c \<noteq> [] \<and> length c < 18446744073709551616 \<Longrightarrow>
    chunk_feed (chunk_start t) (concat (map chunk_text cs)) = (Incomplete, concat cs, [], chunk_start t)"
  by (induction cs) (simp_all add: chunk_feed_append chunk_text_feed)

text \<open>The last chunk, and the empty trailer when the decoder is told to consume it.\<close>

definition last_chunk :: "bool \<Rightarrow> bytes" where
  "last_chunk trailer = [48, 13, 10] @ (if trailer then [13, 10] else [])"

lemma last_chunk_feed: "\<exists>d. chunk_feed (chunk_start t) (last_chunk t @ tail) = (Complete, [], tail, d)"
  by (simp add: last_chunk_def chunk_start_def byte_defs decode_hex_def)

text \<open>
  C19 (chunked round trip).  A body cut into non-empty chunks and encoded is decoded to the body, in
  place, and the bytes behind the last chunk are left behind the data; the code returns their number.
\<close>

theorem phr_decode_chunked_roundtrip:
  assumes "\<forall>c \<in> set cs. c \<noteq> [] \<and> length c < 18446744073709551616"
    and "phr_decode_chunked (chunk_start t) (concat (map chunk_text cs) @ last_chunk t @ tail)
      = (ret, d, buf, n)"
  shows "ret = int (length tail) \<and> take (n + length tail) buf = concat cs @ tail \<and> n = length (concat cs)"
proof -
  have "chunk_ok (chunk_start t)" by (simp add: chunk_ok_def chunk_start_def)
  from decode_refines [OF this] assms(2) have "chunk_done (concat (map chunk_text cs) @ last_chunk t @ tail) 0
      (chunk_feed (chunk_start t) (concat (map chunk_text cs) @ last_chunk t @ tail)) (ret, d, buf, n)"
    by metis
  moreover obtain d' where "chunk_feed (chunk_start t) (last_chunk t @ tail) = (Complete, [], tail, d')"
    using last_chunk_feed by blast
  ultimately show ?thesis
    using chunk_texts_feed [OF assms(1)] by (auto simp: chunk_done_def chunk_feed_append)
qed

end
