(* ===== verification/Pico_Zzq.thy ===== *)
theory Pico_Zzq
  imports Pico_Correct
begin

text \<open>
  The trimmed request parser of \<open>picohttpparser_zzq.c\<close>, which skips the method and the version
  unread and shares everything else with \<open>picohttpparser.c\<close>.  It agrees with the full parser on
  every request that parser accepts, but it drops the check for the end of the buffer in front of the
  method and leaves the buffer on an empty line.
\<close>

record zzq_request =
  zq_path :: bytes
  zq_headers :: "phr_header list"

fun ADVANCE_TO_SPACE :: "bytes \<Rightarrow> bytes pres" where
  "ADVANCE_TO_SPACE [] = POob"
| "ADVANCE_TO_SPACE (c # buf) =
    (if c = 32 then POk (c # buf) else if buf = [] then PRet (-2) else ADVANCE_TO_SPACE buf)"

definition zzq_parse_request ::
  "bool \<Rightarrow> nat \<Rightarrow> bytes \<Rightarrow> zzq_request \<Rightarrow> bytes pres \<times> zzq_request"
where
  "zzq_parse_request sse max_headers buf q =
    pthen (skip_first_line buf) q (\<lambda>buf.
    pthen (ADVANCE_TO_SPACE buf) q (\<lambda>buf.
    pthen (advance buf) q (\<lambda>buf.
    pthen (ADVANCE_TOKEN sse buf) q (\<lambda>(t, buf). let q = q\<lparr>zq_path := t\<rparr> in
    pthen (advance buf) q (\<lambda>buf.
    if zq_path q = [] then (PRet (-1), q)
    else if length buf < 9 then (PRet (-2), q)
    else pthen (line_end (drop 8 buf)) q (\<lambda>buf.
    let (r, hs) = parse_headers sse max_headers buf [] in (r, q\<lparr>zq_headers := hs\<rparr>)))))))"

definition zzq_phr_parse_request ::
  "bool \<Rightarrow> nat \<Rightarrow> bytes \<Rightarrow> nat \<Rightarrow> int option \<times> zzq_request"
where
  "zzq_phr_parse_request sse max_headers buf last_len =
    (let q = \<lparr>zq_path = [], zq_headers = []\<rparr>;
         (r, q) = pthen (check_complete buf last_len) q (\<lambda>_. zzq_parse_request sse max_headers buf q)
     in (phr_return (length buf) r, q))"

section \<open>Agreement with the full parser\<close>

lemma ADVANCE_TO_SPACE_word: "list_all word_byte t \<Longrightarrow> ADVANCE_TO_SPACE (t @ 32 # x) = POk (32 # x)"
  by (induction t) auto

lemma zzq_agrees:
  assumes "parse_request sse m buf q0 = (POk r, q)"
  shows "zzq_parse_request sse m buf z = (POk r, \<lparr>zq_path = rq_path q, zq_headers = rq_headers q\<rparr>)"
proof -
  from assms obtain b0 b1 b2 b3 b4 b5 b6 where b: "skip_first_line buf = POk b0"
      "ADVANCE_TOKEN sse b0 = POk (rq_method q, b1)" "advance b1 = POk b2"
      "ADVANCE_TOKEN sse b2 = POk (rq_path q, b3)" "advance b3 = POk b4"
      "rq_path q \<noteq> []" "parse_http_version b4 = POk (rq_minor q, b5)" "line_end b5 = POk b6"
      "parse_headers sse m b6 [] = (POk r, rq_headers q)"
    unfolding parse_request_steps by blast
  from b(2) have "ADVANCE_TO_SPACE b0 = POk b1"
    by (auto simp: ADVANCE_TOKEN_iff ADVANCE_TO_SPACE_word)
  moreover from b(7) obtain v where v: "version_text (rq_minor q) v" "b4 = v @ b5" "b5 \<noteq> []"
    by (auto simp: parse_http_version_iff)
  then have "drop 8 b4 = b5" "\<not> length b4 < 9" using version_length [OF v(1)] by (cases b5; simp)+
  ultimately show ?thesis
    using b unfolding zzq_parse_request_def Let_def by (cases z) auto
qed

text \<open>
  C20 (trimmed parser, agreement).  Whenever \<open>phr_parse_request\<close> accepts, in one go or
  incrementally, the trimmed parser accepts as well: with the same count, path and headers.
\<close>

theorem zzq_phr_parse_request_agrees:
  assumes "length buf < 2147483648" "phr_parse_request sse m buf last_len = (Some n, q)" "0 \<le> n"
  shows "zzq_phr_parse_request sse m buf last_len
    = (Some n, \<lparr>zq_path = rq_path q, zq_headers = rq_headers q\<rparr>)"
proof (cases "check_complete buf last_len")
  case (POk p)
  let ?q = "\<lparr>rq_method = [], rq_path = [], rq_minor = -1, rq_headers = []\<rparr>"
  let ?p = "parse_request sse m buf ?q"
  have e: "phr_return (length buf) (fst ?p) = Some n" "snd ?p = q"
    using assms(2) POk by (auto simp: phr_parse_request_def split_beta Let_def)
  have "fine (fst ?p)" by (rule fine_parse_request)
  with e(1) assms(3) obtain r where r: "fst ?p = POk r" by (cases "fst ?p") auto
  then have "?p = (POk r, q)" using e(2) by (metis prod.collapse)
  from zzq_agrees [OF this] have "zzq_parse_request sse m buf \<lparr>zq_path = [], zq_headers = []\<rparr>
      = (POk r, \<lparr>zq_path = rq_path q, zq_headers = rq_headers q\<rparr>)" .
  then show ?thesis using POk e(1) r by (simp add: zzq_phr_parse_request_def)
next
  case (PRet i)
  have "fine (check_complete buf last_len) \<or> check_complete buf last_len = POob"
    using fine_complete_loop by (auto simp: check_complete_def is_complete_def)
  with PRet assms show ?thesis by (auto simp: phr_parse_request_def)
next
  case POob
  with assms show ?thesis by (simp add: phr_parse_request_def)
qed

text \<open>
  The trimmed parser reads too far: on a buffer that holds only an empty line, the trimmed parser reads
  the byte behind the buffer, whereas the full parser asks for more data.
\<close>

theorem zzq_phr_parse_request_overreads:
  "fst (zzq_phr_parse_request sse m [13, 10] 0) = None \<and>
    fst (phr_parse_request sse m [13, 10] 0) = Some (-2)"
  by (simp add: zzq_phr_parse_request_def phr_parse_request_def check_complete_def zzq_parse_request_def
      parse_request_def skip_first_line_def EXPECT_CHAR_def ADVANCE_TOKEN_eq)

end
