(* ===== verification/Pico_Examples.thy ===== *)
theory Pico_Examples
  imports Pico_Correct Pico_Chunked Pico_Zzq
begin

text \<open>
  Concrete HTTP messages: a request, a response and a chunked body, on which the properties of the
  pico parsers are instantiated.
\<close>

definition get_text :: bytes where
  "get_text = cstr ''GET / HTTP/1.1'' @ [13, 10] @ cstr ''H: v'' @ [13, 10, 13, 10]"

definition get_request :: phr_request where
  "get_request = \<lparr>rq_method = cstr ''GET'', rq_path = cstr ''/'', rq_minor = 1,
     rq_headers = [\<lparr>hname = Some (cstr ''H''), hvalue = cstr ''v''\<rparr>]\<rparr>"

definition ok_text :: bytes where
  "ok_text = cstr ''HTTP/1.0 200 OK'' @ [13, 10, 13, 10]"

definition ok_response :: phr_response where
  "ok_response = \<lparr>rs_minor = 0, rs_status = 200, rs_msg = cstr ''OK'', rs_headers = []\<rparr>"

lemma get_parsed: "phr_parse_request False 4 get_text 0 = (Some 24, get_request)"
  by code_simp

lemma get_part: "phr_parse_request False 4 (take 12 get_text) 0
    = (Some (-2), get_request\<lparr>rq_minor := -1, rq_headers := []\<rparr>)"
  by code_simp

lemma ok_parsed: "phr_parse_response False 4 ok_text 0 = (Some 19, ok_response)"
  by code_simp

lemma get_length [simp]: "length get_text = 24"
  by (simp add: get_text_def)

lemma ok_length [simp]: "length ok_text = 19"
  by (simp add: ok_text_def)

text \<open>The grammar properties: the texts parse, so they are texts of the grammar.\<close>

theorem phr_parse_request_grammar_witness:
  "\<exists>t r. get_text = t @ r \<and> 24 = int (length t) \<and> request_text get_request t \<and>
    length (rq_headers get_request) \<le> 4"
  using phr_parse_request_grammar [of get_text False 4 24 get_request] by (simp add: get_parsed)

theorem phr_parse_response_grammar_witness:
  "\<exists>t r. ok_text = t @ r \<and> 19 = int (length t) \<and> response_text ok_response t \<and>
    length (rs_headers ok_response) \<le> 4"
  using phr_parse_response_grammar [of ok_text False 4 19 ok_response] by (simp add: ok_parsed)


theorem phr_incremental_request_witness:
  "phr_parse_request False 4 get_text 12 = (Some 24, get_request)"
  using phr_incremental_request [of get_text False 4 24 get_request 12]
  by (simp add: get_parsed get_part)

theorem zzq_phr_parse_request_agrees_witness:
  "zzq_phr_parse_request False 4 get_text 0
    = (Some 24, \<lparr>zq_path = rq_path get_request, zq_headers = rq_headers get_request\<rparr>)"
  using zzq_phr_parse_request_agrees [of get_text False 4 0 24 get_request]
  by (simp add: get_parsed)

section \<open>Chunks\<close>

text \<open>The body \<open>abc\<close> as one chunk, cut after the first byte of data.\<close>

definition body_front :: bytes where
  "body_front = [51, 13, 10, 97]"

definition body_back :: bytes where
  "body_back = [98, 99, 13, 10, 48, 13, 10]"

definition inside :: phr_chunked_decoder where
  "inside = \<lparr>bytes_left_in_chunk = 2, consume_trailer = False, hex_count = 0,
     cstate = CHUNKED_IN_CHUNK_DATA\<rparr>"

definition at_end :: phr_chunked_decoder where
  "at_end = \<lparr>bytes_left_in_chunk = 0, consume_trailer = False, hex_count = 0,
     cstate = CHUNKED_IN_CHUNK_EXT\<rparr>"

lemma front_decoded: "phr_decode_chunked (chunk_start False) body_front = (-2, inside, [97, 13, 10, 97], 1)"
  by code_simp

lemma back_decoded: "phr_decode_chunked inside body_back
    = (0, at_end, [98, 99, 13, 10, 48, 13, 10], 2)"
  by code_simp

lemma whole_decoded: "phr_decode_chunked (chunk_start False) (body_front @ body_back)
    = (0, at_end, [97, 98, 99, 97, 98, 99, 13, 10, 48, 13, 10], 3)"
  by code_simp

lemma chunk_start_ok: "chunk_ok (chunk_start t)"
  by (simp add: chunk_ok_def chunk_start_def)

theorem phr_decode_chunked_refines_witness:
  "chunk_done body_front 0 (chunk_feed (chunk_start False) body_front)
    (phr_decode_chunked (chunk_start False) body_front)"
  by (rule phr_decode_chunked_refines [OF chunk_start_ok])

theorem phr_decode_chunked_pieces_witness:
  "take 3 [97, 98, 99, 97, 98, 99, 13, 10, 48, 13, 10] =
    take 1 [97, 13, 10, 97] @ take 2 [98, 99, 13, 10, 48, 13, 10 :: u8]"
  using phr_decode_chunked_pieces [OF chunk_start_ok front_decoded back_decoded whole_decoded] by blast

theorem phr_decode_chunked_roundtrip_witness:
  "take 3 [97, 98, 99, 97, 98, 99, 13, 10, 48, 13, 10] = ([97, 98, 99] :: bytes)"
  using phr_decode_chunked_roundtrip [of "[[97, 98, 99]]" False "[]" 0 at_end
      "[97, 98, 99, 97, 98, 99, 13, 10, 48, 13, 10]" 3] whole_decoded
  by (simp add: chunk_text_def last_chunk_def hex_of.simps [of 3] hex_digit_def body_front_def body_back_def)

end
