(* ===== verification/Http_Base.thy ===== *)
theory Http_Base
  imports Prelude
begin

text \<open>
  The vocabulary of the streaming HTTP parser \<open>http_parser.c\<close> (the variant under
  \<open>C/dpdk/http-field-parser-bench\<close>): its enumerations, its character tables and classes, the parser
  struct with its flags, and the settings that hold the callbacks.  The library is modelled as it is
  built there, in strict mode (\<open>HTTP_PARSER_STRICT\<close> is 1).
\<close>

section \<open>Enumerations\<close>

text \<open>\<open>enum state\<close>.\<close>

datatype (plugins only: code) http_state =
    s_dead
  | s_start_req_or_res | s_res_or_resp_H | s_start_res | s_res_H | s_res_HT | s_res_HTT | s_res_HTTP
  | s_res_http_major | s_res_http_dot | s_res_http_minor | s_res_http_end
  | s_res_first_status_code | s_res_status_code | s_res_status_start | s_res_status | s_res_line_almost_done
  | s_start_req | s_req_method | s_req_spaces_before_url | s_req_schema | s_req_schema_slash
  | s_req_schema_slash_slash | s_req_server_start | s_req_server | s_req_server_with_at | s_req_path
  | s_req_query_string_start | s_req_query_string | s_req_fragment_start | s_req_fragment
  | s_req_http_start | s_req_http_H | s_req_http_HT | s_req_http_HTT | s_req_http_HTTP
  | s_req_http_I | s_req_http_IC | s_req_http_major | s_req_http_dot | s_req_http_minor | s_req_http_end
  | s_req_line_almost_done
  | s_header_field_start | s_header_field | s_header_value_discard_ws
  | s_header_value_discard_ws_almost_done | s_header_value_discard_lws | s_header_value_start
  | s_header_value | s_header_value_lws | s_header_almost_done
  | s_chunk_size_start | s_chunk_size | s_chunk_parameters | s_chunk_size_almost_done
  | s_headers_almost_done | s_headers_done
  | s_chunk_data | s_chunk_data_almost_done | s_chunk_data_done
  | s_body_identity | s_body_identity_eof | s_message_done

text \<open>\<open>state \<le> s_headers_done\<close>: every state but those of the body.\<close>

definition PARSING_HEADER :: "http_state \<Rightarrow> bool" where
  "PARSING_HEADER st \<longleftrightarrow> \<not> (case st of
     s_chunk_data \<Rightarrow> True | s_chunk_data_almost_done \<Rightarrow> True | s_chunk_data_done \<Rightarrow> True
   | s_body_identity \<Rightarrow> True | s_body_identity_eof \<Rightarrow> True | s_message_done \<Rightarrow> True
   | _ \<Rightarrow> False)"

datatype (plugins only: code) header_states =
    h_general | h_C | h_CO | h_CON | h_U
  | h_matching_connection | h_matching_proxy_connection | h_matching_content_length
  | h_matching_transfer_encoding | h_matching_upgrade
  | h_matching_user_agent | h_matching_host | h_matching_content_type | h_matching_referer
  | h_matching_server | h_matching_cookie | h_matching_content_dash
  | h_connection | h_content_length | h_content_length_num | h_content_length_ws
  | h_transfer_encoding | h_upgrade
  | h_matching_transfer_encoding_chunked | h_matching_connection_token_start
  | h_matching_connection_keep_alive | h_matching_connection_close | h_matching_connection_upgrade
  | h_matching_connection_token
  | h_transfer_encoding_chunked | h_connection_keep_alive | h_connection_close | h_connection_upgrade

datatype (plugins only: code) http_host_state =
    s_http_host_dead | s_http_userinfo_start | s_http_userinfo | s_http_host_start
  | s_http_host_v6_start | s_http_host | s_http_host_v6 | s_http_host_v6_end
  | s_http_host_v6_zone_start | s_http_host_v6_zone | s_http_host_port_start | s_http_host_port

datatype http_parser_type = HTTP_REQUEST | HTTP_RESPONSE | HTTP_BOTH

datatype (plugins only: code) http_method =
    HTTP_DELETE | HTTP_GET | HTTP_HEAD | HTTP_POST | HTTP_PUT | HTTP_CONNECT | HTTP_OPTIONS | HTTP_TRACE
  | HTTP_COPY | HTTP_LOCK | HTTP_MKCOL | HTTP_MOVE | HTTP_PROPFIND | HTTP_PROPPATCH | HTTP_SEARCH
  | HTTP_UNLOCK | HTTP_BIND | HTTP_REBIND | HTTP_UNBIND | HTTP_ACL | HTTP_REPORT | HTTP_MKACTIVITY
  | HTTP_CHECKOUT | HTTP_MERGE | HTTP_MSEARCH | HTTP_NOTIFY | HTTP_SUBSCRIBE | HTTP_UNSUBSCRIBE
  | HTTP_PATCH | HTTP_PURGE | HTTP_MKCALENDAR | HTTP_LINK | HTTP_UNLINK | HTTP_SOURCE

datatype (plugins only: code) http_errno =
    HPE_OK
  | HPE_CB_message_begin | HPE_CB_url | HPE_CB_header_field | HPE_CB_header_value
  | HPE_CB_headers_complete | HPE_CB_body | HPE_CB_message_complete | HPE_CB_status
  | HPE_CB_chunk_header | HPE_CB_chunk_complete
  | HPE_INVALID_EOF_STATE | HPE_HEADER_OVERFLOW | HPE_CLOSED_CONNECTION | HPE_INVALID_VERSION
  | HPE_INVALID_STATUS | HPE_INVALID_METHOD | HPE_INVALID_URL | HPE_INVALID_HOST | HPE_INVALID_PORT
  | HPE_INVALID_PATH | HPE_INVALID_QUERY_STRING | HPE_INVALID_FRAGMENT | HPE_LF_EXPECTED
  | HPE_INVALID_HEADER_TOKEN | HPE_INVALID_CONTENT_LENGTH | HPE_UNEXPECTED_CONTENT_LENGTH
  | HPE_INVALID_CHUNK_SIZE | HPE_INVALID_CONSTANT | HPE_INVALID_INTERNAL_STATE | HPE_STRICT
  | HPE_PAUSED | HPE_UNKNOWN

section \<open>Strings\<close>

text \<open>A read at index \<open>i\<close> of a C string: its NUL is part of it, nothing behind is.\<close>

definition c_at :: "bytes \<Rightarrow> nat \<Rightarrow> u8 option" where
  "c_at s i = (if i < length s then Some (s ! i) else if i = length s then Some 0 else None)"

text \<open>\<open>method_strings\<close>.\<close>

fun method_string :: "http_method \<Rightarrow> string" where
  "method_string HTTP_DELETE = ''DELETE''"
| "method_string HTTP_GET = ''GET''"
| "method_string HTTP_HEAD = ''HEAD''"
| "method_string HTTP_POST = ''POST''"
| "method_string HTTP_PUT = ''PUT''"
| "method_string HTTP_CONNECT = ''CONNECT''"
| "method_string HTTP_OPTIONS = ''OPTIONS''"
| "method_string HTTP_TRACE = ''TRACE''"
| "method_string HTTP_COPY = ''COPY''"
| "method_string HTTP_LOCK = ''LOCK''"
| "method_string HTTP_MKCOL = ''MKCOL''"
| "method_string HTTP_MOVE = ''MOVE''"
| "method_string HTTP_PROPFIND = ''PROPFIND''"
| "method_string HTTP_PROPPATCH = ''PROPPATCH''"
| "method_string HTTP_SEARCH = ''SEARCH''"
| "method_string HTTP_UNLOCK = ''UNLOCK''"
| "method_string HTTP_BIND = ''BIND''"
| "method_string HTTP_REBIND = ''REBIND''"
| "method_string HTTP_UNBIND = ''UNBIND''"
| "method_string HTTP_ACL = ''ACL''"
| "method_string HTTP_REPORT = ''REPORT''"
| "method_string HTTP_MKACTIVITY = ''MKACTIVITY''"
| "method_string HTTP_CHECKOUT = ''CHECKOUT''"
| "method_string HTTP_MERGE = ''MERGE''"
| "method_string HTTP_MSEARCH = ''M-SEARCH''"
| "method_string HTTP_NOTIFY = ''NOTIFY''"
| "method_string HTTP_SUBSCRIBE = ''SUBSCRIBE''"
| "method_string HTTP_UNSUBSCRIBE = ''UNSUBSCRIBE''"
| "method_string HTTP_PATCH = ''PATCH''"
| "method_string HTTP_PURGE = ''PURGE''"
| "method_string HTTP_MKCALENDAR = ''MKCALENDAR''"
| "method_string HTTP_LINK = ''LINK''"
| "method_string HTTP_UNLINK = ''UNLINK''"
| "method_string HTTP_SOURCE = ''SOURCE''"

definition PROXY_CONNECTION :: bytes where "PROXY_CONNECTION = cstr ''proxy-connection''"
definition CONNECTION :: bytes where "CONNECTION = cstr ''connection''"
definition CONTENT_LENGTH :: bytes where "CONTENT_LENGTH = cstr ''content-length''"
definition TRANSFER_ENCODING :: bytes where "TRANSFER_ENCODING = cstr ''transfer-encoding''"
definition UPGRADE :: bytes where "UPGRADE = cstr ''upgrade''"
definition CHUNKED :: bytes where "CHUNKED = cstr ''chunked''"
definition KEEP_ALIVE :: bytes where "KEEP_ALIVE = cstr ''keep-alive''"
definition CLOSE :: bytes where "CLOSE = cstr ''close''"
definition USERAGENT :: bytes where "USERAGENT = cstr ''user-agent''"
definition HOST :: bytes where "HOST = cstr ''host''"
definition REFERER :: bytes where "REFERER = cstr ''referer''"
definition SERVER :: bytes where "SERVER = cstr ''server''"
definition COOKIE :: bytes where "COOKIE = cstr ''cookie''"
definition CONTENT_DASH :: bytes where "CONTENT_DASH = cstr ''content-''"
definition CONTENT_TYPE :: bytes where "CONTENT_TYPE = cstr ''content_type''"

section \<open>Character tables and classes\<close>

text \<open>\<open>tokens[256]\<close>: the lower-cased token characters; the entries from 128 on are not initialised to
  anything but 0.\<close>

definition tokens :: "u8 list" where
  "tokens =
    [
     0, 0, 0, 0, 0, 0, 0, 0, 0, 0, 0, 0, 0, 0, 0, 0,
     0, 0, 0, 0, 0, 0, 0, 0, 0, 0, 0, 0, 0, 0, 0, 0,
     32, 33, 0, 35, 36, 37, 38, 39, 0, 0, 42, 43, 0, 45, 46, 0,
     48, 49, 50, 51, 52, 53, 54, 55, 56, 57, 0, 0, 0, 0, 0, 0,
     0, 97, 98, 99, 100, 101, 102, 103, 104, 105, 106, 107, 108, 109, 110, 111,
     112, 113, 114, 115, 116, 117, 118, 119, 120, 121, 122, 0, 0, 0, 94, 95,
     96, 97, 98, 99, 100, 101, 102, 103, 104, 105, 106, 107, 108, 109, 110, 111,
     112, 113, 114, 115, 116, 117, 118, 119, 120, 121, 122, 0, 124, 0, 126, 0] @ replicate 128 0"

text \<open>\<open>unhex[256]\<close>: the initialiser lists 128 entries, so that C fills the other 128 with 0.\<close>

definition unhex :: "int list" where
  "unhex =
    [
     -1, -1, -1, -1, -1, -1, -1, -1, -1, -1, -1, -1, -1, -1, -1, -1,
     -1, -1, -1, -1, -1, -1, -1, -1, -1, -1, -1, -1, -1, -1, -1, -1,
     -1, -1, -1, -1, -1, -1, -1, -1, -1, -1, -1, -1, -1, -1, -1, -1,
     0, 1, 2, 3, 4, 5, 6, 7, 8, 9, -1, -1, -1, -1, -1, -1,
     -1, 10, 11, 12, 13, 14, 15, -1, -1, -1, -1, -1, -1, -1, -1, -1,
     -1, -1, -1, -1, -1, -1, -1, -1, -1, -1, -1, -1, -1, -1, -1, -1,
     -1, 10, 11, 12, 13, 14, 15, -1, -1, -1, -1, -1, -1, -1, -1, -1,
     -1, -1, -1, -1, -1, -1, -1, -1, -1, -1, -1, -1, -1, -1, -1, -1] @ replicate 128 0"

text \<open>\<open>normal_url_char[32]\<close>: one bit per character, in strict mode; half of the table is 0.\<close>

definition normal_url_char :: "u8 list" where
  "normal_url_char =
    [
     0, 0, 0, 0, 246, 255, 255, 127, 255, 255, 255, 255, 255, 255, 255, 127] @ replicate 16 0"

definition BIT_AT :: "u8 list \<Rightarrow> u8 \<Rightarrow> bool" where
  "BIT_AT a i \<longleftrightarrow> bit (a ! unat (drop_bit 3 i)) (unat (i AND 7))"

abbreviation (input) CR :: u8 where "CR \<equiv> 13"
abbreviation (input) LF :: u8 where "LF \<equiv> 10"
abbreviation (input) SPC :: u8 where "SPC \<equiv> 32"
abbreviation (input) TAB :: u8 where "TAB \<equiv> 9"

definition LOWER :: "u8 \<Rightarrow> u8" where
  "LOWER c = c OR 32"

definition IS_ALPHA :: "u8 \<Rightarrow> bool" where
  "IS_ALPHA c \<longleftrightarrow> 97 \<le> LOWER c \<and> LOWER c \<le> 122"

definition IS_NUM :: "u8 \<Rightarrow> bool" where
  "IS_NUM c \<longleftrightarrow> 48 \<le> c \<and> c \<le> 57"

definition IS_ALPHANUM :: "u8 \<Rightarrow> bool" where
  "IS_ALPHANUM c \<longleftrightarrow> IS_ALPHA c \<or> IS_NUM c"

definition IS_HEX :: "u8 \<Rightarrow> bool" where
  "IS_HEX c \<longleftrightarrow> IS_NUM c \<or> 97 \<le> LOWER c \<and> LOWER c \<le> 102"

text \<open>\<open>- _ . ! ~ * ' ( )\<close>\<close>

definition IS_MARK :: "u8 \<Rightarrow> bool" where
  "IS_MARK c \<longleftrightarrow> c \<in> {45, 95, 46, 33, 126, 42, 39, 40, 41}"

text \<open>further \<open>% ; : & = + $ ,\<close>\<close>

definition IS_USERINFO_CHAR :: "u8 \<Rightarrow> bool" where
  "IS_USERINFO_CHAR c \<longleftrightarrow> IS_ALPHANUM c \<or> IS_MARK c \<or> c \<in> {37, 59, 58, 38, 61, 43, 36, 44}"

text \<open>\<open>TOKEN\<close> is \<open>STRICT_TOKEN\<close>: no space, otherwise the table.\<close>

definition TOKEN :: "u8 \<Rightarrow> u8" where
  "TOKEN c = (if c = SPC then 0 else tokens ! unat c)"

definition IS_URL_CHAR :: "u8 \<Rightarrow> bool" where
  "IS_URL_CHAR c \<longleftrightarrow> BIT_AT normal_url_char c"

definition IS_HOST_CHAR :: "u8 \<Rightarrow> bool" where
  "IS_HOST_CHAR c \<longleftrightarrow> IS_ALPHANUM c \<or> c = 46 \<or> c = 45"

definition IS_HEADER_CHAR :: "u8 \<Rightarrow> bool" where
  "IS_HEADER_CHAR c \<longleftrightarrow> c = CR \<or> c = LF \<or> c = 9 \<or> 31 < c \<and> c \<noteq> 127"

section \<open>The parser\<close>

definition F_CHUNKED :: u8 where "F_CHUNKED = 1"
definition F_CONNECTION_KEEP_ALIVE :: u8 where "F_CONNECTION_KEEP_ALIVE = 2"
definition F_CONNECTION_CLOSE :: u8 where "F_CONNECTION_CLOSE = 4"
definition F_CONNECTION_UPGRADE :: u8 where "F_CONNECTION_UPGRADE = 8"
definition F_TRAILING :: u8 where "F_TRAILING = 16"
definition F_UPGRADE :: u8 where "F_UPGRADE = 32"
definition F_SKIPBODY :: u8 where "F_SKIPBODY = 64"
definition F_CONTENTLENGTH :: u8 where "F_CONTENTLENGTH = 128"

lemmas flag_defs = F_CHUNKED_def F_CONNECTION_KEEP_ALIVE_def F_CONNECTION_CLOSE_def
  F_CONNECTION_UPGRADE_def F_TRAILING_def F_UPGRADE_def F_SKIPBODY_def F_CONTENTLENGTH_def

definition ULLONG_MAX :: u64 where
  "ULLONG_MAX = -1"

text \<open>\<open>struct http_parser\<close>; \<open>data\<close>, a pointer of the application, has an arbitrary type.\<close>

record 'd http_parser =
  ptype :: http_parser_type
  flags :: u8
  state :: http_state
  header_state :: header_states
  index :: "7 word"
  lenient_http_headers :: bool
  nread :: u32
  content_length :: u64
  http_major :: u16
  http_minor :: u16
  status_code :: u16
  meth :: http_method
  http_errno :: http_errno
  upgrade :: bool
  data :: 'd
  anchor_id :: int

text \<open>
  The callbacks of the application: a callback gets the parser, a data callback also the bytes of
  the piece, and returns its result with the parser as it leaves it.
\<close>

type_synonym 'd http_cb = "'d http_parser \<Rightarrow> int \<times> 'd http_parser"
type_synonym 'd http_data_cb = "'d http_parser \<Rightarrow> bytes \<Rightarrow> int \<times> 'd http_parser"

record 'd http_parser_settings =
  on_message_begin :: "'d http_cb option"
  on_url :: "'d http_data_cb option"
  on_status :: "'d http_data_cb option"
  on_header_field :: "'d http_data_cb option"
  on_header_value :: "'d http_data_cb option"
  on_headers_complete :: "'d http_cb option"
  on_body :: "'d http_data_cb option"
  on_message_complete :: "'d http_cb option"
  on_chunk_header :: "'d http_cb option"
  on_chunk_complete :: "'d http_cb option"

end
