(* ===== verification/Http_Url.thy ===== *)
theory Http_Url
  imports Http_Base
begin

text \<open>
  The URL parser of \<open>http_parser.c\<close>: the transition function \<open>parse_url_char\<close> that the streaming
  parser shares, the host parser, and \<open>http_parser_parse_url\<close>, which turns the transitions into the
  offsets and lengths of the components.  A failing \<open>assert\<close> is the result \<open>None\<close>.
\<close>

section \<open>Transitions\<close>

text \<open>The cases of the authority, shared by three states.\<close>

definition server_char :: "u8 \<Rightarrow> http_state" where
  "server_char ch =
    (if ch = 47 then s_req_path
     else if ch = 63 then s_req_query_string_start
     else if ch = 64 then s_req_server_with_at
     else if IS_USERINFO_CHAR ch \<or> ch = 91 \<or> ch = 93 then s_req_server
     else s_dead)"

definition query_char :: "u8 \<Rightarrow> http_state" where
  "query_char ch =
    (if IS_URL_CHAR ch then s_req_query_string
     else if ch = 63 then s_req_query_string
     else if ch = 35 then s_req_fragment_start
     else s_dead)"

definition parse_url_char :: "http_state \<Rightarrow> u8 \<Rightarrow> http_state" where
  "parse_url_char s ch =
    (if ch = SPC \<or> ch = CR \<or> ch = LF then s_dead
     else if ch = TAB \<or> ch = 12 then s_dead
     else case s of
       s_req_spaces_before_url \<Rightarrow>
         if ch = 47 \<or> ch = 42 then s_req_path
         else if IS_ALPHA ch then s_req_schema
         else s_dead
     | s_req_schema \<Rightarrow>
         if IS_ALPHA ch then s
         else if ch = 58 then s_req_schema_slash
         else s_dead
     | s_req_schema_slash \<Rightarrow> if ch = 47 then s_req_schema_slash_slash else s_dead
     | s_req_schema_slash_slash \<Rightarrow> if ch = 47 then s_req_server_start else s_dead
     | s_req_server_with_at \<Rightarrow> if ch = 64 then s_dead else server_char ch
     | s_req_server_start \<Rightarrow> server_char ch
     | s_req_server \<Rightarrow> server_char ch
     | s_req_path \<Rightarrow>
         if IS_URL_CHAR ch then s
         else if ch = 63 then s_req_query_string_start
         else if ch = 35 then s_req_fragment_start
         else s_dead
     | s_req_query_string_start \<Rightarrow> query_char ch
     | s_req_query_string \<Rightarrow> query_char ch
     | s_req_fragment_start \<Rightarrow>
         if IS_URL_CHAR ch then s_req_fragment
         else if ch = 63 then s_req_fragment
         else if ch = 35 then s
         else s_dead
     | s_req_fragment \<Rightarrow> if IS_URL_CHAR ch then s else if ch = 63 \<or> ch = 35 then s else s_dead
     | _ \<Rightarrow> s_dead)"

definition v6_char :: "bool \<Rightarrow> u8 \<Rightarrow> http_host_state" where
  "v6_char inside ch =
    (if IS_HEX ch \<or> ch = 58 \<or> ch = 46 then s_http_host_v6
     else if inside \<and> ch = 37 then s_http_host_v6_zone_start
     else s_http_host_dead)"

definition zone_char :: "u8 \<Rightarrow> http_host_state" where
  "zone_char ch =
    (if IS_ALPHANUM ch \<or> ch = 37 \<or> ch = 46 \<or> ch = 45 \<or> ch = 95 \<or> ch = 126
     then s_http_host_v6_zone else s_http_host_dead)"

definition userinfo_char :: "u8 \<Rightarrow> http_host_state" where
  "userinfo_char ch =
    (if ch = 64 then s_http_host_start
     else if IS_USERINFO_CHAR ch then s_http_userinfo else s_http_host_dead)"

definition http_parse_host_char :: "http_host_state \<Rightarrow> u8 \<Rightarrow> http_host_state" where
  "http_parse_host_char s ch =
    (case s of
       s_http_userinfo \<Rightarrow> userinfo_char ch
     | s_http_userinfo_start \<Rightarrow> userinfo_char ch
     | s_http_host_start \<Rightarrow>
         if ch = 91 then s_http_host_v6_start
         else if IS_HOST_CHAR ch then s_http_host
         else s_http_host_dead
     | s_http_host \<Rightarrow>
         if IS_HOST_CHAR ch then s_http_host
         else if ch = 58 then s_http_host_port_start else s_http_host_dead
     | s_http_host_v6_end \<Rightarrow> if ch = 58 then s_http_host_port_start else s_http_host_dead
     | s_http_host_v6 \<Rightarrow> if ch = 93 then s_http_host_v6_end else v6_char True ch
     | s_http_host_v6_start \<Rightarrow> v6_char False ch
     | s_http_host_v6_zone \<Rightarrow> if ch = 93 then s_http_host_v6_end else zone_char ch
     | s_http_host_v6_zone_start \<Rightarrow> zone_char ch
     | s_http_host_port \<Rightarrow> if IS_NUM ch then s_http_host_port else s_http_host_dead
     | s_http_host_port_start \<Rightarrow> if IS_NUM ch then s_http_host_port else s_http_host_dead
     | _ \<Rightarrow> s_http_host_dead)"

section \<open>The result structure\<close>

datatype http_parser_url_fields =
    UF_SCHEMA | UF_HOST | UF_PORT | UF_PATH | UF_QUERY | UF_FRAGMENT | UF_USERINFO | UF_MAX

fun uf_num :: "http_parser_url_fields \<Rightarrow> nat" where
  "uf_num UF_SCHEMA = 0"
| "uf_num UF_HOST = 1"
| "uf_num UF_PORT = 2"
| "uf_num UF_PATH = 3"
| "uf_num UF_QUERY = 4"
| "uf_num UF_FRAGMENT = 5"
| "uf_num UF_USERINFO = 6"
| "uf_num UF_MAX = 7"

record http_parser_url =
  field_set :: u16
  port :: u16
  field_off :: "http_parser_url_fields \<Rightarrow> u16"
  field_len :: "http_parser_url_fields \<Rightarrow> u16"

definition uf_bit :: "http_parser_url_fields \<Rightarrow> u16" where
  "uf_bit f = push_bit (uf_num f) 1"

definition has_field :: "http_parser_url \<Rightarrow> http_parser_url_fields \<Rightarrow> bool" where
  "has_field u f \<longleftrightarrow> field_set u AND uf_bit f \<noteq> 0"

definition http_parser_url_init :: http_parser_url where
  "http_parser_url_init = \<lparr>field_set = 0, port = 0, field_off = (\<lambda>_. 0), field_len = (\<lambda>_. 0)\<rparr>"

text \<open>\<open>field_data[f].len++\<close>, and the start of a field at index \<open>p\<close> with a given length.\<close>

definition grow_field :: "http_parser_url_fields \<Rightarrow> http_parser_url \<Rightarrow> http_parser_url" where
  "grow_field f u = u\<lparr>field_len := (field_len u)(f := field_len u f + 1)\<rparr>"

definition start_field :: "http_parser_url_fields \<Rightarrow> nat \<Rightarrow> u16 \<Rightarrow> http_parser_url \<Rightarrow> http_parser_url" where
  "start_field f p n u =
    u\<lparr>field_off := (field_off u)(f := of_nat p), field_len := (field_len u)(f := n),
      field_set := field_set u OR uf_bit f\<rparr>"

section \<open>The host\<close>

text \<open>The updates for a byte that takes the host parser from \<open>s\<close> to \<open>t\<close>.\<close>

definition host_update ::
  "http_host_state \<Rightarrow> http_host_state \<Rightarrow> nat \<Rightarrow> http_parser_url \<Rightarrow> http_parser_url"
where
  "host_update s t p u =
    (case t of
       s_http_host \<Rightarrow>
         grow_field UF_HOST (if s \<noteq> s_http_host then u\<lparr>field_off := (field_off u)(UF_HOST := of_nat p)\<rparr> else u)
     | s_http_host_v6 \<Rightarrow>
         grow_field UF_HOST (if s \<noteq> s_http_host_v6 then u\<lparr>field_off := (field_off u)(UF_HOST := of_nat p)\<rparr> else u)
     | s_http_host_v6_zone_start \<Rightarrow> grow_field UF_HOST u
     | s_http_host_v6_zone \<Rightarrow> grow_field UF_HOST u
     | s_http_host_port \<Rightarrow>
         grow_field UF_PORT (if s \<noteq> s_http_host_port then start_field UF_PORT p 0 u else u)
     | s_http_userinfo \<Rightarrow>
         grow_field UF_USERINFO (if s \<noteq> s_http_userinfo then start_field UF_USERINFO p 0 u else u)
     | _ \<Rightarrow> u)"

text \<open>The loop; \<open>None\<close> in the first component is the \<open>return 1\<close> for a dead state.\<close>

function host_loop ::
  "bytes \<Rightarrow> nat \<Rightarrow> http_host_state \<Rightarrow> nat \<Rightarrow> http_parser_url \<Rightarrow> http_host_state option \<times> http_parser_url"
where
  "host_loop buf buflen s p u =
    (if p < buflen
     then let t = http_parse_host_char s (buf ! p)
          in if t = s_http_host_dead then (None, u)
             else host_loop buf buflen t (Suc p) (host_update s t p u)
     else (Some s, u))"
  by pat_completeness auto
termination by (relation "measure (\<lambda>(buf, n, s, p, u). n - p)") auto

declare host_loop.simps [simp del]

definition host_end_bad :: "http_host_state \<Rightarrow> bool" where
  "host_end_bad s \<longleftrightarrow> s \<in> {s_http_host_start, s_http_host_v6_start, s_http_host_v6, s_http_host_v6_zone_start,
     s_http_host_v6_zone, s_http_host_port_start, s_http_userinfo, s_http_userinfo_start}"

definition http_parse_host :: "bytes \<Rightarrow> http_parser_url \<Rightarrow> bool \<Rightarrow> (int \<times> http_parser_url) option" where
  "http_parse_host buf u found_at =
    (if \<not> has_field u UF_HOST then None
     else let off = unat (field_off u UF_HOST); buflen = off + unat (field_len u UF_HOST);
              u = u\<lparr>field_len := (field_len u)(UF_HOST := 0)\<rparr>
          in case host_loop buf buflen (if found_at then s_http_userinfo_start else s_http_host_start) off u of
               (None, u) \<Rightarrow> Some (1, u)
             | (Some s, u) \<Rightarrow> Some (if host_end_bad s then 1 else 0, u))"

section \<open>The URL\<close>

text \<open>The field a state belongs to: \<open>Inl\<close> skips a delimiter.\<close>

datatype url_where = UrlDead | UrlSkip | UrlIn http_parser_url_fields | UrlBad

definition url_field :: "http_state \<Rightarrow> url_where" where
  "url_field s =
    (case s of
       s_dead \<Rightarrow> UrlDead
     | s_req_schema_slash \<Rightarrow> UrlSkip
     | s_req_schema_slash_slash \<Rightarrow> UrlSkip
     | s_req_server_start \<Rightarrow> UrlSkip
     | s_req_query_string_start \<Rightarrow> UrlSkip
     | s_req_fragment_start \<Rightarrow> UrlSkip
     | s_req_schema \<Rightarrow> UrlIn UF_SCHEMA
     | s_req_server_with_at \<Rightarrow> UrlIn UF_HOST
     | s_req_server \<Rightarrow> UrlIn UF_HOST
     | s_req_path \<Rightarrow> UrlIn UF_PATH
     | s_req_query_string \<Rightarrow> UrlIn UF_QUERY
     | s_req_fragment \<Rightarrow> UrlIn UF_FRAGMENT
     | _ \<Rightarrow> UrlBad)"

datatype url_end = UrlFail | UrlAssert | UrlOk bool

function url_loop ::
  "bytes \<Rightarrow> http_state \<Rightarrow> http_parser_url_fields \<Rightarrow> bool \<Rightarrow> nat \<Rightarrow> http_parser_url \<Rightarrow> url_end \<times> http_parser_url"
where
  "url_loop buf s old_uf found_at p u =
    (if p < length buf
     then let s = parse_url_char s (buf ! p);
              found_at = (found_at \<or> s = s_req_server_with_at)
          in case url_field s of
               UrlDead \<Rightarrow> (UrlFail, u)
             | UrlSkip \<Rightarrow> url_loop buf s old_uf found_at (Suc p) u
             | UrlBad \<Rightarrow> (UrlAssert, u)
             | UrlIn uf \<Rightarrow>
                 if uf = old_uf then url_loop buf s old_uf found_at (Suc p) (grow_field uf u)
                 else url_loop buf s uf found_at (Suc p) (start_field uf p 1 u)
     else (UrlOk found_at, u))"
  by pat_completeness auto
termination by (relation "measure (\<lambda>(buf, s, f, a, p, u). length buf - p)") auto

declare url_loop.simps [simp del]

text \<open>The value of the port; \<open>None\<close> when it exceeds 65535.\<close>

fun port_value :: "bytes \<Rightarrow> nat \<Rightarrow> nat option" where
  "port_value [] v = Some v"
| "port_value (c # cs) v =
    (let v = v * 10 + unat (c - 48) in if 65535 < v then None else port_value cs v)"

definition parse_port :: "bytes \<Rightarrow> http_parser_url \<Rightarrow> (int \<times> http_parser_url) option" where
  "parse_port buf u =
    (if \<not> has_field u UF_PORT then Some (0, u)
     else let off = unat (field_off u UF_PORT); len = unat (field_len u UF_PORT)
          in if length buf < off + len then None
             else case port_value (take len (drop off buf)) 0 of
                    None \<Rightarrow> Some (1, u)
                  | Some v \<Rightarrow> Some (0, u\<lparr>port := of_nat v\<rparr>))"

definition http_parser_parse_url :: "bytes \<Rightarrow> bool \<Rightarrow> http_parser_url \<Rightarrow> (int \<times> http_parser_url) option" where
  "http_parser_parse_url buf is_connect u =
    (if buf = [] then Some (1, u)
     else case url_loop buf (if is_connect then s_req_server_start else s_req_spaces_before_url) UF_MAX
                 False 0 (u\<lparr>port := 0, field_set := 0\<rparr>) of
       (UrlFail, u) \<Rightarrow> Some (1, u)
     | (UrlAssert, u) \<Rightarrow> None
     | (UrlOk found_at, u) \<Rightarrow>
         if has_field u UF_SCHEMA \<and> \<not> has_field u UF_HOST then Some (1, u)
         else case (if has_field u UF_HOST then http_parse_host buf u found_at else Some (0, u)) of
           None \<Rightarrow> None
         | Some (r, u) \<Rightarrow>
             if r \<noteq> 0 then Some (1, u)
             else if is_connect \<and> field_set u \<noteq> (uf_bit UF_HOST OR uf_bit UF_PORT) then Some (1, u)
             else parse_port buf u)"

end
