(* ===== verification/Http_Machine.thy ===== *)
theory Http_Machine
  imports Http_Url
begin

text \<open>
  The frame of \<open>http_parser_execute\<close>: its local variables, the ways control can leave one round of
  the \<open>switch\<close>, and its macros, which run the callbacks and count the header bytes.
\<close>

section \<open>Local state and control\<close>

text \<open>
  The locals: \<open>p_state\<close>, the local copies of \<open>nread\<close> and of the leniency flag, the index of \<open>p\<close> into
  \<open>data\<close>, and the five marks.
\<close>

record 'd exec =
  parser :: "'d http_parser"
  p_state :: http_state
  p_nread :: u32
  lenient :: bool
  pos :: nat
  header_field_mark :: "nat option"
  header_value_mark :: "nat option"
  url_mark :: "nat option"
  body_mark :: "nat option"
  status_mark :: "nat option"

text \<open>
  \<open>break\<close> out of the switch (and on to the next byte), \<open>REEXECUTE\<close>, \<open>return\<close> with a value, \<open>goto error\<close>,
  and a failing \<open>assert\<close> (or a read outside of an array).
\<close>

datatype 'd step =
    Break "'d exec"
  | Reexecute "'d exec"
  | Return nat "'d http_parser"
  | Error "'d exec"
  | Crash

section \<open>Macros\<close>

definition UPDATE_STATE :: "http_state \<Rightarrow> 'd exec \<Rightarrow> 'd exec" where
  "UPDATE_STATE st x = x\<lparr>p_state := st\<rparr>"

definition upd :: "('d http_parser \<Rightarrow> 'd http_parser) \<Rightarrow> 'd exec \<Rightarrow> 'd exec" where
  "upd f x = x\<lparr>parser := f (parser x)\<rparr>"

definition SET_ERRNO :: "http_errno \<Rightarrow> 'd exec \<Rightarrow> 'd exec" where
  "SET_ERRNO e x = upd (\<lambda>q. q\<lparr>nread := p_nread x, http_errno := e\<rparr>) x"

text \<open>\<open>SET_ERRNO(e); goto error\<close>\<close>

definition fail :: "http_errno \<Rightarrow> 'd exec \<Rightarrow> 'd step" where
  "fail e x = Error (SET_ERRNO e x)"

definition RETURN :: "nat \<Rightarrow> 'd exec \<Rightarrow> 'd step" where
  "RETURN v x = Return v ((parser x)\<lparr>nread := p_nread x, state := p_state x\<rparr>)"

definition STRICT_CHECK :: "bool \<Rightarrow> 'd exec \<Rightarrow> ('d exec \<Rightarrow> 'd step) \<Rightarrow> 'd step" where
  "STRICT_CHECK cond x k = (if cond then fail HPE_STRICT x else k x)"

text \<open>\<open>COUNT_HEADER_SIZE\<close>, for the limit \<open>max_header_size\<close>.\<close>

definition COUNT_HEADER_SIZE :: "u32 \<Rightarrow> u32 \<Rightarrow> 'd exec \<Rightarrow> ('d exec \<Rightarrow> 'd step) \<Rightarrow> 'd step" where
  "COUNT_HEADER_SIZE mx v x k =
    (let x = x\<lparr>p_nread := p_nread x + v\<rparr>
     in if mx < p_nread x then fail HPE_HEADER_OVERFLOW x else k x)"

text \<open>
  Running a callback: the parser sees the current state, may change it, and its result, or a pause,
  ends the call with the value \<open>er\<close>.  That \<open>return\<close> does not store the local \<open>nread\<close>.
\<close>

definition run_callback ::
  "('d http_parser \<Rightarrow> int \<times> 'd http_parser) \<Rightarrow> http_errno \<Rightarrow> nat \<Rightarrow> 'd exec \<Rightarrow> ('d exec \<Rightarrow> 'd step) \<Rightarrow> 'd step"
where
  "run_callback cb e er x k =
    (let (r, q) = cb ((parser x)\<lparr>state := p_state x\<rparr>);
         x = x\<lparr>parser := q\<rparr>;
         x = (if r \<noteq> 0 then SET_ERRNO e x else x);
         x = UPDATE_STATE (state (parser x)) x
     in if http_errno (parser x) \<noteq> HPE_OK then Return er (parser x) else k x)"

definition CALLBACK_NOTIFY_ER ::
  "'d http_cb option \<Rightarrow> http_errno \<Rightarrow> nat \<Rightarrow> 'd exec \<Rightarrow> ('d exec \<Rightarrow> 'd step) \<Rightarrow> 'd step"
where
  "CALLBACK_NOTIFY_ER cb e er x k =
    (if http_errno (parser x) \<noteq> HPE_OK then Crash
     else case cb of None \<Rightarrow> k x | Some f \<Rightarrow> run_callback f e er x k)"

definition CALLBACK_NOTIFY ::
  "'d http_cb option \<Rightarrow> http_errno \<Rightarrow> 'd exec \<Rightarrow> ('d exec \<Rightarrow> 'd step) \<Rightarrow> 'd step"
where
  "CALLBACK_NOTIFY cb e x k = CALLBACK_NOTIFY_ER cb e (pos x + 1) x k"

definition CALLBACK_NOTIFY_NOADVANCE ::
  "'d http_cb option \<Rightarrow> http_errno \<Rightarrow> 'd exec \<Rightarrow> ('d exec \<Rightarrow> 'd step) \<Rightarrow> 'd step"
where
  "CALLBACK_NOTIFY_NOADVANCE cb e x k = CALLBACK_NOTIFY_ER cb e (pos x) x k"

text \<open>
  A data callback gets the bytes from its mark on, up to index \<open>till\<close>, and the mark is reset.  The mark
  is given by its value and the function that clears it.  A piece that does not lie in the buffer
  would be handed over with a wild length, which counts as a crash.
\<close>

definition slice :: "bytes \<Rightarrow> nat \<Rightarrow> nat \<Rightarrow> bytes" where
  "slice bs a b = take (b - a) (drop a bs)"

definition CALLBACK_DATA_ER ::
  "'d http_data_cb option \<Rightarrow> http_errno \<Rightarrow> nat option \<Rightarrow> ('d exec \<Rightarrow> 'd exec) \<Rightarrow> bytes \<Rightarrow> nat \<Rightarrow> nat
    \<Rightarrow> 'd exec \<Rightarrow> ('d exec \<Rightarrow> 'd step) \<Rightarrow> 'd step"
where
  "CALLBACK_DATA_ER cb e mark clear bs till er x k =
    (if http_errno (parser x) \<noteq> HPE_OK then Crash
     else case mark of
       None \<Rightarrow> k x
     | Some m \<Rightarrow>
         (case cb of
            None \<Rightarrow> k (clear x)
          | Some f \<Rightarrow>
              if till < m \<or> length bs < till then Crash
              else run_callback (\<lambda>q. f q (slice bs m till)) e er x (\<lambda>x. k (clear x))))"

datatype http_data_field = Header_field | Header_value | Url | Body | Status

fun field_cb :: "http_data_field \<Rightarrow> 'd http_parser_settings \<Rightarrow> 'd http_data_cb option" where
  "field_cb Header_field s = on_header_field s"
| "field_cb Header_value s = on_header_value s"
| "field_cb Url s = on_url s"
| "field_cb Body s = on_body s"
| "field_cb Status s = on_status s"

fun field_err :: "http_data_field \<Rightarrow> http_errno" where
  "field_err Header_field = HPE_CB_header_field"
| "field_err Header_value = HPE_CB_header_value"
| "field_err Url = HPE_CB_url"
| "field_err Body = HPE_CB_body"
| "field_err Status = HPE_CB_status"

fun mark_of :: "http_data_field \<Rightarrow> 'd exec \<Rightarrow> nat option" where
  "mark_of Header_field x = header_field_mark x"
| "mark_of Header_value x = header_value_mark x"
| "mark_of Url x = url_mark x"
| "mark_of Body x = body_mark x"
| "mark_of Status x = status_mark x"

fun set_mark :: "http_data_field \<Rightarrow> nat option \<Rightarrow> 'd exec \<Rightarrow> 'd exec" where
  "set_mark Header_field m x = x\<lparr>header_field_mark := m\<rparr>"
| "set_mark Header_value m x = x\<lparr>header_value_mark := m\<rparr>"
| "set_mark Url m x = x\<lparr>url_mark := m\<rparr>"
| "set_mark Body m x = x\<lparr>body_mark := m\<rparr>"
| "set_mark Status m x = x\<lparr>status_mark := m\<rparr>"

definition callback_data ::
  "'d http_parser_settings \<Rightarrow> http_data_field \<Rightarrow> bytes \<Rightarrow> nat \<Rightarrow> nat \<Rightarrow> 'd exec \<Rightarrow> ('d exec \<Rightarrow> 'd step) \<Rightarrow> 'd step"
where
  "callback_data s f bs till er x k =
    CALLBACK_DATA_ER (field_cb f s) (field_err f) (mark_of f x) (set_mark f None) bs till er x k"

definition CALLBACK_DATA ::
  "'d http_parser_settings \<Rightarrow> http_data_field \<Rightarrow> bytes \<Rightarrow> 'd exec \<Rightarrow> ('d exec \<Rightarrow> 'd step) \<Rightarrow> 'd step"
where
  "CALLBACK_DATA s f bs x k = callback_data s f bs (pos x) (pos x + 1) x k"

definition CALLBACK_DATA_NOADVANCE ::
  "'d http_parser_settings \<Rightarrow> http_data_field \<Rightarrow> bytes \<Rightarrow> 'd exec \<Rightarrow> ('d exec \<Rightarrow> 'd step) \<Rightarrow> 'd step"
where
  "CALLBACK_DATA_NOADVANCE s f bs x k = callback_data s f bs (pos x) (pos x) x k"

definition MARK :: "http_data_field \<Rightarrow> 'd exec \<Rightarrow> 'd exec" where
  "MARK f x = (if mark_of f x = None then set_mark f (Some (pos x)) x else x)"

text \<open>A step that only moves to another state.\<close>

definition goto :: "http_state \<Rightarrow> 'd exec \<Rightarrow> 'd step" where
  "goto st x = Break (UPDATE_STATE st x)"

definition again :: "http_state \<Rightarrow> 'd exec \<Rightarrow> 'd step" where
  "again st x = Reexecute (UPDATE_STATE st x)"

lemmas macro_defs = UPDATE_STATE_def upd_def SET_ERRNO_def fail_def RETURN_def STRICT_CHECK_def
  COUNT_HEADER_SIZE_def goto_def again_def MARK_def

section \<open>Queries on the parser\<close>

definition has_flag :: "u8 \<Rightarrow> 'd http_parser \<Rightarrow> bool" where
  "has_flag f q \<longleftrightarrow> flags q AND f \<noteq> 0"

definition set_flag :: "u8 \<Rightarrow> 'd http_parser \<Rightarrow> 'd http_parser" where
  "set_flag f q = q\<lparr>flags := flags q OR f\<rparr>"

definition start_state :: "'d http_parser \<Rightarrow> http_state" where
  "start_state q = (if ptype q = HTTP_REQUEST then s_start_req else s_start_res)"

definition http_message_needs_eof :: "'d http_parser \<Rightarrow> bool" where
  "http_message_needs_eof q =
    (if ptype q = HTTP_REQUEST then False
     else if status_code q div 100 = 1 \<or> status_code q = 204 \<or> status_code q = 304 \<or> has_flag F_SKIPBODY q
     then False
     else if has_flag F_CHUNKED q \<or> content_length q \<noteq> ULLONG_MAX then False
     else True)"

definition http_should_keep_alive :: "'d http_parser \<Rightarrow> bool" where
  "http_should_keep_alive q =
    (if 0 < http_major q \<and> 0 < http_minor q
     then if has_flag F_CONNECTION_CLOSE q then False else \<not> http_message_needs_eof q
     else if \<not> has_flag F_CONNECTION_KEEP_ALIVE q then False
     else \<not> http_message_needs_eof q)"

definition NEW_MESSAGE :: "'d http_parser \<Rightarrow> http_state" where
  "NEW_MESSAGE q = (if http_should_keep_alive q then start_state q else s_dead)"

end
