(* ===== verification/Http_Line.thy ===== *)
theory Http_Line
  imports Http_Machine
begin

text \<open>
  The rounds of \<open>http_parser_execute\<close> in the states of the start line: one definition for each group
  of \<open>case\<close> labels, from the byte \<open>ch\<close> at \<open>p\<close> and the locals to the way control leaves the round.
\<close>

section \<open>Between messages\<close>

definition step_dead :: "u8 \<Rightarrow> 'd exec \<Rightarrow> 'd step" where
  "step_dead ch x = (if ch = CR \<or> ch = LF then Break x else fail HPE_CLOSED_CONNECTION x)"

definition fresh_message :: "'d exec \<Rightarrow> 'd exec" where
  "fresh_message = upd (\<lambda>q. q\<lparr>flags := 0, content_length := ULLONG_MAX\<rparr>)"

definition step_start_req_or_res :: "'d http_parser_settings \<Rightarrow> u8 \<Rightarrow> 'd exec \<Rightarrow> 'd step" where
  "step_start_req_or_res s ch x =
    (if ch = CR \<or> ch = LF then Break x
     else let x = fresh_message x
          in if ch = 72
             then CALLBACK_NOTIFY (on_message_begin s) HPE_CB_message_begin
                    (UPDATE_STATE s_res_or_resp_H x) Break
             else again s_start_req (upd (\<lambda>q. q\<lparr>ptype := HTTP_REQUEST\<rparr>) x))"

definition step_res_or_resp_H :: "u8 \<Rightarrow> 'd exec \<Rightarrow> 'd step" where
  "step_res_or_resp_H ch x =
    (if ch = 84 then goto s_res_HT (upd (\<lambda>q. q\<lparr>ptype := HTTP_RESPONSE\<rparr>) x)
     else if ch \<noteq> 69 then fail HPE_INVALID_CONSTANT x
     else goto s_req_method (upd (\<lambda>q. q\<lparr>ptype := HTTP_REQUEST, meth := HTTP_HEAD, index := 2\<rparr>) x))"

section \<open>The status line\<close>

definition step_start_res :: "'d http_parser_settings \<Rightarrow> u8 \<Rightarrow> 'd exec \<Rightarrow> 'd step" where
  "step_start_res s ch x =
    (if ch = CR \<or> ch = LF then Break x
     else let x = fresh_message x
          in if ch = 72
             then CALLBACK_NOTIFY (on_message_begin s) HPE_CB_message_begin (UPDATE_STATE s_res_H x) Break
             else fail HPE_INVALID_CONSTANT x)"

text \<open>One expected character, which strict mode checks; the next state.\<close>

definition step_expect :: "u8 \<Rightarrow> http_state \<Rightarrow> u8 \<Rightarrow> 'd exec \<Rightarrow> 'd step" where
  "step_expect want st ch x = STRICT_CHECK (ch \<noteq> want) x (goto st)"

definition step_http_major :: "http_state \<Rightarrow> u8 \<Rightarrow> 'd exec \<Rightarrow> 'd step" where
  "step_http_major st ch x =
    (if \<not> IS_NUM ch then fail HPE_INVALID_VERSION x
     else goto st (upd (\<lambda>q. q\<lparr>http_major := ucast (ch - 48)\<rparr>) x))"

definition step_http_minor :: "http_state \<Rightarrow> u8 \<Rightarrow> 'd exec \<Rightarrow> 'd step" where
  "step_http_minor st ch x =
    (if \<not> IS_NUM ch then fail HPE_INVALID_VERSION x
     else goto st (upd (\<lambda>q. q\<lparr>http_minor := ucast (ch - 48)\<rparr>) x))"

definition step_http_dot :: "http_state \<Rightarrow> u8 \<Rightarrow> 'd exec \<Rightarrow> 'd step" where
  "step_http_dot st ch x = (if ch \<noteq> 46 then fail HPE_INVALID_VERSION x else goto st x)"

definition step_res_http_end :: "u8 \<Rightarrow> 'd exec \<Rightarrow> 'd step" where
  "step_res_http_end ch x =
    (if ch \<noteq> SPC then fail HPE_INVALID_VERSION x else goto s_res_first_status_code x)"

definition step_res_first_status_code :: "u8 \<Rightarrow> 'd exec \<Rightarrow> 'd step" where
  "step_res_first_status_code ch x =
    (if \<not> IS_NUM ch then if ch = SPC then Break x else fail HPE_INVALID_STATUS x
     else goto s_res_status_code (upd (\<lambda>q. q\<lparr>status_code := ucast (ch - 48)\<rparr>) x))"

definition step_res_status_code :: "u8 \<Rightarrow> 'd exec \<Rightarrow> 'd step" where
  "step_res_status_code ch x =
    (if \<not> IS_NUM ch
     then if ch = SPC then goto s_res_status_start x
          else if ch = CR \<or> ch = LF then again s_res_status_start x
          else fail HPE_INVALID_STATUS x
     else let x = upd (\<lambda>q. q\<lparr>status_code := status_code q * 10 + ucast (ch - 48)\<rparr>) x
          in if 999 < status_code (parser x) then fail HPE_INVALID_STATUS x else Break x)"

definition step_res_status_start :: "u8 \<Rightarrow> 'd exec \<Rightarrow> 'd step" where
  "step_res_status_start ch x =
    (let x = upd (\<lambda>q. q\<lparr>index := 0\<rparr>) (UPDATE_STATE s_res_status (MARK Status x))
     in if ch = CR \<or> ch = LF then Reexecute x else Break x)"

definition step_res_status :: "'d http_parser_settings \<Rightarrow> bytes \<Rightarrow> u8 \<Rightarrow> 'd exec \<Rightarrow> 'd step" where
  "step_res_status s bs ch x =
    (if ch = CR then CALLBACK_DATA s Status bs (UPDATE_STATE s_res_line_almost_done x) Break
     else if ch = LF then CALLBACK_DATA s Status bs (UPDATE_STATE s_header_field_start x) Break
     else Break x)"

section \<open>The method\<close>

text \<open>The first letter chooses a method.\<close>

definition method_of_letter :: "u8 \<Rightarrow> http_method option" where
  "method_of_letter ch =
    (if ch = 65 then Some HTTP_ACL else if ch = 66 then Some HTTP_BIND
     else if ch = 67 then Some HTTP_CONNECT else if ch = 68 then Some HTTP_DELETE
     else if ch = 71 then Some HTTP_GET else if ch = 72 then Some HTTP_HEAD
     else if ch = 76 then Some HTTP_LOCK else if ch = 77 then Some HTTP_MKCOL
     else if ch = 78 then Some HTTP_NOTIFY else if ch = 79 then Some HTTP_OPTIONS
     else if ch = 80 then Some HTTP_POST else if ch = 82 then Some HTTP_REPORT
     else if ch = 83 then Some HTTP_SUBSCRIBE else if ch = 84 then Some HTTP_TRACE
     else if ch = 85 then Some HTTP_UNLOCK else None)"

definition step_start_req :: "'d http_parser_settings \<Rightarrow> u8 \<Rightarrow> 'd exec \<Rightarrow> 'd step" where
  "step_start_req s ch x =
    (if ch = CR \<or> ch = LF then Break x
     else let x = fresh_message x
          in if \<not> IS_ALPHA ch then fail HPE_INVALID_METHOD x
             else let x = upd (\<lambda>q. q\<lparr>meth := HTTP_DELETE, index := 1\<rparr>) x
                  in case method_of_letter ch of
                       None \<Rightarrow> fail HPE_INVALID_METHOD x
                     | Some m \<Rightarrow>
                         CALLBACK_NOTIFY (on_message_begin s) HPE_CB_message_begin
                           (UPDATE_STATE s_req_method (upd (\<lambda>q. q\<lparr>meth := m\<rparr>) x)) Break)"

text \<open>The \<open>XX\<close> table: a deviation from the method at an index leads to another method.\<close>

definition method_switch :: "(http_method \<times> nat \<times> char \<times> http_method) list" where
  "method_switch =
    [(HTTP_POST,      1, CHR ''U'', HTTP_PUT),
     (HTTP_POST,      1, CHR ''A'', HTTP_PATCH),
     (HTTP_POST,      1, CHR ''R'', HTTP_PROPFIND),
     (HTTP_PUT,       2, CHR ''R'', HTTP_PURGE),
     (HTTP_CONNECT,   1, CHR ''H'', HTTP_CHECKOUT),
     (HTTP_CONNECT,   2, CHR ''P'', HTTP_COPY),
     (HTTP_MKCOL,     1, CHR ''O'', HTTP_MOVE),
     (HTTP_MKCOL,     1, CHR ''E'', HTTP_MERGE),
     (HTTP_MKCOL,     1, CHR ''-'', HTTP_MSEARCH),
     (HTTP_MKCOL,     2, CHR ''A'', HTTP_MKACTIVITY),
     (HTTP_MKCOL,     3, CHR ''A'', HTTP_MKCALENDAR),
     (HTTP_SUBSCRIBE, 1, CHR ''E'', HTTP_SEARCH),
     (HTTP_SUBSCRIBE, 1, CHR ''O'', HTTP_SOURCE),
     (HTTP_REPORT,    2, CHR ''B'', HTTP_REBIND),
     (HTTP_PROPFIND,  4, CHR ''P'', HTTP_PROPPATCH),
     (HTTP_LOCK,      1, CHR ''I'', HTTP_LINK),
     (HTTP_UNLOCK,    2, CHR ''S'', HTTP_UNSUBSCRIBE),
     (HTTP_UNLOCK,    2, CHR ''B'', HTTP_UNBIND),
     (HTTP_UNLOCK,    3, CHR ''I'', HTTP_UNLINK)]"

definition switch_method :: "http_method \<Rightarrow> nat \<Rightarrow> u8 \<Rightarrow> http_method option" where
  "switch_method m i ch =
    map_option (\<lambda>(_, _, _, n). n)
      (find (\<lambda>(m', j, c, _). m' = m \<and> j = i \<and> of_nat (of_char c) = ch) method_switch)"

text \<open>The read \<open>matcher[parser->index]\<close> must not leave the string.\<close>

definition step_req_method :: "u8 \<Rightarrow> 'd exec \<Rightarrow> 'd step" where
  "step_req_method ch x =
    (if ch = 0 then fail HPE_INVALID_METHOD x
     else let m = meth (parser x); i = unat (index (parser x));
              bump = upd (\<lambda>q. q\<lparr>index := index q + 1\<rparr>)
          in case c_at (cstr (method_string m)) i of
               None \<Rightarrow> Crash
             | Some c \<Rightarrow>
                 if ch = SPC \<and> c = 0 then Break (bump (UPDATE_STATE s_req_spaces_before_url x))
                 else if ch = c then Break (bump x)
                 else if 65 \<le> ch \<and> ch \<le> 90 \<or> ch = 45
                 then case switch_method m i ch of
                        None \<Rightarrow> fail HPE_INVALID_METHOD x
                      | Some n \<Rightarrow> Break (bump (upd (\<lambda>q. q\<lparr>meth := n\<rparr>) x))
                 else fail HPE_INVALID_METHOD x)"

section \<open>The URL\<close>

text \<open>A step of the URL parser; a dead state is an error, with the dead state already stored.\<close>

definition url_step :: "u8 \<Rightarrow> 'd exec \<Rightarrow> 'd step" where
  "url_step ch x =
    (let x = UPDATE_STATE (parse_url_char (p_state x) ch) x
     in if p_state x = s_dead then fail HPE_INVALID_URL x else Break x)"

definition step_req_spaces_before_url :: "u8 \<Rightarrow> 'd exec \<Rightarrow> 'd step" where
  "step_req_spaces_before_url ch x =
    (if ch = SPC then Break x
     else let x = MARK Url x;
              x = (if meth (parser x) = HTTP_CONNECT then UPDATE_STATE s_req_server_start x else x)
          in url_step ch x)"

definition step_req_schema :: "u8 \<Rightarrow> 'd exec \<Rightarrow> 'd step" where
  "step_req_schema ch x =
    (if ch = SPC \<or> ch = CR \<or> ch = LF then fail HPE_INVALID_URL x else url_step ch x)"

definition step_req_url :: "'d http_parser_settings \<Rightarrow> bytes \<Rightarrow> u8 \<Rightarrow> 'd exec \<Rightarrow> 'd step" where
  "step_req_url s bs ch x =
    (if ch = SPC then CALLBACK_DATA s Url bs (UPDATE_STATE s_req_http_start x) Break
     else if ch = CR \<or> ch = LF
     then CALLBACK_DATA s Url bs
            (UPDATE_STATE (if ch = CR then s_req_line_almost_done else s_header_field_start)
              (upd (\<lambda>q. q\<lparr>http_major := 0, http_minor := 9\<rparr>) x)) Break
     else url_step ch x)"

section \<open>The version of a request\<close>

definition step_req_http_start :: "u8 \<Rightarrow> 'd exec \<Rightarrow> 'd step" where
  "step_req_http_start ch x =
    (if ch = SPC then Break x
     else if ch = 72 then goto s_req_http_H x
     else if ch = 73 \<and> meth (parser x) = HTTP_SOURCE then goto s_req_http_I x
     else fail HPE_INVALID_CONSTANT x)"

definition step_req_http_end :: "u8 \<Rightarrow> 'd exec \<Rightarrow> 'd step" where
  "step_req_http_end ch x =
    (if ch = CR then goto s_req_line_almost_done x
     else if ch = LF then goto s_header_field_start x
     else fail HPE_INVALID_VERSION x)"

definition step_req_line_almost_done :: "u8 \<Rightarrow> 'd exec \<Rightarrow> 'd step" where
  "step_req_line_almost_done ch x =
    (if ch \<noteq> LF then fail HPE_LF_EXPECTED x else goto s_header_field_start x)"

text \<open>All states of the start line; \<open>None\<close> for the others.\<close>

definition step_line :: "'d http_parser_settings \<Rightarrow> bytes \<Rightarrow> u8 \<Rightarrow> 'd exec \<Rightarrow> 'd step option" where
  "step_line s bs ch x =
    (case p_state x of
       s_dead \<Rightarrow> Some (step_dead ch x)
     | s_start_req_or_res \<Rightarrow> Some (step_start_req_or_res s ch x)
     | s_res_or_resp_H \<Rightarrow> Some (step_res_or_resp_H ch x)
     | s_start_res \<Rightarrow> Some (step_start_res s ch x)
     | s_res_H \<Rightarrow> Some (step_expect 84 s_res_HT ch x)
     | s_res_HT \<Rightarrow> Some (step_expect 84 s_res_HTT ch x)
     | s_res_HTT \<Rightarrow> Some (step_expect 80 s_res_HTTP ch x)
     | s_res_HTTP \<Rightarrow> Some (step_expect 47 s_res_http_major ch x)
     | s_res_http_major \<Rightarrow> Some (step_http_major s_res_http_dot ch x)
     | s_res_http_dot \<Rightarrow> Some (step_http_dot s_res_http_minor ch x)
     | s_res_http_minor \<Rightarrow> Some (step_http_minor s_res_http_end ch x)
     | s_res_http_end \<Rightarrow> Some (step_res_http_end ch x)
     | s_res_first_status_code \<Rightarrow> Some (step_res_first_status_code ch x)
     | s_res_status_code \<Rightarrow> Some (step_res_status_code ch x)
     | s_res_status_start \<Rightarrow> Some (step_res_status_start ch x)
     | s_res_status \<Rightarrow> Some (step_res_status s bs ch x)
     | s_res_line_almost_done \<Rightarrow> Some (step_expect LF s_header_field_start ch x)
     | s_start_req \<Rightarrow> Some (step_start_req s ch x)
     | s_req_method \<Rightarrow> Some (step_req_method ch x)
     | s_req_spaces_before_url \<Rightarrow> Some (step_req_spaces_before_url ch x)
     | s_req_schema \<Rightarrow> Some (step_req_schema ch x)
     | s_req_schema_slash \<Rightarrow> Some (step_req_schema ch x)
     | s_req_schema_slash_slash \<Rightarrow> Some (step_req_schema ch x)
     | s_req_server_start \<Rightarrow> Some (step_req_schema ch x)
     | s_req_server \<Rightarrow> Some (step_req_url s bs ch x)
     | s_req_server_with_at \<Rightarrow> Some (step_req_url s bs ch x)
     | s_req_path \<Rightarrow> Some (step_req_url s bs ch x)
     | s_req_query_string_start \<Rightarrow> Some (step_req_url s bs ch x)
     | s_req_query_string \<Rightarrow> Some (step_req_url s bs ch x)
     | s_req_fragment_start \<Rightarrow> Some (step_req_url s bs ch x)
     | s_req_fragment \<Rightarrow> Some (step_req_url s bs ch x)
     | s_req_http_start \<Rightarrow> Some (step_req_http_start ch x)
     | s_req_http_H \<Rightarrow> Some (step_expect 84 s_req_http_HT ch x)
     | s_req_http_HT \<Rightarrow> Some (step_expect 84 s_req_http_HTT ch x)
     | s_req_http_HTT \<Rightarrow> Some (step_expect 80 s_req_http_HTTP ch x)
     | s_req_http_I \<Rightarrow> Some (step_expect 67 s_req_http_IC ch x)
     | s_req_http_IC \<Rightarrow> Some (step_expect 69 s_req_http_HTTP ch x)
     | s_req_http_HTTP \<Rightarrow> Some (step_expect 47 s_req_http_major ch x)
     | s_req_http_major \<Rightarrow> Some (step_http_major s_req_http_dot ch x)
     | s_req_http_dot \<Rightarrow> Some (step_http_dot s_req_http_minor ch x)
     | s_req_http_minor \<Rightarrow> Some (step_http_minor s_req_http_end ch x)
     | s_req_http_end \<Rightarrow> Some (step_req_http_end ch x)
     | s_req_line_almost_done \<Rightarrow> Some (step_req_line_almost_done ch x)
     | _ \<Rightarrow> None)"

end
