(* ===== verification/Http_Header.thy ===== *)
theory Http_Header
  imports Http_Machine
begin

text \<open>
  The rounds of \<open>http_parser_execute\<close> in the header states.  A header name and a header value are
  read by inner loops over \<open>p\<close>, which run a second state machine, \<open>header_state\<close>, to recognise the
  headers the parser acts upon and those the application asks for through \<open>anchor_id\<close>.
\<close>

section \<open>Header names\<close>

definition set_hs :: "header_states \<Rightarrow> 'd http_parser \<Rightarrow> 'd http_parser" where
  "set_hs h q = q\<lparr>header_state := h\<rparr>"

definition bump :: "'d http_parser \<Rightarrow> 'd http_parser" where
  "bump q = q\<lparr>index := index q + 1\<rparr>"

text \<open>
  The common form of a match: the index advances, a mismatch gives up, and \<open>hit\<close> is done at the last
  character (index \<open>sizeof(name) - 2\<close>).  The array holds the NUL at index \<open>sizeof(name) - 1\<close>.
\<close>

definition match_name ::
  "bytes \<Rightarrow> u8 \<Rightarrow> ('d http_parser \<Rightarrow> 'd http_parser) \<Rightarrow> 'd http_parser \<Rightarrow> 'd http_parser"
where
  "match_name name c hit q =
    (let q = bump q; i = unat (index q)
     in if length name < i \<or> c_at name i \<noteq> Some c then set_hs h_general q
        else if i = length name - 1 then hit q
        else q)"

definition anchor :: "int \<Rightarrow> 'd http_parser \<Rightarrow> 'd http_parser" where
  "anchor i q = q\<lparr>anchor_id := i\<rparr>"

text \<open>The fast path of an uninteresting name: on to the last token character before \<open>pe\<close>.\<close>

function general_skip :: "bytes \<Rightarrow> nat \<Rightarrow> nat \<Rightarrow> nat" where
  "general_skip bs pe p =
    (if p + 1 < pe \<and> TOKEN (bs ! (p + 1)) \<noteq> 0 then general_skip bs pe (p + 1) else p)"
  by pat_completeness auto
termination by (relation "measure (\<lambda>(bs, pe, p). pe - p)") auto

declare general_skip.simps [simp del]

definition scan_limit :: "u32 \<Rightarrow> bytes \<Rightarrow> nat \<Rightarrow> nat" where
  "scan_limit mx bs p = p + min (length bs - p) (unat mx)"

text \<open>One round of the loop over a name; the new \<open>p\<close> and the parser, \<open>None\<close> for the failing \<open>assert\<close>.\<close>

definition field_char ::
  "u32 \<Rightarrow> bytes \<Rightarrow> nat \<Rightarrow> u8 \<Rightarrow> u8 \<Rightarrow> 'd http_parser \<Rightarrow> (nat \<times> 'd http_parser) option"
where
  "field_char mx bs p ch c q =
    (case header_state q of
       h_general \<Rightarrow> Some (general_skip bs (scan_limit mx bs p) p, q)
     | h_C \<Rightarrow> Some (p, set_hs (if c = 111 then h_CO else h_general) (bump q))
     | h_CO \<Rightarrow>
         Some (p, set_hs (if c = 110 then h_CON else if c = 111 then h_matching_cookie else h_general) (bump q))
     | h_CON \<Rightarrow>
         Some (p, set_hs (if c = 110 then h_matching_connection
                          else if c = 116 then h_matching_content_dash else h_general) (bump q))
     | h_U \<Rightarrow> Some (p, set_hs (if c = 115 then h_matching_user_agent else h_general) (bump q))
     | h_matching_content_dash \<Rightarrow>
         Some (p, match_name CONTENT_DASH c
           (set_hs (if c = 108 then h_matching_content_length
                    else if c = 116 then h_matching_content_type else h_general)) q)
     | h_matching_user_agent \<Rightarrow> Some (p, match_name USERAGENT c (set_hs h_general \<circ> anchor 1) q)
     | h_matching_host \<Rightarrow> Some (p, match_name HOST c (set_hs h_general \<circ> anchor 4) q)
     | h_matching_referer \<Rightarrow> Some (p, match_name REFERER c (set_hs h_general \<circ> anchor 7) q)
     | h_matching_server \<Rightarrow> Some (p, match_name SERVER c (set_hs h_general \<circ> anchor 8) q)
     | h_matching_cookie \<Rightarrow> Some (p, match_name COOKIE c (set_hs h_general \<circ> anchor 9) q)
     | h_matching_connection \<Rightarrow> Some (p, match_name CONNECTION c (anchor 11 \<circ> set_hs h_connection) q)
     | h_matching_proxy_connection \<Rightarrow> Some (p, match_name PROXY_CONNECTION c (set_hs h_connection) q)
     | h_matching_content_type \<Rightarrow> Some (p, match_name CONTENT_TYPE c (set_hs h_general \<circ> anchor 2) q)
     | h_matching_content_length \<Rightarrow>
         Some (p, match_name CONTENT_LENGTH c (anchor 10 \<circ> set_hs h_content_length) q)
     | h_matching_transfer_encoding \<Rightarrow>
         Some (p, match_name TRANSFER_ENCODING c (set_hs h_transfer_encoding) q)
     | h_matching_upgrade \<Rightarrow> Some (p, match_name UPGRADE c (set_hs h_upgrade) q)
     | h_connection \<Rightarrow> Some (p, if ch \<noteq> SPC then set_hs h_general q else q)
     | h_content_length \<Rightarrow> Some (p, if ch \<noteq> SPC then set_hs h_general q else q)
     | h_transfer_encoding \<Rightarrow> Some (p, if ch \<noteq> SPC then set_hs h_general q else q)
     | h_upgrade \<Rightarrow> Some (p, if ch \<noteq> SPC then set_hs h_general q else q)
     | _ \<Rightarrow> None)"

lemma general_skip_ge: "p \<le> general_skip bs pe p"
  by (induction bs pe p rule: general_skip.induct) (subst general_skip.simps, auto)

lemma field_char_ge: "field_char mx bs p ch c q = Some (p', q') \<Longrightarrow> p \<le> p'"
  by (cases "header_state q") (auto simp: field_char_def general_skip_ge)

function field_loop :: "u32 \<Rightarrow> bytes \<Rightarrow> nat \<Rightarrow> 'd http_parser \<Rightarrow> (nat \<times> 'd http_parser) option" where
  "field_loop mx bs p q =
    (if length bs \<le> p then Some (p, q)
     else let ch = bs ! p; c = TOKEN ch
          in if c = 0 then Some (p, q)
             else case field_char mx bs p ch c q of
                    None \<Rightarrow> None
                  | Some (p, q) \<Rightarrow> field_loop mx bs (Suc p) q)"
  by pat_completeness auto
termination
  by (relation "measure (\<lambda>(mx, bs, p, q). length bs - p)") (auto dest!: field_char_ge)

declare field_loop.simps [simp del]

definition step_header_field ::
  "u32 \<Rightarrow> 'd http_parser_settings \<Rightarrow> bytes \<Rightarrow> 'd exec \<Rightarrow> 'd step"
where
  "step_header_field mx s bs x =
    (let start = pos x
     in case field_loop mx bs start (parser x) of
          None \<Rightarrow> Crash
        | Some (p, q) \<Rightarrow>
            let x = x\<lparr>parser := q\<rparr>
            in if length bs \<le> p
               then COUNT_HEADER_SIZE mx (of_nat (p - 1 - start)) (x\<lparr>pos := p - 1\<rparr>) Break
               else COUNT_HEADER_SIZE mx (of_nat (p - start)) (x\<lparr>pos := p\<rparr>) (\<lambda>x.
                 if bs ! p = 58
                 then CALLBACK_DATA s Header_field bs (UPDATE_STATE s_header_value_discard_ws x) Break
                 else fail HPE_INVALID_HEADER_TOKEN x))"

text \<open>The first character of a name.\<close>

definition header_state_of :: "u8 \<Rightarrow> header_states" where
  "header_state_of c =
    (if c = 99 then h_C
     else if c = 104 then h_matching_host
     else if c = 112 then h_matching_proxy_connection
     else if c = 114 then h_matching_referer
     else if c = 115 then h_matching_server
     else if c = 116 then h_matching_transfer_encoding
     else if c = 117 then h_U
     else h_general)"

definition step_header_field_start :: "u8 \<Rightarrow> 'd exec \<Rightarrow> 'd step" where
  "step_header_field_start ch x =
    (if ch = CR then goto s_headers_almost_done x
     else if ch = LF then again s_headers_almost_done x
     else let c = TOKEN ch
          in if c = 0 then fail HPE_INVALID_HEADER_TOKEN x
             else goto s_header_field
               (upd (\<lambda>q. q\<lparr>index := 0, anchor_id := -1, header_state := header_state_of c\<rparr>)
                 (MARK Header_field x)))"

section \<open>The start of a value\<close>

text \<open>The \<open>switch\<close> on the header state: the next one, or an error.\<close>

definition value_start :: "u8 \<Rightarrow> 'd http_parser \<Rightarrow> http_errno + 'd http_parser" where
  "value_start ch q =
    (let c = LOWER ch
     in case header_state q of
       h_upgrade \<Rightarrow> Inr (set_hs h_general (set_flag F_UPGRADE q))
     | h_transfer_encoding \<Rightarrow>
         Inr (set_hs (if c = 99 then h_matching_transfer_encoding_chunked else h_general) q)
     | h_content_length \<Rightarrow>
         if \<not> IS_NUM ch then Inl HPE_INVALID_CONTENT_LENGTH
         else if has_flag F_CONTENTLENGTH q then Inl HPE_UNEXPECTED_CONTENT_LENGTH
         else Inr (set_hs h_content_length_num
                ((set_flag F_CONTENTLENGTH q)\<lparr>content_length := ucast (ch - 48)\<rparr>))
     | h_content_length_ws \<Rightarrow> Inr q
     | h_connection \<Rightarrow>
         Inr (set_hs (if c = 107 then h_matching_connection_keep_alive
                      else if c = 99 then h_matching_connection_close
                      else if c = 117 then h_matching_connection_upgrade
                      else h_matching_connection_token) q)
     | h_matching_connection_token_start \<Rightarrow> Inr q
     | _ \<Rightarrow> Inr (set_hs h_general q))"

definition step_header_value_start :: "u8 \<Rightarrow> 'd exec \<Rightarrow> 'd step" where
  "step_header_value_start ch x =
    (let x = upd (\<lambda>q. q\<lparr>index := 0\<rparr>) (UPDATE_STATE s_header_value (MARK Header_value x))
     in case value_start ch (parser x) of
          Inl e \<Rightarrow> fail e x
        | Inr q \<Rightarrow> Break (x\<lparr>parser := q\<rparr>))"

definition step_header_value_discard_ws :: "u8 \<Rightarrow> 'd exec \<Rightarrow> 'd step" where
  "step_header_value_discard_ws ch x =
    (if ch = SPC \<or> ch = TAB then Break x
     else if ch = CR then goto s_header_value_discard_ws_almost_done x
     else if ch = LF then goto s_header_value_discard_lws x
     else step_header_value_start ch x)"

section \<open>Header values\<close>

text \<open>
  One round of the loop over a value: the next \<open>p\<close> and \<open>h_state\<close>, or \<open>SET_ERRNO\<close> and \<open>goto error\<close>
  at an index, or the failing \<open>assert\<close>.
\<close>

datatype 'd value_round =
    VNext nat header_states "'d http_parser"
  | VFail http_errno nat "'d http_parser"
  | VAssert

text \<open>The fast path of an uninteresting value: \<open>Inl\<close> the index of an invalid byte.\<close>

function general_value :: "bool \<Rightarrow> bytes \<Rightarrow> nat \<Rightarrow> nat \<Rightarrow> nat + nat" where
  "general_value loose bs pe p =
    (if pe \<le> p then Inr p
     else let ch = bs ! p
          in if ch = CR \<or> ch = LF then Inr (p - 1)
             else if \<not> loose \<and> \<not> IS_HEADER_CHAR ch then Inl p
             else general_value loose bs pe (Suc p))"
  by pat_completeness auto
termination by (relation "measure (\<lambda>(l, bs, pe, p). pe - p)") auto

declare general_value.simps [simp del]

text \<open>A match against a token of a \<open>Connection\<close> or \<open>Transfer-Encoding\<close> value.\<close>

definition match_value ::
  "bytes \<Rightarrow> u8 \<Rightarrow> header_states \<Rightarrow> header_states \<Rightarrow> header_states \<Rightarrow> 'd http_parser
    \<Rightarrow> header_states \<times> 'd http_parser"
where
  "match_value name c miss hit h q =
    (let q = bump q; i = unat (index q)
     in (if length name < i \<or> c_at name i \<noteq> Some c then miss
         else if i = length name - 1 then hit else h, q))"

definition token_start :: "u8 \<Rightarrow> header_states" where
  "token_start c =
    (if c = 107 then h_matching_connection_keep_alive
     else if c = 99 then h_matching_connection_close
     else if c = 117 then h_matching_connection_upgrade
     else if TOKEN c \<noteq> 0 then h_matching_connection_token
     else if c = SPC \<or> c = TAB then h_matching_connection_token_start
     else h_general)"

definition content_length_digit :: "u8 \<Rightarrow> nat \<Rightarrow> 'd http_parser \<Rightarrow> 'd value_round" where
  "content_length_digit ch p q =
    (if ch = SPC then VNext p h_content_length_ws q
     else if \<not> IS_NUM ch then VFail HPE_INVALID_CONTENT_LENGTH p (set_hs h_content_length_num q)
     else if (ULLONG_MAX - 10) div 10 < content_length q
     then VFail HPE_INVALID_CONTENT_LENGTH p (set_hs h_content_length_num q)
     else VNext p h_content_length_num
            (q\<lparr>content_length := content_length q * 10 + ucast (ch - 48)\<rparr>))"

text \<open>The end of a token: a comma completes it, anything but a blank spoils it.\<close>

definition token_end :: "u8 \<Rightarrow> u8 \<Rightarrow> nat \<Rightarrow> header_states \<Rightarrow> 'd http_parser \<Rightarrow> 'd value_round" where
  "token_end flag ch p h q =
    (if ch = 44 then VNext p h_matching_connection_token_start ((set_flag flag q)\<lparr>index := 0\<rparr>)
     else if ch \<noteq> SPC then VNext p h_matching_connection_token q
     else VNext p h q)"

definition value_char ::
  "bool \<Rightarrow> u32 \<Rightarrow> bytes \<Rightarrow> nat \<Rightarrow> u8 \<Rightarrow> header_states \<Rightarrow> 'd http_parser \<Rightarrow> 'd value_round"
where
  "value_char loose mx bs p ch h q =
    (let c = LOWER ch; matched = (\<lambda>(h, q). VNext p h q)
     in case h of
       h_general \<Rightarrow>
         (case general_value loose bs (scan_limit mx bs p) p of
            Inl p \<Rightarrow> VFail HPE_INVALID_HEADER_TOKEN p q
          | Inr p \<Rightarrow> VNext (if p = length bs then p - 1 else p) h q)
     | h_connection \<Rightarrow> VAssert
     | h_transfer_encoding \<Rightarrow> VAssert
     | h_content_length \<Rightarrow> if ch = SPC then VNext p h q else content_length_digit ch p q
     | h_content_length_num \<Rightarrow> content_length_digit ch p q
     | h_content_length_ws \<Rightarrow>
         if ch = SPC then VNext p h q
         else VFail HPE_INVALID_CONTENT_LENGTH p (set_hs h q)
     | h_matching_transfer_encoding_chunked \<Rightarrow>
         matched (match_value CHUNKED c h_general h_transfer_encoding_chunked h q)
     | h_matching_connection_token_start \<Rightarrow> VNext p (token_start c) q
     | h_matching_connection_keep_alive \<Rightarrow>
         matched (match_value KEEP_ALIVE c h_matching_connection_token h_connection_keep_alive h q)
     | h_matching_connection_close \<Rightarrow>
         matched (match_value CLOSE c h_matching_connection_token h_connection_close h q)
     | h_matching_connection_upgrade \<Rightarrow>
         matched (match_value UPGRADE c h_matching_connection_token h_connection_upgrade h q)
     | h_matching_connection_token \<Rightarrow>
         if ch = 44 then VNext p h_matching_connection_token_start (q\<lparr>index := 0\<rparr>) else VNext p h q
     | h_transfer_encoding_chunked \<Rightarrow> VNext p (if ch \<noteq> SPC then h_general else h) q
     | h_connection_keep_alive \<Rightarrow> token_end F_CONNECTION_KEEP_ALIVE ch p h q
     | h_connection_close \<Rightarrow> token_end F_CONNECTION_CLOSE ch p h q
     | h_connection_upgrade \<Rightarrow> token_end F_CONNECTION_UPGRADE ch p h q
     | _ \<Rightarrow> VNext p h_general q)"

text \<open>How the loop over a value ends: at the end of the buffer, at CR, at LF, or in an error.\<close>

datatype 'd value_end =
    VEnd nat header_states "'d http_parser"
  | VCr nat header_states "'d http_parser"
  | VLf nat header_states "'d http_parser"
  | VFailed http_errno nat "'d http_parser"
  | VAsserted

lemma general_value_ge:
  "general_value l bs pe p = Inr p' \<Longrightarrow> p < pe \<Longrightarrow> bs ! p \<noteq> CR \<Longrightarrow> bs ! p \<noteq> LF \<Longrightarrow> p \<le> p'"
proof -
  have ge: "general_value l bs pe p = Inr p' \<Longrightarrow> p - 1 \<le> p'" for p
    by (induction l bs pe p rule: general_value.induct)
      (subst (asm) (2) general_value.simps, auto simp: Let_def split: if_splits)
  assume "general_value l bs pe p = Inr p'" "p < pe" "bs ! p \<noteq> CR" "bs ! p \<noteq> LF"
  then have "general_value l bs pe (Suc p) = Inr p'"
    by (subst (asm) general_value.simps) (auto simp: Let_def split: if_splits)
  from ge [OF this] show ?thesis by simp
qed

text \<open>The new index is at least the old one, except that the fast path may have no room at all.\<close>

lemma value_char_ge:
  assumes "value_char loose mx bs p ch h q = VNext p' h' q'" "p < length bs" "ch = bs ! p" "ch \<noteq> CR" "ch \<noteq> LF"
  shows "p \<le> p'"
proof (cases "h = h_general")
  case True
  show ?thesis
  proof (cases "p < scan_limit mx bs p")
    case False
    then have "scan_limit mx bs p = p" unfolding scan_limit_def by linarith
    with True assms show ?thesis by (auto simp: value_char_def general_value.simps split: if_splits)
  next
    case lim: True
    with True assms obtain p1 where g: "general_value loose bs (scan_limit mx bs p) p = Inr p1"
        "p' = (if p1 = length bs then p1 - 1 else p1)"
      by (auto simp: value_char_def split: sum.splits)
    from general_value_ge [OF g(1) lim] assms have "p \<le> p1" by blast
    with g(2) assms(2) show ?thesis by auto
  qed
next
  case False
  with assms show ?thesis
    by (cases h) (auto simp: value_char_def Let_def content_length_digit_def token_end_def match_value_def
        split: if_splits)
qed

function value_loop :: "bool \<Rightarrow> u32 \<Rightarrow> bytes \<Rightarrow> nat \<Rightarrow> header_states \<Rightarrow> 'd http_parser \<Rightarrow> 'd value_end" where
  "value_loop loose mx bs p h q =
    (if length bs \<le> p then VEnd p h q
     else let ch = bs ! p
          in if ch = CR then VCr p h q
             else if ch = LF then VLf p h q
             else if \<not> loose \<and> \<not> IS_HEADER_CHAR ch then VFailed HPE_INVALID_HEADER_TOKEN p q
             else case value_char loose mx bs p ch h q of
                    VNext p h q \<Rightarrow> value_loop loose mx bs (Suc p) h q
                  | VFail e p q \<Rightarrow> VFailed e p q
                  | VAssert \<Rightarrow> VAsserted)"
  by pat_completeness auto
termination
  by (relation "measure (\<lambda>(l, mx, bs, p, h, q). length bs - p)") (auto dest!: value_char_ge)

declare value_loop.simps [simp del]

definition step_header_value ::
  "u32 \<Rightarrow> 'd http_parser_settings \<Rightarrow> bytes \<Rightarrow> 'd exec \<Rightarrow> 'd step"
where
  "step_header_value mx s bs x =
    (let start = pos x
     in case value_loop (lenient x) mx bs start (header_state (parser x)) (parser x) of
          VEnd p h q \<Rightarrow>
            COUNT_HEADER_SIZE mx (of_nat (p - 1 - start)) (x\<lparr>parser := set_hs h q, pos := p - 1\<rparr>) Break
        | VCr p h q \<Rightarrow>
            CALLBACK_DATA s Header_value bs
              (UPDATE_STATE s_header_almost_done (x\<lparr>parser := set_hs h q, pos := p\<rparr>)) (\<lambda>x.
            COUNT_HEADER_SIZE mx (of_nat (p - start)) (upd (set_hs h) x) Break)
        | VLf p h q \<Rightarrow>
            COUNT_HEADER_SIZE mx (of_nat (p - start))
              (UPDATE_STATE s_header_almost_done (x\<lparr>parser := q, pos := p\<rparr>)) (\<lambda>x.
            CALLBACK_DATA_NOADVANCE s Header_value bs (upd (set_hs h) x) Reexecute)
        | VFailed e p q \<Rightarrow> fail e (x\<lparr>parser := q, pos := p\<rparr>)
        | VAsserted \<Rightarrow> Crash)"

section \<open>Between headers\<close>

definition step_header_almost_done :: "u8 \<Rightarrow> 'd exec \<Rightarrow> 'd step" where
  "step_header_almost_done ch x =
    (if ch \<noteq> LF then fail HPE_LF_EXPECTED x else goto s_header_value_lws x)"

text \<open>The flag a finished header sets.\<close>

definition finish_header :: "'d http_parser \<Rightarrow> 'd http_parser" where
  "finish_header q =
    (case header_state q of
       h_connection_keep_alive \<Rightarrow> set_flag F_CONNECTION_KEEP_ALIVE q
     | h_connection_close \<Rightarrow> set_flag F_CONNECTION_CLOSE q
     | h_transfer_encoding_chunked \<Rightarrow> set_flag F_CHUNKED q
     | h_connection_upgrade \<Rightarrow> set_flag F_CONNECTION_UPGRADE q
     | _ \<Rightarrow> q)"

definition step_header_value_lws :: "u8 \<Rightarrow> 'd exec \<Rightarrow> 'd step" where
  "step_header_value_lws ch x =
    (if ch = SPC \<or> ch = TAB
     then again s_header_value_start
            (upd (\<lambda>q. if header_state q = h_content_length_num then set_hs h_content_length_ws q else q) x)
     else again s_header_field_start (upd finish_header x))"

definition step_header_value_discard_lws ::
  "'d http_parser_settings \<Rightarrow> bytes \<Rightarrow> u8 \<Rightarrow> 'd exec \<Rightarrow> 'd step"
where
  "step_header_value_discard_lws s bs ch x =
    (if ch = SPC \<or> ch = TAB then goto s_header_value_discard_ws x
     else if header_state (parser x) = h_content_length then fail HPE_INVALID_CONTENT_LENGTH x
     else CALLBACK_DATA_NOADVANCE s Header_value bs
            (UPDATE_STATE s_header_field_start (MARK Header_value (upd finish_header x))) Reexecute)"

text \<open>All header states but the last two; \<open>None\<close> for the others.\<close>

definition step_header ::
  "u32 \<Rightarrow> 'd http_parser_settings \<Rightarrow> bytes \<Rightarrow> u8 \<Rightarrow> 'd exec \<Rightarrow> 'd step option"
where
  "step_header mx s bs ch x =
    (case p_state x of
       s_header_field_start \<Rightarrow> Some (step_header_field_start ch x)
     | s_header_field \<Rightarrow> Some (step_header_field mx s bs x)
     | s_header_value_discard_ws \<Rightarrow> Some (step_header_value_discard_ws ch x)
     | s_header_value_start \<Rightarrow> Some (step_header_value_start ch x)
     | s_header_value \<Rightarrow> Some (step_header_value mx s bs x)
     | s_header_almost_done \<Rightarrow> Some (step_header_almost_done ch x)
     | s_header_value_lws \<Rightarrow> Some (step_header_value_lws ch x)
     | s_header_value_discard_ws_almost_done \<Rightarrow>
         Some (STRICT_CHECK (ch \<noteq> LF) x (goto s_header_value_discard_lws))
     | s_header_value_discard_lws \<Rightarrow> Some (step_header_value_discard_lws s bs ch x)
     | _ \<Rightarrow> None)"

end
