(* ===== verification/Http_Exec.thy ===== *)
theory Http_Exec
  imports Http_Line Http_Header
begin

text \<open>
  The rounds of \<open>http_parser_execute\<close> at the end of the headers and in the body, the dispatch over all
  states, the loop over the bytes of a buffer, and the rest of the interface of \<open>http_parser.c\<close>.
\<close>

section \<open>The end of the headers\<close>

text \<open>\<open>parser->upgrade\<close>, as the callback for the end of the headers sees it.\<close>

definition set_upgrade :: "'d http_parser \<Rightarrow> 'd http_parser" where
  "set_upgrade q =
    q\<lparr>upgrade := if has_flag F_UPGRADE q \<and> has_flag F_CONNECTION_UPGRADE q
                 then ptype q = HTTP_REQUEST \<or> status_code q = 101
                 else meth q = HTTP_CONNECT\<rparr>"

text \<open>The callback \<open>on_headers_complete\<close>, whose results 1 and 2 say that there is no body.\<close>

definition headers_complete ::
  "'d http_parser_settings \<Rightarrow> 'd exec \<Rightarrow> ('d exec \<Rightarrow> 'd step) \<Rightarrow> 'd step"
where
  "headers_complete s x k =
    (let check = (\<lambda>x. if http_errno (parser x) \<noteq> HPE_OK then RETURN (pos x) x else k x)
     in case on_headers_complete s of
          None \<Rightarrow> check x
        | Some f \<Rightarrow>
            let (r, q) = f (parser x); x = x\<lparr>parser := q\<rparr>
            in if r = 0 then check x
               else if r = 2 then check (upd (\<lambda>q. set_flag F_SKIPBODY (q\<lparr>upgrade := True\<rparr>)) x)
               else if r = 1 then check (upd (set_flag F_SKIPBODY) x)
               else RETURN (pos x) (SET_ERRNO HPE_CB_headers_complete x))"

definition step_headers_almost_done :: "'d http_parser_settings \<Rightarrow> u8 \<Rightarrow> 'd exec \<Rightarrow> 'd step" where
  "step_headers_almost_done s ch x =
    STRICT_CHECK (ch \<noteq> LF) x (\<lambda>x.
      if has_flag F_TRAILING (parser x)
      then CALLBACK_NOTIFY_NOADVANCE (on_chunk_complete s) HPE_CB_chunk_complete
             (UPDATE_STATE s_message_done x) Reexecute
      else if has_flag F_CHUNKED (parser x) \<and> has_flag F_CONTENTLENGTH (parser x)
      then fail HPE_UNEXPECTED_CONTENT_LENGTH x
      else headers_complete s (upd set_upgrade (UPDATE_STATE s_headers_done x)) Reexecute)"

definition new_message :: "'d exec \<Rightarrow> 'd exec" where
  "new_message x = UPDATE_STATE (NEW_MESSAGE (parser x)) x"

definition message_complete ::
  "'d http_parser_settings \<Rightarrow> 'd exec \<Rightarrow> ('d exec \<Rightarrow> 'd step) \<Rightarrow> 'd step"
where
  "message_complete s x k =
    CALLBACK_NOTIFY (on_message_complete s) HPE_CB_message_complete (new_message x) k"

definition reset_nread :: "'d exec \<Rightarrow> 'd exec" where
  "reset_nread x = (upd (\<lambda>q. q\<lparr>nread := 0\<rparr>) x)\<lparr>p_nread := 0\<rparr>"

definition step_headers_done :: "'d http_parser_settings \<Rightarrow> u8 \<Rightarrow> 'd exec \<Rightarrow> 'd step" where
  "step_headers_done s ch x =
    STRICT_CHECK (ch \<noteq> LF) x (\<lambda>x.
      let x = reset_nread x; q = parser x;
          hasBody = has_flag F_CHUNKED q \<or> 0 < content_length q \<and> content_length q \<noteq> ULLONG_MAX
      in if upgrade q \<and> (meth q = HTTP_CONNECT \<or> has_flag F_SKIPBODY q \<or> \<not> hasBody)
         then message_complete s x (\<lambda>x. RETURN (pos x + 1) x)
         else if has_flag F_SKIPBODY q then message_complete s x Break
         else if has_flag F_CHUNKED q then goto s_chunk_size_start x
         else if content_length q = 0 then message_complete s x Break
         else if content_length q \<noteq> ULLONG_MAX then goto s_body_identity x
         else if \<not> http_message_needs_eof q then message_complete s x Break
         else goto s_body_identity_eof x)"

section \<open>Bodies\<close>

text \<open>
  As much of the body as the buffer holds: \<open>content_length\<close> falls by it, and \<open>p\<close> moves to its last
  byte.
\<close>

definition to_read :: "bytes \<Rightarrow> 'd exec \<Rightarrow> u64" where
  "to_read bs x = min (content_length (parser x)) (of_nat (length bs - pos x))"

definition take_body :: "bytes \<Rightarrow> 'd exec \<Rightarrow> 'd exec" where
  "take_body bs x =
    (let n = to_read bs x
     in (upd (\<lambda>q. q\<lparr>content_length := content_length q - n\<rparr>) (MARK Body x))\<lparr>pos := pos x + unat n - 1\<rparr>)"

definition no_length :: "'d exec \<Rightarrow> bool" where
  "no_length x \<longleftrightarrow> content_length (parser x) = 0 \<or> content_length (parser x) = ULLONG_MAX"

definition step_body_identity :: "'d http_parser_settings \<Rightarrow> bytes \<Rightarrow> 'd exec \<Rightarrow> 'd step" where
  "step_body_identity s bs x =
    (if no_length x then Crash
     else let x = take_body bs x
          in if content_length (parser x) = 0
             then callback_data s Body bs (pos x + 1) (pos x) (UPDATE_STATE s_message_done x) Reexecute
             else Break x)"

definition step_body_identity_eof :: "bytes \<Rightarrow> 'd exec \<Rightarrow> 'd step" where
  "step_body_identity_eof bs x = Break ((MARK Body x)\<lparr>pos := length bs - 1\<rparr>)"

definition step_message_done :: "'d http_parser_settings \<Rightarrow> 'd exec \<Rightarrow> 'd step" where
  "step_message_done s x =
    message_complete s x (\<lambda>x. if upgrade (parser x) then RETURN (pos x + 1) x else Break x)"

section \<open>Chunks\<close>

text \<open>The assertion that the parser is inside a chunked message.\<close>

definition assert_chunked :: "'d exec \<Rightarrow> 'd step \<Rightarrow> 'd step" where
  "assert_chunked x r = (if has_flag F_CHUNKED (parser x) then r else Crash)"

definition step_chunk_size_start :: "u8 \<Rightarrow> 'd exec \<Rightarrow> 'd step" where
  "step_chunk_size_start ch x =
    (if p_nread x \<noteq> 1 then Crash
     else assert_chunked x
       (let v = unhex ! unat ch
        in if v = -1 then fail HPE_INVALID_CHUNK_SIZE x
           else goto s_chunk_size (upd (\<lambda>q. q\<lparr>content_length := word_of_int v\<rparr>) x)))"

definition step_chunk_size :: "u8 \<Rightarrow> 'd exec \<Rightarrow> 'd step" where
  "step_chunk_size ch x =
    assert_chunked x
     (if ch = CR then goto s_chunk_size_almost_done x
      else let v = unhex ! unat ch; n = content_length (parser x)
           in if v = -1
              then if ch = 59 \<or> ch = SPC then goto s_chunk_parameters x
                   else fail HPE_INVALID_CHUNK_SIZE x
              else if (ULLONG_MAX - 16) div 16 < n then fail HPE_INVALID_CONTENT_LENGTH x
              else Break (upd (\<lambda>q. q\<lparr>content_length := n * 16 + word_of_int v\<rparr>) x))"

definition step_chunk_parameters :: "u8 \<Rightarrow> 'd exec \<Rightarrow> 'd step" where
  "step_chunk_parameters ch x =
    assert_chunked x (if ch = CR then goto s_chunk_size_almost_done x else Break x)"

definition step_chunk_size_almost_done :: "'d http_parser_settings \<Rightarrow> u8 \<Rightarrow> 'd exec \<Rightarrow> 'd step" where
  "step_chunk_size_almost_done s ch x =
    assert_chunked x (STRICT_CHECK (ch \<noteq> LF) x (\<lambda>x.
      let x = reset_nread x;
          x = (if content_length (parser x) = 0
               then UPDATE_STATE s_header_field_start (upd (set_flag F_TRAILING) x)
               else UPDATE_STATE s_chunk_data x)
      in CALLBACK_NOTIFY (on_chunk_header s) HPE_CB_chunk_header x Break))"

definition step_chunk_data :: "bytes \<Rightarrow> 'd exec \<Rightarrow> 'd step" where
  "step_chunk_data bs x =
    assert_chunked x
     (if no_length x then Crash
      else let x = take_body bs x
           in if content_length (parser x) = 0 then goto s_chunk_data_almost_done x else Break x)"

definition step_chunk_data_almost_done ::
  "'d http_parser_settings \<Rightarrow> bytes \<Rightarrow> u8 \<Rightarrow> 'd exec \<Rightarrow> 'd step"
where
  "step_chunk_data_almost_done s bs ch x =
    assert_chunked x
     (if content_length (parser x) \<noteq> 0 then Crash
      else STRICT_CHECK (ch \<noteq> CR) x (\<lambda>x.
        CALLBACK_DATA s Body bs (UPDATE_STATE s_chunk_data_done x) Break))"

definition step_chunk_data_done :: "'d http_parser_settings \<Rightarrow> u8 \<Rightarrow> 'd exec \<Rightarrow> 'd step" where
  "step_chunk_data_done s ch x =
    assert_chunked x (STRICT_CHECK (ch \<noteq> LF) x (\<lambda>x.
      CALLBACK_NOTIFY (on_chunk_complete s) HPE_CB_chunk_complete
        (UPDATE_STATE s_chunk_size_start (reset_nread x)) Break))"

definition step_body :: "'d http_parser_settings \<Rightarrow> bytes \<Rightarrow> u8 \<Rightarrow> 'd exec \<Rightarrow> 'd step option" where
  "step_body s bs ch x =
    (case p_state x of
       s_headers_almost_done \<Rightarrow> Some (step_headers_almost_done s ch x)
     | s_headers_done \<Rightarrow> Some (step_headers_done s ch x)
     | s_body_identity \<Rightarrow> Some (step_body_identity s bs x)
     | s_body_identity_eof \<Rightarrow> Some (step_body_identity_eof bs x)
     | s_message_done \<Rightarrow> Some (step_message_done s x)
     | s_chunk_size_start \<Rightarrow> Some (step_chunk_size_start ch x)
     | s_chunk_size \<Rightarrow> Some (step_chunk_size ch x)
     | s_chunk_parameters \<Rightarrow> Some (step_chunk_parameters ch x)
     | s_chunk_size_almost_done \<Rightarrow> Some (step_chunk_size_almost_done s ch x)
     | s_chunk_data \<Rightarrow> Some (step_chunk_data bs x)
     | s_chunk_data_almost_done \<Rightarrow> Some (step_chunk_data_almost_done s bs ch x)
     | s_chunk_data_done \<Rightarrow> Some (step_chunk_data_done s ch x)
     | _ \<Rightarrow> None)"

section \<open>The loop\<close>

text \<open>One \<open>switch\<close>; a state without a case would be an internal error.\<close>

definition dispatch :: "u32 \<Rightarrow> 'd http_parser_settings \<Rightarrow> bytes \<Rightarrow> 'd exec \<Rightarrow> 'd step" where
  "dispatch mx s bs x =
    (let ch = bs ! pos x
     in case step_line s bs ch x of
          Some r \<Rightarrow> r
        | None \<Rightarrow>
            (case step_header mx s bs ch x of
               Some r \<Rightarrow> r
             | None \<Rightarrow> (case step_body s bs ch x of Some r \<Rightarrow> r | None \<Rightarrow> Crash)))"

text \<open>The callbacks for the marks left when the bytes have run out; at most one is set.\<close>

definition marks_set :: "'d exec \<Rightarrow> nat" where
  "marks_set x = length (filter (\<lambda>f. mark_of f x \<noteq> None) [Header_field, Header_value, Url, Body, Status])"

definition finish :: "'d http_parser_settings \<Rightarrow> bytes \<Rightarrow> 'd exec \<Rightarrow> 'd step" where
  "finish s bs x =
    (if 1 < marks_set x then Crash
     else CALLBACK_DATA_NOADVANCE s Header_field bs x (\<lambda>x.
          CALLBACK_DATA_NOADVANCE s Header_value bs x (\<lambda>x.
          CALLBACK_DATA_NOADVANCE s Url bs x (\<lambda>x.
          CALLBACK_DATA_NOADVANCE s Body bs x (\<lambda>x.
          CALLBACK_DATA_NOADVANCE s Status bs x (RETURN (length bs)))))))"

definition error_exit :: "'d exec \<Rightarrow> nat \<times> 'd http_parser" where
  "error_exit x =
    (let x = (if http_errno (parser x) = HPE_OK then SET_ERRNO HPE_UNKNOWN x else x)
     in (pos x, (parser x)\<lparr>nread := p_nread x, state := p_state x\<rparr>))"

datatype 'd exec_result = Returned nat "'d http_parser" | Asserted | OutOfFuel

text \<open>The head of the loop: the next byte is counted while the parser is in the headers.\<close>

definition next_byte :: "u32 \<Rightarrow> 'd http_parser_settings \<Rightarrow> bytes \<Rightarrow> 'd exec \<Rightarrow> 'd step" where
  "next_byte mx s bs x =
    (if length bs \<le> pos x then finish s bs x
     else if PARSING_HEADER (p_state x) then COUNT_HEADER_SIZE mx 1 x (dispatch mx s bs)
     else dispatch mx s bs x)"

fun run :: "nat \<Rightarrow> u32 \<Rightarrow> 'd http_parser_settings \<Rightarrow> bytes \<Rightarrow> 'd step \<Rightarrow> 'd exec_result" where
  "run fuel mx s bs (Return v q) = Returned v q"
| "run fuel mx s bs (Error x) = (case error_exit x of (v, q) \<Rightarrow> Returned v q)"
| "run fuel mx s bs Crash = Asserted"
| "run 0 mx s bs _ = OutOfFuel"
| "run (Suc n) mx s bs (Break x) = run n mx s bs (next_byte mx s bs (x\<lparr>pos := pos x + 1\<rparr>))"
| "run (Suc n) mx s bs (Reexecute x) = run n mx s bs (dispatch mx s bs x)"

text \<open>The states in which a data piece continues from an earlier buffer.\<close>

definition in_url :: "http_state \<Rightarrow> bool" where
  "in_url st \<longleftrightarrow> st \<in> {s_req_path, s_req_schema, s_req_schema_slash, s_req_schema_slash_slash,
    s_req_server_start, s_req_server, s_req_server_with_at, s_req_query_string_start,
    s_req_query_string, s_req_fragment_start, s_req_fragment}"

definition enter :: "'d http_parser \<Rightarrow> 'd exec" where
  "enter q =
    \<lparr>parser = q, p_state = state q, p_nread = nread q, lenient = lenient_http_headers q, pos = 0,
     header_field_mark = if state q = s_header_field then Some 0 else None,
     header_value_mark = if state q = s_header_value then Some 0 else None,
     url_mark = if in_url (state q) then Some 0 else None,
     body_mark = None,
     status_mark = if state q = s_res_status then Some 0 else None\<rparr>"

text \<open>A call with no bytes, which signals the end of the stream.\<close>

definition execute_eof :: "'d http_parser_settings \<Rightarrow> 'd http_parser \<Rightarrow> 'd exec_result" where
  "execute_eof s q =
    (case state q of
       s_body_identity_eof \<Rightarrow>
         run 0 0 s [] (CALLBACK_NOTIFY_NOADVANCE (on_message_complete s) HPE_CB_message_complete (enter q)
           (\<lambda>x. Return 0 (parser x)))
     | s_dead \<Rightarrow> Returned 0 q
     | s_start_req_or_res \<Rightarrow> Returned 0 q
     | s_start_res \<Rightarrow> Returned 0 q
     | s_start_req \<Rightarrow> Returned 0 q
     | _ \<Rightarrow> Returned 1 (parser (SET_ERRNO HPE_INVALID_EOF_STATE (enter q))))"

text \<open>A byte is looked at in at most five rounds.\<close>

definition http_parser_execute ::
  "u32 \<Rightarrow> 'd http_parser_settings \<Rightarrow> 'd http_parser \<Rightarrow> bytes \<Rightarrow> 'd exec_result"
where
  "http_parser_execute mx s q bs =
    (if http_errno q \<noteq> HPE_OK then Returned 0 q
     else if bs = [] then execute_eof s q
     else run (5 * length bs + 5) mx s bs (next_byte mx s bs (enter q)))"

section \<open>The rest of the interface\<close>

definition HTTP_MAX_HEADER_SIZE :: u32 where
  "HTTP_MAX_HEADER_SIZE = 80 * 1024"

text \<open>The struct is zeroed but for the application's pointer; state, type and error are then set.\<close>

definition http_parser_init :: "'d \<Rightarrow> http_parser_type \<Rightarrow> 'd http_parser" where
  "http_parser_init d t =
    \<lparr>ptype = t, flags = 0,
     state = (if t = HTTP_REQUEST then s_start_req else if t = HTTP_RESPONSE then s_start_res
              else s_start_req_or_res),
     header_state = h_general, index = 0, lenient_http_headers = False, nread = 0, content_length = 0,
     http_major = 0, http_minor = 0, status_code = 0, meth = HTTP_DELETE, http_errno = HPE_OK,
     upgrade = False, data = d, anchor_id = 0\<rparr>"

definition http_parser_settings_init :: "'d http_parser_settings" where
  "http_parser_settings_init =
    \<lparr>on_message_begin = None, on_url = None, on_status = None, on_header_field = None,
     on_header_value = None, on_headers_complete = None, on_body = None, on_message_complete = None,
     on_chunk_header = None, on_chunk_complete = None\<rparr>"

text \<open>Pausing a parser that is in an error state fails an \<open>assert\<close>.\<close>

definition http_parser_pause :: "'d http_parser \<Rightarrow> bool \<Rightarrow> 'd http_parser option" where
  "http_parser_pause q paused =
    (if http_errno q = HPE_OK \<or> http_errno q = HPE_PAUSED
     then Some (q\<lparr>nread := nread q, http_errno := if paused then HPE_PAUSED else HPE_OK\<rparr>)
     else None)"

definition http_body_is_final :: "'d http_parser \<Rightarrow> bool" where
  "http_body_is_final q \<longleftrightarrow> state q = s_message_done"

definition http_parser_version :: u32 where
  "http_parser_version = 2 * 65536 OR 9 * 256 OR 2"

definition http_method_str :: "http_method \<Rightarrow> string" where
  "http_method_str m = method_string m"

definition http_status_map :: "(nat \<times> string) list" where
  "http_status_map =
    [(100, ''Continue''),
     (101, ''Switching Protocols''),
     (102, ''Processing''),
     (200, ''OK''),
     (201, ''Created''),
     (202, ''Accepted''),
     (203, ''Non-Authoritative Information''),
     (204, ''No Content''),
     (205, ''Reset Content''),
     (206, ''Partial Content''),
     (207, ''Multi-Status''),
     (208, ''Already Reported''),
     (226, ''IM Used''),
     (300, ''Multiple Choices''),
     (301, ''Moved Permanently''),
     (302, ''Found''),
     (303, ''See Other''),
     (304, ''Not Modified''),
     (305, ''Use Proxy''),
     (307, ''Temporary Redirect''),
     (308, ''Permanent Redirect''),
     (400, ''Bad Request''),
     (401, ''Unauthorized''),
     (402, ''Payment Required''),
     (403, ''Forbidden''),
     (404, ''Not Found''),
     (405, ''Method Not Allowed''),
     (406, ''Not Acceptable''),
     (407, ''Proxy Authentication Required''),
     (408, ''Request Timeout''),
     (409, ''Conflict''),
     (410, ''Gone''),
     (411, ''Length Required''),
     (412, ''Precondition Failed''),
     (413, ''Payload Too Large''),
     (414, ''URI Too Long''),
     (415, ''Unsupported Media Type''),
     (416, ''Range Not Satisfiable''),
     (417, ''Expectation Failed''),
     (421, ''Misdirected Request''),
     (422, ''Unprocessable Entity''),
     (423, ''Locked''),
     (424, ''Failed Dependency''),
     (426, ''Upgrade Required''),
     (428, ''Precondition Required''),
     (429, ''Too Many Requests''),
     (431, ''Request Header Fields Too Large''),
     (451, ''Unavailable For Legal Reasons''),
     (500, ''Internal Server Error''),
     (501, ''Not Implemented''),
     (502, ''Bad Gateway''),
     (503, ''Service Unavailable''),
     (504, ''Gateway Timeout''),
     (505, ''HTTP Version Not Supported''),
     (506, ''Variant Also Negotiates''),
     (507, ''Insufficient Storage''),
     (508, ''Loop Detected''),
     (510, ''Not Extended''),
     (511, ''Network Authentication Required'')]"

definition http_status_str :: "nat \<Rightarrow> string" where
  "http_status_str n = (case map_of http_status_map n of Some t \<Rightarrow> t | None \<Rightarrow> ''<unknown>'')"

fun http_errno_description :: "http_errno \<Rightarrow> string" where
  "http_errno_description HPE_OK = ''success''"
| "http_errno_description HPE_CB_message_begin = ''the on_message_begin callback failed''"
| "http_errno_description HPE_CB_url = ''the on_url callback failed''"
| "http_errno_description HPE_CB_header_field = ''the on_header_field callback failed''"
| "http_errno_description HPE_CB_header_value = ''the on_header_value callback failed''"
| "http_errno_description HPE_CB_headers_complete = ''the on_headers_complete callback failed''"
| "http_errno_description HPE_CB_body = ''the on_body callback failed''"
| "http_errno_description HPE_CB_message_complete = ''the on_message_complete callback failed''"
| "http_errno_description HPE_CB_status = ''the on_status callback failed''"
| "http_errno_description HPE_CB_chunk_header = ''the on_chunk_header callback failed''"
| "http_errno_description HPE_CB_chunk_complete = ''the on_chunk_complete callback failed''"
| "http_errno_description HPE_INVALID_EOF_STATE = ''stream ended at an unexpected time''"
| "http_errno_description HPE_HEADER_OVERFLOW = ''too many header bytes seen; overflow detected''"
| "http_errno_description HPE_CLOSED_CONNECTION = ''data received after completed connection: close message''"
| "http_errno_description HPE_INVALID_VERSION = ''invalid HTTP version''"
| "http_errno_description HPE_INVALID_STATUS = ''invalid HTTP status code''"
| "http_errno_description HPE_INVALID_METHOD = ''invalid HTTP method''"
| "http_errno_description HPE_INVALID_URL = ''invalid URL''"
| "http_errno_description HPE_INVALID_HOST = ''invalid host''"
| "http_errno_description HPE_INVALID_PORT = ''invalid port''"
| "http_errno_description HPE_INVALID_PATH = ''invalid path''"
| "http_errno_description HPE_INVALID_QUERY_STRING = ''invalid query string''"
| "http_errno_description HPE_INVALID_FRAGMENT = ''invalid fragment''"
| "http_errno_description HPE_LF_EXPECTED = ''LF character expected''"
| "http_errno_description HPE_INVALID_HEADER_TOKEN = ''invalid character in header''"
| "http_errno_description HPE_INVALID_CONTENT_LENGTH = ''invalid character in content-length header''"
| "http_errno_description HPE_UNEXPECTED_CONTENT_LENGTH = ''unexpected content-length header''"
| "http_errno_description HPE_INVALID_CHUNK_SIZE = ''invalid character in chunk size header''"
| "http_errno_description HPE_INVALID_CONSTANT = ''invalid constant string''"
| "http_errno_description HPE_INVALID_INTERNAL_STATE = ''encountered unexpected internal state''"
| "http_errno_description HPE_STRICT = ''strict mode assertion failed''"
| "http_errno_description HPE_PAUSED = ''parser is paused''"
| "http_errno_description HPE_UNKNOWN = ''an unknown error occurred''"

fun http_errno_name :: "http_errno \<Rightarrow> string" where
  "http_errno_name HPE_OK = ''HPE_OK''"
| "http_errno_name HPE_CB_message_begin = ''HPE_CB_message_begin''"
| "http_errno_name HPE_CB_url = ''HPE_CB_url''"
| "http_errno_name HPE_CB_header_field = ''HPE_CB_header_field''"
| "http_errno_name HPE_CB_header_value = ''HPE_CB_header_value''"
| "http_errno_name HPE_CB_headers_complete = ''HPE_CB_headers_complete''"
| "http_errno_name HPE_CB_body = ''HPE_CB_body''"
| "http_errno_name HPE_CB_message_complete = ''HPE_CB_message_complete''"
| "http_errno_name HPE_CB_status = ''HPE_CB_status''"
| "http_errno_name HPE_CB_chunk_header = ''HPE_CB_chunk_header''"
| "http_errno_name HPE_CB_chunk_complete = ''HPE_CB_chunk_complete''"
| "http_errno_name HPE_INVALID_EOF_STATE = ''HPE_INVALID_EOF_STATE''"
| "http_errno_name HPE_HEADER_OVERFLOW = ''HPE_HEADER_OVERFLOW''"
| "http_errno_name HPE_CLOSED_CONNECTION = ''HPE_CLOSED_CONNECTION''"
| "http_errno_name HPE_INVALID_VERSION = ''HPE_INVALID_VERSION''"
| "http_errno_name HPE_INVALID_STATUS = ''HPE_INVALID_STATUS''"
| "http_errno_name HPE_INVALID_METHOD = ''HPE_INVALID_METHOD''"
| "http_errno_name HPE_INVALID_URL = ''HPE_INVALID_URL''"
| "http_errno_name HPE_INVALID_HOST = ''HPE_INVALID_HOST''"
| "http_errno_name HPE_INVALID_PORT = ''HPE_INVALID_PORT''"
| "http_errno_name HPE_INVALID_PATH = ''HPE_INVALID_PATH''"
| "http_errno_name HPE_INVALID_QUERY_STRING = ''HPE_INVALID_QUERY_STRING''"
| "http_errno_name HPE_INVALID_FRAGMENT = ''HPE_INVALID_FRAGMENT''"
| "http_errno_name HPE_LF_EXPECTED = ''HPE_LF_EXPECTED''"
| "http_errno_name HPE_INVALID_HEADER_TOKEN = ''HPE_INVALID_HEADER_TOKEN''"
| "http_errno_name HPE_INVALID_CONTENT_LENGTH = ''HPE_INVALID_CONTENT_LENGTH''"
| "http_errno_name HPE_UNEXPECTED_CONTENT_LENGTH = ''HPE_UNEXPECTED_CONTENT_LENGTH''"
| "http_errno_name HPE_INVALID_CHUNK_SIZE = ''HPE_INVALID_CHUNK_SIZE''"
| "http_errno_name HPE_INVALID_CONSTANT = ''HPE_INVALID_CONSTANT''"
| "http_errno_name HPE_INVALID_INTERNAL_STATE = ''HPE_INVALID_INTERNAL_STATE''"
| "http_errno_name HPE_STRICT = ''HPE_STRICT''"
| "http_errno_name HPE_PAUSED = ''HPE_PAUSED''"
| "http_errno_name HPE_UNKNOWN = ''HPE_UNKNOWN''"

end
