(* ===== verification/Http_Contract.thy ===== *)
theory Http_Contract
  imports Http_Exec
begin

text \<open>
  What the streaming parser expects of the application's callbacks, and how an assertion about the
  outcomes of a round is carried through the macros that run them.
\<close>

section \<open>The contract of the callbacks\<close>

text \<open>A callback may change the application's pointer and pause the parser; its result is free.\<close>

definition keeps :: "'d http_parser \<Rightarrow> 'd http_parser \<Rightarrow> bool" where
  "keeps q q' \<longleftrightarrow> (\<exists>d e. q' = q\<lparr>data := d, http_errno := e\<rparr> \<and> (e = http_errno q \<or> e = HPE_PAUSED))"

definition cb_ok :: "'d http_cb option \<Rightarrow> bool" where
  "cb_ok cb \<longleftrightarrow> (\<forall>f q. cb = Some f \<longrightarrow> keeps q (snd (f q)))"

definition data_cb_ok :: "'d http_data_cb option \<Rightarrow> bool" where
  "data_cb_ok cb \<longleftrightarrow> (\<forall>f q bs. cb = Some f \<longrightarrow> keeps q (snd (f q bs)))"

definition settings_ok :: "'d http_parser_settings \<Rightarrow> bool" where
  "settings_ok s \<longleftrightarrow> cb_ok (on_message_begin s) \<and> data_cb_ok (on_url s) \<and> data_cb_ok (on_status s) \<and>
    data_cb_ok (on_header_field s) \<and> data_cb_ok (on_header_value s) \<and> cb_ok (on_headers_complete s) \<and>
    data_cb_ok (on_body s) \<and> cb_ok (on_message_complete s) \<and> cb_ok (on_chunk_header s) \<and>
    cb_ok (on_chunk_complete s)"

lemma settings_okD:
  assumes "settings_ok s"
  shows "cb_ok (on_message_begin s)" "cb_ok (on_headers_complete s)" "cb_ok (on_message_complete s)"
    "cb_ok (on_chunk_header s)" "cb_ok (on_chunk_complete s)" "data_cb_ok (field_cb f s)"
  using assms by (simp_all add: settings_ok_def) (cases f; simp)

section \<open>Outcomes of a round\<close>

fun sat ::
  "('d exec \<Rightarrow> bool) \<Rightarrow> ('d exec \<Rightarrow> bool) \<Rightarrow> (nat \<Rightarrow> 'd http_parser \<Rightarrow> bool) \<Rightarrow> ('d exec \<Rightarrow> bool) \<Rightarrow>
    'd step \<Rightarrow> bool"
where
  "sat brk rex ret err (Break x) \<longleftrightarrow> brk x"
| "sat brk rex ret err (Reexecute x) \<longleftrightarrow> rex x"
| "sat brk rex ret err (Return v q) \<longleftrightarrow> ret v q"
| "sat brk rex ret err (Error x) \<longleftrightarrow> err x"
| "sat brk rex ret err Crash \<longleftrightarrow> False"

lemma sat_if [simp]: "sat B R T E (if c then r else r') \<longleftrightarrow> (if c then sat B R T E r else sat B R T E r')"
  by simp

text \<open>The locals as a callback leaves them when the parse goes on.\<close>

definition called :: "'d \<Rightarrow> 'd exec \<Rightarrow> 'd exec" where
  "called d x = x\<lparr>parser := (parser x)\<lparr>state := p_state x, data := d\<rparr>\<rparr>"

text \<open>The parser as a call returns it when a callback pauses or fails.\<close>

definition paused_at :: "'d \<Rightarrow> 'd exec \<Rightarrow> 'd http_parser" where
  "paused_at d x = (parser x)\<lparr>state := p_state x, data := d, http_errno := HPE_PAUSED\<rparr>"

definition failed_at :: "'d \<Rightarrow> http_errno \<Rightarrow> 'd exec \<Rightarrow> 'd http_parser" where
  "failed_at d e x = (parser x)\<lparr>state := p_state x, data := d, nread := p_nread x, http_errno := e\<rparr>"

lemma called_simps [simp]:
  "p_state (called d x) = p_state x" "p_nread (called d x) = p_nread x" "pos (called d x) = pos x"
  "mark_of f (called d x) = mark_of f x" "http_errno (parser (called d x)) = http_errno (parser x)"
  "header_field_mark (called d x) = header_field_mark x" "header_value_mark (called d x) = header_value_mark x"
  "url_mark (called d x) = url_mark x" "body_mark (called d x) = body_mark x"
  "status_mark (called d x) = status_mark x" "lenient (called d x) = lenient x"
  by (simp_all add: called_def) (cases f; simp)

lemma sat_run_callback:
  assumes cb: "\<And>q. keeps q (snd (cb q))" and ok: "http_errno (parser x) = HPE_OK" and e: "e \<noteq> HPE_OK"
    and go: "\<And>d. sat B R T E (k (called d x))"
    and bad: "\<And>d. T er (failed_at d e x)"
    and paused: "\<And>d. T er (paused_at d x)"
  shows "sat B R T E (run_callback cb e er x k)"
proof -
  obtain r q where c: "cb ((parser x)\<lparr>state := p_state x\<rparr>) = (r, q)" by fastforce
  from cb [of "(parser x)\<lparr>state := p_state x\<rparr>"] ok obtain d e' where
    q: "q = (parser x)\<lparr>state := p_state x, data := d, http_errno := e'\<rparr>" "e' = HPE_OK \<or> e' = HPE_PAUSED"
    unfolding c keeps_def by auto
  have same: "(parser x)\<lparr>state := p_state x, data := d, http_errno := HPE_OK\<rparr>
      = (parser x)\<lparr>state := p_state x, data := d\<rparr>" for d
    using ok by (cases "parser x") simp
  show ?thesis
  proof (cases "r = 0")
    case False
    then show ?thesis using bad [of d] e
      by (simp add: run_callback_def c q SET_ERRNO_def upd_def UPDATE_STATE_def failed_at_def)
  next
    case True
    from q(2) show ?thesis
    proof
      assume "e' = HPE_OK"
      then show ?thesis using True go [of d]
        by (simp add: run_callback_def c q UPDATE_STATE_def called_def same ok Let_def)
    next
      assume "e' = HPE_PAUSED"
      then show ?thesis using True paused [of d]
        by (simp add: run_callback_def c q UPDATE_STATE_def paused_at_def)
    qed
  qed
qed

lemma sat_notify:
  assumes "cb_ok cb" "http_errno (parser x) = HPE_OK" "e \<noteq> HPE_OK"
    "sat B R T E (k x)" "\<And>d. sat B R T E (k (called d x))"
    "\<And>d. T er (failed_at d e x)" "\<And>d. T er (paused_at d x)"
  shows "sat B R T E (CALLBACK_NOTIFY_ER cb e er x k)"
  using assms by (cases cb) (auto simp: CALLBACK_NOTIFY_ER_def cb_ok_def intro!: sat_run_callback)

lemma field_err_neq [simp]: "field_err f \<noteq> HPE_OK" "field_err f \<noteq> HPE_PAUSED"
  by (cases f; simp)+

lemma sat_data:
  assumes "settings_ok s" "http_errno (parser x) = HPE_OK"
    "\<And>m. mark_of f x = Some m \<Longrightarrow> m \<le> till \<and> till \<le> length bs"
    "mark_of f x = None \<Longrightarrow> sat B R T E (k x)" "sat B R T E (k (set_mark f None x))"
    "\<And>d. sat B R T E (k (set_mark f None (called d x)))"
    "\<And>d. T er (failed_at d (field_err f) x)" "\<And>d. T er (paused_at d x)"
  shows "sat B R T E (callback_data s f bs till er x k)"
proof (cases "mark_of f x")
  case None
  then show ?thesis using assms(2,4) by (simp add: callback_data_def CALLBACK_DATA_ER_def)
next
  case (Some m)
  show ?thesis
  proof (cases "field_cb f s")
    case None
    then show ?thesis using Some assms(2,5) by (simp add: callback_data_def CALLBACK_DATA_ER_def)
  next
    case cb: (Some g)
    have "keeps q (snd (g q b))" for q b
      using settings_okD(6) [OF assms(1), of f] cb by (simp add: data_cb_ok_def)
    then show ?thesis using Some cb assms(2,6,7,8) assms(3) [OF Some]
      by (auto simp: callback_data_def CALLBACK_DATA_ER_def intro!: sat_run_callback)
  qed
qed

end
