(* ===== verification/Http_Safety.thy ===== *)
theory Http_Safety
  imports Http_Contract
begin

text \<open>
  The streaming parser is safe: no assertion of \<open>http_parser_execute\<close> fails, no table or buffer is
  read outside of its bounds, the loop ends, and a call that returns normally has consumed its
  input.  The proof is an invariant of the locals between two rounds, kept by every round, with a
  rank that falls whenever a byte is looked at again.
\<close>

section \<open>The invariant\<close>

text \<open>The header states a name may be in, and those a value may be in.\<close>

definition name_state :: "header_states \<Rightarrow> bool" where
  "name_state h \<longleftrightarrow> (case h of
     h_content_length_num \<Rightarrow> False | h_content_length_ws \<Rightarrow> False
   | h_matching_transfer_encoding_chunked \<Rightarrow> False | h_matching_connection_token_start \<Rightarrow> False
   | h_matching_connection_keep_alive \<Rightarrow> False | h_matching_connection_close \<Rightarrow> False
   | h_matching_connection_upgrade \<Rightarrow> False | h_matching_connection_token \<Rightarrow> False
   | h_transfer_encoding_chunked \<Rightarrow> False | h_connection_keep_alive \<Rightarrow> False
   | h_connection_close \<Rightarrow> False | h_connection_upgrade \<Rightarrow> False | _ \<Rightarrow> True)"

definition value_state :: "header_states \<Rightarrow> bool" where
  "value_state h \<longleftrightarrow> (case h of h_connection \<Rightarrow> False | h_transfer_encoding \<Rightarrow> False | _ \<Rightarrow> True)"

text \<open>What holds of the parser in each state, with the limit \<open>mx\<close> on the header size.\<close>

definition core_ok :: "u32 \<Rightarrow> http_state \<Rightarrow> 'd http_parser \<Rightarrow> bool" where
  "core_ok mx st q \<longleftrightarrow> nread q \<le> mx \<and>
    (case st of
       s_req_method \<Rightarrow> unat (index q) \<le> length (method_string (meth q))
     | s_header_field \<Rightarrow> name_state (header_state q)
     | s_header_value \<Rightarrow> value_state (header_state q)
     | s_body_identity \<Rightarrow> content_length q \<noteq> 0 \<and> content_length q \<noteq> ULLONG_MAX
     | s_chunk_size_start \<Rightarrow> has_flag F_CHUNKED q \<and> nread q = 0
     | s_chunk_size \<Rightarrow> has_flag F_CHUNKED q \<and> content_length q \<noteq> ULLONG_MAX
     | s_chunk_parameters \<Rightarrow> has_flag F_CHUNKED q \<and> content_length q \<noteq> ULLONG_MAX
     | s_chunk_size_almost_done \<Rightarrow> has_flag F_CHUNKED q \<and> content_length q \<noteq> ULLONG_MAX
     | s_chunk_data \<Rightarrow> has_flag F_CHUNKED q \<and> content_length q \<noteq> 0 \<and> content_length q \<noteq> ULLONG_MAX
     | s_chunk_data_almost_done \<Rightarrow> has_flag F_CHUNKED q \<and> content_length q = 0
     | s_chunk_data_done \<Rightarrow> has_flag F_CHUNKED q
     | _ \<Rightarrow> True)"

text \<open>The states in which a piece of data is open.\<close>

definition marks_ok :: "'d exec \<Rightarrow> bool" where
  "marks_ok x \<longleftrightarrow>
    (\<forall>m. header_field_mark x = Some m \<longrightarrow> m \<le> pos x \<and> p_state x = s_header_field) \<and>
    (\<forall>m. header_value_mark x = Some m \<longrightarrow> m \<le> pos x \<and> p_state x = s_header_value) \<and>
    (\<forall>m. url_mark x = Some m \<longrightarrow> m \<le> pos x \<and> in_url (p_state x)) \<and>
    (\<forall>m. body_mark x = Some m \<longrightarrow> m \<le> pos x \<and>
       (p_state x = s_body_identity \<or> p_state x = s_body_identity_eof \<or> p_state x = s_chunk_data \<or>
        p_state x = s_chunk_data_almost_done)) \<and>
    (\<forall>m. status_mark x = Some m \<longrightarrow> m \<le> pos x \<and> p_state x = s_res_status)"

text \<open>The invariant at the head of the loop (\<open>k\<close> is 0), and when its byte has been counted (1).\<close>

definition inv :: "u32 \<Rightarrow> u32 \<Rightarrow> 'd exec \<Rightarrow> bool" where
  "inv k mx x \<longleftrightarrow> http_errno (parser x) = HPE_OK \<and> p_nread x \<le> mx \<and> core_ok mx (p_state x) (parser x) \<and>
    (p_state x = s_chunk_size_start \<longrightarrow> p_nread x = k) \<and> marks_ok x"

text \<open>The parser between two calls, unless it is in an error.\<close>

definition parser_ok :: "u32 \<Rightarrow> 'd http_parser \<Rightarrow> bool" where
  "parser_ok mx q \<longleftrightarrow> (http_errno q = HPE_OK \<or> http_errno q = HPE_PAUSED \<longrightarrow> core_ok mx (state q) q)"

text \<open>A round that looks at its byte again goes to a state of a smaller rank.\<close>

definition rank :: "http_state \<Rightarrow> nat" where
  "rank st = (case st of
     s_start_req_or_res \<Rightarrow> 1 | s_res_status_start \<Rightarrow> 1 | s_headers_almost_done \<Rightarrow> 1
   | s_header_value \<Rightarrow> 1 | s_body_identity \<Rightarrow> 1
   | s_header_field_start \<Rightarrow> 2 | s_res_status_code \<Rightarrow> 2
   | s_header_value_lws \<Rightarrow> 3 | s_header_value_discard_lws \<Rightarrow> 3 | _ \<Rightarrow> 0)"

definition returned_ok :: "u32 \<Rightarrow> nat \<Rightarrow> nat \<Rightarrow> 'd http_parser \<Rightarrow> bool" where
  "returned_ok mx n v q \<longleftrightarrow> v \<le> n \<and> parser_ok mx q \<and> (http_errno q = HPE_OK \<longrightarrow> v = n \<or> upgrade q)"

definition round_ok :: "u32 \<Rightarrow> bytes \<Rightarrow> 'd exec \<Rightarrow> 'd step \<Rightarrow> bool" where
  "round_ok mx bs x =
    sat (\<lambda>y. inv 0 mx y \<and> pos x \<le> pos y \<and> pos y < length bs)
        (\<lambda>y. inv 1 mx y \<and> pos x \<le> pos y \<and> pos y < length bs \<and> rank (p_state y) < rank (p_state x))
        (returned_ok mx (length bs))
        (\<lambda>y. http_errno (parser y) \<noteq> HPE_OK \<and> http_errno (parser y) \<noteq> HPE_PAUSED \<and> pos y \<le> length bs)"

lemmas round_defs = inv_def core_ok_def marks_ok_def rank_def returned_ok_def parser_ok_def
  failed_at_def paused_at_def called_def has_flag_def

section \<open>Rounds of the start line\<close>

lemma round_if [simp]:
  "round_ok mx bs x (if c then r else r') \<longleftrightarrow> (if c then round_ok mx bs x r else round_ok mx bs x r')"
  by simp

lemma round_fail [simp]: "pos y \<le> length bs \<Longrightarrow> e \<noteq> HPE_OK \<Longrightarrow> e \<noteq> HPE_PAUSED \<Longrightarrow> round_ok mx bs x (fail e y)"
  by (simp add: round_ok_def fail_def SET_ERRNO_def upd_def)

lemma has_flag_simps [simp]:
  "has_flag f (q\<lparr>state := st\<rparr>) = has_flag f q" "has_flag f (q\<lparr>data := d\<rparr>) = has_flag f q"
  "has_flag f (q\<lparr>http_errno := e\<rparr>) = has_flag f q"
  by (simp_all add: has_flag_def)

lemma core_ok_simps [simp]:
  "core_ok mx st (q\<lparr>state := s\<rparr>) = core_ok mx st q" "core_ok mx st (q\<lparr>data := d\<rparr>) = core_ok mx st q"
  "core_ok mx st (q\<lparr>http_errno := e\<rparr>) = core_ok mx st q"
  by (cases st; simp add: core_ok_def)+

lemma parser_called: "parser (called d x) = (parser x)\<lparr>state := p_state x, data := d\<rparr>"
  by (simp add: called_def)

lemma marks_called [simp]: "marks_ok (called d x) = marks_ok x"
  by (simp add: marks_ok_def)

lemma inv_called [simp]: "inv k mx (called d x) = inv k mx x"
  by (simp add: inv_def parser_called)

lemma round_notify:
  assumes "cb_ok cb" "http_errno (parser y) = HPE_OK" "core_ok mx (p_state y) (parser y)" "er \<le> length bs"
    "e \<noteq> HPE_OK" "e \<noteq> HPE_PAUSED" "round_ok mx bs x (k y)" "\<And>d. round_ok mx bs x (k (called d y))"
  shows "round_ok mx bs x (CALLBACK_NOTIFY_ER cb e er y k)"
  unfolding round_ok_def
  by (rule sat_notify)
    (use assms in \<open>auto simp: round_ok_def returned_ok_def parser_ok_def failed_at_def paused_at_def\<close>)

lemma round_data:
  assumes "settings_ok s" "http_errno (parser y) = HPE_OK" "core_ok mx (p_state y) (parser y)" "er \<le> length bs"
    "\<And>m. mark_of f y = Some m \<Longrightarrow> m \<le> till \<and> till \<le> length bs"
    "mark_of f y = None \<Longrightarrow> round_ok mx bs x (k y)" "round_ok mx bs x (k (set_mark f None y))"
    "\<And>d. round_ok mx bs x (k (set_mark f None (called d y)))"
  shows "round_ok mx bs x (callback_data s f bs till er y k)"
  unfolding round_ok_def
  by (rule sat_data)
    (use assms in \<open>auto simp: round_ok_def returned_ok_def parser_ok_def failed_at_def paused_at_def\<close>)

lemma round_dead:
  assumes "inv 1 mx x" "pos x < length bs" "p_state x = s_dead"
  shows "round_ok mx bs x (step_dead ch x)"
  using assms by (simp add: step_dead_def) (simp add: round_ok_def round_defs)

lemmas round_simps = macro_defs round_ok_def round_defs in_url_def Let_def

lemma round_start_req_or_res:
  assumes "inv 1 mx x" "pos x < length bs" "p_state x = s_start_req_or_res" "settings_ok s"
  shows "round_ok mx bs x (step_start_req_or_res s ch x)"
  using assms settings_okD [OF assms(4)]
  by (auto simp: step_start_req_or_res_def CALLBACK_NOTIFY_def Let_def fresh_message_def intro!: round_notify)
     (auto simp: round_simps split: option.splits)

lemma round_res_or_resp_H:
  assumes "inv 1 mx x" "pos x < length bs" "p_state x = s_res_or_resp_H"
  shows "round_ok mx bs x (step_res_or_resp_H ch x)"
  using assms by (simp add: step_res_or_resp_H_def) (auto simp: round_simps split: option.splits)

lemma round_start_res:
  assumes "inv 1 mx x" "pos x < length bs" "p_state x = s_start_res" "settings_ok s"
  shows "round_ok mx bs x (step_start_res s ch x)"
  using assms settings_okD [OF assms(4)]
  by (auto simp: step_start_res_def CALLBACK_NOTIFY_def Let_def fresh_message_def intro!: round_notify)
     (auto simp: round_simps split: option.splits)

lemma round_res_status_code:
  assumes "inv 1 mx x" "pos x < length bs" "p_state x = s_res_status_code"
  shows "round_ok mx bs x (step_res_status_code ch x)"
  using assms by (simp add: step_res_status_code_def Let_def upd_def) (auto simp: round_simps split: option.splits)

lemma finish_header_simps [simp]:
  "http_errno (finish_header q) = http_errno q" "nread (finish_header q) = nread q"
  "header_state (finish_header q) = header_state q" "content_length (finish_header q) = content_length q"
  by (cases "header_state q"; simp add: finish_header_def set_flag_def)+

lemma round_simple:
  assumes "inv 1 mx x" "pos x < length bs"
  shows "p_state x = s_res_http_major \<Longrightarrow> round_ok mx bs x (step_http_major s_res_http_dot ch x)"
    "p_state x = s_req_http_major \<Longrightarrow> round_ok mx bs x (step_http_major s_req_http_dot ch x)"
    "p_state x = s_res_http_minor \<Longrightarrow> round_ok mx bs x (step_http_minor s_res_http_end ch x)"
    "p_state x = s_req_http_minor \<Longrightarrow> round_ok mx bs x (step_http_minor s_req_http_end ch x)"
    "p_state x = s_res_http_dot \<Longrightarrow> round_ok mx bs x (step_http_dot s_res_http_minor ch x)"
    "p_state x = s_req_http_dot \<Longrightarrow> round_ok mx bs x (step_http_dot s_req_http_minor ch x)"
    "p_state x = s_res_http_end \<Longrightarrow> round_ok mx bs x (step_res_http_end ch x)"
    "p_state x = s_res_first_status_code \<Longrightarrow> round_ok mx bs x (step_res_first_status_code ch x)"
    "p_state x = s_res_status_start \<Longrightarrow> round_ok mx bs x (step_res_status_start ch x)"
    "p_state x = s_req_http_start \<Longrightarrow> round_ok mx bs x (step_req_http_start ch x)"
    "p_state x = s_req_http_end \<Longrightarrow> round_ok mx bs x (step_req_http_end ch x)"
    "p_state x = s_req_line_almost_done \<Longrightarrow> round_ok mx bs x (step_req_line_almost_done ch x)"
    "p_state x = s_header_almost_done \<Longrightarrow> round_ok mx bs x (step_header_almost_done ch x)"
    "p_state x = s_header_value_lws \<Longrightarrow> round_ok mx bs x (step_header_value_lws ch x)"
  using assms
  by (simp_all add: step_http_major_def step_http_minor_def step_http_dot_def step_res_http_end_def
      step_res_first_status_code_def step_res_status_start_def step_req_http_start_def step_req_http_end_def
      step_req_line_almost_done_def step_header_almost_done_def step_header_value_lws_def Let_def upd_def)
    (auto simp: round_simps set_hs_def)

lemma round_res_status:
  assumes "inv 1 mx x" "pos x < length bs" "p_state x = s_res_status" "settings_ok s"
  shows "round_ok mx bs x (step_res_status s bs ch x)"
  using assms
  by (auto simp: step_res_status_def CALLBACK_DATA_def Let_def inv_def marks_ok_def UPDATE_STATE_def intro!: round_data)
    (auto simp: round_simps)

lemma method_string_pos [simp]: "Suc 0 \<le> length (method_string m)"
  by (cases m; simp)

lemma round_start_req:
  assumes "inv 1 mx x" "pos x < length bs" "p_state x = s_start_req" "settings_ok s"
  shows "round_ok mx bs x (step_start_req s ch x)"
  using assms settings_okD [OF assms(4)]
  by (auto simp: step_start_req_def CALLBACK_NOTIFY_def Let_def fresh_message_def intro!: round_notify split: option.splits)
     (auto simp: round_simps)

text \<open>The matcher of the method stays inside the string it compares with.\<close>

lemma method_switch_index: "list_all (\<lambda>(m, i, c, n). i < length (method_string n)) method_switch"
  by (simp add: method_switch_def)

lemma switch_method_index: "switch_method m i ch = Some n \<Longrightarrow> i < length (method_string n)"
  using method_switch_index unfolding switch_method_def list_all_iff
  by (force simp: find_Some_iff in_set_conv_nth)

lemma round_req_method:
  assumes "inv 1 mx x" "pos x < length bs" "p_state x = s_req_method"
  shows "round_ok mx bs x (step_req_method ch x)"
proof -
  let ?m = "meth (parser x)" and ?i = "index (parser x)"
  have len: "length (method_string m) < 127" for m by (cases m; simp)
  have i: "unat ?i \<le> length (method_string ?m)" using assms by (simp add: inv_def core_ok_def)
  have suc: "unat (?i + 1) = unat ?i + 1"
    using i len [of ?m] by (intro unat_plus_1) simp
  note base = assms(1) [unfolded round_defs] assms(2,3)
  have go: "round_ok mx bs x (Break (upd (\<lambda>q. q\<lparr>index := index q + 1\<rparr>) (upd (\<lambda>q. q\<lparr>meth := n\<rparr>) x)))"
    if "unat ?i < length (method_string n)" for n
    using base that by (simp add: round_ok_def round_defs upd_def suc)
  have same: "round_ok mx bs x (Break (upd (\<lambda>q. q\<lparr>index := index q + 1\<rparr>) x))"
    if "unat ?i < length (method_string ?m)"
    using base that by (simp add: round_ok_def round_defs upd_def suc)
  have fin: "round_ok mx bs x (Break (upd (\<lambda>q. q\<lparr>index := index q + 1\<rparr>) (UPDATE_STATE s_req_spaces_before_url x)))"
    using base by (simp add: round_ok_def round_defs upd_def UPDATE_STATE_def in_url_def)
  show ?thesis
  proof (cases "c_at (cstr (method_string ?m)) (unat ?i)")
    case None
    with i show ?thesis by (simp add: c_at_def split: if_splits)
  next
    case (Some c)
    then have c: "c \<noteq> 0 \<Longrightarrow> unat ?i < length (method_string ?m)" by (auto simp: c_at_def split: if_splits)
    show ?thesis
    proof (cases "switch_method ?m (unat ?i) ch")
      case None
      with Some c assms(2) show ?thesis by (auto simp: step_req_method_def Let_def intro: same fin)
    next
      case n: (Some n)
      from switch_method_index [OF n] n Some c assms(2) show ?thesis
        by (auto simp: step_req_method_def Let_def intro: same fin go)
    qed
  qed
qed

section \<open>Rounds of the URL\<close>

lemma url_result: "parse_url_char st ch = s_dead \<or> in_url (parse_url_char st ch)"
  unfolding parse_url_char_def server_char_def query_char_def
  by (cases st) (auto simp: in_url_def)

lemma core_ok_url: "in_url st \<Longrightarrow> core_ok mx st q \<longleftrightarrow> nread q \<le> mx"
  by (auto simp: in_url_def core_ok_def)

lemma in_url_neq: "in_url st \<Longrightarrow> st \<noteq> s_chunk_size_start"
  by (auto simp: in_url_def)

lemma round_url_step:
  assumes "http_errno (parser y) = HPE_OK" "p_nread y \<le> mx" "nread (parser y) \<le> mx" "pos y = pos x"
    "pos x < length bs" "header_field_mark y = None" "header_value_mark y = None" "body_mark y = None"
    "status_mark y = None" "\<And>m. url_mark y = Some m \<Longrightarrow> m \<le> pos x"
  shows "round_ok mx bs x (url_step ch y)"
proof (cases "parse_url_char (p_state y) ch = s_dead")
  case True
  with assms show ?thesis by (simp add: url_step_def UPDATE_STATE_def)
next
  case False
  with url_result have u: "in_url (parse_url_char (p_state y) ch)" by blast
  from in_url_neq [OF u] u assms False show ?thesis
    by (simp add: core_ok_url [OF u] url_step_def UPDATE_STATE_def round_ok_def inv_def marks_ok_def)
qed

lemma round_req_spaces_before_url:
  assumes "inv 1 mx x" "pos x < length bs" "p_state x = s_req_spaces_before_url"
  shows "round_ok mx bs x (step_req_spaces_before_url ch x)"
  using assms
  by (auto simp: step_req_spaces_before_url_def Let_def intro!: round_url_step)
    (auto simp: round_simps)

lemma round_req_schema:
  assumes "inv 1 mx x" "pos x < length bs" "in_url (p_state x)"
  shows "round_ok mx bs x (step_req_schema ch x)"
  using assms
  by (auto simp: step_req_schema_def intro!: round_url_step)
    (auto simp: inv_def marks_ok_def core_ok_url in_url_def)

lemma round_req_url:
  assumes "inv 1 mx x" "pos x < length bs" "in_url (p_state x)" "settings_ok s"
  shows "round_ok mx bs x (step_req_url s bs ch x)"
proof -
  have x: "http_errno (parser x) = HPE_OK" "p_nread x \<le> mx" "nread (parser x) \<le> mx"
    "header_field_mark x = None" "header_value_mark x = None" "body_mark x = None" "status_mark x = None"
    "\<And>m. url_mark x = Some m \<Longrightarrow> m \<le> pos x"
    using assms(1,3) by (auto simp: inv_def marks_ok_def core_ok_url in_url_def)
  show ?thesis using x assms(2,4)
    by (auto simp: step_req_url_def CALLBACK_DATA_def UPDATE_STATE_def upd_def intro!: round_url_step round_data)
      (simp_all add: round_simps)
qed

section \<open>Rounds of the headers\<close>

lemma round_header_field_start:
  assumes "inv 1 mx x" "pos x < length bs" "p_state x = s_header_field_start"
  shows "round_ok mx bs x (step_header_field_start ch x)"
  using assms by (simp add: step_header_field_start_def Let_def)
    (auto simp: round_simps header_state_of_def name_state_def)

lemma value_start_ok:
  assumes "value_start ch q = Inr q'"
  shows "value_state (header_state q') \<and> http_errno q' = http_errno q \<and> nread q' = nread q"
  using assms by (cases "header_state q")
    (auto simp: value_start_def value_state_def set_hs_def set_flag_def Let_def split: if_splits)

lemma value_start_err:
  assumes "value_start ch q = Inl e"
  shows "e \<noteq> HPE_OK \<and> e \<noteq> HPE_PAUSED"
  using assms by (cases "header_state q")
    (auto simp: value_start_def Let_def split: if_splits)

lemma round_header_value_start:
  assumes "http_errno (parser x) = HPE_OK" "p_nread x \<le> mx" "nread (parser x) \<le> mx" "pos x < length bs"
    "header_field_mark x = None" "header_value_mark x = None" "body_mark x = None" "status_mark x = None" "url_mark x = None"
  shows "round_ok mx bs x (step_header_value_start ch x)"
proof -
  let ?q = "(parser x)\<lparr>index := 0\<rparr>"
  show ?thesis
  proof (cases "value_start ch ?q")
    case (Inl e)
    from value_start_err [OF Inl] Inl assms show ?thesis
      by (simp add: step_header_value_start_def Let_def upd_def UPDATE_STATE_def MARK_def)
  next
    case (Inr q)
    from value_start_ok [OF Inr] Inr assms show ?thesis
      by (simp add: step_header_value_start_def Let_def upd_def UPDATE_STATE_def MARK_def
          round_ok_def inv_def core_ok_def marks_ok_def)
  qed
qed

lemma round_header_value_discard_ws:
  assumes "inv 1 mx x" "pos x < length bs" "p_state x = s_header_value_discard_ws"
  shows "round_ok mx bs x (step_header_value_discard_ws ch x)"
  using assms
  by (auto simp: step_header_value_discard_ws_def intro!: round_header_value_start) (auto simp: round_simps)

text \<open>The inner loops touch nothing but the fields of the header matcher, and stay in the buffer.\<close>

definition same_parser :: "'d http_parser \<Rightarrow> 'd http_parser \<Rightarrow> bool" where
  "same_parser q q' \<longleftrightarrow> http_errno q' = http_errno q \<and> nread q' = nread q"

lemma name_states [simp]:
  "name_state h_general" "name_state h_C" "name_state h_CO" "name_state h_CON" "name_state h_U"
  "name_state h_matching_connection" "name_state h_matching_proxy_connection"
  "name_state h_matching_content_length" "name_state h_matching_transfer_encoding"
  "name_state h_matching_upgrade" "name_state h_matching_user_agent" "name_state h_matching_host"
  "name_state h_matching_content_type" "name_state h_matching_referer"
  "name_state h_matching_server" "name_state h_matching_cookie"
  "name_state h_matching_content_dash" "name_state h_connection" "name_state h_content_length"
  "name_state h_transfer_encoding" "name_state h_upgrade"
  "\<not> name_state h_content_length_num" "\<not> name_state h_content_length_ws"
  "\<not> name_state h_matching_transfer_encoding_chunked"
  "\<not> name_state h_matching_connection_token_start"
  "\<not> name_state h_matching_connection_keep_alive"
  "\<not> name_state h_matching_connection_close"
  "\<not> name_state h_matching_connection_upgrade"
  "\<not> name_state h_matching_connection_token" "\<not> name_state h_transfer_encoding_chunked"
  "\<not> name_state h_connection_keep_alive" "\<not> name_state h_connection_close"
  "\<not> name_state h_connection_upgrade"
  by (simp_all add: name_state_def)

lemma matcher_simps [simp]:
  "header_state (set_hs h q) = h" "header_state (anchor i q) = header_state q" "header_state (bump q) = header_state q"
  "same_parser q (set_hs h r) = same_parser q r" "same_parser q (anchor i r) = same_parser q r"
  "same_parser q (bump r) = same_parser q r" "same_parser (bump q) r = same_parser q r" "same_parser q q"
  by (simp_all add: set_hs_def anchor_def bump_def same_parser_def)

lemma same_parser_trans: "same_parser q r \<Longrightarrow> same_parser r t \<Longrightarrow> same_parser q t"
  by (simp add: same_parser_def)

lemma general_skip_less: "p < n \<Longrightarrow> pe \<le> n \<Longrightarrow> general_skip bs pe p < n"
  by (induction bs pe p rule: general_skip.induct) (subst general_skip.simps, auto)

lemma scan_limit_le: "p \<le> length bs \<Longrightarrow> scan_limit mx bs p \<le> length bs"
  by (simp add: scan_limit_def)

lemma match_name_ok:
  assumes "name_state (header_state q)" "name_state (header_state (hit (bump q)))" "same_parser (bump q) (hit (bump q))"
  shows "name_state (header_state (match_name name c hit q)) \<and> same_parser q (match_name name c hit q)"
  using assms by (auto simp: match_name_def Let_def)

lemma field_char_ok:
  assumes "name_state (header_state q)" "p < length bs"
  obtains p' q' where "field_char mx bs p ch c q = Some (p', q')" "p' < length bs"
    "name_state (header_state q')" "same_parser q q'"
proof -
  have m: "name_state (header_state (match_name name c hit q)) \<and> same_parser q (match_name name c hit q)"
    if "name_state (header_state (hit (bump q)))" "same_parser (bump q) (hit (bump q))" for name hit
    by (rule match_name_ok) (use assms(1) that in simp_all)
  have "\<exists>p' q'. field_char mx bs p ch c q = Some (p', q') \<and> p' < length bs \<and>
    name_state (header_state q') \<and> same_parser q q'"
    using assms general_skip_less [OF assms(2), of "scan_limit mx bs p" bs] scan_limit_le [of p bs mx]
    by (cases "header_state q") (simp_all add: field_char_def m)
  with that show ?thesis by blast
qed

lemma field_loop_ok:
  assumes "name_state (header_state q)" "p \<le> length bs"
  shows "\<exists>p' q'. field_loop mx bs p q = Some (p', q') \<and> p \<le> p' \<and> p' \<le> length bs \<and>
    name_state (header_state q') \<and> same_parser q q'"
  using assms
proof (induction mx bs p q rule: field_loop.induct)
  case (1 mx bs p q)
  show ?case
  proof (cases "length bs \<le> p \<or> TOKEN (bs ! p) = 0")
    case True
    with "1.prems" show ?thesis by (auto simp: field_loop.simps [of mx bs p q] Let_def)
  next
    case False
    then have p: "\<not> length bs \<le> p" "TOKEN (bs ! p) \<noteq> 0" by auto
    then obtain p1 q1 where c: "field_char mx bs p (bs ! p) (TOKEN (bs ! p)) q = Some (p1, q1)" "p1 < length bs"
        "name_state (header_state q1)" "same_parser q q1"
      using field_char_ok [OF "1.prems"(1), of p bs mx "bs ! p" "TOKEN (bs ! p)"] by auto
    from "1.IH" [OF p(1) refl refl p(2) c(1) refl c(3)] c(2) obtain p' q' where
      l: "field_loop mx bs (Suc p1) q1 = Some (p', q')" "Suc p1 \<le> p'" "p' \<le> length bs"
        "name_state (header_state q')" "same_parser q1 q'" by auto
    with field_char_ge [OF c(1)] p c same_parser_trans [OF c(4) l(5)] show ?thesis
      by (simp add: field_loop.simps [of mx bs p q] Let_def)
  qed
qed

lemma round_header_field:
  assumes "inv 1 mx x" "pos x < length bs" "p_state x = s_header_field" "settings_ok s"
  shows "round_ok mx bs x (step_header_field mx s bs x)"
proof -
  have x: "http_errno (parser x) = HPE_OK" "p_nread x \<le> mx" "nread (parser x) \<le> mx"
    "name_state (header_state (parser x))" "header_value_mark x = None" "url_mark x = None"
    "body_mark x = None" "status_mark x = None" "\<And>m. header_field_mark x = Some m \<Longrightarrow> m \<le> pos x"
    using assms(1,3) by (auto simp: inv_def marks_ok_def core_ok_def in_url_def)
  from field_loop_ok [OF x(4), of "pos x" bs mx] assms(2) obtain p q where
    l: "field_loop mx bs (pos x) (parser x) = Some (p, q)" "pos x \<le> p" "p \<le> length bs"
      "name_state (header_state q)" "same_parser (parser x) q" by auto
  show ?thesis
  proof (cases "length bs \<le> p")
    case True
    with l x assms(2,3) show ?thesis
      by (auto simp: step_header_field_def Let_def COUNT_HEADER_SIZE_def)
        (auto simp: round_ok_def inv_def core_ok_def marks_ok_def same_parser_def)
  next
    case False
    with l x assms(2,3,4) show ?thesis
      by (auto simp: step_header_field_def Let_def COUNT_HEADER_SIZE_def CALLBACK_DATA_def UPDATE_STATE_def
          same_parser_def intro!: round_data)
        (auto simp: round_ok_def inv_def core_ok_def marks_ok_def called_def)
  qed
qed

subsection \<open>Values\<close>

lemma general_value_le: "p \<le> pe \<Longrightarrow> general_value loose bs pe p = Inr p' \<Longrightarrow> p' \<le> pe"
  by (induction loose bs pe p rule: general_value.induct)
    (subst (asm) (2) general_value.simps, auto simp: Let_def split: if_splits)

lemma general_value_bad: "general_value loose bs pe p = Inl p' \<Longrightarrow> p' < pe"
  by (induction loose bs pe p rule: general_value.induct)
    (subst (asm) (2) general_value.simps, auto simp: Let_def split: if_splits)

fun value_round_ok :: "bytes \<Rightarrow> 'd http_parser \<Rightarrow> 'd value_round \<Rightarrow> bool" where
  "value_round_ok bs q (VNext p h q') \<longleftrightarrow> p < length bs \<and> value_state h \<and> same_parser q q'"
| "value_round_ok bs q (VFail e p q') \<longleftrightarrow>
    p < length bs \<and> e \<noteq> HPE_OK \<and> e \<noteq> HPE_PAUSED \<and> same_parser q q'"
| "value_round_ok bs q VAssert \<longleftrightarrow> False"

lemma value_round_if [simp]:
  "value_round_ok bs q (if c then r else r') \<longleftrightarrow> (if c then value_round_ok bs q r else value_round_ok bs q r')"
  by simp

lemma value_states [simp]:
  "value_state h_general" "value_state h_content_length" "value_state h_content_length_num"
  "value_state h_content_length_ws" "value_state h_transfer_encoding_chunked"
  "value_state h_matching_connection_token_start" "value_state h_matching_connection_token"
  "value_state h_connection_keep_alive" "value_state h_connection_close" "value_state h_connection_upgrade"
  "value_state h_matching_connection_keep_alive" "value_state h_matching_connection_close"
  "value_state h_matching_connection_upgrade" "value_state h_matching_transfer_encoding_chunked"
  "\<not> value_state h_connection" "\<not> value_state h_transfer_encoding"
  by (simp_all add: value_state_def)

lemma same_parser_set [simp]: "same_parser q (set_flag f r) = same_parser q r"
  "same_parser q (r\<lparr>index := i\<rparr>) = same_parser q r" "same_parser q (r\<lparr>content_length := n\<rparr>) = same_parser q r"
  by (simp_all add: same_parser_def set_flag_def)

lemma value_char_ok:
  assumes "value_state h" "p < length bs"
  shows "value_round_ok bs q (value_char loose mx bs p ch h q)"
proof (cases "h = h_general")
  case True
  have lim: "p \<le> scan_limit mx bs p" "scan_limit mx bs p \<le> length bs"
    using assms(2) by (auto simp: scan_limit_def)
  show ?thesis
  proof (cases "general_value loose bs (scan_limit mx bs p) p")
    case (Inl p')
    from general_value_bad [OF Inl] lim Inl True show ?thesis by (simp add: value_char_def)
  next
    case (Inr p')
    from general_value_le [OF lim(1) Inr] lim Inr True assms(2) show ?thesis
      by (auto simp: value_char_def)
  qed
next
  case False
  have m: "value_round_ok bs q (case match_value name c miss hit g q of (h, q) \<Rightarrow> VNext p h q)"
    if "value_state miss" "value_state hit" "value_state g" for name c miss hit g
    using that assms by (auto simp: match_value_def Let_def)
  have d: "value_round_ok bs q (content_length_digit ch p q)"
    using assms(2) by (simp add: content_length_digit_def)
  have t: "value_round_ok bs q (token_end f ch p g q)" if "value_state g" for f g
    using that assms by (simp add: token_end_def)
  have k: "value_state (token_start c)" for c by (simp add: token_start_def)
  from False assms show ?thesis
    by (cases h) (simp_all add: value_char_def Let_def m d t k)
qed

fun value_end_ok :: "bytes \<Rightarrow> nat \<Rightarrow> 'd http_parser \<Rightarrow> 'd value_end \<Rightarrow> bool" where
  "value_end_ok bs p q (VEnd p' h q') \<longleftrightarrow> p \<le> p' \<and> p' = length bs \<and> value_state h \<and> same_parser q q'"
| "value_end_ok bs p q (VCr p' h q') \<longleftrightarrow> p \<le> p' \<and> p' < length bs \<and> value_state h \<and> same_parser q q'"
| "value_end_ok bs p q (VLf p' h q') \<longleftrightarrow> p \<le> p' \<and> p' < length bs \<and> value_state h \<and> same_parser q q'"
| "value_end_ok bs p q (VFailed e p' q') \<longleftrightarrow> p' < length bs \<and> e \<noteq> HPE_OK \<and> e \<noteq> HPE_PAUSED"
| "value_end_ok bs p q VAsserted \<longleftrightarrow> False"

lemma value_end_mono: "value_end_ok bs p1 q1 r \<Longrightarrow> p \<le> p1 \<Longrightarrow> same_parser q q1 \<Longrightarrow> value_end_ok bs p q r"
  by (cases r) (auto elim: same_parser_trans)

lemma value_loop_ok:
  assumes "value_state h" "p \<le> length bs"
  shows "value_end_ok bs p q (value_loop loose mx bs p h q)"
  using assms
proof (induction loose mx bs p h q rule: value_loop.induct)
  case (1 loose mx bs p h q)
  note unfold = value_loop.simps [of loose mx bs p h q]
  let ?ch = "bs ! p"
  show ?case
  proof (cases "length bs \<le> p \<or> ?ch = CR \<or> ?ch = LF \<or> \<not> loose \<and> \<not> IS_HEADER_CHAR ?ch")
    case True
    with "1.prems" show ?thesis by (auto simp: unfold Let_def)
  next
    case False
    then have p: "\<not> length bs \<le> p" "?ch \<noteq> CR" "?ch \<noteq> LF" "\<not> (\<not> loose \<and> \<not> IS_HEADER_CHAR ?ch)" by auto
    have ok: "value_round_ok bs q (value_char loose mx bs p ?ch h q)"
      using "1.prems"(1) p(1) by (intro value_char_ok) simp_all
    show ?thesis
    proof (cases "value_char loose mx bs p ?ch h q")
      case (VNext p1 h1 q1)
      with ok have 1: "p1 < length bs" "value_state h1" "same_parser q q1" by simp_all
      from "1.IH" [OF p(1) refl p(2-4) VNext 1(2)] 1(1) have
        "value_end_ok bs (Suc p1) q1 (value_loop loose mx bs (Suc p1) h1 q1)" by simp
      moreover have "p \<le> Suc p1" using value_char_ge [OF VNext] p by fastforce
      ultimately have "value_end_ok bs p q (value_loop loose mx bs (Suc p1) h1 q1)"
        using 1(3) by (rule value_end_mono)
      with VNext p show ?thesis by (simp add: unfold Let_def)
    next
      case (VFail e p1 q1)
      with ok p show ?thesis by (simp add: unfold Let_def)
    next
      case VAssert
      with ok show ?thesis by simp
    qed
  qed
qed

lemma round_header_value:
  assumes "inv 1 mx x" "pos x < length bs" "p_state x = s_header_value" "settings_ok s"
  shows "round_ok mx bs x (step_header_value mx s bs x)"
proof -
  have x: "http_errno (parser x) = HPE_OK" "p_nread x \<le> mx" "nread (parser x) \<le> mx"
    "value_state (header_state (parser x))" "header_field_mark x = None" "url_mark x = None"
    "body_mark x = None" "status_mark x = None" "\<And>m. header_value_mark x = Some m \<Longrightarrow> m \<le> pos x"
    using assms(1,3) by (auto simp: inv_def marks_ok_def core_ok_def in_url_def)
  let ?r = "value_loop (lenient x) mx bs (pos x) (header_state (parser x)) (parser x)"
  have r: "value_end_ok bs (pos x) (parser x) ?r" using x(4) assms(2) by (intro value_loop_ok) simp_all
  show ?thesis
  proof (cases ?r)
    case (VEnd p h q)
    with r x assms(2,3) show ?thesis
      by (auto simp: step_header_value_def Let_def COUNT_HEADER_SIZE_def)
        (auto simp: round_ok_def inv_def core_ok_def marks_ok_def same_parser_def set_hs_def)
  next
    case (VCr p h q)
    with r x assms(2,3,4) show ?thesis
      by (auto simp: step_header_value_def Let_def COUNT_HEADER_SIZE_def CALLBACK_DATA_def UPDATE_STATE_def
          same_parser_def intro!: round_data)
        (auto simp: round_ok_def inv_def core_ok_def marks_ok_def called_def set_hs_def upd_def fail_def SET_ERRNO_def)
  next
    case (VLf p h q)
    with r x assms(2,3,4) show ?thesis
      by (auto simp: step_header_value_def Let_def COUNT_HEADER_SIZE_def CALLBACK_DATA_NOADVANCE_def UPDATE_STATE_def
          same_parser_def intro!: round_data)
        (auto simp: round_ok_def inv_def core_ok_def marks_ok_def called_def set_hs_def upd_def rank_def fail_def SET_ERRNO_def)
  next
    case (VFailed e p q)
    with r show ?thesis by (simp add: step_header_value_def Let_def)
  next
    case VAsserted
    with r show ?thesis by simp
  qed
qed

lemma round_header_value_discard_lws:
  assumes "inv 1 mx x" "pos x < length bs" "p_state x = s_header_value_discard_lws" "settings_ok s"
  shows "round_ok mx bs x (step_header_value_discard_lws s bs ch x)"
  using assms
  by (auto simp: step_header_value_discard_lws_def CALLBACK_DATA_NOADVANCE_def UPDATE_STATE_def upd_def MARK_def
      inv_def core_ok_def marks_ok_def in_url_def intro!: round_data)
    (auto simp: round_simps)

section \<open>Rounds of the body\<close>

lemma round_headers_complete:
  assumes "cb_ok (on_headers_complete s)" "http_errno (parser y) = HPE_OK" "core_ok mx s_headers_done (parser y)"
    "p_state y = s_headers_done" "pos y = pos x" "pos x < length bs" "p_nread y \<le> mx" "marks_ok y"
    "rank (p_state y) < rank (p_state x)"
  shows "round_ok mx bs x (headers_complete s y Reexecute)"
proof (cases "on_headers_complete s")
  case None
  with assms show ?thesis by (simp add: headers_complete_def round_ok_def inv_def)
next
  case (Some f)
  obtain r q where f: "f (parser y) = (r, q)" by fastforce
  with assms(1) Some have "keeps (parser y) q" unfolding cb_ok_def by (metis snd_conv)
  with assms(2) obtain d e where q: "q = (parser y)\<lparr>data := d, http_errno := e\<rparr>" "e = HPE_OK \<or> e = HPE_PAUSED"
    unfolding keeps_def by auto
  from q(2) assms Some show ?thesis
    by (auto simp: headers_complete_def f q(1) Let_def upd_def set_flag_def SET_ERRNO_def RETURN_def round_ok_def
        inv_def core_ok_def returned_ok_def parser_ok_def marks_ok_def)
qed

lemma set_upgrade_simps [simp]:
  "http_errno (set_upgrade q) = http_errno q" "nread (set_upgrade q) = nread q"
  by (simp_all add: set_upgrade_def)

lemma round_headers_almost_done:
  assumes "inv 1 mx x" "pos x < length bs" "p_state x = s_headers_almost_done" "settings_ok s"
  shows "round_ok mx bs x (step_headers_almost_done s ch x)"
  using assms settings_okD [OF assms(4)]
  by (auto simp: step_headers_almost_done_def STRICT_CHECK_def CALLBACK_NOTIFY_NOADVANCE_def UPDATE_STATE_def upd_def
      inv_def core_ok_def marks_ok_def in_url_def rank_def intro!: round_notify round_headers_complete)
    (auto simp: round_simps)

lemma NEW_MESSAGE_cases: "NEW_MESSAGE q = s_dead \<or> NEW_MESSAGE q = s_start_req \<or> NEW_MESSAGE q = s_start_res"
  by (simp add: NEW_MESSAGE_def start_state_def)

lemma core_ok_new_message: "core_ok mx (NEW_MESSAGE q) r \<longleftrightarrow> nread r \<le> mx"
  using NEW_MESSAGE_cases [of q] by (auto simp: core_ok_def)

lemma NEW_MESSAGE_neq: "NEW_MESSAGE q \<noteq> s_chunk_size_start"
  using NEW_MESSAGE_cases [of q] by auto

text \<open>No mark is set.\<close>

definition unmarked :: "'d exec \<Rightarrow> bool" where
  "unmarked x \<longleftrightarrow> header_field_mark x = None \<and> header_value_mark x = None \<and> url_mark x = None \<and>
    body_mark x = None \<and> status_mark x = None"

lemma unmarked_ok: "unmarked x \<Longrightarrow> marks_ok x"
  by (simp add: unmarked_def marks_ok_def)

lemma round_message_complete:
  assumes "settings_ok s" "http_errno (parser y) = HPE_OK" "nread (parser y) \<le> mx" "pos y < length bs"
    "\<And>z. http_errno (parser z) = HPE_OK \<Longrightarrow> nread (parser z) = nread (parser y) \<Longrightarrow> p_nread z = p_nread y \<Longrightarrow>
       pos z = pos y \<Longrightarrow> unmarked z = unmarked y \<Longrightarrow> upgrade (parser z) = upgrade (parser y) \<Longrightarrow>
       p_state z = NEW_MESSAGE (parser y) \<Longrightarrow> round_ok mx bs x (k z)"
  shows "round_ok mx bs x (message_complete s y k)"
  unfolding message_complete_def CALLBACK_NOTIFY_def
  by (rule round_notify) (use assms settings_okD [OF assms(1)] in
    \<open>auto simp: new_message_def UPDATE_STATE_def core_ok_new_message parser_called called_def unmarked_def\<close>)

lemma round_new_message:
  assumes "http_errno (parser z) = HPE_OK" "nread (parser z) \<le> mx" "p_nread z \<le> mx" "unmarked z"
    "p_state z = NEW_MESSAGE q" "pos x \<le> pos z" "pos z < length bs"
  shows "round_ok mx bs x (Break z)"
  using assms NEW_MESSAGE_neq [of q]
  by (simp add: round_ok_def inv_def core_ok_new_message unmarked_ok)

lemma round_return_upgrade:
  assumes "upgrade (parser z)" "nread (parser z) \<le> mx" "p_nread z \<le> mx" "p_state z = NEW_MESSAGE q" "v \<le> length bs"
  shows "round_ok mx bs x (RETURN v z)"
  using assms NEW_MESSAGE_cases [of q]
  by (auto simp: RETURN_def round_ok_def returned_ok_def parser_ok_def core_ok_def)

lemma round_headers_done:
  assumes "inv 1 mx x" "pos x < length bs" "p_state x = s_headers_done" "settings_ok s"
  shows "round_ok mx bs x (step_headers_done s ch x)"
proof -
  have x: "http_errno (parser x) = HPE_OK" "unmarked x"
    using assms(1,3) by (auto simp: inv_def marks_ok_def unmarked_def in_url_def)
  let ?y = "reset_nread x"
  have y: "http_errno (parser ?y) = HPE_OK" "nread (parser ?y) = 0" "p_nread ?y = 0" "unmarked ?y" "pos ?y = pos x"
    using x by (simp_all add: reset_nread_def upd_def unmarked_def)
  have m: "round_ok mx bs x (message_complete s ?y Break)"
    using x y assms(2,4) by (intro round_message_complete) (auto intro!: round_new_message)
  have u: "round_ok mx bs x (message_complete s ?y (\<lambda>x. RETURN (pos x + 1) x))" if "upgrade (parser ?y)"
    using x y assms(2,4) that
    by (intro round_message_complete) (auto intro!: round_return_upgrade)
  have g: "round_ok mx bs x (goto st ?y)"
    if "core_ok mx st (parser ?y)" for st
    using x y assms(2) that by (auto simp: goto_def UPDATE_STATE_def round_ok_def inv_def unmarked_ok unmarked_def marks_ok_def)
  have "round_ok mx bs x (goto s_chunk_size_start ?y)" if "has_flag F_CHUNKED (parser ?y)"
    using that y by (intro g) (simp add: core_ok_def)
  moreover have "round_ok mx bs x (goto s_body_identity ?y)"
    if "content_length (parser ?y) \<noteq> 0" "content_length (parser ?y) \<noteq> ULLONG_MAX"
    using that y by (intro g) (simp add: core_ok_def)
  moreover have "round_ok mx bs x (goto s_body_identity_eof ?y)"
    using y by (intro g) (simp add: core_ok_def)
  ultimately show ?thesis
    using m u assms(2) by (simp add: step_headers_done_def STRICT_CHECK_def Let_def)
qed

lemma round_message_done:
  assumes "inv 1 mx x" "pos x < length bs" "p_state x = s_message_done" "settings_ok s"
  shows "round_ok mx bs x (step_message_done s x)"
proof -
  have x: "http_errno (parser x) = HPE_OK" "unmarked x" "p_nread x \<le> mx" "nread (parser x) \<le> mx"
    using assms(1,3) by (auto simp: inv_def marks_ok_def unmarked_def in_url_def core_ok_def)
  then show ?thesis using assms(2,4) unfolding step_message_done_def
    by (intro round_message_complete) (auto intro!: round_new_message round_return_upgrade)
qed

text \<open>A body never takes more than the buffer holds, and at least a byte.\<close>

lemma to_read_bounds:
  assumes "length bs < 18446744073709551616" "pos x < length bs" "content_length (parser x) \<noteq> 0"
  shows "0 < unat (to_read bs x)" "unat (to_read bs x) \<le> length bs - pos x"
    "to_read bs x \<le> content_length (parser x)"
proof -
  have n: "unat (of_nat (length bs - pos x) :: u64) = length bs - pos x"
    using assms(1) by (simp add: unat_of_nat take_bit_nat_eq_self)
  show "0 < unat (to_read bs x)"
    using assms(2,3) n by (auto simp: to_read_def min_def unat_gt_0 dest: arg_cong [where f = unat])
  show "unat (to_read bs x) \<le> length bs - pos x"
    using n by (auto simp: to_read_def min_def word_le_nat_alt)
  show "to_read bs x \<le> content_length (parser x)" by (simp add: to_read_def)
qed

lemma take_body_simps:
  assumes "length bs < 18446744073709551616" "pos x < length bs" "content_length (parser x) \<noteq> 0"
    "content_length (parser x) \<noteq> ULLONG_MAX"
  shows "pos x \<le> pos (take_body bs x)" "pos (take_body bs x) < length bs"
    "content_length (parser (take_body bs x)) \<noteq> ULLONG_MAX"
    "http_errno (parser (take_body bs x)) = http_errno (parser x)" "nread (parser (take_body bs x)) = nread (parser x)"
    "has_flag f (parser (take_body bs x)) = has_flag f (parser x)"
    "p_nread (take_body bs x) = p_nread x" "p_state (take_body bs x) = p_state x"
    "header_field_mark (take_body bs x) = header_field_mark x" "header_value_mark (take_body bs x) = header_value_mark x"
    "url_mark (take_body bs x) = url_mark x" "status_mark (take_body bs x) = status_mark x"
    "body_mark (take_body bs x) = Some (case body_mark x of None \<Rightarrow> pos x | Some m \<Rightarrow> m)"
proof -
  note b = to_read_bounds [OF assms(1-3)]
  show "pos x \<le> pos (take_body bs x)" "pos (take_body bs x) < length bs"
    using b assms(2) by (simp_all add: take_body_def Let_def)
  have "content_length (parser x) - to_read bs x < content_length (parser x)"
    using b by (simp add: word_less_nat_alt unat_sub word_le_nat_alt)
  then show "content_length (parser (take_body bs x)) \<noteq> ULLONG_MAX"
    by (auto simp: take_body_def Let_def upd_def MARK_def ULLONG_MAX_def)
qed (auto simp: take_body_def Let_def upd_def MARK_def has_flag_def split: option.splits)

lemma round_body_identity:
  assumes "inv 1 mx x" "pos x < length bs" "p_state x = s_body_identity" "settings_ok s"
    "length bs < 18446744073709551616"
  shows "round_ok mx bs x (step_body_identity s bs x)"
proof -
  have x: "http_errno (parser x) = HPE_OK" "p_nread x \<le> mx" "nread (parser x) \<le> mx"
    "content_length (parser x) \<noteq> 0" "content_length (parser x) \<noteq> ULLONG_MAX"
    "header_field_mark x = None" "header_value_mark x = None" "url_mark x = None" "status_mark x = None"
    "\<And>m. body_mark x = Some m \<Longrightarrow> m \<le> pos x"
    using assms(1,3) by (auto simp: inv_def marks_ok_def in_url_def core_ok_def)
  note t = take_body_simps [OF assms(5,2) x(4,5)]
  have m: "body_mark (take_body bs x) = Some m \<Longrightarrow> m \<le> pos (take_body bs x)" for m
    using t(1,13) x(10) by (fastforce split: option.splits)
  show ?thesis
    using x(1-3,6-9) t(1-12) m assms(2,3,4)
    by (auto simp: step_body_identity_def Let_def no_length_def x(4,5) UPDATE_STATE_def
        intro!: round_data intro: le_SucI)
      (auto simp: round_ok_def round_defs)
qed

lemma round_body_identity_eof:
  assumes "inv 1 mx x" "pos x < length bs" "p_state x = s_body_identity_eof"
  shows "round_ok mx bs x (step_body_identity_eof bs x)"
  using assms by (auto simp: step_body_identity_eof_def round_simps)

section \<open>Rounds of the chunks\<close>

lemma unhex_entries: "list_all (\<lambda>v. -1 \<le> v \<and> v \<le> 15) unhex"
  by (simp add: unhex_def list_all_iff)

lemma length_unhex: "length unhex = 256"
  by (simp add: unhex_def)

lemma unhex_range: "-1 \<le> unhex ! unat (ch :: u8) \<and> unhex ! unat ch \<le> 15"
proof -
  have "unat ch < length unhex" using unsigned_less [of ch] by (simp add: length_unhex)
  with unhex_entries show ?thesis by (auto simp: list_all_length)
qed

lemma unhex_word:
  assumes "unhex ! unat (ch :: u8) \<noteq> -1"
  shows "unat (word_of_int (unhex ! unat ch) :: u64) = nat (unhex ! unat ch)" "nat (unhex ! unat ch) \<le> 15"
proof -
  from unhex_range [of ch] assms have "0 \<le> unhex ! unat ch" "unhex ! unat ch \<le> 15" by auto
  then show "unat (word_of_int (unhex ! unat ch) :: u64) = nat (unhex ! unat ch)"
    by (simp add: unsigned_of_int take_bit_int_eq_self)
  show "nat (unhex ! unat ch) \<le> 15" using \<open>unhex ! unat ch \<le> 15\<close> by simp
qed

text \<open>Below the limit, one more digit does not wrap around.\<close>

lemma chunk_size_grows:
  assumes "\<not> (ULLONG_MAX - 16) div 16 < n" "unat v \<le> 15"
  shows "unat (n * 16 + v :: u64) = unat n * 16 + unat v" "unat n * 16 + unat v < 18446744073709551615"
proof -
  have "unat n \<le> 1152921504606846974"
    using assms(1) by (simp add: ULLONG_MAX_def not_less word_le_nat_alt)
  then have l: "unat n * 16 + unat v < 18446744073709551615" using assms(2) by simp
  then show "unat n * 16 + unat v < 18446744073709551615" .
  then show "unat (n * 16 + v) = unat n * 16 + unat v"
    by (simp add: unat_word_ariths)
qed

lemma not_ULLONG_MAX: "unat n < 18446744073709551615 \<Longrightarrow> n \<noteq> ULLONG_MAX"
proof
  assume "unat n < 18446744073709551615" "n = ULLONG_MAX"
  moreover have m: "ULLONG_MAX = 18446744073709551615" by (simp add: ULLONG_MAX_def)
  moreover have "unat ULLONG_MAX = 18446744073709551615" unfolding m by simp
  ultimately show False by simp
qed

lemma round_chunk_size_start:
  assumes "inv 1 mx x" "pos x < length bs" "p_state x = s_chunk_size_start"
  shows "round_ok mx bs x (step_chunk_size_start ch x)"
proof -
  let ?v = "unhex ! unat ch"
  have "(word_of_int ?v :: u64) \<noteq> ULLONG_MAX" if "?v \<noteq> -1"
    using unhex_word [OF that] by (intro not_ULLONG_MAX) simp
  with assms show ?thesis
    by (simp add: step_chunk_size_start_def inv_def core_ok_def assert_chunked_def Let_def)
      (auto simp: round_simps)
qed

lemma round_chunk_size:
  assumes "inv 1 mx x" "pos x < length bs" "p_state x = s_chunk_size"
  shows "round_ok mx bs x (step_chunk_size ch x)"
proof -
  let ?v = "unhex ! unat ch" and ?n = "content_length (parser x)"
  have "?n * 16 + word_of_int ?v \<noteq> ULLONG_MAX" if "?v \<noteq> -1" "\<not> (ULLONG_MAX - 16) div 16 < ?n"
    using chunk_size_grows [OF that(2), of "word_of_int ?v"] unhex_word [OF that(1)] by (intro not_ULLONG_MAX) simp
  with assms show ?thesis
    by (simp add: step_chunk_size_def inv_def core_ok_def assert_chunked_def Let_def)
      (auto simp: round_simps)
qed

lemma round_chunk_parameters:
  assumes "inv 1 mx x" "pos x < length bs" "p_state x = s_chunk_parameters"
  shows "round_ok mx bs x (step_chunk_parameters ch x)"
  using assms by (simp add: step_chunk_parameters_def inv_def core_ok_def assert_chunked_def) (auto simp: round_simps)

lemma round_chunk_size_almost_done:
  assumes "inv 1 mx x" "pos x < length bs" "p_state x = s_chunk_size_almost_done" "settings_ok s"
  shows "round_ok mx bs x (step_chunk_size_almost_done s ch x)"
  using assms settings_okD [OF assms(4)]
  by (auto simp: step_chunk_size_almost_done_def inv_def core_ok_def assert_chunked_def STRICT_CHECK_def Let_def
      reset_nread_def upd_def UPDATE_STATE_def CALLBACK_NOTIFY_def marks_ok_def in_url_def set_flag_def has_flag_def
      intro!: round_notify) (auto simp: round_simps)

lemma round_chunk_data:
  assumes "inv 1 mx x" "pos x < length bs" "p_state x = s_chunk_data" "length bs < 18446744073709551616"
  shows "round_ok mx bs x (step_chunk_data bs x)"
proof -
  have x: "http_errno (parser x) = HPE_OK" "p_nread x \<le> mx" "nread (parser x) \<le> mx"
    "content_length (parser x) \<noteq> 0" "content_length (parser x) \<noteq> ULLONG_MAX" "has_flag F_CHUNKED (parser x)"
    "header_field_mark x = None" "header_value_mark x = None" "url_mark x = None" "status_mark x = None"
    "\<And>m. body_mark x = Some m \<Longrightarrow> m \<le> pos x"
    using assms(1,3) by (auto simp: inv_def marks_ok_def in_url_def core_ok_def)
  note t = take_body_simps [OF assms(4,2) x(4,5)]
  have m: "body_mark (take_body bs x) = Some m \<Longrightarrow> m \<le> pos (take_body bs x)" for m
    using t(1,13) x(11) by (fastforce split: option.splits)
  show ?thesis
    using x t(1-12) m assms(2,3)
    by (auto simp: step_chunk_data_def assert_chunked_def Let_def no_length_def goto_def UPDATE_STATE_def
        round_ok_def inv_def core_ok_def marks_ok_def)
qed

lemma round_chunk_data_almost_done:
  assumes "inv 1 mx x" "pos x < length bs" "p_state x = s_chunk_data_almost_done" "settings_ok s"
  shows "round_ok mx bs x (step_chunk_data_almost_done s bs ch x)"
  using assms
  by (auto simp: step_chunk_data_almost_done_def inv_def core_ok_def assert_chunked_def STRICT_CHECK_def Let_def
      UPDATE_STATE_def CALLBACK_DATA_def marks_ok_def in_url_def intro!: round_data) (auto simp: round_simps)

lemma round_chunk_data_done:
  assumes "inv 1 mx x" "pos x < length bs" "p_state x = s_chunk_data_done" "settings_ok s"
  shows "round_ok mx bs x (step_chunk_data_done s ch x)"
  using assms settings_okD [OF assms(4)]
  by (auto simp: step_chunk_data_done_def inv_def core_ok_def assert_chunked_def STRICT_CHECK_def
      reset_nread_def upd_def UPDATE_STATE_def CALLBACK_NOTIFY_def marks_ok_def in_url_def has_flag_def
      intro!: round_notify) (auto simp: round_simps)

section \<open>All rounds\<close>

lemma inv_unmarked:
  assumes "inv k mx x" "p_state x \<noteq> s_header_field" "p_state x \<noteq> s_header_value" "\<not> in_url (p_state x)"
    "p_state x \<noteq> s_body_identity" "p_state x \<noteq> s_body_identity_eof" "p_state x \<noteq> s_chunk_data"
    "p_state x \<noteq> s_chunk_data_almost_done" "p_state x \<noteq> s_res_status"
  shows "unmarked x"
  using assms by (auto simp: inv_def marks_ok_def unmarked_def)

lemma round_expect:
  assumes "inv 1 mx x" "pos x < length bs" "core_ok mx st (parser x)" "st \<noteq> s_chunk_size_start" "unmarked x"
  shows "round_ok mx bs x (step_expect want st ch x)"
  using assms
  by (simp add: step_expect_def STRICT_CHECK_def)
    (simp add: round_ok_def inv_def unmarked_def marks_ok_def goto_def UPDATE_STATE_def)

lemma round_constants:
  assumes "inv 1 mx x" "pos x < length bs"
    "p_state x \<in> {s_res_H, s_res_HT, s_res_HTT, s_res_HTTP, s_res_line_almost_done, s_req_http_H, s_req_http_HT,
      s_req_http_HTT, s_req_http_I, s_req_http_IC, s_req_http_HTTP}"
    "st \<in> {s_res_HT, s_res_HTT, s_res_HTTP, s_res_http_major, s_header_field_start, s_req_http_HT, s_req_http_HTT,
      s_req_http_HTTP, s_req_http_IC, s_req_http_major}"
  shows "round_ok mx bs x (step_expect want st ch x)"
proof (rule round_expect [OF assms(1,2)])
  have "nread (parser x) \<le> mx" using assms(1) by (simp add: inv_def core_ok_def)
  with assms(4) show "core_ok mx st (parser x)" by (auto simp: core_ok_def)
  show "st \<noteq> s_chunk_size_start" using assms(4) by auto
  show "unmarked x" by (rule inv_unmarked [OF assms(1)]) (use assms(3) in \<open>auto simp: in_url_def\<close>)
qed

lemma round_discard_ws_almost_done:
  assumes "inv 1 mx x" "pos x < length bs" "p_state x = s_header_value_discard_ws_almost_done"
  shows "round_ok mx bs x (STRICT_CHECK c x (goto s_header_value_discard_lws))"
  using assms by (simp add: STRICT_CHECK_def) (auto simp: round_simps)

lemmas rounds = round_dead round_start_req_or_res round_res_or_resp_H round_start_res round_simple
  round_res_status_code round_res_status round_start_req round_req_method round_req_spaces_before_url
  round_req_schema round_req_url round_header_field_start round_header_field round_header_value_discard_ws
  round_header_value round_header_value_discard_lws round_headers_almost_done round_headers_done
  round_message_done round_body_identity round_body_identity_eof round_chunk_size_start round_chunk_size
  round_chunk_parameters round_chunk_size_almost_done round_chunk_data round_chunk_data_almost_done
  round_chunk_data_done round_constants round_discard_ws_almost_done

lemma round_value_start:
  assumes "inv 1 mx x" "pos x < length bs" "p_state x = s_header_value_start"
  shows "round_ok mx bs x (step_header_value_start ch x)"
  using assms by (intro round_header_value_start) (auto simp: inv_def marks_ok_def in_url_def core_ok_def)

lemma round_dispatch:
  assumes "inv 1 mx x" "pos x < length bs" "settings_ok s" "length bs < 18446744073709551616"
  shows "round_ok mx bs x (dispatch mx s bs x)"
  by (cases "p_state x")
    (simp_all add: dispatch_def Let_def step_line_def step_header_def step_body_def rounds round_value_start assms in_url_def)

section \<open>The end of the buffer\<close>

lemma inv_set_mark: "inv k mx x \<Longrightarrow> inv k mx (set_mark f None x)"
  by (cases f) (simp_all add: inv_def marks_ok_def)

lemma mark_le_pos: "inv k mx x \<Longrightarrow> mark_of f x = Some m \<Longrightarrow> m \<le> pos x"
  by (cases f) (auto simp: inv_def marks_ok_def)

lemma pos_set_mark [simp]: "pos (set_mark f m x) = pos x"
  by (cases f) simp_all

lemma finish_data:
  assumes "inv 0 mx y" "pos y = length bs" "settings_ok s"
    "\<And>z. inv 0 mx z \<Longrightarrow> pos z = length bs \<Longrightarrow> round_ok mx bs x (k z)"
  shows "round_ok mx bs x (CALLBACK_DATA_NOADVANCE s f bs y k)"
  unfolding CALLBACK_DATA_NOADVANCE_def
  by (rule round_data)
    (use assms mark_le_pos [OF assms(1)] in \<open>auto simp: inv_set_mark\<close>, simp_all add: inv_def)

fun mark_state :: "http_data_field \<Rightarrow> http_state \<Rightarrow> bool" where
  "mark_state Header_field st \<longleftrightarrow> st = s_header_field"
| "mark_state Header_value st \<longleftrightarrow> st = s_header_value"
| "mark_state Url st \<longleftrightarrow> in_url st"
| "mark_state Body st \<longleftrightarrow> st = s_body_identity \<or> st = s_body_identity_eof \<or> st = s_chunk_data \<or>
     st = s_chunk_data_almost_done"
| "mark_state Status st \<longleftrightarrow> st = s_res_status"

lemma filter_mono_length: "(\<And>x. P x \<Longrightarrow> Q x) \<Longrightarrow> length (filter P xs) \<le> length (filter Q xs)"
  by (induction xs) (auto simp: le_SucI)

lemma one_mark:
  assumes "inv k mx x"
  shows "marks_set x \<le> 1"
proof -
  have "mark_of f x \<noteq> None \<Longrightarrow> mark_state f (p_state x)" for f
    using assms by (cases f) (auto simp: inv_def marks_ok_def)
  then have "marks_set x \<le>
      length (filter (\<lambda>f. mark_state f (p_state x)) [Header_field, Header_value, Url, Body, Status])"
    unfolding marks_set_def by (rule filter_mono_length)
  also have "\<dots> \<le> 1" by (cases "p_state x") (simp_all add: in_url_def)
  finally show ?thesis .
qed

lemma round_finish:
  assumes "inv 0 mx y" "pos y = length bs" "settings_ok s"
  shows "round_ok mx bs x (finish s bs y)"
proof -
  have r: "round_ok mx bs x (RETURN (length bs) z)" if "inv 0 mx z" for z
    using that by (cases "p_state z")
      (simp_all add: round_ok_def RETURN_def returned_ok_def parser_ok_def inv_def core_ok_def has_flag_def)
  show ?thesis
    unfolding finish_def using one_mark [OF assms(1)] assms
    by (auto intro!: finish_data r)
qed

section \<open>The loop\<close>

definition loop_ok :: "u32 \<Rightarrow> bytes \<Rightarrow> 'd step \<Rightarrow> bool" where
  "loop_ok mx bs = sat (\<lambda>y. inv 0 mx y \<and> pos y < length bs) (\<lambda>y. inv 1 mx y \<and> pos y < length bs)
    (returned_ok mx (length bs)) (\<lambda>y. http_errno (parser y) \<noteq> HPE_OK \<and> http_errno (parser y) \<noteq> HPE_PAUSED \<and> pos y \<le> length bs)"

text \<open>The fuel that the run from an outcome takes.\<close>

fun fuel_for :: "nat \<Rightarrow> 'd step \<Rightarrow> nat" where
  "fuel_for n (Break x) = 5 * (n - pos x) - 4"
| "fuel_for n (Reexecute x) = 5 * (n - pos x) - 3 + rank (p_state x)"
| "fuel_for n r = 0"

lemma rank_le: "rank st \<le> 3"
  by (simp add: rank_def split: http_state.splits)

lemma round_loop:
  assumes "round_ok mx bs x r" "pos x < length bs"
  shows "loop_ok mx bs r" "fuel_for (length bs) r \<le> 5 * (length bs - pos x) - 4 + rank (p_state x)"
  using assms by (cases r; auto simp: round_ok_def loop_ok_def)+

lemma inv_next:
  assumes "inv 0 mx x" "PARSING_HEADER (p_state x)" "\<not> mx < p_nread x + 1"
  shows "inv 1 mx (x\<lparr>p_nread := p_nread x + 1\<rparr>)"
  using assms by (simp add: inv_def marks_ok_def)

lemma inv_body: "inv 0 mx x \<Longrightarrow> \<not> PARSING_HEADER (p_state x) \<Longrightarrow> inv 1 mx x"
  by (auto simp: inv_def PARSING_HEADER_def)

lemma next_byte_ok:
  assumes "inv 0 mx x" "pos x \<le> length bs" "settings_ok s" "length bs < 18446744073709551616"
  shows "loop_ok mx bs (next_byte mx s bs x)" "fuel_for (length bs) (next_byte mx s bs x) \<le> 5 * (length bs - pos x) - 1"
proof -
  consider (out) "pos x = length bs" | (count) "pos x < length bs" "PARSING_HEADER (p_state x)" "\<not> mx < p_nread x + 1"
    | (over) "pos x < length bs" "PARSING_HEADER (p_state x)" "mx < p_nread x + 1"
    | (body) "pos x < length bs" "\<not> PARSING_HEADER (p_state x)" using assms(2) by linarith
  then have "loop_ok mx bs (next_byte mx s bs x) \<and>
    fuel_for (length bs) (next_byte mx s bs x) \<le> 5 * (length bs - pos x) - 1"
  proof cases
    case out
    then have "round_ok mx bs x (finish s bs x)" using round_finish assms by blast
    with out show ?thesis
      by (cases "finish s bs x") (auto simp: next_byte_def round_ok_def loop_ok_def)
  next
    case count
    let ?x = "x\<lparr>p_nread := p_nread x + 1\<rparr>"
    from round_dispatch [OF inv_next [OF assms(1) count(2,3)] _ assms(3,4)] count(1)
    have "round_ok mx bs ?x (dispatch mx s bs ?x)" by simp
    from round_loop [OF this] count rank_le [of "p_state x"] show ?thesis
      by (simp add: next_byte_def COUNT_HEADER_SIZE_def Let_def)
  next
    case over
    then show ?thesis
      by (simp add: next_byte_def COUNT_HEADER_SIZE_def Let_def fail_def SET_ERRNO_def upd_def loop_ok_def)
  next
    case body
    from round_dispatch [OF inv_body [OF assms(1) body(2)] body(1) assms(3,4)]
    have "round_ok mx bs x (dispatch mx s bs x)" .
    from round_loop [OF this body(1)] body rank_le [of "p_state x"] show ?thesis
      by (simp add: next_byte_def)
  qed
  then show "loop_ok mx bs (next_byte mx s bs x)"
    "fuel_for (length bs) (next_byte mx s bs x) \<le> 5 * (length bs - pos x) - 1" by auto
qed

lemma inv_pos: "inv k mx x \<Longrightarrow> pos x \<le> p \<Longrightarrow> inv k mx (x\<lparr>pos := p\<rparr>)"
  by (fastforce simp: inv_def marks_ok_def)

lemma run_ok:
  assumes "loop_ok mx bs r" "fuel_for (length bs) r \<le> n" "settings_ok s" "length bs < 18446744073709551616"
  shows "\<exists>v q. run n mx s bs r = Returned v q \<and> returned_ok mx (length bs) v q"
  using assms(1,2)
proof (induction n arbitrary: r)
  case 0
  then show ?case
    by (cases r) (auto simp: loop_ok_def error_exit_def Let_def returned_ok_def parser_ok_def)
next
  case (Suc n)
  show ?case
  proof (cases r)
    case (Break y)
    let ?y = "y\<lparr>pos := pos y + 1\<rparr>"
    from Suc.prems(1) Break have y: "inv 0 mx ?y" "pos y < length bs"
      by (auto simp: loop_ok_def intro: inv_pos)
    from next_byte_ok [OF y(1) _ assms(3,4)] y(2) have l: "loop_ok mx bs (next_byte mx s bs ?y)"
      "fuel_for (length bs) (next_byte mx s bs ?y) \<le> 5 * (length bs - pos ?y) - 1" by simp_all
    have "5 * (length bs - pos ?y) - 1 \<le> n" using Suc.prems(2) y(2) Break by simp
    with Suc.IH [OF l(1)] l(2) Break show ?thesis by simp
  next
    case (Reexecute y)
    from Suc.prems(1) Reexecute have y: "inv 1 mx y" "pos y < length bs" by (auto simp: loop_ok_def)
    from round_loop [OF round_dispatch [OF y assms(3,4)] y(2)]
    have l: "loop_ok mx bs (dispatch mx s bs y)"
      "fuel_for (length bs) (dispatch mx s bs y) \<le> 5 * (length bs - pos y) - 4 + rank (p_state y)" .
    have "5 * (length bs - pos y) - 4 + rank (p_state y) \<le> n" using Suc.prems(2) y(2) Reexecute by simp
    with Suc.IH [OF l(1)] l(2) Reexecute show ?thesis by simp
  qed (use Suc.prems in \<open>auto simp: loop_ok_def error_exit_def Let_def returned_ok_def parser_ok_def\<close>)
qed

lemma inv_enter:
  assumes "http_errno q = HPE_OK" "parser_ok mx q"
  shows "inv 0 mx (enter q)"
  using assms by (auto simp: enter_def inv_def parser_ok_def marks_ok_def core_ok_def)

lemma execute_eof_ok:
  assumes "http_errno q = HPE_OK" "parser_ok mx q" "settings_ok s"
  shows "\<exists>v q'. execute_eof s q = Returned v q' \<and> v \<le> 1 \<and> parser_ok mx q' \<and> (http_errno q' = HPE_OK \<longrightarrow> v = 0)"
proof (cases "state q = s_body_identity_eof")
  case True
  let ?r = "CALLBACK_NOTIFY_NOADVANCE (on_message_complete s) HPE_CB_message_complete (enter q) (\<lambda>x. Return 0 (parser x))"
  have q: "http_errno q = HPE_OK" "nread q \<le> mx" using assms(1,2) by (auto simp: parser_ok_def core_ok_def)
  have "round_ok mx [] (enter q) ?r"
    unfolding CALLBACK_NOTIFY_NOADVANCE_def
    by (rule round_notify)
      (use q True settings_okD [OF assms(3)] in
        \<open>auto simp: enter_def core_ok_def round_ok_def returned_ok_def parser_ok_def called_def\<close>)
  then have "loop_ok mx [] ?r" "fuel_for 0 ?r = 0"
    by (cases ?r; auto simp: round_ok_def loop_ok_def)+
  from run_ok [OF this(1), of 0 s] this(2) assms(3) obtain v q' where
    "run 0 mx s [] ?r = Returned v q'" "returned_ok mx 0 v q'" by auto
  moreover have "run 0 0 s [] ?r = run 0 mx s [] ?r" by (cases ?r) simp_all
  ultimately show ?thesis using True by (auto simp: execute_eof_def returned_ok_def)
next
  case False
  with assms show ?thesis
    by (cases "state q") (simp_all add: execute_eof_def SET_ERRNO_def upd_def enter_def parser_ok_def)
qed

text \<open>What a call returns.\<close>

definition executed_ok :: "u32 \<Rightarrow> bytes \<Rightarrow> nat \<Rightarrow> 'd http_parser \<Rightarrow> bool" where
  "executed_ok mx bs v q \<longleftrightarrow> v \<le> max 1 (length bs) \<and> parser_ok mx q \<and>
    (http_errno q = HPE_OK \<longrightarrow> v = length bs \<or> upgrade q)"

lemma execute_ok:
  assumes "settings_ok s" "parser_ok mx q" "length bs < 18446744073709551616"
  shows "\<exists>v q'. http_parser_execute mx s q bs = Returned v q' \<and> executed_ok mx bs v q'"
proof -
  consider (err) "http_errno q \<noteq> HPE_OK" | (eof) "http_errno q = HPE_OK" "bs = []"
    | (go) "http_errno q = HPE_OK" "bs \<noteq> []" by blast
  then show ?thesis
  proof cases
    case err
    with assms(2) show ?thesis by (auto simp: http_parser_execute_def executed_ok_def)
  next
    case eof
    with execute_eof_ok [OF eof(1) assms(2,1)] show ?thesis
      by (auto simp: http_parser_execute_def executed_ok_def)
  next
    case go
    have i: "inv 0 mx (enter q)" "pos (enter q) = 0"
      using inv_enter [OF go(1) assms(2)] by (simp_all add: enter_def)
    from next_byte_ok [OF i(1) _ assms(1,3)] i(2)
    have l: "loop_ok mx bs (next_byte mx s bs (enter q))"
      "fuel_for (length bs) (next_byte mx s bs (enter q)) \<le> 5 * length bs - 1" by simp_all
    from l(2) have "fuel_for (length bs) (next_byte mx s bs (enter q)) \<le> 5 * length bs + 5" by linarith
    from run_ok [OF l(1) this assms(1,3)] obtain v q' where
      "run (5 * length bs + 5) mx s bs (next_byte mx s bs (enter q)) = Returned v q'"
      "returned_ok mx (length bs) v q'" by blast
    with go show ?thesis
      by (intro exI [of _ v] exI [of _ q']) (auto simp: http_parser_execute_def executed_ok_def returned_ok_def)
  qed
qed

lemma init_ok: "parser_ok mx (http_parser_init d t)"
  by (cases t) (simp_all add: parser_ok_def http_parser_init_def core_ok_def)

lemma settings_init_ok: "settings_ok http_parser_settings_init"
  by (simp add: settings_ok_def http_parser_settings_init_def cb_ok_def data_cb_ok_def)

end
