(* ===== verification/Http_Correct.thy ===== *)
theory Http_Correct
  imports Http_Safety
begin

text \<open>
  The properties of \<open>http_parser_execute\<close> that hold of every buffer, with a concrete request on which
  they are instantiated.
\<close>

section \<open>Calls\<close>


text \<open>
  C22 (parser invariant).  A call keeps the parser in order: the header count within its limit, the
  method matcher inside its string, a body with a length to go, a chunk within a chunked message.
\<close>

theorem http_parser_execute_parser_ok:
  assumes "settings_ok s" "parser_ok mx q" "length bs < 18446744073709551616"
    and "http_parser_execute mx s q bs = Returned v q'"
  shows "parser_ok mx q'"
  using execute_ok [OF assms(1-3)] assms(4) by (auto simp: executed_ok_def)

text \<open>
  C23 (nothing left behind).  A call that ends without an error, a pause or an upgrade of the
  connection has consumed all of its bytes.
\<close>

theorem http_parser_execute_consumes:
  assumes "settings_ok s" "parser_ok mx q" "length bs < 18446744073709551616"
    and "http_parser_execute mx s q bs = Returned v q'"
    and "http_errno q' = HPE_OK" "\<not> upgrade q'"
  shows "v = length bs"
  using execute_ok [OF assms(1-3)] assms(4-6) by (auto simp: executed_ok_def)

section \<open>A request\<close>

definition host_text :: bytes where
  "host_text = cstr ''GET /a HTTP/1.1'' @ [13, 10] @ cstr ''Host: h'' @ [13, 10, 13, 10]"

definition after_host :: "unit http_parser" where
  "after_host = \<lparr>ptype = HTTP_REQUEST, flags = 0, state = s_start_req, header_state = h_general, index = 0,
     lenient_http_headers = False, nread = 0, content_length = ULLONG_MAX, http_major = 1, http_minor = 1,
     status_code = 0, meth = HTTP_GET, http_errno = HPE_OK, upgrade = False, data = (), anchor_id = 4\<rparr>"

lemma host_executed:
  "http_parser_execute HTTP_MAX_HEADER_SIZE http_parser_settings_init (http_parser_init () HTTP_REQUEST) host_text
    = Returned 28 after_host"
  by code_simp

lemma host_length [simp]: "length host_text = 28"
  by (simp add: host_text_def)


theorem http_parser_execute_parser_ok_witness: "parser_ok HTTP_MAX_HEADER_SIZE after_host"
  by (rule http_parser_execute_parser_ok [OF settings_init_ok init_ok _ host_executed]) simp

theorem http_parser_execute_consumes_witness: "28 = length host_text"
  by (rule http_parser_execute_consumes [OF settings_init_ok init_ok _ host_executed])
    (simp_all add: after_host_def)

end
