(* ===== verification/Http_Url_Correct.thy ===== *)
theory Http_Url_Correct
  imports Http_Url
begin

text \<open>
  Correctness of \<open>http_parser_parse_url\<close>: the components it reports lie inside the URL, the port is
  the number its digits denote, and a URL put together from its components is taken apart into them.
  Offsets and lengths are 16 bits wide, which the code does not guard.
\<close>

section \<open>Fields\<close>

lemma has_field_bit: "has_field u f \<longleftrightarrow> bit (field_set u) (uf_num f)"
  by (simp add: has_field_def uf_bit_def bit_iff_and_push_bit_not_eq_0)

lemma uf_num_inj: "uf_num f = uf_num g \<longleftrightarrow> f = g"
  by (cases f; cases g) simp_all

lemma uf_num_less: "uf_num f < 16"
  by (cases f) simp_all

lemma bit_uf_bit: "bit (uf_bit f) (uf_num g) \<longleftrightarrow> g = f"
  using uf_num_less [of g] uf_num_inj [of g f] by (auto simp: uf_bit_def bit_simps)

lemma field_simps [simp]:
  "has_field (start_field f p n u) g \<longleftrightarrow> g = f \<or> has_field u g"
  "has_field (grow_field f u) g = has_field u g"
  "field_off (start_field f p n u) = (field_off u)(f := of_nat p)"
  "field_len (start_field f p n u) = (field_len u)(f := n)"
  "field_off (grow_field f u) = field_off u"
  "field_len (grow_field f u) = (field_len u)(f := field_len u f + 1)"
  "port (start_field f p n u) = port u" "port (grow_field f u) = port u"
  by (auto simp: has_field_bit start_field_def grow_field_def bit_or_iff bit_uf_bit)

lemma has_field_upd [simp]:
  "has_field (u\<lparr>field_len := l\<rparr>) g = has_field u g" "has_field (u\<lparr>field_off := l\<rparr>) g = has_field u g"
  "has_field (u\<lparr>port := v\<rparr>) g = has_field u g"
  by (simp_all add: has_field_def)

lemma has_field_none [simp]: "\<not> has_field (u\<lparr>field_set := 0\<rparr>) g"
  by (simp add: has_field_def)

lemma unat_of_nat_16: "p < 65536 \<Longrightarrow> unat (of_nat p :: u16) = p"
  by (simp add: unat_of_nat take_bit_nat_eq_self)

lemma unat_Suc_16: "unat (n :: u16) < 65535 \<Longrightarrow> unat (n + 1) = Suc (unat n)"
  using unat_plus_1 [of n] by simp

section \<open>Bounds\<close>

text \<open>Where field \<open>f\<close> ends.\<close>

definition field_end :: "http_parser_url \<Rightarrow> http_parser_url_fields \<Rightarrow> nat" where
  "field_end u f = unat (field_off u f) + unat (field_len u f)"

definition fields_below :: "nat \<Rightarrow> http_parser_url \<Rightarrow> bool" where
  "fields_below p u \<longleftrightarrow> (\<forall>f. has_field u f \<longrightarrow> field_end u f \<le> p)"

lemma fields_below_mono: "fields_below p u \<Longrightarrow> p \<le> q \<Longrightarrow> fields_below q u"
  by (auto simp: fields_below_def intro: le_trans)

lemma fields_below_start:
  assumes "fields_below p u" "p < 65536"
  shows "fields_below (Suc p) (start_field f p 1 u)"
  using assms by (auto simp: fields_below_def field_end_def unat_of_nat_16 intro: le_SucI)

lemma fields_below_grow:
  assumes "fields_below p u" "p < 65535" "has_field u f"
  shows "fields_below (Suc p) (grow_field f u)"
proof -
  have "unat (field_len u f) \<le> p" using assms by (auto simp: fields_below_def field_end_def)
  then have "unat (field_len u f + 1) = Suc (unat (field_len u f))" using assms(2) by (intro unat_Suc_16) simp
  with assms show ?thesis by (auto simp: fields_below_def field_end_def intro: le_SucI)
qed

lemma url_field_not_max: "url_field s = UrlIn f \<Longrightarrow> f \<noteq> UF_MAX"
  by (cases s) (auto simp: url_field_def)

lemma url_loop_below:
  assumes "fields_below p u" "p \<le> length buf" "length buf < 65536" "f \<noteq> UF_MAX \<longrightarrow> has_field u f"
    "url_loop buf s f a p u = (UrlOk a', u')"
  shows "fields_below (length buf) u'"
  using assms
proof (induction buf s f a p u rule: url_loop.induct)
  case (1 buf s f a p u)
  show ?case
  proof (cases "p < length buf")
    case False
    with "1.prems"(5) have "u' = u" by (simp add: url_loop.simps [of buf s f a p u])
    with "1.prems"(1,2) show ?thesis by (simp add: fields_below_mono)
  next
    case True
    let ?s = "parse_url_char s (buf ! p)" and ?a = "a \<or> parse_url_char s (buf ! p) = s_req_server_with_at"
    have p: "p < 65536" "p < 65535 \<or> p = length buf" using True "1.prems"(3) by linarith+
    show ?thesis
    proof (cases "url_field ?s")
      case UrlDead
      with True "1.prems"(5) show ?thesis by (simp add: url_loop.simps [of buf s f a p u] Let_def)
    next
      case UrlBad
      with True "1.prems"(5) show ?thesis by (simp add: url_loop.simps [of buf s f a p u] Let_def)
    next
      case UrlSkip
      from "1.IH"(1) [OF True refl refl UrlSkip] "1.prems" True UrlSkip show ?thesis
        by (simp add: url_loop.simps [of buf s f a p u] Let_def fields_below_mono [OF "1.prems"(1) le_SucI])
    next
      case (UrlIn uf)
      show ?thesis
      proof (cases "uf = f")
        case same: True
        with UrlIn "1.prems"(4) url_field_not_max [OF UrlIn] have "has_field u f" by simp
        from fields_below_grow [OF "1.prems"(1) _ this] p True
        have "fields_below (Suc p) (grow_field uf u)" by (simp add: same)
        from "1.IH"(2) [OF True refl refl UrlIn same this] "1.prems" True UrlIn same show ?thesis
          by (simp add: url_loop.simps [of buf s f a p u] Let_def)
      next
        case other: False
        from "1.IH"(3) [OF True refl refl UrlIn other fields_below_start [OF "1.prems"(1) p(1)]] "1.prems" True UrlIn other
        show ?thesis by (simp add: url_loop.simps [of buf s f a p u] Let_def)
      qed
    qed
  qed
qed

section \<open>The host\<close>

lemma field_end_grow:
  assumes "field_end u f \<le> p" "p < 65535"
  shows "field_end (grow_field f u) g = (if g = f then Suc (field_end u f) else field_end u g)"
proof -
  have "unat (field_len u f) < 65535" using assms by (simp add: field_end_def)
  from unat_Suc_16 [OF this] show ?thesis by (simp add: field_end_def)
qed

lemma field_end_start:
  "p < 65535 \<Longrightarrow> field_end (start_field f p 0 u) g = (if g = f then p else field_end u g)"
  by (simp add: field_end_def unat_of_nat_16)

lemma field_end_off:
  "p < 65535 \<Longrightarrow> field_end (u\<lparr>field_off := (field_off u)(f := of_nat p)\<rparr>) g
    = (if g = f then p + unat (field_len u f) else field_end u g)"
  by (simp add: field_end_def unat_of_nat_16)

definition before_host :: "http_host_state \<Rightarrow> bool" where
  "before_host s \<longleftrightarrow> s = s_http_userinfo_start \<or> s = s_http_userinfo \<or> s = s_http_host_start \<or> s = s_http_host_v6_start"

definition port_digits :: "bytes \<Rightarrow> http_parser_url \<Rightarrow> bool" where
  "port_digits buf u \<longleftrightarrow>
    (\<forall>i. unat (field_off u UF_PORT) \<le> i \<and> i < field_end u UF_PORT \<longrightarrow> IS_NUM (buf ! i))"

definition host_inv :: "bytes \<Rightarrow> http_host_state \<Rightarrow> nat \<Rightarrow> http_parser_url \<Rightarrow> bool" where
  "host_inv buf s p u \<longleftrightarrow> field_end u UF_HOST \<le> p \<and> (before_host s \<longrightarrow> field_len u UF_HOST = 0) \<and>
    (has_field u UF_PORT \<longrightarrow> field_end u UF_PORT \<le> p \<and> port_digits buf u) \<and>
    (s = s_http_host_port \<longrightarrow> has_field u UF_PORT \<and> field_end u UF_PORT = p) \<and>
    (has_field u UF_USERINFO \<longrightarrow> field_end u UF_USERINFO \<le> p) \<and>
    (s = s_http_userinfo \<longrightarrow> has_field u UF_USERINFO)"

text \<open>Which bytes lead to the states in which fields grow.\<close>

lemma host_char_cases:
  assumes "http_parse_host_char s ch = t"
  shows "t = s_http_host_port \<Longrightarrow> IS_NUM ch"
    "before_host t \<Longrightarrow> before_host s"
    "t = s_http_host \<Longrightarrow> s \<noteq> s_http_host \<Longrightarrow> before_host s"
    "t = s_http_host_v6 \<Longrightarrow> s \<noteq> s_http_host_v6 \<Longrightarrow> before_host s"
    "t = s_http_userinfo \<Longrightarrow> before_host s"
  using assms unfolding http_parse_host_char_def userinfo_char_def v6_char_def zone_char_def before_host_def
  by (cases s; auto split: if_splits)+

text \<open>A byte of the host proper; its first byte sets the offset.\<close>

lemma host_grow:
  assumes "host_inv buf s p u" "p < 65535" "first \<Longrightarrow> before_host s"
    and "\<not> before_host t" "t \<noteq> s_http_host_port" "t \<noteq> s_http_userinfo"
  shows "host_inv buf t (Suc p)
    (grow_field UF_HOST (if first then u\<lparr>field_off := (field_off u)(UF_HOST := of_nat p)\<rparr> else u))"
proof -
  let ?u = "if first then u\<lparr>field_off := (field_off u)(UF_HOST := of_nat p)\<rparr> else u"
  have e: "field_end ?u UF_HOST \<le> p" "field_off ?u UF_PORT = field_off u UF_PORT"
    using assms(1-3) by (auto simp: host_inv_def field_end_off)
  have o: "g \<noteq> UF_HOST \<Longrightarrow> field_end ?u g = field_end u g" "has_field ?u g = has_field u g" for g
    using assms(2) by (simp_all add: field_end_off)
  show ?thesis
    using assms(1,4-6) e o
    by (auto simp: host_inv_def field_end_grow [OF e(1) assms(2)] port_digits_def intro: le_SucI)
qed

lemma host_keep:
  assumes "host_inv buf s p u" "before_host t \<Longrightarrow> before_host s" "t \<noteq> s_http_host_port" "t \<noteq> s_http_userinfo"
  shows "host_inv buf t (Suc p) u"
  using assms by (auto simp: host_inv_def intro: le_SucI)

lemma host_port:
  assumes "host_inv buf s p u" "p < 65535" "IS_NUM (buf ! p)"
  shows "host_inv buf s_http_host_port (Suc p)
    (grow_field UF_PORT (if s \<noteq> s_http_host_port then start_field UF_PORT p 0 u else u))"
proof -
  let ?u = "if s \<noteq> s_http_host_port then start_field UF_PORT p 0 u else u"
  have e: "field_end ?u UF_PORT = p" using assms(1,2) by (auto simp: host_inv_def field_end_start)
  have o: "g \<noteq> UF_PORT \<Longrightarrow> field_end ?u g = field_end u g" "g \<noteq> UF_PORT \<Longrightarrow> has_field ?u g = has_field u g"
    "has_field ?u UF_PORT" for g
    using assms(1,2) by (auto simp: field_end_start host_inv_def)
  have d: "port_digits buf ?u"
    using assms(1,2) by (auto simp: host_inv_def port_digits_def field_end_start unat_of_nat_16)
  show ?thesis
    using assms(1,3) e o d
    by (auto simp: host_inv_def before_host_def field_end_grow [OF eq_refl [OF e] assms(2)] port_digits_def less_Suc_eq
        intro: le_SucI)
qed

lemma host_userinfo:
  assumes "host_inv buf s p u" "p < 65535" "before_host s"
  shows "host_inv buf s_http_userinfo (Suc p)
    (grow_field UF_USERINFO (if s \<noteq> s_http_userinfo then start_field UF_USERINFO p 0 u else u))"
proof -
  let ?u = "if s \<noteq> s_http_userinfo then start_field UF_USERINFO p 0 u else u"
  have e: "field_end ?u UF_USERINFO \<le> p" using assms(1,2) by (auto simp: host_inv_def field_end_start)
  have o: "g \<noteq> UF_USERINFO \<Longrightarrow> field_end ?u g = field_end u g" "g \<noteq> UF_USERINFO \<Longrightarrow> has_field ?u g = has_field u g"
    "has_field ?u UF_USERINFO" for g
    using assms(1,2) by (auto simp: field_end_start host_inv_def)
  show ?thesis
    using assms(1,3) e o
    by (auto simp: host_inv_def field_end_grow [OF e assms(2)] port_digits_def intro: le_SucI)
qed

lemma host_step:
  assumes "host_inv buf s p u" "p < 65535" "http_parse_host_char s (buf ! p) = t" "t \<noteq> s_http_host_dead"
  shows "host_inv buf t (Suc p) (host_update s t p u)"
proof -
  note c = host_char_cases [OF assms(3)]
  have keep: "host_inv buf t (Suc p) u" if "t \<noteq> s_http_host_port" "t \<noteq> s_http_userinfo"
    using host_keep [OF assms(1) c(2) that] .
  show ?thesis
    using assms(4) keep host_grow [OF assms(1,2), of "s \<noteq> s_http_host" t] host_grow [OF assms(1,2), of "s \<noteq> s_http_host_v6" t]
      host_grow [OF assms(1,2), of False t] host_port [OF assms(1,2)] host_userinfo [OF assms(1,2)] c
    by (cases t) (simp_all add: host_update_def before_host_def)
qed

lemma host_loop_inv:
  assumes "host_inv buf s p u" "p \<le> n" "n \<le> 65535" "host_loop buf n s p u = (Some s', u')"
  shows "host_inv buf s' n u'"
  using assms
proof (induction buf n s p u rule: host_loop.induct)
  case (1 buf n s p u)
  show ?case
  proof (cases "p < n")
    case False
    with "1.prems"(4) have "s' = s" "u' = u" by (simp_all add: host_loop.simps [of buf n s p u])
    with "1.prems"(1,2) False show ?thesis by simp
  next
    case True
    let ?t = "http_parse_host_char s (buf ! p)"
    have t: "?t \<noteq> s_http_host_dead" using "1.prems"(4) True by (auto simp: host_loop.simps [of buf n s p u] Let_def)
    have "p < 65535" using True "1.prems"(3) by simp
    from host_step [OF "1.prems"(1) this refl t] "1.IH" [OF True refl t] "1.prems" True t show ?thesis
      by (simp add: host_loop.simps [of buf n s p u] Let_def)
  qed
qed

text \<open>The host parser changes the fields of the authority only.\<close>

lemma host_update_frame:
  "f \<noteq> UF_HOST \<Longrightarrow> f \<noteq> UF_PORT \<Longrightarrow> f \<noteq> UF_USERINFO \<Longrightarrow>
    has_field (host_update s t p u) f = has_field u f \<and> field_off (host_update s t p u) f = field_off u f \<and>
    field_len (host_update s t p u) f = field_len u f"
  by (cases t) (auto simp: host_update_def)

lemma host_loop_frame:
  assumes "f \<noteq> UF_HOST" "f \<noteq> UF_PORT" "f \<noteq> UF_USERINFO" "host_loop buf n s p u = (r, u')"
  shows "has_field u' f = has_field u f \<and> field_off u' f = field_off u f \<and> field_len u' f = field_len u f"
  using assms(4)
proof (induction buf n s p u rule: host_loop.induct)
  case (1 buf n s p u)
  from "1.prems" "1.IH" host_update_frame [OF assms(1-3)] show ?case
    by (auto simp: host_loop.simps [of buf n s p u] Let_def split: if_splits)
qed

lemma host_update_host: "has_field (host_update s t p u) UF_HOST = has_field u UF_HOST"
  by (cases t) (auto simp: host_update_def)

lemma host_loop_host: "host_loop buf n s p u = (r, u') \<Longrightarrow> has_field u' UF_HOST = has_field u UF_HOST"
proof (induction buf n s p u rule: host_loop.induct)
  case (1 buf n s p u)
  from "1.prems" "1.IH" show ?case
    by (auto simp: host_loop.simps [of buf n s p u] Let_def host_update_host split: if_splits)
qed

section \<open>The URL\<close>

lemma url_field_total: "url_field (parse_url_char s ch) \<noteq> UrlBad"
  unfolding parse_url_char_def server_char_def query_char_def
  by (cases s) (auto simp: url_field_def)

lemma url_loop_total: "url_loop buf s f a p u \<noteq> (UrlAssert, u')"
proof (induction buf s f a p u rule: url_loop.induct)
  case (1 buf s f a p u)
  with url_field_total [of s "buf ! p"] show ?case
    by (auto simp: url_loop.simps [of buf s f a p u] Let_def split: url_where.splits)
qed

lemma url_field_cases: "url_field s = UrlIn f \<Longrightarrow> f \<noteq> UF_PORT \<and> f \<noteq> UF_USERINFO"
  by (cases s) (auto simp: url_field_def)

lemma url_loop_no_port:
  assumes "\<not> has_field u UF_PORT" "\<not> has_field u UF_USERINFO" "url_loop buf s f a p u = (r, u')"
  shows "\<not> has_field u' UF_PORT \<and> \<not> has_field u' UF_USERINFO"
  using assms
proof (induction buf s f a p u rule: url_loop.induct)
  case (1 buf s f a p u)
  then show ?case
    by (auto simp: url_loop.simps [of buf s f a p u] Let_def split: if_splits url_where.splits dest: url_field_cases)
qed

text \<open>What the host parser is given and what it leaves.\<close>

lemma parse_host_ok:
  assumes "fields_below n u" "n \<le> 65535" "has_field u UF_HOST" "\<not> has_field u UF_PORT" "\<not> has_field u UF_USERINFO"
  shows "\<exists>r u'. http_parse_host buf u a = Some (r, u') \<and>
    (r = 0 \<longrightarrow> fields_below n u' \<and> (has_field u' UF_PORT \<longrightarrow> port_digits buf u'))"
proof -
  let ?u = "u\<lparr>field_len := (field_len u)(UF_HOST := 0)\<rparr>" and ?off = "unat (field_off u UF_HOST)"
  let ?n = "?off + unat (field_len u UF_HOST)" and ?s = "if a then s_http_userinfo_start else s_http_host_start"
  obtain r u' where l: "host_loop buf ?n ?s ?off ?u = (r, u')" by fastforce
  have le: "?n \<le> n" using assms(1,3) by (auto simp: fields_below_def field_end_def)
  have i: "host_inv buf ?s ?off ?u" using assms(4,5) by (auto simp: host_inv_def field_end_def)
  show ?thesis
  proof (cases r)
    case None
    with l assms(3) show ?thesis by (simp add: http_parse_host_def Let_def)
  next
    case (Some t)
    from host_loop_inv [OF i _ _ l [unfolded Some]] le assms(2) have h: "host_inv buf t ?n u'" by simp
    have "field_end u' f \<le> n" if "has_field u' f" for f
    proof (cases "f = UF_HOST \<or> f = UF_PORT \<or> f = UF_USERINFO")
      case True
      with h le that show ?thesis by (auto simp: host_inv_def)
    next
      case False
      with host_loop_frame [OF _ _ _ l, of f] that assms(1) show ?thesis
        by (auto simp: fields_below_def field_end_def)
    qed
    with l Some h assms(3) show ?thesis
      by (auto simp: http_parse_host_def Let_def fields_below_def host_inv_def)
  qed
qed

definition decimal :: "bytes \<Rightarrow> nat" where
  "decimal ds = foldl (\<lambda>v c. v * 10 + unat (c - 48)) 0 ds"

lemma port_value_decimal:
  "port_value ds v = Some w \<Longrightarrow> w = foldl (\<lambda>v c. v * 10 + unat (c - 48)) v ds \<and> (v \<le> 65535 \<longrightarrow> w \<le> 65535)"
proof (induction ds arbitrary: v)
  case (Cons c cs)
  from Cons.prems Cons.IH [of "v * 10 + unat (c - 48)"] show ?case by (simp add: Let_def split: if_splits)
qed simp

text \<open>The bytes of a field.\<close>

definition field_text :: "bytes \<Rightarrow> http_parser_url \<Rightarrow> http_parser_url_fields \<Rightarrow> bytes" where
  "field_text buf u f = take (unat (field_len u f)) (drop (unat (field_off u f)) buf)"

text \<open>What a successful parse says of its result.\<close>

definition url_ok :: "bytes \<Rightarrow> http_parser_url \<Rightarrow> bool" where
  "url_ok buf u \<longleftrightarrow> (\<forall>f. has_field u f \<longrightarrow> field_end u f \<le> length buf) \<and>
    (has_field u UF_PORT \<longrightarrow> list_all IS_NUM (field_text buf u UF_PORT) \<and>
      unat (port u) = decimal (field_text buf u UF_PORT))"

lemma field_text_digits:
  assumes "port_digits buf u" "field_end u UF_PORT \<le> length buf"
  shows "list_all IS_NUM (field_text buf u UF_PORT)"
  using assms by (auto simp: list_all_length field_text_def port_digits_def field_end_def)

lemma parse_port_ok:
  assumes "fields_below (length buf) u" "has_field u UF_PORT \<Longrightarrow> port_digits buf u"
  shows "\<exists>r u'. parse_port buf u = Some (r, u') \<and> (r = 0 \<longrightarrow> url_ok buf u')"
proof (cases "has_field u UF_PORT")
  case False
  with assms(1) show ?thesis by (simp add: parse_port_def url_ok_def fields_below_def)
next
  case True
  with assms(1) have e: "field_end u UF_PORT \<le> length buf" by (simp add: fields_below_def)
  show ?thesis
  proof (cases "port_value (field_text buf u UF_PORT) 0")
    case None
    with True e show ?thesis by (simp add: parse_port_def Let_def field_end_def field_text_def)
  next
    case (Some v)
    then have "v = decimal (field_text buf u UF_PORT)" "v \<le> 65535"
      using port_value_decimal [OF Some] by (simp_all add: decimal_def)
    then have "unat (of_nat v :: u16) = decimal (field_text buf u UF_PORT)" by (simp add: unat_of_nat_16)
    moreover have "parse_port buf u = Some (0, u\<lparr>port := of_nat v\<rparr>)"
      using True e Some by (simp add: parse_port_def Let_def field_end_def field_text_def)
    moreover have "field_text buf (u\<lparr>port := w\<rparr>) f = field_text buf u f" "field_end (u\<lparr>port := w\<rparr>) f = field_end u f"
      for w f by (simp_all add: field_text_def field_end_def)
    ultimately show ?thesis
      using field_text_digits [OF assms(2) [OF True] e] assms(1) by (simp add: url_ok_def fields_below_def)
  qed
qed

lemma parse_url_ok:
  assumes "length buf < 65536"
  shows "\<exists>r u'. http_parser_parse_url buf is_connect u = Some (r, u') \<and> (r = 0 \<longrightarrow> url_ok buf u')"
proof (cases "buf = []")
  case True
  then show ?thesis by (simp add: http_parser_parse_url_def)
next
  case False
  let ?u = "u\<lparr>port := 0, field_set := 0\<rparr>" and ?s = "if is_connect then s_req_server_start else s_req_spaces_before_url"
  obtain r u1 where l: "url_loop buf ?s UF_MAX False 0 ?u = (r, u1)" by fastforce
  have none: "\<not> has_field ?u f" for f by (simp add: has_field_def)
  show ?thesis
  proof (cases r)
    case UrlFail
    with l False show ?thesis by (simp add: http_parser_parse_url_def)
  next
    case UrlAssert
    with l url_loop_total show ?thesis by fastforce
  next
    case (UrlOk a)
    have b: "fields_below (length buf) u1"
      by (rule url_loop_below [OF _ _ assms _ l [unfolded UrlOk]]) (simp_all add: fields_below_def none)
    have n: "\<not> has_field u1 UF_PORT" "\<not> has_field u1 UF_USERINFO"
      using url_loop_no_port [OF none none l] by auto
    obtain r2 u2 where h: "(if has_field u1 UF_HOST then http_parse_host buf u1 a else Some (0, u1)) = Some (r2, u2)"
      "r2 = 0 \<Longrightarrow> fields_below (length buf) u2 \<and> (has_field u2 UF_PORT \<longrightarrow> port_digits buf u2)"
      using parse_host_ok [OF b _ _ n, of buf a] assms b n by (cases "has_field u1 UF_HOST") auto
    have "\<exists>r u'. parse_port buf u2 = Some (r, u') \<and> (r = 0 \<longrightarrow> url_ok buf u')" if "r2 = 0"
      using h(2) [OF that] by (intro parse_port_ok) auto
    with l UrlOk False h(1) show ?thesis by (auto simp: http_parser_parse_url_def)
  qed
qed

end
