(* ===== verification/Http_Url_Text.thy ===== *)
theory Http_Url_Text
  imports Http_Url_Correct
begin

text \<open>
  URLs as text: a URL put together from its components is taken apart into the same components by
  \<open>http_parser_parse_url\<close>.  The proof runs the two loops over the segments of the text.
\<close>

section \<open>The text of a URL\<close>

record url_parts =
  u_scheme :: bytes
  u_userinfo :: "bytes option"
  u_host :: bytes
  u_port :: "bytes option"
  u_path :: bytes
  u_query :: "bytes option"
  u_fragment :: "bytes option"

text \<open>A component and its delimiter, in front or behind, when it is there.\<close>

definition with_front :: "u8 \<Rightarrow> bytes option \<Rightarrow> bytes" where
  "with_front c w = (case w of None \<Rightarrow> [] | Some w \<Rightarrow> c # w)"

definition with_back :: "bytes option \<Rightarrow> u8 \<Rightarrow> bytes" where
  "with_back w c = (case w of None \<Rightarrow> [] | Some w \<Rightarrow> w @ [c])"

definition authority :: "url_parts \<Rightarrow> bytes" where
  "authority t = with_back (u_userinfo t) 64 @ u_host t @ with_front 58 (u_port t)"

definition url_text :: "url_parts \<Rightarrow> bytes" where
  "url_text t = u_scheme t @ [58, 47, 47] @ authority t @ u_path t @ with_front 63 (u_query t) @
     with_front 35 (u_fragment t)"

definition query_byte :: "u8 \<Rightarrow> bool" where
  "query_byte c \<longleftrightarrow> IS_URL_CHAR c \<or> c = 63"

definition some_word :: "(u8 \<Rightarrow> bool) \<Rightarrow> bytes option \<Rightarrow> bool" where
  "some_word P w = (case w of None \<Rightarrow> True | Some w \<Rightarrow> w \<noteq> [] \<and> list_all P w)"

text \<open>
  A path starts with a slash; a fragment needs a path or a query in front of it; the port is a
  16-bit number.
\<close>

definition url_valid :: "url_parts \<Rightarrow> bool" where
  "url_valid t \<longleftrightarrow> u_scheme t \<noteq> [] \<and> list_all IS_ALPHA (u_scheme t) \<and>
    some_word IS_USERINFO_CHAR (u_userinfo t) \<and>
    u_host t \<noteq> [] \<and> list_all IS_HOST_CHAR (u_host t) \<and>
    some_word IS_NUM (u_port t) \<and> (case u_port t of None \<Rightarrow> True | Some d \<Rightarrow> decimal d \<le> 65535) \<and>
    (u_path t = [] \<or> hd (u_path t) = 47 \<and> list_all IS_URL_CHAR (tl (u_path t))) \<and>
    some_word query_byte (u_query t) \<and> some_word query_byte (u_fragment t) \<and>
    (u_fragment t \<noteq> None \<longrightarrow> u_path t \<noteq> [] \<or> u_query t \<noteq> None)"

section \<open>Classes of bytes\<close>

lemmas class_defs = IS_USERINFO_CHAR_def IS_HOST_CHAR_def IS_ALPHANUM_def IS_ALPHA_def IS_NUM_def IS_MARK_def
  LOWER_def

lemma url_char_table:
  "\<not> IS_URL_CHAR 32" "\<not> IS_URL_CHAR 13" "\<not> IS_URL_CHAR 10" "\<not> IS_URL_CHAR 9" "\<not> IS_URL_CHAR 12"
  "\<not> IS_URL_CHAR 35" "\<not> IS_URL_CHAR 63" "IS_URL_CHAR 47"
  by code_simp+

lemma scheme_class:
  "IS_ALPHA c \<Longrightarrow> parse_url_char s_req_spaces_before_url c = s_req_schema"
  "IS_ALPHA c \<Longrightarrow> parse_url_char s_req_schema c = s_req_schema"
  by (auto simp: parse_url_char_def IS_ALPHA_def LOWER_def)

lemma host_class: "IS_HOST_CHAR c \<Longrightarrow> IS_USERINFO_CHAR c" "IS_NUM c \<Longrightarrow> IS_USERINFO_CHAR c"
  by (auto simp: class_defs)

lemma server_class: "IS_USERINFO_CHAR c \<Longrightarrow> server_char c = s_req_server"
  "IS_USERINFO_CHAR c \<Longrightarrow> c \<notin> {32, 13, 10, 9, 12, 47, 63, 64}"
  by (auto simp: server_char_def class_defs)

lemma authority_class:
  assumes "IS_USERINFO_CHAR c"
  shows "parse_url_char s_req_server_start c = s_req_server" "parse_url_char s_req_server c = s_req_server"
    "parse_url_char s_req_server_with_at c = s_req_server"
  using server_class [OF assms] by (auto simp: parse_url_char_def)

lemma path_class: "IS_URL_CHAR c \<Longrightarrow> parse_url_char s_req_path c = s_req_path"
  using url_char_table by (auto simp: parse_url_char_def)

lemma query_class:
  assumes "query_byte c"
  shows "parse_url_char s_req_query_string_start c = s_req_query_string"
    "parse_url_char s_req_query_string c = s_req_query_string"
    "parse_url_char s_req_fragment_start c = s_req_fragment" "parse_url_char s_req_fragment c = s_req_fragment"
proof -
  have "c \<notin> {32, 13, 10, 9, 12}" "query_char c = s_req_query_string" "IS_URL_CHAR c \<or> c = 63"
    using assms url_char_table by (auto simp: query_byte_def query_char_def)
  then show "parse_url_char s_req_query_string_start c = s_req_query_string"
    "parse_url_char s_req_query_string c = s_req_query_string"
    "parse_url_char s_req_fragment_start c = s_req_fragment" "parse_url_char s_req_fragment c = s_req_fragment"
    by (auto simp: parse_url_char_def)
qed

lemma delims:
  "parse_url_char s_req_schema 58 = s_req_schema_slash"
  "parse_url_char s_req_schema_slash 47 = s_req_schema_slash_slash"
  "parse_url_char s_req_schema_slash_slash 47 = s_req_server_start"
  "parse_url_char s_req_server 64 = s_req_server_with_at" "parse_url_char s_req_server 47 = s_req_path"
  "parse_url_char s_req_server 63 = s_req_query_string_start" "parse_url_char s_req_path 63 = s_req_query_string_start"
  "parse_url_char s_req_path 35 = s_req_fragment_start" "parse_url_char s_req_query_string 35 = s_req_fragment_start"
  using url_char_table
  by (simp_all add: parse_url_char_def server_char_def query_char_def IS_ALPHA_def LOWER_def)

lemma url_fields:
  "url_field s_req_schema = UrlIn UF_SCHEMA" "url_field s_req_server = UrlIn UF_HOST"
  "url_field s_req_server_with_at = UrlIn UF_HOST" "url_field s_req_path = UrlIn UF_PATH"
  "url_field s_req_query_string = UrlIn UF_QUERY" "url_field s_req_fragment = UrlIn UF_FRAGMENT"
  "url_field s_req_schema_slash = UrlSkip" "url_field s_req_schema_slash_slash = UrlSkip"
  "url_field s_req_server_start = UrlSkip" "url_field s_req_query_string_start = UrlSkip"
  "url_field s_req_fragment_start = UrlSkip"
  by (simp_all add: url_field_def)

section \<open>Runs of the URL loop\<close>

definition grown :: "http_parser_url_fields \<Rightarrow> nat \<Rightarrow> http_parser_url \<Rightarrow> http_parser_url" where
  "grown f n u = u\<lparr>field_len := (field_len u)(f := field_len u f + of_nat n)\<rparr>"

lemma grown_simps [simp]: "grown f 0 u = u" "grown f n (grow_field f u) = grown f (Suc n) u"
  by (simp_all add: grown_def grow_field_def algebra_simps)

text \<open>The state behind a word, when all of it belongs to the field \<open>f\<close>.\<close>

fun stays :: "http_parser_url_fields \<Rightarrow> http_state \<Rightarrow> bytes \<Rightarrow> http_state \<Rightarrow> bool" where
  "stays f s [] t \<longleftrightarrow> s = t"
| "stays f s (c # w) t \<longleftrightarrow> url_field (parse_url_char s c) = UrlIn f \<and> stays f (parse_url_char s c) w t"

fun passes_at :: "http_state \<Rightarrow> bytes \<Rightarrow> bool" where
  "passes_at s [] \<longleftrightarrow> False"
| "passes_at s (c # w) \<longleftrightarrow> parse_url_char s c = s_req_server_with_at \<or> passes_at (parse_url_char s c) w"

lemma url_loop_run:
  assumes "stays f s w t" "length pre = p"
  shows "url_loop (pre @ w @ post) s f a p u
    = url_loop (pre @ w @ post) t f (a \<or> passes_at s w) (p + length w) (grown f (length w) u)"
  using assms
proof (induction w arbitrary: s pre p a u)
  case (Cons c w)
  have n: "p < length (pre @ (c # w) @ post)" "(pre @ (c # w) @ post) ! p = c" using Cons.prems(2) by auto
  have "url_loop (pre @ (c # w) @ post) s f a p u = url_loop ((pre @ [c]) @ w @ post) (parse_url_char s c) f
      (a \<or> parse_url_char s c = s_req_server_with_at) (Suc p) (grow_field f u)"
    using n Cons.prems(1) by (simp add: url_loop.simps [of _ s f a p u] Let_def)
  also have "\<dots> = url_loop ((pre @ [c]) @ w @ post) t f
      ((a \<or> parse_url_char s c = s_req_server_with_at) \<or> passes_at (parse_url_char s c) w) (Suc p + length w)
      (grown f (length w) (grow_field f u))"
    using Cons.prems by (intro Cons.IH) auto
  finally show ?case by (simp add: disj_ac)
qed simp

lemma url_loop_enter:
  assumes "parse_url_char s c = s1" "url_field s1 = UrlIn f" "f \<noteq> g" "stays f s1 w t" "length pre = p"
  shows "url_loop (pre @ (c # w) @ post) s g a p u
    = url_loop (pre @ (c # w) @ post) t f (a \<or> passes_at s (c # w)) (p + length (c # w))
        (start_field f p (of_nat (length (c # w))) u)"
proof -
  have n: "p < length (pre @ (c # w) @ post)" "(pre @ (c # w) @ post) ! p = c" using assms(5) by auto
  have "url_loop (pre @ (c # w) @ post) s g a p u = url_loop ((pre @ [c]) @ w @ post) s1 f
      (a \<or> s1 = s_req_server_with_at) (Suc p) (start_field f p 1 u)"
    using n assms(1-3) by (simp add: url_loop.simps [of _ s g a p u] Let_def)
  also have "\<dots> = url_loop ((pre @ [c]) @ w @ post) t f ((a \<or> s1 = s_req_server_with_at) \<or> passes_at s1 w)
      (Suc p + length w) (grown f (length w) (start_field f p 1 u))"
    using assms(4,5) by (intro url_loop_run) auto
  also have "grown f (length w) (start_field f p 1 u) = start_field f p (of_nat (length (c # w))) u"
    by (simp add: grown_def start_field_def)
  finally show ?thesis using assms(1) by (simp add: disj_ac)
qed

lemma url_loop_skip:
  assumes "parse_url_char s c = s1" "url_field s1 = UrlSkip" "length pre = p"
  shows "url_loop (pre @ c # post) s g a p u = url_loop (pre @ c # post) s1 g a (Suc p) u"
proof -
  have "s1 \<noteq> s_req_server_with_at" using assms(2) by (auto simp: url_field_def)
  moreover have "p < length (pre @ c # post)" "(pre @ c # post) ! p = c" using assms(3) by auto
  ultimately show ?thesis using assms(1,2) by (simp add: url_loop.simps [of _ s g a p u] Let_def)
qed

section \<open>Runs of the host loop\<close>

lemma host_loop_step:
  assumes "http_parse_host_char s c = t" "t \<noteq> s_http_host_dead" "length pre = p" "p < n"
  shows "host_loop (pre @ c # post) n s p u = host_loop (pre @ c # post) n t (Suc p) (host_update s t p u)"
proof -
  have "(pre @ c # post) ! p = c" using assms(3) by auto
  with assms show ?thesis by (simp add: host_loop.simps [of _ n s p u] Let_def)
qed

lemma host_loop_run:
  assumes "\<And>c. c \<in> set w \<Longrightarrow> http_parse_host_char t c = t" "t \<noteq> s_http_host_dead"
    and "\<And>p u. host_update t t p u = grow_field f u" "length pre = p" "p + length w \<le> n"
  shows "host_loop (pre @ w @ post) n t p u = host_loop (pre @ w @ post) n t (p + length w) (grown f (length w) u)"
  using assms(1,4,5)
proof (induction w arbitrary: pre p u)
  case (Cons c w)
  have "host_loop (pre @ (c # w) @ post) n t p u = host_loop ((pre @ [c]) @ w @ post) n t (Suc p) (grow_field f u)"
    using Cons.prems assms(2,3) host_loop_step [of t c t pre p n "w @ post" u] by simp
  also have "\<dots> = host_loop ((pre @ [c]) @ w @ post) n t (Suc p + length w) (grown f (length w) (grow_field f u))"
    using Cons.prems by (intro Cons.IH) auto
  finally show ?case by simp
qed simp

lemma host_chars:
  "IS_USERINFO_CHAR c \<Longrightarrow> http_parse_host_char s_http_userinfo c = s_http_userinfo"
  "IS_USERINFO_CHAR c \<Longrightarrow> http_parse_host_char s_http_userinfo_start c = s_http_userinfo"
  "http_parse_host_char s_http_userinfo 64 = s_http_host_start"
  "IS_HOST_CHAR c \<Longrightarrow> http_parse_host_char s_http_host_start c = s_http_host"
  "IS_HOST_CHAR c \<Longrightarrow> http_parse_host_char s_http_host c = s_http_host"
  "http_parse_host_char s_http_host 58 = s_http_host_port_start"
  "IS_NUM c \<Longrightarrow> http_parse_host_char s_http_host_port_start c = s_http_host_port"
  "IS_NUM c \<Longrightarrow> http_parse_host_char s_http_host_port c = s_http_host_port"
  by (auto simp: http_parse_host_char_def userinfo_char_def class_defs)

text \<open>The segments of an authority.\<close>

lemma grown_start: "grown f n (start_field f p m u) = start_field f p (m + of_nat n) u"
  by (simp add: grown_def start_field_def)

lemma grow_start: "grow_field f (start_field f p m u) = start_field f p (m + 1) u"
  by (simp add: grow_field_def start_field_def)

lemma host_loop_userinfo:
  assumes "w \<noteq> []" "list_all IS_USERINFO_CHAR w" "length pre = p" "p + length w < n"
  shows "host_loop (pre @ w @ 64 # post) n s_http_userinfo_start p u
    = host_loop (pre @ w @ 64 # post) n s_http_host_start (p + length w + 1)
        (start_field UF_USERINFO p (of_nat (length w)) u)"
proof -
  obtain c v where w: "w = c # v" using assms(1) by (cases w) auto
  let ?u = "start_field UF_USERINFO p 1 u" and ?b = "(pre @ [c]) @ v @ 64 # post"
  have "host_loop (pre @ w @ 64 # post) n s_http_userinfo_start p u = host_loop ?b n s_http_userinfo (Suc p) ?u"
    using host_loop_step [of s_http_userinfo_start c s_http_userinfo pre p n "v @ 64 # post" u] assms(2-4)
    by (simp add: w host_chars host_update_def grow_start)
  also have "\<dots> = host_loop ?b n s_http_userinfo (Suc p + length v) (grown UF_USERINFO (length v) ?u)"
    by (rule host_loop_run) (use assms in \<open>auto simp: w host_chars host_update_def list_all_iff\<close>)
  also have "\<dots> = host_loop ?b n s_http_host_start (p + length w + 1) (grown UF_USERINFO (length v) ?u)"
    using host_loop_step [of s_http_userinfo 64 s_http_host_start "(pre @ [c]) @ v" "Suc p + length v" n post] assms(3,4)
    by (simp add: w host_chars host_update_def)
  finally show ?thesis by (simp add: w grown_start)
qed

lemma host_loop_name:
  assumes "w \<noteq> []" "list_all IS_HOST_CHAR w" "length pre = p" "p + length w \<le> n" "field_len u UF_HOST = 0"
  shows "host_loop (pre @ w @ post) n s_http_host_start p u
    = host_loop (pre @ w @ post) n s_http_host (p + length w)
        (u\<lparr>field_off := (field_off u)(UF_HOST := of_nat p), field_len := (field_len u)(UF_HOST := of_nat (length w))\<rparr>)"
proof -
  obtain c v where w: "w = c # v" using assms(1) by (cases w) auto
  let ?u = "u\<lparr>field_off := (field_off u)(UF_HOST := of_nat p), field_len := (field_len u)(UF_HOST := 1)\<rparr>"
  have "host_loop (pre @ w @ post) n s_http_host_start p u = host_loop ((pre @ [c]) @ v @ post) n s_http_host (Suc p) ?u"
    using host_loop_step [of s_http_host_start c s_http_host pre p n "v @ post" u] assms(2-5)
    by (simp add: w host_chars host_update_def grow_field_def)
  also have "\<dots> = host_loop ((pre @ [c]) @ v @ post) n s_http_host (Suc p + length v) (grown UF_HOST (length v) ?u)"
    by (rule host_loop_run) (use assms in \<open>auto simp: w host_chars host_update_def list_all_iff\<close>)
  finally show ?thesis by (simp add: w grown_def)
qed

lemma host_loop_port:
  assumes "w \<noteq> []" "list_all IS_NUM w" "length pre = p" "p + length w < n"
  shows "host_loop (pre @ 58 # w @ post) n s_http_host p u
    = host_loop (pre @ 58 # w @ post) n s_http_host_port (Suc p + length w) (start_field UF_PORT (Suc p) (of_nat (length w)) u)"
proof -
  obtain c v where w: "w = c # v" using assms(1) by (cases w) auto
  let ?u = "start_field UF_PORT (Suc p) 1 u" and ?b = "(pre @ [58, c]) @ v @ post"
  have "host_loop (pre @ 58 # w @ post) n s_http_host p u = host_loop ?b n s_http_host_port_start (Suc p) u"
    using host_loop_step [of s_http_host 58 s_http_host_port_start pre p n "w @ post" u] assms(3,4)
    by (simp add: w host_chars host_update_def)
  also have "\<dots> = host_loop ?b n s_http_host_port (Suc (Suc p)) ?u"
    using host_loop_step [of s_http_host_port_start c s_http_host_port "pre @ [58]" "Suc p" n "v @ post" u] assms(2-4)
    by (simp add: w host_chars host_update_def grow_start)
  also have "\<dots> = host_loop ?b n s_http_host_port (Suc (Suc p) + length v) (grown UF_PORT (length v) ?u)"
    by (rule host_loop_run) (use assms in \<open>auto simp: w host_chars host_update_def list_all_iff\<close>)
  finally show ?thesis by (simp add: w grown_start)
qed

section \<open>The segments of a URL\<close>

definition put :: "http_parser_url_fields \<Rightarrow> nat \<Rightarrow> bytes option \<Rightarrow> http_parser_url \<Rightarrow> http_parser_url" where
  "put f p w u = (case w of None \<Rightarrow> u | Some w \<Rightarrow> start_field f p (of_nat (length w)) u)"

lemma stays_append: "stays f s (v @ w) t \<longleftrightarrow> (\<exists>m. stays f s v m \<and> stays f m w t)"
  by (induction v arbitrary: s) auto

lemma passes_at_append: "stays f s v m \<Longrightarrow> passes_at s (v @ w) \<longleftrightarrow> passes_at s v \<or> passes_at m w"
  by (induction v arbitrary: s) auto

lemma stays_class:
  assumes "list_all P w" "\<And>c. P c \<Longrightarrow> parse_url_char s c = s" "url_field s = UrlIn f"
  shows "stays f s w s"
  using assms by (induction w) auto

lemma passes_at_class:
  assumes "list_all P w" "\<And>c. P c \<Longrightarrow> parse_url_char s c = s" "s \<noteq> s_req_server_with_at"
  shows "\<not> passes_at s w"
  using assms by (induction w) auto

lemma url_scheme:
  assumes "w \<noteq> []" "list_all IS_ALPHA w"
  shows "url_loop (w @ 58 # 47 # 47 # post) s_req_spaces_before_url UF_MAX a 0 u
    = url_loop (w @ 58 # 47 # 47 # post) s_req_server_start UF_SCHEMA a (length w + 3) (start_field UF_SCHEMA 0 (of_nat (length w)) u)"
proof -
  obtain c v where w: "w = c # v" using assms(1) by (cases w) auto
  let ?u = "start_field UF_SCHEMA 0 (of_nat (length w)) u" and ?b = "w @ 58 # 47 # 47 # post"
  have v: "list_all IS_ALPHA v" "IS_ALPHA c" using assms(2) by (simp_all add: w)
  have "stays UF_SCHEMA s_req_schema v s_req_schema" "\<not> passes_at s_req_schema v"
    by (rule stays_class [OF v(1)] passes_at_class [OF v(1)]; simp add: scheme_class url_fields)+
  then have "url_loop ?b s_req_spaces_before_url UF_MAX a 0 u = url_loop ?b s_req_schema UF_SCHEMA a (length w) ?u"
    using url_loop_enter [of s_req_spaces_before_url c s_req_schema UF_SCHEMA UF_MAX v s_req_schema "[]" 0 "58 # 47 # 47 # post" a u] v
    by (simp add: w scheme_class url_fields)
  also have "\<dots> = url_loop ?b s_req_schema_slash UF_SCHEMA a (length w + 1) ?u"
    using url_loop_skip [of s_req_schema 58 s_req_schema_slash w "length w" "47 # 47 # post" UF_SCHEMA a ?u]
    by (simp add: delims url_fields)
  also have "\<dots> = url_loop ?b s_req_schema_slash_slash UF_SCHEMA a (length w + 2) ?u"
    using url_loop_skip [of s_req_schema_slash 47 s_req_schema_slash_slash "w @ [58]" "length w + 1" "47 # post" UF_SCHEMA a ?u]
    by (simp add: delims url_fields)
  also have "\<dots> = url_loop ?b s_req_server_start UF_SCHEMA a (length w + 3) ?u"
    using url_loop_skip [of s_req_schema_slash_slash 47 s_req_server_start "w @ [58, 47]" "length w + 2" post UF_SCHEMA a ?u]
    by (simp add: delims url_fields eval_nat_numeral)
  finally show ?thesis .
qed

lemma authority_bytes:
  assumes "url_valid t"
  shows "list_all IS_USERINFO_CHAR (u_host t @ with_front 58 (u_port t))"
proof -
  have "IS_USERINFO_CHAR 58" by (simp add: class_defs)
  moreover have "list_all IS_USERINFO_CHAR (u_host t)"
    using assms host_class(1) by (auto simp: url_valid_def list_all_iff)
  moreover have "u_port t = Some d \<Longrightarrow> list_all IS_USERINFO_CHAR d" for d
    using assms host_class(2) by (auto simp: url_valid_def some_word_def list_all_iff)
  ultimately show ?thesis by (cases "u_port t") (simp_all add: with_front_def)
qed

lemma server_run:
  assumes "list_all IS_USERINFO_CHAR v"
  shows "stays UF_HOST s_req_server v s_req_server" "\<not> passes_at s_req_server v"
  by (rule stays_class [OF assms] passes_at_class [OF assms]; simp add: authority_class url_fields)+

lemma authority_cases:
  assumes "url_valid t"
  obtains c v where "authority t = c # v" "IS_USERINFO_CHAR c" "stays UF_HOST s_req_server v s_req_server"
    "passes_at s_req_server v \<longleftrightarrow> u_userinfo t \<noteq> None"
proof -
  let ?r = "u_host t @ with_front 58 (u_port t)"
  obtain c v where r: "?r = c # v" using assms by (cases "u_host t") (auto simp: url_valid_def)
  with authority_bytes [OF assms] have cv: "IS_USERINFO_CHAR c" "list_all IS_USERINFO_CHAR v" by auto
  show thesis
  proof (cases "u_userinfo t")
    case None
    with r cv server_run [OF cv(2)] show thesis by (intro that [of c v]) (simp_all add: authority_def with_back_def)
  next
    case (Some w)
    with assms obtain d x where w: "w = d # x" "IS_USERINFO_CHAR d" "list_all IS_USERINFO_CHAR x"
      by (cases w) (auto simp: url_valid_def some_word_def)
    have "stays UF_HOST s_req_server (x @ 64 # ?r) s_req_server" "passes_at s_req_server (x @ 64 # ?r)"
      using server_run [OF w(3)] server_run [OF cv(2)] cv(1)
      by (auto simp: stays_append passes_at_append r delims url_fields authority_class)
    with Some w show thesis by (intro that [of d "x @ 64 # ?r"]) (simp_all add: authority_def with_back_def)
  qed
qed

lemma url_authority:
  assumes "url_valid t" "length pre = p"
  shows "url_loop (pre @ authority t @ post) s_req_server_start UF_SCHEMA False p u
    = url_loop (pre @ authority t @ post) s_req_server UF_HOST (u_userinfo t \<noteq> None) (p + length (authority t))
        (start_field UF_HOST p (of_nat (length (authority t))) u)"
proof -
  obtain c v where a: "authority t = c # v" "IS_USERINFO_CHAR c" "stays UF_HOST s_req_server v s_req_server"
    "passes_at s_req_server v \<longleftrightarrow> u_userinfo t \<noteq> None" using authority_cases [OF assms(1)] .
  from url_loop_enter [of s_req_server_start c s_req_server UF_HOST UF_SCHEMA v s_req_server pre p post False u]
  show ?thesis using a assms(2) by (simp add: authority_class url_fields)
qed

lemma url_path:
  assumes "w = [] \<or> hd w = 47 \<and> list_all IS_URL_CHAR (tl w)" "length pre = p"
  shows "url_loop (pre @ w @ post) s_req_server UF_HOST a p u
    = url_loop (pre @ w @ post) (if w = [] then s_req_server else s_req_path) (if w = [] then UF_HOST else UF_PATH) a
        (p + length w) (put UF_PATH p (if w = [] then None else Some w) u)"
proof (cases w)
  case Nil
  then show ?thesis by (simp add: put_def)
next
  case (Cons c v)
  with assms have v: "list_all IS_URL_CHAR v" "c = 47" by auto
  have "stays UF_PATH s_req_path v s_req_path" "\<not> passes_at s_req_path v"
    by (rule stays_class [OF v(1)] passes_at_class [OF v(1)]; simp add: path_class url_fields)+
  then show ?thesis
    using url_loop_enter [of s_req_server c s_req_path UF_PATH UF_HOST v s_req_path pre p post a u] assms(2) v(2)
    by (simp add: Cons delims url_fields put_def)
qed

lemma url_tail:
  assumes "some_word query_byte w" "length pre = p" "parse_url_char s d = s1" "url_field s1 = UrlSkip"
    and "\<And>c. query_byte c \<Longrightarrow> parse_url_char s1 c = t" "\<And>c. query_byte c \<Longrightarrow> parse_url_char t c = t"
    and "url_field t = UrlIn f" "f \<noteq> g" "t \<noteq> s_req_server_with_at"
  shows "url_loop (pre @ with_front d w @ post) s g a p u
    = url_loop (pre @ with_front d w @ post) (if w = None then s else t) (if w = None then g else f) a
        (p + length (with_front d w)) (put f (Suc p) w u)"
proof (cases w)
  case None
  then show ?thesis by (simp add: with_front_def put_def)
next
  case (Some x)
  with assms(1) obtain c v where x: "x = c # v" "query_byte c" "list_all query_byte v"
    by (cases x) (auto simp: some_word_def)
  have "stays f t v t" "\<not> passes_at t v"
    by (rule stays_class [OF x(3)] passes_at_class [OF x(3)]; simp add: assms(6,7,9))+
  moreover have "url_loop (pre @ d # x @ post) s g a p u = url_loop ((pre @ [d]) @ x @ post) s1 g a (Suc p) u"
    using url_loop_skip [OF assms(3,4,2)] by simp
  ultimately show ?thesis
    using url_loop_enter [of s1 c t f g v t "pre @ [d]" "Suc p" post a u] assms(2,5,7,8,9) x
    by (simp add: Some with_front_def put_def)
qed

section \<open>The whole text\<close>

lemma absent: "put f p None u = u" "with_front c None = []"
  by (simp_all add: put_def with_front_def)

lemma url_loop_end: "length buf \<le> p \<Longrightarrow> url_loop buf s f a p u = (UrlOk a, u)"
  by (simp add: url_loop.simps [of buf])

text \<open>The result of the URL loop.\<close>

definition url_found :: "url_parts \<Rightarrow> http_parser_url \<Rightarrow> http_parser_url" where
  "url_found t u =
    (let h = length (u_scheme t) + 3; p = h + length (authority t); q = p + length (u_path t);
         f = q + length (with_front 63 (u_query t))
     in put UF_FRAGMENT (Suc f) (u_fragment t) (put UF_QUERY (Suc q) (u_query t)
          (put UF_PATH p (if u_path t = [] then None else Some (u_path t))
            (start_field UF_HOST h (of_nat (length (authority t)))
              (start_field UF_SCHEMA 0 (of_nat (length (u_scheme t))) u)))))"

lemma url_loop_text:
  assumes v: "url_valid t"
  shows "url_loop (url_text t) s_req_spaces_before_url UF_MAX False 0 u = (UrlOk (u_userinfo t \<noteq> None), url_found t u)"
proof -
  let ?b = "url_text t" and ?w = "u_scheme t" and ?A = "authority t" and ?p = "u_path t"
  let ?q = "with_front 63 (u_query t)" and ?f = "with_front 35 (u_fragment t)" and ?at = "u_userinfo t \<noteq> None"
  let ?h = "length ?w + 3"
  let ?u1 = "start_field UF_SCHEMA 0 (of_nat (length ?w)) u"
  let ?u2 = "start_field UF_HOST ?h (of_nat (length ?A)) ?u1"
  let ?u3 = "put UF_PATH (?h + length ?A) (if ?p = [] then None else Some ?p) ?u2"
  let ?u4 = "put UF_QUERY (Suc (?h + length ?A + length ?p)) (u_query t) ?u3"
  let ?s3 = "if ?p = [] then s_req_server else s_req_path" and ?g3 = "if ?p = [] then UF_HOST else UF_PATH"
  let ?s4 = "if u_query t = None then ?s3 else s_req_query_string" and ?g4 = "if u_query t = None then ?g3 else UF_QUERY"
  have "url_loop ?b s_req_spaces_before_url UF_MAX False 0 u = url_loop ?b s_req_server_start UF_SCHEMA False ?h ?u1"
    using url_scheme [of ?w "?A @ ?p @ ?q @ ?f" False u] v by (simp add: url_text_def url_valid_def)
  also have "\<dots> = url_loop ?b s_req_server UF_HOST ?at (?h + length ?A) ?u2"
    using url_authority [OF v, of "?w @ [58, 47, 47]" ?h "?p @ ?q @ ?f" ?u1] by (simp add: url_text_def)
  also have "\<dots> = url_loop ?b ?s3 ?g3 ?at (?h + length ?A + length ?p) ?u3"
    using url_path [of ?p "?w @ [58, 47, 47] @ ?A" "?h + length ?A" "?q @ ?f" ?at ?u2] v
    by (simp add: url_text_def url_valid_def)
  also have "\<dots> = url_loop ?b ?s4 ?g4 ?at (?h + length ?A + length ?p + length ?q) ?u4"
    using url_tail [of "u_query t" "?w @ [58, 47, 47] @ ?A @ ?p" "?h + length ?A + length ?p" ?s3 63
        s_req_query_string_start s_req_query_string UF_QUERY ?g3 ?f ?at ?u3] v
    by (simp add: url_text_def url_valid_def delims url_fields query_class)
  also have "\<dots> = url_loop ?b (if u_fragment t = None then ?s4 else s_req_fragment) (if u_fragment t = None then ?g4 else UF_FRAGMENT)
      ?at (?h + length ?A + length ?p + length ?q + length ?f) (url_found t u)"
  proof (cases "u_fragment t")
    case None
    then show ?thesis by (simp add: url_found_def Let_def absent)
  next
    case (Some f)
    with v have d: "parse_url_char ?s4 35 = s_req_fragment_start" by (auto simp: url_valid_def delims)
    show ?thesis
      using url_tail [of "u_fragment t" "?w @ [58, 47, 47] @ ?A @ ?p @ ?q" "?h + length ?A + length ?p + length ?q" ?s4 35
        s_req_fragment_start s_req_fragment UF_FRAGMENT ?g4 "[]" ?at ?u4] v d
      by (simp add: url_text_def url_valid_def url_fields query_class url_found_def Let_def)
  qed
  also have "\<dots> = (UrlOk ?at, url_found t u)"
    by (rule url_loop_end) (simp add: url_text_def)
  finally show ?thesis .
qed

text \<open>The result of the host loop.\<close>

definition host_found :: "url_parts \<Rightarrow> nat \<Rightarrow> http_parser_url \<Rightarrow> http_parser_url" where
  "host_found t h u =
    (let p = h + length (with_back (u_userinfo t) 64);
         u = put UF_USERINFO h (u_userinfo t) u
     in put UF_PORT (Suc p + length (u_host t)) (u_port t)
          (u\<lparr>field_off := (field_off u)(UF_HOST := of_nat p),
             field_len := (field_len u)(UF_HOST := of_nat (length (u_host t)))\<rparr>))"

lemma put_host_len: "field_len (put UF_USERINFO h w u) UF_HOST = field_len u UF_HOST"
  by (simp add: put_def split: option.splits)

lemma host_loop_end: "n \<le> p \<Longrightarrow> host_loop buf n s p u = (Some s, u)"
  by (simp add: host_loop.simps [of buf])

lemma host_loop_text:
  assumes v: "url_valid t" and h: "length pre = h" and n: "n = h + length (authority t)" and z: "field_len u UF_HOST = 0"
  shows "\<exists>s. host_loop (pre @ authority t @ post) n
      (if u_userinfo t \<noteq> None then s_http_userinfo_start else s_http_host_start) h u = (Some s, host_found t h u) \<and>
      \<not> host_end_bad s"
proof -
  let ?b = "pre @ authority t @ post" and ?w = "with_back (u_userinfo t) 64" and ?h = "u_host t"
  let ?u = "put UF_USERINFO h (u_userinfo t) u"
  let ?u2 = "?u\<lparr>field_off := (field_off ?u)(UF_HOST := of_nat (h + length ?w)),
     field_len := (field_len ?u)(UF_HOST := of_nat (length ?h))\<rparr>"
  have 1: "host_loop ?b n (if u_userinfo t \<noteq> None then s_http_userinfo_start else s_http_host_start) h u
      = host_loop ?b n s_http_host_start (h + length ?w) ?u"
  proof (cases "u_userinfo t")
    case None
    then show ?thesis by (simp add: with_back_def absent)
  next
    case (Some w)
    with v have "w \<noteq> []" "list_all IS_USERINFO_CHAR w" by (auto simp: url_valid_def some_word_def)
    from host_loop_userinfo [OF this h, of n "?h @ with_front 58 (u_port t) @ post" u] Some n show ?thesis
      by (simp add: authority_def with_back_def put_def)
  qed
  have 2: "host_loop ?b n s_http_host_start (h + length ?w) ?u = host_loop ?b n s_http_host (h + length ?w + length ?h) ?u2"
    using host_loop_name [of ?h "pre @ ?w" "h + length ?w" n ?u "with_front 58 (u_port t) @ post"] v h n z
    by (simp add: authority_def url_valid_def put_host_len)
  show ?thesis
  proof (cases "u_port t")
    case None
    with n have "n = h + length ?w + length ?h" by (simp add: authority_def absent)
    then have "host_loop ?b n s_http_host (h + length ?w + length ?h) ?u2 = (Some s_http_host, ?u2)"
      by (intro host_loop_end) simp
    with 1 2 None show ?thesis
      by (simp add: host_found_def Let_def absent host_end_bad_def)
  next
    case (Some d)
    with v have d: "d \<noteq> []" "list_all IS_NUM d" by (auto simp: url_valid_def some_word_def)
    let ?u3 = "put UF_PORT (Suc (h + length ?w + length ?h)) (Some d) ?u2"
    have n': "n = Suc (h + length ?w + length ?h) + length d" using n Some by (simp add: authority_def with_front_def)
    then have 3: "host_loop ?b n s_http_host_port (Suc (h + length ?w + length ?h) + length d) ?u3 = (Some s_http_host_port, ?u3)"
      by (intro host_loop_end) simp
    have "host_loop ?b n s_http_host (h + length ?w + length ?h) ?u2 =
        host_loop ?b n s_http_host_port (Suc (h + length ?w + length ?h) + length d) ?u3"
      using host_loop_port [OF d, of "pre @ ?w @ ?h" "h + length ?w + length ?h" n post ?u2] h n' Some
      by (simp add: authority_def with_front_def put_def)
    with 1 2 3 Some show ?thesis
      by (simp add: host_found_def Let_def host_end_bad_def)
  qed
qed

text \<open>The components by their field numbers.\<close>

fun part :: "url_parts \<Rightarrow> http_parser_url_fields \<Rightarrow> bytes option" where
  "part t UF_SCHEMA = Some (u_scheme t)"
| "part t UF_HOST = Some (u_host t)"
| "part t UF_PORT = u_port t"
| "part t UF_PATH = (if u_path t = [] then None else Some (u_path t))"
| "part t UF_QUERY = u_query t"
| "part t UF_FRAGMENT = u_fragment t"
| "part t UF_USERINFO = u_userinfo t"
| "part t UF_MAX = None"


lemma put_simps [simp]:
  "has_field (put f p w u) g \<longleftrightarrow> g = f \<and> w \<noteq> None \<or> has_field u g"
  "field_off (put f p w u) g = (if g = f \<and> w \<noteq> None then of_nat p else field_off u g)"
  "field_len (put f p w u) g = (if g = f \<and> w \<noteq> None then of_nat (length (the w)) else field_len u g)"
  by (auto simp: put_def split: option.splits)

definition parsed :: "url_parts \<Rightarrow> http_parser_url \<Rightarrow> http_parser_url" where
  "parsed t u = host_found t (length (u_scheme t) + 3)
     (let v = url_found t (u\<lparr>port := 0, field_set := 0\<rparr>) in v\<lparr>field_len := (field_len v)(UF_HOST := 0)\<rparr>)"

lemma url_found_has: "has_field (url_found t (u\<lparr>field_set := 0\<rparr>)) f \<longleftrightarrow> f \<notin> {UF_PORT, UF_USERINFO} \<and> part t f \<noteq> None"
  by (cases f) (simp_all add: url_found_def Let_def)

lemma parsed_has: "has_field (parsed t u) f \<longleftrightarrow> part t f \<noteq> None"
  using url_found_has [of t "u\<lparr>port := 0\<rparr>" f] by (cases f) (simp_all add: parsed_def host_found_def Let_def)

lemma field_text_at:
  assumes "buf = pre @ w @ post" "length buf < 65536" "field_off u f = of_nat (length pre)" "field_len u f = of_nat (length w)"
  shows "field_text buf u f = w"
  using assms by (simp add: field_text_def unat_of_nat_16)

lemma field_end_at:
  assumes "buf = pre @ w @ post" "length buf < 65536" "field_off u f = of_nat (length pre)" "field_len u f = of_nat (length w)"
  shows "field_end u f \<le> length buf"
  using assms by (simp add: field_end_def unat_of_nat_16)

lemma parsed_text:
  assumes b: "length (url_text t) < 65536" and p: "part t f = Some w"
  shows "field_text (url_text t) (parsed t u) f = w"
proof -
  let ?w = "u_scheme t" and ?c = "[58, 47, 47] :: bytes" and ?i = "with_back (u_userinfo t) 64" and ?o = "with_front 58 (u_port t)"
  let ?p = "u_path t" and ?q = "with_front 63 (u_query t)" and ?f = "with_front 35 (u_fragment t)"
  note defs = parsed_def host_found_def url_found_def url_text_def authority_def with_front_def with_back_def Let_def
  show ?thesis
  proof (cases f)
    case UF_SCHEMA
    show ?thesis using p UF_SCHEMA
      by (intro field_text_at [OF _ b, of "[]" _ "?c @ authority t @ ?p @ ?q @ ?f"]) (simp_all add: defs)
  next
    case UF_HOST
    show ?thesis using p UF_HOST
      by (intro field_text_at [OF _ b, of "?w @ ?c @ ?i" _ "?o @ ?p @ ?q @ ?f"]) (simp_all add: defs)
  next
    case UF_PORT
    show ?thesis using p UF_PORT
      by (intro field_text_at [OF _ b, of "?w @ ?c @ ?i @ u_host t @ [58]" _ "?p @ ?q @ ?f"]) (simp_all add: defs)
  next
    case UF_PATH
    show ?thesis using p UF_PATH
      by (intro field_text_at [OF _ b, of "?w @ ?c @ authority t" _ "?q @ ?f"]) (simp_all add: defs split: if_splits)
  next
    case UF_QUERY
    show ?thesis using p UF_QUERY
      by (intro field_text_at [OF _ b, of "?w @ ?c @ authority t @ ?p @ [63]" _ "?f"]) (simp_all add: defs)
  next
    case UF_FRAGMENT
    show ?thesis using p UF_FRAGMENT
      by (intro field_text_at [OF _ b, of "?w @ ?c @ authority t @ ?p @ ?q @ [35]" _ "[]"]) (simp_all add: defs)
  next
    case UF_USERINFO
    show ?thesis using p UF_USERINFO
      by (intro field_text_at [OF _ b, of "?w @ ?c" _ "[64] @ u_host t @ ?o @ ?p @ ?q @ ?f"]) (simp_all add: defs)
  next
    case UF_MAX
    with p show ?thesis by simp
  qed
qed

lemma foldl_decimal_mono: "v \<le> foldl (\<lambda>v c. v * 10 + unat (c - 48 :: u8)) v ds"
proof (induction ds arbitrary: v)
  case (Cons c ds)
  show ?case using Cons.IH [of "v * 10 + unat (c - 48)"] by simp
qed simp

lemma port_value_complete:
  "foldl (\<lambda>v c. v * 10 + unat (c - 48)) v ds \<le> 65535 \<Longrightarrow>
    port_value ds v = Some (foldl (\<lambda>v c. v * 10 + unat (c - 48)) v ds)"
proof (induction ds arbitrary: v)
  case (Cons c ds)
  with foldl_decimal_mono [of "v * 10 + unat (c - 48)" ds] show ?case by (simp add: Let_def)
qed simp

lemma host_part:
  assumes v: "url_valid t" and b: "length (url_text t) < 65536"
  shows "http_parse_host (url_text t) (url_found t (u\<lparr>port := 0, field_set := 0\<rparr>)) (u_userinfo t \<noteq> None) = Some (0, parsed t u)"
proof -
  let ?h = "length (u_scheme t) + 3" and ?u = "url_found t (u\<lparr>port := 0, field_set := 0\<rparr>)"
  let ?v = "?u\<lparr>field_len := (field_len ?u)(UF_HOST := 0)\<rparr>"
  have o: "field_off ?u UF_HOST = of_nat ?h" "field_len ?u UF_HOST = of_nat (length (authority t))"
    by (simp_all add: url_found_def Let_def)
  have n: "unat (field_off ?u UF_HOST) = ?h" "unat (field_len ?u UF_HOST) = length (authority t)"
    unfolding o by (rule unat_of_nat_16; use b in \<open>simp add: url_text_def\<close>)+
  have "has_field ?u UF_HOST" by (simp add: url_found_def Let_def)
  moreover obtain s where "host_loop (url_text t) (?h + length (authority t))
      (if u_userinfo t \<noteq> None then s_http_userinfo_start else s_http_host_start) ?h ?v = (Some s, host_found t ?h ?v)"
      "\<not> host_end_bad s"
    using host_loop_text [OF v, of "u_scheme t @ [58, 47, 47]" ?h "?h + length (authority t)" ?v
        "u_path t @ with_front 63 (u_query t) @ with_front 35 (u_fragment t)"]
    by (auto simp: url_text_def)
  ultimately show ?thesis by (simp only: http_parse_host_def Let_def n parsed_def) simp
qed

lemma port_part:
  assumes v: "url_valid t" and b: "length (url_text t) < 65536"
  shows "parse_port (url_text t) (parsed t u) =
    Some (0, case u_port t of None \<Rightarrow> parsed t u | Some d \<Rightarrow> (parsed t u)\<lparr>port := of_nat (decimal d)\<rparr>)"
proof (cases "u_port t")
  case None
  then show ?thesis by (simp add: parse_port_def parsed_has)
next
  case (Some d)
  have "part t UF_PORT = Some d" using Some by simp
  from parsed_text [OF b this, of u] have x: "field_text (url_text t) (parsed t u) UF_PORT = d" .
  let ?pre = "u_scheme t @ [58, 47, 47] @ with_back (u_userinfo t) 64 @ u_host t @ [58]"
  have e: "field_end (parsed t u) UF_PORT \<le> length (url_text t)"
    by (rule field_end_at [OF _ b, of ?pre d "u_path t @ with_front 63 (u_query t) @ with_front 35 (u_fragment t)"])
      (use Some in \<open>simp_all add: url_text_def authority_def with_front_def parsed_def host_found_def Let_def\<close>)
  have "port_value d 0 = Some (decimal d)"
    using v Some port_value_complete [of 0 d] by (simp add: url_valid_def decimal_def)
  with x e Some show ?thesis
    by (simp add: parse_port_def parsed_has Let_def field_end_def field_text_def)
qed

lemma port_upd [simp]: "field_text b (u\<lparr>port := v\<rparr>) f = field_text b u f"
  by (simp add: field_text_def)

lemma parse_url_text:
  assumes v: "url_valid t" and b: "length (url_text t) < 65536"
  shows "http_parser_parse_url (url_text t) False u =
    Some (0, case u_port t of None \<Rightarrow> parsed t u | Some d \<Rightarrow> (parsed t u)\<lparr>port := of_nat (decimal d)\<rparr>)"
proof -
  have "url_text t \<noteq> []" by (simp add: url_text_def)
  moreover have "has_field (url_found t (u\<lparr>port := 0, field_set := 0\<rparr>)) UF_HOST"
    by (simp add: url_found_def Let_def)
  ultimately show ?thesis
    using url_loop_text [OF v, of "u\<lparr>port := 0, field_set := 0\<rparr>"] host_part [OF v b] port_part [OF v b]
    by (simp add: http_parser_parse_url_def)
qed

section \<open>The fields of a parsed URL\<close>


section \<open>Round trip\<close>


section \<open>A URL\<close>

definition no_url :: http_parser_url where
  "no_url = \<lparr>field_set = 0, port = 0, field_off = \<lambda>f. 0, field_len = \<lambda>f. 0\<rparr>"

definition some_url :: url_parts where
  "some_url = \<lparr>u_scheme = cstr ''http'', u_userinfo = Some (cstr ''me''), u_host = cstr ''a.b'', u_port = Some (cstr ''81''),
     u_path = cstr ''/x'', u_query = Some (cstr ''q=1''), u_fragment = Some (cstr ''top'')\<rparr>"

lemma some_url_valid: "url_valid some_url"
  by code_simp

lemma some_url_text:
  "url_text some_url = cstr ''http://me@a.b:81/x?q=1#top''" "length (url_text some_url) = 26" "decimal (cstr ''81'') = 81"
  by code_simp+



section \<open>URLs that are too long\<close>

text \<open>
  Lengths wrap around: a path of slashes and other URL characters is accepted whatever its length,
  and the length reported is the length modulo \<open>2 ^ 16\<close>: the offsets and lengths of
  \<open>http_parser_url\<close> are 16 bits wide and nothing checks that the URL fits.
\<close>

theorem http_parser_parse_url_wraps:
  assumes "list_all IS_URL_CHAR w"
  shows "\<exists>u'. http_parser_parse_url (47 # w) False u = Some (0, u') \<and> has_field u' UF_PATH \<and>
    unat (field_len u' UF_PATH) = Suc (length w) mod 65536"
proof -
  let ?u = "start_field UF_PATH 0 (of_nat (Suc (length w))) (u\<lparr>port := 0, field_set := 0\<rparr>)"
  have "stays UF_PATH s_req_path w s_req_path" "\<not> passes_at s_req_path w"
    by (rule stays_class [OF assms] passes_at_class [OF assms]; simp add: path_class url_fields)+
  moreover have "parse_url_char s_req_spaces_before_url 47 = s_req_path"
    by (simp add: parse_url_char_def)
  ultimately have "url_loop (47 # w) s_req_spaces_before_url UF_MAX False 0 (u\<lparr>port := 0, field_set := 0\<rparr>) =
      url_loop (47 # w) s_req_path UF_PATH False (length (47 # w)) ?u"
    using url_loop_enter [of s_req_spaces_before_url 47 s_req_path UF_PATH UF_MAX w s_req_path "[]" 0 "[]" False]
    by (simp add: url_fields)
  also have "\<dots> = (UrlOk False, ?u)" by (rule url_loop_end) simp
  finally have "http_parser_parse_url (47 # w) False u = Some (0, ?u)"
    by (simp add: http_parser_parse_url_def parse_port_def)
  then show ?thesis by (simp add: unat_of_nat take_bit_eq_mod del: of_nat_Suc)
qed

theorem http_parser_parse_url_wraps_witness:
  "\<exists>u'. http_parser_parse_url (replicate 65536 47) False no_url = Some (0, u') \<and> has_field u' UF_PATH \<and>
    field_len u' UF_PATH = 0"
proof -
  have r: "replicate 65536 (47 :: u8) = 47 # replicate 65535 47" by (simp flip: replicate_Suc)
  have "list_all IS_URL_CHAR (replicate 65535 47)" using url_char_table(8) by (simp add: list_all_iff)
  from http_parser_parse_url_wraps [OF this, of no_url] show ?thesis
    unfolding r by (auto simp: unat_eq_0)
qed

end
