(* ===== verification/Cjson_Base.thy ===== *)
theory Cjson_Base
  imports Prelude
begin

text \<open>
  The data of \<open>cJSON.c\<close> (the copy under \<open>cjson2\<close>, which adds line numbers): the item, the hooks for
  memory, the parse buffer with its white-space scanner, and the parsers of the leaves: strings with
  their escapes and UTF-16 literals, and numbers.

  An item is its struct together with the list of its children, in the order of the \<open>next\<close> chain.
  A \<open>double\<close> is a value of the type parameter \<open>'d\<close>, and what the C library does with one (\<open>strtod\<close>,
  \<open>sprintf\<close>, \<open>sscanf\<close>, comparison with the bounds of \<open>int\<close>) is the record \<open>fp\<close>.  An allocator answers
  a request by its size.  Text is a list of bytes; a \<open>char *\<close> that holds a string is the bytes in front
  of its NUL.
\<close>

section \<open>Doubles\<close>

record 'd fp =
  f_zero :: 'd
  strtod :: "bytes \<Rightarrow> 'd \<times> nat"
  f_ge_INT_MAX :: "'d \<Rightarrow> bool"
  f_le_INT_MIN :: "'d \<Rightarrow> bool"
  f_to_int :: "'d \<Rightarrow> i32"
  f_not_finite :: "'d \<Rightarrow> bool"
  sprintf_g :: "nat \<Rightarrow> 'd \<Rightarrow> bytes"
  sscanf_lg :: "bytes \<Rightarrow> 'd option"
  f_eq :: "'d \<Rightarrow> 'd \<Rightarrow> bool"

definition INT_MAX :: int where
  "INT_MAX = 2147483647"

text \<open>The conversion to \<open>int\<close> saturates.\<close>

definition saturate :: "'d fp \<Rightarrow> 'd \<Rightarrow> i32" where
  "saturate F number =
    (if f_ge_INT_MAX F number then 2147483647
     else if f_le_INT_MIN F number then 2147483648
     else f_to_int F number)"

section \<open>Items\<close>

definition cJSON_Invalid :: u32 where "cJSON_Invalid = 0"
definition cJSON_False :: u32 where "cJSON_False = 1"
definition cJSON_True :: u32 where "cJSON_True = 2"
definition cJSON_NULL :: u32 where "cJSON_NULL = 4"
definition cJSON_Number :: u32 where "cJSON_Number = 8"
definition cJSON_String :: u32 where "cJSON_String = 16"
definition cJSON_Array :: u32 where "cJSON_Array = 32"
definition cJSON_Object :: u32 where "cJSON_Object = 64"
definition cJSON_Raw :: u32 where "cJSON_Raw = 128"
definition cJSON_IsReference :: u32 where "cJSON_IsReference = 256"
definition cJSON_StringIsConst :: u32 where "cJSON_StringIsConst = 512"

lemmas cjson_types = cJSON_Invalid_def cJSON_False_def cJSON_True_def cJSON_NULL_def cJSON_Number_def
  cJSON_String_def cJSON_Array_def cJSON_Object_def cJSON_Raw_def

definition CJSON_NESTING_LIMIT :: nat where
  "CJSON_NESTING_LIMIT = 1000"

definition CJSON_LINENO_INVALID :: nat where
  "CJSON_LINENO_INVALID = 0"

record 'd node =
  jtype :: u32
  valuestring :: "bytes option"
  valueint :: i32
  valuedouble :: 'd
  jstring :: "bytes option"
  lineno :: nat

datatype 'd cJSON = CJSON (node: "'d node") (child: "'d cJSON list")

section \<open>Memory\<close>

text \<open>
  An allocator answers a request by its size; \<open>fresh n i\<close> is byte \<open>i\<close> of a new piece of \<open>n\<close> bytes.
  Without \<open>reallocate\<close> the printer copies by itself.
\<close>

record internal_hooks =
  allocate :: "nat \<Rightarrow> bool"
  reallocate :: "(nat \<Rightarrow> bool) option"
  fresh :: "nat \<Rightarrow> nat \<Rightarrow> u8"

definition sizeof_cJSON :: nat where
  "sizeof_cJSON = 72"

text \<open>
  \<open>None\<close>: the allocation failed, and \<open>node->lineno = lineno\<close> writes through the null pointer, since
  only \<open>memset\<close> is guarded.
\<close>

definition cJSON_New_Item :: "'d fp \<Rightarrow> internal_hooks \<Rightarrow> nat \<Rightarrow> 'd node option" where
  "cJSON_New_Item F hooks l =
    (if allocate hooks sizeof_cJSON
     then Some \<lparr>jtype = 0, valuestring = None, valueint = 0, valuedouble = f_zero F, jstring = None, lineno = l\<rparr>
     else None)"

text \<open>The string in a piece of memory.\<close>

definition c_string :: "bytes \<Rightarrow> bytes" where
  "c_string bs = takeWhile (\<lambda>c. c \<noteq> 0) bs"

section \<open>The parse buffer\<close>

record parse_buffer =
  content :: bytes
  pb_length :: nat
  offset :: nat
  depth :: nat
  pb_lineno :: nat
  hooks :: internal_hooks

definition can_read :: "parse_buffer \<Rightarrow> nat \<Rightarrow> bool" where
  "can_read b n \<longleftrightarrow> offset b + n \<le> pb_length b"

definition can_access_at_index :: "parse_buffer \<Rightarrow> nat \<Rightarrow> bool" where
  "can_access_at_index b i \<longleftrightarrow> offset b + i < pb_length b"

text \<open>A byte of the text; \<open>None\<close> is a read behind its end.\<close>

definition read_at :: "bytes \<Rightarrow> nat \<Rightarrow> u8 option" where
  "read_at bs i = (if i < length bs then Some (bs ! i) else None)"

definition at_offset :: "parse_buffer \<Rightarrow> u8 option" where
  "at_offset b = read_at (content b) (offset b)"

definition skip_to :: "nat \<Rightarrow> parse_buffer \<Rightarrow> parse_buffer" where
  "skip_to i b = b\<lparr>offset := i\<rparr>"

text \<open>\<open>strncmp (buffer_at_offset (b), s, strlen s) == 0\<close>, where \<open>can_read\<close> has been asked before.\<close>

definition starts :: "parse_buffer \<Rightarrow> bytes \<Rightarrow> bool" where
  "starts b s \<longleftrightarrow> take (length s) (drop (offset b) (content b)) = s"

text \<open>What a parser yields: success, failure with the buffer as it was left, a bad access, no fuel.\<close>

datatype 'a parse_result = Parsed 'a parse_buffer | Failed parse_buffer | Crash | Stuck

fun and_then :: "'a parse_result \<Rightarrow> ('a \<Rightarrow> parse_buffer \<Rightarrow> 'b parse_result) \<Rightarrow> 'b parse_result" where
  "and_then (Parsed a b) f = f a b"
| "and_then (Failed b) f = Failed b"
| "and_then Crash f = Crash"
| "and_then Stuck f = Stuck"

lemma and_then_Parsed: "and_then m f = Parsed c b' \<longleftrightarrow> (\<exists>a b. m = Parsed a b \<and> f a b = Parsed c b')"
  by (cases m) simp_all

section \<open>White space\<close>

function skip_loop :: "bytes \<Rightarrow> nat \<Rightarrow> nat \<Rightarrow> nat \<Rightarrow> nat \<times> nat" where
  "skip_loop bs n i l =
    (if i < n \<and> bs ! i \<le> 32 then skip_loop bs n (Suc i) (if bs ! i = 10 then Suc l else l) else (i, l))"
  by pat_completeness auto
termination by (relation "measure (\<lambda>(bs, n, i, l). n - i)") auto

declare skip_loop.simps [simp del]

definition buffer_skip_whitespace :: "parse_buffer \<Rightarrow> parse_buffer" where
  "buffer_skip_whitespace b =
    (let (i, l) = skip_loop (content b) (pb_length b) (offset b) (pb_lineno b)
     in b\<lparr>offset := (if i = pb_length b then i - 1 else i), pb_lineno := l\<rparr>)"

definition skip_utf8_bom :: "parse_buffer \<Rightarrow> parse_buffer" where
  "skip_utf8_bom b =
    (if can_access_at_index b 4 \<and> starts b [239, 187, 191] then b\<lparr>offset := offset b + 3\<rparr> else b)"

section \<open>UTF-16 literals\<close>

definition hex4_digit :: "u8 \<Rightarrow> u32 option" where
  "hex4_digit c =
    (if 48 \<le> c \<and> c \<le> 57 then Some (ucast c - 48)
     else if 65 \<le> c \<and> c \<le> 70 then Some (10 + ucast c - 65)
     else if 97 \<le> c \<and> c \<le> 102 then Some (10 + ucast c - 97)
     else None)"

text \<open>\<open>i\<close> digits are left, of the four at the head of the input.\<close>

fun hex4_loop :: "nat \<Rightarrow> bytes \<Rightarrow> u32 \<Rightarrow> u32" where
  "hex4_loop 0 inp h = h"
| "hex4_loop (Suc i) inp h =
    (case hex4_digit (hd inp) of
       None \<Rightarrow> 0
     | Some d \<Rightarrow> hex4_loop i (tl inp) (if 0 < i then push_bit 4 (h + d) else h + d))"

definition parse_hex4 :: "bytes \<Rightarrow> u32" where
  "parse_hex4 inp = hex4_loop 4 inp 0"

text \<open>The continuation bytes, from the last one on, and what is left of the code point.\<close>

fun utf8_tail :: "nat \<Rightarrow> u64 \<Rightarrow> bytes \<Rightarrow> u64 \<times> bytes" where
  "utf8_tail 0 cp out = (cp, out)"
| "utf8_tail (Suc n) cp out = utf8_tail n (drop_bit 6 cp) (ucast ((cp OR 128) AND 191) # out)"

definition utf8_form :: "u64 \<Rightarrow> (nat \<times> u64) option" where
  "utf8_form cp =
    (if cp < 128 then Some (1, 0)
     else if cp < 2048 then Some (2, 192)
     else if cp < 65536 then Some (3, 224)
     else if cp \<le> 1114111 then Some (4, 240)
     else None)"

definition utf8_encode :: "u64 \<Rightarrow> bytes option" where
  "utf8_encode cp =
    (case utf8_form cp of
       None \<Rightarrow> None
     | Some (n, mark) \<Rightarrow>
         (case utf8_tail (n - 1) cp [] of
            (cp, out) \<Rightarrow> Some (ucast (if n > 1 then (cp OR mark) AND 255 else cp AND 127) # out)))"

text \<open>The input reaches to the closing quote; the result is the length of the literal and its bytes.\<close>

definition utf16_codepoint :: "bytes \<Rightarrow> (nat \<times> u64) option" where
  "utf16_codepoint inp =
    (if length inp < 6 then None
     else let first = parse_hex4 (drop 2 inp) in
       if 56320 \<le> first \<and> first \<le> 57343 then None
       else if 55296 \<le> first \<and> first \<le> 56319 then
         (let second_sequence = drop 6 inp in
          if length second_sequence < 6 then None
          else if second_sequence ! 0 \<noteq> 92 \<or> second_sequence ! 1 \<noteq> 117 then None
          else let second = parse_hex4 (drop 2 second_sequence) in
            if second < 56320 \<or> second > 57343 then None
            else Some (12, ucast (65536 + (push_bit 10 (first AND 1023) OR (second AND 1023)))))
       else Some (6, ucast first))"

definition utf16_literal_to_utf8 :: "bytes \<Rightarrow> (nat \<times> bytes) option" where
  "utf16_literal_to_utf8 inp =
    (case utf16_codepoint inp of
       None \<Rightarrow> None
     | Some (n, cp) \<Rightarrow> (case utf8_encode cp of None \<Rightarrow> None | Some out \<Rightarrow> Some (n, out)))"

section \<open>Strings\<close>

text \<open>
  The first pass looks for the closing quote: its index, if there is one, and the number of escapes.
  \<open>Inl True\<close> is a bad access.
\<close>

function string_scan :: "bytes \<Rightarrow> nat \<Rightarrow> nat \<Rightarrow> nat \<Rightarrow> bool + nat \<times> nat" where
  "string_scan bs n i skipped =
    (if i < n then
       (case read_at bs i of
          None \<Rightarrow> Inl True
        | Some c \<Rightarrow>
            if c = 34 then Inr (i, skipped)
            else if c = 92 then
              (if n \<le> i + 1 then Inl False else string_scan bs n (i + 2) (Suc skipped))
            else string_scan bs n (i + 1) skipped)
     else Inl False)"
  by pat_completeness auto
termination by (relation "measure (\<lambda>(bs, n, i, sk). n - i)") auto

declare string_scan.simps [simp del]

text \<open>A single-character escape.\<close>

definition escape :: "u8 \<Rightarrow> u8 option" where
  "escape c =
    (if c = 98 then Some 8
     else if c = 102 then Some 12
     else if c = 110 then Some 10
     else if c = 114 then Some 13
     else if c = 116 then Some 9
     else if c = 34 \<or> c = 92 \<or> c = 47 then Some c
     else None)"

text \<open>
  The second pass, from \<open>input_pointer\<close> to \<open>input_end\<close>, into an output of \<open>cap\<close> bytes: the output, or
  the place of an error.
\<close>

datatype string_end = StrOk bytes nat | StrFail nat | StrCrash

definition emit_bytes :: "nat \<Rightarrow> bytes \<Rightarrow> bytes \<Rightarrow> bytes option" where
  "emit_bytes cap out bs = (if length out + length bs \<le> cap then Some (out @ bs) else None)"

text \<open>What the escape at \<open>i\<close> stands for, and its length; \<open>Inl True\<close> is a bad access.\<close>

definition string_escape :: "bytes \<Rightarrow> nat \<Rightarrow> nat \<Rightarrow> bool + nat \<times> bytes" where
  "string_escape bs i e =
    (case read_at bs (i + 1) of
       None \<Rightarrow> Inl True
     | Some c \<Rightarrow>
         (case escape c of
            Some d \<Rightarrow> Inr (2, [d])
          | None \<Rightarrow>
              if c = 117 then
                (case utf16_literal_to_utf8 (drop i (take e bs)) of None \<Rightarrow> Inl False | Some p \<Rightarrow> Inr p)
              else Inl False))"

lemma string_escape_pos: "string_escape bs i e = Inr (n, out) \<Longrightarrow> 0 < n"
  by (auto simp: string_escape_def utf16_literal_to_utf8_def utf16_codepoint_def Let_def
      split: option.splits if_splits)

function string_loop :: "bytes \<Rightarrow> nat \<Rightarrow> nat \<Rightarrow> nat \<Rightarrow> bytes \<Rightarrow> string_end" where
  "string_loop bs cap e i out =
    (if i < e then
       (case read_at bs i of
          None \<Rightarrow> StrCrash
        | Some c \<Rightarrow>
            if c \<noteq> 92 then
              (case emit_bytes cap out [c] of None \<Rightarrow> StrCrash | Some out \<Rightarrow> string_loop bs cap e (i + 1) out)
            else
              (case string_escape bs i e of
                 Inl crash \<Rightarrow> if crash then StrCrash else StrFail i
               | Inr (n, w) \<Rightarrow>
                   (case emit_bytes cap out w of None \<Rightarrow> StrCrash | Some out \<Rightarrow> string_loop bs cap e (i + n) out)))
     else (case emit_bytes cap out [0] of None \<Rightarrow> StrCrash | Some out \<Rightarrow> StrOk out i))"
  by pat_completeness auto
termination
  by (relation "measure (\<lambda>(bs, cap, e, i, out). e - i)") (auto dest!: sym [of "Inr _"] string_escape_pos)

declare string_loop.simps [simp del]

definition parse_string :: "'d node \<Rightarrow> parse_buffer \<Rightarrow> 'd node parse_result" where
  "parse_string item b =
    (case at_offset b of
       None \<Rightarrow> Crash
     | Some c \<Rightarrow>
         if c \<noteq> 34 then Failed (skip_to (offset b + 1) b)
         else
           (case string_scan (content b) (pb_length b) (offset b + 1) 0 of
              Inl crash \<Rightarrow> if crash then Crash else Failed (skip_to (offset b + 1) b)
            | Inr (e, skipped) \<Rightarrow>
                let cap = e - offset b - skipped + 1 in
                if \<not> allocate (hooks b) cap then Failed (skip_to (offset b + 1) b)
                else
                  (case string_loop (content b) cap e (offset b + 1) [] of
                     StrCrash \<Rightarrow> Crash
                   | StrFail i \<Rightarrow> Failed (skip_to i b)
                   | StrOk out i \<Rightarrow>
                       Parsed (item\<lparr>jtype := cJSON_String, valuestring := Some (c_string out)\<rparr>) (skip_to (e + 1) b))))"

section \<open>Numbers\<close>

definition number_char :: "u8 \<Rightarrow> bool" where
  "number_char c \<longleftrightarrow> 48 \<le> c \<and> c \<le> 57 \<or> c = 43 \<or> c = 45 \<or> c = 101 \<or> c = 69 \<or> c = 46"

text \<open>At most \<open>n\<close> characters are copied; the decimal point of the locale is a point.\<close>

fun number_run :: "nat \<Rightarrow> bytes \<Rightarrow> bytes" where
  "number_run n [] = []"
| "number_run n (c # cs) = (if 0 < n \<and> number_char c then c # number_run (n - 1) cs else [])"

definition parse_number :: "'d fp \<Rightarrow> 'd node \<Rightarrow> parse_buffer \<Rightarrow> 'd node parse_result" where
  "parse_number F item b =
    (let number_c_string = number_run 63 (drop (offset b) (take (pb_length b) (content b)));
         (number, n) = strtod F number_c_string
     in if n = 0 then Failed b
        else Parsed (item\<lparr>valuedouble := number, valueint := saturate F number, jtype := cJSON_Number\<rparr>)
               (skip_to (offset b + n) b))"

end
