(* ===== verification/Cjson_Parse.thy ===== *)
theory Cjson_Parse
  imports Cjson_Base
begin

text \<open>
  The recursive part of the parser: \<open>parse_value\<close>, \<open>parse_array\<close> and \<open>parse_object\<close> with the loops over
  their elements, and the entry points with their error report.  The fuel bounds the recursion and the
  loops together; every round of a loop and every nested value consumes a byte.
\<close>

section \<open>Values\<close>

definition at_char :: "parse_buffer \<Rightarrow> u8 \<Rightarrow> bool" where
  "at_char b c \<longleftrightarrow> can_access_at_index b 0 \<and> at_offset b = Some c"

text \<open>The part that arrays and objects share: the opening bracket, and the way to the first element.\<close>

definition open_list :: "u8 \<Rightarrow> u8 \<Rightarrow> parse_buffer \<Rightarrow> (parse_buffer \<Rightarrow> 'a list parse_result) \<Rightarrow> 'a list parse_result" where
  "open_list opening closing b items =
    (let b = buffer_skip_whitespace (b\<lparr>offset := offset b + 1\<rparr>) in
     if at_char b closing then Parsed [] b
     else if \<not> can_access_at_index b 0 then Failed (b\<lparr>offset := offset b - 1\<rparr>)
     else items (b\<lparr>offset := offset b - 1\<rparr>))"

text \<open>And the closing one.\<close>

definition close_list :: "u8 \<Rightarrow> u32 \<Rightarrow> 'd node \<Rightarrow> 'd cJSON list \<Rightarrow> parse_buffer \<Rightarrow> 'd cJSON parse_result" where
  "close_list closing t item head b =
    (if \<not> at_char b closing then Failed b
     else Parsed (CJSON (item\<lparr>jtype := t\<rparr>) head) (b\<lparr>depth := depth b - 1, offset := offset b + 1\<rparr>))"

text \<open>Arrays and objects, given the loop over their elements.\<close>

definition parse_array :: "(parse_buffer \<Rightarrow> 'd cJSON list parse_result) \<Rightarrow> 'd node \<Rightarrow> parse_buffer \<Rightarrow> 'd cJSON parse_result" where
  "parse_array elements item b =
    (if CJSON_NESTING_LIMIT \<le> depth b then Failed b
     else
       let b = b\<lparr>depth := depth b + 1\<rparr> in
       (case at_offset b of
          None \<Rightarrow> Crash
        | Some c \<Rightarrow>
            if c \<noteq> 91 then Failed b
            else and_then (open_list 91 93 b elements) (close_list 93 cJSON_Array item)))"

definition parse_object :: "(parse_buffer \<Rightarrow> 'd cJSON list parse_result) \<Rightarrow> 'd node \<Rightarrow> parse_buffer \<Rightarrow> 'd cJSON parse_result" where
  "parse_object members item b =
    (if CJSON_NESTING_LIMIT \<le> depth b then Failed b
     else
       let b = b\<lparr>depth := depth b + 1\<rparr> in
       if \<not> at_char b 123 then Failed b
       else and_then (open_list 123 125 b members) (close_list 125 cJSON_Object item))"

text \<open>The head of a loop over elements: a new item, and the white space in front of the element.\<close>

definition next_item :: "'d fp \<Rightarrow> parse_buffer \<Rightarrow> 'd node parse_result" where
  "next_item F b =
    (case cJSON_New_Item F (hooks b) (pb_lineno b) of
       None \<Rightarrow> Crash
     | Some item \<Rightarrow> Parsed item (buffer_skip_whitespace (b\<lparr>offset := offset b + 1\<rparr>)))"

text \<open>The name of a member and the colon.\<close>

definition member_name :: "'d node \<Rightarrow> parse_buffer \<Rightarrow> 'd node parse_result" where
  "member_name item b =
    and_then (parse_string item b) (\<lambda>item b.
      let b = buffer_skip_whitespace b;
          item = item\<lparr>jstring := valuestring item, valuestring := None\<rparr>
      in if \<not> at_char b 58 then Failed b
         else Parsed item (buffer_skip_whitespace (b\<lparr>offset := offset b + 1\<rparr>)))"

definition number_starts :: "parse_buffer \<Rightarrow> bool" where
  "number_starts b \<longleftrightarrow> can_access_at_index b 0 \<and>
    (case at_offset b of None \<Rightarrow> False | Some c \<Rightarrow> c = 45 \<or> 48 \<le> c \<and> c \<le> 57)"

definition leaf :: "'d node \<Rightarrow> parse_buffer \<Rightarrow> 'd cJSON parse_result" where
  "leaf item b = Parsed (CJSON item []) b"

fun parse_value :: "'d fp \<Rightarrow> nat \<Rightarrow> 'd node \<Rightarrow> parse_buffer \<Rightarrow> 'd cJSON parse_result"
  and array_loop :: "'d fp \<Rightarrow> nat \<Rightarrow> 'd cJSON list \<Rightarrow> parse_buffer \<Rightarrow> 'd cJSON list parse_result"
  and object_loop :: "'d fp \<Rightarrow> nat \<Rightarrow> 'd cJSON list \<Rightarrow> parse_buffer \<Rightarrow> 'd cJSON list parse_result"
where
  "parse_value F 0 item b = Stuck"
| "parse_value F (Suc n) item b =
    (if can_read b 4 \<and> starts b [110, 117, 108, 108] then
       leaf (item\<lparr>jtype := cJSON_NULL\<rparr>) (skip_to (offset b + 4) b)
     else if can_read b 5 \<and> starts b [102, 97, 108, 115, 101] then
       leaf (item\<lparr>jtype := cJSON_False\<rparr>) (skip_to (offset b + 5) b)
     else if can_read b 4 \<and> starts b [116, 114, 117, 101] then
       leaf (item\<lparr>jtype := cJSON_True, valueint := 1\<rparr>) (skip_to (offset b + 4) b)
     else if at_char b 34 then and_then (parse_string item b) leaf
     else if number_starts b then and_then (parse_number F item b) leaf
     else if at_char b 91 then parse_array (array_loop F n []) item b
     else if at_char b 123 then parse_object (object_loop F n []) item b
     else Failed b)"
| "array_loop F 0 items b = Stuck"
| "array_loop F (Suc n) items b =
    and_then (next_item F b) (\<lambda>item b.
      and_then (parse_value F n item b) (\<lambda>item b.
        let b = buffer_skip_whitespace b in
        if at_char b 44 then array_loop F n (items @ [item]) b else Parsed (items @ [item]) b))"
| "object_loop F 0 items b = Stuck"
| "object_loop F (Suc n) items b =
    and_then (next_item F b) (\<lambda>item b.
      and_then (member_name item b) (\<lambda>item b.
        and_then (parse_value F n item b) (\<lambda>item b.
          let b = buffer_skip_whitespace b in
          if at_char b 44 then object_loop F n (items @ [item]) b else Parsed (items @ [item]) b)))"

section \<open>Texts\<close>

record error =
  err_json :: "bytes option"
  err_position :: nat
  err_lineno :: nat

definition no_error :: error where
  "no_error = \<lparr>err_json = None, err_position = 0, err_lineno = 0\<rparr>"

text \<open>A call yields the root, the place that \<open>return_parse_end\<close> gets, and the new \<open>global_error\<close>.\<close>

datatype 'd outcome = Outcome "'d cJSON option" "nat option" error | OutCrash | OutStuck

definition parse_failure :: "bytes \<Rightarrow> parse_buffer \<Rightarrow> 'd outcome" where
  "parse_failure v b =
    (let pos = (if offset b < pb_length b then offset b else if 0 < pb_length b then pb_length b - 1 else 0)
     in Outcome None (Some pos) \<lparr>err_json = Some v, err_position = pos, err_lineno = pb_lineno b\<rparr>)"

definition new_buffer :: "internal_hooks \<Rightarrow> bytes \<Rightarrow> parse_buffer" where
  "new_buffer h v =
    \<lparr>content = v @ [0], pb_length = length v + 1, offset = 0, depth = 0, pb_lineno = 1, hooks = h\<rparr>"

definition parse_fuel :: "bytes \<Rightarrow> nat" where
  "parse_fuel v = 2 * length v + 5"

definition cJSON_ParseWithOpts ::
  "'d fp \<Rightarrow> internal_hooks \<Rightarrow> error \<Rightarrow> bytes option \<Rightarrow> bool \<Rightarrow> 'd outcome" where
  "cJSON_ParseWithOpts F h global_error v require_null_terminated =
    (let global_error = global_error\<lparr>err_json := None, err_position := 0\<rparr> in
     case v of
       None \<Rightarrow> Outcome None None global_error
     | Some v \<Rightarrow>
         let b = new_buffer h v in
         (case cJSON_New_Item F h (pb_lineno b) of
            None \<Rightarrow> OutCrash
          | Some item \<Rightarrow>
              (case parse_value F (parse_fuel v) item (buffer_skip_whitespace (skip_utf8_bom b)) of
                 Stuck \<Rightarrow> OutStuck
               | Crash \<Rightarrow> OutCrash
               | Failed b \<Rightarrow> parse_failure v b
               | Parsed root b \<Rightarrow>
                   if require_null_terminated then
                     let b = buffer_skip_whitespace b in
                     if pb_length b \<le> offset b then parse_failure v b
                     else
                       (case at_offset b of
                          None \<Rightarrow> OutCrash
                        | Some c \<Rightarrow>
                            if c \<noteq> 0 then parse_failure v b
                            else Outcome (Some root) (Some (offset b)) global_error)
                   else Outcome (Some root) (Some (offset b)) global_error)))"

definition cJSON_Parse :: "'d fp \<Rightarrow> internal_hooks \<Rightarrow> error \<Rightarrow> bytes option \<Rightarrow> 'd outcome" where
  "cJSON_Parse F h g v = cJSON_ParseWithOpts F h g v False"

text \<open>\<open>None\<close>: there is no error text, since no text has been parsed.\<close>

definition cJSON_GetErrorPtr :: "error \<Rightarrow> bytes option" where
  "cJSON_GetErrorPtr g = map_option (drop (err_position g)) (err_json g)"

definition CJSON_ERRBUF_SIZE :: nat where
  "CJSON_ERRBUF_SIZE = 128"

definition cJSON_GetErrorMsg :: "error \<Rightarrow> bytes option" where
  "cJSON_GetErrorMsg g = map_option (\<lambda>s.
     take (CJSON_ERRBUF_SIZE - 1) (cstr ''line: '' @ decimal_text (err_lineno g) @ cstr '', content: '' @ s))
     (cJSON_GetErrorPtr g)"

end
