(* ===== verification/Cjson_Safety.thy ===== *)
theory Cjson_Safety
  imports Cjson_Parse
begin

text \<open>
  The parser is safe: on every text it ends within its fuel, reads nothing behind the terminating NUL,
  and writes a string into no more memory than it has asked for.  What it accepts nests no deeper than
  the limit, and no line number exceeds the lines of the text.
\<close>

section \<open>Lines and white space\<close>

definition newlines :: "bytes \<Rightarrow> nat" where
  "newlines bs = length (filter (\<lambda>c. c = 10) bs)"

text \<open>The line of the place \<open>i\<close> of a text.\<close>

definition line_at :: "bytes \<Rightarrow> nat \<Rightarrow> nat" where
  "line_at v i = 1 + newlines (take i v)"

lemma line_at_mono: "i \<le> j \<Longrightarrow> line_at v i \<le> line_at v j"
proof -
  assume "i \<le> j"
  then have "take j v = take i v @ take (j - i) (drop i v)" using take_add [of i "j - i" v] by simp
  then show ?thesis by (simp add: line_at_def newlines_def)
qed

lemma line_at_Suc: "i < length v \<Longrightarrow> line_at v (Suc i) = line_at v i + (if v ! i = 10 then 1 else 0)"
  by (simp add: line_at_def newlines_def take_Suc_conv_app_nth)

definition buf_ok :: "bytes \<Rightarrow> parse_buffer \<Rightarrow> bool" where
  "buf_ok v b \<longleftrightarrow> content b = v @ [0] \<and> pb_length b = Suc (length v) \<and> offset b \<le> length v"

lemma skip_loop_ok:
  assumes "skip_loop (v @ [0]) (Suc (length v)) i l = (j, l')" "i \<le> Suc (length v)" "l \<le> line_at v i"
  shows "i \<le> j \<and> j \<le> Suc (length v) \<and> l' \<le> line_at v j"
  using assms
proof (induction "v @ [0 :: u8]" "Suc (length v)" i l rule: skip_loop.induct)
  case (1 i l)
  show ?case
  proof (cases "i < Suc (length v) \<and> (v @ [0]) ! i \<le> 32")
    case True
    let ?l = "if (v @ [0]) ! i = 10 then Suc l else l"
    have "?l \<le> line_at v (Suc i)"
      using True 1(4) line_at_mono [of i "Suc i" v]
      by (cases "i < length v") (auto simp: line_at_Suc nth_append less_Suc_eq)
    then show ?thesis
      using 1(1) [OF True] 1(2) True by (simp add: skip_loop.simps [of _ _ i])
  next
    case False
    with 1 show ?thesis by (auto simp: skip_loop.simps [of _ _ i])
  qed
qed

lemma line_at_end: "length v \<le> j \<Longrightarrow> line_at v j = line_at v (length v)"
  by (simp add: line_at_def)

text \<open>What every step of the parser keeps, and that the place does not move back.\<close>

definition moved :: "parse_buffer \<Rightarrow> parse_buffer \<Rightarrow> bool" where
  "moved b b' \<longleftrightarrow> content b' = content b \<and> pb_length b' = pb_length b \<and> hooks b' = hooks b \<and> offset b \<le> offset b'"

lemma moved_refl [simp]: "moved b b"
  by (simp add: moved_def)

lemma moved_trans: "moved a b \<Longrightarrow> moved b c \<Longrightarrow> moved a c"
  by (auto simp: moved_def)

lemma buf_ok_moved: "buf_ok v b \<Longrightarrow> moved b b' \<Longrightarrow> offset b' \<le> length v \<Longrightarrow> buf_ok v b'"
  by (auto simp: buf_ok_def moved_def)

lemma skip_whitespace_ok:
  assumes "buf_ok v b" "pb_lineno b \<le> line_at v (offset b)"
  shows "buf_ok v (buffer_skip_whitespace b) \<and> moved b (buffer_skip_whitespace b) \<and>
    depth (buffer_skip_whitespace b) = depth b \<and>
    pb_lineno (buffer_skip_whitespace b) \<le> line_at v (offset (buffer_skip_whitespace b))"
proof -
  obtain j l where s: "skip_loop (content b) (pb_length b) (offset b) (pb_lineno b) = (j, l)" by fastforce
  with assms have "offset b \<le> j \<and> j \<le> Suc (length v) \<and> l \<le> line_at v j"
    using skip_loop_ok [of v "offset b" "pb_lineno b" j l] by (simp add: buf_ok_def)
  with s assms line_at_end [of v j] show ?thesis
    by (auto simp: buffer_skip_whitespace_def buf_ok_def moved_def le_Suc_eq)
qed

text \<open>The step over a character and the white space behind it.\<close>

lemma step_ok:
  assumes "buf_ok v b" "offset b < length v" "pb_lineno b \<le> line_at v (Suc (offset b))"
  shows "buf_ok v (buffer_skip_whitespace (b\<lparr>offset := Suc (offset b)\<rparr>)) \<and>
    moved b (buffer_skip_whitespace (b\<lparr>offset := Suc (offset b)\<rparr>)) \<and>
    offset b < offset (buffer_skip_whitespace (b\<lparr>offset := Suc (offset b)\<rparr>)) \<and>
    depth (buffer_skip_whitespace (b\<lparr>offset := Suc (offset b)\<rparr>)) = depth b \<and>
    pb_lineno (buffer_skip_whitespace (b\<lparr>offset := Suc (offset b)\<rparr>)) \<le>
      line_at v (offset (buffer_skip_whitespace (b\<lparr>offset := Suc (offset b)\<rparr>)))"
proof -
  have "buf_ok v (b\<lparr>offset := Suc (offset b)\<rparr>)" using assms(1,2) by (simp add: buf_ok_def)
  from skip_whitespace_ok [OF this] assms(3) show ?thesis by (auto simp: moved_def)
qed

section \<open>The output of a string\<close>

lemma unat_byte_32: "unat (ucast (c :: u8) :: u32) = unat c"
proof -
  have "unat c < 2 ^ 32" using unsigned_less [of c, where ?'a = nat] by simp
  then show ?thesis by (simp add: unsigned_ucast_eq take_bit_nat_eq_self)
qed

lemma hex_digit_value:
  "hex4_digit c = Some d \<Longrightarrow> unat d = (if c \<le> 57 then unat c - 48 else if c \<le> 70 then unat c - 55 else unat c - 87) \<and> unat d < 16"
proof -
  assume a: "hex4_digit c = Some d"
  have s: "unat (ucast c - n :: u32) = unat c - unat n" if "unat n \<le> unat c" for n
    using that by (simp add: unat_sub word_le_nat_alt unat_byte_32)
  have t: "10 + ucast c - 65 = (ucast c - 55 :: u32)" "10 + ucast c - 97 = (ucast c - 87 :: u32)" by simp_all
  from a show ?thesis
    unfolding hex4_digit_def t by (auto simp: s word_le_nat_alt split: if_splits)
qed

lemmas hex_digit_less = hex_digit_value [THEN conjunct2]

lemma push_4_value: "unat (w :: u32) < 268435456 \<Longrightarrow> unat (push_bit 4 w) = 16 * unat w"
  by (simp add: push_bit_eq_mult unat_word_ariths)

lemma push_4_add:
  assumes "unat (h :: u32) < 4096" "unat d < 16"
  shows "unat (push_bit 4 h + d) = 16 * unat h + unat d"
  using assms by (simp add: unat_word_ariths push_4_value)

text \<open>Four digits, the first one of the highest value; anything else is 0.\<close>

definition hex_value :: "u8 \<Rightarrow> nat option" where
  "hex_value c = map_option unat (hex4_digit c)"

lemma parse_hex4_value:
  "unat (parse_hex4 (a # b # c # d # rest)) =
    (case (hex_value a, hex_value b, hex_value c, hex_value d) of
       (Some a, Some b, Some c, Some d) \<Rightarrow> ((a * 16 + b) * 16 + c) * 16 + d
     | _ \<Rightarrow> 0)"
proof -
  have l: "hex4_digit x = Some y \<Longrightarrow> unat y < 16" for x y by (rule hex_digit_less)
  have "unat (push_bit 4 (push_bit 4 (push_bit 4 p + q) + r) + s) = ((unat p * 16 + unat q) * 16 + unat r) * 16 + unat s"
    if "unat p < 16" "unat q < 16" "unat r < 16" "unat s < 16" for p q r s :: u32
    using that by (simp add: push_4_add)
  then show ?thesis
    using l [of a] l [of b] l [of c] l [of d]
    by (simp add: parse_hex4_def eval_nat_numeral hex_value_def split: option.splits)
qed

lemma parse_hex4_less: "4 \<le> length inp \<Longrightarrow> unat (parse_hex4 inp) < 65536"
proof -
  assume "4 \<le> length inp"
  then obtain a b c d rest where i: "inp = a # b # c # d # rest"
    by (auto simp: Suc_le_length_iff eval_nat_numeral)
  have l: "hex_value x = Some y \<Longrightarrow> y \<le> 15" for x y by (auto simp: hex_value_def dest!: hex_digit_less)
  show ?thesis
    unfolding i parse_hex4_value
    by (simp split: option.splits, intro allI impI, (drule l)+, simp)
qed

lemma length_utf8_tail: "length (snd (utf8_tail n cp out)) = n + length out"
  by (induction n arbitrary: cp out) simp_all

lemma utf8_encode_length:
  assumes "utf8_encode cp = Some out"
  shows "length out = (if cp < 128 then 1 else if cp < 2048 then 2 else if cp < 65536 then 3 else 4)"
  using assms length_utf8_tail [of "fst (the (utf8_form cp)) - 1" cp "[]"]
  by (auto simp: utf8_encode_def utf8_form_def case_prod_beta split: if_splits)

lemma unat_u32_64: "unat (ucast (w :: u32) :: u64) = unat w"
proof -
  have "unat w < 2 ^ 64" by (rule less_trans [OF unat_lt_2_32]) simp
  then show ?thesis by (simp add: unsigned_ucast_eq take_bit_nat_eq_self)
qed

lemma utf16_literal_length:
  assumes "utf16_literal_to_utf8 inp = Some (n, out)"
  shows "n \<le> length inp \<and> (n = 6 \<and> length out \<le> 3 \<or> n = 12 \<and> length out \<le> 4)"
proof -
  obtain cp where cp: "utf16_codepoint inp = Some (n, cp)" "utf8_encode cp = Some out"
    using assms by (auto simp: utf16_literal_to_utf8_def split: option.splits)
  have "n = 6 \<and> n \<le> length inp \<and> cp = ucast (parse_hex4 (drop 2 inp)) \<or> n = 12 \<and> n \<le> length inp"
    using cp(1) by (auto simp: utf16_codepoint_def Let_def split: if_splits)
  moreover have "ucast (parse_hex4 (drop 2 inp)) < (65536 :: u64)" if "6 \<le> length inp"
    using parse_hex4_less [of "drop 2 inp"] that by (simp add: word_less_nat_alt unat_u32_64)
  ultimately show ?thesis using utf8_encode_length [OF cp(2)] by auto
qed

text \<open>The first pass: it ends at a quote, and an escape takes two places.\<close>

lemma scan_cases:
  assumes "string_scan bs n i k = Inr (e, t)"
  shows "i < n \<and> i < length bs \<and>
    (i = e \<and> k = t \<and> bs ! i = 34 \<or>
     bs ! i = 92 \<and> string_scan bs n (i + 2) (Suc k) = Inr (e, t) \<or>
     bs ! i \<noteq> 34 \<and> bs ! i \<noteq> 92 \<and> string_scan bs n (i + 1) k = Inr (e, t))"
  using assms by (simp add: string_scan.simps [of bs n i] read_at_def split: if_splits)

lemma scan_end:
  "string_scan bs n i k = Inr (e, t) \<Longrightarrow>
    i \<le> e \<and> e < n \<and> e < length bs \<and> bs ! e = 34 \<and> k \<le> t \<and> 2 * (t - k) \<le> e - i"
proof (induction bs n i k rule: string_scan.induct)
  case (1 bs n i k)
  note c = scan_cases [OF "1.prems"]
  from c consider "i = e" "k = t" "bs ! i = 34" | "bs ! i = 92" "string_scan bs n (i + 2) (Suc k) = Inr (e, t)"
    | "bs ! i \<noteq> 34" "bs ! i \<noteq> 92" "string_scan bs n (i + 1) k = Inr (e, t)" by blast
  then show ?case
  proof cases
    case 1
    with c show ?thesis by simp
  next
    case 2
    moreover have "\<not> n \<le> i + 1"
      using "1.prems" c 2(1) by (auto simp: string_scan.simps [of bs n i] read_at_def)
    ultimately have "i + 2 \<le> e \<and> e < n \<and> e < length bs \<and> bs ! e = 34 \<and> Suc k \<le> t \<and> 2 * (t - Suc k) \<le> e - (i + 2)"
      using c by (intro "1.IH"(1)) (auto simp: read_at_def)
    then show ?thesis by linarith
  next
    case 3
    then have "i + 1 \<le> e \<and> e < n \<and> e < length bs \<and> bs ! e = 34 \<and> k \<le> t \<and> 2 * (t - k) \<le> e - (i + 1)"
      using c by (intro "1.IH"(2)) (auto simp: read_at_def)
    then show ?thesis by linarith
  qed
qed

text \<open>
  The second pass may fall out of step with the first, by one place: the literal \<open>\\u\<close> takes whatever
  follows it.
\<close>

definition in_step :: "bytes \<Rightarrow> nat \<Rightarrow> nat \<Rightarrow> nat \<Rightarrow> nat \<Rightarrow> nat \<Rightarrow> nat \<Rightarrow> bool" where
  "in_step bs n e t i s k \<longleftrightarrow> string_scan bs n s k = Inr (e, t) \<and> (s = i \<or> s = Suc i)"

lemma in_step_Suc:
  assumes "in_step bs n e t i s k" "i < e"
  shows "\<exists>s' k'. in_step bs n e t (Suc i) s' k' \<and> k \<le> k' \<and> 2 * (k' - k) + s \<le> s'"
proof (cases "s = i")
  case True
  with assms scan_cases [of bs n i k e t] have
    "string_scan bs n (Suc (Suc i)) (Suc k) = Inr (e, t) \<or> string_scan bs n (Suc i) k = Inr (e, t)"
    by (auto simp: in_step_def)
  with True show ?thesis
    unfolding in_step_def by (metis Suc_eq_plus1 add_2_eq_Suc add_diff_cancel_left' diff_self_eq_0 le_SucI le_refl
        mult.right_neutral mult_0_right plus_1_eq_Suc add_0)
next
  case False
  with assms have "in_step bs n e t (Suc i) s k" by (auto simp: in_step_def)
  then show ?thesis by (intro exI [of _ s] exI [of _ k]) simp
qed

lemma in_step_advance:
  assumes "in_step bs n e t i s k" "i \<le> j" "j \<le> e"
  shows "\<exists>s' k'. in_step bs n e t j s' k' \<and> k \<le> k' \<and> 2 * (k' - k) + s \<le> s'"
  using assms(2,3)
proof (induction j rule: dec_induct)
  case base
  with assms(1) show ?case by (intro exI [of _ s] exI [of _ k]) simp
next
  case (step j)
  then obtain s1 k1 where 1: "in_step bs n e t j s1 k1" "k \<le> k1" "2 * (k1 - k) + s \<le> s1" by auto
  from in_step_Suc [OF 1(1)] step.prems obtain s2 k2 where
    2: "in_step bs n e t (Suc j) s2 k2" "k1 \<le> k2" "2 * (k2 - k1) + s1 \<le> s2" by auto
  from 1 2 have "k \<le> k2" "2 * (k2 - k) + s \<le> s2" by linarith+
  with 2(1) show ?case by blast
qed

lemma in_step_room:
  assumes "in_step bs n e t i s k" "i \<le> e" "length out + (e - i) + 1 + k \<le> cap + t"
  shows "length out + 1 \<le> cap"
proof -
  from assms(1) have "string_scan bs n s k = Inr (e, t)" "s = i \<or> s = Suc i" by (auto simp: in_step_def)
  with scan_end [OF this(1)] have "2 * (t - k) \<le> e - i" "k \<le> t" by auto
  with assms(2,3) show ?thesis by linarith
qed

lemma string_escape_ok:
  assumes "i < e" "e < length bs"
  shows "case string_escape bs i e of Inl crash \<Rightarrow> \<not> crash
    | Inr (n, w) \<Rightarrow> n = 2 \<and> length w = 1 \<or> i + n \<le> e \<and> (n = 6 \<and> length w \<le> 3 \<or> n = 12 \<and> length w \<le> 4)"
proof -
  have "i + n \<le> e \<and> (n = 6 \<and> length w \<le> 3 \<or> n = 12 \<and> length w \<le> 4)"
    if "utf16_literal_to_utf8 (drop i (take e bs)) = Some (n, w)" for n w
    using utf16_literal_length [OF that] assms by auto
  then show ?thesis using assms by (auto simp: string_escape_def read_at_def split: option.splits)
qed

definition within :: "nat \<Rightarrow> nat \<Rightarrow> string_end \<Rightarrow> bool" where
  "within i e r \<longleftrightarrow> (case r of StrCrash \<Rightarrow> False | StrFail j \<Rightarrow> i \<le> j \<and> j < e | StrOk out j \<Rightarrow> True)"

lemma within_mono: "within j e r \<Longrightarrow> i \<le> j \<Longrightarrow> within i e r"
  by (auto simp: within_def split: string_end.splits)

text \<open>The room that is left after \<open>m\<close> bytes have been read and \<open>w\<close> has been written.\<close>

lemma in_step_next:
  assumes s: "in_step bs n e t i s k" "length out + (e - i) + 1 + k \<le> cap + t" "i < e"
    and m: "i + m \<le> e" "length w \<le> m"
    and lag: "\<And>s' k'. in_step bs n e t (i + m) s' k' \<Longrightarrow> 2 * (k' - k) + s \<le> s' \<Longrightarrow> k \<le> k' \<Longrightarrow> length w + (k' - k) \<le> m"
  shows "\<exists>s k. in_step bs n e t (i + m) s k \<and> length (out @ w) + (e - (i + m)) + 1 + k \<le> cap + t"
proof -
  from in_step_advance [OF s(1), of "i + m"] m(1) obtain s' k' where
    s': "in_step bs n e t (i + m) s' k'" "k \<le> k'" "2 * (k' - k) + s \<le> s'" by auto
  with lag have "length w + (k' - k) \<le> m" by blast
  with s' s(2,3) m have "length (out @ w) + (e - (i + m)) + 1 + k' \<le> cap + t" by simp
  with s'(1) show ?thesis by blast
qed

lemma in_step_escape:
  assumes s: "in_step bs n e t i s k" "length out + (e - i) + 1 + k \<le> cap + t" "i < e" and esc: "bs ! i = 92"
    and mw: "m = 2 \<and> length w = 1 \<or> i + m \<le> e \<and> (m = 6 \<and> length w \<le> 3 \<or> m = 12 \<and> length w \<le> 4)"
  shows "(i + m \<le> e \<longrightarrow> (\<exists>s k. in_step bs n e t (i + m) s k \<and> length (out @ w) + (e - (i + m)) + 1 + k \<le> cap + t)) \<and>
    length (out @ w) + 1 \<le> cap"
proof (cases "i + m \<le> e")
  case True
  have lag: "i \<le> s \<and> s \<le> Suc i" "\<And>m s' k'. in_step bs n e t (i + m) s' k' \<Longrightarrow> s' \<le> Suc (i + m)"
    using s(1) by (auto simp: in_step_def)
  have adv: "\<exists>s k. in_step bs n e t (i + m) s k \<and> length (out @ w) + (e - (i + m)) + 1 + k \<le> cap + t"
    by (rule in_step_next [OF s True]) (use mw lag in \<open>force+\<close>)
  with in_step_room [OF _ True] show ?thesis by blast
next
  case False
  with mw s(3) have "e = Suc i" "length w = 1" by auto
  moreover from this s(1) esc scan_cases [of bs n i k e t] scan_end [of bs n "i + 2" "Suc k" e t] scan_end [of bs n s k e t]
  have "s = e" "t = k" by (auto simp: in_step_def)
  ultimately show ?thesis using s(2) False by simp
qed

lemma in_step_plain:
  assumes s: "in_step bs n e t i s k" "length out + (e - i) + 1 + k \<le> cap + t" "i < e" and "bs ! i \<noteq> 92"
  shows "\<exists>s k. in_step bs n e t (i + 1) s k \<and> length (out @ [bs ! i]) + (e - (i + 1)) + 1 + k \<le> cap + t"
proof -
  have "in_step bs n e t (i + 1) (i + 1) k"
    using s(1,3) scan_cases [of bs n i k e t] assms(4) by (auto simp: in_step_def)
  then show ?thesis using s(2,3) by (intro exI [of _ "i + 1"] exI [of _ k]) simp
qed

lemma string_loop_end:
  assumes "\<not> i < e" "i \<le> e \<Longrightarrow> \<exists>s k. in_step bs n e t i s k \<and> length out + (e - i) + 1 + k \<le> cap + t"
    and "e < i \<Longrightarrow> length out + 1 \<le> cap"
  shows "within i e (string_loop bs cap e i out)"
proof -
  have "length out + 1 \<le> cap"
  proof (cases "e < i")
    case True
    with assms(3) show ?thesis .
  next
    case False
    with assms(1,2) obtain s k where s: "in_step bs n e t i s k" "length out + 1 + k \<le> cap + t" "e = i" by auto
    then have "t = k" using scan_end [of bs n s k e t] by (auto simp: in_step_def)
    with s show ?thesis by simp
  qed
  with assms(1) show ?thesis by (simp add: string_loop.simps [of _ _ _ i] emit_bytes_def within_def)
qed

lemma string_loop_within:
  assumes "i \<le> e \<Longrightarrow> \<exists>s k. in_step bs n e t i s k \<and> length out + (e - i) + 1 + k \<le> cap + t"
    and "e < i \<Longrightarrow> length out + 1 \<le> cap" "e < length bs"
  shows "within i e (string_loop bs cap e i out)"
  using assms
proof (induction bs cap e i out rule: string_loop.induct)
  case (1 bs cap e i out)
  show ?case
  proof (cases "i < e")
    case False
    from string_loop_end [OF this "1.prems"(1,2)] show ?thesis .
  next
    case True
    with "1.prems" obtain s k where s: "in_step bs n e t i s k" "length out + (e - i) + 1 + k \<le> cap + t" by auto
    note room = in_step_room [OF s(1) less_imp_le [OF True] s(2)]
    have r: "read_at bs i = Some (bs ! i)" using True "1.prems"(3) by (simp add: read_at_def)
    show ?thesis
    proof (cases "bs ! i = 92")
      case False
      have "within (i + 1) e (string_loop bs cap e (i + 1) (out @ [bs ! i]))"
        using in_step_plain [OF s True False] True False r room "1.prems"(3)
        by (intro "1.IH"(1)) (auto simp: emit_bytes_def)
      then have "within i e (string_loop bs cap e (i + 1) (out @ [bs ! i]))" by (rule within_mono) simp
      with True False r room show ?thesis by (simp add: string_loop.simps [of _ _ _ i] emit_bytes_def)
    next
      case esc: True
      note ok = string_escape_ok [OF True "1.prems"(3)]
      show ?thesis
      proof (cases "string_escape bs i e")
        case (Inl crash)
        with ok esc r True show ?thesis by (simp add: string_loop.simps [of _ _ _ i] within_def)
      next
        case (Inr p)
        obtain m w where p: "p = (m, w)" by (cases p)
        with Inr ok have "m = 2 \<and> length w = 1 \<or> i + m \<le> e \<and> (m = 6 \<and> length w \<le> 3 \<or> m = 12 \<and> length w \<le> 4)" by simp
        note fits = in_step_escape [OF s True esc this]
        have "within (i + m) e (string_loop bs cap e (i + m) (out @ w))"
          by (rule "1.IH"(2) [OF True r _ Inr p [symmetric]])
            (use esc fits "1.prems"(3) in \<open>simp_all add: emit_bytes_def\<close>)
        then have "within i e (string_loop bs cap e (i + m) (out @ w))" by (rule within_mono) simp
        with True esc r Inr p fits show ?thesis by (simp add: string_loop.simps [of _ _ _ i] emit_bytes_def)
      qed
    qed
  qed
qed

section \<open>Leaves\<close>

text \<open>
  What a parser that starts at \<open>b\<close> does: it succeeds behind its start, on the line of the text, or it
  fails at a place of the text.
\<close>

definition goes :: "bytes \<Rightarrow> parse_buffer \<Rightarrow> ('a \<Rightarrow> bool) \<Rightarrow> 'a parse_result \<Rightarrow> bool" where
  "goes v b P m \<longleftrightarrow>
    (case m of
       Parsed x b' \<Rightarrow> buf_ok v b' \<and> moved b b' \<and> offset b < offset b' \<and> depth b' = depth b \<and>
         pb_lineno b' \<le> line_at v (offset b') \<and> P x
     | Failed b' \<Rightarrow> content b' = v @ [0] \<and> pb_length b' = Suc (length v) \<and> offset b' \<le> Suc (length v) \<and>
         pb_lineno b' \<le> line_at v (length v)
     | Crash \<Rightarrow> False | Stuck \<Rightarrow> False)"

lemma goes_then:
  assumes "goes v b P m" "\<And>x b'. P x \<Longrightarrow> buf_ok v b' \<Longrightarrow> moved b b' \<Longrightarrow> offset b < offset b' \<Longrightarrow> depth b' = depth b \<Longrightarrow>
    pb_lineno b' \<le> line_at v (offset b') \<Longrightarrow> goes v b Q (f x b')"
  shows "goes v b Q (and_then m f)"
  using assms by (cases m) (auto simp: goes_def)

lemma goes_weaken: "goes v b P m \<Longrightarrow> (\<And>x. P x \<Longrightarrow> Q x) \<Longrightarrow> goes v b Q m"
  by (cases m) (auto simp: goes_def)

lemma goes_from:
  assumes "goes v b' P m" "moved b b'" "depth b' = depth b"
  shows "goes v b P m"
  using assms by (cases m) (auto simp: goes_def moved_def)

lemma line_at_le: "i \<le> length v \<Longrightarrow> l \<le> line_at v i \<Longrightarrow> l \<le> line_at v (length v)"
  using line_at_mono le_trans by blast

lemma goes_fail:
  assumes "buf_ok v b" "offset b' \<le> Suc (length v)" "content b' = content b" "pb_length b' = pb_length b"
    and "pb_lineno b' \<le> line_at v (length v)"
  shows "goes v a P (Failed b')"
  using assms by (simp add: goes_def buf_ok_def)

lemma goes_parsed:
  assumes "buf_ok v b" "pb_lineno b \<le> line_at v (offset b)" "offset b < i" "i \<le> length v" "P x"
  shows "goes v b P (Parsed x (skip_to i b))"
  using assms line_at_mono [of "offset b" i v] by (auto simp: goes_def buf_ok_def moved_def skip_to_def)

lemma at_offset_ok: "buf_ok v b \<Longrightarrow> at_offset b = Some ((v @ [0]) ! offset b)"
  by (simp add: at_offset_def read_at_def buf_ok_def)

lemma at_char_ok: "buf_ok v b \<Longrightarrow> at_char b c \<longleftrightarrow> (v @ [0]) ! offset b = c"
  by (auto simp: at_char_def at_offset_ok can_access_at_index_def buf_ok_def)

lemma at_char_inside: "buf_ok v b \<Longrightarrow> at_char b c \<Longrightarrow> c \<noteq> 0 \<Longrightarrow> offset b < length v \<and> v ! offset b = c"
  by (auto simp: at_char_def at_offset_def read_at_def buf_ok_def nth_append less_Suc_eq split: if_splits)

lemma scan_no_crash: "n \<le> length bs \<Longrightarrow> string_scan bs n i k \<noteq> Inl True"
proof (induction bs n i k rule: string_scan.induct)
  case (1 bs n i k)
  then show ?case by (auto simp: string_scan.simps [of bs n i] read_at_def)
qed

lemma parse_string_ok:
  assumes b: "buf_ok v b" and l: "pb_lineno b \<le> line_at v (offset b)"
  shows "goes v b (\<lambda>x. lineno x = lineno item \<and> jtype x = cJSON_String) (parse_string item b)"
proof -
  note fail = goes_fail [OF b]
  have l': "pb_lineno b \<le> line_at v (length v)" using b l line_at_le by (auto simp: buf_ok_def)
  have here: "offset b + 1 \<le> Suc (length v)" using b by (simp add: buf_ok_def)
  show ?thesis
  proof (cases "(v @ [0]) ! offset b = 34")
    case False
    with l' here show ?thesis
      by (auto simp: parse_string_def at_offset_ok [OF b] skip_to_def intro!: fail)
  next
    case True
    have bs: "content b = v @ [0]" "pb_length b = length (v @ [0])" using b by (simp_all add: buf_ok_def)
    show ?thesis
    proof (cases "string_scan (content b) (pb_length b) (offset b + 1) 0")
      case (Inl crash)
      with scan_no_crash [of "pb_length b" "content b"] bs have "\<not> crash" by (cases crash) auto
      with Inl True l' here show ?thesis
        by (auto simp: parse_string_def at_offset_ok [OF b] skip_to_def intro!: fail)
    next
      case (Inr p)
      obtain e t where p: "p = (e, t)" by (cases p)
      note scan = Inr [unfolded p]
      have e: "offset b < e" "e < length v" "2 * t \<le> e - (offset b + 1)"
        using scan_end [OF scan] bs by (auto simp: nth_append less_Suc_eq split: if_splits)
      let ?cap = "e - offset b - t + 1"
      have "within (offset b + 1) e (string_loop (content b) ?cap e (offset b + 1) [])"
      proof (rule string_loop_within)
        show "\<exists>s k. in_step (content b) (pb_length b) e t (offset b + 1) s k \<and>
            length [] + (e - (offset b + 1)) + 1 + k \<le> ?cap + t"
          using scan e by (intro exI [of _ "offset b + 1"] exI [of _ 0]) (auto simp: in_step_def)
      qed (use e bs in auto)
      then show ?thesis
        using True scan e l l' bs
        by (auto simp: parse_string_def at_offset_ok [OF b] Let_def within_def skip_to_def
            intro!: fail goes_parsed [OF b, unfolded skip_to_def] split: string_end.splits)
    qed
  qed
qed

text \<open>\<open>strtod\<close> stops inside of its text.\<close>

definition strtod_ok :: "'d fp \<Rightarrow> bool" where
  "strtod_ok F \<longleftrightarrow> (\<forall>s. snd (strtod F s) \<le> length s)"

lemma number_run_inside: "i \<le> length v \<Longrightarrow> i + length (number_run n (drop i (v @ [0]))) \<le> length v"
proof (induction n arbitrary: i)
  case 0
  then show ?case by (cases "drop i (v @ [0])") simp_all
next
  case (Suc n)
  show ?case
  proof (cases "i < length v")
    case True
    then have "drop i (v @ [0]) = v ! i # drop (Suc i) (v @ [0])"
      by (metis Cons_nth_drop_Suc length_append_singleton less_SucI nth_append)
    with Suc.IH [of "Suc i"] True show ?thesis by simp
  next
    case False
    with Suc.prems show ?thesis by (simp add: number_char_def)
  qed
qed

lemma parse_number_ok:
  assumes "buf_ok v b" "pb_lineno b \<le> line_at v (offset b)" "strtod_ok F"
  shows "goes v b (\<lambda>x. lineno x = lineno item \<and> jtype x = cJSON_Number) (parse_number F item b)"
proof -
  let ?s = "number_run 63 (drop (offset b) (take (pb_length b) (content b)))"
  obtain d n where d: "strtod F ?s = (d, n)" by fastforce
  have "n \<le> length ?s" using assms(3) d by (metis strtod_ok_def snd_conv)
  moreover have "offset b + length ?s \<le> length v"
    using number_run_inside [of "offset b" v 63] assms(1) by (simp add: buf_ok_def)
  ultimately have "offset b + n \<le> length v" by simp
  with d assms line_at_le [of "offset b" v "pb_lineno b"] show ?thesis
    by (auto simp: parse_number_def Let_def buf_ok_def intro!: goes_fail [OF assms(1)] goes_parsed [OF assms(1)])
qed

section \<open>Values\<close>

text \<open>How deep arrays and objects nest, and the lines of an item.\<close>

fun nesting :: "'d cJSON \<Rightarrow> nat" where
  "nesting (CJSON x items) =
    (if jtype x = cJSON_Array \<or> jtype x = cJSON_Object then Suc (foldr max (map nesting items) 0) else 0)"

fun lines_ok :: "nat \<Rightarrow> 'd cJSON \<Rightarrow> bool" where
  "lines_ok n (CJSON x items) \<longleftrightarrow> lineno x \<le> n \<and> list_all (lines_ok n) items"

definition item_ok :: "bytes \<Rightarrow> nat \<Rightarrow> 'd cJSON \<Rightarrow> bool" where
  "item_ok v d x \<longleftrightarrow> lines_ok (line_at v (length v)) x \<and> nesting x + d \<le> CJSON_NESTING_LIMIT"

text \<open>What is left of the text, and the fuel that is enough for it.\<close>

definition rest :: "bytes \<Rightarrow> parse_buffer \<Rightarrow> nat" where
  "rest v b = Suc (length v) - offset b"

definition enter_ok :: "bytes \<Rightarrow> parse_buffer \<Rightarrow> bool" where
  "enter_ok v b \<longleftrightarrow> buf_ok v b \<and> pb_lineno b \<le> line_at v (offset b) \<and> depth b \<le> CJSON_NESTING_LIMIT \<and>
    allocate (hooks b) sizeof_cJSON"

definition json_loop_ok :: "bytes \<Rightarrow> parse_buffer \<Rightarrow> bool" where
  "json_loop_ok v b \<longleftrightarrow> buf_ok v b \<and> offset b < length v \<and> pb_lineno b \<le> line_at v (Suc (offset b)) \<and>
    depth b \<le> CJSON_NESTING_LIMIT \<and> allocate (hooks b) sizeof_cJSON"

lemma loop_ok_enter: "enter_ok v b \<Longrightarrow> at_char b c \<Longrightarrow> c \<noteq> 0 \<Longrightarrow> json_loop_ok v b"
  using at_char_inside [of v b c] line_at_mono [of "offset b" "Suc (offset b)" v]
  by (auto simp: enter_ok_def json_loop_ok_def)

lemma next_item_ok:
  assumes "json_loop_ok v b"
  shows "goes v b (\<lambda>x. lineno x \<le> line_at v (length v)) (next_item F b)"
proof -
  have "pb_lineno b \<le> line_at v (length v)"
    using assms line_at_le [of "Suc (offset b)" v] by (auto simp: json_loop_ok_def)
  with step_ok [of v b] assms show ?thesis
    by (simp add: next_item_def cJSON_New_Item_def json_loop_ok_def goes_def)
qed

lemma enter_ok_moved:
  assumes "buf_ok v b'" "moved b b'" "depth b' = depth b" "pb_lineno b' \<le> line_at v (offset b')"
    and "depth b \<le> CJSON_NESTING_LIMIT" "allocate (hooks b) sizeof_cJSON"
  shows "enter_ok v b'"
  using assms by (auto simp: enter_ok_def moved_def)

lemma skip_enter:
  assumes "enter_ok v b"
  shows "enter_ok v (buffer_skip_whitespace b) \<and> moved b (buffer_skip_whitespace b) \<and>
    depth (buffer_skip_whitespace b) = depth b"
  using skip_whitespace_ok [of v b] assms by (auto simp: enter_ok_def moved_def)

lemma member_name_ok:
  assumes "enter_ok v b"
  shows "goes v b (\<lambda>x. lineno x = lineno item) (member_name item b)"
  unfolding member_name_def
proof (rule goes_then [where P = "\<lambda>x. lineno x = lineno item"])
  show "goes v b (\<lambda>x. lineno x = lineno item) (parse_string item b)"
    by (rule goes_weaken [OF parse_string_ok]) (use assms in \<open>auto simp: enter_ok_def\<close>)
next
  fix x b1
  assume x: "lineno x = lineno item" and m: "buf_ok v b1" "moved b b1" "offset b < offset b1" "depth b1 = depth b"
    "pb_lineno b1 \<le> line_at v (offset b1)"
  with assms have "enter_ok v b1" by (intro enter_ok_moved [of v b1 b]) (auto simp: enter_ok_def)
  note s = skip_enter [OF this]
  let ?b = "buffer_skip_whitespace b1"
  show "goes v b (\<lambda>x. lineno x = lineno item)
      (let b = ?b; item = x\<lparr>jstring := valuestring x, valuestring := None\<rparr>
       in if \<not> at_char b 58 then Failed b
          else Parsed item (buffer_skip_whitespace (b\<lparr>offset := offset b + 1\<rparr>)))"
  proof (cases "at_char ?b 58")
    case False
    with s line_at_le [of "offset ?b" v "pb_lineno ?b"] show ?thesis
      by (auto simp: Let_def enter_ok_def goes_def buf_ok_def)
  next
    case True
    with s have "json_loop_ok v ?b" by (auto intro: loop_ok_enter)
    with step_ok [of v ?b] s m x True show ?thesis
      by (auto simp: Let_def goes_def json_loop_ok_def moved_def)
  qed
qed

lemma starts_inside:
  assumes "buf_ok v b" "starts b s" "0 \<notin> set s"
  shows "offset b + length s \<le> length v"
proof (rule ccontr)
  assume n: "\<not> offset b + length s \<le> length v"
  have s: "take (length s) (drop (offset b) v @ [0]) = s" and o: "offset b \<le> length v"
    using assms(1,2) by (auto simp: starts_def buf_ok_def)
  from n o have "take (length s) (drop (offset b) v @ [0]) = drop (offset b) v @ [0]" by simp
  with s assms(3) show False by (metis in_set_conv_decomp)
qed

lemma nesting_list: "foldr max (map nesting items) 0 + d \<le> n \<longleftrightarrow> d \<le> n \<and> list_all (\<lambda>x. nesting x + d \<le> n) items"
  by (induction items) auto

lemma item_ok_list:
  assumes "list_all (item_ok v (Suc d)) items" "lineno x \<le> line_at v (length v)" "Suc d \<le> CJSON_NESTING_LIMIT"
  shows "item_ok v d (CJSON x items)"
  using assms nesting_list [of items "Suc d" CJSON_NESTING_LIMIT] by (auto simp: item_ok_def list_all_iff)

lemma leaf_ok:
  assumes "goes v b (\<lambda>x. lineno x = lineno item \<and> jtype x \<noteq> cJSON_Array \<and> jtype x \<noteq> cJSON_Object) m"
    and "enter_ok v b" "lineno item \<le> line_at v (length v)"
  shows "goes v b (item_ok v (depth b)) (and_then m leaf)"
  using assms by (intro goes_then [OF assms(1)]) (auto simp: leaf_def goes_def item_ok_def enter_ok_def)

lemma literal_ok:
  assumes "enter_ok v b" "starts b s" "0 \<notin> set s" "s \<noteq> []" "n = offset b + length s"
    and "lineno x \<le> line_at v (length v)" "jtype x \<noteq> cJSON_Array" "jtype x \<noteq> cJSON_Object"
  shows "goes v b (item_ok v (depth b)) (leaf x (skip_to n b))"
  unfolding leaf_def
  using assms starts_inside [of v b s]
  by (intro goes_parsed [of v b]) (auto simp: enter_ok_def item_ok_def)

lemma open_list_ok:
  assumes "json_loop_ok v b" "Q []"
    and "\<And>b'. json_loop_ok v b' \<Longrightarrow> moved b b' \<Longrightarrow> depth b' = depth b \<Longrightarrow> goes v b' Q (items b')"
  shows "goes v b Q (open_list opening closing b items)"
proof -
  let ?b = "buffer_skip_whitespace (b\<lparr>offset := Suc (offset b)\<rparr>)"
  have s: "buf_ok v ?b" "moved b ?b" "offset b < offset ?b" "depth ?b = depth b" "pb_lineno ?b \<le> line_at v (offset ?b)"
    using step_ok [of v b] assms(1) by (auto simp: json_loop_ok_def)
  let ?c = "?b\<lparr>offset := offset ?b - 1\<rparr>"
  have c: "json_loop_ok v ?c" "moved b ?c"
    using s assms(1) by (auto simp: json_loop_ok_def buf_ok_def moved_def)
  have "goes v b Q (items ?c)"
    by (rule goes_from [OF assms(3) [OF c] c(2)]) (simp_all add: s)
  with s assms(2) show ?thesis
    by (auto simp: open_list_def Let_def goes_def can_access_at_index_def buf_ok_def)
qed

lemma close_list_ok:
  assumes "json_loop_ok v b" "depth b = Suc d" "closing \<noteq> 0" "lineno item \<le> line_at v (length v)" "t = cJSON_Array \<or> t = cJSON_Object"
    and "list_all (item_ok v (Suc d)) head" "buf_ok v b'" "moved b b'" "offset b < offset b'" "depth b' = depth b"
    and "pb_lineno b' \<le> line_at v (offset b')"
  shows "goes v (b\<lparr>depth := d\<rparr>) (item_ok v d) (close_list closing t item head b')"
proof (cases "at_char b' closing")
  case False
  with assms line_at_le [of "offset b'" v] show ?thesis
    by (auto simp: close_list_def goes_def buf_ok_def)
next
  case True
  have "item_ok v d (CJSON (item\<lparr>jtype := t\<rparr>) head)"
    using assms by (intro item_ok_list) (auto simp: json_loop_ok_def)
  with True assms at_char_inside [of v b' closing] line_at_mono [of "offset b'" "Suc (offset b')" v] show ?thesis
    by (auto simp: close_list_def goes_def buf_ok_def moved_def)
qed

lemma list_ok:
  assumes "enter_ok v b" "at_char b opening" "opening \<noteq> 0" "closing \<noteq> 0" "lineno item \<le> line_at v (length v)"
    and "t = cJSON_Array \<or> t = cJSON_Object" "depth b < CJSON_NESTING_LIMIT"
    and loop: "\<And>b'. json_loop_ok v b' \<Longrightarrow> rest v b' \<le> rest v b \<Longrightarrow> goes v b' (list_all (item_ok v (depth b'))) (items b')"
  shows "goes v b (item_ok v (depth b))
    (and_then (open_list opening closing (b\<lparr>depth := Suc (depth b)\<rparr>) items) (close_list closing t item))"
proof -
  let ?b = "b\<lparr>depth := Suc (depth b)\<rparr>"
  have l: "json_loop_ok v ?b"
    using loop_ok_enter [OF assms(1,2,3)] assms(7) by (auto simp: json_loop_ok_def buf_ok_def)
  have o: "goes v ?b (list_all (item_ok v (Suc (depth b)))) (open_list opening closing ?b items)"
  proof (rule open_list_ok [OF l])
    fix b'
    assume a: "json_loop_ok v b'" "moved ?b b'" "depth b' = depth ?b"
    have "goes v b' (list_all (item_ok v (depth b'))) (items b')"
      using a by (intro loop) (auto simp: rest_def moved_def)
    with a show "goes v b' (list_all (item_ok v (Suc (depth b)))) (items b')" by simp
  qed simp
  have "goes v (?b\<lparr>depth := depth b\<rparr>) (item_ok v (depth b)) (close_list closing t item x b')"
    if "list_all (item_ok v (Suc (depth b))) x" "buf_ok v b'" "moved ?b b'" "offset ?b < offset b'" "depth b' = depth ?b"
      "pb_lineno b' \<le> line_at v (offset b')" for x b'
    using that assms(4-6) by (intro close_list_ok [OF l]) auto
  moreover have "?b\<lparr>depth := depth b\<rparr> = b" by simp
  ultimately show ?thesis
    using o by (cases "open_list opening closing ?b items") (auto simp: goes_def)
qed

lemma parse_array_ok:
  assumes "enter_ok v b" "at_char b 91" "lineno item \<le> line_at v (length v)"
    and "\<And>b'. json_loop_ok v b' \<Longrightarrow> rest v b' \<le> rest v b \<Longrightarrow> goes v b' (list_all (item_ok v (depth b'))) (elements b')"
  shows "goes v b (item_ok v (depth b)) (parse_array elements item b)"
proof (cases "CJSON_NESTING_LIMIT \<le> depth b")
  case True
  with assms(1) line_at_le [of "offset b" v "pb_lineno b"] show ?thesis
    by (auto simp: parse_array_def enter_ok_def buf_ok_def intro!: goes_fail [of v b])
next
  case False
  have "buf_ok v b" using assms(1) by (simp add: enter_ok_def)
  then have "at_offset (b\<lparr>depth := Suc (depth b)\<rparr>) = Some 91"
    using assms(2) by (simp add: at_char_def at_offset_def)
  with False list_ok [OF assms(1,2) _ _ assms(3) _ _ assms(4), of 93 cJSON_Array] show ?thesis
    by (simp add: parse_array_def Let_def)
qed

lemma parse_object_ok:
  assumes "enter_ok v b" "at_char b 123" "lineno item \<le> line_at v (length v)"
    and "\<And>b'. json_loop_ok v b' \<Longrightarrow> rest v b' \<le> rest v b \<Longrightarrow> goes v b' (list_all (item_ok v (depth b'))) (members b')"
  shows "goes v b (item_ok v (depth b)) (parse_object members item b)"
proof (cases "CJSON_NESTING_LIMIT \<le> depth b")
  case True
  with assms(1) line_at_le [of "offset b" v "pb_lineno b"] show ?thesis
    by (auto simp: parse_object_def enter_ok_def buf_ok_def intro!: goes_fail [of v b])
next
  case False
  have "at_char (b\<lparr>depth := Suc (depth b)\<rparr>) 123"
    using assms(2) by (simp add: at_char_def at_offset_def can_access_at_index_def)
  with False list_ok [OF assms(1,2) _ _ assms(3) _ _ assms(4), of 125 cJSON_Object] show ?thesis
    by (simp add: parse_object_def Let_def)
qed

text \<open>The end of a round of a loop: a comma, or the end of the list.\<close>

lemma round_ok:
  assumes "json_loop_ok v b" "list_all (item_ok v (depth b)) items" "item_ok v (depth b) x"
    and "enter_ok v b'" "moved b b'" "offset b < offset b'" "depth b' = depth b"
    and loop: "\<And>b'. json_loop_ok v b' \<Longrightarrow> moved b b' \<Longrightarrow> offset b < offset b' \<Longrightarrow> depth b' = depth b \<Longrightarrow>
      goes v b' (list_all (item_ok v (depth b))) (loop (items @ [x]) b')"
  shows "goes v b (list_all (item_ok v (depth b)))
    (let b = buffer_skip_whitespace b' in
     if at_char b 44 then loop (items @ [x]) b else Parsed (items @ [x]) b)"
proof -
  let ?b = "buffer_skip_whitespace b'"
  have s: "enter_ok v ?b" "moved b ?b" "offset b < offset ?b" "depth ?b = depth b"
    using skip_enter [OF assms(4)] assms(5-7) by (auto simp: moved_def)
  have "goes v b (list_all (item_ok v (depth b))) (loop (items @ [x]) ?b)" if "at_char ?b 44"
    by (rule goes_from [OF loop]) (use s loop_ok_enter [OF s(1) that] in auto)
  with s assms(2,3) show ?thesis by (auto simp: Let_def goes_def enter_ok_def)
qed

lemma element_ok:
  fixes items :: "'d cJSON list"
  assumes "json_loop_ok v b" "list_all (item_ok v (depth b)) items" "moved b b'" "depth b' = depth b"
    and m: "goes v b' (item_ok v (depth b)) m"
    and loop: "\<And>x b'. item_ok v (depth b) x \<Longrightarrow> json_loop_ok v b' \<Longrightarrow> moved b b' \<Longrightarrow> offset b < offset b' \<Longrightarrow>
      depth b' = depth b \<Longrightarrow> goes v b' (list_all (item_ok v (depth b))) (loop (items @ [x]) b')"
  shows "goes v b (list_all (item_ok v (depth b))) (and_then m (\<lambda>x b.
    let b = buffer_skip_whitespace b in
    if at_char b 44 then loop (items @ [x]) b else Parsed (items @ [x]) b))"
proof (rule goes_then [OF goes_from [OF m assms(3,4)]])
  fix x :: "'d cJSON" and b2
  assume x: "item_ok v (depth b) x" and g: "buf_ok v b2" "moved b b2" "offset b < offset b2" "depth b2 = depth b"
    "pb_lineno b2 \<le> line_at v (offset b2)"
  have "enter_ok v b2" using g assms(1) by (intro enter_ok_moved [of v b2 b]) (simp_all add: json_loop_ok_def)
  then show "goes v b (list_all (item_ok v (depth b))) (let b = buffer_skip_whitespace b2 in
      if at_char b 44 then loop (items @ [x]) b else Parsed (items @ [x]) b)"
    by (rule round_ok [OF assms(1,2) x _ g(2-4), where loop = loop]) (rule loop [OF x])
qed

text \<open>The rest of a text shrinks by a round.\<close>

lemma rest_moved: "offset b < offset b' \<Longrightarrow> buf_ok v b' \<Longrightarrow> Suc (rest v b') \<le> rest v b"
  by (auto simp: rest_def buf_ok_def)

text \<open>A value, with the loops over its elements as an assumption.\<close>

lemma value_ok:
  fixes F :: "'d fp"
  assumes F: "strtod_ok F" and e: "enter_ok v b" and l: "lineno item \<le> line_at v (length v)"
    and array: "at_char b 91 \<Longrightarrow> goes v b (item_ok v (depth b)) (parse_array (array_loop F n []) item b)"
    and object: "at_char b 123 \<Longrightarrow> goes v b (item_ok v (depth b)) (parse_object (object_loop F n []) item b)"
  shows "goes v b (item_ok v (depth b)) (parse_value F (Suc n) item b)"
proof -
  have b: "buf_ok v b" "pb_lineno b \<le> line_at v (offset b)" using e by (auto simp: enter_ok_def)
  have "goes v b (item_ok v (depth b)) (and_then (parse_string item b) leaf)"
    by (rule leaf_ok [OF goes_weaken [OF parse_string_ok [OF b]] e l]) (simp add: cjson_types)
  moreover have "goes v b (item_ok v (depth b)) (and_then (parse_number F item b) leaf)"
    by (rule leaf_ok [OF goes_weaken [OF parse_number_ok [OF b F]] e l]) (simp add: cjson_types)
  moreover have "goes v b (item_ok v (depth b)) (Failed b :: 'd cJSON parse_result)"
    using b line_at_le [of "offset b" v] by (auto simp: goes_def buf_ok_def)
  moreover have "goes v b (item_ok v (depth b)) (leaf (item\<lparr>jtype := cJSON_NULL\<rparr>) (skip_to (offset b + 4) b))"
    if "starts b [110, 117, 108, 108]"
    using l by (intro literal_ok [OF e that]) (auto simp: cjson_types)
  moreover have "goes v b (item_ok v (depth b)) (leaf (item\<lparr>jtype := cJSON_False\<rparr>) (skip_to (offset b + 5) b))"
    if "starts b [102, 97, 108, 115, 101]"
    using l by (intro literal_ok [OF e that]) (auto simp: cjson_types)
  moreover have "goes v b (item_ok v (depth b)) (leaf (item\<lparr>jtype := cJSON_True, valueint := 1\<rparr>) (skip_to (offset b + 4) b))"
    if "starts b [116, 114, 117, 101]"
    using l by (intro literal_ok [OF e that]) (auto simp: cjson_types)
  ultimately show ?thesis using array object by simp
qed

text \<open>A round of either loop, from the value of the element on.\<close>

lemma loop_round_ok:
  fixes r :: "'d cJSON parse_result"
  assumes lo: "json_loop_ok v b" and fuel: "2 * rest v b \<le> Suc (Suc n)" and items: "list_all (item_ok v (depth b)) items"
    and m: "moved b b1" "depth b1 = depth b" and r: "goes v b1 (item_ok v (depth b)) r"
    and go_on: "\<And>items b2. json_loop_ok v b2 \<Longrightarrow> 2 * rest v b2 \<le> Suc n \<Longrightarrow> list_all (item_ok v (depth b2)) items \<Longrightarrow>
      goes v b2 (list_all (item_ok v (depth b2))) (f items b2)"
  shows "goes v b (list_all (item_ok v (depth b))) (and_then r (\<lambda>item b.
    let b = buffer_skip_whitespace b in if at_char b 44 then f (items @ [item]) b else Parsed (items @ [item]) b))"
proof (rule element_ok [OF lo items m r])
  fix y :: "'d cJSON" and b2
  assume y: "item_ok v (depth b) y" and g: "json_loop_ok v b2" "offset b < offset b2" "depth b2 = depth b"
  have "2 * rest v b2 \<le> Suc n" using rest_moved [OF g(2), of v] g(1) fuel by (simp add: json_loop_ok_def)
  from go_on [OF g(1) this, of "items @ [y]"] items y g(3)
  show "goes v b2 (list_all (item_ok v (depth b))) (f (items @ [y]) b2)" by simp
qed

text \<open>The loops, with the values as an assumption.\<close>

lemma array_loop_ok:
  fixes F :: "'d fp"
  assumes lo: "json_loop_ok v b" and fuel: "2 * rest v b \<le> Suc (Suc n)" and items: "list_all (item_ok v (depth b)) items"
    and one: "\<And>x b1. enter_ok v b1 \<Longrightarrow> 2 * rest v b1 \<le> n \<Longrightarrow> lineno x \<le> line_at v (length v) \<Longrightarrow>
      goes v b1 (item_ok v (depth b1)) (parse_value F n x b1)"
    and others: "\<And>items b2. json_loop_ok v b2 \<Longrightarrow> 2 * rest v b2 \<le> Suc n \<Longrightarrow> list_all (item_ok v (depth b2)) items \<Longrightarrow>
      goes v b2 (list_all (item_ok v (depth b2))) (array_loop F n items b2)"
  shows "goes v b (list_all (item_ok v (depth b))) (array_loop F (Suc n) items b)"
  unfolding array_loop.simps
proof (rule goes_then [OF next_item_ok [OF lo]])
  fix x :: "'d node" and b1
  assume x: "lineno x \<le> line_at v (length v)" and m: "buf_ok v b1" "moved b b1" "offset b < offset b1"
    "depth b1 = depth b" "pb_lineno b1 \<le> line_at v (offset b1)"
  have e: "enter_ok v b1" using m lo by (intro enter_ok_moved [of v b1 b]) (simp_all add: json_loop_ok_def)
  have "2 * rest v b1 \<le> n" using rest_moved [OF m(3,1)] fuel by linarith
  from one [OF e this x] m(4) have "goes v b1 (item_ok v (depth b)) (parse_value F n x b1)" by simp
  from loop_round_ok [OF lo fuel items m(2,4) this others]
  show "goes v b (list_all (item_ok v (depth b))) (and_then (parse_value F n x b1) (\<lambda>item b.
      let b = buffer_skip_whitespace b in if at_char b 44 then array_loop F n (items @ [item]) b else Parsed (items @ [item]) b))"
    by simp
qed

lemma object_loop_ok:
  fixes F :: "'d fp"
  assumes lo: "json_loop_ok v b" and fuel: "2 * rest v b \<le> Suc (Suc n)" and items: "list_all (item_ok v (depth b)) items"
    and one: "\<And>x b1. enter_ok v b1 \<Longrightarrow> 2 * rest v b1 \<le> n \<Longrightarrow> lineno x \<le> line_at v (length v) \<Longrightarrow>
      goes v b1 (item_ok v (depth b1)) (parse_value F n x b1)"
    and others: "\<And>items b2. json_loop_ok v b2 \<Longrightarrow> 2 * rest v b2 \<le> Suc n \<Longrightarrow> list_all (item_ok v (depth b2)) items \<Longrightarrow>
      goes v b2 (list_all (item_ok v (depth b2))) (object_loop F n items b2)"
  shows "goes v b (list_all (item_ok v (depth b))) (object_loop F (Suc n) items b)"
  unfolding object_loop.simps
proof (rule goes_then [OF next_item_ok [OF lo]])
  fix z :: "'d node" and b0
  assume z: "lineno z \<le> line_at v (length v)" and m0: "buf_ok v b0" "moved b b0" "offset b < offset b0"
    "depth b0 = depth b" "pb_lineno b0 \<le> line_at v (offset b0)"
  have e0: "enter_ok v b0" using m0 lo by (intro enter_ok_moved [of v b0 b]) (simp_all add: json_loop_ok_def)
  show "goes v b (list_all (item_ok v (depth b))) (and_then (member_name z b0) (\<lambda>item b.
      and_then (parse_value F n item b) (\<lambda>item b.
      let b = buffer_skip_whitespace b in if at_char b 44 then object_loop F n (items @ [item]) b else Parsed (items @ [item]) b)))"
  proof (rule goes_then [OF goes_from [OF member_name_ok [OF e0] m0(2,4)]])
    fix x :: "'d node" and b1
    assume x: "lineno x = lineno z" and m: "buf_ok v b1" "moved b b1" "offset b < offset b1"
      "depth b1 = depth b" "pb_lineno b1 \<le> line_at v (offset b1)"
    have e: "enter_ok v b1" using m lo by (intro enter_ok_moved [of v b1 b]) (simp_all add: json_loop_ok_def)
    have "2 * rest v b1 \<le> n" using rest_moved [OF m(3,1)] fuel by linarith
    from one [OF e this, of x] m(4) x z have "goes v b1 (item_ok v (depth b)) (parse_value F n x b1)" by simp
    from loop_round_ok [OF lo fuel items m(2,4) this others]
    show "goes v b (list_all (item_ok v (depth b))) (and_then (parse_value F n x b1) (\<lambda>item b.
        let b = buffer_skip_whitespace b in if at_char b 44 then object_loop F n (items @ [item]) b else Parsed (items @ [item]) b))"
      by simp
  qed
qed

lemma values_ok:
  fixes F :: "'d fp"
  assumes F: "strtod_ok F"
  shows "enter_ok v b \<Longrightarrow> 2 * rest v b \<le> n \<Longrightarrow> lineno item \<le> line_at v (length v) \<Longrightarrow>
      goes v b (item_ok v (depth b)) (parse_value F n item b)"
    and "json_loop_ok v b \<Longrightarrow> 2 * rest v b \<le> Suc n \<Longrightarrow> list_all (item_ok v (depth b)) items \<Longrightarrow>
      goes v b (list_all (item_ok v (depth b))) (array_loop F n items b)"
    and "json_loop_ok v b \<Longrightarrow> 2 * rest v b \<le> Suc n \<Longrightarrow> list_all (item_ok v (depth b)) items \<Longrightarrow>
      goes v b (list_all (item_ok v (depth b))) (object_loop F n items b)"
proof (induction n arbitrary: b item items)
  case 0
  {
    case 1
    then show ?case by (auto simp: enter_ok_def buf_ok_def rest_def)
  next
    case 2
    then show ?case by (auto simp: json_loop_ok_def buf_ok_def rest_def)
  next
    case 3
    then show ?case by (auto simp: json_loop_ok_def buf_ok_def rest_def)
  }
next
  case (Suc n)
  {
    case 1
    show ?case
    proof (rule value_ok [OF F 1(1,3)])
      show "goes v b (item_ok v (depth b)) (parse_array (array_loop F n []) item b)" if "at_char b 91"
        by (rule parse_array_ok [OF 1(1) that 1(3)], rule Suc.IH(2)) (use 1(2) in simp_all)
      show "goes v b (item_ok v (depth b)) (parse_object (object_loop F n []) item b)" if "at_char b 123"
        by (rule parse_object_ok [OF 1(1) that 1(3)], rule Suc.IH(3)) (use 1(2) in simp_all)
    qed
  next
    case 2
    then show ?case by (rule array_loop_ok [OF _ _ _ Suc.IH(1,2)])
  next
    case 3
    then show ?case by (rule object_loop_ok [OF _ _ _ Suc.IH(1,3)])
  }
qed

section \<open>Texts\<close>

lemma new_buffer_ok: "buf_ok v (skip_utf8_bom (new_buffer h v)) \<and> depth (skip_utf8_bom (new_buffer h v)) = 0 \<and>
    hooks (skip_utf8_bom (new_buffer h v)) = h \<and> pb_lineno (skip_utf8_bom (new_buffer h v)) = 1"
  by (auto simp: skip_utf8_bom_def new_buffer_def buf_ok_def can_access_at_index_def)

text \<open>The report of a failure.\<close>

definition report_ok :: "bytes \<Rightarrow> nat option \<Rightarrow> error \<Rightarrow> bool" where
  "report_ok v p g \<longleftrightarrow> err_json g = Some v \<and> err_position g \<le> length v \<and> p = Some (err_position g) \<and>
    err_lineno g \<le> line_at v (length v)"

definition outcome_ok :: "bytes \<Rightarrow> 'd outcome \<Rightarrow> bool" where
  "outcome_ok v out \<longleftrightarrow> (\<exists>r p g. out = Outcome r p g \<and>
    (case r of Some root \<Rightarrow> item_ok v 0 root \<and> (\<exists>i. p = Some i \<and> 0 < i \<and> i \<le> length v) | None \<Rightarrow> report_ok v p g))"

lemma outcome_ok_simps [simp]:
  "outcome_ok v (Outcome (Some root) p g) \<longleftrightarrow> item_ok v 0 root \<and> (\<exists>i. p = Some i \<and> 0 < i \<and> i \<le> length v)"
  "outcome_ok v (Outcome None p g) \<longleftrightarrow> report_ok v p g"
  by (simp_all add: outcome_ok_def)

lemma outcome_ok_failure:
  assumes "content b = v @ [0]" "pb_length b = Suc (length v)" "pb_lineno b \<le> line_at v (length v)"
  shows "outcome_ok v (parse_failure v b)"
  using assms by (simp add: parse_failure_def report_ok_def Let_def)

lemma parse_text_ok:
  assumes F: "strtod_ok F" and a: "allocate h sizeof_cJSON"
  shows "outcome_ok v (cJSON_ParseWithOpts F h g (Some v) z)"
proof -
  let ?s = "skip_utf8_bom (new_buffer h v)" and ?b = "buffer_skip_whitespace (skip_utf8_bom (new_buffer h v))"
  note s = new_buffer_ok [of v h]
  have "enter_ok v ?s" using s a by (simp add: enter_ok_def line_at_def)
  with s have e: "enter_ok v ?b" "depth ?b = 0" using skip_enter by auto
  obtain item where i: "cJSON_New_Item F h (pb_lineno (new_buffer h v)) = Some item" "lineno item = 1"
    using a by (simp add: cJSON_New_Item_def new_buffer_def)
  have p: "goes v ?b (item_ok v 0) (parse_value F (parse_fuel v) item ?b)"
    using values_ok(1) [OF F e(1), of "parse_fuel v" item] e i(2)
    by (simp add: rest_def parse_fuel_def line_at_def)
  show ?thesis
  proof (cases "parse_value F (parse_fuel v) item ?b")
    case (Failed b)
    with p i show ?thesis
      by (auto simp: cJSON_ParseWithOpts_def Let_def goes_def intro!: outcome_ok_failure)
  next
    case (Parsed root b)
    with p have g: "buf_ok v b" "moved ?b b" "offset ?b < offset b" "depth b = 0" "pb_lineno b \<le> line_at v (offset b)"
      "item_ok v 0 root" using e(2) by (simp_all add: goes_def)
    with e have eb: "enter_ok v b" by (intro enter_ok_moved [of v b ?b]) (simp_all add: enter_ok_def)
    let ?c = "buffer_skip_whitespace b"
    have c: "buf_ok v ?c" "offset b \<le> offset ?c" "pb_lineno ?c \<le> line_at v (length v)"
      using skip_enter [OF eb] line_at_le [of "offset ?c" v] by (auto simp: enter_ok_def moved_def buf_ok_def)
    have "outcome_ok v (parse_failure v ?c)"
      using c by (intro outcome_ok_failure) (simp_all add: buf_ok_def)
    with c g Parsed i show ?thesis
      by (auto simp: cJSON_ParseWithOpts_def Let_def at_offset_ok buf_ok_def)
  qed (use p in \<open>simp_all add: goes_def\<close>)
qed

end
