(* ===== verification/Cjson_Print.thy ===== *)
theory Cjson_Print
  imports Cjson_Base
begin

text \<open>
  The printer of \<open>cJSON.c\<close>: the growing output buffer with \<open>ensure\<close> and \<open>update_offset\<close>, the printers of
  numbers, strings, arrays and objects, and the entry points, with a buffer that grows or one of the
  caller's.  Every write goes to a place in the memory of the buffer; one that leaves it is a crash.
\<close>

section \<open>The output buffer\<close>

record printbuffer =
  p_buffer :: "bytes option"
  p_length :: nat
  p_offset :: nat
  p_depth :: nat
  noalloc :: bool
  format :: bool
  p_hooks :: internal_hooks

datatype printed = Printed printbuffer | NoPrint printbuffer | PrintCrash

fun p_then :: "printed \<Rightarrow> (printbuffer \<Rightarrow> printed) \<Rightarrow> printed" where
  "p_then (Printed p) f = f p"
| "p_then (NoPrint p) f = NoPrint p"
| "p_then PrintCrash f = PrintCrash"

text \<open>A new piece of memory that starts with the bytes \<open>bs\<close>.\<close>

definition memory :: "internal_hooks \<Rightarrow> nat \<Rightarrow> bytes \<Rightarrow> bytes" where
  "memory h n bs = bs @ map (fresh h n) [length bs..<n]"

definition grown_size :: "nat \<Rightarrow> nat option" where
  "grown_size needed =
    (if int needed > INT_MAX div 2 then if int needed \<le> INT_MAX then Some (nat INT_MAX) else None
     else Some (needed * 2))"

definition lost :: "printbuffer \<Rightarrow> printbuffer" where
  "lost p = p\<lparr>p_length := 0, p_buffer := None\<rparr>"

text \<open>The pointer that is returned is \<open>buffer + offset\<close>; \<open>NoPrint\<close> stands for the null pointer.\<close>

definition ensure :: "printbuffer \<Rightarrow> nat \<Rightarrow> printed" where
  "ensure p needed =
    (case p_buffer p of
       None \<Rightarrow> NoPrint p
     | Some mem \<Rightarrow>
         if 0 < p_length p \<and> p_length p \<le> p_offset p then NoPrint p
         else if int needed > INT_MAX then NoPrint p
         else let needed = needed + p_offset p + 1 in
           if needed \<le> p_length p then Printed p
           else if noalloc p then NoPrint p
           else
             (case grown_size needed of
                None \<Rightarrow> NoPrint p
              | Some newsize \<Rightarrow>
                  (case reallocate (p_hooks p) of
                     Some re \<Rightarrow>
                       if \<not> re newsize then NoPrint (lost p)
                       else Printed (p\<lparr>p_length := newsize, p_buffer := Some (memory (p_hooks p) newsize mem)\<rparr>)
                   | None \<Rightarrow>
                       if \<not> allocate (p_hooks p) newsize then NoPrint (lost p)
                       else if length mem < p_offset p + 1 then PrintCrash
                       else Printed (p\<lparr>p_length := newsize,
                              p_buffer := Some (memory (p_hooks p) newsize (take (p_offset p + 1) mem))\<rparr>))))"

text \<open>\<open>bs\<close> is written from place \<open>i\<close> on.\<close>

definition poke :: "nat \<Rightarrow> bytes \<Rightarrow> printbuffer \<Rightarrow> printed" where
  "poke i bs p =
    (case p_buffer p of
       None \<Rightarrow> PrintCrash
     | Some mem \<Rightarrow>
         if i + length bs \<le> length mem
         then Printed (p\<lparr>p_buffer := Some (take i mem @ bs @ drop (i + length bs) mem)\<rparr>)
         else PrintCrash)"

definition update_offset :: "printbuffer \<Rightarrow> printed" where
  "update_offset p =
    (case p_buffer p of
       None \<Rightarrow> Printed p
     | Some mem \<Rightarrow>
         if 0 \<in> set (drop (p_offset p) mem)
         then Printed (p\<lparr>p_offset := p_offset p + length (c_string (drop (p_offset p) mem))\<rparr>)
         else PrintCrash)"

definition add_offset :: "nat \<Rightarrow> printbuffer \<Rightarrow> printbuffer" where
  "add_offset n p = p\<lparr>p_offset := p_offset p + n\<rparr>"

text \<open>
  The pattern of all printers: make room for \<open>needed\<close> bytes, write \<open>bs\<close> at the offset, and advance by
  \<open>n\<close>.
\<close>

definition put_bytes :: "nat \<Rightarrow> bytes \<Rightarrow> nat \<Rightarrow> printbuffer \<Rightarrow> printed" where
  "put_bytes needed bs n p =
    p_then (ensure p needed) (\<lambda>p. p_then (poke (p_offset p) bs p) (\<lambda>p. Printed (add_offset n p)))"

section \<open>Leaves\<close>

definition number_text :: "'d fp \<Rightarrow> 'd \<Rightarrow> bytes" where
  "number_text F d =
    (if f_not_finite F d then [110, 117, 108, 108]
     else let s = sprintf_g F 15 d in
       (case sscanf_lg F s of
          None \<Rightarrow> sprintf_g F 17 d
        | Some t \<Rightarrow> if \<not> f_eq F t d then sprintf_g F 17 d else s))"

text \<open>\<open>number_buffer\<close> has 26 bytes; \<open>sprintf\<close> does not know.\<close>

definition print_number :: "'d fp \<Rightarrow> 'd node \<Rightarrow> printbuffer \<Rightarrow> printed" where
  "print_number F item p =
    (let s = number_text F (valuedouble item) in
     if 26 < length s + 1 then PrintCrash
     else put_bytes (length s + 1) (s @ [0]) (length s) p)"

definition one_char_escape :: "u8 \<Rightarrow> u8 option" where
  "one_char_escape c =
    (if c = 34 then Some 34
     else if c = 92 then Some 92
     else if c = 8 then Some 98
     else if c = 12 then Some 102
     else if c = 10 then Some 110
     else if c = 13 then Some 114
     else if c = 9 then Some 116
     else None)"

fun escape_characters :: "bytes \<Rightarrow> nat" where
  "escape_characters [] = 0"
| "escape_characters (c # cs) =
    (if one_char_escape c \<noteq> None then 1 else if c < 32 then 5 else 0) + escape_characters cs"

text \<open>A hexadecimal digit of \<open>%04x\<close>.\<close>

definition hex_char :: "nat \<Rightarrow> u8" where
  "hex_char n = (if n < 10 then 48 + of_nat n else 87 + of_nat n)"

definition printf_04x :: "u8 \<Rightarrow> bytes" where
  "printf_04x c = [48, 48, hex_char (unat c div 16), hex_char (unat c mod 16)]"

fun escaped :: "bytes \<Rightarrow> bytes" where
  "escaped [] = []"
| "escaped (c # cs) =
    (if 31 < c \<and> c \<noteq> 34 \<and> c \<noteq> 92 then [c]
     else 92 # (case one_char_escape c of Some e \<Rightarrow> [e] | None \<Rightarrow> 117 # printf_04x c)) @ escaped cs"

text \<open>
  The offset does not move.  The NUL that \<open>sprintf\<close> writes behind a \<open>\\u\<close> escape is overwritten by the
  character that follows, at the latest by the closing quote.
\<close>

definition print_string_ptr :: "bytes option \<Rightarrow> printbuffer \<Rightarrow> printed" where
  "print_string_ptr input p =
    (case input of
       None \<Rightarrow> put_bytes 3 [34, 34, 0] 0 p
     | Some s \<Rightarrow>
         let output_length = length s + escape_characters s in
         p_then (ensure p (output_length + 3)) (\<lambda>p.
           p_then (poke (p_offset p) (34 # (if escape_characters s = 0 then s else escaped s)) p)
             (poke (p_offset p + output_length + 1) [34, 0])))"

definition print_string :: "'d node \<Rightarrow> printbuffer \<Rightarrow> printed" where
  "print_string item p = print_string_ptr (valuestring item) p"

section \<open>Values\<close>

definition open_array :: "printbuffer \<Rightarrow> printed" where
  "open_array p = p_then (put_bytes 1 [91] 1 p) (\<lambda>p. Printed (p\<lparr>p_depth := p_depth p + 1\<rparr>))"

definition array_comma :: "printbuffer \<Rightarrow> printed" where
  "array_comma p =
    (let n = (if format p then 2 else 1)
     in put_bytes (n + 1) (44 # (if format p then [32] else []) @ [0]) n p)"

definition close_array :: "printbuffer \<Rightarrow> printed" where
  "close_array p = p_then (put_bytes 2 [93, 0] 0 p) (\<lambda>p. Printed (p\<lparr>p_depth := p_depth p - 1\<rparr>))"

definition open_object :: "printbuffer \<Rightarrow> printed" where
  "open_object p =
    (let n = (if format p then 2 else 1)
     in p_then (put_bytes (n + 1) (123 # (if format p then [10] else [])) n p)
          (\<lambda>p. Printed (p\<lparr>p_depth := p_depth p + 1\<rparr>)))"

definition object_indent :: "printbuffer \<Rightarrow> printed" where
  "object_indent p =
    (if format p then put_bytes (p_depth p) (replicate (p_depth p) 9) (p_depth p) p else Printed p)"

definition object_colon :: "printbuffer \<Rightarrow> printed" where
  "object_colon p =
    (let n = (if format p then 2 else 1) in put_bytes n (58 # (if format p then [9] else [])) n p)"

definition object_comma :: "bool \<Rightarrow> printbuffer \<Rightarrow> printed" where
  "object_comma has_next p =
    (let n = (if format p then 1 else 0) + (if has_next then 1 else 0)
     in put_bytes (n + 1) ((if has_next then [44] else []) @ (if format p then [10] else []) @ [0]) n p)"

definition close_object :: "printbuffer \<Rightarrow> printed" where
  "close_object p =
    p_then (put_bytes (if format p then p_depth p + 1 else 2)
        ((if format p then replicate (p_depth p - 1) 9 else []) @ [125, 0]) 0 p)
      (\<lambda>p. Printed (p\<lparr>p_depth := p_depth p - 1\<rparr>))"

definition print_raw :: "'d node \<Rightarrow> printbuffer \<Rightarrow> printed" where
  "print_raw item p =
    (case valuestring item of
       None \<Rightarrow> NoPrint p
     | Some s \<Rightarrow> put_bytes (length s + 1) (s @ [0]) 0 p)"

fun print_value :: "'d fp \<Rightarrow> 'd cJSON \<Rightarrow> printbuffer \<Rightarrow> printed"
  and print_elements :: "'d fp \<Rightarrow> 'd cJSON list \<Rightarrow> printbuffer \<Rightarrow> printed"
  and print_members :: "'d fp \<Rightarrow> 'd cJSON list \<Rightarrow> printbuffer \<Rightarrow> printed"
where
  "print_value F (CJSON item children) p =
    (let t = jtype item AND 255 in
     if t = cJSON_NULL then put_bytes 5 [110, 117, 108, 108, 0] 0 p
     else if t = cJSON_False then put_bytes 6 [102, 97, 108, 115, 101, 0] 0 p
     else if t = cJSON_True then put_bytes 5 [116, 114, 117, 101, 0] 0 p
     else if t = cJSON_Number then print_number F item p
     else if t = cJSON_Raw then print_raw item p
     else if t = cJSON_String then print_string item p
     else if t = cJSON_Array then
       p_then (open_array p) (\<lambda>p. p_then (print_elements F children p) close_array)
     else if t = cJSON_Object then
       p_then (open_object p) (\<lambda>p. p_then (print_members F children p) close_object)
     else NoPrint p)"
| "print_elements F [] p = Printed p"
| "print_elements F (item # items) p =
    p_then (print_value F item p) (\<lambda>p. p_then (update_offset p) (\<lambda>p.
      p_then (if items \<noteq> [] then array_comma p else Printed p) (print_elements F items)))"
| "print_members F [] p = Printed p"
| "print_members F (item # items) p =
    p_then (object_indent p) (\<lambda>p.
      p_then (print_string_ptr (jstring (node item)) p) (\<lambda>p. p_then (update_offset p) (\<lambda>p.
        p_then (object_colon p) (\<lambda>p.
          p_then (print_value F item p) (\<lambda>p. p_then (update_offset p) (\<lambda>p.
            p_then (object_comma (items \<noteq> []) p) (print_members F items)))))))"

section \<open>Entry points\<close>

text \<open>The memory that is returned, or the null pointer.\<close>

datatype text_out = TextOut bytes | TextNull | TextCrash

fun text_of :: "printed \<Rightarrow> (printbuffer \<Rightarrow> text_out) \<Rightarrow> text_out" where
  "text_of (Printed p) f = f p"
| "text_of (NoPrint p) f = TextNull"
| "text_of PrintCrash f = TextCrash"

definition default_buffer_size :: nat where
  "default_buffer_size = 256"

definition print_finish :: "internal_hooks \<Rightarrow> printbuffer \<Rightarrow> text_out" where
  "print_finish h p =
    (case p_buffer p of
       None \<Rightarrow> TextCrash
     | Some mem \<Rightarrow>
         (case reallocate h of
            Some re \<Rightarrow> if re (p_offset p + 1) then TextOut (memory h (p_offset p + 1) (take (p_offset p + 1) mem)) else TextNull
          | None \<Rightarrow>
              if allocate h (p_offset p + 1) then
                (let bs = take (min (p_length p) (p_offset p + 1)) mem
                 in TextOut ((memory h (p_offset p + 1) bs)[p_offset p := 0]))
              else TextNull))"

definition print :: "'d fp \<Rightarrow> 'd cJSON \<Rightarrow> bool \<Rightarrow> internal_hooks \<Rightarrow> text_out" where
  "print F item fmt h =
    (if \<not> allocate h default_buffer_size then TextNull
     else let p = \<lparr>p_buffer = Some (memory h default_buffer_size []), p_length = default_buffer_size, p_offset = 0,
                p_depth = 0, noalloc = False, format = fmt, p_hooks = h\<rparr>
       in text_of (print_value F item p) (\<lambda>p. text_of (update_offset p) (print_finish h)))"

definition cJSON_Print :: "'d fp \<Rightarrow> internal_hooks \<Rightarrow> 'd cJSON \<Rightarrow> text_out" where
  "cJSON_Print F h item = print F item True h"

definition cJSON_PrintUnformatted :: "'d fp \<Rightarrow> internal_hooks \<Rightarrow> 'd cJSON \<Rightarrow> text_out" where
  "cJSON_PrintUnformatted F h item = print F item False h"

definition cJSON_PrintBuffered :: "'d fp \<Rightarrow> internal_hooks \<Rightarrow> 'd cJSON \<Rightarrow> int \<Rightarrow> bool \<Rightarrow> text_out" where
  "cJSON_PrintBuffered F h item prebuffer fmt =
    (if prebuffer < 0 then TextNull
     else if \<not> allocate h (nat prebuffer) then TextNull
     else let p = \<lparr>p_buffer = Some (memory h (nat prebuffer) []), p_length = nat prebuffer, p_offset = 0,
                p_depth = 0, noalloc = False, format = fmt, p_hooks = h\<rparr>
       in text_of (print_value F item p)
            (\<lambda>p. case p_buffer p of None \<Rightarrow> TextNull | Some mem \<Rightarrow> TextOut mem))"

text \<open>The buffer of the caller, and whether it holds the text; \<open>None\<close> is a crash.\<close>

definition cJSON_PrintPreallocated ::
  "'d fp \<Rightarrow> internal_hooks \<Rightarrow> 'd cJSON \<Rightarrow> bytes option \<Rightarrow> int \<Rightarrow> bool \<Rightarrow> (bool \<times> bytes option) option" where
  "cJSON_PrintPreallocated F h item buf len fmt =
    (if len < 0 \<or> buf = None then Some (False, buf)
     else let p = \<lparr>p_buffer = buf, p_length = nat len, p_offset = 0, p_depth = 0, noalloc = True, format = fmt,
                p_hooks = h\<rparr>
       in (case print_value F item p of
             Printed p \<Rightarrow> Some (True, p_buffer p)
           | NoPrint p \<Rightarrow> Some (False, p_buffer p)
           | PrintCrash \<Rightarrow> None))"

end
