(* ===== verification/Cjson_Render.thy ===== *)
theory Cjson_Render
  imports Cjson_Print
begin

text \<open>
  The printer refines a renderer: the text of an item is a function of the item, whatever the size
  of the buffer, however often it grows, and whoever owns it.  No write leaves the memory of the
  buffer, and the printer gives up exactly when the text and two bytes more do not fit.
\<close>

section \<open>The renderer\<close>

definition quoted :: "bytes option \<Rightarrow> bytes" where
  "quoted s = (case s of None \<Rightarrow> [34, 34] | Some s \<Rightarrow> 34 # escaped s @ [34])"

fun render_value :: "'d fp \<Rightarrow> bool \<Rightarrow> nat \<Rightarrow> 'd cJSON \<Rightarrow> bytes"
  and render_elements :: "'d fp \<Rightarrow> bool \<Rightarrow> nat \<Rightarrow> 'd cJSON list \<Rightarrow> bytes"
  and render_members :: "'d fp \<Rightarrow> bool \<Rightarrow> nat \<Rightarrow> 'd cJSON list \<Rightarrow> bytes"
where
  "render_value F fmt d (CJSON item items) =
    (let t = jtype item AND 255 in
     if t = cJSON_NULL then [110, 117, 108, 108]
     else if t = cJSON_False then [102, 97, 108, 115, 101]
     else if t = cJSON_True then [116, 114, 117, 101]
     else if t = cJSON_Number then number_text F (valuedouble item)
     else if t = cJSON_Raw then the (valuestring item)
     else if t = cJSON_String then quoted (valuestring item)
     else if t = cJSON_Array then [91] @ render_elements F fmt (Suc d) items @ [93]
     else (123 # (if fmt then [10] else [])) @ render_members F fmt (Suc d) items @
       (if fmt then replicate d 9 else []) @ [125])"
| "render_elements F fmt d [] = []"
| "render_elements F fmt d (x # xs) =
    render_value F fmt d x @ (if xs \<noteq> [] then 44 # (if fmt then [32] else []) else []) @ render_elements F fmt d xs"
| "render_members F fmt d [] = []"
| "render_members F fmt d (x # xs) =
    (if fmt then replicate d 9 else []) @ quoted (jstring (node x)) @ (58 # (if fmt then [9] else [])) @
    render_value F fmt d x @ ((if xs \<noteq> [] then [44] else []) @ (if fmt then [10] else [])) @ render_members F fmt d xs"

text \<open>
  What can be printed: known types, strings without NUL, and numbers whose text fits the buffer that
  \<open>sprintf\<close> writes to.
\<close>

definition number_ok :: "'d fp \<Rightarrow> 'd \<Rightarrow> bool" where
  "number_ok F d \<longleftrightarrow> length (number_text F d) \<le> 25 \<and> 0 \<notin> set (number_text F d)"

definition nul_free :: "bytes option \<Rightarrow> bool" where
  "nul_free s = (case s of None \<Rightarrow> True | Some s \<Rightarrow> 0 \<notin> set s)"

fun printable :: "'d fp \<Rightarrow> 'd cJSON \<Rightarrow> bool" where
  "printable F (CJSON item items) =
    (let t = jtype item AND 255 in
     if t = cJSON_NULL \<or> t = cJSON_False \<or> t = cJSON_True then True
     else if t = cJSON_Number then number_ok F (valuedouble item)
     else if t = cJSON_Raw then nul_free (valuestring item) \<and> valuestring item \<noteq> None
     else if t = cJSON_String then nul_free (valuestring item)
     else if t = cJSON_Array then list_all (printable F) items
     else t = cJSON_Object \<and> list_all (\<lambda>x. nul_free (jstring (node x)) \<and> printable F x) items)"

section \<open>Steps of the printer\<close>

text \<open>The largest size the buffer can have.\<close>

definition capacity :: "printbuffer \<Rightarrow> nat" where
  "capacity p = (if noalloc p then p_length p else nat INT_MAX)"

definition alloc_all :: "internal_hooks \<Rightarrow> bool" where
  "alloc_all h \<longleftrightarrow> (\<forall>n. allocate h n) \<and> (\<forall>re n. reallocate h = Some re \<longrightarrow> re n)"

text \<open>Memory is not what stops the printer.\<close>

definition grows :: "printbuffer \<Rightarrow> bool" where
  "grows p \<longleftrightarrow> noalloc p \<or> alloc_all (p_hooks p)"

text \<open>A buffer without any memory can only be grown with \<open>realloc\<close>.\<close>

definition pok :: "printbuffer \<Rightarrow> bool" where
  "pok p \<longleftrightarrow> (\<exists>mem. p_buffer p = Some mem \<and> p_length p \<le> length mem) \<and> int (p_length p) \<le> INT_MAX \<and>
    (p_offset p < p_length p \<or> p_length p = 0 \<and> p_offset p = 0 \<and> (noalloc p \<or> reallocate (p_hooks p) \<noteq> None))"

definition contents :: "printbuffer \<Rightarrow> bytes" where
  "contents p = take (p_offset p) (the (p_buffer p))"

definition same_out :: "printbuffer \<Rightarrow> printbuffer \<Rightarrow> bool" where
  "same_out p p' \<longleftrightarrow> noalloc p' = noalloc p \<and> format p' = format p \<and> p_hooks p' = p_hooks p \<and>
    (noalloc p \<longrightarrow> p_length p' = p_length p \<and> length (the (p_buffer p')) = length (the (p_buffer p)))"

text \<open>The text \<open>t\<close> has been appended.\<close>

definition adv :: "printbuffer \<Rightarrow> printbuffer \<Rightarrow> bytes \<Rightarrow> bool" where
  "adv p p' t \<longleftrightarrow> pok p' \<and> same_out p p' \<and> p_offset p' = p_offset p + length t \<and> contents p' = contents p @ t"

lemma capacity_same [simp]: "same_out p p' \<Longrightarrow> capacity p' = capacity p"
  by (auto simp: capacity_def same_out_def)

lemma adv_trans: "adv p q s \<Longrightarrow> adv q r t \<Longrightarrow> adv p r (s @ t)"
  by (auto simp: adv_def same_out_def)

lemma same_out_refl [simp]: "same_out p p"
  by (simp add: same_out_def)

lemma same_out_trans: "same_out p q \<Longrightarrow> same_out q r \<Longrightarrow> same_out p r"
  by (auto simp: same_out_def)

text \<open>
  \<open>writes\<close>: a step that appends \<open>t\<close> and leaves the depth at \<open>d\<close>, within a text of which \<open>n\<close> bytes
  are left.  \<open>finishes\<close>: the same for a value, whose text is followed by a NUL and whose length
  \<open>update_offset\<close> has still to find out.
\<close>

definition writes :: "nat \<Rightarrow> printbuffer \<Rightarrow> printed \<Rightarrow> bytes \<Rightarrow> nat \<Rightarrow> bool" where
  "writes n p m t d \<longleftrightarrow>
    (case m of
       Printed p' \<Rightarrow> adv p p' t \<and> p_depth p' = d
     | NoPrint p' \<Rightarrow> grows p \<longrightarrow> capacity p < p_offset p + n + 2
     | PrintCrash \<Rightarrow> False)"

definition finishes :: "printbuffer \<Rightarrow> printed \<Rightarrow> bytes \<Rightarrow> nat \<Rightarrow> bool" where
  "finishes p m t d \<longleftrightarrow>
    (case m of
       Printed p' \<Rightarrow> (\<exists>q. update_offset p' = Printed q \<and> adv p q t) \<and> p_offset p + length t + 2 \<le> p_length p' \<and>
         p_depth p' = d
     | NoPrint p' \<Rightarrow> grows p \<longrightarrow> capacity p < p_offset p + length t + 2
     | PrintCrash \<Rightarrow> False)"

lemma p_then_assoc: "p_then (p_then m f) g = p_then m (\<lambda>p. p_then (f p) g)"
  by (cases m) simp_all

lemma advD:
  "adv p p' t \<Longrightarrow> pok p' \<and> capacity p' = capacity p \<and> grows p' = grows p \<and> format p' = format p \<and>
    p_offset p' = p_offset p + length t"
  by (simp add: adv_def) (simp add: same_out_def grows_def)

lemma writes_then:
  assumes "writes n p m t d" "n = length t + k"
    and "\<And>p'. adv p p' t \<Longrightarrow> p_depth p' = d \<Longrightarrow> writes k p' (f p') s e"
  shows "writes n p (p_then m f) (t @ s) e"
proof (cases m)
  case (Printed p')
  with assms(1) have a: "adv p p' t" "p_depth p' = d" by (simp_all add: writes_def)
  with assms(3) [OF this] assms(2) advD [OF a(1)] Printed show ?thesis
    by (cases "f p'") (auto simp: writes_def intro: adv_trans)
qed (use assms in \<open>simp_all add: writes_def\<close>)

lemma writes_finishes:
  assumes "writes n p m t d" "n = length t + length s"
    and "\<And>p'. adv p p' t \<Longrightarrow> p_depth p' = d \<Longrightarrow> finishes p' (f p') s e"
  shows "finishes p (p_then m f) (t @ s) e"
proof (cases m)
  case (Printed p')
  with assms(1) have a: "adv p p' t" "p_depth p' = d" by (simp_all add: writes_def)
  with assms(3) [OF this] assms(2) advD [OF a(1)] Printed show ?thesis
    by (cases "f p'") (auto simp: finishes_def intro: adv_trans)
qed (use assms in \<open>simp_all add: writes_def finishes_def\<close>)

lemma update_offset_depth: "update_offset p = Printed q \<Longrightarrow> p_depth q = p_depth p"
  by (auto simp: update_offset_def split: option.splits if_splits)

lemma finishes_update:
  assumes "finishes p m t d" "length t \<le> n"
  shows "writes n p (p_then m update_offset) t d"
  using assms by (cases m) (auto simp: finishes_def writes_def dest: update_offset_depth)

lemma finishes_depth:
  assumes "finishes p m t d"
  shows "finishes p (p_then m (\<lambda>p. Printed (p\<lparr>p_depth := p_depth p - 1\<rparr>))) t (d - 1)"
proof -
  have u: "update_offset (q\<lparr>p_depth := e\<rparr>) = p_then (update_offset q) (\<lambda>p. Printed (p\<lparr>p_depth := e\<rparr>))" for q e
    by (simp add: update_offset_def split: option.splits)
  have a: "adv p (q\<lparr>p_depth := e\<rparr>) t = adv p q t" for q e
    by (simp add: adv_def pok_def same_out_def contents_def)
  show ?thesis using assms by (cases m) (auto simp: finishes_def u a)
qed

lemma writes_depth:
  assumes "writes n p m t d"
  shows "writes n p (p_then m (\<lambda>p. Printed (p\<lparr>p_depth := p_depth p + 1\<rparr>))) t (Suc d)"
  using assms by (cases m) (auto simp: writes_def adv_def pok_def same_out_def contents_def)

section \<open>The buffer\<close>

lemma grown_size_ok: "int k \<le> INT_MAX \<Longrightarrow> \<exists>size. grown_size k = Some size \<and> k \<le> size \<and> int size \<le> INT_MAX"
  by (cases "int k > INT_MAX div 2") (auto simp: grown_size_def INT_MAX_def)

lemma ensure_ok:
  assumes "pok p"
  shows "case ensure p n of
      Printed p' \<Rightarrow> same_out p p' \<and> p_depth p' = p_depth p \<and> p_offset p' = p_offset p \<and> contents p' = contents p \<and>
        p_offset p + n + 1 \<le> p_length p' \<and> int (p_length p') \<le> INT_MAX \<and>
        (\<exists>mem. p_buffer p' = Some mem \<and> p_length p' \<le> length mem)
    | NoPrint p' \<Rightarrow> grows p \<longrightarrow> capacity p < p_offset p + n + 1
    | PrintCrash \<Rightarrow> False"
proof -
  obtain mem where m: "p_buffer p = Some mem" "p_length p \<le> length mem" using assms by (auto simp: pok_def)
  have l: "int (p_length p) \<le> INT_MAX" "\<not> (0 < p_length p \<and> p_length p \<le> p_offset p)" using assms by (auto simp: pok_def)
  let ?n = "n + p_offset p + 1"
  show ?thesis
  proof (cases "?n \<le> p_length p")
    case True
    with l have "\<not> INT_MAX < int n" by linarith
    with True m l show ?thesis by (simp add: ensure_def Let_def)
  next
    case False
    note open_ensure = m(1) l(2) False
    consider "INT_MAX < int n" | "\<not> INT_MAX < int n" "noalloc p" | "\<not> noalloc p" "INT_MAX < int ?n" "\<not> INT_MAX < int n"
      | "\<not> noalloc p" "int ?n \<le> INT_MAX" by linarith
    then show ?thesis
    proof cases
      case 1
      moreover have "capacity p < p_offset p + n + 1" using 1 False l(1) by (simp add: capacity_def INT_MAX_def)
      moreover have "ensure p n = NoPrint p" using 1 m(1) l(2) by (simp add: ensure_def)
      ultimately show ?thesis by simp
    next
      case 2
      then have "ensure p n = NoPrint p" "capacity p < p_offset p + n + 1"
        using open_ensure by (simp_all add: ensure_def Let_def capacity_def)
      then show ?thesis by simp
    next
      case 3
      then have "grown_size ?n = None" "capacity p < p_offset p + n + 1" by (simp_all add: grown_size_def capacity_def INT_MAX_def)
      with 3 open_ensure have "ensure p n = NoPrint p" by (simp add: ensure_def Let_def)
      with \<open>capacity p < p_offset p + n + 1\<close> show ?thesis by simp
    next
      case 4
      then obtain size where s: "grown_size ?n = Some size" "?n \<le> size" "int size \<le> INT_MAX"
        using grown_size_ok by blast
      have le: "size \<le> length (memory h size bs)" for h bs by (simp add: memory_def)
      have n: "\<not> INT_MAX < int n" using 4 by linarith
      show ?thesis
      proof (cases "reallocate (p_hooks p)")
        case (Some re)
        with s n 4 open_ensure have e: "ensure p n = (if \<not> re size then NoPrint (lost p)
          else Printed (p\<lparr>p_length := size, p_buffer := Some (memory (p_hooks p) size mem)\<rparr>))"
          by (auto simp: ensure_def Let_def)
        have "p_offset p \<le> length mem" using l m assms by (auto simp: pok_def)
        with e s le 4 Some m show ?thesis
          by (auto simp: same_out_def contents_def memory_def alloc_all_def grows_def)
      next
        case None
        then have o: "p_offset p < length mem" using assms m 4 by (auto simp: pok_def)
        with None s n 4 open_ensure have e: "ensure p n = (if \<not> allocate (p_hooks p) size then NoPrint (lost p)
          else Printed (p\<lparr>p_length := size, p_buffer := Some (memory (p_hooks p) size (take (p_offset p + 1) mem))\<rparr>))"
          by (auto simp: ensure_def Let_def)
        with e o s le 4 None m show ?thesis
          by (auto simp: same_out_def contents_def memory_def alloc_all_def grows_def)
      qed
    qed
  qed
qed

lemma poke_ok:
  assumes "p_buffer p = Some mem" "i + length bs \<le> length mem"
  shows "poke i bs p = Printed (p\<lparr>p_buffer := Some (take i mem @ bs @ drop (i + length bs) mem)\<rparr>)"
  using assms by (simp add: poke_def)

lemma put_writes:
  assumes p: "pok p" and n: "needed \<le> k + 1" "length bs \<le> needed + 1" "n \<le> length bs" "n \<le> needed"
    and t: "t = take n bs" "d = p_depth p"
  shows "writes k p (put_bytes needed bs n p) t d"
proof (cases "ensure p needed")
  case (Printed q)
  with ensure_ok [OF p, of needed] obtain mem where q: "same_out p q" "p_depth q = p_depth p" "p_offset q = p_offset p"
    "contents q = contents p" "p_offset p + needed + 1 \<le> p_length q" "int (p_length q) \<le> INT_MAX" "p_buffer q = Some mem"
    "p_length q \<le> length mem" by auto
  with n have f: "p_offset q + length bs \<le> length mem" by simp
  let ?mem = "take (p_offset q) mem @ bs @ drop (p_offset q + length bs) mem"
  have c: "take (p_offset q + n) ?mem = contents p @ take n bs"
    using f n unfolding q(4) [symmetric] by (simp add: contents_def q(7))
  let ?q = "add_offset n (q\<lparr>p_buffer := Some ?mem\<rparr>)"
  have l: "length ?mem = length mem" using f by simp
  have "contents ?q = take (p_offset q + n) ?mem" by (simp add: contents_def add_offset_def)
  moreover have "pok ?q" "same_out p ?q" "p_offset ?q = p_offset p + n" "p_depth ?q = p_depth p"
    using q n l by (auto simp: pok_def same_out_def add_offset_def)
  moreover have "put_bytes needed bs n p = Printed ?q"
    using Printed q(7) f by (simp add: put_bytes_def poke_ok)
  ultimately show ?thesis using c n by (simp add: writes_def adv_def t)
qed (use ensure_ok [OF p, of needed] n in \<open>auto simp: put_bytes_def writes_def\<close>)

text \<open>The text of a leaf, with its NUL.\<close>

lemma update_offset_text:
  assumes "p_buffer p = Some (pre @ t @ 0 # post)" "p_offset p \<le> length (pre @ t)" "length pre \<le> p_offset p" "0 \<notin> set t"
  shows "update_offset p = Printed (p\<lparr>p_offset := length (pre @ t)\<rparr>)"
proof -
  let ?k = "p_offset p - length pre"
  have d: "drop (p_offset p) (pre @ t @ 0 # post) = drop ?k t @ 0 # post" using assms(2,3) by simp
  have "0 \<notin> set (drop ?k t)" using assms(4) by (meson in_set_dropD)
  then have "takeWhile (\<lambda>c. c \<noteq> 0) (drop ?k t @ 0 # post) = drop ?k t"
    by (auto simp: takeWhile_append)
  with assms d show ?thesis by (simp add: update_offset_def c_string_def)
qed

lemma pok_contents: "pok p \<Longrightarrow> length (contents p) = p_offset p"
  by (auto simp: pok_def contents_def)

lemma printed_finishes:
  assumes "same_out p q" "p_buffer q = Some (contents p @ t @ 0 # post)" "length (contents p) = p_offset p"
    and "p_offset p \<le> p_offset q" "p_offset q \<le> p_offset p + length t" "0 \<notin> set t"
    and "p_offset p + length t + 2 \<le> p_length q" "p_length q \<le> length (contents p @ t @ 0 # post)"
    and "int (p_length q) \<le> INT_MAX" "p_depth q = d"
  shows "finishes p (Printed q) t d"
proof -
  let ?q = "q\<lparr>p_offset := length (contents p @ t)\<rparr>"
  have u: "update_offset q = Printed ?q"
    by (rule update_offset_text) (use assms in auto)
  have "contents ?q = take (length (contents p @ t)) ((contents p @ t) @ 0 # post)"
    unfolding contents_def [of ?q] using assms(2) by simp
  then have c: "contents ?q = contents p @ t" by (simp only: take_append_length)
  have "pok ?q" using assms by (auto simp: pok_def)
  moreover have "same_out p ?q" using assms(1) by (simp add: same_out_def)
  ultimately have "adv p ?q t" using c assms(3) by (simp add: adv_def)
  with u assms(7,10) show ?thesis by (auto simp: finishes_def)
qed

lemma put_finishes:
  assumes p: "pok p" and t: "0 \<notin> set t" "n \<le> length t" "bs = t @ [0]" "needed = length t + 1" "d = p_depth p"
  shows "finishes p (put_bytes needed bs n p) t d"
proof (cases "ensure p needed")
  case (Printed q)
  with ensure_ok [OF p, of needed] obtain mem where q: "same_out p q" "p_depth q = p_depth p" "p_offset q = p_offset p"
    "contents q = contents p" "p_offset p + needed + 1 \<le> p_length q" "int (p_length q) \<le> INT_MAX" "p_buffer q = Some mem"
    "p_length q \<le> length mem" by auto
  let ?post = "drop (p_offset q + length bs) mem"
  have f: "p_offset q + length bs \<le> length mem" using q t by simp
  let ?q = "add_offset n (q\<lparr>p_buffer := Some (take (p_offset q) mem @ bs @ ?post)\<rparr>)"
  have m: "take (p_offset q) mem @ bs @ ?post = contents p @ t @ 0 # ?post"
    unfolding q(4) [symmetric] by (simp add: contents_def q(7) t)
  have "put_bytes needed bs n p = Printed ?q" using Printed q(7) f by (simp add: put_bytes_def poke_ok)
  moreover have "finishes p (Printed ?q) t d"
    by (rule printed_finishes [of _ _ _ ?post])
      (use q t m f pok_contents [OF p] in \<open>auto simp: same_out_def add_offset_def\<close>)
  ultimately show ?thesis by simp
qed (use ensure_ok [OF p, of needed] t in \<open>auto simp: put_bytes_def finishes_def\<close>)

section \<open>Leaves\<close>

lemma length_escaped: "length (escaped s) = length s + escape_characters s"
proof (induction s)
  case (Cons c s)
  have "c < 32 \<longleftrightarrow> \<not> 31 < c" using word_less_nat_alt [of c 32] word_less_nat_alt [of 31 c] by auto
  moreover have "one_char_escape c \<noteq> None \<longrightarrow> \<not> 31 < c \<or> c = 34 \<or> c = 92" by (auto simp: one_char_escape_def)
  moreover have "c = 34 \<or> c = 92 \<longrightarrow> one_char_escape c \<noteq> None" by (auto simp: one_char_escape_def)
  ultimately show ?case using Cons.IH by (auto simp: printf_04x_def split: option.splits)
qed simp

lemma escaped_plain: "escape_characters s = 0 \<Longrightarrow> escaped s = s"
proof (induction s)
  case (Cons c s)
  have "\<not> c < 32 \<longleftrightarrow> 31 < c" using word_less_nat_alt [of c 32] word_less_nat_alt [of 31 c] by auto
  with Cons show ?case by (auto simp: one_char_escape_def split: if_splits)
qed simp

lemma hex_chars: "\<forall>n\<in>set [0..<16]. hex_char n \<noteq> 0"
  by code_simp

lemma hex_char_pos: "n < 16 \<Longrightarrow> hex_char n \<noteq> 0"
  using hex_chars by auto

lemma escaped_nul_free: "0 \<notin> set (escaped s)"
proof (induction s)
  case (Cons c s)
  have "unat c div 16 < 16" using unsigned_less [of c, where ?'a = nat] by simp
  with Cons.IH show ?case
    by (auto simp: printf_04x_def one_char_escape_def hex_char_pos dest: sym [of 0] split: if_splits)
qed simp

lemma quoted_nul_free: "0 \<notin> set (quoted s)"
  by (simp add: quoted_def escaped_nul_free split: option.splits)

lemma print_string_ptr_ok:
  assumes p: "pok p" and d: "d = p_depth p"
  shows "finishes p (print_string_ptr s p) (quoted s) d"
proof (cases s)
  case None
  then show ?thesis by (simp add: print_string_ptr_def quoted_def put_finishes [OF p] d)
next
  case (Some w)
  let ?e = "if escape_characters w = 0 then w else escaped w" and ?n = "length w + escape_characters w"
  have e: "?e = escaped w" by (simp add: escaped_plain)
  have t: "quoted s = 34 # escaped w @ [34]" by (simp add: quoted_def Some)
  show ?thesis
  proof (cases "ensure p (?n + 3)")
    case (Printed q)
    with ensure_ok [OF p, of "?n + 3"] obtain mem where q: "same_out p q" "p_depth q = p_depth p" "p_offset q = p_offset p"
      "contents q = contents p" "p_offset p + (?n + 3) + 1 \<le> p_length q" "int (p_length q) \<le> INT_MAX" "p_buffer q = Some mem"
      "p_length q \<le> length mem" by auto
    let ?o = "p_offset q" and ?post = "drop (p_offset q + ?n + 3) mem"
    let ?mem = "take ?o mem @ (34 # escaped w) @ drop (?o + Suc ?n) mem"
    let ?q = "q\<lparr>p_buffer := Some (contents p @ quoted s @ 0 # ?post)\<rparr>"
    have l: "?o + ?n + 3 \<le> length mem" using q(3,5,8) by simp
    have "take (?o + ?n + 1) ?mem = contents p @ 34 # escaped w"
      unfolding q(4) [symmetric] using l unfolding contents_def q(7) by (simp add: length_escaped)
    moreover have "drop (?o + ?n + 1 + length [34, 0 :: u8]) ?mem = ?post"
      using l by (simp add: length_escaped numeral_3_eq_3)
    ultimately have m: "take (?o + ?n + 1) ?mem @ [34, 0] @ drop (?o + ?n + 1 + length [34, 0 :: u8]) ?mem =
        contents p @ quoted s @ 0 # ?post"
      unfolding t by simp
    have 1: "poke ?o (34 # escaped w) q = Printed (q\<lparr>p_buffer := Some ?mem\<rparr>)"
      using poke_ok [OF q(7), of ?o "34 # escaped w"] l by (simp add: length_escaped)
    have "poke (?o + ?n + 1) [34, 0] (q\<lparr>p_buffer := Some ?mem\<rparr>) =
        Printed (q\<lparr>p_buffer := Some ?mem\<rparr>\<lparr>p_buffer := Some (contents p @ quoted s @ 0 # ?post)\<rparr>)"
      unfolding m [symmetric] by (rule poke_ok) (use l in \<open>simp_all add: length_escaped\<close>)
    then have 2: "poke (?o + ?n + 1) [34, 0] (q\<lparr>p_buffer := Some ?mem\<rparr>) = Printed ?q" by simp
    have "print_string_ptr s p = Printed ?q"
      unfolding print_string_ptr_def Some option.case Let_def Printed p_then.simps e 1
      using 2 by (simp add: Some)
    moreover have "finishes p (Printed ?q) (quoted s) d"
      by (rule printed_finishes [of _ _ _ ?post])
        (use q d pok_contents [OF p] quoted_nul_free [of s] in \<open>auto simp: same_out_def t length_escaped\<close>)
    ultimately show ?thesis by simp
  qed (use ensure_ok [OF p, of "?n + 3"] t in \<open>auto simp: print_string_ptr_def Some Let_def finishes_def length_escaped\<close>)
qed

section \<open>Values\<close>

lemma open_array_ok: "pok p \<Longrightarrow> writes k p (open_array p) [91] (Suc (p_depth p))"
  unfolding open_array_def by (intro writes_depth put_writes) simp_all

lemma array_comma_ok:
  "pok p \<Longrightarrow> (if format p then 2 else 1) \<le> k \<Longrightarrow>
    writes k p (array_comma p) (44 # (if format p then [32] else [])) (p_depth p)"
  unfolding array_comma_def Let_def by (intro put_writes) auto

lemma close_array_ok:
  assumes "pok p" "p_depth p = Suc d"
  shows "finishes p (close_array p) [93] d"
proof -
  have "finishes p (put_bytes 2 [93, 0] 0 p) [93] (p_depth p)"
    by (rule put_finishes) (use assms in simp_all)
  from finishes_depth [OF this] assms(2) show ?thesis by (simp add: close_array_def)
qed

lemma open_object_ok:
  "pok p \<Longrightarrow> (if format p then 2 else 1) \<le> k \<Longrightarrow>
    writes k p (open_object p) (123 # (if format p then [10] else [])) (Suc (p_depth p))"
  unfolding open_object_def Let_def by (intro writes_depth put_writes) auto

lemma writes_nothing: "pok p \<Longrightarrow> d = p_depth p \<Longrightarrow> writes k p (Printed p) [] d"
  by (simp add: writes_def adv_def)

lemma object_indent_ok:
  "pok p \<Longrightarrow> (if format p then p_depth p else 0) \<le> k \<Longrightarrow>
    writes k p (object_indent p) (if format p then replicate (p_depth p) 9 else []) (p_depth p)"
  unfolding object_indent_def by (auto intro: put_writes writes_nothing)

lemma object_colon_ok:
  "pok p \<Longrightarrow> (if format p then 2 else 1) \<le> k \<Longrightarrow>
    writes k p (object_colon p) (58 # (if format p then [9] else [])) (p_depth p)"
  unfolding object_colon_def Let_def by (intro put_writes) auto

lemma object_comma_ok:
  "pok p \<Longrightarrow> (if format p then 1 else 0) + (if more_items then 1 else 0) \<le> k \<Longrightarrow>
    writes k p (object_comma more_items p) ((if more_items then [44] else []) @ (if format p then [10] else [])) (p_depth p)"
  unfolding object_comma_def Let_def by (intro put_writes) auto

lemma close_object_ok:
  assumes "pok p" "p_depth p = Suc d"
  shows "finishes p (close_object p) ((if format p then replicate d 9 else []) @ [125]) d"
proof -
  let ?t = "(if format p then replicate d 9 else []) @ [125 :: u8]"
  have "finishes p (put_bytes (if format p then p_depth p + 1 else 2) (?t @ [0]) 0 p) ?t (p_depth p)"
    by (rule put_finishes) (use assms in auto)
  from finishes_depth [OF this] assms(2) show ?thesis by (cases "format p") (simp_all add: close_object_def)
qed

lemma print_number_ok:
  assumes "pok p" "number_ok F (valuedouble x)"
  shows "finishes p (print_number F x p) (number_text F (valuedouble x)) (p_depth p)"
  using assms by (auto simp: print_number_def Let_def number_ok_def intro: put_finishes)

lemma print_raw_ok:
  assumes "pok p" "nul_free (valuestring x)" "valuestring x = Some s"
  shows "finishes p (print_raw x p) s (p_depth p)"
  using assms by (auto simp: print_raw_def nul_free_def intro: put_finishes)

lemma writes_step:
  assumes "writes n p m t d" "length t \<le> n"
    and "\<And>q. pok q \<Longrightarrow> format q = format p \<Longrightarrow> p_depth q = d \<Longrightarrow> writes (n - length t) q (f q) s e"
  shows "writes n p (p_then m f) (t @ s) e"
  by (rule writes_then [OF assms(1)]) (use assms(2,3) in \<open>auto dest: advD\<close>)

lemma elements_step:
  assumes p: "pok p" and x: "finishes p (print_value F x p) t (p_depth p)"
    and xs: "\<And>q k. pok q \<Longrightarrow> format q = format p \<Longrightarrow> p_depth q = p_depth p \<Longrightarrow> length s \<le> k \<Longrightarrow>
      writes k q (print_elements F xs q) s (p_depth p)"
    and c: "c = (if xs \<noteq> [] then 44 # (if format p then [32] else []) else [])" and k: "length (t @ c @ s) \<le> k"
  shows "writes k p (print_elements F (x # xs) p) (t @ c @ s) (p_depth p)"
proof -
  have "writes k p (p_then (p_then (print_value F x p) update_offset)
    (\<lambda>p. p_then (if xs \<noteq> [] then array_comma p else Printed p) (print_elements F xs))) (t @ c @ s) (p_depth p)"
  proof (rule writes_step [OF finishes_update [OF x]])
  fix q
  assume q: "pok q" "format q = format p" "p_depth q = p_depth p"
  have "writes (k - length t) q (if xs \<noteq> [] then array_comma q else Printed q) c (p_depth p)"
  proof (cases "xs = []")
    case True
    with q show ?thesis by (simp add: c writes_nothing)
  next
    case False
    then have "(if format q then 2 else 1) \<le> k - length t" using k q(2) by (auto simp: c)
    from array_comma_ok [OF q(1) this] False q show ?thesis by (simp add: c)
  qed
  then show "writes (k - length t) q (p_then (if xs \<noteq> [] then array_comma q else Printed q) (print_elements F xs)) (c @ s) (p_depth p)"
    by (rule writes_step) (use q k in \<open>auto intro: xs\<close>)
  qed (use k in simp_all)
  then show ?thesis by (simp add: p_then_assoc)
qed

lemma members_step:
  assumes p: "pok p" and x: "\<And>q. pok q \<Longrightarrow> format q = format p \<Longrightarrow> p_depth q = p_depth p \<Longrightarrow>
      finishes q (print_value F x q) t (p_depth p)"
    and xs: "\<And>q k. pok q \<Longrightarrow> format q = format p \<Longrightarrow> p_depth q = p_depth p \<Longrightarrow> length s \<le> k \<Longrightarrow>
      writes k q (print_members F xs q) s (p_depth p)"
    and i: "i = (if format p then replicate (p_depth p) 9 else [])" and c: "c = 58 # (if format p then [9] else [])"
    and e: "e = (if xs \<noteq> [] then [44] else []) @ (if format p then [10] else [])" and w: "w = quoted (jstring (node x))"
    and k: "length (i @ w @ c @ t @ e @ s) \<le> k"
  shows "writes k p (print_members F (x # xs) p) (i @ w @ c @ t @ e @ s) (p_depth p)"
proof -
  have "writes k p (p_then (object_indent p) (\<lambda>q. p_then (p_then (print_string_ptr (jstring (node x)) q) update_offset)
      (\<lambda>p. p_then (object_colon p) (\<lambda>p. p_then (p_then (print_value F x p) update_offset)
        (\<lambda>p. p_then (object_comma (xs \<noteq> []) p) (print_members F xs)))))) (i @ w @ c @ t @ e @ s) (p_depth p)"
  proof (rule writes_step)
  have "(if format p then p_depth p else 0) \<le> k" using k by (auto simp: i)
  from object_indent_ok [OF p this] show "writes k p (object_indent p) i (p_depth p)" by (simp only: i)
next
  fix q
  assume q: "pok q" "format q = format p" "p_depth q = p_depth p"
  show "writes (k - length i) q (p_then (p_then (print_string_ptr (jstring (node x)) q) update_offset)
      (\<lambda>p. p_then (object_colon p) (\<lambda>p. p_then (p_then (print_value F x p) update_offset)
        (\<lambda>p. p_then (object_comma (xs \<noteq> []) p) (print_members F xs))))) (w @ c @ t @ e @ s) (p_depth p)"
  proof (rule writes_step [OF finishes_update])
    show "finishes q (print_string_ptr (jstring (node x)) q) w (p_depth p)"
      using print_string_ptr_ok [OF q(1)] q(3) by (simp add: w)
  next
    fix r
    assume r: "pok r" "format r = format q" "p_depth r = p_depth p"
    show "writes (k - length i - length w) r (p_then (object_colon r) (\<lambda>p. p_then (p_then (print_value F x p) update_offset)
        (\<lambda>p. p_then (object_comma (xs \<noteq> []) p) (print_members F xs)))) (c @ t @ e @ s) (p_depth p)"
    proof (rule writes_step)
      show "writes (k - length i - length w) r (object_colon r) c (p_depth p)"
        using object_colon_ok [OF r(1), of "k - length i - length w"] r q k by (auto simp: c)
    next
      fix u
      assume u: "pok u" "format u = format r" "p_depth u = p_depth p"
      let ?k = "k - length i - length w - length c"
      show "writes ?k u (p_then (p_then (print_value F x u) update_offset)
          (\<lambda>p. p_then (object_comma (xs \<noteq> []) p) (print_members F xs))) (t @ e @ s) (p_depth p)"
      proof (rule writes_step [OF finishes_update])
        show "finishes u (print_value F x u) t (p_depth p)" using u r q by (intro x) simp_all
      next
        fix z
        assume z: "pok z" "format z = format u" "p_depth z = p_depth p"
        have "writes (?k - length t) z (object_comma (xs \<noteq> []) z) e (p_depth p)"
          using object_comma_ok [OF z(1), of "xs \<noteq> []" "?k - length t"] z u r q k by (auto simp: e)
        then show "writes (?k - length t) z (p_then (object_comma (xs \<noteq> []) z) (print_members F xs)) (e @ s) (p_depth p)"
          by (rule writes_step) (use z u r q k in \<open>auto intro: xs\<close>)
      qed (use k in simp_all)
    qed (use k in simp_all)
  qed (use k in simp_all)
  qed (use k in simp_all)
  then show ?thesis by (simp add: p_then_assoc)
qed

lemma array_ok:
  assumes p: "pok p" and items: "\<And>q k. pok q \<Longrightarrow> format q = format p \<Longrightarrow> p_depth q = Suc (p_depth p) \<Longrightarrow> length s \<le> k \<Longrightarrow>
      writes k q (print_elements F items q) s (Suc (p_depth p))"
  shows "finishes p (p_then (open_array p) (\<lambda>p. p_then (print_elements F items p) close_array)) ([91] @ s @ [93]) (p_depth p)"
proof (rule writes_finishes [OF open_array_ok [OF p] refl])
  fix q
  assume q: "adv p q [91]" "p_depth q = Suc (p_depth p)"
  note a = advD [OF q(1)]
  show "finishes q (p_then (print_elements F items q) close_array) (s @ [93]) (p_depth p)"
  proof (rule writes_finishes [OF items refl])
    fix r
    assume "adv q r s" "p_depth r = Suc (p_depth p)"
    then show "finishes r (close_array r) [93] (p_depth p)" by (intro close_array_ok) (auto dest: advD)
  qed (use a q in simp_all)
qed

lemma object_ok:
  assumes p: "pok p" and items: "\<And>q k. pok q \<Longrightarrow> format q = format p \<Longrightarrow> p_depth q = Suc (p_depth p) \<Longrightarrow> length s \<le> k \<Longrightarrow>
      writes k q (print_members F items q) s (Suc (p_depth p))"
  shows "finishes p (p_then (open_object p) (\<lambda>p. p_then (print_members F items p) close_object))
    ((123 # (if format p then [10] else [])) @ s @ (if format p then replicate (p_depth p) 9 else []) @ [125]) (p_depth p)"
proof (rule writes_finishes [OF open_object_ok [OF p] refl])
  fix q
  assume q: "adv p q (123 # (if format p then [10] else []))" "p_depth q = Suc (p_depth p)"
  note a = advD [OF q(1)]
  show "finishes q (p_then (print_members F items q) close_object)
      (s @ (if format p then replicate (p_depth p) 9 else []) @ [125]) (p_depth p)"
  proof (rule writes_finishes [OF items refl])
    fix r
    assume r: "adv q r s" "p_depth r = Suc (p_depth p)"
    from close_object_ok [of r, OF _ r(2)] advD [OF r(1)] a
    show "finishes r (close_object r) ((if format p then replicate (p_depth p) 9 else []) @ [125]) (p_depth p)" by simp
  qed (use a q in simp_all)
qed simp

lemma print_values_ok:
  fixes F :: "'d fp"
  shows "printable F x \<Longrightarrow> pok p \<Longrightarrow> format p = fmt \<Longrightarrow> p_depth p = d \<Longrightarrow>
      finishes p (print_value F x p) (render_value F fmt d x) d"
    and "list_all (printable F) xs \<Longrightarrow> pok p \<Longrightarrow> format p = fmt \<Longrightarrow> p_depth p = d \<Longrightarrow>
      length (render_elements F fmt d xs) \<le> k \<Longrightarrow>
      writes k p (print_elements F xs p) (render_elements F fmt d xs) d"
    and "list_all (\<lambda>x. nul_free (jstring (node x)) \<and> printable F x) xs \<Longrightarrow> pok p \<Longrightarrow> format p = fmt \<Longrightarrow> p_depth p = d \<Longrightarrow>
      length (render_members F fmt d xs) \<le> k \<Longrightarrow>
      writes k p (print_members F xs p) (render_members F fmt d xs) d"
proof (induction F fmt d x and F fmt d xs and F fmt d xs
    arbitrary: p and p k and p k rule: render_value_render_elements_render_members.induct)
  case (1 F fmt d item items p)
  note p = "1.prems"(2-4)
  let ?t = "jtype item AND 255"
  note leaf = put_finishes [OF p(1)]
  consider "?t = cJSON_NULL \<or> ?t = cJSON_False \<or> ?t = cJSON_True" | "?t = cJSON_Number" | "?t = cJSON_Raw"
    | "?t = cJSON_String" | "?t = cJSON_Array" | "?t = cJSON_Object" using "1.prems"(1) by (auto simp: Let_def split: if_splits)
  then show ?case
  proof cases
    case 1
    with p show ?thesis by (auto simp: cjson_types Let_def intro: leaf)
  next
    case 2
    with "1.prems" print_number_ok [of p F item] show ?thesis by (simp add: cjson_types Let_def)
  next
    case 3
    with "1.prems" print_raw_ok [of p item] show ?thesis by (auto simp: cjson_types Let_def)
  next
    case 4
    with p print_string_ptr_ok [OF p(1)] show ?thesis by (simp add: cjson_types Let_def print_string_def)
  next
    case 5
    then have "list_all (printable F) items" using "1.prems"(1) by (simp add: cjson_types Let_def)
    with 5 p array_ok [OF p(1), of "render_elements F fmt (Suc d) items" F items] "1.IH"(1) [OF refl] show ?thesis
      by (simp add: cjson_types Let_def)
  next
    case 6
    then have "list_all (\<lambda>x. nul_free (jstring (node x)) \<and> printable F x) items"
      using "1.prems"(1) by (simp add: cjson_types Let_def)
    with 6 p object_ok [OF p(1), of "render_members F fmt (Suc d) items" F items] "1.IH"(2) [OF refl] show ?thesis
      by (cases fmt) (simp_all add: cjson_types Let_def)
  qed
next
  case (2 F fmt d p)
  then show ?case by (simp add: writes_nothing)
next
  case (3 F fmt d x xs p)
  note p = "3.prems"(2-4) and step = elements_step [where p = p, unfolded "3.prems"(3,4)]
  show ?case
    unfolding render_elements.simps
    by (rule step [OF p(1) _ _ refl]) (use 3 in \<open>simp_all\<close>)
next
  case (4 F fmt d p)
  then show ?case by (simp add: writes_nothing)
next
  case (5 F fmt d x xs p)
  note p = "5.prems"(2-4) and step = members_step [where p = p, unfolded "5.prems"(3,4)]
  show ?case
    unfolding render_members.simps
    by (rule step [OF p(1) _ _ refl refl refl refl]) (use 5 in simp_all)
qed

section \<open>Entry points\<close>

lemma finished_text:
  assumes "finishes p (Printed q) t d" "p_offset p = 0"
  shows "\<exists>mem. p_buffer q = Some mem \<and> take (length t + 1) mem = t @ [0] \<and> p_length q \<le> length mem \<and>
    length t + 2 \<le> p_length q \<and> update_offset q = Printed (q\<lparr>p_offset := length t\<rparr>) \<and>
    (noalloc p \<longrightarrow> length mem = length (the (p_buffer p)))"
proof -
  from assms obtain r where r: "update_offset q = Printed r" "adv p r t" "length t + 2 \<le> p_length q"
    by (auto simp: finishes_def)
  then obtain mem where m: "p_buffer q = Some mem" "0 \<in> set (drop (p_offset q) mem)"
    "r = q\<lparr>p_offset := p_offset q + length (c_string (drop (p_offset q) mem))\<rparr>"
    by (auto simp: update_offset_def adv_def pok_def split: option.splits if_splits)
  let ?w = "c_string (drop (p_offset q) mem)"
  have o: "p_offset q + length ?w = length t" using r(2) m(3) assms(2) by (simp add: adv_def)
  then have rq: "r = q\<lparr>p_offset := length t\<rparr>" using m(3) by simp
  have l: "length t < length mem" "p_length q \<le> length mem" using r m(1) by (auto simp: rq adv_def pok_def)
  have "length ?w < length (drop (p_offset q) mem)" using o l by simp
  then have "drop (p_offset q) mem ! length ?w = 0"
    unfolding c_string_def using nth_length_takeWhile [of "\<lambda>c. c \<noteq> 0"] by blast
  then have "mem ! length t = 0" using o l by (simp add: nth_drop)
  moreover have "take (length t) mem = t" using r(2) m(1) assms(2) by (simp add: rq adv_def contents_def)
  ultimately have "take (length t + 1) mem = t @ [0]" using l by (simp add: take_Suc_conv_app_nth)
  with m(1) r l show ?thesis by (auto simp: rq adv_def same_out_def)
qed

lemma preallocated_ok:
  assumes "printable F item" "0 \<le> len" "len \<le> INT_MAX" "nat len \<le> length mem"
  shows "\<exists>ok buf. cJSON_PrintPreallocated F h item (Some mem) len fmt = Some (ok, buf) \<and>
    (ok \<longleftrightarrow> length (render_value F fmt 0 item) + 2 \<le> nat len) \<and>
    (ok \<longrightarrow> (\<exists>mem'. buf = Some mem' \<and> length mem' = length mem \<and>
      take (length (render_value F fmt 0 item) + 1) mem' = render_value F fmt 0 item @ [0]))"
proof -
  let ?p = "\<lparr>p_buffer = Some mem, p_length = nat len, p_offset = 0, p_depth = 0, noalloc = True, format = fmt, p_hooks = h\<rparr>"
  let ?t = "render_value F fmt 0 item"
  have "pok ?p" using assms by (auto simp: pok_def)
  then have f: "finishes ?p (print_value F item ?p) ?t 0"
    using assms(1) by (intro print_values_ok(1)) simp_all
  show ?thesis
  proof (cases "print_value F item ?p")
    case (Printed q)
    with f finished_text [of ?p q ?t 0] obtain mem' where m: "p_buffer q = Some mem'" "take (length ?t + 1) mem' = ?t @ [0]"
      "length ?t + 2 \<le> p_length q" "length mem' = length mem" by auto
    have "p_length q = nat len"
      using f Printed by (auto simp: finishes_def adv_def same_out_def update_offset_def split: option.splits if_splits)
    with m Printed assms(2) show ?thesis
      by (intro exI [of _ True] exI [of _ "p_buffer q"]) (simp add: cJSON_PrintPreallocated_def)
  next
    case (NoPrint q)
    with f assms(2) show ?thesis
      by (intro exI [of _ False] exI [of _ "p_buffer q"]) (simp add: cJSON_PrintPreallocated_def finishes_def grows_def capacity_def)
  qed (use f in \<open>simp add: finishes_def\<close>)
qed

lemma print_ok:
  assumes "printable F item"
  shows "print F item fmt h = TextOut (render_value F fmt 0 item @ [0]) \<or>
    print F item fmt h = TextNull \<and> (alloc_all h \<longrightarrow> INT_MAX < int (length (render_value F fmt 0 item) + 2))"
proof (cases "allocate h default_buffer_size")
  case False
  then show ?thesis by (auto simp: print_def alloc_all_def)
next
  case True
  let ?p = "\<lparr>p_buffer = Some (memory h default_buffer_size []), p_length = default_buffer_size, p_offset = 0,
    p_depth = 0, noalloc = False, format = fmt, p_hooks = h\<rparr>"
  let ?t = "render_value F fmt 0 item"
  have p: "print F item fmt h = text_of (print_value F item ?p) (\<lambda>p. text_of (update_offset p) (print_finish h))"
    using True by (simp add: print_def)
  have "pok ?p" by (simp add: pok_def default_buffer_size_def memory_def INT_MAX_def)
  then have f: "finishes ?p (print_value F item ?p) ?t 0"
    using assms by (intro print_values_ok(1)) simp_all
  show ?thesis
  proof (cases "print_value F item ?p")
    case (Printed q)
    with f finished_text [of ?p q ?t 0] obtain mem where m: "p_buffer q = Some mem" "take (length ?t + 1) mem = ?t @ [0]"
      "p_length q \<le> length mem" "length ?t + 2 \<le> p_length q" "update_offset q = Printed (q\<lparr>p_offset := length ?t\<rparr>)" by auto
    let ?q = "q\<lparr>p_offset := length ?t\<rparr>"
    have l: "Suc (length ?t) \<le> length mem" using m by simp
    have u: "(?t @ [0])[length ?t := 0] = ?t @ [0 :: u8]" by simp
    have "min (p_length q) (Suc (length ?t)) = Suc (length ?t)" using m(4) by simp
    with m l u have "print_finish h ?q = TextOut (?t @ [0]) \<or> print_finish h ?q = TextNull \<and> \<not> alloc_all h"
      by (auto simp: print_finish_def memory_def alloc_all_def split: option.splits)
    with p Printed m(5) show ?thesis by auto
  next
    case (NoPrint q)
    with f p show ?thesis by (auto simp: finishes_def grows_def capacity_def INT_MAX_def)
  qed (use f in \<open>simp add: finishes_def\<close>)
qed

lemma buffered_ok:
  assumes "printable F item" "0 < prebuffer" "prebuffer \<le> INT_MAX"
  shows "(\<exists>mem. cJSON_PrintBuffered F h item prebuffer fmt = TextOut mem \<and>
      take (length (render_value F fmt 0 item) + 1) mem = render_value F fmt 0 item @ [0]) \<or>
    cJSON_PrintBuffered F h item prebuffer fmt = TextNull"
proof (cases "allocate h (nat prebuffer)")
  case False
  then show ?thesis by (simp add: cJSON_PrintBuffered_def)
next
  case True
  let ?p = "\<lparr>p_buffer = Some (memory h (nat prebuffer) []), p_length = nat prebuffer, p_offset = 0,
    p_depth = 0, noalloc = False, format = fmt, p_hooks = h\<rparr>"
  have "pok ?p" using assms(2,3) by (simp add: pok_def memory_def)
  then have f: "finishes ?p (print_value F item ?p) (render_value F fmt 0 item) 0"
    using assms by (intro print_values_ok(1)) simp_all
  show ?thesis
  proof (cases "print_value F item ?p")
    case (Printed q)
    with f finished_text [of ?p q "render_value F fmt 0 item" 0] True assms(2) show ?thesis
      by (auto simp: cJSON_PrintBuffered_def)
  qed (use f True assms(2) in \<open>simp_all add: cJSON_PrintBuffered_def finishes_def\<close>)
qed

text \<open>
  Without \<open>realloc\<close>, a buffer of no bytes is copied as if it had one.
\<close>

lemma cJSON_PrintBuffered_zero:
  assumes "allocate h 0" "reallocate h = None" "allocate h 12"
  shows "cJSON_PrintBuffered F h (CJSON (x\<lparr>jtype := cJSON_NULL\<rparr>) []) 0 fmt = TextCrash"
  using assms
  by (simp add: cJSON_PrintBuffered_def cjson_types put_bytes_def ensure_def memory_def grown_size_def INT_MAX_def)

end
