(* ===== verification/Cjson_Typed.thy ===== *)
theory Cjson_Typed
  imports Cjson_Safety Cjson_Render
begin

text \<open>
  What the parser accepts is well typed: every item has exactly one of the JSON types, strings are
  there, free of NULs, on strings only, the members of objects and nothing else have names, and
  only arrays and objects have children.  Such an item can be printed.
\<close>

section \<open>Types\<close>

definition named :: "bool \<Rightarrow> 'd node \<Rightarrow> bool" where
  "named b x \<longleftrightarrow> (jstring x \<noteq> None) = b \<and> nul_free (jstring x)"

fun typed :: "'d cJSON \<Rightarrow> bool" where
  "typed (CJSON x items) \<longleftrightarrow>
    (if jtype x = cJSON_String then valuestring x \<noteq> None \<and> nul_free (valuestring x) \<and> items = []
     else valuestring x = None \<and>
       (if jtype x = cJSON_Array then list_all (\<lambda>y. named False (node y) \<and> typed y) items
        else if jtype x = cJSON_Object then list_all (\<lambda>y. named True (node y) \<and> typed y) items
        else (jtype x = cJSON_NULL \<or> jtype x = cJSON_False \<or> jtype x = cJSON_True \<or> jtype x = cJSON_Number) \<and> items = []))"

text \<open>A result that is as it should be, if there is one.\<close>

definition yields :: "('a \<Rightarrow> bool) \<Rightarrow> 'a parse_result \<Rightarrow> bool" where
  "yields P m \<longleftrightarrow> (\<forall>x b. m = Parsed x b \<longrightarrow> P x)"

lemma yields_simps [simp]:
  "yields P (Parsed x b) = P x" "yields P (Failed b)" "yields P Crash" "yields P Stuck"
  by (simp_all add: yields_def)

lemma yields_then:
  assumes "yields P m" "\<And>x b. P x \<Longrightarrow> yields Q (f x b)"
  shows "yields Q (and_then m f)"
  using assms by (cases m) (simp_all add: yields_def)

lemma c_string_nul_free: "0 \<notin> set (c_string s)"
  by (auto simp: c_string_def dest: set_takeWhileD)

text \<open>The struct that a value is parsed into: no string yet, and perhaps a name.\<close>

definition ready :: "bool \<Rightarrow> 'd node \<Rightarrow> bool" where
  "ready b x \<longleftrightarrow> valuestring x = None \<and> named b x"

lemma ready_update [simp]:
  "ready n (x\<lparr>jtype := t\<rparr>) = ready n x" "ready n (x\<lparr>valueint := i\<rparr>) = ready n x" "ready n (x\<lparr>valuedouble := d\<rparr>) = ready n x"
  by (simp_all add: ready_def named_def)

lemma parse_string_yields:
  assumes "ready n x"
  shows "yields (\<lambda>y. named n y \<and> jtype y = cJSON_String \<and> valuestring y \<noteq> None \<and> nul_free (valuestring y)) (parse_string x b)"
  using assms
  by (auto simp: parse_string_def Let_def named_def ready_def nul_free_def c_string_nul_free
      split: option.splits sum.splits string_end.splits)

lemma parse_number_yields:
  "ready n x \<Longrightarrow> yields (\<lambda>y. ready n y \<and> jtype y = cJSON_Number) (parse_number F x b)"
  by (simp add: parse_number_def Let_def split: prod.splits)

lemma next_item_yields: "yields (ready False) (next_item F b)"
  by (auto simp: next_item_def cJSON_New_Item_def ready_def named_def nul_free_def split: option.splits)

lemma member_name_yields:
  assumes "ready False x"
  shows "yields (ready True) (member_name x b)"
  unfolding member_name_def
  by (rule yields_then [OF parse_string_yields [OF assms]]) (auto simp: Let_def ready_def named_def)

lemma leaf_yields: "typed (CJSON x []) \<Longrightarrow> named n x \<Longrightarrow> yields (\<lambda>y. named n (node y) \<and> typed y) (leaf x b)"
  by (simp add: leaf_def del: typed.simps)

lemma open_list_yields:
  assumes "\<And>b. yields (list_all P) (f b)"
  shows "yields (list_all P) (open_list opening closing b f)"
  using assms by (simp add: open_list_def Let_def)

lemma close_list_yields:
  assumes "typed (CJSON (x\<lparr>jtype := t\<rparr>) items)" "ready n x"
  shows "yields (\<lambda>y. named n (node y) \<and> typed y) (close_list closing t x items b)"
  using assms by (simp add: close_list_def ready_def named_def del: typed.simps)

lemma parse_array_yields:
  assumes "\<And>b. yields (list_all (\<lambda>y. named False (node y) \<and> typed y)) (f b)" "ready n x"
  shows "yields (\<lambda>y. named n (node y) \<and> typed y) (parse_array f x b)"
proof -
  have "yields (\<lambda>y. named n (node y) \<and> typed y) (and_then (open_list 91 93 b' f) (close_list 93 cJSON_Array x))" for b'
    by (rule yields_then [OF open_list_yields [OF assms(1)]], rule close_list_yields)
      (use assms(2) in \<open>simp_all add: ready_def cjson_types\<close>)
  then show ?thesis by (simp add: parse_array_def Let_def split: option.splits)
qed

lemma parse_object_yields:
  assumes "\<And>b. yields (list_all (\<lambda>y. named True (node y) \<and> typed y)) (f b)" "ready n x"
  shows "yields (\<lambda>y. named n (node y) \<and> typed y) (parse_object f x b)"
proof -
  have "yields (\<lambda>y. named n (node y) \<and> typed y) (and_then (open_list 123 125 b' f) (close_list 125 cJSON_Object x))" for b'
    by (rule yields_then [OF open_list_yields [OF assms(1)]], rule close_list_yields)
      (use assms(2) in \<open>simp_all add: ready_def cjson_types\<close>)
  then show ?thesis by (simp add: parse_object_def Let_def)
qed

lemma parse_values_typed:
  "ready n x \<Longrightarrow> yields (\<lambda>y. named n (node y) \<and> typed y) (parse_value F k x b)"
  "list_all (\<lambda>y. named False (node y) \<and> typed y) items \<Longrightarrow>
    yields (list_all (\<lambda>y. named False (node y) \<and> typed y)) (array_loop F k items b)"
  "list_all (\<lambda>y. named True (node y) \<and> typed y) items \<Longrightarrow>
    yields (list_all (\<lambda>y. named True (node y) \<and> typed y)) (object_loop F k items b)"
proof (induction k arbitrary: n x items b)
  case (Suc k)
  {
    case 1
    have "yields (\<lambda>y. named n (node y) \<and> typed y) (leaf (x\<lparr>jtype := t\<rparr>) b')"
      if "t = cJSON_NULL \<or> t = cJSON_False" for t b'
      by (rule leaf_yields) (use 1 that in \<open>auto simp: ready_def named_def cjson_types\<close>)
    moreover have "yields (\<lambda>y. named n (node y) \<and> typed y) (leaf (x\<lparr>jtype := cJSON_True, valueint := 1\<rparr>) b')" for b'
      by (rule leaf_yields) (use 1 in \<open>auto simp: ready_def named_def cjson_types\<close>)
    moreover have "yields (\<lambda>y. named n (node y) \<and> typed y) (and_then (parse_string x b) leaf)"
      by (rule yields_then [OF parse_string_yields [OF 1]], rule leaf_yields) auto
    moreover have "yields (\<lambda>y. named n (node y) \<and> typed y) (and_then (parse_number F x b) leaf)"
      by (rule yields_then [OF parse_number_yields [OF 1]], rule leaf_yields) (auto simp: ready_def cjson_types)
    moreover have "yields (\<lambda>y. named n (node y) \<and> typed y) (parse_array (array_loop F k []) x b)"
      by (rule parse_array_yields [OF Suc.IH(2) 1]) simp
    moreover have "yields (\<lambda>y. named n (node y) \<and> typed y) (parse_object (object_loop F k []) x b)"
      by (rule parse_object_yields [OF Suc.IH(3) 1]) simp
    ultimately show ?case by simp
  next
    case 2
    show ?case
      unfolding array_loop.simps
      by (rule yields_then [OF next_item_yields], rule yields_then [OF Suc.IH(1)], assumption)
        (use 2 Suc.IH(2) in \<open>simp add: Let_def\<close>)
  next
    case 3
    show ?case
      unfolding object_loop.simps
      by (rule yields_then [OF next_item_yields], rule yields_then [OF member_name_yields], assumption,
          rule yields_then [OF Suc.IH(1)], assumption)
        (use 3 Suc.IH(3) in \<open>simp add: Let_def\<close>)
  }
qed simp_all

lemma parse_typed:
  assumes "cJSON_ParseWithOpts F h g v z = Outcome (Some root) p e"
  shows "typed root \<and> jstring (node root) = None"
proof -
  obtain t where t: "v = Some t" using assms by (cases v) (auto simp: cJSON_ParseWithOpts_def Let_def)
  obtain x where x: "cJSON_New_Item F h (pb_lineno (new_buffer h t)) = Some x"
    using assms t by (cases "cJSON_New_Item F h (pb_lineno (new_buffer h t))") (auto simp: cJSON_ParseWithOpts_def Let_def)
  then have r: "ready False x" by (auto simp: cJSON_New_Item_def ready_def named_def nul_free_def split: if_splits)
  let ?m = "parse_value F (parse_fuel t) x (buffer_skip_whitespace (skip_utf8_bom (new_buffer h t)))"
  have "\<exists>b. ?m = Parsed root b"
    using assms t x
    by (cases ?m) (auto simp: cJSON_ParseWithOpts_def Let_def parse_failure_def split: if_splits option.splits)
  then have "named False (node root) \<and> typed root"
    using parse_values_typed(1) [OF r] unfolding yields_def by metis
  then show ?thesis by (simp add: named_def)
qed

lemma typed_printable: "typed x \<Longrightarrow> \<forall>d. number_ok F d \<Longrightarrow> printable F x"
proof (induction x)
  case (CJSON x items)
  then show ?case by (auto simp: cjson_types Let_def list_all_iff named_def split: if_splits)
qed

end
