(* ===== verification/Cjson_Roundtrip.thy ===== *)
theory Cjson_Roundtrip
  imports Cjson_Safety Cjson_Render
begin

text \<open>
  Printing and parsing are inverse: the text of an item, formatted or not, is parsed into the same
  item, line numbers apart.  The C library enters with one assumption for each number: \<open>strtod\<close>
  reads back what \<open>sprintf\<close> has written.
\<close>

section \<open>Items that can come from a text\<close>

text \<open>Numbers that are printed and read without loss.\<close>

definition reads_back :: "'d fp \<Rightarrow> 'd \<Rightarrow> bool" where
  "reads_back F d \<longleftrightarrow>
    (let s = number_text F d in
     s \<noteq> [] \<and> length s \<le> 25 \<and> list_all number_char s \<and> (hd s = 45 \<or> 48 \<le> hd s \<and> hd s \<le> 57) \<and>
     strtod F s = (d, length s))"

definition bare :: "'d fp \<Rightarrow> 'd node \<Rightarrow> bool" where
  "bare F x \<longleftrightarrow> valuestring x = None \<and> valueint x = 0 \<and> valuedouble x = f_zero F"

fun plain :: "'d fp \<Rightarrow> 'd cJSON \<Rightarrow> bool" where
  "plain F (CJSON x items) \<longleftrightarrow>
    (if jtype x = cJSON_NULL \<or> jtype x = cJSON_False then bare F x \<and> items = []
     else if jtype x = cJSON_True then bare F (x\<lparr>valueint := 0\<rparr>) \<and> valueint x = 1 \<and> items = []
     else if jtype x = cJSON_Number then
       bare F (x\<lparr>valueint := 0, valuedouble := f_zero F\<rparr>) \<and> valueint x = saturate F (valuedouble x) \<and>
       reads_back F (valuedouble x) \<and> items = []
     else if jtype x = cJSON_String then
       bare F (x\<lparr>valuestring := None\<rparr>) \<and> valuestring x \<noteq> None \<and> nul_free (valuestring x) \<and> items = []
     else if jtype x = cJSON_Array then bare F x \<and> list_all (\<lambda>y. jstring (node y) = None \<and> plain F y) items
     else jtype x = cJSON_Object \<and> bare F x \<and>
       list_all (\<lambda>y. jstring (node y) \<noteq> None \<and> nul_free (jstring (node y)) \<and> plain F y) items)"

text \<open>Line numbers are forgotten.\<close>

fun forget :: "'d cJSON \<Rightarrow> 'd cJSON" where
  "forget (CJSON x items) = CJSON (x\<lparr>lineno := 0\<rparr>) (map forget items)"

section \<open>Places in the text\<close>

definition at :: "parse_buffer \<Rightarrow> bytes \<Rightarrow> bool" where
  "at b s \<longleftrightarrow> s \<noteq> [] \<and> drop (offset b) (content b) = s \<and> pb_length b = length (content b)"

definition moves_to :: "parse_buffer \<Rightarrow> parse_buffer \<Rightarrow> bytes \<Rightarrow> bool" where
  "moves_to b b' s \<longleftrightarrow> at b' s \<and> content b' = content b \<and> depth b' = depth b \<and> hooks b' = hooks b"

lemma goto_trans: "moves_to a b s \<Longrightarrow> moves_to b c t \<Longrightarrow> moves_to a c t"
  by (auto simp: moves_to_def)

lemma at_length: "at b s \<Longrightarrow> offset b + length s = pb_length b"
  by (auto simp: at_def)

lemma at_nth: "at b s \<Longrightarrow> i < length s \<Longrightarrow> content b ! (offset b + i) = s ! i"
  by (auto simp: at_def)

lemma at_here [simp]:
  assumes "at b (c # s)"
  shows "at_offset b = Some c" "can_access_at_index b 0" "at_char b c' \<longleftrightarrow> c = c'"
proof -
  have "offset b < length (content b)" "content b ! offset b = c"
    using assms at_nth [of b "c # s" 0] at_length [of b "c # s"] by (auto simp: at_def)
  then show "at_offset b = Some c" "can_access_at_index b 0" "at_char b c' \<longleftrightarrow> c = c'"
    using assms by (auto simp: at_offset_def read_at_def can_access_at_index_def at_char_def at_def)
qed

lemma at_append:
  assumes "at b (t @ s)" "s \<noteq> []"
  shows "moves_to b (skip_to (offset b + length t) b) s"
proof -
  have "drop (offset b + length t) (content b) = drop (length t) (drop (offset b) (content b))" by (simp add: add.commute)
  with assms show ?thesis by (simp add: moves_to_def at_def skip_to_def)
qed

lemma at_starts: "at b s \<Longrightarrow> starts b t \<longleftrightarrow> take (length t) s = t"
  by (simp add: at_def starts_def)

lemma at_can_read: "at b s \<Longrightarrow> can_read b n \<longleftrightarrow> n \<le> length s"
  using at_length [of b s] by (auto simp: can_read_def)

section \<open>White space\<close>

definition white :: "bytes \<Rightarrow> bool" where
  "white w \<longleftrightarrow> list_all (\<lambda>c. c \<le> 32) w"

lemma skip_loop_white:
  assumes "drop i bs = w @ c # s" "white w" "32 < c" "n = length bs"
  shows "\<exists>l'. skip_loop bs n i l = (i + length w, l')"
  using assms(1,2)
proof (induction w arbitrary: i l)
  case Nil
  then have "i < n" "bs ! i = c" using assms(4) by (auto simp: nth_via_drop dest: arg_cong [of _ _ length])
  moreover have "\<not> c \<le> 32" using assms(3) by simp
  ultimately show ?case by (simp add: skip_loop.simps [of bs n i])
next
  case (Cons a w)
  then have i: "i < n" "bs ! i = a" "drop (Suc i) bs = w @ c # s"
    using assms(4) by (auto simp: drop_Suc tl_drop [symmetric] nth_via_drop dest: arg_cong [of _ _ length])
  with Cons obtain l' where "skip_loop bs n (Suc i) (if bs ! i = 10 then Suc l else l) = (Suc i + length w, l')"
    by (force simp: white_def)
  with i Cons.prems(2) show ?case by (simp add: skip_loop.simps [of bs n i] white_def)
qed

lemma skip_white:
  assumes "at b (w @ c # s)" "white w" "32 < c"
  shows "moves_to b (buffer_skip_whitespace b) (c # s)"
proof -
  obtain l where l: "skip_loop (content b) (pb_length b) (offset b) (pb_lineno b) = (offset b + length w, l)"
    using skip_loop_white [of "offset b" "content b" w c s "pb_length b" "pb_lineno b"] assms by (auto simp: at_def)
  have "offset b + length w < pb_length b" using at_length [OF assms(1)] by simp
  with l at_append [OF assms(1)] show ?thesis
    by (auto simp: buffer_skip_whitespace_def moves_to_def at_def skip_to_def)
qed

text \<open>At the end of the text the white-space scanner stays where it is.\<close>

lemma skip_end:
  assumes "at b [0]"
  shows "buffer_skip_whitespace b = b"
proof -
  have o: "Suc (offset b) = pb_length b" using at_length [OF assms] by simp
  have "content b ! offset b = 0" using at_nth [OF assms, of 0] by simp
  with o show ?thesis by (simp add: buffer_skip_whitespace_def skip_loop.simps)
qed

section \<open>Strings\<close>

text \<open>A piece of an escaped string: a plain character, or an escape.\<close>

definition piece :: "u8 \<Rightarrow> bytes" where
  "piece c = escaped [c]"

lemma escaped_pieces: "escaped (c # w) = piece c @ escaped w"
  by (simp add: piece_def)

lemma piece_cases:
  obtains "piece c = [c]" "c \<noteq> 34" "c \<noteq> 92"
  | e where "piece c = [92, e]" "escape e = Some c"
  | "piece c = 92 # 117 # printf_04x c" "c < 32"
proof -
  have "\<not> 31 < c \<longleftrightarrow> c < 32" using word_less_nat_alt [of c 32] word_less_nat_alt [of 31 c] by auto
  moreover have "escape e = Some c" if "one_char_escape c = Some e" for e
    using that by (auto simp: one_char_escape_def escape_def split: if_splits)
  moreover have "c = 34 \<or> c = 92 \<Longrightarrow> one_char_escape c \<noteq> None" by (auto simp: one_char_escape_def)
  ultimately show ?thesis
    using that by (cases "31 < c \<and> c \<noteq> 34 \<and> c \<noteq> 92"; cases "one_char_escape c") (auto simp: piece_def)
qed

lemma hex_digit_chars: "\<forall>n\<in>set [0..<16]. hex_value (hex_char n) = Some n \<and> hex_char n \<noteq> 34 \<and> hex_char n \<noteq> 92"
  by code_simp

lemma printf_04x_value:
  "unat (parse_hex4 (printf_04x c @ s)) = unat c"
  "length (printf_04x c) = 4" "34 \<notin> set (printf_04x c)" "92 \<notin> set (printf_04x c)"
proof -
  let ?h = "unat c div 16" and ?l = "unat c mod 16"
  have l: "?h < 16" "?l < 16" using unsigned_less [of c, where ?'a = nat] by simp_all
  then have v: "hex_value (hex_char ?h) = Some ?h" "hex_value (hex_char ?l) = Some ?l" using hex_digit_chars by auto
  have z: "hex_value 48 = Some 0" by code_simp
  show "unat (parse_hex4 (printf_04x c @ s)) = unat c"
    using v z by (simp add: printf_04x_def parse_hex4_value)
  show "length (printf_04x c) = 4" "34 \<notin> set (printf_04x c)" "92 \<notin> set (printf_04x c)"
    using hex_digit_chars l by (auto simp: printf_04x_def dest: sym)
qed

lemma utf8_encode_bytes: "\<forall>n\<in>set [0..<32]. utf8_encode (ucast (of_nat n :: u8)) = Some [of_nat n]"
  by code_simp

lemma utf8_encode_byte: "(c :: u8) < 32 \<Longrightarrow> utf8_encode (ucast c) = Some [c]"
proof -
  assume "c < 32"
  then have "unat c \<in> set [0..<32]" by (simp add: word_less_nat_alt)
  from bspec [OF utf8_encode_bytes this] show ?thesis by simp
qed

lemma control_literal:
  assumes "c < 32" "\<exists>s'. inp = 92 # 117 # printf_04x c @ s'"
  shows "utf16_literal_to_utf8 inp = Some (6, [c])"
proof -
  obtain s' where i: "inp = 92 # 117 # printf_04x c @ s'" using assms(2) by auto
  let ?f = "parse_hex4 (drop 2 inp)"
  have f: "unat ?f = unat c" using i by (simp add: printf_04x_value)
  have c: "unat c < 32" using assms(1) by (simp add: word_less_nat_alt)
  have n: "\<not> 56320 \<le> ?f" "\<not> 55296 \<le> ?f" using f c by (simp_all add: word_le_nat_alt)
  have u: "(ucast ?f :: u64) = ucast c"
    by (rule unsigned_word_eqI [where ?'a = nat]) (use f in \<open>simp add: unat_u32_64 unsigned_ucast_eq take_bit_nat_eq_self less_le_trans [OF unsigned_less]\<close>)
  have "6 \<le> length inp" using i by (simp add: printf_04x_value)
  with n u have "utf16_codepoint inp = Some (6, ucast c)" by (simp add: utf16_codepoint_def Let_def)
  then show ?thesis by (simp add: utf16_literal_to_utf8_def utf8_encode_byte [OF assms(1)])
qed

lemma drop_byte: "drop i bs = c # s \<Longrightarrow> i < length bs \<and> bs ! i = c \<and> drop (Suc i) bs = s"
  using Cons_nth_drop_Suc [of i bs] by (cases "i < length bs") auto

lemma scan_plain:
  assumes "drop i bs = t @ s" "34 \<notin> set t" "92 \<notin> set t"
  shows "string_scan bs (length bs) i k = string_scan bs (length bs) (i + length t) k"
  using assms
proof (induction t arbitrary: i)
  case (Cons c t)
  from Cons.prems(1) have d: "i < length bs \<and> bs ! i = c \<and> drop (Suc i) bs = t @ s" by (intro drop_byte) simp
  then have "string_scan bs (length bs) i k = string_scan bs (length bs) (Suc i) k"
    using Cons.prems(2,3) by (simp add: string_scan.simps [of bs "length bs" i] read_at_def)
  with Cons.IH [of "Suc i"] Cons.prems d show ?case by simp
qed simp

lemma scan_escape:
  assumes "drop i bs = 92 # e # s"
  shows "string_scan bs (length bs) i k = string_scan bs (length bs) (i + 2) (Suc k)"
proof -
  have "i < length bs" "bs ! i = 92" using drop_byte [OF assms] by auto
  moreover have "Suc i < length bs" using drop_byte [of i bs 92 "e # s"] drop_byte [of "Suc i" bs e s] assms by auto
  ultimately show ?thesis by (simp add: string_scan.simps [of bs "length bs" i] read_at_def)
qed

lemma drop_drop_append: "drop i bs = t @ s \<Longrightarrow> drop (i + length t) bs = s"
  by (metis append_eq_conv_conj drop_drop add.commute)

lemma scan_piece:
  assumes "drop i bs = piece c @ s"
  shows "\<exists>k'. string_scan bs (length bs) i k = string_scan bs (length bs) (i + length (piece c)) k'"
proof (cases rule: piece_cases [of c])
  case 1
  with scan_plain [of i bs "[c]" s k] assms show ?thesis by (intro exI [of _ k]) simp
next
  case (2 e)
  with scan_escape [of i bs e s k] assms show ?thesis by (intro exI [of _ "Suc k"]) simp
next
  case 3
  with assms have d: "drop i bs = 92 # 117 # printf_04x c @ s" by simp
  then have "drop (i + 2) bs = printf_04x c @ s" using drop_drop_append [of i bs "[92, 117]"] by simp
  from scan_plain [OF this, of "Suc k"] scan_escape [OF d, of k] 3(1) show ?thesis
    by (intro exI [of _ "Suc k"]) (simp add: printf_04x_value add.commute)
qed

lemma scan_escaped:
  assumes "drop i bs = escaped w @ 34 # s"
  shows "\<exists>t. string_scan bs (length bs) i k = Inr (i + length (escaped w), t)"
  using assms
proof (induction w arbitrary: i k)
  case Nil
  then have "i < length bs \<and> bs ! i = 34" using drop_byte [of i bs 34 s] by simp
  then show ?case by (simp add: string_scan.simps [of bs "length bs" i] read_at_def)
next
  case (Cons c w)
  then have d: "drop i bs = piece c @ escaped w @ 34 # s" by (simp add: escaped_pieces del: escaped.simps)
  from scan_piece [OF this] obtain k' where
    k: "string_scan bs (length bs) i k = string_scan bs (length bs) (i + length (piece c)) k'" by blast
  from drop_drop_append [OF d] have "drop (i + length (piece c)) bs = escaped w @ 34 # s" .
  from Cons.IH [OF this, of k'] k show ?case by (simp add: escaped_pieces add.assoc del: escaped.simps)
qed

text \<open>The second pass gives the string back, if its output has room for it.\<close>

lemma loop_piece:
  assumes "drop i bs = piece c @ s" "i + length (piece c) \<le> e" "e < length bs"
  shows "string_loop bs cap e i out = StrCrash \<or>
    string_loop bs cap e i out = string_loop bs cap e (i + length (piece c)) (out @ [c])"
proof (cases rule: piece_cases [of c])
  case 1
  with drop_byte [of i bs c s] assms show ?thesis
    by (auto simp: string_loop.simps [of bs cap e i] read_at_def emit_bytes_def)
next
  case (2 x)
  with drop_byte [of i bs 92 "x # s"] drop_byte [of "Suc i" bs x s] assms show ?thesis
    by (auto simp: string_loop.simps [of bs cap e i] read_at_def emit_bytes_def string_escape_def)
next
  case 3
  with assms have d: "drop i bs = 92 # 117 # printf_04x c @ s" by simp
  have l: "length (piece c) = 6" using 3 by (simp add: printf_04x_value)
  have "drop i (take e bs) = take (e - i) (92 # 117 # printf_04x c @ s)" using d by (simp add: drop_take)
  moreover have "e - i = Suc (Suc (Suc (Suc (Suc (Suc (e - i - 6))))))" using assms(2) l by simp
  then have "take (e - i) (92 # 117 # printf_04x c @ s) = 92 # 117 # printf_04x c @ take (e - i - 6) s"
    by (simp add: printf_04x_def)
  ultimately have "utf16_literal_to_utf8 (drop i (take e bs)) = Some (6, [c])"
    using 3(2) by (intro control_literal) auto
  with drop_byte [OF d] drop_byte [of "Suc i" bs 117 "printf_04x c @ s"] assms l show ?thesis
    by (auto simp: string_loop.simps [of bs cap e i] read_at_def emit_bytes_def string_escape_def escape_def)
qed

lemma loop_escaped:
  assumes "drop i bs = escaped w @ 34 # s" "e = i + length (escaped w)"
  shows "string_loop bs cap e i out = StrCrash \<or> string_loop bs cap e i out = StrOk (out @ w @ [0]) e"
  using assms
proof (induction w arbitrary: i out)
  case Nil
  then show ?case by (simp add: string_loop.simps [of bs cap i i] emit_bytes_def)
next
  case (Cons c w)
  then have d: "drop i bs = piece c @ escaped w @ 34 # s" by (simp add: escaped_pieces del: escaped.simps)
  have e: "e = i + length (piece c) + length (escaped w)"
    using Cons.prems(2) by (simp add: escaped_pieces add.assoc del: escaped.simps)
  note d' = drop_drop_append [OF d]
  have "e < length bs" using drop_drop_append [OF d'] drop_byte [of e bs 34 s] e by simp
  with loop_piece [OF d, of e cap out] Cons.IH [OF d' e, of "out @ [c]"] e show ?case by auto
qed

lemma parse_string_text:
  assumes b: "at b (quoted (Some w) @ s)" "s \<noteq> []" and w: "0 \<notin> set w" and a: "\<And>n. allocate (hooks b) n"
  shows "\<exists>b'. parse_string item b = Parsed (item\<lparr>jtype := cJSON_String, valuestring := Some w\<rparr>) b' \<and> moves_to b b' s"
proof -
  let ?e = "offset b + 1 + length (escaped w)"
  have q: "at b (34 # escaped w @ 34 # s)" using b(1) by (simp add: quoted_def)
  have n: "pb_length b = length (content b)" using b(1) by (simp add: at_def)
  have d: "drop (offset b + 1) (content b) = escaped w @ 34 # s"
    using drop_byte [of "offset b" "content b" 34] q by (simp add: at_def)
  from scan_escaped [OF d, of 0] obtain t where t: "string_scan (content b) (pb_length b) (offset b + 1) 0 = Inr (?e, t)"
    using n by auto
  note e = scan_end [OF t]
  let ?cap = "?e - offset b - t + 1"
  have "within (offset b + 1) ?e (string_loop (content b) ?cap ?e (offset b + 1) [])"
  proof (rule string_loop_within)
    show "\<exists>s k. in_step (content b) (pb_length b) ?e t (offset b + 1) s k \<and> length [] + (?e - (offset b + 1)) + 1 + k \<le> ?cap + t"
      using t e by (intro exI [of _ "offset b + 1"] exI [of _ 0]) (auto simp: in_step_def)
  qed (use e in auto)
  with loop_escaped [OF d refl, of ?cap "[]"] have "string_loop (content b) ?cap ?e (offset b + 1) [] = StrOk (w @ [0]) ?e"
    by (auto simp: within_def)
  moreover have "c_string (w @ [0]) = w" using w by (auto simp: c_string_def takeWhile_append)
  ultimately have "parse_string item b = Parsed (item\<lparr>jtype := cJSON_String, valuestring := Some w\<rparr>) (skip_to (?e + 1) b)"
    using t a by (simp add: parse_string_def at_here [OF q] Let_def)
  moreover have "moves_to b (skip_to (offset b + length (quoted (Some w))) b) s" by (rule at_append [OF b])
  ultimately show ?thesis by (simp add: quoted_def)
qed

section \<open>Numbers\<close>

lemma number_run_text:
  assumes "list_all number_char t" "length t < n" "s = [] \<or> \<not> number_char (hd s)"
  shows "number_run n (t @ s) = t"
  using assms
proof (induction t arbitrary: n)
  case Nil
  then show ?case by (cases s) auto
qed simp

lemma parse_number_text:
  assumes b: "at b (number_text F d @ s)" "s \<noteq> []" "\<not> number_char (hd s)" and d: "reads_back F d"
  shows "\<exists>b'. parse_number F item b =
      Parsed (item\<lparr>valuedouble := d, valueint := saturate F d, jtype := cJSON_Number\<rparr>) b' \<and> moves_to b b' s"
proof -
  let ?t = "number_text F d"
  have t: "list_all number_char ?t" "length ?t < 63" "?t \<noteq> []" "strtod F ?t = (d, length ?t)"
    using d by (auto simp: reads_back_def Let_def)
  have "drop (offset b) (take (pb_length b) (content b)) = ?t @ s" using b(1) by (simp add: at_def)
  with number_run_text [OF t(1,2)] b(3) have "number_run 63 (drop (offset b) (take (pb_length b) (content b))) = ?t" by simp
  with t(3,4) at_append [OF b(1,2)] show ?thesis by (simp add: parse_number_def)
qed

section \<open>Values\<close>

text \<open>An item as it is before its value is parsed.\<close>

definition blank_item :: "'d fp \<Rightarrow> bytes option \<Rightarrow> 'd node \<Rightarrow> bool" where
  "blank_item F key x \<longleftrightarrow> bare F x \<and> jstring x = key"

lemma blank_forget:
  assumes "blank_item F (jstring y) x" "bare F y"
  shows "x\<lparr>jtype := jtype y, lineno := 0\<rparr> = y\<lparr>lineno := 0\<rparr>"
  using assms by (auto simp: blank_item_def bare_def)

text \<open>What follows a value ends a number.\<close>

definition ends_number :: "bytes \<Rightarrow> bool" where
  "ends_number s \<longleftrightarrow> s \<noteq> [] \<and> \<not> number_char (hd s)"

lemma ends_number_simps [simp]:
  "ends_number (44 # s)" "ends_number (93 # s)" "ends_number (125 # s)" "ends_number (10 # s)" "ends_number (0 # s)"
  "\<not> ends_number []"
  by (simp_all add: ends_number_def number_char_def)

definition reads :: "'d cJSON \<Rightarrow> parse_buffer \<Rightarrow> bytes \<Rightarrow> 'd cJSON parse_result \<Rightarrow> bool" where
  "reads x b s m \<longleftrightarrow> (\<exists>y b'. m = Parsed y b' \<and> forget y = forget x \<and> moves_to b b' s)"

definition reads_list :: "'d cJSON list \<Rightarrow> 'd cJSON list \<Rightarrow> parse_buffer \<Rightarrow> bytes \<Rightarrow> 'd cJSON list parse_result \<Rightarrow> bool" where
  "reads_list items xs b s m \<longleftrightarrow> (\<exists>ys b'. m = Parsed (items @ ys) b' \<and> map forget ys = map forget xs \<and> moves_to b b' s)"

lemma reads_literal:
  assumes "at b (t @ s)" "s \<noteq> []" "forget (CJSON y []) = forget x" "n = offset b + length t"
  shows "reads x b s (leaf y (skip_to n b))"
  using at_append [OF assms(1,2)] assms(3,4) by (auto simp: reads_def leaf_def)

text \<open>How the text of a value starts.\<close>

definition starts_value :: "bytes \<Rightarrow> bool" where
  "starts_value t \<longleftrightarrow> (\<exists>c t'. t = c # t' \<and> 32 < c \<and> c \<notin> {44, 58, 93, 125, 239})"

lemma reads_back_starts: "reads_back F d \<Longrightarrow> starts_value (number_text F d)"
proof -
  assume r: "reads_back F d"
  then obtain c t where t: "number_text F d = c # t" "c = 45 \<or> 48 \<le> c \<and> c \<le> 57"
    by (cases "number_text F d") (auto simp: reads_back_def Let_def)
  then have "32 < c" "c \<notin> {44, 58, 93, 125, 239}" by (auto simp: word_less_nat_alt word_le_nat_alt)
  with t show ?thesis by (simp add: starts_value_def)
qed

lemma render_starts: "plain F x \<Longrightarrow> starts_value (render_value F fmt d x)"
proof (cases x)
  case (CJSON y items)
  assume "plain F x"
  then show ?thesis
    by (auto simp: CJSON Let_def cjson_types starts_value_def [of "_ # _"] quoted_def reads_back_starts split: if_splits)
qed

lemma reads_leaf_value:
  assumes "plain F (CJSON x items)" "jtype x \<notin> {cJSON_Array, cJSON_Object}"
    and b: "at b (render_value F fmt d (CJSON x items) @ s)" and s: "ends_number s"
    and y: "blank_item F (jstring x) y" and a: "\<And>n. allocate (hooks b) n"
  shows "reads (CJSON x items) b s (parse_value F (Suc n) y b)"
proof -
  have s': "s \<noteq> []" "\<not> number_char (hd s)" using s by (auto simp: ends_number_def)
  consider "jtype x = cJSON_NULL" | "jtype x = cJSON_False" | "jtype x = cJSON_True" | "jtype x = cJSON_Number"
    | "jtype x = cJSON_String" using assms(1,2) by (auto split: if_splits)
  then show ?thesis
  proof cases
    case 1
    then have t: "at b ([110, 117, 108, 108] @ s)" and e: "items = []" "bare F x" using assms(1) b by (auto simp: cjson_types)
    have "reads (CJSON x items) b s (leaf (y\<lparr>jtype := cJSON_NULL\<rparr>) (skip_to (offset b + 4) b))"
      using blank_forget [OF y e(2)] 1 e(1) by (intro reads_literal [OF t s'(1)]) simp_all
    then show ?thesis using at_starts [OF t] at_can_read [OF t] by simp
  next
    case 2
    then have t: "at b ([102, 97, 108, 115, 101] @ s)" and e: "items = []" "bare F x" using assms(1) b by (auto simp: cjson_types)
    have "reads (CJSON x items) b s (leaf (y\<lparr>jtype := cJSON_False\<rparr>) (skip_to (offset b + 5) b))"
      using blank_forget [OF y e(2)] 2 e(1) by (intro reads_literal [OF t s'(1)]) simp_all
    then show ?thesis using at_starts [OF t] at_can_read [OF t] by simp
  next
    case 3
    then have t: "at b ([116, 114, 117, 101] @ s)" and e: "items = []" "bare F (x\<lparr>valueint := 0\<rparr>)" "valueint x = 1"
      using assms(1) b by (auto simp: cjson_types)
    have "reads (CJSON x items) b s (leaf (y\<lparr>jtype := cJSON_True, valueint := 1\<rparr>) (skip_to (offset b + 4) b))"
      using y e 3 by (intro reads_literal [OF t s'(1)]) (auto simp: blank_item_def bare_def)
    then show ?thesis using at_starts [OF t] at_can_read [OF t] by simp
  next
    case 4
    then have t: "at b (number_text F (valuedouble x) @ s)" and r: "reads_back F (valuedouble x)"
      and e: "items = []" "bare F (x\<lparr>valueint := 0, valuedouble := f_zero F\<rparr>)" "valueint x = saturate F (valuedouble x)"
      using assms(1) b by (auto simp: cjson_types)
    obtain c w where c: "number_text F (valuedouble x) = c # w" "c = 45 \<or> 48 \<le> c \<and> c \<le> 57"
      using r by (cases "number_text F (valuedouble x)") (auto simp: reads_back_def Let_def)
    then have h: "at b (c # w @ s)" "c \<notin> {110, 102, 116, 34}" using t by (auto simp: word_le_nat_alt)
    from parse_number_text [OF t s' r, of y] obtain b' where
      p: "parse_number F y b = Parsed (y\<lparr>valuedouble := valuedouble x, valueint := saturate F (valuedouble x), jtype := cJSON_Number\<rparr>) b'"
      "moves_to b b' s" by blast
    have "number_starts b" using at_here [OF h(1)] c(2) by (auto simp: number_starts_def)
    then have "parse_value F (Suc n) y b = and_then (parse_number F y b) leaf"
      using at_starts [OF h(1)] at_here [OF h(1)] h(2) by simp
    with p y e 4 show ?thesis by (auto simp: reads_def leaf_def blank_item_def bare_def)
  next
    case 5
    then obtain w where w: "valuestring x = Some w" "0 \<notin> set w" and e: "items = []" "bare F (x\<lparr>valuestring := None\<rparr>)"
      and t: "at b (quoted (Some w) @ s)" using assms(1) b by (auto simp: cjson_types nul_free_def)
    from parse_string_text [OF t s'(1) w(2) a, of y] obtain b' where
      p: "parse_string y b = Parsed (y\<lparr>jtype := cJSON_String, valuestring := Some w\<rparr>) b'" "moves_to b b' s" by blast
    have h: "at b (34 # escaped w @ 34 # s)" using t by (simp add: quoted_def)
    have "parse_value F (Suc n) y b = and_then (parse_string y b) leaf"
      using at_starts [OF h] at_here [OF h] by simp
    with p y e w 5 show ?thesis by (auto simp: reads_def leaf_def blank_item_def bare_def)
  qed
qed

section \<open>Lists\<close>

lemma white_simps [simp]:
  "white []" "white [10]" "white [9]" "white [32]" "white (replicate n 9)" "white (v @ w) \<longleftrightarrow> white v \<and> white w"
  by (auto simp: white_def list_all_iff)

lemma ends_number_white: "white w \<Longrightarrow> \<not> number_char c \<Longrightarrow> ends_number (w @ c # s)"
  by (cases w) (auto simp: ends_number_def white_def number_char_def word_le_nat_alt)

text \<open>Over a character and white space.\<close>

lemma step_white:
  assumes "at b (a # w @ c # s)" "white w" "32 < c"
  shows "moves_to b (buffer_skip_whitespace (b\<lparr>offset := offset b + 1\<rparr>)) (c # s)"
proof -
  have "moves_to b (b\<lparr>offset := offset b + 1\<rparr>) (w @ c # s)"
    using at_append [of b "[a]" "w @ c # s"] assms(1) by (simp add: skip_to_def)
  moreover from this have "at (b\<lparr>offset := offset b + 1\<rparr>) (w @ c # s)" by (simp add: moves_to_def)
  ultimately show ?thesis using skip_white [OF _ assms(2,3)] goto_trans by blast
qed

lemma next_item_text:
  assumes "at b (a # w @ c # s)" "white w" "32 < c" "\<And>n. allocate (hooks b) n"
  shows "\<exists>x b'. next_item F b = Parsed x b' \<and> blank_item F None x \<and> moves_to b b' (c # s)"
  using step_white [OF assms(1-3)] assms(4) by (simp add: next_item_def cJSON_New_Item_def blank_item_def bare_def)

lemma member_name_text:
  assumes b: "at b (quoted (Some k) @ 58 # w @ c # s)" and w: "white w" "32 < c" and k: "0 \<notin> set k"
    and a: "\<And>n. allocate (hooks b) n" and x: "blank_item F None x"
  shows "\<exists>y b'. member_name x b = Parsed y b' \<and> blank_item F (Some k) y \<and> moves_to b b' (c # s)"
proof -
  from parse_string_text [OF b _ k a, of x] obtain b1 where
    p: "parse_string x b = Parsed (x\<lparr>jtype := cJSON_String, valuestring := Some k\<rparr>) b1" "moves_to b b1 (58 # w @ c # s)" by auto
  then have "at b1 ([] @ 58 # w @ c # s)" by (simp add: moves_to_def)
  from skip_white [OF this] have s1: "moves_to b1 (buffer_skip_whitespace b1) (58 # w @ c # s)" by simp
  then have h: "at (buffer_skip_whitespace b1) (58 # w @ c # s)" by (simp add: moves_to_def)
  from step_white [OF this w] goto_trans [OF goto_trans [OF p(2) s1]]
  have "moves_to b (buffer_skip_whitespace ((buffer_skip_whitespace b1)\<lparr>offset := offset (buffer_skip_whitespace b1) + 1\<rparr>)) (c # s)"
    by blast
  with p(1) x at_here [OF h] show ?thesis by (simp add: member_name_def Let_def blank_item_def bare_def)
qed

text \<open>The end of a round.\<close>

lemma round_text:
  assumes m: "reads x b (w @ c # s) m" and w: "white w" "32 < c"
    and more: "\<And>y b'. c = 44 \<Longrightarrow> forget y = forget x \<Longrightarrow> moves_to b b' (44 # s) \<Longrightarrow> reads_list (items @ [y]) xs b' t (loop (items @ [y]) b')"
    and stop: "c \<noteq> 44 \<Longrightarrow> xs = [] \<and> t = c # s"
  shows "reads_list items (x # xs) b t (and_then m (\<lambda>y b.
    let b = buffer_skip_whitespace b in if at_char b 44 then loop (items @ [y]) b else Parsed (items @ [y]) b))"
proof -
  obtain y b1 where y: "m = Parsed y b1" "forget y = forget x" "moves_to b b1 (w @ c # s)"
    using m by (auto simp: reads_def)
  let ?b = "buffer_skip_whitespace b1"
  have "at b1 (w @ c # s)" using y(3) by (simp add: moves_to_def)
  then have "moves_to b1 ?b (c # s)" by (rule skip_white [OF _ w])
  with y(3) have g: "moves_to b ?b (c # s)" by (rule goto_trans)
  then have h: "at ?b (c # s)" by (simp add: moves_to_def)
  show ?thesis
  proof (cases "c = 44")
    case True
    from more [OF True y(2), of ?b] g True have "reads_list (items @ [y]) xs ?b t (loop (items @ [y]) ?b)" by simp
    then show ?thesis
      using y(1,2) at_here [OF h] True goto_trans [OF g] by (auto simp: Let_def reads_list_def intro: goto_trans)
  next
    case False
    then show ?thesis
      using y(1,2) at_here [OF h] stop g by (auto simp: Let_def reads_list_def)
  qed
qed

lemma starts_valueE:
  assumes "starts_value t"
  obtains c t' where "t = c # t'" "32 < c" "c \<noteq> 44" "c \<noteq> 58" "c \<noteq> 93" "c \<noteq> 125" "c \<noteq> 239"
  using assms by (auto simp: starts_value_def)

lemma array_round:
  assumes b: "at b (a # w @ t @ c # r)" "white w" "starts_value t" "32 < c" "\<not> number_char c"
    and h: "\<And>n. allocate (hooks b) n"
    and v: "\<And>y b'. blank_item F None y \<Longrightarrow> moves_to b b' (t @ c # r) \<Longrightarrow> reads x b' (c # r) (parse_value F n y b')"
    and more: "\<And>y b'. c = 44 \<Longrightarrow> forget y = forget x \<Longrightarrow> moves_to b b' (44 # r) \<Longrightarrow>
      reads_list (items @ [y]) xs b' s (array_loop F n (items @ [y]) b')"
    and stop: "c \<noteq> 44 \<Longrightarrow> xs = [] \<and> s = c # r"
  shows "reads_list items (x # xs) b s (array_loop F (Suc n) items b)"
proof -
  obtain d u where t: "t = d # u" "32 < d" using b(3) by (rule starts_valueE)
  from next_item_text [where F = F and b = b and a = a and w = w and c = d and s = "u @ c # r", OF _ b(2) t(2) h] b(1)
  obtain y b1 where
    y: "next_item F b = Parsed y b1" "blank_item F None y" "moves_to b b1 (t @ c # r)" by (auto simp: t)
  have "reads x b1 ([] @ c # r) (parse_value F n y b1)" using v [OF y(2,3)] by simp
  then have "reads_list items (x # xs) b1 s (and_then (parse_value F n y b1) (\<lambda>y b.
      let b = buffer_skip_whitespace b in if at_char b 44 then array_loop F n (items @ [y]) b else Parsed (items @ [y]) b))"
  proof (rule round_text [OF _ _ b(4)])
    fix z b' assume "c = 44" "forget z = forget x" "moves_to b1 b' (44 # r)"
    then show "reads_list (items @ [z]) xs b' s (array_loop F n (items @ [z]) b')"
      using more goto_trans [OF y(3)] by blast
  qed (use stop in auto)
  with y show ?thesis by (auto simp: reads_list_def intro: goto_trans)
qed

lemma reads_list_from: "reads_list items xs b' s m \<Longrightarrow> moves_to b b' t \<Longrightarrow> reads_list items xs b s m"
  by (auto simp: reads_list_def intro: goto_trans)

lemma object_round:
  assumes b: "at b (a # w @ quoted (Some k) @ 58 # g @ t @ w' @ c # r)" "white w" "white g" "starts_value t" "0 \<notin> set k"
      "white w'" "32 < c"
    and h: "\<And>n. allocate (hooks b) n"
    and v: "\<And>y b'. blank_item F (Some k) y \<Longrightarrow> moves_to b b' (t @ w' @ c # r) \<Longrightarrow> reads x b' (w' @ c # r) (parse_value F n y b')"
    and more: "\<And>y b'. c = 44 \<Longrightarrow> forget y = forget x \<Longrightarrow> moves_to b b' (44 # r) \<Longrightarrow>
      reads_list (items @ [y]) xs b' s (object_loop F n (items @ [y]) b')"
    and stop: "c \<noteq> 44 \<Longrightarrow> xs = [] \<and> s = c # r"
  shows "reads_list items (x # xs) b s (object_loop F (Suc n) items b)"
proof -
  obtain d u where t: "t = d # u" "32 < d" using b(4) by (rule starts_valueE)
  let ?s0 = "quoted (Some k) @ 58 # g @ t @ w' @ c # r"
  have q: "quoted (Some k) = 34 # escaped k @ [34]" by (simp add: quoted_def)
  from next_item_text [where F = F and b = b and a = a and w = w and c = 34
      and s = "escaped k @ 34 # 58 # g @ t @ w' @ c # r", OF _ b(2) _ h] b(1)
  obtain z b0 where z: "next_item F b = Parsed z b0" "blank_item F None z" "moves_to b b0 ?s0" by (auto simp: q)
  have h0: "\<And>n. allocate (hooks b0) n" and b0: "at b0 (quoted (Some k) @ 58 # g @ d # u @ w' @ c # r)"
    using h z(3) t(1) by (auto simp: moves_to_def)
  from member_name_text [OF b0 b(3) t(2) b(5) h0 z(2)] obtain y b1 where
    y: "member_name z b0 = Parsed y b1" "blank_item F (Some k) y" "moves_to b0 b1 (t @ w' @ c # r)" by (auto simp: t(1))
  have g: "moves_to b b1 (t @ w' @ c # r)" by (rule goto_trans [OF z(3) y(3)])
  have "reads x b1 (w' @ c # r) (parse_value F n y b1)" by (rule v [OF y(2) g])
  then have "reads_list items (x # xs) b1 s (and_then (parse_value F n y b1) (\<lambda>y b.
      let b = buffer_skip_whitespace b in if at_char b 44 then object_loop F n (items @ [y]) b else Parsed (items @ [y]) b))"
  proof (rule round_text [OF _ b(6,7)])
    fix z b' assume "c = 44" "forget z = forget x" "moves_to b1 b' (44 # r)"
    then show "reads_list (items @ [z]) xs b' s (object_loop F n (items @ [z]) b')"
      using more goto_trans [OF g] by blast
  qed (use stop in auto)
  from reads_list_from [OF this g] z y show ?thesis by simp
qed

text \<open>Brackets.\<close>

lemma step_back:
  assumes "at b (u @ a # s)" "moves_to b b' s"
  shows "moves_to b (b'\<lparr>offset := offset b' - 1\<rparr>) (a # s)"
proof -
  have "offset b' = offset b + length u + 1"
    using at_length [OF assms(1)] at_length [of b' s] assms by (auto simp: moves_to_def at_def)
  with at_append [of b u "a # s"] assms show ?thesis by (auto simp: moves_to_def at_def skip_to_def)
qed

lemma open_list_text:
  assumes b: "at b (opening # w @ c # r)" and w: "white w" "32 < c"
    and empty: "c = closing \<Longrightarrow> xs = [] \<and> s = c # r"
    and items: "\<And>b' a. c \<noteq> closing \<Longrightarrow> moves_to b b' (a # c # r) \<Longrightarrow> reads_list [] xs b' s (items b')"
  shows "reads_list [] xs b s (open_list opening closing b items)"
proof -
  let ?b = "buffer_skip_whitespace (b\<lparr>offset := offset b + 1\<rparr>)"
  have g: "moves_to b ?b (c # r)" by (rule step_white [OF b w])
  then have h: "at ?b (c # r)" by (simp add: moves_to_def)
  obtain u a where u: "opening # w = u @ [a]" by (cases "opening # w" rule: rev_cases) auto
  then have "at b (u @ a # c # r)" using b by (metis append_Cons append_assoc append_Nil)
  from step_back [OF this g] have k: "moves_to b (?b\<lparr>offset := offset ?b - 1\<rparr>) (a # c # r)" .
  show ?thesis
  proof (cases "c = closing")
    case True
    with empty g at_here [OF h] show ?thesis by (simp add: open_list_def Let_def reads_list_def)
  next
    case False
    from reads_list_from [OF items [OF False k] k] at_here [OF h] False show ?thesis
      by (simp add: open_list_def Let_def)
  qed
qed

lemma list_text:
  assumes l: "reads_list [] xs (b\<lparr>depth := Suc (depth b)\<rparr>) (closing # s) m" and s: "s \<noteq> []"
    and x: "blank_item F (jstring x) y" "bare F x" "jtype x = t"
  shows "reads (CJSON x xs) b s (and_then m (close_list closing t y))"
proof -
  obtain ys b' where y: "m = Parsed ys b'" "map forget ys = map forget xs" "moves_to (b\<lparr>depth := Suc (depth b)\<rparr>) b' (closing # s)"
    using l by (auto simp: reads_list_def)
  then have h: "at b' (closing # s)" by (simp add: moves_to_def)
  have "moves_to b' (b'\<lparr>offset := offset b' + 1\<rparr>) s"
    using at_append [of b' "[closing]" s] h s by (simp add: skip_to_def)
  with y(3) have "moves_to b (b'\<lparr>depth := depth b' - 1, offset := offset b' + 1\<rparr>) s"
    by (auto simp: moves_to_def at_def)
  moreover have "forget (CJSON (y\<lparr>jtype := t\<rparr>) ys) = forget (CJSON x xs)"
    using blank_forget [OF x(1,2)] x(3) y(2) by simp
  ultimately show ?thesis using y(1) at_here [OF h] by (simp add: close_list_def reads_def)
qed

section \<open>All values\<close>

text \<open>The text of the members without the indentation of the first one.\<close>

fun members_body :: "'d fp \<Rightarrow> bool \<Rightarrow> nat \<Rightarrow> 'd cJSON list \<Rightarrow> bytes" where
  "members_body F fmt d [] = []"
| "members_body F fmt d (x # xs) =
    quoted (jstring (node x)) @ (58 # (if fmt then [9] else [])) @
    render_value F fmt d x @ ((if xs \<noteq> [] then [44] else []) @ (if fmt then [10] else [])) @ render_members F fmt d xs"

lemma render_members_body:
  "xs \<noteq> [] \<Longrightarrow> render_members F fmt d xs = (if fmt then replicate d 9 else []) @ members_body F fmt d xs"
  by (cases xs) simp_all

lemma nesting_Suc:
  "nesting (CJSON x items) + d \<le> n \<Longrightarrow> jtype x = cJSON_Array \<or> jtype x = cJSON_Object \<Longrightarrow>
    Suc d \<le> n \<and> list_all (\<lambda>y. nesting y + Suc d \<le> n) items"
  using nesting_list [of items "Suc d" n] by auto

text \<open>The brackets of an array and of an object, given their elements.\<close>

lemma array_text:
  assumes b: "at b (91 # e @ 93 # s)" and s: "s \<noteq> []" and e: "if xs = [] then e = [] else starts_value e"
    and d: "Suc (depth b) \<le> CJSON_NESTING_LIMIT"
    and x: "blank_item F (jstring x) y" "bare F x" "jtype x = cJSON_Array"
    and elements: "\<And>b' a. xs \<noteq> [] \<Longrightarrow> moves_to (b\<lparr>depth := Suc (depth b)\<rparr>) b' (a # e @ 93 # s) \<Longrightarrow>
      reads_list [] xs b' (93 # s) (array_loop F n [] b')"
  shows "reads (CJSON x xs) b s (parse_value F (Suc n) y b)"
proof -
  let ?b = "b\<lparr>depth := Suc (depth b)\<rparr>"
  have h: "at ?b (91 # [] @ e @ 93 # s)" using b by (simp add: at_def)
  obtain c r where c: "e @ 93 # s = c # r" "32 < c" "c = 93 \<longleftrightarrow> xs = []" "xs = [] \<Longrightarrow> r = s"
    using e by (cases "xs = []") (auto elim!: starts_valueE)
  have "reads_list [] xs ?b (93 # s) (open_list 91 93 ?b (array_loop F n []))"
  proof (rule open_list_text)
    show "at ?b (91 # [] @ c # r)" using h c(1) by simp
  qed (use c elements in auto)
  from list_text [OF this s x]
  have "reads (CJSON x xs) b s (and_then (open_list 91 93 ?b (array_loop F n [])) (close_list 93 cJSON_Array y))" .
  moreover have "parse_value F (Suc n) y b = parse_array (array_loop F n []) y b"
    using at_starts [OF b] at_here [OF b] by (simp add: number_starts_def)
  ultimately show ?thesis
    using d at_here(1) [OF h] by (simp add: parse_array_def Let_def)
qed

lemma object_text:
  assumes b: "at b (123 # g @ e @ w @ 125 # s)" "white g" "white w" and s: "s \<noteq> []"
    and e: "if xs = [] then e = [] else \<exists>i m. e = i @ 34 # m \<and> white i"
    and d: "Suc (depth b) \<le> CJSON_NESTING_LIMIT"
    and x: "blank_item F (jstring x) y" "bare F x" "jtype x = cJSON_Object"
    and members: "\<And>b' a i m. xs \<noteq> [] \<Longrightarrow> e = i @ 34 # m \<Longrightarrow> white i \<Longrightarrow>
      moves_to (b\<lparr>depth := Suc (depth b)\<rparr>) b' (a # 34 # m @ w @ 125 # s) \<Longrightarrow>
      reads_list [] xs b' (125 # s) (object_loop F n [] b')"
  shows "reads (CJSON x xs) b s (parse_value F (Suc n) y b)"
proof -
  let ?b = "b\<lparr>depth := Suc (depth b)\<rparr>"
  have h: "at ?b (123 # g @ e @ w @ 125 # s)" using b by (simp add: at_def)
  have "reads_list [] xs ?b (125 # s) (open_list 123 125 ?b (object_loop F n []))"
  proof (cases "xs = []")
    case True
    show ?thesis
    proof (rule open_list_text)
      show "at ?b (123 # (g @ w) @ 125 # s)" using h e True by simp
    qed (use True b(2,3) in auto)
  next
    case False
    with e obtain i m where i: "e = i @ 34 # m" "white i" by auto
    show ?thesis
    proof (rule open_list_text)
      show "at ?b (123 # (g @ i) @ 34 # m @ w @ 125 # s)" using h i by simp
    qed (use False b(2,3) i members in auto)
  qed
  from list_text [OF this s x]
  have "reads (CJSON x xs) b s (and_then (open_list 123 125 ?b (object_loop F n [])) (close_list 125 cJSON_Object y))" .
  moreover have "parse_value F (Suc n) y b = parse_object (object_loop F n []) y b"
    using at_starts [OF b(1)] at_here [OF b(1)] by (simp add: number_starts_def)
  ultimately show ?thesis
    using d at_here(3) [OF h] by (simp add: parse_object_def Let_def)
qed

lemma body_starts: "xs \<noteq> [] \<Longrightarrow> \<exists>m. members_body F fmt d xs = 34 # m"
  by (cases xs) (auto simp: quoted_def split: option.splits)

lemma white_body:
  assumes "i @ 34 # m = i' @ 34 # m'" "white i" "white i'"
  shows "m = m'"
proof -
  have "takeWhile (\<lambda>c. c \<le> 32) (j @ 34 # k) = j" if "white j" for j k :: bytes
    using that by (simp add: white_def list_all_iff takeWhile_append)
  with assms have "i = i'" by metis
  with assms show ?thesis by simp
qed

lemma elements_start:
  "list_all (plain F) xs \<Longrightarrow> if xs = [] then render_elements F fmt d xs = [] else starts_value (render_elements F fmt d xs)"
proof (cases xs)
  case (Cons x ys)
  assume "list_all (plain F) xs"
  with render_starts [of F x fmt d] show ?thesis by (auto simp: Cons starts_value_def)
qed simp

text \<open>One value, one element and one member, with what is read inside of them as an assumption.\<close>

lemma array_round_trip:
  fixes F :: "'d fp"
  assumes x: "plain F (CJSON x items)" "jtype x = cJSON_Array"
    and nest: "nesting (CJSON x items) + depth b \<le> CJSON_NESTING_LIMIT"
    and at: "at b (render_value F fmt d (CJSON x items) @ s)" and s: "s \<noteq> []" and y: "blank_item F (jstring x) y"
    and inner: "\<And>b' a. items \<noteq> [] \<Longrightarrow> list_all (\<lambda>y. jstring (node y) = None \<and> plain F y) items \<Longrightarrow>
      list_all (\<lambda>y. nesting y + Suc (depth b) \<le> CJSON_NESTING_LIMIT) items \<Longrightarrow>
      moves_to (b\<lparr>depth := Suc (depth b)\<rparr>) b' (a # render_elements F fmt (Suc d) items @ 93 # s) \<Longrightarrow>
      reads_list [] items b' (93 # s) (array_loop F n [] b')"
  shows "reads (CJSON x items) b s (parse_value F (Suc n) y b)"
proof -
  let ?e = "render_elements F fmt (Suc d) items"
  from nesting_Suc [OF nest] x(2) have deep: "Suc (depth b) \<le> CJSON_NESTING_LIMIT"
    "list_all (\<lambda>y. nesting y + Suc (depth b) \<le> CJSON_NESTING_LIMIT) items" by auto
  have p: "list_all (plain F) items" "bare F x" "list_all (\<lambda>y. jstring (node y) = None \<and> plain F y) items"
    using x by (auto simp: cjson_types list_all_iff split: if_splits)
  have b: "at b (91 # ?e @ 93 # s)" using at x(2) by (simp add: cjson_types)
  show ?thesis
    by (rule array_text [OF b s elements_start [OF p(1)] deep(1) _ p(2) x(2)])
      (use inner deep p y in simp_all)
qed

lemma object_round_trip:
  fixes F :: "'d fp"
  assumes x: "plain F (CJSON x items)" "jtype x = cJSON_Object"
    and nest: "nesting (CJSON x items) + depth b \<le> CJSON_NESTING_LIMIT"
    and at: "at b (render_value F fmt d (CJSON x items) @ s)" and s: "s \<noteq> []" and y: "blank_item F (jstring x) y"
    and inner: "\<And>b' a u. items \<noteq> [] \<Longrightarrow> white u \<Longrightarrow>
      list_all (\<lambda>y. jstring (node y) \<noteq> None \<and> nul_free (jstring (node y)) \<and> plain F y) items \<Longrightarrow>
      list_all (\<lambda>y. nesting y + Suc (depth b) \<le> CJSON_NESTING_LIMIT) items \<Longrightarrow>
      moves_to (b\<lparr>depth := Suc (depth b)\<rparr>) b' (a # members_body F fmt (Suc d) items @ u @ 125 # s) \<Longrightarrow>
      reads_list [] items b' (125 # s) (object_loop F n [] b')"
  shows "reads (CJSON x items) b s (parse_value F (Suc n) y b)"
proof -
  let ?e = "render_members F fmt (Suc d) items" and ?g = "if fmt then [10] else []" and ?w = "if fmt then replicate d 9 else []"
  let ?i = "if fmt then replicate (Suc d) 9 else []"
  from nesting_Suc [OF nest] x(2) have deep: "Suc (depth b) \<le> CJSON_NESTING_LIMIT"
    "list_all (\<lambda>y. nesting y + Suc (depth b) \<le> CJSON_NESTING_LIMIT) items" by auto
  have p: "bare F x" "list_all (\<lambda>y. jstring (node y) \<noteq> None \<and> nul_free (jstring (node y)) \<and> plain F y) items"
    using x by (auto simp: cjson_types)
  have b: "at b (123 # ?g @ ?e @ ?w @ 125 # s)" using at x(2) by (simp add: cjson_types)
  have wi: "white ?i" by (simp del: replicate.simps)
  have e: "if items = [] then ?e = [] else \<exists>i m. ?e = i @ 34 # m \<and> white i"
  proof (cases "items = []")
    case False
    then obtain m where "members_body F fmt (Suc d) items = 34 # m" using body_starts by blast
    with render_members_body [OF False, of F fmt "Suc d"] have "?e = ?i @ 34 # m" by simp
    with False wi show ?thesis by metis
  qed simp
  show ?thesis
  proof (rule object_text [OF b _ _ s e deep(1) _ p(1) x(2)])
    fix b' a i m
    assume a: "items \<noteq> []" "?e = i @ 34 # m" "white i"
      "moves_to (b\<lparr>depth := Suc (depth b)\<rparr>) b' (a # 34 # m @ ?w @ 125 # s)"
    from body_starts [OF a(1)] obtain m' where m': "members_body F fmt (Suc d) items = 34 # m'" by blast
    with render_members_body [OF a(1), of F fmt "Suc d"] a(2) have "?i @ 34 # m' = i @ 34 # m" by simp
    from white_body [OF this wi a(3)] m' have m: "members_body F fmt (Suc d) items = 34 # m" by simp
    show "reads_list [] items b' (125 # s) (object_loop F n [] b')"
      by (rule inner [OF a(1) _ p(2) deep(2), of ?w]) (use a(4) m in auto)
  qed (use y in auto)
qed

lemma element_round_trip:
  fixes F :: "'d fp"
  assumes x: "jstring (node x) = None" "plain F x" and w: "white w" and a: "\<And>n. allocate (hooks b) n"
    and at: "at b (a # w @ render_elements F fmt d (x # xs) @ 93 # s)"
    and one: "\<And>y b' t. blank_item F None y \<Longrightarrow> ends_number t \<Longrightarrow> moves_to b b' (render_value F fmt d x @ t) \<Longrightarrow>
      reads x b' t (parse_value F n y b')"
    and others: "\<And>y b' g. xs \<noteq> [] \<Longrightarrow> white g \<Longrightarrow> moves_to b b' (44 # g @ render_elements F fmt d xs @ 93 # s) \<Longrightarrow>
      reads_list (items @ [y]) xs b' (93 # s) (array_loop F n (items @ [y]) b')"
  shows "reads_list items (x # xs) b (93 # s) (array_loop F (Suc n) items b)"
proof -
  let ?t = "render_value F fmt d x" and ?g = "if fmt then [32] else [] :: bytes"
  define c where "c = (if xs = [] then 93 else 44 :: u8)"
  define r where "r = (if xs = [] then s else ?g @ render_elements F fmt d xs @ 93 # s)"
  have b: "at b (a # w @ ?t @ c # r)" using at by (auto simp: c_def r_def)
  have c: "32 < c" "\<not> number_char c" by (simp_all add: c_def number_char_def)
  show ?thesis
  proof (rule array_round [OF b w render_starts [OF x(2)] c a])
    show "c \<noteq> 44 \<Longrightarrow> xs = [] \<and> 93 # s = c # r" by (cases "xs = []") (auto simp: c_def r_def)
  next
    fix y b' assume "blank_item F None y" "moves_to b b' (?t @ c # r)"
    moreover have "ends_number (c # r)" by (simp add: c_def)
    ultimately show "reads x b' (c # r) (parse_value F n y b')" by (intro one)
  next
    fix y b' assume "c = 44" and g: "moves_to b b' (44 # r)"
    then have "xs \<noteq> []" "r = ?g @ render_elements F fmt d xs @ 93 # s" by (auto simp: c_def r_def split: if_splits)
    then show "reads_list (items @ [y]) xs b' (93 # s) (array_loop F n (items @ [y]) b')"
      using g by (intro others [where g = ?g]) auto
  qed
qed

lemma member_round_trip:
  fixes F :: "'d fp"
  assumes x: "jstring (node x) = Some k" "0 \<notin> set k" "plain F x" and w: "white w" "white u" and a: "\<And>n. allocate (hooks b) n"
    and at: "at b (a # w @ members_body F fmt d (x # xs) @ u @ 125 # s)"
    and one: "\<And>y b' t. blank_item F (Some k) y \<Longrightarrow> ends_number t \<Longrightarrow> moves_to b b' (render_value F fmt d x @ t) \<Longrightarrow>
      reads x b' t (parse_value F n y b')"
    and others: "\<And>y b' g. xs \<noteq> [] \<Longrightarrow> white g \<Longrightarrow> moves_to b b' (44 # g @ members_body F fmt d xs @ u @ 125 # s) \<Longrightarrow>
      reads_list (items @ [y]) xs b' (125 # s) (object_loop F n (items @ [y]) b')"
  shows "reads_list items (x # xs) b (125 # s) (object_loop F (Suc n) items b)"
proof -
  let ?t = "render_value F fmt d x" and ?g = "if fmt then [9] else [] :: bytes"
  let ?nl = "if fmt then [10] else [] :: bytes" and ?i = "if fmt then replicate d 9 else [] :: bytes"
  define c where "c = (if xs = [] then 125 else 44 :: u8)"
  define r where "r = (if xs = [] then s else (?nl @ ?i) @ members_body F fmt d xs @ u @ 125 # s)"
  define w' where "w' = (if xs = [] then ?nl @ u else [])"
  have b: "at b (a # w @ quoted (Some k) @ 58 # ?g @ ?t @ w' @ c # r)"
    using at x(1) render_members_body [of xs F fmt d] by (auto simp: c_def r_def w'_def)
  have w': "white w'" using w(2) by (simp add: w'_def)
  have c: "32 < c" "\<not> number_char c" by (simp_all add: c_def number_char_def)
  show ?thesis
  proof (rule object_round [OF b w(1) _ render_starts [OF x(3)] x(2) w' c(1) a])
    show "white ?g" by simp
    show "c \<noteq> 44 \<Longrightarrow> xs = [] \<and> 125 # s = c # r" by (cases "xs = []") (auto simp: c_def r_def)
  next
    fix y b' assume "blank_item F (Some k) y" "moves_to b b' (?t @ w' @ c # r)"
    then show "reads x b' (w' @ c # r) (parse_value F n y b')"
      using ends_number_white [OF w' c(2)] by (intro one) auto
  next
    fix y b' assume "c = 44" and g: "moves_to b b' (44 # r)"
    then have "xs \<noteq> []" "r = (?nl @ ?i) @ members_body F fmt d xs @ u @ 125 # s" by (auto simp: c_def r_def split: if_splits)
    then show "reads_list (items @ [y]) xs b' (125 # s) (object_loop F n (items @ [y]) b')"
      using g by (intro others [where g = "?nl @ ?i"]) auto
  qed
qed

lemma render_round:
  fixes F :: "'d fp"
  shows "plain F x \<Longrightarrow> nesting x + depth b \<le> CJSON_NESTING_LIMIT \<Longrightarrow> at b (render_value F fmt d x @ s) \<Longrightarrow>
      ends_number s \<Longrightarrow> blank_item F (jstring (node x)) y \<Longrightarrow> (\<And>n. allocate (hooks b) n) \<Longrightarrow>
      2 * length (render_value F fmt d x) \<le> n \<Longrightarrow> reads x b s (parse_value F n y b)"
    and "xs \<noteq> [] \<Longrightarrow> list_all (\<lambda>y. jstring (node y) = None \<and> plain F y) xs \<Longrightarrow>
      list_all (\<lambda>y. nesting y + depth b \<le> CJSON_NESTING_LIMIT) xs \<Longrightarrow> white w \<Longrightarrow>
      at b (a # w @ render_elements F fmt d xs @ 93 # s) \<Longrightarrow> (\<And>n. allocate (hooks b) n) \<Longrightarrow>
      2 * length (render_elements F fmt d xs) + 1 \<le> n \<Longrightarrow> reads_list items xs b (93 # s) (array_loop F n items b)"
    and "xs \<noteq> [] \<Longrightarrow> list_all (\<lambda>y. jstring (node y) \<noteq> None \<and> nul_free (jstring (node y)) \<and> plain F y) xs \<Longrightarrow>
      list_all (\<lambda>y. nesting y + depth b \<le> CJSON_NESTING_LIMIT) xs \<Longrightarrow> white w \<Longrightarrow> white u \<Longrightarrow>
      at b (a # w @ members_body F fmt d xs @ u @ 125 # s) \<Longrightarrow> (\<And>n. allocate (hooks b) n) \<Longrightarrow>
      2 * length (render_members F fmt d xs) + 1 \<le> n \<Longrightarrow> reads_list items xs b (125 # s) (object_loop F n items b)"
proof (induction F fmt d x and F fmt d xs and F fmt d xs
    arbitrary: b s y n and b w a s n items and b w u a s n items rule: render_value_render_elements_render_members.induct)
  case (1 F fmt d x items b s y n)
  have s: "s \<noteq> []" using "1.prems"(4) by auto
  have y: "blank_item F (jstring x) y" using "1.prems"(5) by simp
  obtain k where n: "n = Suc k"
    using "1.prems"(7) render_starts [OF "1.prems"(1), of fmt d] by (cases n) (auto simp: starts_value_def)
  consider (leaf) "jtype x \<notin> {cJSON_Array, cJSON_Object}" | (array) "jtype x = cJSON_Array" | (object) "jtype x = cJSON_Object" by auto
  then show ?case
  proof cases
    case leaf
    with "1.prems" reads_leaf_value [of F x items b fmt d s y k] n show ?thesis by simp
  next
    case array
    show ?thesis
      unfolding n
    proof (rule array_round_trip [OF "1.prems"(1) array "1.prems"(2,3) s y])
      fix b' a
      assume "items \<noteq> []" "list_all (\<lambda>y. jstring (node y) = None \<and> plain F y) items"
        "list_all (\<lambda>y. nesting y + Suc (depth b) \<le> CJSON_NESTING_LIMIT) items"
        "moves_to (b\<lparr>depth := Suc (depth b)\<rparr>) b' (a # render_elements F fmt (Suc d) items @ 93 # s)"
      then show "reads_list [] items b' (93 # s) (array_loop F k [] b')"
        using "1.prems"(6,7) array n
        by (intro "1.IH"(1) [OF refl, where w = "[]" and a = a]) (auto simp: cjson_types moves_to_def)
    qed
  next
    case object
    show ?thesis
      unfolding n
    proof (rule object_round_trip [OF "1.prems"(1) object "1.prems"(2,3) s y])
      fix b' a u
      assume "items \<noteq> []" "white u" "list_all (\<lambda>y. jstring (node y) \<noteq> None \<and> nul_free (jstring (node y)) \<and> plain F y) items"
        "list_all (\<lambda>y. nesting y + Suc (depth b) \<le> CJSON_NESTING_LIMIT) items"
        "moves_to (b\<lparr>depth := Suc (depth b)\<rparr>) b' (a # members_body F fmt (Suc d) items @ u @ 125 # s)"
      then show "reads_list [] items b' (125 # s) (object_loop F k [] b')"
        using "1.prems"(6,7) object n
        by (intro "1.IH"(2) [OF refl, where w = "[]" and a = a and u = u]) (auto simp: cjson_types moves_to_def)
    qed
  qed
next
  case (3 F fmt d x xs b w a s n items)
  obtain k where n: "n = Suc k" using "3.prems"(7) by (cases n) auto
  have x: "jstring (node x) = None" "plain F x" using "3.prems"(2) by auto
  show ?case
    unfolding n
    by (rule element_round_trip [OF x "3.prems"(4,6,5)])
      (use "3.IH"(1) "3.IH"(2) [where a = 44] "3.prems"(2,3,6,7) x n in \<open>auto simp: moves_to_def\<close>)
next
  case (5 F fmt d x xs b w u a s n items)
  obtain m where n: "n = Suc m" using "5.prems"(8) by (cases n) auto
  obtain k where x: "jstring (node x) = Some k" "0 \<notin> set k" "plain F x" using "5.prems"(2) by (auto simp: nul_free_def)
  show ?case
    unfolding n
    by (rule member_round_trip [OF x "5.prems"(4,5,7,6)])
      (use "5.IH"(1) "5.IH"(2) [where a = 44 and u = u] "5.prems"(2,3,5,7,8) x n in \<open>auto simp: moves_to_def\<close>)
qed simp_all

section \<open>Texts\<close>

lemma plain_printable: "plain F x \<Longrightarrow> printable F x"
proof (induction F x rule: plain.induct)
  case (1 F x items)
  have "number_ok F d" if "reads_back F d" for d
    using that by (auto simp: reads_back_def number_ok_def Let_def list_all_iff number_char_def dest!: bspec [of _ _ 0])
  with 1 show ?case by (auto simp: cjson_types Let_def list_all_iff split: if_splits)
qed

lemma render_nul_free:
  "printable F x \<Longrightarrow> 0 \<notin> set (render_value F fmt d x)"
  "list_all (printable F) xs \<Longrightarrow> 0 \<notin> set (render_elements F fmt d xs)"
  "list_all (\<lambda>x. nul_free (jstring (node x)) \<and> printable F x) xs \<Longrightarrow> 0 \<notin> set (render_members F fmt d xs)"
proof (induction F fmt d x and F fmt d xs and F fmt d xs rule: render_value_render_elements_render_members.induct)
  case (1 F fmt d item items)
  then show ?case
    by (auto simp: Let_def quoted_nul_free number_ok_def nul_free_def split: if_splits)
next
  case (5 F fmt d x xs)
  then show ?case by (auto simp: quoted_nul_free)
qed auto

lemma parse_render:
  assumes x: "plain F x" "jstring (node x) = None" "nesting x \<le> CJSON_NESTING_LIMIT" and a: "\<And>n. allocate h n"
  shows "\<exists>y p e. cJSON_ParseWithOpts F h g (Some (render_value F fmt 0 x)) z = Outcome (Some y) p e \<and> forget y = forget x"
proof -
  let ?t = "render_value F fmt 0 x" and ?b = "new_buffer h (render_value F fmt 0 x)"
  obtain c t where t: "?t = c # t" "32 < c" "c \<noteq> 239" using render_starts [OF x(1)] by (rule starts_valueE)
  have b: "at ?b (?t @ [0])" by (simp add: at_def new_buffer_def)
  then have "skip_utf8_bom ?b = ?b" using at_starts [OF b] t by (simp add: skip_utf8_bom_def)
  moreover have "moves_to ?b (buffer_skip_whitespace ?b) (?t @ [0])"
    using skip_white [of ?b "[]" c "t @ [0]"] b t by simp
  ultimately have b': "at (buffer_skip_whitespace (skip_utf8_bom ?b)) (?t @ [0])"
    "depth (buffer_skip_whitespace (skip_utf8_bom ?b)) = 0" "hooks (buffer_skip_whitespace (skip_utf8_bom ?b)) = h"
    by (auto simp: moves_to_def new_buffer_def)
  obtain y where y: "cJSON_New_Item F h (pb_lineno ?b) = Some y" "blank_item F None y"
    using a by (auto simp: cJSON_New_Item_def blank_item_def bare_def)
  have fuel: "2 * length ?t \<le> parse_fuel ?t" by (simp add: parse_fuel_def)
  have "reads x (buffer_skip_whitespace (skip_utf8_bom ?b)) [0]
      (parse_value F (parse_fuel ?t) y (buffer_skip_whitespace (skip_utf8_bom ?b)))"
    by (rule render_round(1) [OF _ _ _ _ _ _ fuel]) (use x y a b' in simp_all)
  then obtain r b1 where r: "parse_value F (parse_fuel ?t) y (buffer_skip_whitespace (skip_utf8_bom ?b)) = Parsed r b1"
    "forget r = forget x" "at b1 [0]" by (auto simp: reads_def moves_to_def)
  have "offset b1 < pb_length b1" using at_length [OF r(3)] by simp
  then show ?thesis
    using r y(1) at_here(1) [OF r(3)] skip_end [OF r(3)] by (simp add: cJSON_ParseWithOpts_def Let_def)
qed

end
