(* ===== verification/Cjson_Utf8.thy ===== *)
theory Cjson_Utf8
  imports Cjson_Safety
begin

text \<open>
  UTF-16 literals: what \<open>utf16_literal_to_utf8\<close> writes is the UTF-8 form of the code point that the
  literal denotes, as RFC 3629 defines it.
\<close>

section \<open>UTF-8\<close>

definition utf8_bytes :: "nat \<Rightarrow> bytes" where
  "utf8_bytes n =
    map of_nat
      (if n < 128 then [n]
       else if n < 2048 then [192 + n div 64, 128 + n mod 64]
       else if n < 65536 then [224 + n div 4096, 128 + n div 64 mod 64, 128 + n mod 64]
       else [240 + n div 262144, 128 + n div 4096 mod 64, 128 + n div 64 mod 64, 128 + n mod 64])"

lemma byte_of_unat: "(ucast (w :: u64) :: u8) = of_nat (unat w)"
  by (rule sym) (rule Word.of_nat_unat)

lemma or_and_or: "((c :: 'a :: len word) OR m) AND (k OR m) = (c AND k) OR m"
  by (rule bit_word_eqI) (auto simp: bit_or_iff bit_and_iff)

lemma and_eq_0:
  assumes "take_bit k w = (w :: 'a :: len word)" "take_bit k m = 0"
  shows "w AND m = 0"
proof (rule bit_word_eqI)
  fix n
  have "bit w n \<Longrightarrow> n < k" using assms(1) by (metis bit_take_bit_iff)
  moreover have "bit m n \<Longrightarrow> \<not> n < k" using assms(2) by (metis bit_take_bit_iff bit_0_eq bot_apply bot_bool_def)
  ultimately show "bit (w AND m) n = bit 0 n" by (auto simp: bit_and_iff)
qed

lemma or_is_add:
  assumes "take_bit k w = (w :: 'a :: len word)" "take_bit k m = 0"
  shows "w OR m = w + m"
  using disjunctive_add_eq_or [OF and_eq_0 [OF assms]] by simp

lemma take_bit_small: "unat (w :: 'a :: len word) < 2 ^ k \<Longrightarrow> take_bit k w = w"
  by (simp add: word_unat_eq_iff unsigned_take_bit_eq take_bit_nat_eq_self)

lemma unat_drop_6: "unat (drop_bit 6 (cp :: u64)) = unat cp div 64"
  unfolding unat_drop_bit_eq by (simp add: drop_bit_eq_div)

lemma unat_take_6: "unat (take_bit 6 (cp :: u64)) = unat cp mod 64"
  unfolding unsigned_take_bit_eq by (simp add: take_bit_eq_mod)

lemma tail_byte: "(ucast (((cp :: u64) OR 128) AND 191) :: u8) = of_nat (128 + unat cp mod 64)"
proof -
  have "(191 :: u64) = mask 6 OR 128" by (simp add: mask_eq_exp_minus_1)
  then have "(cp OR 128) AND 191 = (cp AND mask 6) OR 128" using or_and_or by metis
  also have "cp AND mask 6 = take_bit 6 cp" by (simp only: take_bit_eq_mask)
  also have "take_bit 6 cp OR 128 = take_bit 6 cp + 128"
    by (rule or_is_add [where k = 6]) (simp, simp add: take_bit_eq_mod)
  finally have e: "(cp OR 128) AND 191 = take_bit 6 cp + 128" .
  have "unat (take_bit 6 cp + 128) = 128 + unat cp mod 64"
    unfolding unat_word_ariths unat_take_6 by simp
  then show ?thesis unfolding e byte_of_unat by simp
qed

lemma ucast_and_255: "(ucast ((w :: u64) AND 255) :: u8) = ucast w"
proof -
  have e: "(255 :: u64) = mask 8" by (simp add: mask_eq_exp_minus_1)
  show ?thesis unfolding e by (auto intro!: bit_word_eqI simp: bit_simps)
qed

lemma first_byte:
  assumes "unat (cp :: u64) < 2 ^ k" "take_bit k m = 0" "unat cp + unat m < 256"
  shows "(ucast ((cp OR m) AND 255) :: u8) = of_nat (unat m + unat cp)"
proof -
  have "(ucast ((cp OR m) AND 255) :: u8) = ucast (cp + m)"
    by (simp only: ucast_and_255 or_is_add [OF take_bit_small [OF assms(1)] assms(2)])
  also have "\<dots> = of_nat (unat (cp + m))" by (rule byte_of_unat)
  also have "unat (cp + m) = unat m + unat cp" unfolding unat_word_ariths using assms(3) by simp
  finally show ?thesis .
qed

lemma utf8_tail_1: "utf8_tail 1 cp out = (drop_bit 6 cp, of_nat (128 + unat cp mod 64) # out)"
  unfolding One_nat_def utf8_tail.simps tail_byte by (rule refl)

lemma one_byte:
  assumes "unat cp < 128"
  shows "utf8_encode cp = Some [of_nat (unat cp)]"
proof -
  have e: "(127 :: u64) = mask 7" by (simp add: mask_eq_exp_minus_1)
  have "take_bit 7 cp = cp" by (rule take_bit_small) (use assms in simp)
  then have "cp AND 127 = cp" unfolding e take_bit_eq_mask .
  moreover have "utf8_form cp = Some (1, 0)" using assms by (simp add: utf8_form_def word_less_nat_alt)
  ultimately show ?thesis
    by (simp only: utf8_encode_def option.case prod.case diff_self_eq_0 utf8_tail.simps byte_of_unat less_irrefl if_False)
qed

lemma more_bytes:
  assumes "utf8_form cp = Some (1 + n, mark)" "0 < n" "utf8_tail n cp [] = (hd_cp, tl_bs)"
    "unat hd_cp < 2 ^ k" "take_bit k mark = 0" "unat hd_cp + unat mark < 256"
  shows "utf8_encode cp = Some (of_nat (unat mark + unat hd_cp) # tl_bs)"
  using assms(1-3) first_byte [OF assms(4-6)] by (simp add: utf8_encode_def)

lemma utf8_form_2: "128 \<le> unat cp \<Longrightarrow> unat cp < 2048 \<Longrightarrow> utf8_form cp = Some (1 + 1, 192)"
  by (simp add: utf8_form_def word_less_nat_alt)

lemma utf8_form_3: "2048 \<le> unat cp \<Longrightarrow> unat cp < 65536 \<Longrightarrow> utf8_form cp = Some (1 + 2, 224)"
  by (simp add: utf8_form_def word_less_nat_alt)

lemma utf8_form_4: "65536 \<le> unat cp \<Longrightarrow> unat cp < 1114112 \<Longrightarrow> utf8_form cp = Some (1 + 3, 240)"
  by (simp add: utf8_form_def word_less_nat_alt word_le_nat_alt)

lemma two_bytes:
  assumes "128 \<le> unat cp" "unat cp < 2048"
  shows "utf8_encode cp = Some (map of_nat [192 + unat cp div 64, 128 + unat cp mod 64])"
proof -
  have d: "unat cp div 64 < 32" using assms(2) by (simp add: less_mult_imp_div_less)
  show ?thesis
    using more_bytes [OF utf8_form_2 [OF assms] _ utf8_tail_1, where k = 5] d
    by (simp add: unat_drop_6 take_bit_eq_mod)
qed

lemma three_bytes:
  assumes "2048 \<le> unat cp" "unat cp < 65536"
  shows "utf8_encode cp = Some (map of_nat [224 + unat cp div 4096, 128 + unat cp div 64 mod 64, 128 + unat cp mod 64])"
proof -
  have t: "utf8_tail 2 cp [] = (drop_bit 6 (drop_bit 6 cp), map of_nat [128 + unat cp div 64 mod 64, 128 + unat cp mod 64])"
    by (simp only: numeral_2_eq_2 utf8_tail.simps tail_byte unat_drop_6 list.map)
  have u: "unat (drop_bit 6 (drop_bit 6 cp)) = unat cp div 4096"
    by (simp only: unat_drop_6 div_mult2_eq [symmetric]) simp
  have d: "unat cp div 4096 < 16" using assms(2) by (simp add: less_mult_imp_div_less)
  show ?thesis
    using more_bytes [OF utf8_form_3 [OF assms] _ t, where k = 4] d
    unfolding u by (simp add: take_bit_eq_mod)
qed

lemma four_bytes:
  assumes "65536 \<le> unat cp" "unat cp < 1114112"
  shows "utf8_encode cp = Some (map of_nat [240 + unat cp div 262144, 128 + unat cp div 4096 mod 64,
    128 + unat cp div 64 mod 64, 128 + unat cp mod 64])"
proof -
  have t: "utf8_tail 3 cp [] = (drop_bit 6 (drop_bit 6 (drop_bit 6 cp)),
    map of_nat [128 + unat cp div 64 div 64 mod 64, 128 + unat cp div 64 mod 64, 128 + unat cp mod 64])"
    by (simp only: numeral_3_eq_3 utf8_tail.simps tail_byte unat_drop_6 list.map)
  have u: "unat (drop_bit 6 (drop_bit 6 (drop_bit 6 cp))) = unat cp div 262144"
    by (simp only: unat_drop_6 div_mult2_eq [symmetric]) simp
  have d: "unat cp div 262144 < 8" using assms(2) by (simp add: less_mult_imp_div_less)
  show ?thesis
    using more_bytes [OF utf8_form_4 [OF assms] _ t, where k = 3] d
    unfolding u by (simp add: take_bit_eq_mod div_mult2_eq [symmetric])
qed

lemma utf8_encode_bytes_eq:
  assumes "unat cp < 1114112"
  shows "utf8_encode cp = Some (utf8_bytes (unat cp))"
proof -
  consider "unat cp < 128" | "128 \<le> unat cp" "unat cp < 2048" | "2048 \<le> unat cp" "unat cp < 65536" | "65536 \<le> unat cp"
    by linarith
  then show ?thesis
    by cases (simp_all only: utf8_bytes_def one_byte two_bytes three_bytes four_bytes assms, simp_all)
qed

section \<open>Literals\<close>

text \<open>
  The value of a hexadecimal digit, and the code unit of a literal: as the code has it, four characters
  that are not all digits count as 0.
\<close>

definition digit_of :: "u8 \<Rightarrow> nat option" where
  "digit_of c =
    (let n = unat c in
     if n \<in> {48..57} then Some (n - 48)
     else if n \<in> {65..70} then Some (n - 55)
     else if n \<in> {97..102} then Some (n - 87)
     else None)"

definition code_unit :: "bytes \<Rightarrow> nat" where
  "code_unit inp =
    (case (digit_of (inp ! 2), digit_of (inp ! 3), digit_of (inp ! 4), digit_of (inp ! 5)) of
       (Some a, Some b, Some c, Some d) \<Rightarrow> 4096 * a + 256 * b + 16 * c + d
     | _ \<Rightarrow> 0)"

definition high_surrogate :: "nat \<Rightarrow> bool" where
  "high_surrogate n \<longleftrightarrow> 55296 \<le> n \<and> n \<le> 56319"

definition low_surrogate :: "nat \<Rightarrow> bool" where
  "low_surrogate n \<longleftrightarrow> 56320 \<le> n \<and> n \<le> 57343"

text \<open>The length and the bytes of the literal at the head of \<open>inp\<close>.\<close>

definition literal_utf8 :: "bytes \<Rightarrow> (nat \<times> bytes) option" where
  "literal_utf8 inp =
    (if length inp < 6 \<or> low_surrogate (code_unit inp) then None
     else if \<not> high_surrogate (code_unit inp) then Some (6, utf8_bytes (code_unit inp))
     else if 12 \<le> length inp \<and> inp ! 6 = 92 \<and> inp ! 7 = 117 \<and> low_surrogate (code_unit (drop 6 inp)) then
       Some (12, utf8_bytes (65536 + 1024 * (code_unit inp - 55296) + (code_unit (drop 6 inp) - 56320)))
     else None)"

lemma digit_of_eq: "hex_value c = digit_of c"
proof -
  have t: "48 \<le> c \<longleftrightarrow> 48 \<le> unat c" "c \<le> 57 \<longleftrightarrow> unat c \<le> 57" "65 \<le> c \<longleftrightarrow> 65 \<le> unat c" "c \<le> 70 \<longleftrightarrow> unat c \<le> 70"
    "97 \<le> c \<longleftrightarrow> 97 \<le> unat c" "c \<le> 102 \<longleftrightarrow> unat c \<le> 102"
    by (simp_all add: word_le_nat_alt)
  show ?thesis
  proof (cases "hex4_digit c")
    case None
    then show ?thesis
      unfolding hex_value_def hex4_digit_def t by (auto simp: digit_of_def Let_def split: if_splits)
  next
    case (Some d)
    then have "48 \<le> unat c \<and> unat c \<le> 57 \<or> 65 \<le> unat c \<and> unat c \<le> 70 \<or> 97 \<le> unat c \<and> unat c \<le> 102"
      unfolding hex4_digit_def t by (auto split: if_splits)
    then show ?thesis
      using hex_digit_value [OF Some] Some by (auto simp: hex_value_def digit_of_def Let_def t)
  qed
qed

lemma code_unit_eq:
  assumes "6 \<le> length inp"
  shows "unat (parse_hex4 (drop 2 inp)) = code_unit inp"
proof -
  obtain x y a b c d r where i: "inp = x # y # a # b # c # d # r"
    using assms by (auto simp: Suc_le_length_iff eval_nat_numeral)
  have x: "inp ! 2 = a" "inp ! 3 = b" "inp ! 4 = c" "inp ! 5 = d" "drop 2 inp = a # b # c # d # r"
    by (simp_all add: i)
  show ?thesis
    unfolding code_unit_def x parse_hex4_value digit_of_eq by (simp add: algebra_simps split: option.split)
qed

lemma code_unit_less: "6 \<le> length inp \<Longrightarrow> code_unit inp < 65536"
  using parse_hex4_less [of "drop 2 inp"] by (simp add: code_unit_eq)

lemma surrogate_pair:
  assumes "unat (first :: u32) = v" "unat (second :: u32) = w" "high_surrogate v" "low_surrogate w"
  shows "unat (ucast (65536 + (push_bit 10 (first AND 1023) OR (second AND 1023)) :: u32) :: u64)
    = 65536 + 1024 * (v - 55296) + (w - 56320)"
proof -
  have m: "(1023 :: u32) = mask 10" by (simp add: mask_eq_exp_minus_1)
  have a: "unat (x AND 1023) = unat x mod 1024" for x :: u32
    unfolding m take_bit_eq_mask [symmetric] Word.unsigned_take_bit_eq by (simp add: take_bit_eq_mod)
  have p: "push_bit 10 (first AND 1023) OR (second AND 1023) = (second AND 1023) + push_bit 10 (first AND 1023)"
    unfolding m take_bit_eq_mask [symmetric]
    by (subst or.commute) (rule or_is_add [where k = 10], simp_all add: take_bit_push_bit)
  have q: "unat (push_bit 10 (first AND 1023)) = 1024 * (v mod 1024)"
    using a [of first] assms(1) by (simp add: push_bit_eq_mult unat_word_ariths)
  have r: "v mod 1024 = v - 55296" "w mod 1024 = w - 56320" "v - 55296 < 1024" "w - 56320 < 1024"
    using assms(3,4) by (auto simp: high_surrogate_def low_surrogate_def mod_nat_eqI)
  show ?thesis
    unfolding unat_u32_64 p unat_word_ariths q a assms(2) r using r(3,4) by simp
qed

lemma utf16_literal_eq: "utf16_literal_to_utf8 inp = literal_utf8 inp"
proof (cases "length inp < 6")
  case True
  then show ?thesis by (simp add: utf16_literal_to_utf8_def utf16_codepoint_def literal_utf8_def)
next
  case False
  let ?v = "code_unit inp" and ?w = "code_unit (drop 6 inp)"
  let ?first = "parse_hex4 (drop 2 inp)" and ?second = "parse_hex4 (drop 2 (drop 6 inp))"
  have v: "unat ?first = ?v" using code_unit_eq [of inp] False by simp
  have low: "56320 \<le> f \<and> f \<le> 57343 \<longleftrightarrow> low_surrogate (unat f)" and
    high: "55296 \<le> f \<and> f \<le> 56319 \<longleftrightarrow> high_surrogate (unat f)" and
    out: "f < 56320 \<or> f > 57343 \<longleftrightarrow> \<not> low_surrogate (unat f)" for f :: u32
    by (auto simp: low_surrogate_def high_surrogate_def word_le_nat_alt word_less_nat_alt)
  show ?thesis
  proof (cases "high_surrogate ?v")
    case True
    then have l: "\<not> low_surrogate ?v" by (simp add: low_surrogate_def high_surrogate_def)
    show ?thesis
    proof (cases "12 \<le> length inp")
      case True
      have n: "\<not> length inp - 6 < 6" using True by linarith
      have w: "unat ?second = ?w" using code_unit_eq [of "drop 6 inp"] True by simp
      let ?cp = "ucast (65536 + (push_bit 10 (?first AND 1023) OR (?second AND 1023))) :: u64"
      have c: "utf16_codepoint inp = (if inp ! 6 = 92 \<and> inp ! 7 = 117 \<and> low_surrogate ?w then Some (12, ?cp) else None)"
        using False n \<open>high_surrogate ?v\<close> l
        unfolding utf16_codepoint_def Let_def low high out v w by simp
      have u: "unat ?cp = 65536 + 1024 * (?v - 55296) + (?w - 56320)" if "low_surrogate ?w"
        by (rule surrogate_pair [OF v w \<open>high_surrogate ?v\<close> that])
      have "utf8_encode ?cp = Some (utf8_bytes (65536 + 1024 * (?v - 55296) + (?w - 56320)))" if "low_surrogate ?w"
        using utf8_encode_bytes_eq [of ?cp] that \<open>high_surrogate ?v\<close>
        unfolding u [OF that] by (auto simp: low_surrogate_def high_surrogate_def)
      then show ?thesis
        using False True \<open>high_surrogate ?v\<close> l
        by (simp only: utf16_literal_to_utf8_def c literal_utf8_def) simp
    next
      case False
      then have "length inp - 6 < 6" by linarith
      then have "utf16_codepoint inp = None"
        using \<open>high_surrogate ?v\<close> l unfolding utf16_codepoint_def Let_def low high v by simp
      then show ?thesis using False \<open>high_surrogate ?v\<close> by (simp add: utf16_literal_to_utf8_def literal_utf8_def)
    qed
  next
    case high: False
    have c: "utf16_codepoint inp = (if low_surrogate ?v then None else Some (6, ucast ?first))"
      using False high unfolding utf16_codepoint_def Let_def low \<open>\<And>f. (55296 \<le> f \<and> f \<le> 56319) = high_surrogate (unat f)\<close> v by simp
    have u: "unat (ucast ?first :: u64) = ?v" by (simp add: unat_u32_64 v)
    have "utf8_encode (ucast ?first) = Some (utf8_bytes ?v)"
      using utf8_encode_bytes_eq [of "ucast ?first"] code_unit_less [of inp] False by (simp add: u)
    then show ?thesis
      using False high by (simp add: utf16_literal_to_utf8_def c literal_utf8_def)
  qed
qed

end
