(* ===== verification/Cjson_Minify.thy ===== *)
theory Cjson_Minify
  imports Cjson_Base
begin

text \<open>
  \<open>cJSON_Minify\<close>: blanks and comments are removed in place.  The text is read at \<open>i\<close> and written at \<open>w\<close>;
  \<open>None\<close> is an access outside the memory of the text.  The functional behaviour is \<open>strip\<close>, a function
  of the text alone.
\<close>

section \<open>The loops\<close>

definition write_at :: "bytes \<Rightarrow> nat \<Rightarrow> u8 \<Rightarrow> bytes option" where
  "write_at bs i c = (if i < length bs then Some (bs[i := c]) else None)"

lemma read_at_bound: "read_at bs i = Some c \<Longrightarrow> i < length bs"
  by (simp add: read_at_def split: if_splits)

lemma write_at_length: "write_at bs i c = Some bs' \<Longrightarrow> length bs' = length bs"
  by (auto simp: write_at_def split: if_splits)

function oneline_loop :: "bytes \<Rightarrow> nat \<Rightarrow> nat option" where
  "oneline_loop bs i =
    (case read_at bs i of
       None \<Rightarrow> None
     | Some c \<Rightarrow> if c = 0 then Some i else if c = 10 then Some (i + 1) else oneline_loop bs (i + 1))"
  by pat_completeness auto
termination by (relation "measure (\<lambda>(bs, i). length bs - i)") (auto dest!: read_at_bound)

definition skip_oneline_comment :: "bytes \<Rightarrow> nat \<Rightarrow> nat option" where
  "skip_oneline_comment bs i = oneline_loop bs (i + 2)"

function multiline_loop :: "bytes \<Rightarrow> nat \<Rightarrow> nat option" where
  "multiline_loop bs i =
    (case read_at bs i of
       None \<Rightarrow> None
     | Some c \<Rightarrow>
         if c = 0 then Some i
         else if c = 42 then
           (case read_at bs (i + 1) of
              None \<Rightarrow> None
            | Some d \<Rightarrow> if d = 47 then Some (i + 2) else multiline_loop bs (i + 1))
         else multiline_loop bs (i + 1))"
  by pat_completeness auto
termination by (relation "measure (\<lambda>(bs, i). length bs - i)") (auto dest!: read_at_bound)

definition skip_multiline_comment :: "bytes \<Rightarrow> nat \<Rightarrow> nat option" where
  "skip_multiline_comment bs i = multiline_loop bs (i + 2)"

text \<open>
  Reading does not follow writing: what is read at \<open>i\<close> in one round is the byte that was there at its
  start, as the only byte written before is a copy of it or lies in front of it.
\<close>

function string_copy :: "bytes \<Rightarrow> nat \<Rightarrow> nat \<Rightarrow> (bytes \<times> nat \<times> nat) option" where
  "string_copy bs i w =
    (case read_at bs i of
       None \<Rightarrow> None
     | Some c \<Rightarrow>
         if c = 0 then Some (bs, i, w)
         else
           (case write_at bs w c of
              None \<Rightarrow> None
            | Some bs1 \<Rightarrow>
                if c = 34 then Some (bs1, i + 1, w + 1)
                else if c = 92 then
                  (case read_at bs1 (i + 1) of
                     None \<Rightarrow> None
                   | Some d \<Rightarrow>
                       if d = 34 then
                         (case write_at bs1 (w + 1) d of
                            None \<Rightarrow> None
                          | Some bs2 \<Rightarrow> string_copy bs2 (i + 2) (w + 2))
                       else string_copy bs1 (i + 1) (w + 1))
                else string_copy bs1 (i + 1) (w + 1)))"
  by pat_completeness auto
termination
  by (relation "measure (\<lambda>(bs, i, w). length bs - i)") (auto dest!: read_at_bound write_at_length)

declare oneline_loop.simps [simp del] multiline_loop.simps [simp del] string_copy.simps [simp del]

definition minify_string :: "bytes \<Rightarrow> nat \<Rightarrow> nat \<Rightarrow> (bytes \<times> nat \<times> nat) option" where
  "minify_string bs i w =
    (case read_at bs i of
       None \<Rightarrow> None
     | Some c \<Rightarrow> (case write_at bs w c of None \<Rightarrow> None | Some bs \<Rightarrow> string_copy bs (i + 1) (w + 1)))"

lemma oneline_moves: "oneline_loop bs i = Some j \<Longrightarrow> i \<le> j"
  by (induction bs i arbitrary: j rule: oneline_loop.induct)
    (subst (asm) oneline_loop.simps, fastforce split: option.splits if_splits)

lemma multiline_moves: "multiline_loop bs i = Some j \<Longrightarrow> i \<le> j"
  by (induction bs i arbitrary: j rule: multiline_loop.induct)
    (subst (asm) (2) multiline_loop.simps, fastforce split: option.splits if_splits)

lemma string_copy_round:
  assumes "string_copy bs i w = Some r"
  shows "i < length bs \<and> (r = (bs, i, w) \<or>
    (\<exists>bs1. length bs1 = length bs \<and>
      (r = (bs1, i + 1, w + 1) \<or> string_copy bs1 (i + 1) (w + 1) = Some r \<or> string_copy bs1 (i + 2) (w + 2) = Some r)))"
  using assms
  by (subst (asm) string_copy.simps)
    (auto simp del: add_2_eq_Suc' split: option.splits if_splits dest!: read_at_bound write_at_length)

lemma string_copy_moves: "string_copy bs i w = Some (bs', j, v) \<Longrightarrow> i \<le> j \<and> length bs' = length bs"
proof (induction "length bs - i" arbitrary: bs i w rule: less_induct)
  case less
  have ih: "i \<le> j \<and> length bs' = length bs"
    if "i < length bs" "length bs1 = length bs" "i < k" "string_copy bs1 k u = Some (bs', j, v)" for bs1 k u
    using less.hyps [of bs1 k u] that by fastforce
  from string_copy_round [OF less.prems] show ?case
    using ih [of _ "Suc i"] ih [of _ "Suc (Suc i)"] by fastforce
qed

lemma minify_string_moves: "minify_string bs i w = Some (bs', j, v) \<Longrightarrow> i < j \<and> length bs' = length bs"
  by (auto simp: minify_string_def split: option.splits dest!: string_copy_moves write_at_length)

lemma oneline_comment_moves: "skip_oneline_comment bs i = Some j \<Longrightarrow> i < j"
  by (auto simp: skip_oneline_comment_def dest!: oneline_moves)

lemma multiline_comment_moves: "skip_multiline_comment bs i = Some j \<Longrightarrow> i < j"
  by (auto simp: skip_multiline_comment_def dest!: multiline_moves)

function minify_loop :: "bytes \<Rightarrow> nat \<Rightarrow> nat \<Rightarrow> (bytes \<times> nat) option" where
  "minify_loop bs i w =
    (case read_at bs i of
       None \<Rightarrow> None
     | Some c \<Rightarrow>
         if c = 0 then Some (bs, w)
         else if c = 32 \<or> c = 9 \<or> c = 13 \<or> c = 10 then minify_loop bs (i + 1) w
         else if c = 47 then
           (case read_at bs (i + 1) of
              None \<Rightarrow> None
            | Some d \<Rightarrow>
                if d = 47 then (case skip_oneline_comment bs i of None \<Rightarrow> None | Some j \<Rightarrow> minify_loop bs j w)
                else if d = 42 then (case skip_multiline_comment bs i of None \<Rightarrow> None | Some j \<Rightarrow> minify_loop bs j w)
                else minify_loop bs (i + 1) w)
         else if c = 34 then
           (case minify_string bs i w of None \<Rightarrow> None | Some (bs, j, w) \<Rightarrow> minify_loop bs j w)
         else (case write_at bs w c of None \<Rightarrow> None | Some bs \<Rightarrow> minify_loop bs (i + 1) (w + 1)))"
  by pat_completeness auto
termination
  by (relation "measure (\<lambda>(bs, i, w). length bs - i)")
    (auto dest!: read_at_bound write_at_length minify_string_moves oneline_comment_moves multiline_comment_moves
      intro!: diff_less_mono2)

declare minify_loop.simps [simp del]

text \<open>\<open>None\<close> for the null pointer is harmless.\<close>

definition cJSON_Minify :: "bytes option \<Rightarrow> bytes option option" where
  "cJSON_Minify json =
    (case json of
       None \<Rightarrow> Some None
     | Some bs \<Rightarrow>
         (case minify_loop bs 0 0 of
            None \<Rightarrow> None
          | Some (bs, w) \<Rightarrow> map_option Some (write_at bs w 0)))"

end
