(* ===== verification/Cjson_Strip.thy ===== *)
theory Cjson_Strip
  imports Cjson_Minify Cjson_Roundtrip
begin

text \<open>
  \<open>cJSON_Minify\<close> computes \<open>strip\<close>, a function of the text, without leaving its memory, and takes the
  formatted text of an item to the unformatted one.
\<close>

section \<open>Blanks and comments\<close>

definition gap :: "u8 \<Rightarrow> bool" where
  "gap c \<longleftrightarrow> c = 32 \<or> c = 9 \<or> c = 13 \<or> c = 10"

text \<open>What follows a comment, and the length of a string from behind its first quote on.\<close>

fun line_rest :: "bytes \<Rightarrow> bytes" where
  "line_rest [] = []"
| "line_rest (c # cs) = (if c = 10 then cs else line_rest cs)"

fun block_rest :: "bytes \<Rightarrow> bytes" where
  "block_rest [] = []"
| "block_rest (c # cs) = (if c = 42 \<and> cs \<noteq> [] \<and> hd cs = 47 then tl cs else block_rest cs)"

function string_len :: "bytes \<Rightarrow> nat" where
  "string_len [] = 0"
| "string_len (c # cs) =
    (if c = 34 then 1
     else if c = 92 \<and> cs \<noteq> [] \<and> hd cs = 34 then 2 + string_len (tl cs)
     else 1 + string_len cs)"
  by pat_completeness auto
termination by (relation "measure length") auto

lemma line_rest_length: "length (line_rest cs) \<le> length cs"
  by (induction cs) auto

lemma block_rest_length: "length (block_rest cs) \<le> length cs"
  by (induction cs) auto

function strip :: "bytes \<Rightarrow> bytes" where
  "strip [] = []"
| "strip (c # cs) =
    (if gap c then strip cs
     else if c = 47 then
       strip (if cs \<noteq> [] \<and> hd cs = 47 then line_rest (tl cs)
              else if cs \<noteq> [] \<and> hd cs = 42 then block_rest (tl cs)
              else cs)
     else if c = 34 then 34 # take (string_len cs) cs @ strip (drop (string_len cs) cs)
     else c # strip cs)"
  by pat_completeness auto
termination
  by (relation "measure length") (auto simp: less_Suc_eq_le intro: order.trans [OF line_rest_length] order.trans [OF block_rest_length])

section \<open>The loops compute it\<close>

text \<open>The text \<open>cs\<close> and its NUL are what \<open>bs\<close> has from \<open>i\<close> on.\<close>

definition ahead :: "bytes \<Rightarrow> nat \<Rightarrow> bytes \<Rightarrow> bytes \<Rightarrow> bool" where
  "ahead bs i cs tail \<longleftrightarrow> drop i bs = cs @ 0 # tail \<and> 0 \<notin> set cs"

lemma ahead_read: "ahead bs i cs tail \<Longrightarrow> read_at bs i = Some (if cs = [] then 0 else hd cs)"
  by (cases cs) (auto simp: ahead_def read_at_def nth_via_drop dest: arg_cong [of _ _ length])

lemma ahead_Cons: "ahead bs i (c # cs) tail \<Longrightarrow> ahead bs (Suc i) cs tail \<and> c \<noteq> 0"
  by (auto simp: ahead_def drop_Suc tl_drop [symmetric])

lemma ahead_write: "ahead bs i cs tail \<Longrightarrow> w < i \<Longrightarrow> ahead (bs[w := c]) i cs tail"
  by (simp add: ahead_def)

lemma ahead_length: "ahead bs i cs tail \<Longrightarrow> i + length cs < length bs"
  by (auto simp: ahead_def dest: arg_cong [of _ _ length])

lemma oneline_rest:
  assumes "ahead bs i cs tail"
  shows "\<exists>j. oneline_loop bs i = Some j \<and> i \<le> j \<and> ahead bs j (line_rest cs) tail"
  using assms
proof (induction cs arbitrary: i)
  case Nil
  then show ?case by (subst oneline_loop.simps) (simp add: ahead_read)
next
  case (Cons c cs)
  then show ?case
    using ahead_Cons [OF Cons.prems] Cons.IH [of "Suc i"]
    by (subst oneline_loop.simps) (fastforce simp: ahead_read [OF Cons.prems] dest: Suc_leD)
qed

lemma multiline_rest:
  assumes "ahead bs i cs tail"
  shows "\<exists>j. multiline_loop bs i = Some j \<and> i \<le> j \<and> ahead bs j (block_rest cs) tail"
  using assms
proof (induction cs arbitrary: i)
  case Nil
  then show ?case by (subst multiline_loop.simps) (simp add: ahead_read)
next
  case (Cons c cs)
  note a = ahead_Cons [OF Cons.prems]
  obtain j where j: "multiline_loop bs (Suc i) = Some j" "Suc i \<le> j" "ahead bs j (block_rest cs) tail"
    using Cons.IH [of "Suc i"] a by blast
  have r: "read_at bs (Suc i) = Some (if cs = [] then 0 else hd cs)" using a ahead_read by blast
  have "ahead bs (i + 2) (tl cs) tail" if "cs \<noteq> []"
    using a ahead_Cons [of bs "Suc i" "hd cs" "tl cs"] that by simp
  then show ?case
    using a j r by (subst multiline_loop.simps) (auto simp: ahead_read [OF Cons.prems])
qed

text \<open>Bytes that have been written from \<open>w\<close> on.\<close>

definition wrote :: "bytes \<Rightarrow> nat \<Rightarrow> bytes \<Rightarrow> bytes \<Rightarrow> bool" where
  "wrote bs w out bs' \<longleftrightarrow> bs' = take w bs @ out @ drop (w + length out) bs"

lemma wrote_Nil [simp]: "wrote bs w [] bs' \<longleftrightarrow> bs' = bs"
  by (auto simp: wrote_def)

lemma wrote_Cons: "wrote (bs[w := c]) (Suc w) t bs' \<Longrightarrow> w < length bs \<Longrightarrow> wrote bs w (c # t) bs'"
  by (auto simp: wrote_def take_Suc_conv_app_nth add.commute)

lemma wrote_append:
  assumes "wrote bs w s bs1" "wrote bs1 (w + length s) t bs2" "w + length s \<le> length bs"
  shows "wrote bs w (s @ t) bs2"
  using assms by (auto simp: wrote_def add.commute add.left_commute)

lemma ahead_write_at:
  assumes "ahead bs i cs tail" "w \<le> i"
  shows "write_at bs w c = Some (bs[w := c])" "w < length bs"
  using ahead_length [OF assms(1)] assms(2) by (simp_all add: write_at_def)

lemma string_copy_ok:
  assumes "ahead bs i cs tail" "w \<le> i"
  shows "\<exists>bs'. string_copy bs i w = Some (bs', i + string_len cs, w + string_len cs) \<and>
    wrote bs w (take (string_len cs) cs) bs' \<and> ahead bs' (i + string_len cs) (drop (string_len cs) cs) tail"
  using assms
proof (induction cs arbitrary: bs i w rule: string_len.induct)
  case 1
  then show ?case by (subst string_copy.simps) (simp add: ahead_read)
next
  case (2 c cs)
  note a = ahead_Cons [OF 2(3)] and ww = ahead_write_at [OF 2(3,4)]
  let ?bs = "bs[w := c]"
  have a1: "ahead ?bs (Suc i) cs tail" using a 2(4) by (simp add: ahead_write)
  note r = ahead_read [OF 2(3)] and r1 = ahead_read [OF a1]
  consider "c = 34" | "c = 92" "cs \<noteq> []" "hd cs = 34" | "c \<noteq> 34" "\<not> (c = 92 \<and> cs \<noteq> [] \<and> hd cs = 34)" by blast
  then show ?case
  proof cases
    case 1
    then show ?thesis
      using a a1 ww by (subst string_copy.simps) (auto simp: r wrote_Cons)
  next
    case 2
    then obtain ds where ds: "cs = 34 # ds" by (cases cs) auto
    let ?n = "string_len ds" and ?bs2 = "?bs[Suc w := 34]"
    have a2: "ahead ?bs2 (i + 2) ds tail"
      using ahead_Cons [of ?bs "Suc i" 34 ds] a1 ds \<open>w \<le> i\<close> by (simp add: ahead_write)
    have w2: "write_at ?bs (Suc w) 34 = Some ?bs2" "Suc w < length ?bs"
      using ahead_write_at [OF a1, of "Suc w"] \<open>w \<le> i\<close> by simp_all
    obtain bs' where b: "string_copy ?bs2 (i + 2) (w + 2) = Some (bs', i + 2 + ?n, w + 2 + ?n)"
      "wrote ?bs2 (w + 2) (take ?n ds) bs'" "ahead bs' (i + 2 + ?n) (drop ?n ds) tail"
      using "2.IH"(1) [of ?bs2 "i + 2" "w + 2"] a2 2 ds \<open>w \<le> i\<close> by auto
    have "string_copy bs i w = string_copy ?bs2 (i + 2) (w + 2)"
      using 2 a ww w2 r1 ds by (subst string_copy.simps) (auto simp: r)
    moreover have "wrote bs w (c # 34 # take ?n ds) bs'"
      using b(2) w2(2) ww(2) by (intro wrote_Cons) simp_all
    moreover have "string_len (c # cs) = Suc (Suc ?n)" using 2 ds by simp
    ultimately show ?thesis using b ds by (simp del: string_len.simps)
  next
    case 3
    then have "\<exists>bs'. string_copy ?bs (Suc i) (Suc w) = Some (bs', Suc i + string_len cs, Suc w + string_len cs) \<and>
      wrote ?bs (Suc w) (take (string_len cs) cs) bs' \<and> ahead bs' (Suc i + string_len cs) (drop (string_len cs) cs) tail"
      using "2.IH"(2) [OF _ _ a1, of "Suc w"] \<open>w \<le> i\<close> by simp
    then obtain bs' where b: "string_copy ?bs (Suc i) (Suc w) = Some (bs', Suc i + string_len cs, Suc w + string_len cs)"
      "wrote ?bs (Suc w) (take (string_len cs) cs) bs'" "ahead bs' (Suc i + string_len cs) (drop (string_len cs) cs) tail"
      by blast
    have "string_copy bs i w = string_copy ?bs (Suc i) (Suc w)"
      using 3 a ww r1 by (subst string_copy.simps) (auto simp: r)
    moreover have "string_len (c # cs) = Suc (string_len cs)" using 3 by auto
    ultimately show ?thesis using b wrote_Cons [OF b(2) ww(2)] by (simp del: string_len.simps)
  qed
qed

lemma minify_string_ok:
  assumes "ahead bs i (34 # cs) tail" "w \<le> i"
  shows "\<exists>bs'. minify_string bs i w = Some (bs', i + Suc (string_len cs), w + Suc (string_len cs)) \<and>
    wrote bs w (34 # take (string_len cs) cs) bs' \<and>
    ahead bs' (i + Suc (string_len cs)) (drop (string_len cs) cs) tail"
proof -
  have a: "ahead (bs[w := 34]) (Suc i) cs tail"
    using ahead_Cons [OF assms(1)] assms(2) by (simp add: ahead_write)
  note ww = ahead_write_at(1) [OF assms, of 34] ahead_write_at(2) [OF assms]
  show ?thesis
    using string_copy_ok [OF a, of "Suc w"] assms(2) ww(2)
    by (auto simp: minify_string_def ahead_read [OF assms(1)] ww(1) intro!: wrote_Cons)
qed

lemma wrote_length: "wrote bs w out bs' \<Longrightarrow> w + length out \<le> length bs \<Longrightarrow> length bs' = length bs"
  by (auto simp: wrote_def)

lemma string_len_le: "string_len cs \<le> length cs"
proof (induction cs rule: string_len.induct)
  case (2 c cs)
  then show ?case by (cases cs) auto
qed simp

lemma comment_ok:
  assumes "ahead bs i (47 # cs) tail"
  shows "\<exists>j. minify_loop bs i w = minify_loop bs j w \<and> i < j \<and>
    ahead bs j (if cs \<noteq> [] \<and> hd cs = 47 then line_rest (tl cs) else if cs \<noteq> [] \<and> hd cs = 42 then block_rest (tl cs) else cs) tail"
proof -
  have a: "ahead bs (Suc i) cs tail" using ahead_Cons [OF assms] by simp
  note r = ahead_read [OF assms] ahead_read [OF a]
  have u: "minify_loop bs i w =
    (if cs \<noteq> [] \<and> hd cs = 47 then (case skip_oneline_comment bs i of None \<Rightarrow> None | Some j \<Rightarrow> minify_loop bs j w)
     else if cs \<noteq> [] \<and> hd cs = 42 then (case skip_multiline_comment bs i of None \<Rightarrow> None | Some j \<Rightarrow> minify_loop bs j w)
     else minify_loop bs (Suc i) w)"
    by (subst minify_loop.simps) (auto simp: r)
  have t: "ahead bs (i + 2) (tl cs) tail" if "cs \<noteq> []"
    using ahead_Cons [of bs "Suc i" "hd cs" "tl cs"] a that by simp
  show ?thesis
    using a u t oneline_rest [of bs "i + 2" "tl cs" tail] multiline_rest [of bs "i + 2" "tl cs" tail]
    by (fastforce simp: skip_oneline_comment_def skip_multiline_comment_def Suc_le_eq dest: Suc_lessD)
qed

lemma minify_loop_ok:
  assumes "ahead bs i cs tail" "w \<le> i"
  shows "\<exists>bs'. minify_loop bs i w = Some (bs', w + length (strip cs)) \<and> wrote bs w (strip cs) bs' \<and>
    length bs' = length bs \<and> length (strip cs) \<le> length cs"
  using assms
proof (induction cs arbitrary: bs i w rule: strip.induct)
  case 1
  then show ?case by (subst minify_loop.simps) (simp add: ahead_read)
next
  case (2 c cs)
  note r = ahead_read [OF "2.prems"(1)] and a = ahead_Cons [OF "2.prems"(1)]
  note r1 = ahead_read [OF conjunct1 [OF a]]
  consider "gap c" | "c = 47" | "c = 34" | "\<not> gap c" "c \<noteq> 47" "c \<noteq> 34" by blast
  then show ?case
  proof cases
    case 1
    then have "minify_loop bs i w = minify_loop bs (Suc i) w"
      using a by (subst minify_loop.simps) (auto simp: r gap_def)
    then show ?thesis using "2.IH"(1) [OF 1 conjunct1 [OF a], of w] 1 "2.prems"(2) by auto
  next
    case 2
    then have nb: "\<not> gap c" by (simp add: gap_def)
    let ?cs = "if cs \<noteq> [] \<and> hd cs = 47 then line_rest (tl cs) else if cs \<noteq> [] \<and> hd cs = 42 then block_rest (tl cs) else cs"
    obtain j where j: "minify_loop bs i w = minify_loop bs j w" "i < j" "ahead bs j ?cs tail"
      using comment_ok "2.prems"(1) 2 by blast
    have "length ?cs \<le> length cs"
      using line_rest_length [of "tl cs"] block_rest_length [of "tl cs"] by auto
    moreover have "strip (c # cs) = strip ?cs" using nb 2 by simp
    ultimately show ?thesis using "2.IH"(2) [OF nb 2 j(3), of w] j "2.prems"(2) by auto
  next
    case 3
    then have nb: "\<not> gap c" "c \<noteq> 47" by (simp_all add: gap_def)
    let ?n = "string_len cs"
    obtain bs1 where b: "minify_string bs i w = Some (bs1, i + Suc ?n, w + Suc ?n)"
      "wrote bs w (34 # take ?n cs) bs1" "ahead bs1 (i + Suc ?n) (drop ?n cs) tail"
      using minify_string_ok "2.prems" 3 by blast
    have l: "length (34 # take ?n cs) = Suc ?n" using string_len_le [of cs] by simp
    have le: "w + Suc ?n \<le> length bs" using ahead_length [OF "2.prems"(1)] "2.prems"(2) string_len_le [of cs] by simp
    obtain bs2 where c: "minify_loop bs1 (i + Suc ?n) (w + Suc ?n) = Some (bs2, w + Suc ?n + length (strip (drop ?n cs)))"
      "wrote bs1 (w + Suc ?n) (strip (drop ?n cs)) bs2" "length bs2 = length bs1"
      "length (strip (drop ?n cs)) \<le> length (drop ?n cs)"
      using "2.IH"(3) [OF nb 3 b(3), of "w + Suc ?n"] "2.prems"(2) by auto
    have "minify_loop bs i w = minify_loop bs1 (i + Suc ?n) (w + Suc ?n)"
      using 3 by (subst minify_loop.simps) (auto simp: r b(1))
    moreover have "wrote bs w ((34 # take ?n cs) @ strip (drop ?n cs)) bs2"
      using wrote_append [OF b(2)] c(2) le l by simp
    ultimately show ?thesis
      using c nb 3 l string_len_le [of cs] wrote_length [OF b(2)] le by (simp del: string_len.simps)
  next
    case 4
    have ww: "write_at bs w c = Some (bs[w := c])" "w < length bs" using ahead_write_at "2.prems" by blast+
    have "ahead (bs[w := c]) (Suc i) cs tail" using a "2.prems"(2) by (simp add: ahead_write)
    then obtain bs' where b: "minify_loop (bs[w := c]) (Suc i) (Suc w) = Some (bs', Suc w + length (strip cs))"
      "wrote (bs[w := c]) (Suc w) (strip cs) bs'" "length bs' = length bs" "length (strip cs) \<le> length cs"
      using "2.IH"(4) [OF 4(1-3), of "bs[w := c]" "Suc i" "Suc w"] "2.prems"(2) by auto
    have "minify_loop bs i w = minify_loop (bs[w := c]) (Suc i) (Suc w)"
      using 4 a by (subst minify_loop.simps) (auto simp: r ww gap_def)
    then show ?thesis using b 4 wrote_Cons [OF b(2) ww(2)] by simp
  qed
qed

lemma overlay_drop: "drop (Suc (length s)) (s @ drop (length s) r) = drop (Suc (length s)) r"
  by simp

text \<open>
  The text is replaced by its stripped form and a NUL; the memory behind them is as it was.
\<close>

lemma minify_strip:
  assumes "0 \<notin> set cs"
  shows "cJSON_Minify (Some (cs @ 0 # tail)) =
    Some (Some (strip cs @ 0 # drop (Suc (length (strip cs))) (cs @ 0 # tail)))"
proof -
  let ?bs = "cs @ 0 # tail"
  have "ahead ?bs 0 cs tail" using assms by (simp add: ahead_def)
  then obtain bs' where b: "minify_loop ?bs 0 0 = Some (bs', length (strip cs))" "wrote ?bs 0 (strip cs) bs'"
    "length bs' = length ?bs" "length (strip cs) \<le> length cs"
    using minify_loop_ok [of ?bs 0 cs tail 0] by auto
  let ?n = "length (strip cs)"
  have e: "bs' = strip cs @ drop ?n ?bs" using b(2) by (simp add: wrote_def)
  have "bs'[?n := 0] = take ?n bs' @ 0 # drop (Suc ?n) bs'"
    by (rule upd_conv_take_nth_drop) (use b in simp)
  also have "\<dots> = strip cs @ 0 # drop (Suc ?n) ?bs" unfolding e overlay_drop by simp
  finally show ?thesis using b by (simp add: cJSON_Minify_def write_at_def)
qed

section \<open>Formatted text\<close>

definition strips :: "bytes \<Rightarrow> bytes \<Rightarrow> bool" where
  "strips s s' \<longleftrightarrow> (\<forall>t. strip (s @ t) = s' @ strip t)"

lemma strips_Nil: "strips [] []"
  by (simp add: strips_def)

lemma strips_append: "strips s s' \<Longrightarrow> strips t t' \<Longrightarrow> strips (s @ t) (s' @ t')"
  by (simp add: strips_def)

lemma strips_blank: "gap c \<Longrightarrow> strips [c] []"
  by (simp add: strips_def)

lemma strips_blanks: "list_all gap s \<Longrightarrow> strips s []"
  by (induction s) (auto simp: strips_def)

definition solid :: "u8 \<Rightarrow> bool" where
  "solid c \<longleftrightarrow> \<not> gap c \<and> c \<noteq> 47 \<and> c \<noteq> 34"

lemma strips_solid: "list_all solid s \<Longrightarrow> strips s s"
  by (induction s) (auto simp: strips_def solid_def)

definition no_backslash_end :: "bytes \<Rightarrow> bool" where
  "no_backslash_end s \<longleftrightarrow> s = [] \<or> last s \<noteq> 92"

lemma string_len_plain: "c \<noteq> 34 \<Longrightarrow> c \<noteq> 92 \<Longrightarrow> string_len (c # s) = Suc (string_len s)"
  by simp

lemma string_len_plains: "34 \<notin> set w \<Longrightarrow> 92 \<notin> set w \<Longrightarrow> string_len (w @ s) = length w + string_len s"
  by (induction w) (auto simp: string_len_plain)

lemma string_len_backslash: "hd s \<noteq> 34 \<Longrightarrow> string_len (92 # s) = Suc (string_len s)"
  by simp

lemma string_len_quote: "string_len (92 # 34 # s) = Suc (Suc (string_len s))"
  by simp

lemma escaped_head: "s \<noteq> [] \<Longrightarrow> hd (escaped s @ t) \<noteq> 34"
  by (cases s) auto

lemma one_char_escape_cases:
  "one_char_escape c = Some e \<Longrightarrow> c = 34 \<and> e = 34 \<or> c = 92 \<and> e = 92 \<or> e \<noteq> 34 \<and> e \<noteq> 92"
  by (auto simp: one_char_escape_def split: if_splits)

declare string_len.simps [simp del]

lemma string_len_escaped:
  "no_backslash_end s \<Longrightarrow> string_len (escaped s @ 34 # t) = Suc (length (escaped s))"
proof (induction s)
  case Nil
  show ?case by (simp add: string_len.simps)
next
  case (Cons c s)
  have ih: "string_len (escaped s @ 34 # t) = Suc (length (escaped s))"
    using Cons by (cases s) (auto simp: no_backslash_end_def string_len.simps)
  show ?case
  proof (cases "31 < c \<and> c \<noteq> 34 \<and> c \<noteq> 92")
    case True
    then show ?thesis using ih by (simp add: string_len_plain)
  next
    case False
    show ?thesis
    proof (cases "one_char_escape c")
      case None
      then show ?thesis
        using False ih
        by (simp add: string_len_plain string_len_backslash string_len_plains [OF printf_04x_value(3,4)])
    next
      case (Some e)
      consider "e = 34" | "c = 92" "e = 92" | "e \<noteq> 34" "e \<noteq> 92" using one_char_escape_cases [OF Some] by blast
      then show ?thesis
      proof cases
        case 1
        then show ?thesis using Some False ih by (auto simp: string_len_quote)
      next
        case 2
        then have "s \<noteq> []" using Cons.prems by (auto simp: no_backslash_end_def)
        then show ?thesis using 2 Some ih escaped_head [of s "34 # t"] by (simp add: string_len_backslash)
      next
        case 3
        then show ?thesis using Some False ih by (simp add: string_len_plain string_len_backslash)
      qed
    qed
  qed
qed

lemma strips_quoted: "no_backslash_end s \<Longrightarrow> strips (34 # escaped s @ [34]) (34 # escaped s @ [34])"
  by (simp add: strips_def string_len_escaped gap_def)

text \<open>Items all of whose strings survive.\<close>

definition minifiable_string :: "bytes option \<Rightarrow> bool" where
  "minifiable_string s \<longleftrightarrow> (case s of None \<Rightarrow> True | Some t \<Rightarrow> no_backslash_end t)"

fun minifiable :: "'d cJSON \<Rightarrow> bool" where
  "minifiable (CJSON x items) \<longleftrightarrow>
    (jtype x = cJSON_String \<longrightarrow> minifiable_string (valuestring x)) \<and>
    list_all (\<lambda>y. (jtype x = cJSON_Object \<longrightarrow> minifiable_string (jstring (node y))) \<and> minifiable y) items"

lemma strips_quoted_text: "minifiable_string s \<Longrightarrow> strips (quoted s) (quoted s)"
proof (cases s)
  case None
  then show ?thesis by (simp add: quoted_def strips_def string_len.simps gap_def)
next
  case (Some t)
  then have "no_backslash_end t" if "minifiable_string s" using that by (simp add: minifiable_string_def)
  then show "minifiable_string s \<Longrightarrow> strips (quoted s) (quoted s)"
    using strips_quoted Some by (simp add: quoted_def)
qed

lemma strips_number:
  assumes "reads_back F d"
  shows "strips (number_text F d) (number_text F d)"
proof (rule strips_solid)
  have "solid c" if "number_char c" for c using that by (auto simp: number_char_def solid_def gap_def)
  then show "list_all solid (number_text F d)"
    using assms by (auto simp: reads_back_def Let_def list_all_iff)
qed

lemma strips_indent: "strips (if fmt then [9] else []) []" "strips (if fmt then [10] else []) []"
  "strips (if fmt then [32] else []) []"
  by (rule strips_blanks, simp add: gap_def)+

lemma strips_tabs: "strips (if fmt then replicate d 9 else []) []"
  by (rule strips_blanks) (simp add: gap_def list_all_iff)

lemma strips_symbols: "strips [44] [44]" "strips [58] [58]" "strips [91] [91]" "strips [93] [93]" "strips [123] [123]"
  "strips [125] [125]" "strips [110, 117, 108, 108] [110, 117, 108, 108]" "strips [116, 114, 117, 101] [116, 114, 117, 101]"
  "strips [102, 97, 108, 115, 101] [102, 97, 108, 115, 101]"
  by (rule strips_solid, simp add: solid_def gap_def)+

lemma strips_render:
  "plain F x \<Longrightarrow> minifiable x \<Longrightarrow> strips (render_value F fmt d x) (render_value F False e x)"
  "list_all (plain F) xs \<Longrightarrow> list_all minifiable xs \<Longrightarrow>
    strips (render_elements F fmt d xs) (render_elements F False e xs)"
  "list_all (plain F) xs \<Longrightarrow> list_all (\<lambda>y. minifiable_string (jstring (node y)) \<and> minifiable y) xs \<Longrightarrow>
    strips (render_members F fmt d xs) (render_members F False e xs)"
proof (induction F fmt d x and F fmt d xs and F fmt d xs arbitrary: e and e and e
    rule: render_value_render_elements_render_members.induct)
  case (1 F fmt d x items)
  have x: "plain F (CJSON x items)" "minifiable (CJSON x items)" by fact+
  consider (leaf) "jtype x = cJSON_NULL \<or> jtype x = cJSON_False \<or> jtype x = cJSON_True"
    | (number) "jtype x = cJSON_Number" | (str) "jtype x = cJSON_String" | (arr) "jtype x = cJSON_Array"
    | (obj) "jtype x = cJSON_Object"
    using x(1) by (auto split: if_splits)
  then show ?case
  proof cases
    case leaf
    then show ?thesis by (auto simp: cjson_types strips_symbols)
  next
    case number
    with x(1) have "reads_back F (valuedouble x)" by (auto simp: cjson_types)
    with number show ?thesis by (simp add: cjson_types strips_number)
  next
    case str
    with x(2) show ?thesis by (simp add: cjson_types strips_quoted_text)
  next
    case arr
    then have "list_all (plain F) items" "list_all minifiable items"
      using x by (auto simp: cjson_types list_all_iff)
    then have "strips ([91] @ render_elements F fmt (Suc d) items @ [93]) ([91] @ render_elements F False (Suc e) items @ [93])"
      using arr "1.IH"(1) by (intro strips_append strips_symbols) (simp_all add: cjson_types)
    with arr show ?thesis by (simp add: cjson_types)
  next
    case obj
    then have "list_all (plain F) items" "list_all (\<lambda>y. minifiable_string (jstring (node y)) \<and> minifiable y) items"
      using x by (auto simp: cjson_types list_all_iff)
    then have "strips (([123] @ (if fmt then [10] else [])) @ render_members F fmt (Suc d) items @ (if fmt then replicate d 9 else []) @ [125])
      (([123] @ []) @ render_members F False (Suc e) items @ [] @ [125])"
      using obj "1.IH"(2) by (intro strips_append strips_symbols strips_indent strips_tabs)
        (simp_all add: cjson_types)
    with obj show ?thesis by (simp add: cjson_types)
  qed
next
  case (3 F fmt d x xs)
  then have ih: "strips (render_value F fmt d x) (render_value F False e x)"
    "strips (render_elements F fmt d xs) (render_elements F False e xs)" by simp_all
  have "strips (render_value F fmt d x @ ([44] @ (if fmt then [32] else [])) @ render_elements F fmt d xs)
    (render_value F False e x @ ([44] @ []) @ render_elements F False e xs)"
    by (intro strips_append strips_symbols strips_indent ih)
  moreover have "strips (render_value F fmt d x @ render_elements F fmt d xs)
    (render_value F False e x @ render_elements F False e xs)"
    by (intro strips_append ih)
  ultimately show ?case using ih by simp
next
  case (5 F fmt d x xs)
  then have ih: "strips (quoted (jstring (node x))) (quoted (jstring (node x)))"
    "strips (render_value F fmt d x) (render_value F False e x)"
    "strips (render_members F fmt d xs) (render_members F False e xs)" by (simp_all add: strips_quoted_text)
  have "strips ((if fmt then replicate d 9 else []) @ quoted (jstring (node x)) @ ([58] @ (if fmt then [9] else [])) @ render_value F fmt d x @ ([44] @ (if fmt then [10] else [])) @
      render_members F fmt d xs)
    ([] @ quoted (jstring (node x)) @ ([58] @ []) @ render_value F False e x @ ([44] @ []) @ render_members F False e xs)"
    by (intro strips_append strips_symbols strips_indent strips_tabs ih)
  moreover have "strips ((if fmt then replicate d 9 else []) @ quoted (jstring (node x)) @ ([58] @ (if fmt then [9] else [])) @ render_value F fmt d x @ (if fmt then [10] else []) @
      render_members F fmt d xs)
    ([] @ quoted (jstring (node x)) @ ([58] @ []) @ render_value F False e x @ [] @ render_members F False e xs)"
    by (intro strips_append strips_symbols strips_indent strips_tabs ih)
  ultimately show ?case by (cases fmt; cases "xs = []") simp_all
qed (simp_all add: strips_Nil)

lemma c_string_text: "0 \<notin> set u \<Longrightarrow> c_string (u @ 0 # r) = u"
  unfolding c_string_def by (subst takeWhile_append2) auto

lemma minify_render:
  assumes "plain F x" "minifiable x"
  shows "\<exists>t. cJSON_Minify (Some (render_value F True 0 x @ [0])) = Some (Some t) \<and>
    c_string t = render_value F False 0 x"
proof -
  let ?t = "render_value F True 0 x" and ?u = "render_value F False 0 x"
  have n: "0 \<notin> set ?t" "0 \<notin> set ?u" using render_nul_free(1) [OF plain_printable [OF assms(1)]] by auto
  have "strip (?t @ []) = ?u @ strip []" using strips_render(1) [OF assms] unfolding strips_def by blast
  then have "strip ?t = ?u" by simp
  then show ?thesis using minify_strip [OF n(1), of "[]"] c_string_text [OF n(2)] by simp
qed

text \<open>
  A backslash at the end of a string is printed as two; with the second one, \<open>minify_string\<close> takes the
  closing quote for an escaped one.
\<close>

lemma minify_backslash_end:
  "cJSON_Minify (Some [91, 34, 92, 92, 34, 44, 34, 32, 34, 93, 0]) = Some (Some [91, 34, 92, 92, 34, 44, 34, 34, 93, 0, 0])"
  by code_simp

end
