(* ===== verification/Cjson_Tree.thy ===== *)
theory Cjson_Tree
  imports Cjson_Base
begin

text \<open>
  Whole items: the lookup of members, comparison, duplication, the predicates on the type of an item,
  and its constructors.  The items of different structures are different in memory, so that no two
  items compared are the same unless the call itself says so.
\<close>

section \<open>Names\<close>

definition to_lower :: "u8 \<Rightarrow> u8" where
  "to_lower c = (if 65 \<le> c \<and> c \<le> 90 then c + 32 else c)"

text \<open>The byte at a place of a string, its NUL included.\<close>

definition first_char :: "bytes \<Rightarrow> u8" where
  "first_char s = (case s of [] \<Rightarrow> 0 | c # _ \<Rightarrow> c)"

function insensitive_loop :: "bytes \<Rightarrow> bytes \<Rightarrow> int" where
  "insensitive_loop s t =
    (if to_lower (first_char s) = to_lower (first_char t) then
       if first_char s = 0 then 0 else insensitive_loop (tl s) (tl t)
     else uint (to_lower (first_char s)) - uint (to_lower (first_char t)))"
  by pat_completeness auto
termination by (relation "measure (\<lambda>(s, t). length s)") (auto simp: first_char_def split: list.splits)

declare insensitive_loop.simps [simp del]

text \<open>The shortcut for equal pointers returns what the loop would.\<close>

definition case_insensitive_strcmp :: "bytes option \<Rightarrow> bytes option \<Rightarrow> int" where
  "case_insensitive_strcmp s t =
    (case (s, t) of (Some s, Some t) \<Rightarrow> insensitive_loop s t | _ \<Rightarrow> 1)"

text \<open>
  The loops over the members.  The one that respects case stops at a member without a name; the other
  one goes on.
\<close>

fun sensitive_loop :: "bytes \<Rightarrow> 'd cJSON list \<Rightarrow> 'd cJSON option" where
  "sensitive_loop name [] = None"
| "sensitive_loop name (x # xs) =
    (case jstring (node x) of
       None \<Rightarrow> Some x
     | Some k \<Rightarrow> if name \<noteq> k then sensitive_loop name xs else Some x)"

fun insensitive_search :: "bytes \<Rightarrow> 'd cJSON list \<Rightarrow> 'd cJSON option" where
  "insensitive_search name [] = None"
| "insensitive_search name (x # xs) =
    (if case_insensitive_strcmp (Some name) (jstring (node x)) \<noteq> 0 then insensitive_search name xs else Some x)"

definition get_object_item :: "'d cJSON list \<Rightarrow> bytes option \<Rightarrow> bool \<Rightarrow> 'd cJSON option" where
  "get_object_item members name case_sensitive =
    (case name of
       None \<Rightarrow> None
     | Some name \<Rightarrow>
         (case if case_sensitive then sensitive_loop name members else insensitive_search name members of
            None \<Rightarrow> None
          | Some x \<Rightarrow> if jstring (node x) = None then None else Some x))"

lemma sensitive_loop_in: "sensitive_loop name xs = Some y \<Longrightarrow> y \<in> set xs"
  by (induction xs) (auto split: option.splits if_splits)

lemma insensitive_search_in: "insensitive_search name xs = Some y \<Longrightarrow> y \<in> set xs"
  by (induction xs) (auto split: if_splits)

lemma get_object_item_in: "get_object_item xs name cs = Some y \<Longrightarrow> y \<in> set xs"
  by (auto simp: get_object_item_def dest: sensitive_loop_in insensitive_search_in split: option.splits if_splits)

section \<open>Types\<close>

definition type_of :: "'d cJSON \<Rightarrow> u32" where
  "type_of x = jtype (node x) AND 255"

definition cJSON_IsInvalid :: "'d cJSON option \<Rightarrow> bool" where
  "cJSON_IsInvalid item \<longleftrightarrow> (case item of None \<Rightarrow> False | Some x \<Rightarrow> type_of x = cJSON_Invalid)"

definition cJSON_IsFalse :: "'d cJSON option \<Rightarrow> bool" where
  "cJSON_IsFalse item \<longleftrightarrow> (case item of None \<Rightarrow> False | Some x \<Rightarrow> type_of x = cJSON_False)"

definition cJSON_IsTrue :: "'d cJSON option \<Rightarrow> bool" where
  "cJSON_IsTrue item \<longleftrightarrow> (case item of None \<Rightarrow> False | Some x \<Rightarrow> type_of x = cJSON_True)"

definition cJSON_IsBool :: "'d cJSON option \<Rightarrow> bool" where
  "cJSON_IsBool item \<longleftrightarrow>
    (case item of None \<Rightarrow> False | Some x \<Rightarrow> jtype (node x) AND (cJSON_True OR cJSON_False) \<noteq> 0)"

definition cJSON_IsNull :: "'d cJSON option \<Rightarrow> bool" where
  "cJSON_IsNull item \<longleftrightarrow> (case item of None \<Rightarrow> False | Some x \<Rightarrow> type_of x = cJSON_NULL)"

definition cJSON_IsNumber :: "'d cJSON option \<Rightarrow> bool" where
  "cJSON_IsNumber item \<longleftrightarrow> (case item of None \<Rightarrow> False | Some x \<Rightarrow> type_of x = cJSON_Number)"

definition cJSON_IsString :: "'d cJSON option \<Rightarrow> bool" where
  "cJSON_IsString item \<longleftrightarrow> (case item of None \<Rightarrow> False | Some x \<Rightarrow> type_of x = cJSON_String)"

definition cJSON_IsArray :: "'d cJSON option \<Rightarrow> bool" where
  "cJSON_IsArray item \<longleftrightarrow> (case item of None \<Rightarrow> False | Some x \<Rightarrow> type_of x = cJSON_Array)"

definition cJSON_IsObject :: "'d cJSON option \<Rightarrow> bool" where
  "cJSON_IsObject item \<longleftrightarrow> (case item of None \<Rightarrow> False | Some x \<Rightarrow> type_of x = cJSON_Object)"

definition cJSON_IsRaw :: "'d cJSON option \<Rightarrow> bool" where
  "cJSON_IsRaw item \<longleftrightarrow> (case item of None \<Rightarrow> False | Some x \<Rightarrow> type_of x = cJSON_Raw)"

definition cJSON_GetStringValue :: "'d cJSON option \<Rightarrow> bytes option" where
  "cJSON_GetStringValue item =
    (case item of None \<Rightarrow> None | Some x \<Rightarrow> if \<not> cJSON_IsString (Some x) then None else valuestring (node x))"

definition cJSON_SetNumberHelper :: "'d fp \<Rightarrow> 'd node \<Rightarrow> 'd \<Rightarrow> 'd node" where
  "cJSON_SetNumberHelper F x number = x\<lparr>valueint := saturate F number, valuedouble := number\<rparr>"

section \<open>Comparison\<close>

definition valid_type :: "u32 \<Rightarrow> bool" where
  "valid_type t \<longleftrightarrow> t = cJSON_False \<or> t = cJSON_True \<or> t = cJSON_NULL \<or> t = cJSON_Number \<or> t = cJSON_String \<or>
    t = cJSON_Raw \<or> t = cJSON_Array \<or> t = cJSON_Object"

lemma size_found: "get_object_item ys name cs = Some y \<Longrightarrow> size y \<le> size_list size ys"
  by (rule size_list_estimation' [OF get_object_item_in]) auto

text \<open>
  \<open>compare\<close> is the function on two items that are not the same; \<open>covers\<close> is the loop over the members of
  one object, which looks each of them up in the other one.
\<close>

function compare :: "'d fp \<Rightarrow> bool \<Rightarrow> 'd cJSON \<Rightarrow> 'd cJSON \<Rightarrow> bool"
  and compare_elements :: "'d fp \<Rightarrow> bool \<Rightarrow> 'd cJSON list \<Rightarrow> 'd cJSON list \<Rightarrow> bool"
  and covers :: "'d fp \<Rightarrow> bool \<Rightarrow> 'd cJSON list \<Rightarrow> 'd cJSON list \<Rightarrow> bool"
where
  "compare F cs (CJSON a xs) (CJSON b ys) =
    (let t = jtype a AND 255 in
     if t \<noteq> jtype b AND 255 \<or> t = cJSON_Invalid then False
     else if \<not> valid_type t then False
     else if t = cJSON_False \<or> t = cJSON_True \<or> t = cJSON_NULL then True
     else if t = cJSON_Number then f_eq F (valuedouble a) (valuedouble b)
     else if t = cJSON_String \<or> t = cJSON_Raw then
       (case (valuestring a, valuestring b) of (Some s, Some s') \<Rightarrow> s = s' | _ \<Rightarrow> False)
     else if t = cJSON_Array then compare_elements F cs xs ys
     else covers F cs xs ys \<and> covers F cs ys xs)"
| "compare_elements F cs [] ys \<longleftrightarrow> ys = []"
| "compare_elements F cs (x # xs) [] \<longleftrightarrow> False"
| "compare_elements F cs (x # xs) (y # ys) \<longleftrightarrow> compare F cs x y \<and> compare_elements F cs xs ys"
| "covers F cs [] ys \<longleftrightarrow> True"
| "covers F cs (x # xs) ys \<longleftrightarrow>
    (case get_object_item ys (jstring (node x)) cs of
       None \<Rightarrow> False
     | Some y \<Rightarrow> compare F cs x y \<and> covers F cs xs ys)"
  by pat_completeness auto
termination
  by (relation "measure (\<lambda>a. case a of Inl (F, cs, x, y) \<Rightarrow> size x + size y | Inr b \<Rightarrow>
      (case b of Inl (F, cs, xs, ys) \<Rightarrow> size_list size xs + size_list size ys
       | Inr (F, cs, xs, ys) \<Rightarrow> size_list size xs + size_list size ys))")
    (auto dest!: size_found)


declare compare.simps [simp del]

text \<open>\<open>same\<close>: the two pointers are equal.\<close>

definition cJSON_Compare :: "'d fp \<Rightarrow> bool \<Rightarrow> 'd cJSON option \<Rightarrow> 'd cJSON option \<Rightarrow> bool \<Rightarrow> bool" where
  "cJSON_Compare F same a b case_sensitive =
    (case (a, b) of
       (Some x, Some y) \<Rightarrow>
         if same then valid_type (type_of x) else compare F case_sensitive x y
     | _ \<Rightarrow> False)"

section \<open>Duplication\<close>

text \<open>\<open>None\<close> is the null pointer.\<close>

definition cJSON_strdup :: "internal_hooks \<Rightarrow> bytes option \<Rightarrow> bytes option" where
  "cJSON_strdup h string =
    (case string of
       None \<Rightarrow> None
     | Some s \<Rightarrow> if allocate h (length s + 1) then Some s else None)"

datatype 'a made = Made 'a | NoItem | MadeCrash

fun made_then :: "'a made \<Rightarrow> ('a \<Rightarrow> 'b made) \<Rightarrow> 'b made" where
  "made_then (Made x) f = f x"
| "made_then NoItem f = NoItem"
| "made_then MadeCrash f = MadeCrash"

definition new_item :: "'d fp \<Rightarrow> internal_hooks \<Rightarrow> nat \<Rightarrow> 'd node made" where
  "new_item F h l = (case cJSON_New_Item F h l of None \<Rightarrow> MadeCrash | Some x \<Rightarrow> Made x)"

text \<open>The struct without its children; a constant name is shared, any other string is copied.\<close>

definition duplicate_node :: "'d fp \<Rightarrow> internal_hooks \<Rightarrow> 'd node \<Rightarrow> 'd node made" where
  "duplicate_node F h item =
    made_then (new_item F h (lineno item)) (\<lambda>newitem.
      let newitem = newitem\<lparr>jtype := jtype item AND NOT cJSON_IsReference, valueint := valueint item,
            valuedouble := valuedouble item\<rparr>;
          vs = cJSON_strdup h (valuestring item)
      in if valuestring item \<noteq> None \<and> vs = None then NoItem
         else
           let newitem = newitem\<lparr>valuestring := vs\<rparr>;
               key = (if jtype item AND cJSON_StringIsConst \<noteq> 0 then jstring item else cJSON_strdup h (jstring item))
           in if jstring item \<noteq> None \<and> key = None then NoItem
              else Made (newitem\<lparr>jstring := key\<rparr>))"

fun duplicate :: "'d fp \<Rightarrow> internal_hooks \<Rightarrow> bool \<Rightarrow> 'd cJSON \<Rightarrow> 'd cJSON made"
  and duplicate_children :: "'d fp \<Rightarrow> internal_hooks \<Rightarrow> 'd cJSON list \<Rightarrow> 'd cJSON list made"
where
  "duplicate F h recurse (CJSON item items) =
    made_then (duplicate_node F h item) (\<lambda>newitem.
      if \<not> recurse then Made (CJSON newitem [])
      else made_then (duplicate_children F h items) (\<lambda>newitems. Made (CJSON newitem newitems)))"
| "duplicate_children F h [] = Made []"
| "duplicate_children F h (x # xs) =
    made_then (duplicate F h True x) (\<lambda>y. made_then (duplicate_children F h xs) (\<lambda>ys. Made (y # ys)))"

definition cJSON_Duplicate :: "'d fp \<Rightarrow> internal_hooks \<Rightarrow> 'd cJSON option \<Rightarrow> bool \<Rightarrow> 'd cJSON made" where
  "cJSON_Duplicate F h item recurse =
    (case item of None \<Rightarrow> NoItem | Some x \<Rightarrow> duplicate F h recurse x)"

section \<open>Constructors\<close>

text \<open>The structs of new items, which have no children.\<close>

definition new_of_type :: "'d fp \<Rightarrow> internal_hooks \<Rightarrow> u32 \<Rightarrow> 'd node made" where
  "new_of_type F h t = made_then (new_item F h CJSON_LINENO_INVALID) (\<lambda>item. Made (item\<lparr>jtype := t\<rparr>))"

definition cJSON_CreateNull :: "'d fp \<Rightarrow> internal_hooks \<Rightarrow> 'd node made" where
  "cJSON_CreateNull F h = new_of_type F h cJSON_NULL"

definition cJSON_CreateTrue :: "'d fp \<Rightarrow> internal_hooks \<Rightarrow> 'd node made" where
  "cJSON_CreateTrue F h = new_of_type F h cJSON_True"

definition cJSON_CreateFalse :: "'d fp \<Rightarrow> internal_hooks \<Rightarrow> 'd node made" where
  "cJSON_CreateFalse F h = new_of_type F h cJSON_False"

definition cJSON_CreateBool :: "'d fp \<Rightarrow> internal_hooks \<Rightarrow> bool \<Rightarrow> 'd node made" where
  "cJSON_CreateBool F h b = new_of_type F h (if b then cJSON_True else cJSON_False)"

definition cJSON_CreateNumber :: "'d fp \<Rightarrow> internal_hooks \<Rightarrow> 'd \<Rightarrow> 'd node made" where
  "cJSON_CreateNumber F h num =
    made_then (new_of_type F h cJSON_Number) (\<lambda>item.
      Made (item\<lparr>valuedouble := num, valueint := saturate F num\<rparr>))"

text \<open>The new item is deleted again when its string cannot be copied.\<close>

definition with_string :: "internal_hooks \<Rightarrow> bytes option \<Rightarrow> 'd node \<Rightarrow> 'd node made" where
  "with_string h string item =
    (case cJSON_strdup h string of None \<Rightarrow> NoItem | Some s \<Rightarrow> Made (item\<lparr>valuestring := Some s\<rparr>))"

definition cJSON_CreateString :: "'d fp \<Rightarrow> internal_hooks \<Rightarrow> bytes option \<Rightarrow> 'd node made" where
  "cJSON_CreateString F h string = made_then (new_of_type F h cJSON_String) (with_string h string)"

definition cJSON_CreateRaw :: "'d fp \<Rightarrow> internal_hooks \<Rightarrow> bytes option \<Rightarrow> 'd node made" where
  "cJSON_CreateRaw F h raw = made_then (new_of_type F h cJSON_Raw) (with_string h raw)"

definition cJSON_CreateStringReference :: "'d fp \<Rightarrow> internal_hooks \<Rightarrow> bytes option \<Rightarrow> 'd node made" where
  "cJSON_CreateStringReference F h string =
    made_then (new_of_type F h (cJSON_String OR cJSON_IsReference)) (\<lambda>item. Made (item\<lparr>valuestring := string\<rparr>))"

definition cJSON_CreateArray :: "'d fp \<Rightarrow> internal_hooks \<Rightarrow> 'd node made" where
  "cJSON_CreateArray F h = new_of_type F h cJSON_Array"

definition cJSON_CreateObject :: "'d fp \<Rightarrow> internal_hooks \<Rightarrow> 'd node made" where
  "cJSON_CreateObject F h = new_of_type F h cJSON_Object"

text \<open>
  Arrays from C arrays: \<open>k\<close> elements are taken from an array; the conversion of an element to \<open>double\<close>
  is a parameter.
\<close>

fun created :: "('e \<Rightarrow> 'd node made) \<Rightarrow> nat \<Rightarrow> 'e list \<Rightarrow> 'd cJSON list made" where
  "created create k [] = (if k = 0 then Made [] else MadeCrash)"
| "created create k (e # es) =
    (if k = 0 then Made []
     else made_then (create e) (\<lambda>n. made_then (created create (k - 1) es) (\<lambda>ns. Made (CJSON n [] # ns))))"

definition array_of ::
  "'d fp \<Rightarrow> internal_hooks \<Rightarrow> ('e \<Rightarrow> 'd node made) \<Rightarrow> 'e list option \<Rightarrow> int \<Rightarrow> 'd cJSON made" where
  "array_of F h create elements count =
    (case elements of
       None \<Rightarrow> NoItem
     | Some es \<Rightarrow>
         if count < 0 then NoItem
         else made_then (cJSON_CreateArray F h) (\<lambda>a.
           made_then (created create (nat count) es) (\<lambda>ns. Made (CJSON a ns))))"

definition cJSON_CreateIntArray ::
  "'d fp \<Rightarrow> internal_hooks \<Rightarrow> (i32 \<Rightarrow> 'd) \<Rightarrow> i32 list option \<Rightarrow> int \<Rightarrow> 'd cJSON made" where
  "cJSON_CreateIntArray F h of_i32 numbers count = array_of F h (\<lambda>n. cJSON_CreateNumber F h (of_i32 n)) numbers count"

definition cJSON_CreateFloatArray ::
  "'d fp \<Rightarrow> internal_hooks \<Rightarrow> ('f \<Rightarrow> 'd) \<Rightarrow> 'f list option \<Rightarrow> int \<Rightarrow> 'd cJSON made" where
  "cJSON_CreateFloatArray F h of_float numbers count = array_of F h (\<lambda>n. cJSON_CreateNumber F h (of_float n)) numbers count"

definition cJSON_CreateDoubleArray ::
  "'d fp \<Rightarrow> internal_hooks \<Rightarrow> 'd list option \<Rightarrow> int \<Rightarrow> 'd cJSON made" where
  "cJSON_CreateDoubleArray F h numbers count = array_of F h (cJSON_CreateNumber F h) numbers count"

definition cJSON_CreateStringArray ::
  "'d fp \<Rightarrow> internal_hooks \<Rightarrow> bytes option list option \<Rightarrow> int \<Rightarrow> 'd cJSON made" where
  "cJSON_CreateStringArray F h strings count = array_of F h (cJSON_CreateString F h) strings count"

end
