(* ===== verification/Cjson_Equal.thy ===== *)
theory Cjson_Equal
  imports Cjson_Tree "HOL-Library.Multiset"
begin

text \<open>
  Comparison decides equality of the values that items denote: arrays element by element, objects up
  to the order of their members.  A duplicate is a copy, and equal to its original.
\<close>

section \<open>Equality of values\<close>

definition same_name :: "'d cJSON \<Rightarrow> 'd cJSON \<Rightarrow> bool" where
  "same_name x y \<longleftrightarrow> jstring (node x) = jstring (node y)"

inductive json_eq :: "'d fp \<Rightarrow> 'd cJSON \<Rightarrow> 'd cJSON \<Rightarrow> bool" for F where
  literal: "type_of x = type_of y \<Longrightarrow> type_of x = cJSON_False \<or> type_of x = cJSON_True \<or> type_of x = cJSON_NULL \<Longrightarrow>
    json_eq F x y"
| number: "type_of x = cJSON_Number \<Longrightarrow> type_of y = cJSON_Number \<Longrightarrow> f_eq F (valuedouble (node x)) (valuedouble (node y)) \<Longrightarrow>
    json_eq F x y"
| string: "type_of x = type_of y \<Longrightarrow> type_of x = cJSON_String \<or> type_of x = cJSON_Raw \<Longrightarrow>
    valuestring (node x) = Some s \<Longrightarrow> valuestring (node y) = Some s \<Longrightarrow> json_eq F x y"
| array: "type_of x = cJSON_Array \<Longrightarrow> type_of y = cJSON_Array \<Longrightarrow> list_all2 (json_eq F) (child x) (child y) \<Longrightarrow>
    json_eq F x y"
| object: "type_of x = cJSON_Object \<Longrightarrow> type_of y = cJSON_Object \<Longrightarrow> mset zs = mset (child y) \<Longrightarrow>
    list_all2 (\<lambda>x y. same_name x y \<and> json_eq F x y) (child x) zs \<Longrightarrow> json_eq F x y"

lemma json_eq_types: "json_eq F x y \<Longrightarrow> type_of x = type_of y"
  by (induction rule: json_eq.induct) auto

text \<open>Objects whose members have names, no two the same.\<close>

definition names_ok :: "'d cJSON list \<Rightarrow> bool" where
  "names_ok xs \<longleftrightarrow> (\<forall>x\<in>set xs. jstring (node x) \<noteq> None) \<and> distinct (map (jstring \<circ> node) xs)"

fun keys_ok :: "'d cJSON \<Rightarrow> bool" where
  "keys_ok (CJSON x items) \<longleftrightarrow> (jtype x AND 255 = cJSON_Object \<longrightarrow> names_ok items) \<and> list_all keys_ok items"

lemma names_ok_Cons:
  "names_ok (x # xs) \<longleftrightarrow> jstring (node x) \<noteq> None \<and> (\<forall>y\<in>set xs. jstring (node y) \<noteq> jstring (node x)) \<and> names_ok xs"
  unfolding names_ok_def by (auto simp del: not_None_eq simp: image_iff)

lemma sensitive_finds:
  "names_ok xs \<Longrightarrow> x \<in> set xs \<Longrightarrow> jstring (node x) = Some k \<Longrightarrow> sensitive_loop k xs = Some x"
proof (induction xs)
  case (Cons y ys)
  show ?case
  proof (cases "x = y")
    case True
    with Cons.prems show ?thesis by simp
  next
    case False
    with Cons.prems have x: "x \<in> set ys" "names_ok ys" and "jstring (node y) \<noteq> None" "jstring (node y) \<noteq> Some k"
      by (auto simp: names_ok_Cons)
    then obtain k' where "jstring (node y) = Some k'" "k \<noteq> k'" by auto
    with Cons.IH [OF x(2,1) Cons.prems(3)] show ?thesis by simp
  qed
qed simp

lemma sensitive_found:
  "\<forall>x\<in>set xs. jstring (node x) \<noteq> None \<Longrightarrow> sensitive_loop k xs = Some x \<Longrightarrow> x \<in> set xs \<and> jstring (node x) = Some k"
  by (induction xs) (auto split: option.splits if_splits)

lemma get_object_item_names:
  assumes "names_ok ys"
  shows "get_object_item ys (Some k) True = Some y \<longleftrightarrow> y \<in> set ys \<and> jstring (node y) = Some k"
proof
  assume "get_object_item ys (Some k) True = Some y"
  then have "sensitive_loop k ys = Some y" by (simp add: get_object_item_def split: option.splits if_splits)
  then show "y \<in> set ys \<and> jstring (node y) = Some k"
    using assms by (intro sensitive_found) (simp add: names_ok_def)
next
  assume "y \<in> set ys \<and> jstring (node y) = Some k"
  then show "get_object_item ys (Some k) True = Some y"
    using sensitive_finds [OF assms, of y k] by (simp add: get_object_item_def)
qed

text \<open>Each member has a counterpart.\<close>

definition matched :: "('d cJSON \<Rightarrow> 'd cJSON \<Rightarrow> bool) \<Rightarrow> 'd cJSON list \<Rightarrow> 'd cJSON list \<Rightarrow> bool" where
  "matched r xs ys \<longleftrightarrow> (\<forall>x\<in>set xs. \<exists>y\<in>set ys. same_name x y \<and> r x y)"

lemma matched_perm:
  assumes "names_ok xs" "names_ok ys" "matched r xs ys" "matched q ys xs"
  shows "\<exists>zs. mset zs = mset ys \<and> list_all2 (\<lambda>x y. same_name x y \<and> r x y) xs zs"
proof -
  obtain f where f: "\<And>x. x \<in> set xs \<Longrightarrow> f x \<in> set ys \<and> same_name x (f x) \<and> r x (f x)"
    using assms(3) unfolding matched_def by metis
  have n: "map (jstring \<circ> node) (map f xs) = map (jstring \<circ> node) xs"
    using f by (auto simp: same_name_def)
  then have "distinct (map f xs)" using assms(1) unfolding names_ok_def by (metis distinct_map)
  moreover have "set (map f xs) = set ys"
  proof
    show "set (map f xs) \<subseteq> set ys" using f by auto
  next
    show "set ys \<subseteq> set (map f xs)"
    proof
      fix y assume y: "y \<in> set ys"
      then obtain x where x: "x \<in> set xs" "same_name y x" using assms(4) by (auto simp: matched_def)
      then have "(jstring \<circ> node) (f x) = (jstring \<circ> node) y" using f by (simp add: same_name_def)
      then have "f x = y"
        using assms(2) f [OF x(1)] y unfolding names_ok_def distinct_map by (meson inj_onD)
      with x show "y \<in> set (map f xs)" by auto
    qed
  qed
  moreover have "distinct ys" using assms(2) by (auto simp: names_ok_def distinct_map)
  ultimately have "mset (map f xs) = mset ys" by (metis set_eq_iff_mset_eq_distinct)
  moreover have "list_all2 (\<lambda>x y. same_name x y \<and> r x y) xs (map f xs)"
    using f by (auto simp: list_all2_map2 intro: list_all2_same [THEN iffD2])
  ultimately show ?thesis by blast
qed

section \<open>Comparison\<close>

lemma keys_okD: "keys_ok x \<Longrightarrow> list_all keys_ok (child x) \<and> (type_of x = cJSON_Object \<longrightarrow> names_ok (child x))"
  by (cases x) (simp add: type_of_def)

text \<open>The comparison of two doubles with \<open>==\<close> does not depend on their order.\<close>

definition eq_symmetric :: "'d fp \<Rightarrow> bool" where
  "eq_symmetric F \<longleftrightarrow> (\<forall>a b. f_eq F a b = f_eq F b a)"

lemma json_eq_sym:
  assumes "eq_symmetric F"
  shows "json_eq F x y \<Longrightarrow> json_eq F y x"
proof (induction rule: json_eq.induct)
  case (array x y)
  then have "list_all2 (json_eq F) (child y) (child x)" by (auto simp: list_all2_conv_all_nth)
  with array show ?case by (auto intro: json_eq.array)
next
  case (object x y zs)
  have l: "list_all2 (\<lambda>y x. same_name y x \<and> json_eq F y x) zs (child x)"
    using object(4) by (auto simp: list_all2_conv_all_nth same_name_def)
  obtain ws where "list_all2 (\<lambda>y x. same_name y x \<and> json_eq F y x) (child y) ws" "mset ws = mset (child x)"
    using list_all2_reorder_left_invariance [OF l] object(3) by metis
  with object(1,2) show ?case by (auto intro: json_eq.object)
qed (use assms in \<open>auto simp: eq_symmetric_def intro: json_eq.intros\<close>)

lemma json_eq_cases:
  assumes "type_of x = t" "type_of y = t"
  shows "t = cJSON_Number \<Longrightarrow> json_eq F x y \<longleftrightarrow> f_eq F (valuedouble (node x)) (valuedouble (node y))"
    and "t = cJSON_String \<or> t = cJSON_Raw \<Longrightarrow>
      json_eq F x y \<longleftrightarrow> (\<exists>s. valuestring (node x) = Some s \<and> valuestring (node y) = Some s)"
    and "t = cJSON_Array \<Longrightarrow> json_eq F x y \<longleftrightarrow> list_all2 (json_eq F) (child x) (child y)"
    and "t = cJSON_Object \<Longrightarrow> json_eq F x y \<longleftrightarrow> (\<exists>zs. mset zs = mset (child y) \<and>
      list_all2 (\<lambda>x y. same_name x y \<and> json_eq F x y) (child x) zs)"
    and "json_eq F x y \<Longrightarrow> valid_type t"
proof -
  note t = cjson_types valid_type_def
  show "t = cJSON_Number \<Longrightarrow> json_eq F x y \<longleftrightarrow> f_eq F (valuedouble (node x)) (valuedouble (node y))"
    using assms by (subst json_eq.simps) (auto simp: t)
  show "t = cJSON_String \<or> t = cJSON_Raw \<Longrightarrow>
      json_eq F x y \<longleftrightarrow> (\<exists>s. valuestring (node x) = Some s \<and> valuestring (node y) = Some s)"
    using assms by (subst json_eq.simps) (auto simp: t)
  show "t = cJSON_Array \<Longrightarrow> json_eq F x y \<longleftrightarrow> list_all2 (json_eq F) (child x) (child y)"
    using assms by (subst json_eq.simps) (auto simp: t)
  show "t = cJSON_Object \<Longrightarrow> json_eq F x y \<longleftrightarrow> (\<exists>zs. mset zs = mset (child y) \<and>
      list_all2 (\<lambda>x y. same_name x y \<and> json_eq F x y) (child x) zs)"
    using assms by (subst json_eq.simps) (auto simp: t)
  show "json_eq F x y \<Longrightarrow> valid_type t"
    using assms by (subst (asm) json_eq.simps) (auto simp: valid_type_def)
qed

lemma matched_Cons:
  assumes "names_ok ys" "jstring (node x) = Some k"
  shows "matched r (x # xs) ys \<longleftrightarrow>
    (case get_object_item ys (Some k) True of None \<Rightarrow> False | Some y \<Rightarrow> r x y) \<and> matched r xs ys"
proof -
  note g = get_object_item_names [OF assms(1), of k]
  have "(\<exists>y\<in>set ys. same_name x y \<and> r x y) \<longleftrightarrow> (case get_object_item ys (Some k) True of None \<Rightarrow> False | Some y \<Rightarrow> r x y)"
  proof (cases "get_object_item ys (Some k) True")
    case None
    then have "\<not> same_name x y" if "y \<in> set ys" for y
      using that g [of y] assms(2) None unfolding same_name_def by fastforce
    with None show ?thesis by auto
  next
    case (Some y)
    then have "y \<in> set ys" "same_name x y" using g assms(2) by (simp_all add: same_name_def)
    moreover have "z = y" if "z \<in> set ys" "same_name x z" for z
      using that g [of z] assms(2) Some unfolding same_name_def by fastforce
    ultimately have "(\<exists>y\<in>set ys. same_name x y \<and> r x y) \<longleftrightarrow> r x y" by metis
    with Some show ?thesis by simp
  qed
  then show ?thesis by (simp add: matched_def)
qed

lemma list_all2_in_left: "list_all2 r xs ys \<Longrightarrow> x \<in> set xs \<Longrightarrow> \<exists>y\<in>set ys. r x y"
  by (induction rule: list_all2_induct) auto

lemma list_all2_in_right: "list_all2 r xs ys \<Longrightarrow> y \<in> set ys \<Longrightarrow> \<exists>x\<in>set xs. r x y"
  by (induction rule: list_all2_induct) auto

lemma matched_json_eq:
  assumes "eq_symmetric F"
    and "names_ok xs" "names_ok ys"
  shows "matched (json_eq F) xs ys \<and> matched (json_eq F) ys xs \<longleftrightarrow>
    (\<exists>zs. mset zs = mset ys \<and> list_all2 (\<lambda>x y. same_name x y \<and> json_eq F x y) xs zs)"
proof
  assume "matched (json_eq F) xs ys \<and> matched (json_eq F) ys xs"
  then show "\<exists>zs. mset zs = mset ys \<and> list_all2 (\<lambda>x y. same_name x y \<and> json_eq F x y) xs zs"
    using matched_perm [OF assms(2,3)] by blast
next
  assume "\<exists>zs. mset zs = mset ys \<and> list_all2 (\<lambda>x y. same_name x y \<and> json_eq F x y) xs zs"
  then obtain zs where z: "mset zs = mset ys" "list_all2 (\<lambda>x y. same_name x y \<and> json_eq F x y) xs zs" by blast
  then have s: "set zs = set ys" by (metis set_mset_mset)
  have "\<exists>y\<in>set zs. same_name x y \<and> json_eq F x y" if "x \<in> set xs" for x
    using list_all2_in_left [OF z(2) that] .
  moreover have "\<exists>x\<in>set xs. same_name y x \<and> json_eq F y x" if y: "y \<in> set zs" for y
  proof -
    obtain x where "x \<in> set xs" "same_name x y" "json_eq F x y"
      using list_all2_in_right [OF z(2) y] by blast
    then have "same_name y x" "json_eq F y x" using json_eq_sym [OF assms(1)] by (simp_all add: same_name_def)
    with \<open>x \<in> set xs\<close> show ?thesis by blast
  qed
  ultimately show "matched (json_eq F) xs ys \<and> matched (json_eq F) ys xs"
    by (simp add: matched_def s)
qed

lemma compare_json_eq:
  shows "eq_symmetric F \<Longrightarrow> cs \<Longrightarrow> keys_ok x \<Longrightarrow> keys_ok y \<Longrightarrow> compare F cs x y \<longleftrightarrow> json_eq F x y"
    and "eq_symmetric F \<Longrightarrow> cs \<Longrightarrow> list_all keys_ok xs \<Longrightarrow> list_all keys_ok ys \<Longrightarrow>
      compare_elements F cs xs ys \<longleftrightarrow> list_all2 (json_eq F) xs ys"
    and "eq_symmetric F \<Longrightarrow> cs \<Longrightarrow> list_all keys_ok xs \<Longrightarrow> list_all keys_ok ys \<Longrightarrow> names_ok ys \<Longrightarrow> \<forall>x\<in>set xs. jstring (node x) \<noteq> None \<Longrightarrow>
      covers F cs xs ys \<longleftrightarrow> matched (json_eq F) xs ys"
proof (induction F cs x y and F cs xs ys and F cs xs ys rule: compare_compare_elements_covers.induct)
  case (1 F cs a xs b ys)
  let ?x = "CJSON a xs" and ?y = "CJSON b ys" and ?t = "jtype a AND 255"
  have k: "list_all keys_ok xs" "list_all keys_ok ys" and cs: cs and sy: "eq_symmetric F" using "1.prems" by simp_all
  have ty: "type_of ?x = ?t" "type_of ?y = jtype b AND 255" by (simp_all add: type_of_def)
  show ?case
  proof (cases "?t = jtype b AND 255 \<and> valid_type ?t")
    case False
    then have "\<not> json_eq F ?x ?y" using json_eq_types [of F ?x ?y] json_eq_cases(5) [of ?x ?t ?y F] ty by auto
    with False show ?thesis by (auto simp: compare.simps Let_def)
  next
    case True
    then have tt: "type_of ?x = ?t" "type_of ?y = ?t" and v: "valid_type ?t" using ty by metis+
    note e = json_eq_cases [OF tt, of F]
    have ni: "?t \<noteq> cJSON_Invalid" using v by (auto simp: valid_type_def cjson_types)
    consider "?t = cJSON_False \<or> ?t = cJSON_True \<or> ?t = cJSON_NULL" | "?t = cJSON_Number" | "?t = cJSON_String \<or> ?t = cJSON_Raw"
      | "?t = cJSON_Array" | "?t = cJSON_Object"
      using v by (auto simp: valid_type_def)
    then show ?thesis
    proof cases
      case 1
      then have "json_eq F ?x ?y" using tt by (intro json_eq.literal) simp_all
      with 1 True ni show ?thesis by (auto simp: compare.simps Let_def)
    next
      case 2
      then show ?thesis using e(1) True ni by (simp add: compare.simps cjson_types valid_type_def)
    next
      case 3
      then show ?thesis using e(2) True ni by (auto simp: compare.simps cjson_types valid_type_def split: option.splits)
    next
      case 4
      then have "compare_elements F cs xs ys \<longleftrightarrow> list_all2 (json_eq F) xs ys"
        using "1.IH"(1) True v ni k cs sy by (simp add: cjson_types)
      then show ?thesis using 4 e(3) True ni v by (simp add: compare.simps cjson_types)
    next
      case 5
      then have n: "names_ok xs" "names_ok ys" using "1.prems" True by auto
      then have o: "\<forall>x\<in>set xs. jstring (node x) \<noteq> None" "\<forall>x\<in>set ys. jstring (node x) \<noteq> None"
        by (simp_all add: names_ok_def)
      have "covers F cs xs ys \<longleftrightarrow> matched (json_eq F) xs ys" "covers F cs ys xs \<longleftrightarrow> matched (json_eq F) ys xs"
        using "1.IH"(2,3) 5 True v ni k n o cs sy by (simp_all add: cjson_types)
      then show ?thesis
        using 5 e(4) True ni v matched_json_eq [OF "1.prems"(1) n] by (simp add: compare.simps cjson_types)
    qed
  qed
next
  case (4 F cs x xs y ys)
  then show ?case by simp
next
  case (6 F cs x xs ys)
  then obtain k where k: "jstring (node x) = Some k" by auto
  have y: "keys_ok y" if "get_object_item ys (Some k) cs = Some y" for y
    using get_object_item_in [OF that] "6.prems"(4) by (auto simp: list_all_iff)
  show ?case
  proof (cases "get_object_item ys (Some k) cs")
    case None
    then show ?thesis using k "6.prems"(2) matched_Cons [OF "6.prems"(5) k] by simp
  next
    case (Some z)
    with 6 k y [OF Some] show ?thesis using matched_Cons [OF "6.prems"(5) k] by simp
  qed
qed (simp_all add: matched_def)

section \<open>Duplicates\<close>

text \<open>A copy differs from its original only in that nothing of it is a reference.\<close>

fun own_copy :: "'d cJSON \<Rightarrow> 'd cJSON" where
  "own_copy (CJSON x items) = CJSON (x\<lparr>jtype := jtype x AND NOT cJSON_IsReference\<rparr>) (map own_copy items)"

fun top_copy :: "'d cJSON \<Rightarrow> 'd cJSON" where
  "top_copy (CJSON x items) = CJSON (x\<lparr>jtype := jtype x AND NOT cJSON_IsReference\<rparr>) []"

text \<open>Only a failed allocation stops the copy: of a struct, with a crash, or of a string.\<close>

lemma duplicate_node_ok:
  "duplicate_node F h x = Made (x\<lparr>jtype := jtype x AND NOT cJSON_IsReference\<rparr>) \<or>
   duplicate_node F h x = NoItem \<and> (\<exists>n. \<not> allocate h n) \<or>
   duplicate_node F h x = MadeCrash \<and> \<not> allocate h sizeof_cJSON"
  by (cases "allocate h sizeof_cJSON"; cases "valuestring x"; cases "jstring x")
    (auto simp: duplicate_node_def new_item_def cJSON_New_Item_def cJSON_strdup_def Let_def)

definition copies :: "internal_hooks \<Rightarrow> 'a made \<Rightarrow> 'a \<Rightarrow> bool" where
  "copies h m y \<longleftrightarrow> m = Made y \<or> m = NoItem \<and> (\<exists>n. \<not> allocate h n) \<or> m = MadeCrash \<and> \<not> allocate h sizeof_cJSON"

lemma copies_then: "copies h m x \<Longrightarrow> copies h (f x) y \<Longrightarrow> copies h (made_then m f) y"
  by (auto simp: copies_def)

lemma copies_Made [simp]: "copies h (Made x) y \<longleftrightarrow> x = y"
  by (simp add: copies_def)

lemma duplicate_node_copies: "copies h (duplicate_node F h x) (x\<lparr>jtype := jtype x AND NOT cJSON_IsReference\<rparr>)"
  using duplicate_node_ok by (auto simp: copies_def)

lemma duplicate_children_ok:
  "(\<And>x. x \<in> set xs \<Longrightarrow> copies h (duplicate F h True x) (own_copy x)) \<Longrightarrow>
    copies h (duplicate_children F h xs) (map own_copy xs)"
proof (induction xs)
  case (Cons x xs)
  then have "copies h (duplicate F h True x) (own_copy x)" "copies h (duplicate_children F h xs) (map own_copy xs)"
    by simp_all
  then show ?case by (auto intro!: copies_then)
qed simp

lemma duplicate_ok: "copies h (duplicate F h True x) (own_copy x)"
proof (induction x)
  case (CJSON x items)
  have "copies h (duplicate_children F h items) (map own_copy items)"
    by (rule duplicate_children_ok) (rule CJSON.IH)
  then have "copies h (made_then (duplicate_children F h items)
      (\<lambda>ys. Made (CJSON (x\<lparr>jtype := jtype x AND NOT cJSON_IsReference\<rparr>) ys))) (own_copy (CJSON x items))"
    by (rule copies_then) simp
  then show ?case by (auto intro: copies_then [OF duplicate_node_copies])
qed

lemma duplicate_top_ok: "copies h (duplicate F h False x) (top_copy x)"
  by (cases x) (auto intro: copies_then [OF duplicate_node_copies])

text \<open>Values that can be compared: known types, strings that are there, numbers equal to themselves.\<close>

fun comparable :: "'d fp \<Rightarrow> 'd cJSON \<Rightarrow> bool" where
  "comparable F (CJSON x items) \<longleftrightarrow>
    (let t = jtype x AND 255 in
     valid_type t \<and>
     (t = cJSON_Number \<longrightarrow> f_eq F (valuedouble x) (valuedouble x)) \<and>
     (t = cJSON_String \<or> t = cJSON_Raw \<longrightarrow> valuestring x \<noteq> None) \<and>
     (t = cJSON_Array \<or> t = cJSON_Object \<longrightarrow> list_all (comparable F) items))"

lemma no_reference: "(t AND NOT cJSON_IsReference) AND 255 = (t AND 255 :: u32)"
  by (simp add: cJSON_IsReference_def and.assoc)

lemma type_of_own_copy [simp]: "type_of (own_copy x) = type_of x"
  by (cases x) (simp add: type_of_def no_reference)

lemma node_own_copy [simp]:
  "valuestring (node (own_copy x)) = valuestring (node x)" "valuedouble (node (own_copy x)) = valuedouble (node x)"
  "jstring (node (own_copy x)) = jstring (node x)" "child (own_copy x) = map own_copy (child x)"
  by (cases x; simp)+

lemma json_eq_own_copy: "comparable F x \<Longrightarrow> json_eq F x (own_copy x)"
proof (induction x)
  case (CJSON n items)
  let ?x = "CJSON n items"
  have v: "valid_type (type_of ?x)" using CJSON.prems by (simp add: type_of_def Let_def)
  have ih: "list_all2 (json_eq F) items (map own_copy items)" if "type_of ?x = cJSON_Array \<or> type_of ?x = cJSON_Object"
    using CJSON that by (auto simp: type_of_def Let_def list_all_iff list_all2_map2 intro!: list_all2_same [THEN iffD2])
  consider "type_of ?x = cJSON_False \<or> type_of ?x = cJSON_True \<or> type_of ?x = cJSON_NULL" | "type_of ?x = cJSON_Number"
    | "type_of ?x = cJSON_String \<or> type_of ?x = cJSON_Raw" | "type_of ?x = cJSON_Array" | "type_of ?x = cJSON_Object"
    using v by (auto simp: valid_type_def)
  then show ?case
  proof cases
    case 1
    then show ?thesis by (intro json_eq.literal) (simp_all del: own_copy.simps)
  next
    case 2
    then show ?thesis using CJSON.prems by (intro json_eq.number) (simp_all add: type_of_def no_reference)
  next
    case 3
    then have "valuestring n \<noteq> None" using CJSON.prems by (auto simp: type_of_def Let_def)
    then show ?thesis using 3 by (auto simp del: own_copy.simps intro: json_eq.string)
  next
    case 4
    then show ?thesis using ih by (intro json_eq.array) (simp_all del: own_copy.simps)
  next
    case 5
    have "list_all2 (\<lambda>x y. same_name x y \<and> json_eq F x y) items (map own_copy items)"
      using ih 5 by (auto simp: list_all2_conv_all_nth same_name_def)
    then show ?thesis using 5 by (intro json_eq.object [where zs = "map own_copy items"]) (simp_all del: own_copy.simps)
  qed
qed

lemma keys_ok_own_copy: "keys_ok x \<Longrightarrow> keys_ok (own_copy x)"
proof (induction x)
  case (CJSON n items)
  have n: "names_ok (map own_copy items) = names_ok items"
    by (simp add: names_ok_def comp_def)
  show ?case using CJSON by (simp add: no_reference n list_all_iff)
qed

lemma compare_duplicate:
  assumes "eq_symmetric F" "keys_ok x" "comparable F x" "cJSON_Duplicate F h (Some x) True = Made y"
  shows "cJSON_Compare F False (Some x) (Some y) True"
proof -
  have "y = own_copy x" using assms(4) duplicate_ok [of h F x] by (auto simp: cJSON_Duplicate_def copies_def)
  with assms show ?thesis
    by (simp add: cJSON_Compare_def compare_json_eq(1) keys_ok_own_copy json_eq_own_copy)
qed

end
