(* ===== verification/Cjson_Correct.thy ===== *)
theory Cjson_Correct
  imports Cjson_Typed Cjson_Roundtrip Cjson_Utf8 Cjson_Strip Cjson_Equal
begin

text \<open>
  The properties of the JSON library, with concrete texts and items on which they are instantiated:
  there, a double is an integer, \<open>sprintf\<close> prints its decimal digits, and \<open>strtod\<close> reads them.
\<close>

section \<open>Doubles that are integers\<close>

definition is_digit :: "u8 \<Rightarrow> bool" where
  "is_digit c \<longleftrightarrow> 48 \<le> c \<and> c \<le> 57"

definition read_digits :: "bytes \<Rightarrow> int" where
  "read_digits ds = foldl (\<lambda>n c. n * 10 + uint (c - 48)) 0 ds"

definition read_int :: "bytes \<Rightarrow> int \<times> nat" where
  "read_int s =
    (let neg = (s \<noteq> [] \<and> hd s = 45);
         ds = takeWhile is_digit (if neg then tl s else s)
     in if ds = [] then (0, 0)
        else if neg then (- read_digits ds, Suc (length ds)) else (read_digits ds, length ds))"

definition print_int :: "int \<Rightarrow> bytes" where
  "print_int d = (if d < 0 then [45] else []) @ decimal_text (nat \<bar>d\<bar>)"

definition int_fp :: "int fp" where
  "int_fp = \<lparr>f_zero = 0, strtod = read_int, f_ge_INT_MAX = (\<lambda>d. 2147483647 \<le> d), f_le_INT_MIN = (\<lambda>d. d \<le> - 2147483648),
    f_to_int = of_int, f_not_finite = (\<lambda>_. False), sprintf_g = (\<lambda>_. print_int), sscanf_lg = (\<lambda>_. None), f_eq = (=)\<rparr>"

definition ok_hooks :: internal_hooks where
  "ok_hooks = \<lparr>allocate = (\<lambda>_. True), reallocate = Some (\<lambda>_. True), fresh = (\<lambda>_ _. 165)\<rparr>"

lemma int_fp_strtod: "strtod_ok int_fp"
proof -
  have "snd (read_int s) \<le> length s" for s
    using length_takeWhile_le [of is_digit s] length_takeWhile_le [of is_digit "tl s"]
    by (cases s) (auto simp: read_int_def Let_def)
  then show ?thesis by (simp add: strtod_ok_def int_fp_def)
qed

lemma int_fp_symmetric: "eq_symmetric int_fp"
  by (auto simp: eq_symmetric_def int_fp_def)

lemma ok_hooks_alloc [simp]: "allocate ok_hooks n" "alloc_all ok_hooks"
  by (simp_all add: ok_hooks_def alloc_all_def)

text \<open>An object with a number, a string to escape, and an array.\<close>

definition item_of :: "u32 \<Rightarrow> bytes option \<Rightarrow> bytes option \<Rightarrow> int \<Rightarrow> int cJSON list \<Rightarrow> int cJSON" where
  "item_of t name s d items =
    CJSON \<lparr>jtype = t, valuestring = s, valueint = of_int d, valuedouble = d, jstring = name, lineno = 1\<rparr> items"

definition sample :: "int cJSON" where
  "sample = item_of cJSON_Object None None 0
    [item_of cJSON_Number (Some [97]) None (- 42) [],
     item_of cJSON_String (Some [98]) (Some [34, 10, 1, 47]) 0 [],
     item_of cJSON_Array (Some [99]) None 0 [item_of cJSON_NULL None None 0 [], item_of cJSON_False None None 0 []]]"

lemma sample_ok: "plain int_fp sample" "minifiable sample" "jstring (node sample) = None" "nesting sample \<le> CJSON_NESTING_LIMIT"
  "keys_ok sample" "comparable int_fp sample"
  by code_simp+

lemma sample_length: "int (length (render_value int_fp fmt 0 sample) + 2) \<le> INT_MAX"
proof -
  have l: "length (render_value int_fp fmt 0 sample) \<le> 100" by (cases fmt) (simp, code_simp)+
  show ?thesis unfolding INT_MAX_def using of_nat_mono [OF l, where ?'a = int] by simp
qed

lemma sample_prints:
  "cJSON_Print int_fp ok_hooks sample = TextOut (render_value int_fp True 0 sample @ [0])"
  "cJSON_PrintUnformatted int_fp ok_hooks sample = TextOut (render_value int_fp False 0 sample @ [0])"
  using print_ok [OF plain_printable [OF sample_ok(1)], of True ok_hooks]
    print_ok [OF plain_printable [OF sample_ok(1)], of False ok_hooks] sample_length [of True] sample_length [of False]
  by (simp_all add: cJSON_Print_def cJSON_PrintUnformatted_def)

section \<open>Parsing\<close>



text \<open>
  C27 (what is parsed is well typed).  An item that the parser returns has exactly one of the JSON
  types at every place; strings, and no other items, have a string, without NULs; the members of objects,
  and no other items, have names; only arrays and objects have children.  Hence the printer accepts
  it, if the C library prints its numbers into the 26 bytes it is given.
\<close>

theorem cJSON_ParseWithOpts_typed:
  assumes "cJSON_ParseWithOpts F h g v z = Outcome (Some root) p e" "\<forall>d. number_ok F d"
  shows "typed root \<and> jstring (node root) = None \<and> printable F root"
  using parse_typed [OF assms(1)] typed_printable [OF _ assms(2)] by blast

text \<open>Numbers of at most 24 digits, all printed the same way.\<close>

definition constant_fp :: "int fp" where
  "constant_fp = int_fp\<lparr>sprintf_g := \<lambda>_ _. [48]\<rparr>"

lemma constant_parse:
  "cJSON_ParseWithOpts constant_fp ok_hooks no_error (Some [91, 34, 97, 34, 44, 55, 93]) False =
    Outcome (Some (CJSON \<lparr>jtype = 32, valuestring = None, valueint = 0, valuedouble = 0, jstring = None, lineno = 1\<rparr>
      [CJSON \<lparr>jtype = 16, valuestring = Some [97], valueint = 0, valuedouble = 0, jstring = None, lineno = 1\<rparr> [],
       CJSON \<lparr>jtype = 8, valuestring = None, valueint = 7, valuedouble = 7, jstring = None, lineno = 1\<rparr> []]))
     (Some 7) no_error"
  by code_simp

theorem cJSON_ParseWithOpts_typed_witness:
  "typed (CJSON \<lparr>jtype = 32, valuestring = None, valueint = 0, valuedouble = 0 :: int, jstring = None, lineno = 1\<rparr>
      [CJSON \<lparr>jtype = 16, valuestring = Some [97], valueint = 0, valuedouble = 0, jstring = None, lineno = 1\<rparr> [],
       CJSON \<lparr>jtype = 8, valuestring = None, valueint = 7, valuedouble = 7, jstring = None, lineno = 1\<rparr> []])"
proof -
  have "\<forall>d. number_ok constant_fp d"
    by (simp add: number_ok_def number_text_def constant_fp_def int_fp_def)
  from cJSON_ParseWithOpts_typed [OF constant_parse this] show ?thesis by (simp only:)
qed


section \<open>Printing\<close>

text \<open>
  C29 (printing into a given buffer).  \<open>cJSON_PrintPreallocated\<close> writes the text of the item and a NUL
  exactly if the buffer has two bytes more than the text, and never leaves the buffer, whether it
  succeeds or not.
\<close>

theorem cJSON_PrintPreallocated_exact:
  assumes "printable F item" "0 \<le> len" "len \<le> INT_MAX" "nat len \<le> length mem"
  shows "\<exists>ok buf. cJSON_PrintPreallocated F h item (Some mem) len fmt = Some (ok, buf) \<and>
    (ok \<longleftrightarrow> length (render_value F fmt 0 item) + 2 \<le> nat len) \<and>
    (ok \<longrightarrow> (\<exists>mem'. buf = Some mem' \<and> length mem' = length mem \<and>
      take (length (render_value F fmt 0 item) + 1) mem' = render_value F fmt 0 item @ [0]))"
  by (rule preallocated_ok [OF assms])

theorem cJSON_PrintPreallocated_exact_witness:
  "\<exists>ok buf. cJSON_PrintPreallocated int_fp ok_hooks sample (Some (replicate 20 0)) 20 True = Some (ok, buf) \<and>
    (ok \<longleftrightarrow> length (render_value int_fp True 0 sample) + 2 \<le> 20) \<and>
    (ok \<longrightarrow> (\<exists>mem'. buf = Some mem' \<and> length mem' = 20 \<and>
      take (length (render_value int_fp True 0 sample) + 1) mem' = render_value int_fp True 0 sample @ [0]))"
  using cJSON_PrintPreallocated_exact [OF plain_printable [OF sample_ok(1)], of 20 "replicate 20 0" ok_hooks True]
  by (simp add: INT_MAX_def)

text \<open>
  C30 (printing refines rendering).  Whatever the growth of its buffer, with \<open>realloc\<close> or without,
  the printer returns the rendered text of the item with its NUL; if memory can be had, it returns no
  text only when that does not fit into \<open>INT_MAX\<close> bytes.
\<close>

theorem cJSON_Print_renders:
  assumes "printable F item"
  shows "print F item fmt h = TextOut (render_value F fmt 0 item @ [0]) \<or>
    print F item fmt h = TextNull \<and> (alloc_all h \<longrightarrow> INT_MAX < int (length (render_value F fmt 0 item) + 2))"
  by (rule print_ok [OF assms])

theorem cJSON_Print_renders_witness:
  "print int_fp sample False ok_hooks = TextOut (render_value int_fp False 0 sample @ [0])"
  using cJSON_Print_renders [OF plain_printable [OF sample_ok(1)], of False ok_hooks] sample_length [of False] by simp

text \<open>
  C31 (parse after print).  The text of an item, formatted or not, is parsed into the same item, line
  numbers apart, if \<open>strtod\<close> reads back the text of each number in it.
\<close>

theorem cJSON_print_parse_roundtrip:
  assumes "plain F x" "jstring (node x) = None" "nesting x \<le> CJSON_NESTING_LIMIT" "\<And>n. allocate h n"
    and "print F x fmt h' = TextOut t"
  shows "\<exists>y p e. cJSON_ParseWithOpts F h g (Some (c_string t)) z = Outcome (Some y) p e \<and> forget y = forget x"
proof -
  have "t = render_value F fmt 0 x @ [0]" using print_ok [OF plain_printable [OF assms(1)], of fmt h'] assms(5) by auto
  then have "c_string t = render_value F fmt 0 x"
    using c_string_text [OF render_nul_free(1) [OF plain_printable [OF assms(1)]]] by metis
  with parse_render [OF assms(1-4)] show ?thesis by metis
qed

theorem cJSON_print_parse_roundtrip_witness:
  "\<exists>y p e. cJSON_ParseWithOpts int_fp ok_hooks no_error (Some (c_string (render_value int_fp True 0 sample @ [0]))) True =
    Outcome (Some y) p e \<and> forget y = forget sample"
  by (rule cJSON_print_parse_roundtrip [OF sample_ok(1,3,4) ok_hooks_alloc(1) sample_prints(1) [unfolded cJSON_Print_def]])

section \<open>What the parser gets wrong\<close>

text \<open>A failed allocation of an item is a null dereference.\<close>

lemma cJSON_New_Item_dereferences_null:
  "\<not> allocate h sizeof_cJSON \<Longrightarrow> cJSON_ParseWithOpts F h g (Some v) z = OutCrash"
  by (simp add: cJSON_ParseWithOpts_def cJSON_New_Item_def)

text \<open>The second element of \<open>[true,\<close>, newline, \<open>true]\<close> is reported on the first line.\<close>

lemma cJSON_lineno_of_comma:
  "(case cJSON_Parse int_fp ok_hooks no_error (Some [91, 116, 114, 117, 101, 44, 10, 116, 114, 117, 101, 93]) of
      Outcome (Some root) _ _ \<Rightarrow> map (lineno \<circ> node) (child root) | _ \<Rightarrow> []) = [1, 1]"
  by code_simp

text \<open>The literal \<open>\\uZZZZ\<close> is accepted as a NUL, which ends the string \<open>a\\uZZZZb\<close>.\<close>

lemma cJSON_bad_digits_accepted:
  "(case cJSON_Parse int_fp ok_hooks no_error (Some [34, 97, 92, 117, 90, 90, 90, 90, 98, 34]) of
      Outcome (Some root) _ _ \<Rightarrow> valuestring (node root) | _ \<Rightarrow> None) = Some [97]"
  by code_simp

section \<open>Whole items\<close>





end
