(* ===== verification/Cjson_Heap.thy ===== *)
theory Cjson_Heap
  imports Cjson_Tree "HOL-Library.Monad_Syntax"
begin

text \<open>
  Items in memory: structs at addresses, with the pointers \<open>next\<close>, \<open>prev\<close> and \<open>child\<close>, and the operations
  that link, unlink, insert, replace and delete them.  \<open>None\<close> as a result is an access to memory that
  holds no item (a null pointer, an item that has been freed) or a loop that does not end; a null pointer
  as a value is \<open>None\<close> inside of the result.  The strings of an item are part of its struct; the
  strings that have been given to \<open>deallocate\<close> are listed in \<open>freed\<close>.
\<close>

section \<open>Memory\<close>

record 'd cell =
  cell_next :: "nat option"
  cell_prev :: "nat option"
  cell_child :: "nat option"
  cell_node :: "'d node"

record 'd mem =
  cells :: "nat \<Rightarrow> 'd cell option"
  brk :: nat
  freed :: "bytes list"

definition update_cell :: "'d mem \<Rightarrow> nat \<Rightarrow> ('d cell \<Rightarrow> 'd cell) \<Rightarrow> 'd mem option" where
  "update_cell m a f = map_option (\<lambda>c. m\<lparr>cells := (cells m)(a \<mapsto> f c)\<rparr>) (cells m a)"

text \<open>A new item, at an address that has not been used.\<close>

definition place :: "'d mem \<Rightarrow> 'd cell \<Rightarrow> nat \<times> 'd mem" where
  "place m c = (brk m, m\<lparr>cells := (cells m)(brk m \<mapsto> c), brk := Suc (brk m)\<rparr>)"

definition free_string :: "bytes option \<Rightarrow> 'd mem \<Rightarrow> 'd mem" where
  "free_string s m = (case s of None \<Rightarrow> m | Some s \<Rightarrow> m\<lparr>freed := freed m @ [s]\<rparr>)"

definition free_cell :: "nat \<Rightarrow> 'd mem \<Rightarrow> 'd mem" where
  "free_cell a m = m\<lparr>cells := (cells m)(a := None)\<rparr>"

text \<open>Writing through a pointer that may be null, as the code guards it.\<close>

definition put_next :: "'d mem \<Rightarrow> nat option \<Rightarrow> nat option \<Rightarrow> 'd mem option" where
  "put_next m p v = (case p of None \<Rightarrow> Some m | Some a \<Rightarrow> update_cell m a (\<lambda>c. c\<lparr>cell_next := v\<rparr>))"

definition put_prev :: "'d mem \<Rightarrow> nat option \<Rightarrow> nat option \<Rightarrow> 'd mem option" where
  "put_prev m p v = (case p of None \<Rightarrow> Some m | Some a \<Rightarrow> update_cell m a (\<lambda>c. c\<lparr>cell_prev := v\<rparr>))"

section \<open>Deleting\<close>

definition is_reference :: "'d node \<Rightarrow> bool" where
  "is_reference n \<longleftrightarrow> jtype n AND cJSON_IsReference \<noteq> 0"

definition const_name :: "'d node \<Rightarrow> bool" where
  "const_name n \<longleftrightarrow> jtype n AND cJSON_StringIsConst \<noteq> 0"

text \<open>The item itself, after its children: its strings, then the struct.\<close>

definition free_item :: "'d mem \<Rightarrow> nat \<Rightarrow> 'd mem option" where
  "free_item m a = do {
     c \<leftarrow> cells m a;
     let n = cell_node c;
     let m = (if \<not> is_reference n then free_string (valuestring n) m else m);
     let m = (if \<not> const_name n then free_string (jstring n) m else m);
     Some (free_cell a m)
   }"

partial_function (option) cJSON_Delete :: "'d mem \<Rightarrow> nat option \<Rightarrow> 'd mem option" where
  "cJSON_Delete m item =
    (case item of
       None \<Rightarrow> Some m
     | Some a \<Rightarrow> do {
         c \<leftarrow> cells m a;
         m \<leftarrow> (if \<not> is_reference (cell_node c) \<and> cell_child c \<noteq> None then cJSON_Delete m (cell_child c) else Some m);
         m \<leftarrow> free_item m a;
         cJSON_Delete m (cell_next c)
       })"

section \<open>Looking up\<close>

partial_function (option) chain_length :: "'d mem \<Rightarrow> nat option \<Rightarrow> nat \<Rightarrow> nat option" where
  "chain_length m p n =
    (case p of
       None \<Rightarrow> Some n
     | Some a \<Rightarrow> do { c \<leftarrow> cells m a; chain_length m (cell_next c) (Suc n) })"

text \<open>The n is converted to \<open>int\<close>.\<close>

definition cJSON_GetArraySize :: "'d mem \<Rightarrow> nat option \<Rightarrow> i32 option" where
  "cJSON_GetArraySize m array =
    (case array of
       None \<Rightarrow> Some 0
     | Some a \<Rightarrow> do { c \<leftarrow> cells m a; n \<leftarrow> chain_length m (cell_child c) 0; Some (of_nat n) })"

fun walk :: "'d mem \<Rightarrow> nat option \<Rightarrow> nat \<Rightarrow> nat option option" where
  "walk m p 0 = Some p"
| "walk m p (Suc i) = (case p of None \<Rightarrow> Some None | Some a \<Rightarrow> do { c \<leftarrow> cells m a; walk m (cell_next c) i })"

definition get_array_item :: "'d mem \<Rightarrow> nat option \<Rightarrow> nat \<Rightarrow> nat option option" where
  "get_array_item m array i =
    (case array of None \<Rightarrow> Some None | Some a \<Rightarrow> do { c \<leftarrow> cells m a; walk m (cell_child c) i })"

definition cJSON_GetArrayItem :: "'d mem \<Rightarrow> nat option \<Rightarrow> int \<Rightarrow> nat option option" where
  "cJSON_GetArrayItem m array i = (if i < 0 then Some None else get_array_item m array (nat i))"

partial_function (option) sensitive_walk :: "'d mem \<Rightarrow> bytes \<Rightarrow> nat option \<Rightarrow> nat option option" where
  "sensitive_walk m name p =
    (case p of
       None \<Rightarrow> Some None
     | Some a \<Rightarrow> do {
         c \<leftarrow> cells m a;
         case jstring (cell_node c) of
           None \<Rightarrow> Some p
         | Some k \<Rightarrow> if name \<noteq> k then sensitive_walk m name (cell_next c) else Some p
       })"

partial_function (option) insensitive_walk :: "'d mem \<Rightarrow> bytes \<Rightarrow> nat option \<Rightarrow> nat option option" where
  "insensitive_walk m name p =
    (case p of
       None \<Rightarrow> Some None
     | Some a \<Rightarrow> do {
         c \<leftarrow> cells m a;
         if case_insensitive_strcmp (Some name) (jstring (cell_node c)) \<noteq> 0
         then insensitive_walk m name (cell_next c) else Some p
       })"

definition find_object_item :: "'d mem \<Rightarrow> nat option \<Rightarrow> bytes option \<Rightarrow> bool \<Rightarrow> nat option option" where
  "find_object_item m object name case_sensitive =
    (case (object, name) of
       (Some a, Some name) \<Rightarrow> do {
         c \<leftarrow> cells m a;
         p \<leftarrow> (if case_sensitive then sensitive_walk m name (cell_child c) else insensitive_walk m name (cell_child c));
         case p of
           None \<Rightarrow> Some None
         | Some x \<Rightarrow> do { c \<leftarrow> cells m x; Some (if jstring (cell_node c) = None then None else p) }
       }
     | _ \<Rightarrow> Some None)"

definition cJSON_GetObjectItem :: "'d mem \<Rightarrow> nat option \<Rightarrow> bytes option \<Rightarrow> nat option option" where
  "cJSON_GetObjectItem m object string = find_object_item m object string False"

definition cJSON_GetObjectItemCaseSensitive :: "'d mem \<Rightarrow> nat option \<Rightarrow> bytes option \<Rightarrow> nat option option" where
  "cJSON_GetObjectItemCaseSensitive m object string = find_object_item m object string True"

definition cJSON_HasObjectItem :: "'d mem \<Rightarrow> nat option \<Rightarrow> bytes option \<Rightarrow> bool option" where
  "cJSON_HasObjectItem m object string = map_option (\<lambda>p. p \<noteq> None) (cJSON_GetObjectItem m object string)"

section \<open>Adding\<close>

definition suffix_object :: "'d mem \<Rightarrow> nat \<Rightarrow> nat \<Rightarrow> 'd mem option" where
  "suffix_object m p item = do {
     m \<leftarrow> put_next m (Some p) (Some item);
     put_prev m (Some item) (Some p)
   }"

definition put_child :: "'d mem \<Rightarrow> nat \<Rightarrow> nat option \<Rightarrow> 'd mem option" where
  "put_child m a v = update_cell m a (\<lambda>c. c\<lparr>cell_child := v\<rparr>)"

partial_function (option) last_item :: "'d mem \<Rightarrow> nat \<Rightarrow> nat option" where
  "last_item m a = do {
     c \<leftarrow> cells m a;
     case cell_next c of None \<Rightarrow> Some a | Some b \<Rightarrow> last_item m b
   }"

definition add_item_to_array :: "'d mem \<Rightarrow> nat option \<Rightarrow> nat option \<Rightarrow> (bool \<times> 'd mem) option" where
  "add_item_to_array m array item =
    (case (array, item) of
       (Some a, Some x) \<Rightarrow> do {
         c \<leftarrow> cells m a;
         m \<leftarrow> (case cell_child c of
                None \<Rightarrow> put_child m a (Some x)
              | Some b \<Rightarrow> do { l \<leftarrow> last_item m b; suffix_object m l x });
         Some (True, m)
       }
     | _ \<Rightarrow> Some (False, m))"

definition cJSON_AddItemToArray :: "'d mem \<Rightarrow> nat option \<Rightarrow> nat option \<Rightarrow> 'd mem option" where
  "cJSON_AddItemToArray m array item = map_option snd (add_item_to_array m array item)"

text \<open>The name of the item is replaced by a constant, or by a copy, if that can be had.\<close>

definition rename :: "'d mem \<Rightarrow> nat \<Rightarrow> bytes option \<Rightarrow> (u32 \<Rightarrow> u32) \<Rightarrow> 'd mem option" where
  "rename m x key new_type = do {
     c \<leftarrow> cells m x;
     let n = cell_node c;
     let m = (if \<not> const_name n then free_string (jstring n) m else m);
     update_cell m x (\<lambda>c. c\<lparr>cell_node := n\<lparr>jstring := key, jtype := new_type (jtype n)\<rparr>\<rparr>)
   }"

definition add_item_to_object ::
  "internal_hooks \<Rightarrow> 'd mem \<Rightarrow> nat option \<Rightarrow> bytes option \<Rightarrow> nat option \<Rightarrow> bool \<Rightarrow> (bool \<times> 'd mem) option" where
  "add_item_to_object h m object string item constant_key =
    (case (object, string, item) of
       (Some a, Some s, Some x) \<Rightarrow>
         if constant_key then do {
           m \<leftarrow> rename m x (Some s) (\<lambda>t. t OR cJSON_StringIsConst);
           add_item_to_array m object item
         } else (case cJSON_strdup h string of
             None \<Rightarrow> Some (False, m)
           | Some key \<Rightarrow> do {
               m \<leftarrow> rename m x (Some key) (\<lambda>t. t AND NOT cJSON_StringIsConst);
               add_item_to_array m object item
             })
     | _ \<Rightarrow> Some (False, m))"

definition cJSON_AddItemToObject ::
  "internal_hooks \<Rightarrow> 'd mem \<Rightarrow> nat option \<Rightarrow> bytes option \<Rightarrow> nat option \<Rightarrow> 'd mem option" where
  "cJSON_AddItemToObject h m object string item = map_option snd (add_item_to_object h m object string item False)"

definition cJSON_AddItemToObjectCS ::
  "internal_hooks \<Rightarrow> 'd mem \<Rightarrow> nat option \<Rightarrow> bytes option \<Rightarrow> nat option \<Rightarrow> 'd mem option" where
  "cJSON_AddItemToObjectCS h m object string item = map_option snd (add_item_to_object h m object string item True)"

text \<open>A reference shares the strings and the children of its item.\<close>

definition create_reference ::
  "'d fp \<Rightarrow> internal_hooks \<Rightarrow> 'd mem \<Rightarrow> nat option \<Rightarrow> (nat option \<times> 'd mem) option" where
  "create_reference F h m item =
    (case item of
       None \<Rightarrow> Some (None, m)
     | Some x \<Rightarrow> do {
         new \<leftarrow> cJSON_New_Item F h CJSON_LINENO_INVALID;
         c \<leftarrow> cells m x;
         let n = cell_node c;
         let (r, m) = place m (c\<lparr>cell_next := None, cell_prev := None,
               cell_node := n\<lparr>jstring := None, jtype := jtype n OR cJSON_IsReference\<rparr>\<rparr>);
         Some (Some r, m)
       })"

definition cJSON_AddItemReferenceToArray ::
  "'d fp \<Rightarrow> internal_hooks \<Rightarrow> 'd mem \<Rightarrow> nat option \<Rightarrow> nat option \<Rightarrow> 'd mem option" where
  "cJSON_AddItemReferenceToArray F h m array item =
    (if array = None then Some m
     else do {
       (r, m) \<leftarrow> create_reference F h m item;
       map_option snd (add_item_to_array m array r)
     })"

definition cJSON_AddItemReferenceToObject ::
  "'d fp \<Rightarrow> internal_hooks \<Rightarrow> 'd mem \<Rightarrow> nat option \<Rightarrow> bytes option \<Rightarrow> nat option \<Rightarrow> 'd mem option" where
  "cJSON_AddItemReferenceToObject F h m object string item =
    (if object = None \<or> string = None then Some m
     else do {
       (r, m) \<leftarrow> create_reference F h m item;
       map_option snd (add_item_to_object h m object string r False)
     })"

text \<open>A new item in memory, if there is one.\<close>

definition create :: "'d mem \<Rightarrow> 'd node made \<Rightarrow> (nat option \<times> 'd mem) option" where
  "create m item =
    (case item of
       MadeCrash \<Rightarrow> None
     | NoItem \<Rightarrow> Some (None, m)
     | Made n \<Rightarrow>
         (let (x, m) = place m \<lparr>cell_next = None, cell_prev = None, cell_child = None, cell_node = n\<rparr>
          in Some (Some x, m)))"

definition cJSON_CreateObjectReference ::
  "'d fp \<Rightarrow> internal_hooks \<Rightarrow> 'd mem \<Rightarrow> nat option \<Rightarrow> (nat option \<times> 'd mem) option" where
  "cJSON_CreateObjectReference F h m ch = do {
     (x, m) \<leftarrow> create m (new_of_type F h (cJSON_Object OR cJSON_IsReference));
     a \<leftarrow> x;
     m \<leftarrow> put_child m a ch;
     Some (x, m)
   }"

definition cJSON_CreateArrayReference ::
  "'d fp \<Rightarrow> internal_hooks \<Rightarrow> 'd mem \<Rightarrow> nat option \<Rightarrow> (nat option \<times> 'd mem) option" where
  "cJSON_CreateArrayReference F h m ch = do {
     (x, m) \<leftarrow> create m (new_of_type F h (cJSON_Array OR cJSON_IsReference));
     a \<leftarrow> x;
     m \<leftarrow> put_child m a ch;
     Some (x, m)
   }"

text \<open>The common part of the functions that create a member: the item is deleted if it cannot be added.\<close>

definition add_created ::
  "internal_hooks \<Rightarrow> 'd mem \<Rightarrow> nat option \<Rightarrow> bytes option \<Rightarrow> 'd node made \<Rightarrow> (nat option \<times> 'd mem) option" where
  "add_created h m object name item = do {
     (x, m) \<leftarrow> create m item;
     (ok, m) \<leftarrow> add_item_to_object h m object name x False;
     if ok then Some (x, m)
     else do { m \<leftarrow> cJSON_Delete m x; Some (None, m) }
   }"

definition cJSON_AddNullToObject ::
  "'d fp \<Rightarrow> internal_hooks \<Rightarrow> 'd mem \<Rightarrow> nat option \<Rightarrow> bytes option \<Rightarrow> (nat option \<times> 'd mem) option" where
  "cJSON_AddNullToObject F h m object name = add_created h m object name (cJSON_CreateNull F h)"

definition cJSON_AddTrueToObject ::
  "'d fp \<Rightarrow> internal_hooks \<Rightarrow> 'd mem \<Rightarrow> nat option \<Rightarrow> bytes option \<Rightarrow> (nat option \<times> 'd mem) option" where
  "cJSON_AddTrueToObject F h m object name = add_created h m object name (cJSON_CreateTrue F h)"

definition cJSON_AddFalseToObject ::
  "'d fp \<Rightarrow> internal_hooks \<Rightarrow> 'd mem \<Rightarrow> nat option \<Rightarrow> bytes option \<Rightarrow> (nat option \<times> 'd mem) option" where
  "cJSON_AddFalseToObject F h m object name = add_created h m object name (cJSON_CreateFalse F h)"

definition cJSON_AddBoolToObject ::
  "'d fp \<Rightarrow> internal_hooks \<Rightarrow> 'd mem \<Rightarrow> nat option \<Rightarrow> bytes option \<Rightarrow> bool \<Rightarrow> (nat option \<times> 'd mem) option" where
  "cJSON_AddBoolToObject F h m object name b = add_created h m object name (cJSON_CreateBool F h b)"

definition cJSON_AddNumberToObject ::
  "'d fp \<Rightarrow> internal_hooks \<Rightarrow> 'd mem \<Rightarrow> nat option \<Rightarrow> bytes option \<Rightarrow> 'd \<Rightarrow> (nat option \<times> 'd mem) option" where
  "cJSON_AddNumberToObject F h m object name number = add_created h m object name (cJSON_CreateNumber F h number)"

definition cJSON_AddStringToObject ::
  "'d fp \<Rightarrow> internal_hooks \<Rightarrow> 'd mem \<Rightarrow> nat option \<Rightarrow> bytes option \<Rightarrow> bytes option \<Rightarrow> (nat option \<times> 'd mem) option" where
  "cJSON_AddStringToObject F h m object name string = add_created h m object name (cJSON_CreateString F h string)"

definition cJSON_AddRawToObject ::
  "'d fp \<Rightarrow> internal_hooks \<Rightarrow> 'd mem \<Rightarrow> nat option \<Rightarrow> bytes option \<Rightarrow> bytes option \<Rightarrow> (nat option \<times> 'd mem) option" where
  "cJSON_AddRawToObject F h m object name raw = add_created h m object name (cJSON_CreateRaw F h raw)"

definition cJSON_AddObjectToObject ::
  "'d fp \<Rightarrow> internal_hooks \<Rightarrow> 'd mem \<Rightarrow> nat option \<Rightarrow> bytes option \<Rightarrow> (nat option \<times> 'd mem) option" where
  "cJSON_AddObjectToObject F h m object name = add_created h m object name (cJSON_CreateObject F h)"

definition cJSON_AddArrayToObject ::
  "'d fp \<Rightarrow> internal_hooks \<Rightarrow> 'd mem \<Rightarrow> nat option \<Rightarrow> bytes option \<Rightarrow> (nat option \<times> 'd mem) option" where
  "cJSON_AddArrayToObject F h m object name = add_created h m object name (cJSON_CreateArray F h)"

section \<open>Detaching\<close>

definition cJSON_DetachItemViaPointer ::
  "'d mem \<Rightarrow> nat option \<Rightarrow> nat option \<Rightarrow> (nat option \<times> 'd mem) option" where
  "cJSON_DetachItemViaPointer m parent item =
    (case (parent, item) of
       (Some a, Some x) \<Rightarrow> do {
         c \<leftarrow> cells m x;
         m \<leftarrow> put_next m (cell_prev c) (cell_next c);
         c \<leftarrow> cells m x;
         m \<leftarrow> put_prev m (cell_next c) (cell_prev c);
         ca \<leftarrow> cells m a;
         c \<leftarrow> cells m x;
         m \<leftarrow> (if cell_child ca = Some x then put_child m a (cell_next c) else Some m);
         m \<leftarrow> put_prev m (Some x) None;
         m \<leftarrow> put_next m (Some x) None;
         Some (Some x, m)
       }
     | _ \<Rightarrow> Some (None, m))"

definition cJSON_DetachItemFromArray :: "'d mem \<Rightarrow> nat option \<Rightarrow> int \<Rightarrow> (nat option \<times> 'd mem) option" where
  "cJSON_DetachItemFromArray m array which =
    (if which < 0 then Some (None, m)
     else do { x \<leftarrow> get_array_item m array (nat which); cJSON_DetachItemViaPointer m array x })"

definition cJSON_DeleteItemFromArray :: "'d mem \<Rightarrow> nat option \<Rightarrow> int \<Rightarrow> 'd mem option" where
  "cJSON_DeleteItemFromArray m array which = do {
     (x, m) \<leftarrow> cJSON_DetachItemFromArray m array which;
     cJSON_Delete m x
   }"

definition cJSON_DetachItemFromObject :: "'d mem \<Rightarrow> nat option \<Rightarrow> bytes option \<Rightarrow> (nat option \<times> 'd mem) option" where
  "cJSON_DetachItemFromObject m object string = do {
     x \<leftarrow> cJSON_GetObjectItem m object string;
     cJSON_DetachItemViaPointer m object x
   }"

definition cJSON_DetachItemFromObjectCaseSensitive ::
  "'d mem \<Rightarrow> nat option \<Rightarrow> bytes option \<Rightarrow> (nat option \<times> 'd mem) option" where
  "cJSON_DetachItemFromObjectCaseSensitive m object string = do {
     x \<leftarrow> cJSON_GetObjectItemCaseSensitive m object string;
     cJSON_DetachItemViaPointer m object x
   }"

definition cJSON_DeleteItemFromObject :: "'d mem \<Rightarrow> nat option \<Rightarrow> bytes option \<Rightarrow> 'd mem option" where
  "cJSON_DeleteItemFromObject m object string = do {
     (x, m) \<leftarrow> cJSON_DetachItemFromObject m object string;
     cJSON_Delete m x
   }"

definition cJSON_DeleteItemFromObjectCaseSensitive :: "'d mem \<Rightarrow> nat option \<Rightarrow> bytes option \<Rightarrow> 'd mem option" where
  "cJSON_DeleteItemFromObjectCaseSensitive m object string = do {
     (x, m) \<leftarrow> cJSON_DetachItemFromObjectCaseSensitive m object string;
     cJSON_Delete m x
   }"

section \<open>Inserting and replacing\<close>

definition cJSON_InsertItemInArray :: "'d mem \<Rightarrow> nat option \<Rightarrow> int \<Rightarrow> nat option \<Rightarrow> 'd mem option" where
  "cJSON_InsertItemInArray m array which newitem =
    (if which < 0 then Some m
     else do {
       after_inserted \<leftarrow> get_array_item m array (nat which);
       case after_inserted of
         None \<Rightarrow> map_option snd (add_item_to_array m array newitem)
       | Some b \<Rightarrow> do {
           a \<leftarrow> array;
           x \<leftarrow> newitem;
           m \<leftarrow> put_next m (Some x) (Some b);
           cb \<leftarrow> cells m b;
           m \<leftarrow> put_prev m (Some x) (cell_prev cb);
           m \<leftarrow> put_prev m (Some b) (Some x);
           ca \<leftarrow> cells m a;
           if cell_child ca = Some b then put_child m a (Some x)
           else do { cx \<leftarrow> cells m x; p \<leftarrow> cell_prev cx; put_next m (Some p) (Some x) }
         }
     })"

definition cJSON_ReplaceItemViaPointer ::
  "'d mem \<Rightarrow> nat option \<Rightarrow> nat option \<Rightarrow> nat option \<Rightarrow> (bool \<times> 'd mem) option" where
  "cJSON_ReplaceItemViaPointer m parent item replacement =
    (case (parent, item, replacement) of
       (Some a, Some x, Some r) \<Rightarrow>
         if r = x then Some (True, m)
         else do {
           c \<leftarrow> cells m x;
           m \<leftarrow> put_next m (Some r) (cell_next c);
           c \<leftarrow> cells m x;
           m \<leftarrow> put_prev m (Some r) (cell_prev c);
           cr \<leftarrow> cells m r;
           m \<leftarrow> put_prev m (cell_next cr) (Some r);
           cr \<leftarrow> cells m r;
           m \<leftarrow> put_next m (cell_prev cr) (Some r);
           ca \<leftarrow> cells m a;
           m \<leftarrow> (if cell_child ca = Some x then put_child m a (Some r) else Some m);
           m \<leftarrow> put_next m (Some x) None;
           m \<leftarrow> put_prev m (Some x) None;
           m \<leftarrow> cJSON_Delete m (Some x);
           Some (True, m)
         }
     | _ \<Rightarrow> Some (False, m))"

definition cJSON_ReplaceItemInArray :: "'d mem \<Rightarrow> nat option \<Rightarrow> int \<Rightarrow> nat option \<Rightarrow> 'd mem option" where
  "cJSON_ReplaceItemInArray m array which newitem =
    (if which < 0 then Some m
     else do {
       x \<leftarrow> get_array_item m array (nat which);
       map_option snd (cJSON_ReplaceItemViaPointer m array x newitem)
     })"

text \<open>A failed copy of the name is not noticed, nor is a member that is not there.\<close>

definition replace_item_in_object ::
  "internal_hooks \<Rightarrow> 'd mem \<Rightarrow> nat option \<Rightarrow> bytes option \<Rightarrow> nat option \<Rightarrow> bool \<Rightarrow> (bool \<times> 'd mem) option" where
  "replace_item_in_object h m object string replacement case_sensitive =
    (case (replacement, string) of
       (Some r, Some s) \<Rightarrow> do {
         m \<leftarrow> rename m r (cJSON_strdup h string) (\<lambda>t. t AND NOT cJSON_StringIsConst);
         x \<leftarrow> find_object_item m object string case_sensitive;
         (_, m) \<leftarrow> cJSON_ReplaceItemViaPointer m object x replacement;
         Some (True, m)
       }
     | _ \<Rightarrow> Some (False, m))"

definition cJSON_ReplaceItemInObject ::
  "internal_hooks \<Rightarrow> 'd mem \<Rightarrow> nat option \<Rightarrow> bytes option \<Rightarrow> nat option \<Rightarrow> 'd mem option" where
  "cJSON_ReplaceItemInObject h m object string newitem =
    map_option snd (replace_item_in_object h m object string newitem False)"

definition cJSON_ReplaceItemInObjectCaseSensitive ::
  "internal_hooks \<Rightarrow> 'd mem \<Rightarrow> nat option \<Rightarrow> bytes option \<Rightarrow> nat option \<Rightarrow> 'd mem option" where
  "cJSON_ReplaceItemInObjectCaseSensitive h m object string newitem =
    map_option snd (replace_item_in_object h m object string newitem True)"

end
