(* ===== verification/Cjson_Chain.thy ===== *)
theory Cjson_Chain
  imports Cjson_Heap
begin

text \<open>
  The children of an array as a list of addresses: adding, inserting and detaching items in memory
  are the operations on that list, and they touch no other item.
\<close>

section \<open>Segments\<close>

text \<open>
  From \<open>p\<close> on, the items at \<open>as\<close> are linked in both directions; \<open>q\<close> is the \<open>prev\<close> pointer of the first
  one, \<open>z\<close> the \<open>next\<close> pointer of the last one, and \<open>l\<close> points to the last one.
\<close>

fun seg :: "'d mem \<Rightarrow> nat option \<Rightarrow> nat option \<Rightarrow> nat list \<Rightarrow> nat option \<Rightarrow> nat option \<Rightarrow> bool" where
  "seg m q p [] l z \<longleftrightarrow> l = q \<and> z = p"
| "seg m q p (a # as) l z \<longleftrightarrow>
    p = Some a \<and> (\<exists>c. cells m a = Some c \<and> cell_prev c = q \<and> seg m (Some a) (cell_next c) as l z)"

lemma seg_append:
  "seg m q p (as @ bs) l z \<longleftrightarrow> (\<exists>l' z'. seg m q p as l' z' \<and> seg m l' z' bs l z)"
  by (induction as arbitrary: q p) auto

lemma seg_frame:
  "\<forall>a\<in>set as. cells m' a = cells m a \<Longrightarrow> seg m' q p as l z = seg m q p as l z"
  by (induction as arbitrary: q p) auto

lemma seg_ends:
  "seg m q p as l z \<Longrightarrow> p = (if as = [] then z else Some (hd as)) \<and> l = (if as = [] then q else Some (last as))"
  by (induction as arbitrary: q p) (auto split: if_splits)

lemma seg_cells: "seg m q p as l z \<Longrightarrow> a \<in> set as \<Longrightarrow> cells m a \<noteq> None"
  by (induction as arbitrary: q p) auto

text \<open>What is unchanged by an update of the pointers of one item.\<close>

definition same_but :: "nat set \<Rightarrow> 'd mem \<Rightarrow> 'd mem \<Rightarrow> bool" where
  "same_but A m m' \<longleftrightarrow> (\<forall>a. a \<notin> A \<longrightarrow> cells m' a = cells m a) \<and> brk m' = brk m \<and> freed m' = freed m"

lemma same_but_refl [simp]: "same_but A m m"
  by (simp add: same_but_def)

lemma same_but_trans: "same_but A m m1 \<Longrightarrow> same_but B m1 m2 \<Longrightarrow> same_but (A \<union> B) m m2"
  by (simp add: same_but_def)

lemma same_but_mono: "same_but A m m1 \<Longrightarrow> A \<subseteq> B \<Longrightarrow> same_but B m m1"
  by (auto simp: same_but_def)

lemma same_butD: "same_but A m m' \<Longrightarrow> a \<notin> A \<Longrightarrow> cells m' a = cells m a"
  by (simp add: same_but_def)

lemma seg_same: "same_but A m m' \<Longrightarrow> set as \<inter> A = {} \<Longrightarrow> seg m' q p as l z = seg m q p as l z"
  by (rule seg_frame) (auto simp: same_but_def)

lemma seg_same_rev: "same_but A m m' \<Longrightarrow> A \<inter> set as = {} \<Longrightarrow> seg m' q p as l z = seg m q p as l z"
  by (rule seg_same) auto

lemma seg_keep: "same_but A m m' \<Longrightarrow> seg m q p as l z \<Longrightarrow> set as \<inter> A = {} \<Longrightarrow> seg m' q p as l z"
  by (simp add: seg_same)

lemma put_next_cell:
  "cells m a = Some c \<Longrightarrow>
    put_next m (Some a) v = Some (m\<lparr>cells := (cells m)(a \<mapsto> c\<lparr>cell_next := v\<rparr>)\<rparr>)"
  "cells m a = Some c \<Longrightarrow>
    put_prev m (Some a) v = Some (m\<lparr>cells := (cells m)(a \<mapsto> c\<lparr>cell_prev := v\<rparr>)\<rparr>)"
  "cells m a = Some c \<Longrightarrow>
    put_child m a v = Some (m\<lparr>cells := (cells m)(a \<mapsto> c\<lparr>cell_child := v\<rparr>)\<rparr>)"
  "put_next m None v = Some m" "put_prev m None v = Some m"
  by (simp_all add: put_next_def put_prev_def put_child_def update_cell_def)

text \<open>Only the links of items change, and the children of those in \<open>A\<close>.\<close>

definition kept :: "nat set \<Rightarrow> 'd mem \<Rightarrow> 'd mem \<Rightarrow> bool" where
  "kept A m m' \<longleftrightarrow> (\<forall>a. map_option cell_node (cells m' a) = map_option cell_node (cells m a) \<and>
    (a \<notin> A \<longrightarrow> map_option cell_child (cells m' a) = map_option cell_child (cells m a)))"

lemma kept_refl [simp]: "kept A m m"
  by (simp add: kept_def)

lemma kept_trans: "kept A m m1 \<Longrightarrow> kept A m1 m2 \<Longrightarrow> kept A m m2"
  by (simp add: kept_def)

lemma kept_mono: "kept A m m1 \<Longrightarrow> A \<subseteq> B \<Longrightarrow> kept B m m1"
  by (auto simp: kept_def)

text \<open>Writing the pointer behind a segment, or the one in front of it.\<close>

lemma seg_put_next:
  assumes "seg m q p as l z" "as \<noteq> [] \<or> q = None" "distinct as"
  shows "\<exists>m'. put_next m l v = Some m' \<and> seg m' q (if as = [] then v else p) as l v \<and>
    same_but (set_option l) m m' \<and> kept {} m m'"
proof (cases "as = []")
  case True
  with assms show ?thesis by (auto simp: put_next_cell)
next
  case False
  then obtain bs b where as: "as = bs @ [b]" by (metis append_butlast_last_id)
  with assms(1) obtain l' z' c where s: "seg m q p bs l' z'" "z' = Some b" "l = Some b" "cells m b = Some c" "cell_prev c = l'"
    "cell_next c = z" by (auto simp: seg_append)
  let ?m = "m\<lparr>cells := (cells m)(b \<mapsto> c\<lparr>cell_next := v\<rparr>)\<rparr>"
  have "seg ?m q p bs l' z'" using s(1) assms(3) as by (subst seg_frame [where m = m]) auto
  then have "seg ?m q p as l v" using s by (auto simp: as seg_append)
  with s False show ?thesis by (auto simp: put_next_cell same_but_def kept_def)
qed

lemma seg_put_prev:
  assumes "seg m q p as l z" "as \<noteq> [] \<or> p = None" "distinct as"
  shows "\<exists>m'. put_prev m p v = Some m' \<and> seg m' v p as (if as = [] then v else l) z \<and>
    same_but (set_option p) m m' \<and> kept {} m m'"
proof (cases as)
  case Nil
  with assms show ?thesis by (auto simp: put_next_cell)
next
  case (Cons b bs)
  with assms(1) obtain c where s: "p = Some b" "cells m b = Some c" "cell_prev c = q" "seg m (Some b) (cell_next c) bs l z"
    by auto
  let ?m = "m\<lparr>cells := (cells m)(b \<mapsto> c\<lparr>cell_prev := v\<rparr>)\<rparr>"
  have "seg ?m (Some b) (cell_next c) bs l z" using s(4) assms(3) Cons by (subst seg_frame [where m = m]) auto
  then show ?thesis using s Cons by (auto simp: put_next_cell same_but_def kept_def)
qed

section \<open>Arrays\<close>

definition array_at :: "'d mem \<Rightarrow> nat \<Rightarrow> nat list \<Rightarrow> bool" where
  "array_at m a as \<longleftrightarrow> distinct (a # as) \<and>
    (\<exists>c l. cells m a = Some c \<and> seg m None (cell_child c) as l None)"

text \<open>An item that is in no list.\<close>

definition loose :: "'d mem \<Rightarrow> nat \<Rightarrow> bool" where
  "loose m x \<longleftrightarrow> (\<exists>c. cells m x = Some c \<and> cell_next c = None \<and> cell_prev c = None)"

lemma walk_seg: "seg m q p as l None \<Longrightarrow> walk m p i = Some (if i < length as then Some (as ! i) else None)"
proof (induction as arbitrary: q p i)
  case Nil
  then show ?case by (cases i) simp_all
next
  case (Cons a as)
  then show ?case by (cases i) auto
qed

lemma get_array_item_at:
  "array_at m a as \<Longrightarrow> get_array_item m (Some a) i = Some (if i < length as then Some (as ! i) else None)"
  by (auto simp: array_at_def get_array_item_def walk_seg)

lemma chain_length_seg: "seg m q p as l None \<Longrightarrow> chain_length m p n = Some (n + length as)"
proof (induction as arbitrary: q p n)
  case Nil
  then show ?case by (subst chain_length.simps) simp
next
  case (Cons a as)
  then show ?case by (subst chain_length.simps) auto
qed

lemma GetArraySize_at: "array_at m a as \<Longrightarrow> cJSON_GetArraySize m (Some a) = Some (of_nat (length as))"
  by (auto simp: array_at_def cJSON_GetArraySize_def chain_length_seg)

lemma last_item_seg: "seg m q (Some b) as l None \<Longrightarrow> last_item m b = Some (last as)"
proof (induction as arbitrary: q b)
  case (Cons a as)
  then obtain c where c: "a = b" "cells m b = Some c" "seg m (Some b) (cell_next c) as l None" by auto
  show ?case
  proof (cases "cell_next c")
    case None
    with c have "as = []" by (cases as) auto
    with c None show ?thesis by (subst last_item.simps) simp
  next
    case (Some d)
    with c have "as \<noteq> []" by auto
    with c Some Cons.IH [of "Some b" d] show ?thesis by (subst last_item.simps) simp
  qed
qed simp

text \<open>The outcome of an operation on the children of \<open>a\<close> that moves \<open>x\<close>.\<close>

definition moved_item :: "nat \<Rightarrow> nat \<Rightarrow> nat list \<Rightarrow> nat list \<Rightarrow> 'd mem \<Rightarrow> 'd mem \<Rightarrow> bool" where
  "moved_item a x as bs m m' \<longleftrightarrow> array_at m' a bs \<and> same_but (insert a (insert x (set as))) m m' \<and> kept {a} m m'"

lemma put_child_same:
  assumes "cells m a = Some c"
  shows "\<exists>m'. put_child m a v = Some m' \<and> same_but {a} m m' \<and> kept {a} m m' \<and>
    cells m' a = Some (c\<lparr>cell_child := v\<rparr>)"
  using assms by (auto simp: put_next_cell same_but_def kept_def)

lemma add_item_at:
  assumes "array_at m a as" "loose m x" "x \<notin> set (a # as)"
  shows "\<exists>m'. add_item_to_array m (Some a) (Some x) = Some (True, m') \<and> moved_item a x as (as @ [x]) m m'"
proof -
  obtain c l where c: "cells m a = Some c" "seg m None (cell_child c) as l None" "distinct (a # as)"
    using assms(1) by (auto simp: array_at_def)
  obtain cx where x: "cells m x = Some cx" "cell_next cx = None" "cell_prev cx = None"
    using assms(2) by (auto simp: loose_def)
  show ?thesis
  proof (cases "as = []")
    case True
    with c have n: "cell_child c = None" by simp
    obtain m' where m': "put_child m a (Some x) = Some m'" "same_but {a} m m'" "kept {a} m m'"
      "cells m' a = Some (c\<lparr>cell_child := Some x\<rparr>)" using put_child_same [OF c(1)] by blast
    have "cells m' x = Some cx" using same_butD [OF m'(2), of x] assms(3) x by simp
    with m' n c x assms(3) True show ?thesis
      by (auto simp: add_item_to_array_def moved_item_def array_at_def intro: same_but_mono)
  next
    case False
    then have l: "l = Some (last as)" and ch: "cell_child c = Some (hd as)" using seg_ends [OF c(2)] by auto
    obtain m1 where m1: "put_next m l (Some x) = Some m1" "seg m1 None (cell_child c) as l (Some x)"
      "same_but (set_option l) m m1" "kept {} m m1"
      using seg_put_next [OF c(2), of "Some x"] c(3) False by auto
    have xa: "cells m1 x = Some cx" "cells m1 a = Some c"
      using same_butD [OF m1(3)] x c(1,3) assms(3) l last_in_set [OF False] by (metis list.set_intros elem_set option.inject set_ConsD distinct.simps(2))+
    have "seg m1 None (Some x) [x] (Some x) None" using xa x by simp
    then obtain m2 where m2: "put_prev m1 (Some x) l = Some m2" "seg m2 l (Some x) [x] (Some x) None"
      "same_but {x} m1 m2" "kept {} m1 m2"
      using seg_put_prev [of m1 None "Some x" "[x]" "Some x" None l] by auto
    have "seg m2 None (cell_child c) as l (Some x)" using m1(2) seg_same [OF m2(3)] assms(3) by simp
    then have "seg m2 None (cell_child c) (as @ [x]) (Some x) None" using m2(2) by (auto simp: seg_append)
    moreover have "cells m2 a = Some c" using same_butD [OF m2(3), of a] assms(3) xa by simp
    moreover have "same_but (insert a (insert x (set as))) m m2"
      by (rule same_but_mono [OF same_but_trans [OF m1(3) m2(3)]]) (use l False in auto)
    moreover have "last_item m (hd as) = Some (last as)" using last_item_seg c(2) ch by metis
    moreover have "kept {a} m m2" by (rule kept_mono [OF kept_trans [OF m1(4) m2(4)]]) simp
    ultimately show ?thesis
      using c ch l m1(1) m2(1) assms(3)
      by (auto simp: add_item_to_array_def suffix_object_def moved_item_def array_at_def)
  qed
qed

text \<open>An array around one of its items.\<close>

lemma array_at_split:
  assumes "array_at m a (bs @ x # cs)"
  obtains c cx l q where "cells m a = Some c" "cells m x = Some cx" "cell_prev cx = q"
    "seg m None (cell_child c) bs q (Some x)" "seg m (Some x) (cell_next cx) cs l None"
    "q = (if bs = [] then None else Some (last bs))" "cell_child c = Some (if bs = [] then x else hd bs)"
    "cell_next cx = (if cs = [] then None else Some (hd cs))"
proof -
  obtain c l where c: "cells m a = Some c" "seg m None (cell_child c) (bs @ x # cs) l None"
    using assms by (auto simp: array_at_def)
  then obtain q cx where s: "seg m None (cell_child c) bs q (Some x)" "cells m x = Some cx" "cell_prev cx = q"
    "seg m (Some x) (cell_next cx) cs l None" by (auto simp: seg_append)
  show ?thesis
    by (rule that [OF c(1) s(2,3,1,4)]) (use seg_ends [OF s(1)] seg_ends [OF s(4)] in \<open>auto split: if_splits\<close>)
qed

lemma detach_at:
  assumes "array_at m a (bs @ x # cs)"
  shows "\<exists>m'. cJSON_DetachItemViaPointer m (Some a) (Some x) = Some (Some x, m') \<and>
    moved_item a x (bs @ x # cs) (bs @ cs) m m' \<and> loose m' x"
proof -
  have d: "distinct (a # bs @ x # cs)" using assms by (simp add: array_at_def)
  obtain c cx l q where s: "cells m a = Some c" "cells m x = Some cx" "cell_prev cx = q"
    "seg m None (cell_child c) bs q (Some x)" "seg m (Some x) (cell_next cx) cs l None"
    "q = (if bs = [] then None else Some (last bs))" "cell_child c = Some (if bs = [] then x else hd bs)"
    "cell_next cx = (if cs = [] then None else Some (hd cs))"
    using array_at_split [OF assms] .
  let ?ch = "if bs = [] then cell_next cx else cell_child c"
  obtain m1 where m1: "put_next m q (cell_next cx) = Some m1" "seg m1 None ?ch bs q (cell_next cx)"
    "same_but (set_option q) m m1" "kept {} m m1"
    using seg_put_next [OF s(4), of "cell_next cx"] d s(6) by auto
  have q: "set_option q \<subseteq> set bs" using s(6) by (auto split: if_splits)
  note b1 = same_but_mono [OF m1(3) q]
  have c1: "cells m1 x = Some cx" "cells m1 a = Some c" "seg m1 (Some x) (cell_next cx) cs l None"
    using same_butD [OF b1] d s(1,2,5) seg_same_rev [OF b1, of cs] by auto
  obtain m2 where m2: "put_prev m1 (cell_next cx) q = Some m2" "seg m2 q (cell_next cx) cs (if cs = [] then q else l) None"
    "same_but (set_option (cell_next cx)) m1 m2" "kept {} m1 m2"
    using seg_put_prev [OF c1(3), of q] d s(8) by auto
  have n: "set_option (cell_next cx) \<subseteq> set cs" using s(8) by (auto split: if_splits)
  have c2: "cells m2 x = Some cx" "cells m2 a = Some c" "seg m2 None ?ch bs q (cell_next cx)"
    using same_butD [OF same_but_mono [OF m2(3) n]] d c1 m1(2) seg_same [OF same_but_mono [OF m2(3) n], of bs]
      seg_same_rev [OF same_but_mono [OF m2(3) n], of bs] by auto
  then have s2: "seg m2 None ?ch (bs @ cs) (if cs = [] then q else l) None"
    using m2(2) unfolding seg_append by blast
  obtain m3 where m3: "(if cell_child c = Some x then put_child m2 a (cell_next cx) else Some m2) = Some m3"
    "same_but {a} m2 m3" "kept {a} m2 m3" "cells m3 a = Some (c\<lparr>cell_child := ?ch\<rparr>)"
  proof (cases "bs = []")
    case True
    with put_child_same [OF c2(2), of "cell_next cx"] s(7) that show thesis by auto
  next
    case False
    then have "hd bs \<noteq> x" using d hd_in_set [OF False] by auto
    with False s(7) c2(2) that [of m2] show thesis by simp
  qed
  have x3: "cells m3 x = Some cx" using same_butD [OF m3(2), of x] d c2(1) by auto
  have s3: "seg m3 None ?ch (bs @ cs) (if cs = [] then q else l) None"
    using s2 seg_same [OF m3(2), of "bs @ cs"] d by (metis Int_insert_right_if0 Int_empty_right Un_iff distinct.simps(2) set_append list.set_intros(2))
  define m4 where "m4 = m3\<lparr>cells := (cells m3)(x \<mapsto> cx\<lparr>cell_prev := None, cell_next := None\<rparr>)\<rparr>"
  have m34: "same_but {x} m3 m4" by (simp add: same_but_def m4_def)
  have "set (bs @ cs) \<inter> {x} = {}" using d by auto
  then have "seg m4 None ?ch (bs @ cs) (if cs = [] then q else l) None"
    using s3 seg_same [OF m34] by blast
  moreover have "cells m4 a = Some (c\<lparr>cell_child := ?ch\<rparr>)" using m3(4) d by (simp add: m4_def)
  ultimately have "array_at m4 a (bs @ cs)" using d by (auto simp: array_at_def)
  moreover have "loose m4 x" by (simp add: loose_def m4_def)
  moreover have "cJSON_DetachItemViaPointer m (Some a) (Some x) = Some (Some x, m4)"
    using m1(1) m2(1) m3(1) s(2,3) c1 c2 x3 by (simp add: cJSON_DetachItemViaPointer_def put_next_cell m4_def)
  moreover have "same_but (insert a (insert x (set (bs @ x # cs)))) m m4"
    by (rule same_but_mono [OF same_but_trans [OF same_but_trans [OF same_but_trans [OF m1(3) m2(3)] m3(2)] m34]])
      (use q n in auto)
  moreover have "kept {a} m m4"
  proof -
    have "kept {} m3 m4" using x3 by (simp add: kept_def m4_def)
    with m1(4) m2(4) m3(3) show ?thesis by (meson empty_subsetI kept_mono kept_trans)
  qed
  ultimately show ?thesis by (auto simp: moved_item_def)
qed

text \<open>An item that is put in front of another one: first its own links and the one back to it.\<close>

lemma link_before:
  assumes "seg m None ch bs q (Some b)" "seg m q (Some b) (b # cs) l None" "cells m x = Some cx"
    "distinct (bs @ b # cs)" "x \<notin> set (bs @ b # cs)"
  shows "\<exists>m'. (do { m \<leftarrow> put_next m (Some x) (Some b); cb \<leftarrow> cells m b; m \<leftarrow> put_prev m (Some x) (cell_prev cb);
        put_prev m (Some b) (Some x) }) = Some m' \<and>
    seg m' None ch bs q (Some b) \<and> seg m' q (Some x) (x # b # cs) l None \<and> same_but {x, b} m m' \<and> kept {} m m'"
proof -
  define m2 where "m2 = m\<lparr>cells := (cells m)(x \<mapsto> cx\<lparr>cell_next := Some b, cell_prev := q\<rparr>)\<rparr>"
  have s2: "same_but {x} m m2" "kept {} m m2" using assms(3) by (simp_all add: same_but_def kept_def m2_def)
  have g2: "seg m2 None ch bs q (Some b)" "seg m2 q (Some b) (b # cs) l None"
    by (rule seg_keep [OF s2(1) assms(1)], use assms(5) in simp, rule seg_keep [OF s2(1) assms(2)], use assms(5) in auto)
  obtain m3 where m3: "put_prev m2 (Some b) (Some x) = Some m3" "seg m3 (Some x) (Some b) (b # cs) l None"
    "same_but {b} m2 m3" "kept {} m2 m3"
    using seg_put_prev [OF g2(2), of "Some x"] assms(4) by auto
  obtain cb where cb: "cells m b = Some cb" "cell_prev cb = q" using assms(2) by auto
  have x: "cells m3 x = Some (cx\<lparr>cell_next := Some b, cell_prev := q\<rparr>)"
    using same_butD [OF m3(3), of x] assms(5) by (simp add: m2_def)
  have "seg m3 None ch bs q (Some b)" using g2(1) seg_same [OF m3(3), of bs] assms(4) by auto
  moreover have "seg m3 q (Some x) (x # b # cs) l None" using x m3(2) by simp
  moreover have "same_but {x, b} m m3" using same_but_trans [OF s2(1) m3(3)] by (simp add: insert_commute)
  moreover have "(do { m \<leftarrow> put_next m (Some x) (Some b); cb \<leftarrow> cells m b; m \<leftarrow> put_prev m (Some x) (cell_prev cb);
        put_prev m (Some b) (Some x) }) = Some m3"
    using m3(1) cb assms(3,5) by (simp add: put_next_cell m2_def)
  ultimately show ?thesis using kept_trans [OF s2(2) m3(4)] by blast
qed

lemma insert_at:
  assumes "array_at m a (bs @ b # cs)" "loose m x" "x \<notin> set (a # bs @ b # cs)"
  shows "\<exists>m'. cJSON_InsertItemInArray m (Some a) (int (length bs)) (Some x) = Some m' \<and>
    moved_item a x (bs @ b # cs) (bs @ x # b # cs) m m'"
proof -
  have d: "distinct (a # bs @ b # cs)" using assms(1) by (simp add: array_at_def)
  obtain c cb l q where s: "cells m a = Some c" "cells m b = Some cb" "cell_prev cb = q"
    "seg m None (cell_child c) bs q (Some b)" "seg m (Some b) (cell_next cb) cs l None"
    "q = (if bs = [] then None else Some (last bs))" "cell_child c = Some (if bs = [] then b else hd bs)"
    using array_at_split [OF assms(1)] .
  obtain cx where x: "cells m x = Some cx" using assms(2) by (auto simp: loose_def)
  have g: "get_array_item m (Some a) (length bs) = Some (Some b)"
    using get_array_item_at [OF assms(1), of "length bs"] by simp
  have sb: "seg m q (Some b) (b # cs) l None" using s(2,3,5) by simp
  obtain m3 where m3: "(do { m \<leftarrow> put_next m (Some x) (Some b); cb \<leftarrow> cells m b; m \<leftarrow> put_prev m (Some x) (cell_prev cb);
        put_prev m (Some b) (Some x) }) = Some m3"
    "seg m3 None (cell_child c) bs q (Some b)" "seg m3 q (Some x) (x # b # cs) l None" "same_but {x, b} m m3" "kept {} m m3"
    using link_before [OF s(4) sb x] d assms(3) by auto
  have a3: "cells m3 a = Some c" using same_butD [OF m3(4), of a] d assms(3) s(1) by auto
  obtain cx' where x3: "cells m3 x = Some cx'" "cell_prev cx' = q" using m3(3) by auto
  let ?finish = "if cell_child c = Some b then put_child m3 a (Some x)
    else do { p \<leftarrow> q; put_next m3 (Some p) (Some x) }"
  have op: "cJSON_InsertItemInArray m (Some a) (int (length bs)) (Some x) = ?finish"
    using m3(1) g a3 x3 by (auto simp: cJSON_InsertItemInArray_def bind_eq_Some_conv)
  have "\<exists>m4. ?finish = Some m4 \<and> array_at m4 a (bs @ x # b # cs) \<and> same_but (insert a (set bs)) m3 m4 \<and> kept {a} m3 m4"
  proof (cases "bs = []")
    case True
    obtain m4 where m4: "put_child m3 a (Some x) = Some m4" "same_but {a} m3 m4" "kept {a} m3 m4"
      "cells m4 a = Some (c\<lparr>cell_child := Some x\<rparr>)" using put_child_same [OF a3] by blast
    have "seg m4 q (Some x) (x # b # cs) l None" by (rule seg_keep [OF m4(2) m3(3)]) (use d assms(3) in auto)
    with m4 True s(6,7) d assms(3) show ?thesis by (auto simp: array_at_def)
  next
    case False
    have hd: "hd bs \<noteq> b" using d hd_in_set [OF False] by auto
    obtain m4 where m4: "put_next m3 q (Some x) = Some m4" "seg m4 None (cell_child c) bs q (Some x)"
      "same_but (set_option q) m3 m4" "kept {} m3 m4"
      using seg_put_next [OF m3(2), of "Some x"] d False by auto
    have q: "set_option q \<subseteq> set bs" using s(6) by (auto split: if_splits)
    note b4 = same_but_mono [OF m4(3) q]
    have "seg m4 q (Some x) (x # b # cs) l None"
      by (rule seg_keep [OF b4 m3(3)]) (use d assms(3) in auto)
    then have "seg m4 None (cell_child c) (bs @ x # b # cs) l None" using m4(2) unfolding seg_append by blast
    moreover have "cells m4 a = Some c" using same_butD [OF b4, of a] d a3 by simp
    ultimately have "array_at m4 a (bs @ x # b # cs)" using d assms(3) by (auto simp: array_at_def)
    moreover have "?finish = Some m4" using m4(1) s(6,7) hd False by simp
    ultimately show ?thesis using same_but_mono [OF b4] kept_mono [OF m4(4)] by blast
  qed
  then obtain m4 where m4: "?finish = Some m4" "array_at m4 a (bs @ x # b # cs)" "same_but (insert a (set bs)) m3 m4" "kept {a} m3 m4"
    by blast
  have "same_but (insert a (insert x (set (bs @ b # cs)))) m m4"
    by (rule same_but_mono [OF same_but_trans [OF m3(4) m4(3)]]) auto
  moreover have "kept {a} m m4" using kept_trans [OF kept_mono [OF m3(5)] m4(4)] by simp
  ultimately show ?thesis using op m4 by (auto simp: moved_item_def)
qed

section \<open>Sequences of edits\<close>

text \<open>
  The operations that move whole items, as the code performs them on the array at \<open>a\<close>, and on a list
  with the set of the items that are in no list.
\<close>

datatype edit = Append nat | Insert int nat | DetachAt int | DetachItem nat

fun run_edit :: "nat \<Rightarrow> edit \<Rightarrow> 'd mem \<Rightarrow> 'd mem option" where
  "run_edit a (Append x) m = cJSON_AddItemToArray m (Some a) (Some x)"
| "run_edit a (Insert i x) m = cJSON_InsertItemInArray m (Some a) i (Some x)"
| "run_edit a (DetachAt i) m = map_option snd (cJSON_DetachItemFromArray m (Some a) i)"
| "run_edit a (DetachItem x) m = map_option snd (cJSON_DetachItemViaPointer m (Some a) (Some x))"

fun list_edit :: "edit \<Rightarrow> nat list \<times> nat set \<Rightarrow> (nat list \<times> nat set) option" where
  "list_edit (Append x) (as, L) = (if x \<in> L then Some (as @ [x], L - {x}) else None)"
| "list_edit (Insert i x) (as, L) =
    (if i < 0 then Some (as, L)
     else if x \<in> L then Some (take (nat i) as @ [x] @ drop (nat i) as, L - {x}) else None)"
| "list_edit (DetachAt i) (as, L) =
    (if i < 0 \<or> length as \<le> nat i then Some (as, L)
     else Some (take (nat i) as @ drop (Suc (nat i)) as, insert (as ! nat i) L))"
| "list_edit (DetachItem x) (as, L) = (if x \<in> set as then Some (remove1 x as, insert x L) else None)"

fun run_edits :: "nat \<Rightarrow> edit list \<Rightarrow> 'd mem \<Rightarrow> 'd mem option" where
  "run_edits a [] m = Some m"
| "run_edits a (e # es) m = do { m \<leftarrow> run_edit a e m; run_edits a es m }"

fun list_edits :: "edit list \<Rightarrow> nat list \<times> nat set \<Rightarrow> (nat list \<times> nat set) option" where
  "list_edits [] s = Some s"
| "list_edits (e # es) s = do { s \<leftarrow> list_edit e s; list_edits es s }"

fun edit_inv :: "'d mem \<Rightarrow> nat \<Rightarrow> nat list \<times> nat set \<Rightarrow> bool" where
  "edit_inv m a (as, L) \<longleftrightarrow> array_at m a as \<and> (\<forall>x\<in>L. loose m x) \<and> set (a # as) \<inter> L = {}"

text \<open>All that an edit may touch, before and after it.\<close>

fun touched :: "nat \<Rightarrow> nat list \<times> nat set \<Rightarrow> nat set" where
  "touched a (as, L) = insert a (set as \<union> L)"

lemma loose_same: "same_but A m m' \<Longrightarrow> x \<notin> A \<Longrightarrow> loose m x \<Longrightarrow> loose m' x"
  by (simp add: loose_def same_but_def)

lemma moved_from:
  assumes "edit_inv m a (as, L)" "moved_item a x as bs m m'" "x \<in> L" "set bs = insert x (set as)"
  shows "edit_inv m' a (bs, L - {x}) \<and> same_but (touched a (as, L)) m m' \<and> kept {a} m m' \<and>
    touched a (bs, L - {x}) = touched a (as, L)"
proof -
  have s: "same_but (insert a (insert x (set as))) m m'" and k: "kept {a} m m'" "array_at m' a bs"
    using assms(2) by (simp_all add: moved_item_def)
  have "loose m' y" if "y \<in> L - {x}" for y
    by (rule loose_same [OF s]) (use that assms(1) in auto)
  moreover have "same_but (touched a (as, L)) m m'" by (rule same_but_mono [OF s]) (use assms(3) in auto)
  ultimately show ?thesis using k assms by auto
qed

lemma moved_to:
  assumes "edit_inv m a (as, L)" "moved_item a x as bs m m'" "loose m' x" "x \<in> set as" "set bs = set as - {x}"
  shows "edit_inv m' a (bs, insert x L) \<and> same_but (touched a (as, L)) m m' \<and> kept {a} m m' \<and>
    touched a (bs, insert x L) = touched a (as, L)"
proof -
  have s: "same_but (insert a (insert x (set as))) m m'" and k: "kept {a} m m'" "array_at m' a bs"
    using assms(2) by (simp_all add: moved_item_def)
  have "loose m' y" if "y \<in> L" for y
    by (rule loose_same [OF s]) (use that assms(1,4) in auto)
  moreover have "same_but (touched a (as, L)) m m'" by (rule same_but_mono [OF s]) (use assms(4) in auto)
  moreover have "a \<noteq> x" using assms(1,4) by (auto simp: array_at_def)
  ultimately show ?thesis using k assms by auto
qed

text \<open>What an edit has to do in memory, and each of the four edits.\<close>

definition edit_done :: "'d mem \<Rightarrow> nat \<Rightarrow> nat list \<times> nat set \<Rightarrow> nat list \<times> nat set \<Rightarrow> 'd mem option \<Rightarrow> bool" where
  "edit_done m a s s' r \<longleftrightarrow> (\<exists>m'. r = Some m' \<and> edit_inv m' a s' \<and> same_but (touched a s) m m' \<and> kept {a} m m' \<and>
    touched a s' = touched a s)"

lemma append_done:
  assumes "edit_inv m a (as, L)" "x \<in> L"
  shows "\<exists>m'. add_item_to_array m (Some a) (Some x) = Some (True, m') \<and> moved_item a x as (as @ [x]) m m'"
  using add_item_at [of m a as x] assms by auto

lemma insert_done:
  assumes inv: "edit_inv m a (as, L)" and x: "x \<in> L" and i: "\<not> i < 0"
  shows "edit_done m a (as, L) (take (nat i) as @ [x] @ drop (nat i) as, L - {x})
    (cJSON_InsertItemInArray m (Some a) i (Some x))"
proof -
  have at: "array_at m a as" using inv by simp
  have mv: "\<exists>m'. cJSON_InsertItemInArray m (Some a) i (Some x) = Some m' \<and>
    moved_item a x as (take (nat i) as @ [x] @ drop (nat i) as) m m'"
  proof (cases "nat i < length as")
    case True
    then have e: "as = take (nat i) as @ as ! nat i # drop (Suc (nat i)) as" by (rule id_take_nth_drop)
    have "i = int (length (take (nat i) as))" using True i by simp
    with insert_at [of m a "take (nat i) as" "as ! nat i" "drop (Suc (nat i)) as" x] e x inv show ?thesis
      by (simp add: Cons_nth_drop_Suc [OF True] disjoint_iff) (metis (no_types, lifting) Cons_nth_drop_Suc True)
  next
    case False
    with get_array_item_at [OF at, of "nat i"] append_done [OF inv x] i show ?thesis
      by (auto simp: cJSON_InsertItemInArray_def)
  qed
  have "set (take (nat i) as @ [x] @ drop (nat i) as) = insert x (set as)"
    using set_append [of "take (nat i) as" "drop (nat i) as"] unfolding append_take_drop_id by auto
  with mv moved_from [OF inv _ x] show ?thesis by (auto simp: edit_done_def simp del: edit_inv.simps)
qed

lemma detach_done:
  assumes inv: "edit_inv m a (as, L)" and e: "as = bs @ x # cs"
  shows "\<exists>m'. cJSON_DetachItemViaPointer m (Some a) (Some x) = Some (Some x, m') \<and>
    edit_inv m' a (bs @ cs, insert x L) \<and> same_but (touched a (as, L)) m m' \<and> kept {a} m m' \<and>
    touched a (bs @ cs, insert x L) = touched a (as, L)"
proof -
  have at: "array_at m a (bs @ x # cs)" and d: "distinct (a # as)" using inv e by (auto simp: array_at_def)
  obtain m' where m': "cJSON_DetachItemViaPointer m (Some a) (Some x) = Some (Some x, m')"
    "moved_item a x as (bs @ cs) m m'" "loose m' x"
    using detach_at [OF at] e by blast
  have "x \<in> set as" "set (bs @ cs) = set as - {x}" using d e by auto
  from moved_to [OF inv m'(2,3) this] m'(1) show ?thesis by blast
qed

lemma edit_refines:
  assumes inv: "edit_inv m a s" and edit: "list_edit e s = Some s'"
  shows "edit_done m a s s' (run_edit a e m)"
proof -
  obtain as L where s: "s = (as, L)" by (cases s)
  note inv' = inv [unfolded s]
  have at: "array_at m a as" using inv' by simp
  show ?thesis
  proof (cases e)
    case (Append x)
    then have x: "x \<in> L" "s' = (as @ [x], L - {x})" using edit by (auto simp: s split: if_splits)
    with append_done [OF inv' x(1)] moved_from [OF inv' _ x(1), of "as @ [x]"] Append show ?thesis
      by (auto simp: s edit_done_def cJSON_AddItemToArray_def simp del: edit_inv.simps)
  next
    case (Insert i x)
    show ?thesis
    proof (cases "i < 0")
      case True
      then show ?thesis
        using Insert inv edit by (auto simp: s edit_done_def cJSON_InsertItemInArray_def simp del: edit_inv.simps)
    next
      case False
      then have "x \<in> L" "s' = (take (nat i) as @ [x] @ drop (nat i) as, L - {x})"
        using Insert edit by (auto simp: s split: if_splits)
      with insert_done [OF inv' _ False] Insert show ?thesis by (simp add: s del: edit_inv.simps)
    qed
  next
    case (DetachAt i)
    show ?thesis
    proof (cases "i < 0 \<or> length as \<le> nat i")
      case True
      with get_array_item_at [OF at, of "nat i"] DetachAt inv edit show ?thesis
        by (auto simp: s edit_done_def cJSON_DetachItemFromArray_def cJSON_DetachItemViaPointer_def simp del: edit_inv.simps)
    next
      case False
      then have e: "as = take (nat i) as @ as ! nat i # drop (Suc (nat i)) as" by (intro id_take_nth_drop) simp
      have "s' = (take (nat i) as @ drop (Suc (nat i)) as, insert (as ! nat i) L)"
        using DetachAt edit False by (simp add: s)
      with detach_done [OF inv' e] get_array_item_at [OF at, of "nat i"] False DetachAt show ?thesis
        by (auto simp: s edit_done_def cJSON_DetachItemFromArray_def simp del: edit_inv.simps)
    qed
  next
    case (DetachItem x)
    then have x: "x \<in> set as" "s' = (remove1 x as, insert x L)" using edit by (auto simp: s split: if_splits)
    then obtain bs cs where e: "as = bs @ x # cs" "x \<notin> set bs" by (meson split_list_first)
    then have "remove1 x as = bs @ cs" by (simp add: remove1_append)
    with detach_done [OF inv' e(1)] DetachItem x(2) show ?thesis
      by (auto simp: s edit_done_def simp del: edit_inv.simps)
  qed
qed

lemma edits_refine:
  assumes "edit_inv m a s" "list_edits es s = Some s'"
  shows "\<exists>m'. run_edits a es m = Some m' \<and> edit_inv m' a s' \<and> same_but (touched a s) m m' \<and> kept {a} m m'"
  using assms
proof (induction es arbitrary: m s)
  case (Cons e es)
  then obtain s1 where s1: "list_edit e s = Some s1" "list_edits es s1 = Some s'" by (auto simp: bind_eq_Some_conv)
  obtain m1 where m1: "run_edit a e m = Some m1" "edit_inv m1 a s1" "same_but (touched a s) m m1" "kept {a} m m1"
    "touched a s1 = touched a s"
    using edit_refines [OF Cons.prems(1) s1(1)] unfolding edit_done_def by blast
  obtain m2 where m2: "run_edits a es m1 = Some m2" "edit_inv m2 a s'" "same_but (touched a s1) m1 m2" "kept {a} m1 m2"
    using Cons.IH [OF m1(2) s1(2)] by blast
  have "same_but (touched a s) m m2" using same_but_trans [OF m1(3) m2(3)] m1(5) by simp
  with m1 m2 kept_trans [OF m1(4) m2(4)] show ?case by auto
qed auto

end
