(* ===== verification/Cjson_Free.thy ===== *)
theory Cjson_Free
  imports Cjson_Chain
begin

text \<open>
  Deletion: the items that hang together in memory as a forest are freed, each of them once, with the
  strings that they own, and nothing else is.
\<close>

section \<open>Forests in memory\<close>

text \<open>
  The items from \<open>p\<close> on, as trees, and the addresses of their structs.  The children of a reference belong
  to another item.
\<close>

inductive forest :: "'d mem \<Rightarrow> nat option \<Rightarrow> 'd cJSON list \<Rightarrow> nat list \<Rightarrow> bool" for m where
  forest_empty: "forest m None [] []"
| forest_own: "cells m a = Some c \<Longrightarrow> \<not> is_reference (cell_node c) \<Longrightarrow> forest m (cell_child c) ts fs \<Longrightarrow>
    forest m (cell_next c) us gs \<Longrightarrow> forest m (Some a) (CJSON (cell_node c) ts # us) (a # fs @ gs)"
| forest_reference: "cells m a = Some c \<Longrightarrow> is_reference (cell_node c) \<Longrightarrow>
    forest m (cell_next c) us gs \<Longrightarrow> forest m (Some a) (CJSON (cell_node c) [] # us) (a # gs)"

inductive_cases forest_NoneE: "forest m None ts fs"
inductive_cases forest_SomeE: "forest m (Some a) ts fs"

definition owned_string :: "bool \<Rightarrow> bytes option \<Rightarrow> bytes list" where
  "owned_string own s = (case s of None \<Rightarrow> [] | Some s \<Rightarrow> if own then [s] else [])"

fun owned :: "'d cJSON \<Rightarrow> bytes list" where
  "owned (CJSON n ts) =
    concat (map owned ts) @ owned_string (\<not> is_reference n) (valuestring n) @ owned_string (\<not> const_name n) (jstring n)"

definition freed_all :: "nat set \<Rightarrow> bytes list \<Rightarrow> 'd mem \<Rightarrow> 'd mem \<Rightarrow> bool" where
  "freed_all A ss m m' \<longleftrightarrow>
    cells m' = (\<lambda>a. if a \<in> A then None else cells m a) \<and> freed m' = freed m @ ss \<and> brk m' = brk m"

lemma freed_all_refl [simp]: "freed_all {} [] m m"
  by (simp add: freed_all_def)

lemma freed_all_trans: "freed_all A s m m1 \<Longrightarrow> freed_all B t m1 m2 \<Longrightarrow> freed_all (A \<union> B) (s @ t) m m2"
  by (auto simp: freed_all_def)

lemma free_string_owned:
  "cells (if b then free_string s m else m) = cells m" "brk (if b then free_string s m else m) = brk m"
  "freed (if b then free_string s m else m) = freed m @ owned_string b s"
  by (auto simp: free_string_def owned_string_def split: option.split)

lemma free_item_freed:
  assumes "cells m a = Some c"
  shows "\<exists>m'. free_item m a = Some m' \<and>
    freed_all {a} (owned_string (\<not> is_reference (cell_node c)) (valuestring (cell_node c)) @
      owned_string (\<not> const_name (cell_node c)) (jstring (cell_node c))) m m'"
  using assms
  by (auto simp: free_item_def Let_def free_cell_def freed_all_def free_string_owned simp del: if_split)

lemma Delete_None: "cJSON_Delete m None = Some m"
  by (subst cJSON_Delete.simps) simp

lemma Delete_Some:
  assumes "cells m a = Some c"
  shows "cJSON_Delete m (Some a) = do {
      m \<leftarrow> (if is_reference (cell_node c) then Some m else cJSON_Delete m (cell_child c));
      m \<leftarrow> free_item m a;
      cJSON_Delete m (cell_next c) }"
  using assms by (subst cJSON_Delete.simps) (auto simp: Delete_None)

text \<open>Freeing is possible in every memory that agrees on the forest.\<close>

lemma Delete_freed:
  "forest m p ts fs \<Longrightarrow> distinct fs \<Longrightarrow> \<forall>a\<in>set fs. cells m1 a = cells m a \<Longrightarrow>
    \<exists>m'. cJSON_Delete m1 p = Some m' \<and> freed_all (set fs) (concat (map owned ts)) m1 m'"
proof (induction arbitrary: m1 rule: forest.induct)
  case forest_empty
  then show ?case by (simp add: Delete_None)
next
  case (forest_own a c ts fs us gs)
  have c: "cells m1 a = Some c" using forest_own.hyps(1) forest_own.prems(2) by simp
  obtain m2 where m2: "cJSON_Delete m1 (cell_child c) = Some m2" "freed_all (set fs) (concat (map owned ts)) m1 m2"
    using forest_own.IH(1) [of m1] forest_own.prems by auto
  then have "cells m2 a = Some c" using c forest_own.prems(1) by (auto simp: freed_all_def)
  then obtain m3 where m3: "free_item m2 a = Some m3"
    "freed_all {a} (owned_string (\<not> is_reference (cell_node c)) (valuestring (cell_node c)) @
      owned_string (\<not> const_name (cell_node c)) (jstring (cell_node c))) m2 m3"
    using free_item_freed by blast
  note f3 = freed_all_trans [OF m2(2) m3(2)]
  have "\<forall>b\<in>set gs. cells m3 b = cells m b"
    using f3 forest_own.prems by (auto simp: freed_all_def)
  then obtain m4 where m4: "cJSON_Delete m3 (cell_next c) = Some m4" "freed_all (set gs) (concat (map owned us)) m3 m4"
    using forest_own.IH(2) [of m3] forest_own.prems(1) by auto
  show ?case
    using freed_all_trans [OF f3 m4(2)] m2(1) m3(1) m4(1) forest_own.hyps(2)
    by (simp add: Delete_Some [OF c] Un_assoc insert_commute)
next
  case (forest_reference a c us gs)
  have c: "cells m1 a = Some c" using forest_reference.hyps(1) forest_reference.prems(2) by simp
  obtain m3 where m3: "free_item m1 a = Some m3"
    "freed_all {a} (owned_string (\<not> is_reference (cell_node c)) (valuestring (cell_node c)) @
      owned_string (\<not> const_name (cell_node c)) (jstring (cell_node c))) m1 m3"
    using free_item_freed [OF c] by blast
  have "\<forall>b\<in>set gs. cells m3 b = cells m b"
    using m3(2) forest_reference.prems by (auto simp: freed_all_def)
  then obtain m4 where m4: "cJSON_Delete m3 (cell_next c) = Some m4" "freed_all (set gs) (concat (map owned us)) m3 m4"
    using forest_reference.IH [of m3] forest_reference.prems(1) by auto
  show ?case
    using freed_all_trans [OF m3(2) m4(2)] m3(1) m4(1) forest_reference.hyps(2)
    by (simp add: Delete_Some [OF c])
qed

section \<open>Deleting an item of an array\<close>

lemma forest_frame: "forest m p ts fs \<Longrightarrow> \<forall>a\<in>set fs. cells m' a = cells m a \<Longrightarrow> forest m' p ts fs"
proof (induction rule: forest.induct)
  case (forest_own a c ts fs us gs)
  then show ?case by (auto intro!: forest.forest_own)
next
  case (forest_reference a c us gs)
  then show ?case by (auto intro!: forest.forest_reference)
qed (simp add: forest_empty)

lemma delete_item_at:
  assumes "array_at m a (bs @ x # cs)" "cells m x = Some c" "\<not> is_reference (cell_node c)"
    and "forest m (cell_child c) ts fs" "distinct fs" "set (a # bs @ x # cs) \<inter> set fs = {}"
  shows "\<exists>m'. cJSON_DeleteItemFromArray m (Some a) (int (length bs)) = Some m' \<and> array_at m' a (bs @ cs) \<and>
    freed m' = freed m @ owned (CJSON (cell_node c) ts) \<and> (\<forall>y\<in>set (x # fs). cells m' y = None) \<and>
    same_but (set (a # bs @ x # cs @ fs)) m (m'\<lparr>freed := freed m\<rparr>)"
proof -
  obtain m1 where m1: "cJSON_DetachItemViaPointer m (Some a) (Some x) = Some (Some x, m1)"
    "moved_item a x (bs @ x # cs) (bs @ cs) m m1" "loose m1 x" using detach_at [OF assms(1)] by blast
  then have s: "same_but (insert a (insert x (set (bs @ x # cs)))) m m1" and k: "kept {a} m m1"
    and at: "array_at m1 a (bs @ cs)" by (simp_all add: moved_item_def)
  have xa: "x \<noteq> a" "x \<notin> set fs" "distinct (x # fs)" "set (a # bs @ cs) \<inter> set (x # fs) = {}"
    using assms(1,5,6) by (auto simp: array_at_def)
  have out: "b \<notin> insert a (insert x (set (bs @ x # cs)))" if "b \<in> set fs" for b
    using assms(6) that unfolding disjoint_iff by auto
  obtain c1 where c1: "cells m1 x = Some c1" "cell_next c1 = None" using m1(3) by (auto simp: loose_def)
  have kc: "map_option cell_node (cells m1 x) = map_option cell_node (cells m x)"
    "map_option cell_child (cells m1 x) = map_option cell_child (cells m x)"
    using k xa(1) unfolding kept_def by auto
  have n: "cell_node c1 = cell_node c" "cell_child c1 = cell_child c" using kc c1(1) assms(2) by simp_all
  have "forest m1 (cell_child c) ts fs"
    by (rule forest_frame [OF assms(4)]) (use same_butD [OF s] out in blast)
  then have f: "forest m1 (Some x) [CJSON (cell_node c) ts] (x # fs @ [])"
    using forest.forest_own [OF c1(1)] c1(2) n assms(3) forest_empty by metis
  obtain m2 where m2: "cJSON_Delete m1 (Some x) = Some m2"
    "freed_all (set (x # fs)) (owned (CJSON (cell_node c) ts)) m1 m2"
    using Delete_freed [OF f, of m1] xa(3) by auto
  have keep: "cells m2 b = cells m1 b" if "b \<notin> set (x # fs)" for b
    using m2(2) that by (simp add: freed_all_def)
  obtain ca l where ca: "cells m1 a = Some ca" "seg m1 None (cell_child ca) (bs @ cs) l None" "distinct (a # bs @ cs)"
    using at by (auto simp: array_at_def)
  have "\<forall>b\<in>set (bs @ cs). cells m2 b = cells m1 b" using keep xa(4) by (metis IntI empty_iff list.set_intros(2))
  then have "seg m2 None (cell_child ca) (bs @ cs) l None" using ca(2) seg_frame by metis
  moreover have "cells m2 a = Some ca" using ca(1) keep xa(4) by auto
  ultimately have "array_at m2 a (bs @ cs)" using ca(3) unfolding array_at_def by blast
  moreover have "cJSON_DeleteItemFromArray m (Some a) (int (length bs)) = Some m2"
    using get_array_item_at [OF assms(1), of "length bs"] m1(1) m2(1)
    by (simp add: cJSON_DeleteItemFromArray_def cJSON_DetachItemFromArray_def)
  moreover have "freed m2 = freed m @ owned (CJSON (cell_node c) ts)" "\<forall>y\<in>set (x # fs). cells m2 y = None"
    using m2(2) s by (auto simp: freed_all_def same_but_def)
  moreover have "same_but (set (a # bs @ x # cs @ fs)) m (m2\<lparr>freed := freed m\<rparr>)"
    using s m2(2) by (auto simp: freed_all_def same_but_def)
  ultimately show ?thesis by blast
qed

section \<open>Properties\<close>

text \<open>
  C34 (moving items refines list operations).  Any sequence of calls of \<open>cJSON_AddItemToArray\<close>,
  \<open>cJSON_InsertItemInArray\<close>, \<open>cJSON_DetachItemFromArray\<close> and \<open>cJSON_DetachItemViaPointer\<close> on an array, with
  items that are free to be added, ends, follows no bad pointer, and does to the children of the array what the
  list operations do to a list: both directions of the links are right, \<open>cJSON_GetArraySize\<close> is the length, the
  array, its children and the free items are all that is written to, and neither the contents of an item nor its
  own children change.
\<close>

theorem cJSON_array_edits_refine:
  assumes "edit_inv m a s" "list_edits es s = Some s'"
  shows "\<exists>m'. run_edits a es m = Some m' \<and> edit_inv m' a s' \<and>
    cJSON_GetArraySize m' (Some a) = Some (of_nat (length (fst s'))) \<and>
    same_but (touched a s) m m' \<and> kept {a} m m'"
  using edits_refine [OF assms] by (cases s') (auto simp: GetArraySize_at)

text \<open>An array at 0 with two children, and a free item.\<close>

definition linked :: "nat option \<Rightarrow> nat option \<Rightarrow> nat option \<Rightarrow> unit cell" where
  "linked n p ch = \<lparr>cell_next = n, cell_prev = p, cell_child = ch,
    cell_node = \<lparr>jtype = cJSON_Array, valuestring = Some [120], valueint = 0, valuedouble = (), jstring = None, lineno = 0\<rparr>\<rparr>"

definition four_items :: "unit mem" where
  "four_items = \<lparr>cells = [0 \<mapsto> linked None None (Some 1), 1 \<mapsto> linked (Some 2) None None, 2 \<mapsto> linked None (Some 1) None,
    3 \<mapsto> linked None None None], brk = 4, freed = []\<rparr>"

lemma four_items_inv: "edit_inv four_items 0 ([1, 2], {3})"
  by (auto simp: four_items_def linked_def array_at_def loose_def)

theorem cJSON_array_edits_refine_witness:
  "\<exists>m'. run_edits 0 [Insert 1 3, DetachAt 0, DetachItem 2, Append 1] four_items = Some m' \<and> edit_inv m' 0 ([3, 1], {2}) \<and>
    cJSON_GetArraySize m' (Some 0) = Some (of_nat (length (fst ([3, 1 :: nat], {2 :: nat})))) \<and>
    same_but (touched 0 ([1, 2], {3})) four_items m' \<and> kept {0} four_items m'"
  by (rule cJSON_array_edits_refine [OF four_items_inv]) auto

text \<open>
  C35 (deletion frees all and only).  \<open>cJSON_Delete\<close> on items that hang together as a forest, no struct twice,
  ends, follows no pointer to an item that it has freed already, frees every struct of the forest and no other, and
  gives to \<open>deallocate\<close> exactly the strings that the items own: no constant names, and nothing of a
  reference.
\<close>

theorem cJSON_Delete_frees_forest:
  assumes "forest m p ts fs" "distinct fs"
  shows "\<exists>m'. cJSON_Delete m p = Some m' \<and> cells m' = (\<lambda>a. if a \<in> set fs then None else cells m a) \<and>
    freed m' = freed m @ concat (map owned ts)"
  using Delete_freed [OF assms, of m] by (auto simp: freed_all_def)

lemma four_items_forest:
  "\<exists>ts. forest four_items (Some 0) ts [0, 1, 2] \<and> concat (map owned ts) = [[120], [120], [120]]"
proof -
  let ?n = "cell_node (linked None None None)"
  have own: "\<not> is_reference ?n" "\<not> const_name ?n"
    by (simp_all add: linked_def is_reference_def const_name_def cJSON_Array_def cJSON_IsReference_def cJSON_StringIsConst_def)
  have c: "cells four_items 0 = Some (linked None None (Some 1))" "cells four_items 1 = Some (linked (Some 2) None None)"
    "cells four_items 2 = Some (linked None (Some 1) None)" by (simp_all add: four_items_def)
  have "forest four_items (Some 2) [CJSON ?n []] ([2] @ [] @ [])"
    using forest_own [OF c(3), of "[]" "[]" "[]" "[]"] own by (simp add: linked_def forest_empty)
  then have "forest four_items (Some 1) [CJSON ?n [], CJSON ?n []] [1, 2]"
    using forest_own [OF c(2), of "[]" "[]"] own by (simp add: linked_def forest_empty)
  then have "forest four_items (Some 0) [CJSON ?n [CJSON ?n [], CJSON ?n []]] [0, 1, 2]"
    using forest_own [OF c(1), of _ _ "[]" "[]"] own by (simp add: linked_def forest_empty)
  moreover have "concat (map owned [CJSON ?n [CJSON ?n [], CJSON ?n []]]) = [[120], [120], [120]]"
    using own by (simp add: owned_string_def) (simp add: linked_def)
  ultimately show ?thesis by blast
qed

theorem cJSON_Delete_frees_forest_witness:
  "\<exists>m'. cJSON_Delete four_items (Some 0) = Some m' \<and> cells m' = [3 \<mapsto> linked None None None] \<and> freed m' = [[120], [120], [120]]"
proof -
  obtain ts where ts: "forest four_items (Some 0) ts [0, 1, 2]" "concat (map owned ts) = [[120], [120], [120]]"
    using four_items_forest by blast
  have "(\<lambda>a. if a \<in> set [0, 1, 2] then None else cells four_items a) = [3 \<mapsto> linked None None None]"
    by (auto simp: four_items_def fun_eq_iff)
  with cJSON_Delete_frees_forest [OF ts(1)] ts(2) show ?thesis by (simp add: four_items_def)
qed

text \<open>
  \<open>replace_item_in_object\<close> reports success when there is no member of that name, although the new item has
  been given the name and is attached to nothing.
\<close>

lemma replace_item_not_found:
  assumes "rename m r (cJSON_strdup h (Some s)) (\<lambda>t. t AND NOT cJSON_StringIsConst) = Some m1"
    and "find_object_item m1 object (Some s) cs = Some None"
  shows "replace_item_in_object h m object (Some s) (Some r) cs = Some (True, m1)"
  using assms by (simp add: replace_item_in_object_def cJSON_ReplaceItemViaPointer_def split: option.split)

end
