(* ===== verification/Hash_Table.thy ===== *)
theory Hash_Table
  imports Prelude "HOL-Library.Multiset"
begin

text \<open>
  What the two hash tables of \<open>C/hash\<close> have in common: an insertion either adds its entry, and
  nothing else happens, or refuses it and changes nothing.  A program that inserts one entry after
  the other then has exactly the entries that were not refused.
\<close>

text \<open>The loops of the two \<open>main\<close> functions, which insert an array of entries; the results are listed.\<close>

fun insert_seq :: "('s \<Rightarrow> 'e \<Rightarrow> (int \<times> 's) option) \<Rightarrow> 's \<Rightarrow> 'e list \<Rightarrow> (int list \<times> 's) option" where
  "insert_seq ins t [] = Some ([], t)"
| "insert_seq ins t (e # es) =
    (case ins t e of None \<Rightarrow> None
     | Some (r, t') \<Rightarrow> map_option (map_prod (Cons r) id) (insert_seq ins t' es))"

definition accepted :: "int list \<Rightarrow> 'e list \<Rightarrow> 'e list" where
  "accepted rs es = map fst (filter (\<lambda>(e, r). r = 1) (zip es rs))"

lemma accepted_simps [simp]:
  "accepted [] [] = []"
  "accepted (r # rs) (e # es) = (if r = 1 then e # accepted rs es else accepted rs es)"
  by (simp_all add: accepted_def)

locale entry_table =
  fixes ins :: "'s \<Rightarrow> 'e \<Rightarrow> (int \<times> 's) option"
    and ok :: "'s \<Rightarrow> bool"
    and valid :: "'e \<Rightarrow> bool"
    and entries :: "'s \<Rightarrow> 'v multiset"
    and stored :: "'e \<Rightarrow> 'v"
  assumes ins: "ok t \<Longrightarrow> valid e \<Longrightarrow>
    \<exists>r t'. ins t e = Some (r, t') \<and> ok t' \<and>
      (r = 1 \<and> entries t' = add_mset (stored e) (entries t) \<or> r = 0 \<and> t' = t)"
begin

lemma insert_all:
  "ok t \<Longrightarrow> \<forall>e\<in>set es. valid e \<Longrightarrow>
    \<exists>rs t'. insert_seq ins t es = Some (rs, t') \<and> ok t' \<and> length rs = length es \<and> set rs \<subseteq> {0, 1} \<and>
      entries t' = entries t + mset (map stored (accepted rs es))"
proof (induction es arbitrary: t)
  case (Cons e es)
  from ins [of t e] Cons.prems obtain r t1 where t1: "ins t e = Some (r, t1)" "ok t1"
    and r: "r = 1 \<and> entries t1 = add_mset (stored e) (entries t) \<or> r = 0 \<and> t1 = t"
    by auto
  from Cons.IH [OF t1(2)] Cons.prems(2) obtain rs t' where
    "insert_seq ins t1 es = Some (rs, t')" "ok t'" "length rs = length es" "set rs \<subseteq> {0, 1}"
    "entries t' = entries t1 + mset (map stored (accepted rs es))"
    by auto
  with t1(1) r show ?case by auto
qed simp

end

end
