(* ===== verification/Cuckoo_Hash.thy ===== *)
theory Cuckoo_Hash
  imports Hash_Table
begin

text \<open>
  The hash table of \<open>C/hash/cuckoohash/cuckoohash.c\<close>: two arrays, a hash function for each, and an
  insertion that moves entries back and forth between the arrays to make room.  \<open>None\<close> is an access
  outside of an array, through a null pointer, or a division by zero.  Keys and sizes are integers;
  no operation can make them overflow.
\<close>

section \<open>Sizes\<close>

text \<open>\<open>isPrime\<close>: the bound \<open>i <= sqrt(value)\<close> is \<open>i * i \<le> value\<close>.\<close>

function prime_loop :: "int \<Rightarrow> int \<Rightarrow> bool" where
  "prime_loop v i =
    (if 2 \<le> i \<and> i * i \<le> v then if cmod v i = 0 then False else prime_loop v (i + 1) else True)"
  by pat_completeness auto

termination
proof (relation "measure (\<lambda>(v, i). nat (v + 1 - i))")
  fix v i :: int
  assume "2 \<le> i \<and> i * i \<le> v"
  moreover from this have "i * 1 \<le> i * i" by (intro mult_left_mono) auto
  ultimately have "i \<le> v" by linarith
  then show "((v, i + 1), v, i) \<in> measure (\<lambda>(v, i). nat (v + 1 - i))" by simp
qed simp

declare prime_loop.simps [simp del]

definition isPrime :: "int \<Rightarrow> bool" where
  "isPrime v = (if v \<le> 0 then False else prime_loop v 2)"

lemma prime_loop_iff:
  assumes "0 < v" "2 \<le> i"
  shows "prime_loop v i \<longleftrightarrow> (\<forall>d\<ge>i. d * d \<le> v \<longrightarrow> \<not> d dvd v)"
  using assms
proof (induction v i rule: prime_loop.induct)
  case (1 v i)
  show ?case
  proof (cases "i * i \<le> v")
    case True
    have dvd: "cmod v i = 0 \<longleftrightarrow> i dvd v" using 1(2,3) by (simp add: dvd_eq_mod_eq_0)
    show ?thesis
    proof (cases "i dvd v")
      case True
      with dvd \<open>i * i \<le> v\<close> 1(3) show ?thesis by (subst prime_loop.simps) auto
    next
      case False
      have "prime_loop v i = prime_loop v (i + 1)"
        using False dvd True 1(3) by (subst prime_loop.simps) simp
      also have "\<dots> \<longleftrightarrow> (\<forall>d\<ge>i + 1. d * d \<le> v \<longrightarrow> \<not> d dvd v)"
        using 1(1) [OF _ _ 1(2)] True False dvd 1(3) by simp
      also have "\<dots> \<longleftrightarrow> (\<forall>d\<ge>i. d * d \<le> v \<longrightarrow> \<not> d dvd v)"
      proof (intro iffI allI impI)
        fix d assume no: "\<forall>d\<ge>i + 1. d * d \<le> v \<longrightarrow> \<not> d dvd v" and d: "i \<le> d" "d * d \<le> v"
        from no d False show "\<not> d dvd v" by (cases "d = i") auto
      qed simp
      finally show ?thesis .
    qed
  next
    case False
    have "i * i \<le> d * d" if "i \<le> d" for d using that 1(3) by (intro mult_mono) auto
    with False show ?thesis by (subst prime_loop.simps) fastforce
  qed
qed

text \<open>A number that has a divisor has one up to its root.\<close>

lemma isPrime_iff: "isPrime v \<longleftrightarrow> 0 < v \<and> (\<forall>d. 1 < d \<and> d < v \<longrightarrow> \<not> d dvd v)"
proof (cases "0 < v")
  case True
  have "isPrime v \<longleftrightarrow> (\<forall>d\<ge>2. d * d \<le> v \<longrightarrow> \<not> d dvd v)"
    using True prime_loop_iff [of v 2] by (simp add: isPrime_def)
  also have "\<dots> \<longleftrightarrow> (\<forall>d. 1 < d \<and> d < v \<longrightarrow> \<not> d dvd v)"
  proof (intro iffI allI impI)
    fix d assume no: "\<forall>d\<ge>2. d * d \<le> v \<longrightarrow> \<not> d dvd v" and d: "1 < d \<and> d < v"
    show "\<not> d dvd v"
    proof
      assume "d dvd v"
      then obtain e where e: "v = d * e" by (auto simp: dvd_def)
      with d True have "1 < e" by (metis less_irrefl linorder_cases mult.right_neutral zero_less_mult_pos zless_add1_eq add_0 mult_zero_right int_one_le_iff_zero_less order_less_le)
      show False
      proof (cases "d \<le> e")
        case True
        then have "d * d \<le> v" using d e by (simp add: mult_left_mono)
        with no d \<open>d dvd v\<close> show False by auto
      next
        case False
        then have "e * e \<le> v" using \<open>1 < e\<close> e by (simp add: mult_right_mono)
        moreover have "e dvd v" using e by simp
        moreover have "2 \<le> e" using \<open>1 < e\<close> by simp
        ultimately show False using no by blast
      qed
    qed
  next
    fix d assume no: "\<forall>d. 1 < d \<and> d < v \<longrightarrow> \<not> d dvd v" and d: "2 \<le> d" "d * d \<le> v"
    then have "d * 2 \<le> v" using mult_left_mono [of 2 d d] by linarith
    with no d show "\<not> d dvd v" by auto
  qed
  finally show ?thesis using True by simp
qed (simp add: isPrime_def)

lemma prime_above: "\<exists>p\<ge>v. isPrime p"
proof -
  define m where "m = \<Prod> {1..max v 2} + 1"
  have pos: "0 < \<Prod> {1..max v 2}" by (rule prod_pos) simp
  define P where "P d \<longleftrightarrow> 1 < d \<and> int d dvd m" for d
  have "P (nat m)" using pos by (simp add: P_def m_def)
  define q where "q = (LEAST d. P d)"
  have q: "P q" unfolding q_def by (rule LeastI) fact
  have least: "q \<le> d" if "P d" for d unfolding q_def by (rule Least_le) fact
  have "isPrime (int q)"
    unfolding isPrime_iff
  proof (intro conjI allI impI)
    fix d assume d: "1 < d \<and> d < int q"
    show "\<not> d dvd int q"
    proof
      assume "d dvd int q"
      with q have "d dvd m" by (auto simp: P_def intro: dvd_trans)
      with d have "P (nat d)" by (simp add: P_def)
      from least [OF this] have "int q \<le> int (nat d)" by (simp only: of_nat_le_iff)
      with d show False by simp
    qed
  qed (use q in \<open>simp add: P_def\<close>)
  moreover have "v \<le> int q"
  proof (rule ccontr)
    assume "\<not> v \<le> int q"
    with q have "int q \<in> {1..max v 2}" by (auto simp: P_def)
    then have "int q dvd \<Prod> {1..max v 2}" by (intro dvd_prodI) simp_all
    with q have "int q dvd 1" by (simp add: P_def m_def dvd_add_right_iff)
    with q show False by (simp add: P_def)
  qed
  ultimately show ?thesis by blast
qed

function getMinPrime :: "int \<Rightarrow> int" where
  "getMinPrime v = (if isPrime v then v else getMinPrime (v + 1))"
  by pat_completeness auto

termination
proof (relation "measure (\<lambda>v. LEAST n. isPrime (v + int n))")
  fix v :: int
  assume no: "\<not> isPrime v"
  obtain p where "v \<le> p" "isPrime p" using prime_above by blast
  then have ex: "isPrime (v + int (nat (p - v)))" by simp
  define n where "n = (LEAST n. isPrime (v + int n))"
  have n: "isPrime (v + int n)" unfolding n_def by (rule LeastI, rule ex)
  with no have "0 < n" by (cases n) auto
  then have "isPrime (v + 1 + int (n - 1))" using n by simp
  then have "(LEAST n. isPrime (v + 1 + int n)) \<le> n - 1" by (rule Least_le)
  with \<open>0 < n\<close> show "(v + 1, v) \<in> measure (\<lambda>v. LEAST n. isPrime (v + int n))"
    by (simp add: n_def)
qed simp

declare getMinPrime.simps [simp del]

lemma getMinPrime_least: "isPrime (getMinPrime v) \<and> v \<le> getMinPrime v \<and> (\<forall>p. v \<le> p \<and> p < getMinPrime v \<longrightarrow> \<not> isPrime p)"
proof (induction v rule: getMinPrime.induct)
  case (1 v)
  show ?case
  proof (cases "isPrime v")
    case True
    then show ?thesis by (subst (1 2 3) getMinPrime.simps) auto
  next
    case False
    have "getMinPrime v = getMinPrime (v + 1)" using False by (subst getMinPrime.simps) simp
    moreover have "\<not> isPrime p" if "v \<le> p" "p < getMinPrime (v + 1)" for p
      using 1 [OF False] False that by (cases "p = v") auto
    ultimately show ?thesis using 1 [OF False] by simp
  qed
qed

section \<open>Tables\<close>

record hash_entry =
  ekey :: int
  evalue :: int

record cuckoo_table =
  nCount :: int
  table1 :: "hash_entry list option"
  table2 :: "hash_entry list option"

text \<open>The hash functions; \<open>hashFuncDiv\<close> is the first one again.\<close>

definition hashFuncDiv :: "cuckoo_table \<Rightarrow> int \<Rightarrow> int option" where
  "hashFuncDiv t k = (if nCount t = 0 then None else Some (cmod k (nCount t)))"

definition hashFunc1 :: "cuckoo_table \<Rightarrow> int \<Rightarrow> int option" where
  "hashFunc1 t k = (if nCount t = 0 then None else Some (cmod k (nCount t)))"

definition hashFunc2 :: "cuckoo_table \<Rightarrow> int \<Rightarrow> int option" where
  "hashFunc2 t k = (if nCount t = 0 then None else Some (cmod (cdiv k (nCount t)) (nCount t)))"

text \<open>Element \<open>i\<close> of an array.\<close>

definition slot :: "hash_entry list option \<Rightarrow> int \<Rightarrow> hash_entry option" where
  "slot a i = (case a of None \<Rightarrow> None
     | Some xs \<Rightarrow> if 0 \<le> i \<and> i < int (length xs) then Some (xs ! nat i) else None)"

text \<open>Assignments of key and value to an element that has been read.\<close>

definition put1 :: "int \<Rightarrow> hash_entry \<Rightarrow> cuckoo_table \<Rightarrow> cuckoo_table" where
  "put1 i e t = t\<lparr>table1 := map_option (\<lambda>xs. xs[nat i := e]) (table1 t)\<rparr>"

definition put2 :: "int \<Rightarrow> hash_entry \<Rightarrow> cuckoo_table \<Rightarrow> cuckoo_table" where
  "put2 i e t = t\<lparr>table2 := map_option (\<lambda>xs. xs[nat i := e]) (table2 t)\<rparr>"

text \<open>\<open>alloc\<close> says whether each of the two calls of \<open>malloc\<close> succeeds; \<open>memset\<close> writes through the pointer
  unchecked.\<close>

definition no_entry :: hash_entry where
  "no_entry = \<lparr>ekey = 0, evalue = 0\<rparr>"

definition initHashTable :: "bool \<times> bool \<Rightarrow> int \<Rightarrow> cuckoo_table option" where
  "initHashTable alloc nSize =
    (let n = getMinPrime nSize; zeros = replicate (nat n) no_entry in
     if fst alloc \<and> snd alloc
     then Some \<lparr>nCount = n, table1 = Some zeros, table2 = Some zeros\<rparr>
     else None)"

text \<open>\<open>reHash\<close>: its result, 1 or 0, and the table.\<close>

function reHash :: "cuckoo_table \<Rightarrow> hash_entry \<Rightarrow> int \<Rightarrow> (bool \<times> cuckoo_table) option" where
  "reHash t e deeps =
    (if deeps \<le> 0 then Some (False, t)
     else case (hashFunc1 t (ekey e), hashFunc2 t (ekey e)) of
       (Some h1, Some h2) \<Rightarrow>
         (case slot (table1 t) h1 of None \<Rightarrow> None
          | Some a \<Rightarrow>
            if ekey e = ekey a then
              (case slot (table2 t) h2 of None \<Rightarrow> None
               | Some b \<Rightarrow>
                 if ekey b = 0 then Some (True, put2 h2 e t)
                 else (case reHash t b (deeps - 1) of None \<Rightarrow> None
                   | Some (r, t') \<Rightarrow> if r then Some (True, put2 h2 e t') else Some (False, t')))
            else
              (case slot (table2 t) h2 of None \<Rightarrow> None
               | Some b \<Rightarrow>
                 if ekey e = ekey b then
                   if ekey a = 0 then Some (True, put1 h1 e t)
                   else (case reHash t a (deeps - 1) of None \<Rightarrow> None
                     | Some (r, t') \<Rightarrow> if r then Some (True, put1 h1 e t') else Some (False, t'))
                 else Some (False, t)))
     | _ \<Rightarrow> None)"
  by pat_completeness auto

termination by (relation "measure (\<lambda>(t, e, deeps). nat deeps)") auto

declare reHash.simps [simp del]

definition MaxLoop :: int where
  "MaxLoop = 1000"

text \<open>The two attempts of an insertion that finds both places taken.\<close>

definition make_room :: "cuckoo_table \<Rightarrow> hash_entry \<Rightarrow> int \<Rightarrow> int \<Rightarrow> hash_entry \<Rightarrow> hash_entry \<Rightarrow> (int \<times> cuckoo_table) option" where
  "make_room t e h1 h2 a b =
    (case reHash t a MaxLoop of None \<Rightarrow> None
     | Some (r, t') \<Rightarrow>
       if r then Some (1, put1 h1 e t')
       else case slot (table2 t') h2 of None \<Rightarrow> None
       | Some b' \<Rightarrow>
         (case reHash t' b' MaxLoop of None \<Rightarrow> None
          | Some (r, t'') \<Rightarrow> if r then Some (1, put2 h2 e t'') else Some (0, t'')))"

definition insertHashTable :: "cuckoo_table option \<Rightarrow> hash_entry \<Rightarrow> (int \<times> cuckoo_table option) option" where
  "insertHashTable p e =
    (case p of None \<Rightarrow> Some (- 1, None)
     | Some t \<Rightarrow>
       (case (hashFunc1 t (ekey e), hashFunc2 t (ekey e)) of
         (Some h1, Some h2) \<Rightarrow>
           (case slot (table1 t) h1 of None \<Rightarrow> None
            | Some a \<Rightarrow>
              if ekey a = 0 then Some (1, Some (put1 h1 e t))
              else (case slot (table2 t) h2 of None \<Rightarrow> None
              | Some b \<Rightarrow>
                if ekey b = 0 then Some (1, Some (put2 h2 e t))
                else map_option (map_prod id Some) (make_room t e h1 h2 a b)))
       | _ \<Rightarrow> None))"

definition findValueByKey :: "cuckoo_table \<Rightarrow> int \<Rightarrow> int option" where
  "findValueByKey t k =
    (case (hashFunc1 t k, hashFunc2 t k) of
      (Some h1, Some h2) \<Rightarrow>
        (case (if table1 t = None then Some False else map_option (\<lambda>a. ekey a = k) (slot (table1 t) h1)) of
           None \<Rightarrow> None
         | Some True \<Rightarrow> Some 1
         | Some False \<Rightarrow>
           (case (if table2 t = None then Some False else map_option (\<lambda>b. ekey b = k) (slot (table2 t) h2)) of
              None \<Rightarrow> None
            | Some True \<Rightarrow> Some 1
            | Some False \<Rightarrow> Some 0))
    | _ \<Rightarrow> None)"

section \<open>Tables as one list of cells\<close>

definition cell_table :: "nat \<Rightarrow> hash_entry list \<Rightarrow> cuckoo_table" where
  "cell_table n cs = \<lparr>nCount = int n, table1 = Some (take n cs), table2 = Some (drop n cs)\<rparr>"

definition pos1 :: "nat \<Rightarrow> int \<Rightarrow> nat" where
  "pos1 n k = nat (k mod int n)"

definition pos2 :: "nat \<Rightarrow> int \<Rightarrow> nat" where
  "pos2 n k = n + nat (k div int n mod int n)"

text \<open>Every entry is where one of its hash values says.\<close>

definition in_place :: "nat \<Rightarrow> nat \<Rightarrow> hash_entry \<Rightarrow> bool" where
  "in_place n i e \<longleftrightarrow> 0 < ekey e \<and> (if i < n then i = pos1 n (ekey e) else i = pos2 n (ekey e))"

definition cells_ok :: "nat \<Rightarrow> hash_entry list \<Rightarrow> bool" where
  "cells_ok n cs \<longleftrightarrow> 0 < n \<and> length cs = 2 * n \<and> (\<forall>i<length cs. ekey (cs ! i) \<noteq> 0 \<longrightarrow> in_place n i (cs ! i))"

lemma pos1_less: "0 < n \<Longrightarrow> pos1 n k < n"
  by (simp add: pos1_def nat_less_iff)

lemma pos2_bounds: "0 < n \<Longrightarrow> n \<le> pos2 n k \<and> pos2 n k < 2 * n"
  by (simp add: pos2_def nat_less_iff)

lemma hashFunc_cells:
  assumes "0 < n" "0 < k"
  shows "hashFunc1 (cell_table n cs) k = Some (int (pos1 n k))"
    and "hashFunc2 (cell_table n cs) k = Some (int (pos2 n k) - int n)"
  using assms by (simp_all add: hashFunc1_def hashFunc2_def cell_table_def pos1_def pos2_def pos_imp_zdiv_nonneg_iff)

lemma slot1_cells [simp]: "i < n \<Longrightarrow> n \<le> length cs \<Longrightarrow> slot (table1 (cell_table n cs)) (int i) = Some (cs ! i)"
  by (simp add: slot_def cell_table_def)

lemma slot2_cells [simp]:
  "n \<le> i \<Longrightarrow> i < length cs \<Longrightarrow> slot (table2 (cell_table n cs)) (int i - int n) = Some (cs ! i)"
  by (simp add: slot_def cell_table_def nat_diff_distrib)

lemma put1_cells [simp]: "i < n \<Longrightarrow> put1 (int i) e (cell_table n cs) = cell_table n (cs[i := e])"
  by (simp add: put1_def cell_table_def take_update_swap drop_update_cancel)

lemma put2_cells [simp]:
  "n \<le> i \<Longrightarrow> put2 (int i - int n) e (cell_table n cs) = cell_table n (cs[i := e])"
  by (simp add: put2_def cell_table_def drop_update_swap take_update_cancel nat_diff_distrib)

section \<open>Making room\<close>

text \<open>Where the entry of a cell moves, and the cells on the way to an empty one.\<close>

definition next_cell :: "nat \<Rightarrow> hash_entry list \<Rightarrow> nat \<Rightarrow> nat" where
  "next_cell n cs i =
    (let k = ekey (cs ! i) in if ekey (cs ! pos1 n k) = k then pos2 n k else pos1 n k)"

fun route :: "nat \<Rightarrow> hash_entry list \<Rightarrow> nat \<Rightarrow> nat \<Rightarrow> nat list option" where
  "route n cs i 0 = None"
| "route n cs i (Suc d) =
    (let j = next_cell n cs i in
     if ekey (cs ! j) = 0 then Some [j] else map_option (Cons j) (route n cs j d))"

text \<open>The entry of each cell of a route replaces that of the next one.\<close>

fun shift_cells :: "hash_entry list \<Rightarrow> nat list \<Rightarrow> hash_entry list" where
  "shift_cells cs (i # j # r) = (shift_cells cs (j # r))[j := cs ! i]"
| "shift_cells cs _ = cs"

lemma pos1_less_2: "0 < n \<Longrightarrow> pos1 n k < 2 * n"
  using pos1_less [of n k] by simp

lemma next_cell_less: "cells_ok n cs \<Longrightarrow> next_cell n cs i < length cs"
  using pos1_less_2 [of n] pos2_bounds [of n] by (auto simp: next_cell_def Let_def cells_ok_def)

lemma length_shift_cells [simp]: "length (shift_cells cs r) = length cs"
  by (induction cs r rule: shift_cells.induct) simp_all

lemma reHash_cells:
  assumes "cells_ok n cs"
  shows "i < length cs \<Longrightarrow> ekey (cs ! i) \<noteq> 0 \<Longrightarrow>
    reHash (cell_table n cs) (cs ! i) (int d) =
      Some (case route n cs i d of None \<Rightarrow> (False, cell_table n cs)
        | Some r \<Rightarrow> (True, cell_table n (shift_cells cs (i # r))))"
proof (induction d arbitrary: i)
  case 0
  then show ?case by (subst reHash.simps) simp
next
  case (Suc d)
  from assms have n: "0 < n" and len: "length cs = 2 * n" by (simp_all add: cells_ok_def)
  have "in_place n i (cs ! i)" using assms Suc.prems by (simp add: cells_ok_def)
  then have k: "0 < ekey (cs ! i)" and at: "if i < n then i = pos1 n (ekey (cs ! i)) else i = pos2 n (ekey (cs ! i))"
    by (simp_all add: in_place_def)
  define j where "j = pos1 n (ekey (cs ! i))"
  define m where "m = pos2 n (ekey (cs ! i))"
  have j: "j < n" "j < length cs" and m: "n \<le> m" "m < length cs"
    using pos1_less [OF n] pos1_less_2 [OF n] pos2_bounds [OF n] len by (simp_all add: j_def m_def)
  note s = slot1_cells [OF j(1), of cs] slot2_cells [OF m]
  note h = hashFunc_cells [OF n k, of cs, folded j_def m_def]
  show ?case
  proof (cases "ekey (cs ! j) = ekey (cs ! i)")
    case True
    then have nx: "next_cell n cs i = m" by (simp add: next_cell_def Let_def j_def m_def)
    show ?thesis
      using Suc.IH [OF m(2)] True k s h j m len nx
      by (subst reHash.simps) (auto split: option.splits)
  next
    case False
    then have nx: "next_cell n cs i = j" by (simp add: next_cell_def Let_def j_def m_def)
    have "i = m" using False at by (auto simp: j_def m_def split: if_splits)
    then show ?thesis
      using Suc.IH [OF j(2)] False k s h j m len nx
      by (subst reHash.simps) (auto split: option.splits)
  qed
qed

lemma route_unique: "route n cs i d = Some r \<Longrightarrow> route n cs i d' = Some r' \<Longrightarrow> r = r'"
proof (induction n cs i d arbitrary: r d' r' rule: route.induct)
  case (2 n cs i d)
  then show ?case by (cases d') (auto simp: Let_def split: if_splits)
qed simp

lemma route_cells:
  assumes "cells_ok n cs"
  shows "route n cs i d = Some r \<Longrightarrow>
    r \<noteq> [] \<and> set r \<subseteq> {..<length cs} \<and> ekey (cs ! last r) = 0 \<and> (\<forall>x\<in>set (butlast r). ekey (cs ! x) \<noteq> 0)"
proof (induction d arbitrary: i r)
  case (Suc d)
  then show ?case
    using next_cell_less [OF assms, of i] by (fastforce simp: Let_def split: if_splits)
qed simp

text \<open>From every cell of a route but the last one there is a shorter route.\<close>

lemma route_suffix:
  "route n cs i d = Some r \<Longrightarrow> x \<in> set (butlast r) \<Longrightarrow> \<exists>d' r'. route n cs x d' = Some r' \<and> length r' < length r"
proof (induction d arbitrary: i r)
  case (Suc d)
  define j where "j = next_cell n cs i"
  from Suc.prems obtain r' where r': "route n cs j d = Some r'" "r = j # r'" and x: "x = j \<or> x \<in> set (butlast r')"
    by (auto simp: Let_def j_def split: if_splits)
  show ?case
  proof (cases "x = j")
    case True
    with r' show ?thesis by auto
  next
    case False
    with x Suc.IH [OF r'(1)] r'(2) show ?thesis by (auto intro: less_SucI)
  qed
qed simp

lemma route_distinct:
  assumes "cells_ok n cs"
  shows "route n cs i d = Some r \<Longrightarrow> ekey (cs ! i) \<noteq> 0 \<Longrightarrow> distinct (i # r)"
proof (induction d arbitrary: i r)
  case (Suc d)
  define j where "j = next_cell n cs i"
  have "i \<notin> set (butlast r)"
    using route_suffix [OF Suc.prems(1), of i] route_unique [OF Suc.prems(1)] by blast
  moreover have "i \<noteq> last r" using route_cells [OF assms Suc.prems(1)] Suc.prems(2) by auto
  moreover have "r \<noteq> []" using route_cells [OF assms Suc.prems(1)] by simp
  ultimately have "i \<notin> set r" by (cases r rule: rev_cases) auto
  moreover have "distinct r"
    using Suc.prems(1) Suc.IH [of j] by (auto simp: Let_def j_def split: if_splits)
  ultimately show ?case by simp
qed simp

section \<open>What an insertion does\<close>

text \<open>The entries of a table, as a multiset.\<close>

definition cell_entries :: "hash_entry list \<Rightarrow> hash_entry multiset" where
  "cell_entries cs = {#e \<in># mset cs. ekey e \<noteq> 0#}"

lemma shift_cells_other: "i \<notin> set (tl r) \<Longrightarrow> shift_cells cs r ! i = cs ! i"
  by (induction cs r rule: shift_cells.induct) auto

lemma mset_shift_cells:
  assumes "distinct r" "r \<noteq> []" "set r \<subseteq> {..<length cs}"
  shows "mset ((shift_cells cs r)[hd r := x]) = add_mset x (mset cs - {#cs ! last r#})"
  using assms
proof (induction cs r arbitrary: x rule: shift_cells.induct)
  case (1 cs i j r)
  define ys where "ys = (shift_cells cs (j # r))[j := cs ! i]"
  have ys: "mset ys = add_mset (cs ! i) (mset cs - {#cs ! last (j # r)#})"
    using 1(1) [of "cs ! i"] 1(2-) by (simp add: ys_def)
  have "ys ! i = cs ! i" using 1(2) shift_cells_other [of i "j # r" cs] by (simp add: ys_def)
  moreover have "i < length ys" using 1(4) by (simp add: ys_def)
  ultimately have "mset (ys[i := x]) = add_mset x (mset ys - {#cs ! i#})" by (simp add: mset_update)
  then show ?case using ys by (simp add: ys_def)
qed (simp_all add: mset_update)

lemma cells_ok_update: "cells_ok n cs \<Longrightarrow> in_place n j e \<Longrightarrow> cells_ok n (cs[j := e])"
  unfolding cells_ok_def by (metis length_list_update list_update_beyond linorder_not_less nth_list_update)

lemma shift_cells_ok:
  assumes "cells_ok n cs"
  shows "route n cs i d = Some r \<Longrightarrow> i < length cs \<Longrightarrow> ekey (cs ! i) \<noteq> 0 \<Longrightarrow> cells_ok n (shift_cells cs (i # r))"
proof (induction d arbitrary: i r)
  case (Suc d)
  define j where "j = next_cell n cs i"
  from assms Suc.prems(2,3) have "in_place n i (cs ! i)" by (simp add: cells_ok_def)
  moreover have n: "0 < n" using assms by (simp add: cells_ok_def)
  ultimately have at: "in_place n j (cs ! i)"
    using pos1_less [of n "ekey (cs ! i)"] pos2_bounds [of n "ekey (cs ! i)"]
    by (auto simp: in_place_def j_def next_cell_def Let_def)
  obtain r' where r: "r = j # r'" and "cells_ok n (shift_cells cs (j # r'))"
    using Suc.prems(1) Suc.IH [of j] next_cell_less [OF assms, of i] assms
    by (auto simp: Let_def j_def split: if_splits)
  with at show ?case unfolding r by (simp add: cells_ok_update)
qed simp

text \<open>A cell from which a route leads to an empty one can take a new entry.\<close>

lemma route_insert:
  assumes ok: "cells_ok n cs" and r: "route n cs i d = Some r" and i: "i < length cs" "ekey (cs ! i) \<noteq> 0"
    and e: "in_place n i e"
  shows "cells_ok n ((shift_cells cs (i # r))[i := e]) \<and>
    cell_entries ((shift_cells cs (i # r))[i := e]) = add_mset e (cell_entries cs)"
proof
  show "cells_ok n ((shift_cells cs (i # r))[i := e])"
    using shift_cells_ok [OF ok r i] e by (rule cells_ok_update)
  have len: "set (i # r) \<subseteq> {..<length cs}" using route_cells [OF ok r] i by simp
  have last: "last (i # r) = last r" "last r < length cs" "ekey (cs ! last r) = 0"
    using route_cells [OF ok r] last_in_set [of r] by (auto simp del: last_in_set)
  have "mset ((shift_cells cs (i # r))[i := e]) = add_mset e (mset cs - {#cs ! last r#})"
    using mset_shift_cells [OF route_distinct [OF ok r i(2)] _ len] last(1) by simp
  then have "cell_entries ((shift_cells cs (i # r))[i := e]) = {#x \<in># add_mset e (mset cs - {#cs ! last r#}). ekey x \<noteq> 0#}"
    by (simp only: cell_entries_def)
  also have "\<dots> = add_mset e (cell_entries cs)"
    using e last by (simp add: cell_entries_def in_place_def)
  finally show "cell_entries ((shift_cells cs (i # r))[i := e]) = add_mset e (cell_entries cs)" .
qed

lemma fill_empty:
  assumes "cells_ok n cs" "i < length cs" "ekey (cs ! i) = 0" "in_place n i e"
  shows "cells_ok n (cs[i := e]) \<and> cell_entries (cs[i := e]) = add_mset e (cell_entries cs)"
  using assms by (simp add: cells_ok_update cell_entries_def mset_update in_place_def)

lemma insert_cells:
  assumes ok: "cells_ok n cs" and k: "0 < ekey e"
  shows "\<exists>r cs'. insertHashTable (Some (cell_table n cs)) e = Some (r, Some (cell_table n cs')) \<and> cells_ok n cs' \<and>
    (r = 1 \<and> cell_entries cs' = add_mset e (cell_entries cs) \<or>
     r = 0 \<and> cs' = cs \<and> ekey (cs ! pos1 n (ekey e)) \<noteq> 0 \<and> ekey (cs ! pos2 n (ekey e)) \<noteq> 0)"
proof -
  define j where "j = pos1 n (ekey e)"
  define m where "m = pos2 n (ekey e)"
  have n: "0 < n" and len: "length cs = 2 * n" using ok by (simp_all add: cells_ok_def)
  have j: "j < n" "j < length cs" and m: "n \<le> m" "m < length cs" and at: "in_place n j e" "in_place n m e"
    using pos1_less [OF n, of "ekey e"] pos1_less_2 [OF n, of "ekey e"] pos2_bounds [OF n, of "ekey e"] len k
    by (simp_all add: j_def m_def in_place_def)
  note s = slot1_cells [OF j(1), of cs] slot2_cells [OF m]
  note h = hashFunc_cells [OF n k, of cs, folded j_def m_def]
  have MaxLoop: "MaxLoop = int 1000" by (simp add: MaxLoop_def)
  show ?thesis
  proof (cases "ekey (cs ! j) = 0 \<or> ekey (cs ! m) = 0")
    case True
    then show ?thesis
      using fill_empty [OF ok j(2) _ at(1)] fill_empty [OF ok m(2) _ at(2)] s h j m len
      unfolding insertHashTable_def by (cases "ekey (cs ! j) = 0") fastforce+
  next
    case False
    have ins: "insertHashTable (Some (cell_table n cs)) e
        = map_option (map_prod id Some) (make_room (cell_table n cs) e (int j) (int m - int n) (cs ! j) (cs ! m))"
      using False s h j m len by (simp add: insertHashTable_def)
    show ?thesis
    proof (cases "route n cs j 1000")
      case (Some r)
      have "insertHashTable (Some (cell_table n cs)) e
          = Some (1, Some (cell_table n ((shift_cells cs (j # r))[j := e])))"
        using reHash_cells [OF ok j(2), of 1000] False Some j by (simp add: ins make_room_def MaxLoop)
      with route_insert [OF ok Some j(2) _ at(1)] False show ?thesis by blast
    next
      case None
      have first: "reHash (cell_table n cs) (cs ! j) 1000 = Some (False, cell_table n cs)"
        using reHash_cells [OF ok j(2), of 1000] False None by simp
      show ?thesis
      proof (cases "route n cs m 1000")
        case (Some r)
        have "insertHashTable (Some (cell_table n cs)) e
            = Some (1, Some (cell_table n ((shift_cells cs (m # r))[m := e])))"
          using reHash_cells [OF ok m(2), of 1000] first False Some m s by (simp add: ins make_room_def MaxLoop)
        with route_insert [OF ok Some m(2) _ at(2)] False show ?thesis by blast
      next
        case None
        have "insertHashTable (Some (cell_table n cs)) e = Some (0, Some (cell_table n cs))"
          using reHash_cells [OF ok m(2), of 1000] first False None m s by (simp add: ins make_room_def MaxLoop)
        with ok False show ?thesis by (auto simp: j_def m_def)
      qed
    qed
  qed
qed

lemma cell_entries_key:
  assumes ok: "cells_ok n cs" and k: "0 < k"
  shows "k \<in> ekey ` set_mset (cell_entries cs) \<longleftrightarrow> ekey (cs ! pos1 n k) = k \<or> ekey (cs ! pos2 n k) = k"
proof
  assume "k \<in> ekey ` set_mset (cell_entries cs)"
  then obtain i where i: "i < length cs" "ekey (cs ! i) = k"
    by (auto simp: cell_entries_def in_set_conv_nth)
  with ok k have "in_place n i (cs ! i)" by (simp add: cells_ok_def)
  with i(2) show "ekey (cs ! pos1 n k) = k \<or> ekey (cs ! pos2 n k) = k"
    by (auto simp: in_place_def split: if_splits)
next
  have n: "0 < n" and len: "length cs = 2 * n" using ok by (simp_all add: cells_ok_def)
  assume "ekey (cs ! pos1 n k) = k \<or> ekey (cs ! pos2 n k) = k"
  then obtain i where i: "i < length cs" "ekey (cs ! i) = k"
    using pos1_less_2 [OF n] pos2_bounds [OF n] len by metis
  then have "cs ! i \<in># cell_entries cs" using k by (simp add: cell_entries_def)
  with i(2) show "k \<in> ekey ` set_mset (cell_entries cs)" by (metis imageI)
qed

lemma find_cells:
  assumes ok: "cells_ok n cs" and k: "0 < k"
  shows "findValueByKey (cell_table n cs) k = Some (if k \<in> ekey ` set_mset (cell_entries cs) then 1 else 0)"
proof -
  have n: "0 < n" and len: "length cs = 2 * n" using ok by (simp_all add: cells_ok_def)
  have p: "pos1 n k < n" "n \<le> pos2 n k" "pos2 n k < length cs"
    using pos1_less [OF n] pos2_bounds [OF n] len by simp_all
  have some: "table1 (cell_table n cs) \<noteq> None" "table2 (cell_table n cs) \<noteq> None" by (simp_all add: cell_table_def)
  show ?thesis
    unfolding findValueByKey_def hashFunc_cells [OF n k] cell_entries_key [OF ok k]
    using some p len by (simp split: bool.split)
qed

section \<open>Tables in order\<close>

text \<open>Both arrays are there, of the size the table says, and every entry in them is in place.\<close>

definition table_ok :: "cuckoo_table \<Rightarrow> bool" where
  "table_ok t \<longleftrightarrow> (\<exists>n cs. t = cell_table n cs \<and> cells_ok n cs)"

definition table_entries :: "cuckoo_table \<Rightarrow> hash_entry multiset" where
  "table_entries t = (case (table1 t, table2 t) of (Some xs, Some ys) \<Rightarrow> cell_entries (xs @ ys) | _ \<Rightarrow> {#})"

lemma table_entries_cells [simp]: "table_entries (cell_table n cs) = cell_entries cs"
  by (simp add: table_entries_def cell_table_def)

lemma init_cuckoo: "\<exists>t. initHashTable (True, True) nSize = Some t \<and> table_ok t \<and> table_entries t = {#}"
proof -
  define n where "n = nat (getMinPrime nSize)"
  have n: "0 < n" "int n = getMinPrime nSize"
    using getMinPrime_least [of nSize] by (simp_all add: n_def isPrime_iff)
  define cs where "cs = replicate (2 * n) no_entry"
  have "take n cs = replicate n no_entry" "drop n cs = replicate n no_entry" by (simp_all add: cs_def)
  then have "initHashTable (True, True) nSize = Some (cell_table n cs)"
    by (simp add: initHashTable_def Let_def n(2) cell_table_def flip: n_def)
  moreover have "cells_ok n cs" "cell_entries cs = {#}"
    using n(1) by (simp_all add: cells_ok_def cs_def no_entry_def cell_entries_def)
  ultimately show ?thesis by (auto simp: table_ok_def)
qed

definition cuckoo_add :: "cuckoo_table \<Rightarrow> hash_entry \<Rightarrow> (int \<times> cuckoo_table) option" where
  "cuckoo_add t e = (case insertHashTable (Some t) e of Some (r, Some t') \<Rightarrow> Some (r, t') | _ \<Rightarrow> None)"

interpretation cuckoo: entry_table cuckoo_add table_ok "\<lambda>e. 0 < ekey e" table_entries id
proof unfold_locales
  fix t :: cuckoo_table and e :: hash_entry
  assume "table_ok t" and k: "0 < ekey e"
  then obtain n cs where t: "t = cell_table n cs" and ok: "cells_ok n cs" by (auto simp: table_ok_def)
  from insert_cells [OF ok k] show "\<exists>r t'. cuckoo_add t e = Some (r, t') \<and> table_ok t' \<and>
      (r = 1 \<and> table_entries t' = add_mset (id e) (table_entries t) \<or> r = 0 \<and> t' = t)"
    by (fastforce simp: t cuckoo_add_def table_ok_def)
qed

section \<open>Properties\<close>

text \<open>Element \<open>h\<close> of an array holds an entry.\<close>

definition occupied :: "hash_entry list option \<Rightarrow> int option \<Rightarrow> bool" where
  "occupied a h \<longleftrightarrow> (\<exists>e. Option.bind h (slot a) = Some e \<and> ekey e \<noteq> 0)"


definition small_table :: cuckoo_table where
  "small_table = cell_table 2 [no_entry, no_entry, no_entry, no_entry]"

lemma small_table_ok: "table_ok small_table"
proof -
  have "cells_ok 2 [no_entry, no_entry, no_entry, no_entry]"
    by (auto simp: cells_ok_def no_entry_def nth_Cons split: nat.splits)
  then show ?thesis by (auto simp: table_ok_def small_table_def)
qed


text \<open>A table of any size, filled one entry after the other, as in \<open>main\<close>.\<close>

lemma cuckoo_insert_all:
  assumes "\<forall>e\<in>set es. 0 < ekey e"
  shows "\<exists>t rs t'. initHashTable (True, True) nSize = Some t \<and> insert_seq cuckoo_add t es = Some (rs, t') \<and>
    table_ok t' \<and> length rs = length es \<and> table_entries t' = mset (accepted rs es)"
proof -
  obtain t where t: "initHashTable (True, True) nSize = Some t" "table_ok t" "table_entries t = {#}"
    using init_cuckoo by blast
  from cuckoo.insert_all [OF t(2) assms] t(1,3) show ?thesis by fastforce
qed

text \<open>Key 0 marks an empty element: it is found in an empty table.  A negative key indexes in front of the
  array.  1 is taken for a prime, and is the size of a table of which less is asked.\<close>

lemma cuckoo_finds_zero: "findValueByKey small_table 0 = Some 1"
  by (simp add: findValueByKey_def small_table_def cell_table_def hashFunc1_def hashFunc2_def slot_def no_entry_def)

lemma cuckoo_negative_key: "insertHashTable (Some small_table) \<lparr>ekey = - 1, evalue = 7\<rparr> = None"
  by (simp add: insertHashTable_def small_table_def cell_table_def hashFunc1_def hashFunc2_def slot_def no_entry_def
      cmod_def cdiv_def)

lemma isPrime_one: "isPrime 1"
  by (simp add: isPrime_iff)

end
