(* ===== verification/Simple_Hash.thy ===== *)
theory Simple_Hash
  imports Hash_Table
begin

text \<open>
  The hash table of \<open>C/hash/simplehash/simplehash.c\<close>: eleven entries, linear probing, and a buffer of ten
  bytes for the value of each entry in the global \<open>data_table\<close>.  \<open>None\<close> is an access outside of an
  array or of a buffer, or a search for a free entry that does not end.
\<close>

section \<open>Tables\<close>

definition MAX_ENTRY_NUMS :: int where [simp]: "MAX_ENTRY_NUMS = 11"
definition MAX_STR_LEN :: nat where [simp]: "MAX_STR_LEN = 10"

text \<open>\<open>struct hash_entry\<close>; the pointer \<open>value\<close> is null or the index of a buffer of \<open>data_table\<close>.\<close>

record simple_entry =
  skey :: int
  svalue :: "nat option"
  sflag :: int

record simple_table =
  scount :: int
  scap :: int
  stable :: "simple_entry list"
  data_table :: "bytes list"

definition init_hash_table :: simple_table where
  "init_hash_table =
    \<lparr>scount = 0, scap = MAX_ENTRY_NUMS,
     stable = replicate (nat MAX_ENTRY_NUMS) \<lparr>skey = 0, svalue = None, sflag = 0\<rparr>,
     data_table = replicate (nat MAX_ENTRY_NUMS) (replicate MAX_STR_LEN 0)\<rparr>"

definition hash_key :: "int \<Rightarrow> int" where
  "hash_key key = cmod key MAX_ENTRY_NUMS"

definition entry_at :: "simple_entry list \<Rightarrow> int \<Rightarrow> simple_entry option" where
  "entry_at es i = (if 0 \<le> i \<and> i < int (length es) then Some (es ! nat i) else None)"

text \<open>The search for an entry that is free.\<close>

partial_function (option) free_pos :: "simple_entry list \<Rightarrow> int \<Rightarrow> int option" where
  "free_pos es pos =
    (case entry_at es pos of None \<Rightarrow> None
     | Some e \<Rightarrow> if sflag e = 1 then free_pos es (cmod (pos + 1) MAX_ENTRY_NUMS) else Some pos)"

definition write_value :: "bytes \<Rightarrow> bytes \<Rightarrow> bytes option" where
  "write_value buf v = (if length v \<le> length buf then Some (v @ drop (length v) buf) else None)"

text \<open>\<open>value\<close> is the bytes that \<open>memcpy\<close> takes, \<open>len\<close> their number.\<close>

definition insert_hash_table :: "simple_table option \<Rightarrow> int \<Rightarrow> bytes \<Rightarrow> (int \<times> simple_table option) option" where
  "insert_hash_table p key v =
    (case p of None \<Rightarrow> Some (0, None)
     | Some t \<Rightarrow>
       if scount t \<ge> MAX_ENTRY_NUMS then Some (0, Some t)
       else (case entry_at (stable t) (hash_key key) of None \<Rightarrow> None
         | Some e \<Rightarrow>
           if skey e = key then Some (0, Some t)
           else (case free_pos (stable t) (hash_key key) of None \<Rightarrow> None
             | Some pos \<Rightarrow>
               (case write_value (data_table t ! nat pos) v of None \<Rightarrow> None
                | Some buf \<Rightarrow> Some (1, Some
                   (t\<lparr>stable := (stable t)[nat pos := \<lparr>skey = key, svalue = Some (nat pos), sflag = 1\<rparr>],
                      data_table := (data_table t)[nat pos := buf],
                      scount := scount t + 1\<rparr>))))))"

section \<open>The invariant\<close>

text \<open>An entry is free and blank, or it is taken and has the buffer with its own index.\<close>

definition entry_ok :: "simple_table \<Rightarrow> nat \<Rightarrow> bool" where
  "entry_ok t i \<longleftrightarrow>
    (sflag (stable t ! i) = 1 \<and> svalue (stable t ! i) = Some i \<or>
     stable t ! i = \<lparr>skey = 0, svalue = None, sflag = 0\<rparr> \<and> data_table t ! i = replicate 10 0) \<and>
    length (data_table t ! i) = 10"

definition taken :: "simple_table \<Rightarrow> nat list" where
  "taken t = filter (\<lambda>i. sflag (stable t ! i) = 1) [0..<11]"

definition simple_ok :: "simple_table \<Rightarrow> bool" where
  "simple_ok t \<longleftrightarrow> length (stable t) = 11 \<and> length (data_table t) = 11 \<and> (\<forall>i<11. entry_ok t i) \<and>
    scount t = int (length (taken t))"

text \<open>The key and the value of each entry that is taken.\<close>

definition simple_entries :: "simple_table \<Rightarrow> (int \<times> bytes) multiset" where
  "simple_entries t = mset (map (\<lambda>i. (skey (stable t ! i), data_table t ! i)) (taken t))"

definition padded :: "bytes \<Rightarrow> bytes" where
  "padded v = v @ replicate (10 - length v) 0"

lemma simple_init_ok: "simple_ok init_hash_table \<and> simple_entries init_hash_table = {#}"
  by (simp add: simple_ok_def init_hash_table_def entry_ok_def taken_def simple_entries_def nth_replicate)

section \<open>The search ends\<close>

lemma free_pos_step:
  "i < length es \<Longrightarrow> length es = 11 \<Longrightarrow>
    free_pos es (int i) = (if sflag (es ! i) = 1 then free_pos es (int (Suc i mod 11)) else Some (int i))"
  by (subst free_pos.simps) (simp add: entry_at_def zmod_int add.commute)

lemma free_pos_finds:
  assumes "length es = 11" "f < 11" "sflag (es ! f) \<noteq> 1"
  shows "d \<le> 10 \<Longrightarrow> i < 11 \<Longrightarrow> (i + d) mod 11 = f \<Longrightarrow>
    \<exists>j<11. free_pos es (int i) = Some (int j) \<and> sflag (es ! j) \<noteq> 1"
proof (induction d arbitrary: i)
  case 0
  then show ?case using assms free_pos_step [of i es] by auto
next
  case (Suc d)
  have "(Suc i mod 11 + d) mod 11 = f" using Suc.prems(3) by (simp add: mod_add_left_eq)
  then have "\<exists>j<11. free_pos es (int (Suc i mod 11)) = Some (int j) \<and> sflag (es ! j) \<noteq> 1"
    using Suc.IH [of "Suc i mod 11"] Suc.prems by simp
  then show ?case using assms(1) Suc.prems(2) free_pos_step [of i es] by auto
qed

lemma taken_all: "length (taken t) < 11 \<Longrightarrow> \<exists>f<11. sflag (stable t ! f) \<noteq> 1"
proof (rule ccontr)
  assume "\<not> (\<exists>f<11. sflag (stable t ! f) \<noteq> 1)" and short: "length (taken t) < 11"
  then have "taken t = [0..<11]" unfolding taken_def by (intro filter_True) auto
  with short show False by simp
qed

lemma free_pos_total:
  assumes "simple_ok t" "scount t < 11" "i < 11"
  shows "\<exists>j<11. free_pos (stable t) (int i) = Some (int j) \<and> sflag (stable t ! j) \<noteq> 1"
proof -
  from assms have "length (taken t) < 11" by (simp add: simple_ok_def)
  then obtain f where f: "f < 11" "sflag (stable t ! f) \<noteq> 1" using taken_all by blast
  have "(i + (f + 11 - i) mod 11) mod 11 = f" using f(1) assms(3) by (simp add: mod_add_right_eq)
  from free_pos_finds [OF _ f _ assms(3) this] assms(1) show ?thesis by (simp add: simple_ok_def)
qed

section \<open>What an insertion does\<close>

definition filled :: "int \<Rightarrow> bytes \<Rightarrow> nat \<Rightarrow> simple_table \<Rightarrow> simple_table" where
  "filled key v j t = t\<lparr>stable := (stable t)[j := \<lparr>skey = key, svalue = Some j, sflag = 1\<rparr>],
     data_table := (data_table t)[j := padded v], scount := scount t + 1\<rparr>"

lemma mset_taken: "mset (taken t) = mset_set {i. i < 11 \<and> sflag (stable t ! i) = 1}"
proof -
  have "{i. i < 11 \<and> sflag (stable t ! i) = 1} = set (taken t)" by (auto simp: taken_def)
  then show ?thesis by (simp add: taken_def mset_set_set)
qed

lemma taken_filled:
  assumes "length (stable t) = 11" "j < 11" "sflag (stable t ! j) \<noteq> 1"
  shows "mset (taken (filled key v j t)) = add_mset j (mset (taken t))"
proof -
  have "{i. i < 11 \<and> sflag (stable (filled key v j t) ! i) = 1}
      = Set.insert j {i. i < 11 \<and> sflag (stable t ! i) = 1}"
    using assms by (auto simp: filled_def nth_list_update)
  then show ?thesis using assms(3) by (simp add: mset_taken)
qed

lemma filled_ok:
  assumes ok: "simple_ok t" and j: "j < 11" "sflag (stable t ! j) \<noteq> 1" and v: "length v \<le> 10"
  shows "simple_ok (filled key v j t) \<and> simple_entries (filled key v j t) = add_mset (key, padded v) (simple_entries t)"
proof
  have len: "length (stable t) = 11" "length (data_table t) = 11" using ok by (simp_all add: simple_ok_def)
  have "length (taken (filled key v j t)) = Suc (length (taken t))"
    using taken_filled [OF len(1) j, of key v] by (metis size_add_mset size_mset)
  moreover have "entry_ok (filled key v j t) i" if "i < 11" for i
    using ok that len v by (cases "i = j") (auto simp: simple_ok_def entry_ok_def filled_def padded_def)
  ultimately show "simple_ok (filled key v j t)" using ok by (simp add: simple_ok_def) (simp add: filled_def)
  have other: "i \<noteq> j" if "i \<in># mset (taken t)" for i using that j(2) by (auto simp: taken_def)
  have "simple_entries (filled key v j t)
      = image_mset (\<lambda>i. (skey (stable (filled key v j t) ! i), data_table (filled key v j t) ! i)) (add_mset j (mset (taken t)))"
    using taken_filled [OF len(1) j, of key v] by (simp add: simple_entries_def)
  also have "\<dots> = add_mset (key, padded v)
      (image_mset (\<lambda>i. (skey (stable (filled key v j t) ! i), data_table (filled key v j t) ! i)) (mset (taken t)))"
    using len j(1) by (simp add: filled_def)
  also have "image_mset (\<lambda>i. (skey (stable (filled key v j t) ! i), data_table (filled key v j t) ! i)) (mset (taken t))
      = image_mset (\<lambda>i. (skey (stable t ! i), data_table t ! i)) (mset (taken t))"
    by (rule image_mset_cong, frule other) (simp add: filled_def)
  finally show "simple_entries (filled key v j t) = add_mset (key, padded v) (simple_entries t)"
    by (simp add: simple_entries_def)
qed

lemma simple_insert:
  assumes ok: "simple_ok t" and key: "0 \<le> key" and v: "length v \<le> 10"
  shows "\<exists>r t'. insert_hash_table (Some t) key v = Some (r, Some t') \<and> simple_ok t' \<and>
    (r = 1 \<and> simple_entries t' = add_mset (key, padded v) (simple_entries t) \<or>
     r = 0 \<and> t' = t \<and> (scount t = 11 \<or> skey (stable t ! nat (key mod 11)) = key))"
proof -
  define i where "i = nat (key mod 11)"
  have i: "i < 11" "hash_key key = int i" using key by (simp_all add: i_def hash_key_def nat_less_iff)
  have len: "length (stable t) = 11" "length (data_table t) = 11" using ok by (simp_all add: simple_ok_def)
  have e: "entry_at (stable t) (int i) = Some (stable t ! i)" using i(1) len by (simp add: entry_at_def)
  have "length (taken t) \<le> 11" unfolding taken_def by (rule le_trans [OF length_filter_le]) simp
  then have "scount t \<le> 11" using ok by (simp add: simple_ok_def)
  then consider "scount t = 11" | "scount t < 11" "skey (stable t ! i) = key" | "scount t < 11" "skey (stable t ! i) \<noteq> key"
    by linarith
  then show ?thesis
  proof cases
    case 3
    obtain j where j: "j < 11" "free_pos (stable t) (int i) = Some (int j)" "sflag (stable t ! j) \<noteq> 1"
      using free_pos_total [OF ok 3(1) i(1)] by blast
    have "data_table t ! j = replicate 10 0" using ok j(1,3) by (auto simp: simple_ok_def entry_ok_def)
    then have "write_value (data_table t ! j) v = Some (padded v)" using v by (simp add: write_value_def padded_def)
    then have "insert_hash_table (Some t) key v = Some (1, Some (filled key v j t))"
      using 3 e i(2) j(2) by (simp add: insert_hash_table_def filled_def)
    with filled_ok [OF ok j(1,3) v] show ?thesis by blast
  qed (use ok e i in \<open>simp_all add: insert_hash_table_def i_def\<close>)
qed

section \<open>Sequences of insertions\<close>

definition simple_add :: "simple_table \<Rightarrow> int \<times> bytes \<Rightarrow> (int \<times> simple_table) option" where
  "simple_add t e = (case insert_hash_table (Some t) (fst e) (snd e) of
     Some (r, Some t') \<Rightarrow> Some (r, t') | _ \<Rightarrow> None)"

interpretation simple: entry_table simple_add simple_ok "\<lambda>e. 0 \<le> fst e \<and> length (snd e) \<le> 10"
    simple_entries "map_prod id padded"
proof unfold_locales
  fix t :: simple_table and e :: "int \<times> bytes"
  assume "simple_ok t" "0 \<le> fst e \<and> length (snd e) \<le> 10"
  then show "\<exists>r t'. simple_add t e = Some (r, t') \<and> simple_ok t' \<and>
    (r = 1 \<and> simple_entries t' = add_mset (map_prod id padded e) (simple_entries t) \<or> r = 0 \<and> t' = t)"
    using simple_insert [of t "fst e" "snd e"] by (auto simp: simple_add_def map_prod_def split_beta)
qed

section \<open>What the table gets wrong\<close>

text \<open>Key 0 is refused by an empty table, as if it were there; a negative key indexes in front of the
  table; and a key that is not at its own index is inserted again.\<close>

lemma simple_refuses_zero: "insert_hash_table (Some init_hash_table) 0 v = Some (0, Some init_hash_table)"
  by (simp add: insert_hash_table_def init_hash_table_def hash_key_def entry_at_def)

lemma simple_negative_key: "insert_hash_table (Some init_hash_table) (- 1) v = None"
  by (simp add: insert_hash_table_def init_hash_table_def hash_key_def entry_at_def cmod_def cdiv_def)

lemma simple_inserts_twice:
  "map_option fst (insert_seq simple_add init_hash_table [(1, [7]), (12, [8]), (12, [9])]) = Some [1, 1, 1]"
  by (simp add: simple_add_def insert_hash_table_def init_hash_table_def hash_key_def entry_at_def write_value_def
      free_pos.simps numeral_eq_Suc)

lemma simple_insert_all:
  assumes "\<forall>e\<in>set es. 0 \<le> fst e \<and> length (snd e) \<le> 10"
  shows "\<exists>rs t'. insert_seq simple_add init_hash_table es = Some (rs, t') \<and> simple_ok t' \<and> length rs = length es \<and>
    simple_entries t' = mset (map (map_prod id padded) (accepted rs es))"
  using simple.insert_all [OF conjunct1 [OF simple_init_ok] assms] simple_init_ok by auto

end
