(* ===== verification/Ini_Parse.thy ===== *)
theory Ini_Parse
  imports Prelude
begin

text \<open>
  The parser for INI files, \<open>ini_parse_file\<close> of \<open>C/iniparse/ini.c\<close>, as its header configures it: lines of
  at most 199 bytes on the stack, a byte order mark and continuation lines allowed, no stop at an
  error.  A pointer into the line is the string that begins there, up to its NUL; the handler of the
  application is a parameter, which gets and returns the application's data.
\<close>

section \<open>Strings\<close>

definition INI_MAX_LINE :: nat where [simp]: "INI_MAX_LINE = 200"
definition MAX_SECTION :: nat where [simp]: "MAX_SECTION = 50"
definition MAX_NAME :: nat where [simp]: "MAX_NAME = 50"

definition isspace :: "u8 \<Rightarrow> bool" where
  "isspace c \<longleftrightarrow> c = 32 \<or> 9 \<le> c \<and> c \<le> 13"

fun rstrip :: "bytes \<Rightarrow> bytes" where
  "rstrip s = (if s \<noteq> [] \<and> isspace (last s) then rstrip (butlast s) else s)"

declare rstrip.simps [simp del]

fun lskip :: "bytes \<Rightarrow> bytes" where
  "lskip [] = []"
| "lskip (c # s) = (if isspace c then lskip s else c # s)"

fun find_from :: "bool \<Rightarrow> bytes \<Rightarrow> u8 \<Rightarrow> bytes" where
  "find_from was_whitespace [] c = []"
| "find_from was_whitespace (x # s) c =
    (if x \<noteq> c \<and> \<not> (was_whitespace \<and> x = 59) then find_from (isspace x) s c else x # s)"

definition find_char_or_comment :: "bytes \<Rightarrow> u8 \<Rightarrow> bytes" where
  "find_char_or_comment s c = find_from False s c"

text \<open>The string that \<open>dest\<close> holds afterwards.\<close>

definition strncpy0 :: "bytes \<Rightarrow> nat \<Rightarrow> bytes" where
  "strncpy0 s n = take (n - 1) s"

text \<open>The character at a pointer, NUL at the end of the string.\<close>

definition deref :: "bytes \<Rightarrow> u8" where
  "deref s = (case s of [] \<Rightarrow> 0 | c # _ \<Rightarrow> c)"

text \<open>\<open>*end = '\0'\<close>, seen from a pointer \<open>s\<close> in front of \<open>end\<close>.\<close>

definition cut_at :: "bytes \<Rightarrow> bytes \<Rightarrow> bytes" where
  "cut_at s e = take (length s - length e) s"

section \<open>Lines\<close>

type_synonym 'u ini_handler = "'u \<Rightarrow> bytes \<Rightarrow> bytes \<Rightarrow> bytes \<Rightarrow> 'u \<times> bool"

record 'u ini_state =
  cur_section :: bytes
  prev_name :: bytes
  ini_error :: int
  user :: 'u

definition note_error :: "int \<Rightarrow> 'u ini_state \<Rightarrow> 'u ini_state" where
  "note_error lineno st = (if ini_error st = 0 then st\<lparr>ini_error := lineno\<rparr> else st)"

definition call_handler :: "'u ini_handler \<Rightarrow> int \<Rightarrow> bytes \<Rightarrow> bytes \<Rightarrow> 'u ini_state \<Rightarrow> 'u ini_state" where
  "call_handler h lineno name v st =
    (let (u, ok) = h (user st) (cur_section st) name v; st' = st\<lparr>user := u\<rparr> in
     if \<not> ok then note_error lineno st' else st')"

text \<open>A name and a value.\<close>

definition name_value :: "'u ini_handler \<Rightarrow> int \<Rightarrow> bytes \<Rightarrow> 'u ini_state \<Rightarrow> 'u ini_state" where
  "name_value h lineno start st =
    (let end1 = find_char_or_comment start 61;
         end2 = (if deref end1 \<noteq> 61 then find_char_or_comment start 58 else end1) in
     if deref end2 = 61 \<or> deref end2 = 58 then
       (let name = rstrip (cut_at start end2);
            v = lskip (tl end2);
            end3 = find_char_or_comment v 0;
            v' = rstrip (if deref end3 = 59 then cut_at v end3 else v) in
        call_handler h lineno name v' (st\<lparr>prev_name := strncpy0 name MAX_NAME\<rparr>))
     else note_error lineno st)"

definition section_line :: "int \<Rightarrow> bytes \<Rightarrow> 'u ini_state \<Rightarrow> 'u ini_state" where
  "section_line lineno start st =
    (let e = find_char_or_comment (tl start) 93 in
     if deref e = 93
     then st\<lparr>cur_section := strncpy0 (cut_at (tl start) e) MAX_SECTION, prev_name := []\<rparr>
     else note_error lineno st)"

definition skip_bom :: "int \<Rightarrow> bytes \<Rightarrow> bytes" where
  "skip_bom lineno l = (if lineno = 1 \<and> take 3 l = [239, 187, 191] then drop 3 l else l)"

text \<open>The body of the loop; \<open>moved\<close> is \<open>start > line\<close>.\<close>

definition process_line :: "'u ini_handler \<Rightarrow> int \<Rightarrow> bytes \<Rightarrow> 'u ini_state \<Rightarrow> 'u ini_state" where
  "process_line h lineno l st =
    (let s1 = skip_bom lineno l;
         start = lskip (rstrip s1);
         moved = (length s1 < length l \<or> length start < length (rstrip s1)) in
     if deref start = 59 \<or> deref start = 35 then st
     else if prev_name st \<noteq> [] \<and> start \<noteq> [] \<and> moved then call_handler h lineno (prev_name st) start st
     else if deref start = 91 then section_line lineno start st
     else if start \<noteq> [] \<and> deref start \<noteq> 59 then name_value h lineno start st
     else st)"

section \<open>Files\<close>

text \<open>What \<open>fgets\<close> takes from the stream: up to a newline, at most \<open>n - 1\<close> bytes.\<close>

definition fgets_length :: "nat \<Rightarrow> bytes \<Rightarrow> nat" where
  "fgets_length n bs = min (n - 1) (Suc (length (takeWhile (\<lambda>c. c \<noteq> 10) bs)))"

function parse_lines :: "'u ini_handler \<Rightarrow> int \<Rightarrow> bytes \<Rightarrow> 'u ini_state \<Rightarrow> 'u ini_state" where
  "parse_lines h lineno bs st =
    (if bs = [] then st
     else let k = fgets_length INI_MAX_LINE bs; l = takeWhile (\<lambda>c. c \<noteq> 0) (take k bs) in
       parse_lines h (lineno + 1) (drop k bs) (process_line h (lineno + 1) l st))"
  by pat_completeness auto

termination
  by (relation "measure (\<lambda>(h, lineno, bs, st). length bs)") (auto simp: fgets_length_def)

declare parse_lines.simps [simp del]

definition ini_parse_file :: "'u ini_handler \<Rightarrow> 'u \<Rightarrow> bytes \<Rightarrow> 'u \<times> int" where
  "ini_parse_file h u file =
    (let st = parse_lines h 0 file \<lparr>cur_section = [], prev_name = [], ini_error = 0, user = u\<rparr> in
     (user st, ini_error st))"

text \<open>\<open>ini_parse\<close>, for a file that can be opened or not.  The source declares \<open>error\<close> twice and calls \<open>open\<close>
  where \<open>fopen\<close> is meant; this is the function without these two slips.\<close>

definition ini_parse :: "'u ini_handler \<Rightarrow> 'u \<Rightarrow> bytes option \<Rightarrow> 'u \<times> int" where
  "ini_parse h u file = (case file of None \<Rightarrow> (u, - 1) | Some bs \<Rightarrow> ini_parse_file h u bs)"

section \<open>The text of a file\<close>

text \<open>
  The lines of a file: a section (with anything behind its bracket), an entry (name, blanks, separator,
  blanks, value, blanks, comment), the continuation of the entry before it, a comment, and a blank line.
\<close>

datatype ini_item =
    Section bytes bytes
  | Entry bytes bytes u8 bytes bytes "(bytes \<times> bytes) option"
  | Continuation bytes bytes
  | Comment bytes u8 bytes
  | Blank bytes

fun comment_text :: "(bytes \<times> bytes) option \<Rightarrow> bytes" where
  "comment_text None = []"
| "comment_text (Some (p, c)) = p @ 59 # c"

fun item_text :: "ini_item \<Rightarrow> bytes" where
  "item_text (Section n junk) = 91 # n @ 93 # junk"
| "item_text (Entry n p sep q v c) = n @ p @ sep # q @ v @ comment_text c"
| "item_text (Continuation p v) = p @ v"
| "item_text (Comment p m c) = p @ m # c"
| "item_text (Blank p) = p"

definition blanks :: "bytes \<Rightarrow> bool" where
  "blanks s \<longleftrightarrow> (\<forall>c\<in>set s. isspace c)"

text \<open>No blanks at its ends.\<close>

definition stripped :: "bytes \<Rightarrow> bool" where
  "stripped s \<longleftrightarrow> (s \<noteq> [] \<longrightarrow> \<not> isspace (hd s) \<and> \<not> isspace (last s))"

text \<open>No byte of \<open>s\<close> is \<open>c\<close>, and no semicolon follows a blank: a search for \<open>c\<close> passes over \<open>s\<close>.\<close>

fun passes :: "bool \<Rightarrow> u8 \<Rightarrow> bytes \<Rightarrow> bool" where
  "passes was c [] \<longleftrightarrow> True"
| "passes was c (x # s) \<longleftrightarrow> x \<noteq> c \<and> \<not> (was \<and> x = 59) \<and> passes (isspace x) c s"

definition on_line :: "bytes \<Rightarrow> bool" where
  "on_line s \<longleftrightarrow> length s < 199 \<and> 0 \<notin> set s \<and> 10 \<notin> set s"

fun comment_ok :: "bytes \<Rightarrow> (bytes \<times> bytes) option \<Rightarrow> bool" where
  "comment_ok v None \<longleftrightarrow> True"
| "comment_ok v (Some (p, c)) \<longleftrightarrow> v \<noteq> [] \<and> p \<noteq> [] \<and> blanks p"

fun ini_item_ok :: "ini_item \<Rightarrow> bool" where
  "ini_item_ok (Section n junk) \<longleftrightarrow> length n \<le> 49 \<and> passes False 93 n"
| "ini_item_ok (Entry n p sep q v c) \<longleftrightarrow>
    n \<noteq> [] \<and> length n \<le> 49 \<and> stripped n \<and> hd n \<notin> {35, 59, 91} \<and> blanks p \<and>
    (sep = 61 \<and> passes False 61 (n @ p) \<or>
     sep = 58 \<and> passes False 58 (n @ p) \<and> 61 \<notin> set (item_text (Entry n p sep q v c))) \<and>
    blanks q \<and> stripped v \<and> passes False 0 v \<and> comment_ok v c"
| "ini_item_ok (Continuation p v) \<longleftrightarrow> p \<noteq> [] \<and> blanks p \<and> v \<noteq> [] \<and> stripped v \<and> hd v \<notin> {35, 59}"
| "ini_item_ok (Comment p m c) \<longleftrightarrow> blanks p \<and> (m = 35 \<or> m = 59)"
| "ini_item_ok (Blank p) \<longleftrightarrow> blanks p"

text \<open>A continuation stands behind an entry, not directly behind a section.\<close>

fun items_ok :: "bool \<Rightarrow> ini_item list \<Rightarrow> bool" where
  "items_ok named [] \<longleftrightarrow> True"
| "items_ok named (x # xs) \<longleftrightarrow>
    ini_item_ok x \<and> on_line (item_text x) \<and>
    (case x of Section n junk \<Rightarrow> items_ok False xs
     | Entry n p sep q v c \<Rightarrow> items_ok True xs
     | Continuation p v \<Rightarrow> named \<and> items_ok named xs
     | _ \<Rightarrow> items_ok named xs)"

definition file_text :: "ini_item list \<Rightarrow> bytes" where
  "file_text xs = concat (map (\<lambda>x. item_text x @ [10]) xs)"

text \<open>What a file means: calls of the handler, each with the number of its line.\<close>

fun item_calls :: "bytes \<Rightarrow> bytes \<Rightarrow> int \<Rightarrow> ini_item list \<Rightarrow> (int \<times> bytes \<times> bytes \<times> bytes) list" where
  "item_calls sec name lineno [] = []"
| "item_calls sec name lineno (x # xs) =
    (case x of Section n junk \<Rightarrow> item_calls n [] (lineno + 1) xs
     | Entry n p sep q v c \<Rightarrow> (lineno + 1, sec, n, v) # item_calls sec n (lineno + 1) xs
     | Continuation p v \<Rightarrow> (lineno + 1, sec, name, v) # item_calls sec name (lineno + 1) xs
     | _ \<Rightarrow> item_calls sec name (lineno + 1) xs)"

text \<open>All of them are made; the result is the number of the first line whose call fails.\<close>

fun run_calls :: "'u ini_handler \<Rightarrow> (int \<times> bytes \<times> bytes \<times> bytes) list \<Rightarrow> 'u \<times> int \<Rightarrow> 'u \<times> int" where
  "run_calls h [] r = r"
| "run_calls h ((lineno, sec, name, v) # cs) (u, err) =
    (let (u', ok) = h u sec name v in run_calls h cs (u', if \<not> ok \<and> err = 0 then lineno else err))"

end
