(* ===== verification/Ini_Correct.thy ===== *)
theory Ini_Correct
  imports Ini_Parse
begin

text \<open>
  The parser for INI files reads back what a file was written from: its handler is called for every entry
  and continuation, in order, with the section, the name and the value.
\<close>

section \<open>Strings\<close>

lemma rstrip_Nil [simp]: "rstrip [] = []"
  by (simp add: rstrip.simps)

lemma rstrip_snoc: "rstrip (s @ [c]) = (if isspace c then rstrip s else s @ [c])"
  by (subst rstrip.simps) simp

lemma rstrip_blanks: "blanks b \<Longrightarrow> rstrip (s @ b) = rstrip s"
proof (induction b rule: rev_induct)
  case (snoc c b)
  then show ?case using rstrip_snoc [of "s @ b" c] by (simp add: blanks_def)
qed simp

lemma rstrip_id: "s = [] \<or> \<not> isspace (last s) \<Longrightarrow> rstrip s = s"
  by (cases s rule: rev_cases) (auto simp: rstrip_snoc)

lemma rstrip_stop: "\<not> isspace x \<Longrightarrow> rstrip (a @ x # b) = a @ x # rstrip b"
proof (induction b rule: rev_induct)
  case Nil
  then show ?case using rstrip_snoc [of a x] by simp
next
  case (snoc c b)
  then show ?case using rstrip_snoc [of "a @ x # b" c] rstrip_snoc [of b c] by simp
qed

lemma rstrip_stop_Cons: "\<not> isspace x \<Longrightarrow> rstrip (x # b) = x # rstrip b"
  using rstrip_stop [of x "[]" b] by simp

lemma rstrip_newline: "rstrip (s @ [10]) = rstrip s"
  by (simp add: rstrip_snoc isspace_def)

lemma lskip_blanks: "blanks p \<Longrightarrow> lskip (p @ s) = lskip s"
  by (induction p) (simp_all add: blanks_def)

lemma lskip_id: "s = [] \<or> \<not> isspace (hd s) \<Longrightarrow> lskip s = s"
  by (cases s) auto

lemma blanks_strip: "blanks p \<Longrightarrow> rstrip p = [] \<and> lskip p = []"
  using rstrip_blanks [of p "[]"] lskip_blanks [of p "[]"] by simp

lemma find_from_passes:
  "passes w c s \<Longrightarrow> find_from w (s @ t) c = find_from (if s = [] then w else isspace (last s)) t c"
  by (induction w c s rule: passes.induct) auto

lemma find_from_all: "passes w c s \<Longrightarrow> find_from w s c = []"
  using find_from_passes [of w c s "[]"] by simp

lemma find_from_hit: "passes w c s \<Longrightarrow> find_from w (s @ c # t) c = c # t"
  by (simp add: find_from_passes)

lemma find_from_absent: "c \<notin> set s \<Longrightarrow> c \<noteq> 59 \<Longrightarrow> c \<noteq> 0 \<Longrightarrow> deref (find_from w s c) \<noteq> c"
  by (induction s arbitrary: w) (auto simp: deref_def)

lemma passes_append:
  "passes w c (s @ t) \<longleftrightarrow> passes w c s \<and> passes (if s = [] then w else isspace (last s)) c t"
  by (induction w c s rule: passes.induct) auto

lemma passes_blanks: "blanks p \<Longrightarrow> \<not> isspace c \<Longrightarrow> passes w c p"
  by (induction p arbitrary: w) (auto simp: blanks_def isspace_def)

lemma cut_at_append [simp]: "cut_at (s @ e) e = s"
  by (simp add: cut_at_def)

lemma isspace_consts [simp]:
  "\<not> isspace 35" "\<not> isspace 58" "\<not> isspace 59" "\<not> isspace 61" "\<not> isspace 91" "\<not> isspace 93" "\<not> isspace 0"
  by (simp_all add: isspace_def)

section \<open>Lines\<close>

lemma deref_simps [simp]: "deref [] = 0" "deref (c # s) = c"
  by (simp_all add: deref_def)

lemma process_section:
  assumes "ini_item_ok (Section n junk)" "skip_bom k (item_text (Section n junk) @ [10]) = item_text (Section n junk) @ [10]"
  shows "process_line h k (item_text (Section n junk) @ [10]) st = st\<lparr>cur_section := n, prev_name := []\<rparr>"
proof -
  have start: "rstrip (91 # n @ 93 # junk @ [10]) = 91 # n @ 93 # rstrip junk"
    using rstrip_stop [of 93 "91 # n" "junk @ [10]"] rstrip_newline [of junk] by simp
  have "find_char_or_comment (n @ 93 # rstrip junk) 93 = 93 # rstrip junk"
    using assms(1) by (simp add: find_char_or_comment_def find_from_hit)
  moreover have "cut_at (n @ 93 # rstrip junk) (93 # rstrip junk) = n" by (rule cut_at_append)
  ultimately show ?thesis
    using assms by (simp add: process_line_def Let_def start section_line_def strncpy0_def)
qed

lemma process_quiet:
  assumes "ini_item_ok x" "skip_bom k (item_text x @ [10]) = item_text x @ [10]"
    and "(\<exists>p m c. x = Comment p m c) \<or> (\<exists>p. x = Blank p)"
  shows "process_line h k (item_text x @ [10]) st = st"
  using assms(3)
proof
  assume "\<exists>p m c. x = Comment p m c"
  then obtain p m c where x: "x = Comment p m c" by blast
  with assms(1) have m: "\<not> isspace m" "m = 35 \<or> m = 59" and p: "blanks p" by auto
  have "lskip (rstrip (item_text x @ [10])) = m # rstrip c"
    using rstrip_stop [OF m(1), of p "c @ [10]"] m(1) p by (simp add: x rstrip_newline lskip_blanks)
  with assms(2) m(2) show ?thesis by (auto simp: process_line_def Let_def)
next
  assume "\<exists>p. x = Blank p"
  then obtain p where x: "x = Blank p" by blast
  with assms(1) have "lskip (rstrip (item_text x @ [10])) = []"
    using blanks_strip [of p] by (simp add: rstrip_newline)
  with assms(2) show ?thesis by (simp add: process_line_def Let_def)
qed

lemma process_continuation:
  assumes ok: "ini_item_ok (Continuation p v)" and bom: "skip_bom k (item_text (Continuation p v) @ [10]) = item_text (Continuation p v) @ [10]"
    and name: "prev_name st \<noteq> []"
  shows "process_line h k (item_text (Continuation p v) @ [10]) st = call_handler h k (prev_name st) v st"
proof -
  have v: "v \<noteq> []" "\<not> isspace (last v)" "\<not> isspace (hd v)" "hd v \<noteq> 35" "hd v \<noteq> 59" and p: "p \<noteq> []" "blanks p"
    using ok by (auto simp: stripped_def)
  have "rstrip ((p @ v) @ [10]) = p @ v" using v by (simp add: rstrip_newline rstrip_id del: append_assoc)
  moreover have "lskip (p @ v) = v" using p v by (simp add: lskip_blanks lskip_id)
  moreover have "deref v = hd v" using v(1) by (cases v) simp_all
  ultimately show ?thesis using bom v p name by (simp add: process_line_def Let_def)
qed

lemma value_text:
  assumes "blanks q" "stripped v" "passes False 0 v" "comment_ok v c"
  shows "\<exists>t. rstrip (q @ v @ comment_text c) = t \<and> set t \<subseteq> set (q @ v @ comment_text c) \<and>
    (let u = lskip t; e = find_char_or_comment u 0 in rstrip (if deref e = 59 then cut_at u e else u) = v)"
proof (cases c)
  case None
  show ?thesis
  proof (cases "v = []")
    case True
    then show ?thesis using blanks_strip [OF assms(1)] None by (simp add: Let_def find_char_or_comment_def)
  next
    case False
    with assms have v: "\<not> isspace (last v)" "\<not> isspace (hd v)" by (simp_all add: stripped_def)
    have "rstrip (q @ v) = q @ v" using v False by (intro rstrip_id) simp
    moreover have "lskip (q @ v) = v" using assms(1) v by (simp add: lskip_blanks lskip_id)
    moreover have "find_char_or_comment v 0 = []" using assms(3) by (simp add: find_char_or_comment_def find_from_all)
    ultimately show ?thesis using None v by (simp add: Let_def rstrip_id)
  qed
next
  case (Some pc)
  obtain p d where c: "c = Some (p, d)" using Some by (cases pc) simp
  with assms have v: "v \<noteq> []" "\<not> isspace (last v)" "\<not> isspace (hd v)" and p: "p \<noteq> []" "blanks p"
    by (simp_all add: stripped_def)
  have "rstrip (q @ v @ comment_text c) = q @ v @ p @ 59 # rstrip d"
    using rstrip_stop [of 59 "q @ v @ p" d] by (simp add: c)
  moreover have "set (rstrip d) \<subseteq> set d"
    by (induction d rule: rev_induct) (auto simp: rstrip_snoc)
  moreover have "lskip (q @ v @ p @ 59 # rstrip d) = (v @ p) @ 59 # rstrip d"
    using assms(1) v by (simp add: lskip_blanks lskip_id hd_append)
  moreover have "find_char_or_comment ((v @ p) @ 59 # rstrip d) 0 = 59 # rstrip d"
  proof -
    have "passes False 0 (v @ p)" using assms(3) p by (simp add: passes_append passes_blanks)
    moreover have "isspace (last (v @ p))" using p by (simp add: blanks_def)
    ultimately show ?thesis using p by (simp add: find_char_or_comment_def find_from_passes del: append_assoc)
  qed
  moreover have "rstrip (v @ p) = v" using p(2) v(1,2) by (simp add: rstrip_blanks rstrip_id)
  ultimately show ?thesis by (simp add: c Let_def del: append_assoc) auto
qed

lemma process_entry:
  assumes ok: "ini_item_ok (Entry n p sep q v c)"
    and bom: "skip_bom k (item_text (Entry n p sep q v c) @ [10]) = item_text (Entry n p sep q v c) @ [10]"
  shows "process_line h k (item_text (Entry n p sep q v c) @ [10]) st = call_handler h k n v (st\<lparr>prev_name := n\<rparr>)"
proof -
  have n: "n \<noteq> []" "\<not> isspace (hd n)" "\<not> isspace (last n)" "hd n \<noteq> 35" "hd n \<noteq> 59" "hd n \<noteq> 91" "length n \<le> 49"
    and p: "blanks p" and sep: "\<not> isspace sep" "sep = 61 \<or> sep = 58"
    using ok by (auto simp: stripped_def)
  obtain t where t: "rstrip (q @ v @ comment_text c) = t" "set t \<subseteq> set (q @ v @ comment_text c)"
    and val: "(let u = lskip t; e = find_char_or_comment u 0 in rstrip (if deref e = 59 then cut_at u e else u) = v)"
    using value_text [of q v c] ok by auto
  define s where "s = (n @ p) @ sep # t"
  have s: "rstrip (item_text (Entry n p sep q v c) @ [10]) = s"
    using rstrip_stop [OF sep(1), of "n @ p" "(q @ v @ comment_text c) @ [10]"] t(1)
    by (simp only: s_def item_text.simps append_assoc append_Cons rstrip_newline)
      (metis append_assoc rstrip_newline)
  have skip: "lskip s = s" and hd_s: "deref s = hd n" "s \<noteq> []"
    using n(1,2) by (cases n; simp add: s_def)+
  have cut: "cut_at s (sep # t) = n @ p" by (simp only: s_def cut_at_append)
  have name: "rstrip (n @ p) = n" using p n by (simp add: rstrip_blanks rstrip_id)
  have finish: "name_value h k s st = call_handler h k n v (st\<lparr>prev_name := n\<rparr>)"
    if "(if deref (find_char_or_comment s 61) \<noteq> 61 then find_char_or_comment s 58 else find_char_or_comment s 61) = sep # t"
    using that val sep(2) n(7) by (auto simp: name_value_def Let_def cut name strncpy0_def)
  have "name_value h k s st = call_handler h k n v (st\<lparr>prev_name := n\<rparr>)"
  proof (cases "sep = 61")
    case True
    with ok have "find_char_or_comment s 61 = sep # t"
      by (simp add: find_char_or_comment_def s_def find_from_hit del: append_assoc)
    with True show ?thesis by (intro finish) simp
  next
    case False
    with ok sep(2) have sep58: "sep = 58" "passes False 58 (n @ p)" "61 \<notin> set (item_text (Entry n p sep q v c))" by auto
    then have "61 \<notin> set s" using t(2) by (auto simp: s_def)
    then have "deref (find_char_or_comment s 61) \<noteq> 61"
      unfolding find_char_or_comment_def by (intro find_from_absent) simp_all
    moreover have "find_char_or_comment s 58 = sep # t"
      using sep58 by (simp add: find_char_or_comment_def s_def find_from_hit del: append_assoc)
    ultimately show ?thesis by (intro finish) simp
  qed
  then show ?thesis
    using bom n hd_s unfolding process_line_def Let_def bom s skip by simp
qed

section \<open>Files\<close>

lemma parse_lines_step:
  assumes "on_line s"
  shows "parse_lines h k (s @ 10 # rest) st = parse_lines h (k + 1) rest (process_line h (k + 1) (s @ [10]) st)"
proof -
  have "takeWhile (\<lambda>c. c \<noteq> 10) (s @ 10 # rest) = s" using assms by (auto simp: on_line_def takeWhile_append)
  then have k: "fgets_length 200 (s @ 10 # rest) = Suc (length s)"
    using assms by (simp add: fgets_length_def on_line_def)
  have "takeWhile (\<lambda>c. c \<noteq> 0) (s @ [10]) = s @ [10]" using assms by (auto simp: on_line_def)
  then show ?thesis by (subst parse_lines.simps) (simp add: k Let_def)
qed

text \<open>What a call of the handler does to the state, and to the result of a run.\<close>

lemma call_handler_frame [simp]:
  "cur_section (call_handler h k n v st) = cur_section st" "prev_name (call_handler h k n v st) = prev_name st"
  by (simp_all add: call_handler_def note_error_def Let_def split: prod.split)

lemma call_handler_run:
  "run_calls h ((k, cur_section st, n, v) # cs) (user st, ini_error st) =
    run_calls h cs (user (call_handler h k n v st), ini_error (call_handler h k n v st))"
  by (simp add: call_handler_def note_error_def Let_def split: prod.split)

definition no_bom :: "bytes \<Rightarrow> bool" where
  "no_bom bs \<longleftrightarrow> take 3 bs \<noteq> [239, 187, 191]"

lemma skip_bom_item:
  assumes "k \<noteq> 1 \<or> no_bom (s @ rest)"
  shows "skip_bom k s = s"
proof -
  have "take 3 (s @ rest) = [239, 187, 191]" if "take 3 s = [239, 187, 191]"
  proof -
    have "length (take 3 s) = 3" by (simp add: that)
    then have "3 \<le> length s" by simp
    with that show ?thesis by simp
  qed
  with assms show ?thesis by (auto simp: skip_bom_def no_bom_def)
qed

lemma file_text_Cons: "file_text (x # xs) = (item_text x @ [10]) @ file_text xs"
  by (simp add: file_text_def)

lemma parse_file_text:
  assumes "items_ok named xs" "named \<Longrightarrow> prev_name st \<noteq> []" "0 \<le> k" "k \<noteq> 0 \<or> no_bom (file_text xs)"
  shows "(let st' = parse_lines h k (file_text xs) st in (user st', ini_error st')) =
    run_calls h (item_calls (cur_section st) (prev_name st) k xs) (user st, ini_error st)"
  using assms
proof (induction xs arbitrary: named st k)
  case Nil
  then show ?case by (simp add: file_text_def parse_lines.simps)
next
  case (Cons x xs)
  define st1 where "st1 = process_line h (k + 1) (item_text x @ [10]) st"
  have x: "ini_item_ok x" "on_line (item_text x)" using Cons.prems(1) by simp_all
  have bom: "skip_bom (k + 1) (item_text x @ [10]) = item_text x @ [10]"
    using Cons.prems(3,4) by (intro skip_bom_item [where rest = "file_text xs"]) (auto simp: file_text_Cons)
  have step: "parse_lines h k (file_text (x # xs)) st = parse_lines h (k + 1) (file_text xs) st1"
    using parse_lines_step [OF x(2), of h k "file_text xs" st] by (simp add: file_text_Cons st1_def)
  have go: "(let st' = parse_lines h (k + 1) (file_text xs) st1 in (user st', ini_error st')) =
      run_calls h (item_calls (cur_section st1) (prev_name st1) (k + 1) xs) (user st1, ini_error st1)"
    if "items_ok b xs" "b \<Longrightarrow> prev_name st1 \<noteq> []" for b
    using Cons.IH [of b st1 "k + 1"] that Cons.prems(3) by simp
  show ?case
  proof (cases x)
    case (Section n junk)
    have "st1 = st\<lparr>cur_section := n, prev_name := []\<rparr>"
      using process_section x(1) bom unfolding st1_def Section by blast
    with go [of False] Cons.prems(1) show ?thesis unfolding step by (simp add: Section)
  next
    case (Entry n p sep q v c)
    have st1: "st1 = call_handler h (k + 1) n v (st\<lparr>prev_name := n\<rparr>)"
      using process_entry x(1) bom unfolding st1_def Entry by blast
    have "n \<noteq> []" using x(1) by (simp add: Entry)
    with go [of True] Cons.prems(1) call_handler_run [of h "k + 1" "st\<lparr>prev_name := n\<rparr>" n v] show ?thesis
      unfolding step by (simp add: Entry st1)
  next
    case (Continuation p v)
    have named: "named" using Cons.prems(1) by (simp add: Continuation)
    have st1: "st1 = call_handler h (k + 1) (prev_name st) v st"
      using process_continuation x(1) bom Cons.prems(2) [OF named] unfolding st1_def Continuation by blast
    with go [of named] named Cons.prems(1,2) call_handler_run [of h "k + 1" st "prev_name st" v] show ?thesis
      unfolding step by (simp add: Continuation st1)
  next
    case (Comment p m c)
    have "st1 = st" using process_quiet [OF x(1) bom] unfolding st1_def Comment by blast
    with go [of named] Cons.prems(1,2) show ?thesis unfolding step by (simp add: Comment)
  next
    case (Blank p)
    have "st1 = st" using process_quiet [OF x(1) bom] unfolding st1_def Blank by blast
    with go [of named] Cons.prems(1,2) show ?thesis unfolding step by (simp add: Blank)
  qed
qed

text \<open>
  C37 (INI files are read back).  For a file of sections, entries, continuations, comments and blank lines
  that fit into the buffers of the parser, \<open>ini_parse_file\<close> calls the handler for the entries and
  continuations, in the order of the file, each with its section, name and value, whatever the blanks and
  comments around them; all calls are made, and the result is the number of the first line whose call
  failed, or 0.
\<close>

theorem ini_parse_file_reads_back:
  assumes "items_ok False xs" "no_bom (file_text xs)"
  shows "ini_parse_file h u (file_text xs) = run_calls h (item_calls [] [] 0 xs) (u, 0)"
  using parse_file_text [OF assms(1), of "\<lparr>cur_section = [], prev_name = [], ini_error = 0, user = u\<rparr>" 0 h] assms(2)
  by (simp add: ini_parse_file_def)

definition demo_items :: "ini_item list" where
  "demo_items =
    [Comment [] 35 (cstr '' demo''), Section (cstr ''net'') [],
     Entry (cstr ''host'') [32] 61 [32] (cstr ''a.b'') (Some ([32], cstr '' where'')),
     Continuation [9] (cstr ''c.d''), Blank [32], Entry (cstr ''port'') [] 58 [] (cstr ''80'') None]"

lemma ini_parse_file_reads_back_witness:
  "ini_parse_file (\<lambda>u s n v. (u @ [(s, n, v)], v \<noteq> cstr ''c.d'')) [] (file_text demo_items) =
    ([(cstr ''net'', cstr ''host'', cstr ''a.b''), (cstr ''net'', cstr ''host'', cstr ''c.d''),
      (cstr ''net'', cstr ''port'', cstr ''80'')], 4)"
proof -
  have "items_ok False demo_items" by code_simp
  moreover have "no_bom (file_text demo_items)" by code_simp
  ultimately have "ini_parse_file (\<lambda>u s n v. (u @ [(s, n, v)], v \<noteq> cstr ''c.d'')) [] (file_text demo_items)
      = run_calls (\<lambda>u s n v. (u @ [(s, n, v)], v \<noteq> cstr ''c.d'')) (item_calls [] [] 0 demo_items) ([], 0)"
    by (rule ini_parse_file_reads_back)
  also have "\<dots> = ([(cstr ''net'', cstr ''host'', cstr ''a.b''), (cstr ''net'', cstr ''host'', cstr ''c.d''),
      (cstr ''net'', cstr ''port'', cstr ''80'')], 4)"
    by code_simp
  finally show ?thesis .
qed

section \<open>What the parser gets wrong\<close>

text \<open>A comment with nothing but a blank in front of it is taken for a value.\<close>

lemma comment_taken_for_value:
  "ini_parse_file (\<lambda>u s n v. (u @ [(n, v)], True)) [] (cstr ''a = ; none'' @ [10]) = ([(cstr ''a'', cstr ''; none'')], 0)"
  by code_simp

text \<open>A continuation may not begin with a hash, but may have a comment in it, which is kept.\<close>

lemma comment_kept_in_continuation:
  "ini_parse_file (\<lambda>u s n v. (u @ [(n, v)], True)) [] (cstr ''a = 1'' @ [10] @ cstr '' 2 ; two'' @ [10])
    = ([(cstr ''a'', cstr ''1''), (cstr ''a'', cstr ''2 ; two'')], 0)"
  by code_simp

end
