(* ===== verification/Int_To_Str.thy ===== *)
theory Int_To_Str
  imports Prelude
begin

text \<open>
  The conversions of \<open>C/dpdk/int2str/int2str.h\<close> and \<open>int2str.c\<close>, which append the fields of a record to a
  buffer, each with a delimiter behind it: hexadecimal numbers, short strings, and 16-bit numbers from a
  table of their texts.  A destination is its memory and the place of the pointer; \<open>None\<close> is an access
  outside of a memory or of an array.  \<open>snprintf\<close> is \<open>decimal_text\<close>.
\<close>

section \<open>Hexadecimal numbers\<close>

definition hexArray :: bytes where
  "hexArray = cstr ''0123456789ABCDEF''"

text \<open>The first loop of \<open>Int2Hex\<close>: the digits, last first, in an array of sixteen; the second loop writes
  them backwards.\<close>

function digit_loop :: "int \<Rightarrow> int list \<Rightarrow> nat \<Rightarrow> (int list \<times> nat) option" where
  "digit_loop num a i =
    (if num > 0 then
       if i < length a then digit_loop (cdiv num 16) (a[i := cmod num 16]) (i + 1) else None
     else Some (a, i))"
  by pat_completeness auto

termination by (relation "measure (\<lambda>(num, a, i). nat num)") auto

declare digit_loop.simps [simp del]

fun output_loop :: "bytes \<Rightarrow> int list \<Rightarrow> nat \<Rightarrow> bytes \<Rightarrow> nat \<Rightarrow> (bytes \<times> nat) option" where
  "output_loop hex a 0 dest lp = Some (dest, lp)"
| "output_loop hex a (Suc i) dest lp =
    (if nat (a ! i) < length hex then
       case put_bytes dest lp [hex ! nat (a ! i)] of None \<Rightarrow> None
       | Some dest' \<Rightarrow> output_loop hex a i dest' (lp + 1)
     else None)"

definition Int2Hex :: "bytes \<Rightarrow> int \<Rightarrow> bytes \<Rightarrow> (bytes \<times> nat) option" where
  "Int2Hex hex num dest =
    (case digit_loop num (replicate 16 0) 0 of None \<Rightarrow> None
     | Some (a, i) \<Rightarrow> output_loop hex a i dest 0)"

text \<open>The digits of a number, first to last, and the number that digits denote.\<close>

fun hex_digits :: "nat \<Rightarrow> nat list" where
  "hex_digits n = (if n = 0 then [] else hex_digits (n div 16) @ [n mod 16])"

declare hex_digits.simps [simp del]

definition hex_number :: "nat list \<Rightarrow> nat" where
  "hex_number ds = foldl (\<lambda>v d. v * 16 + d) 0 ds"

lemma hex_digits_value: "hex_number (hex_digits n) = n"
proof (induction n rule: hex_digits.induct)
  case (1 n)
  then show ?case by (subst hex_digits.simps) (simp add: hex_number_def)
qed

lemma hex_digits_ok:
  "(\<forall>d\<in>set (hex_digits n). d < 16) \<and> (hex_digits n \<noteq> [] \<longrightarrow> hd (hex_digits n) \<noteq> 0) \<and> (hex_digits n = [] \<longleftrightarrow> n = 0)"
proof (induction n rule: hex_digits.induct)
  case (1 n)
  show ?case
  proof (cases "n = 0")
    case True
    then show ?thesis by (simp add: hex_digits.simps)
  next
    case False
    then have "hex_digits n = hex_digits (n div 16) @ [n mod 16]" by (simp add: hex_digits.simps [of n])
    with 1 [OF False] False show ?thesis by (auto simp: hd_append)
  qed
qed

lemma length_hex_digits: "n < 16 ^ k \<Longrightarrow> length (hex_digits n) \<le> k"
proof (induction k arbitrary: n)
  case 0
  then show ?case by (simp add: hex_digits.simps)
next
  case (Suc k)
  then have "n div 16 < 16 ^ k" by (simp add: less_mult_imp_div_less mult.commute)
  from Suc.IH [OF this] show ?case by (subst hex_digits.simps) simp
qed

lemma digit_loop_eq:
  "i + length (hex_digits (nat num)) \<le> length a \<Longrightarrow>
    digit_loop num a i =
      Some (take i a @ map int (rev (hex_digits (nat num))) @ drop (i + length (hex_digits (nat num))) a,
        i + length (hex_digits (nat num)))"
proof (induction num a i rule: digit_loop.induct)
  case (1 num a i)
  show ?case
  proof (cases "num > 0")
    case True
    define ds where "ds = hex_digits (nat (num div 16))"
    have ds: "hex_digits (nat num) = ds @ [nat num mod 16]"
      using True by (subst hex_digits.simps) (simp add: ds_def nat_div_distrib)
    have i: "i < length a" and room: "i + 1 + length ds \<le> length a" using 1(2) by (simp_all add: ds)
    have "digit_loop num a i = digit_loop (cdiv num 16) (a[i := cmod num 16]) (i + 1)"
      using True i by (subst digit_loop.simps) simp
    also have "\<dots> = Some (take (i + 1) (a[i := cmod num 16]) @ map int (rev ds) @ drop (i + 1 + length ds) (a[i := cmod num 16]),
        i + 1 + length ds)"
      using 1(1) [OF True i] True room by (simp add: ds_def)
    also have "take (i + 1) (a[i := cmod num 16]) = take i a @ [int (nat num mod 16)]"
      using True i by (simp add: take_Suc_conv_app_nth zmod_int)
    finally show ?thesis by (simp add: ds)
  qed (subst digit_loop.simps, simp add: hex_digits.simps)
qed

lemma put_bytes_prefix:
  "put_bytes (pre @ m) (length pre) bs = map_option (\<lambda>m'. pre @ m') (put_bytes m 0 bs)"
  by (simp add: put_bytes_def)

lemma output_loop_eq:
  assumes "length hex = 16"
  shows "\<forall>j<i. 0 \<le> a ! j \<and> a ! j < 16 \<Longrightarrow> i \<le> length a \<Longrightarrow> lp + i \<le> length dest \<Longrightarrow>
    output_loop hex a i dest lp =
      Some (take lp dest @ map (\<lambda>d. hex ! nat d) (rev (take i a)) @ drop (lp + i) dest, lp + i)"
proof (induction i arbitrary: dest lp)
  case (Suc i)
  define c where "c = hex ! nat (a ! i)"
  define dest' where "dest' = take lp dest @ [c] @ drop (lp + 1) dest"
  have "nat (a ! i) < length hex" using Suc.prems(1) assms by auto
  moreover have "put_bytes dest lp [c] = Some dest'" using Suc.prems(3) by (simp add: put_bytes_def dest'_def)
  ultimately have "output_loop hex a (Suc i) dest lp = output_loop hex a i dest' (lp + 1)" by (simp add: c_def)
  also have "\<dots> = Some (take (lp + 1) dest' @ map (\<lambda>d. hex ! nat d) (rev (take i a)) @ drop (lp + 1 + i) dest', lp + 1 + i)"
    using Suc.prems by (intro Suc.IH) (simp_all add: dest'_def)
  also have "take (lp + 1) dest' = take lp dest @ [c]" using Suc.prems(3) by (simp add: dest'_def)
  also have "drop (lp + 1 + i) dest' = drop (lp + Suc i) dest"
    using Suc.prems(3) by (simp add: dest'_def add.commute)
  also have "map (\<lambda>d. hex ! nat d) (rev (take (Suc i) a)) = c # map (\<lambda>d. hex ! nat d) (rev (take i a))"
    using Suc.prems(2) by (simp add: take_Suc_conv_app_nth c_def)
  ultimately show ?case by simp
qed simp

lemma Int2Hex_eq:
  assumes num: "num < 2147483648" and dest: "8 \<le> length dest"
  shows "Int2Hex hexArray num dest =
    (let ds = hex_digits (nat num) in
     Some (map (\<lambda>d. hexArray ! d) ds @ drop (length ds) dest, length ds))"
proof -
  define ds where "ds = hex_digits (nat num)"
  define a where "a = map int (rev ds) @ replicate (16 - length ds) 0"
  have "nat num < 16 ^ 8" using num by simp
  then have len: "length ds \<le> 8" unfolding ds_def by (rule length_hex_digits)
  have loop: "digit_loop num (replicate 16 0) 0 = Some (a, length ds)"
    using digit_loop_eq [of 0 num "replicate 16 0"] len by (simp add: ds_def a_def)
  have "\<forall>j<length ds. 0 \<le> a ! j \<and> a ! j < 16"
    using hex_digits_ok [of "nat num"] by (auto simp: a_def nth_append rev_nth ds_def)
  from output_loop_eq [OF _ this, of hexArray 0 dest] len dest
  have "output_loop hexArray a (length ds) dest 0
      = Some (map (\<lambda>d. hexArray ! nat d) (rev (take (length ds) a)) @ drop (length ds) dest, length ds)"
    by (simp add: hexArray_def a_def)
  also have "rev (take (length ds) a) = map int ds" by (simp add: a_def rev_map)
  finally show ?thesis using loop by (simp add: Int2Hex_def Let_def ds_def comp_def)
qed

section \<open>Short strings\<close>

text \<open>\<open>*(uintN_t *)dst = *(const uintN_t *)src\<close>, and both pointers moved; the memories are apart.\<close>

definition copy_unit :: "nat \<Rightarrow> bytes \<Rightarrow> nat \<times> nat \<times> bytes \<Rightarrow> (nat \<times> nat \<times> bytes) option" where
  "copy_unit k src = (\<lambda>(s, d, m).
    case get_bytes src s k of None \<Rightarrow> None
    | Some bs \<Rightarrow> map_option (\<lambda>m'. (s + k, d + k, m')) (put_bytes m d bs))"

definition when_bit :: "nat \<Rightarrow> nat \<Rightarrow> bytes \<Rightarrow> nat \<times> nat \<times> bytes \<Rightarrow> (nat \<times> nat \<times> bytes) option" where
  "when_bit n i src x = (if bit n i then copy_unit (2 ^ i) src x else Some x)"

definition APPFMT_ShortStrToBufNoDelim :: "bytes \<Rightarrow> nat \<Rightarrow> bytes \<times> nat \<Rightarrow> (bytes \<times> nat) option" where
  "APPFMT_ShortStrToBufNoDelim src n = (\<lambda>(m, dst).
    case Option.bind (when_bit n 0 src (0, dst, m)) (\<lambda>x.
      Option.bind (when_bit n 1 src x) (\<lambda>x.
      Option.bind (when_bit n 2 src x) (when_bit n 3 src))) of
      None \<Rightarrow> None
    | Some (s, d, m') \<Rightarrow> Some (m', dst + n))"

definition APPFMT_DELIMITER :: u8 where
  "APPFMT_DELIMITER = 124"

definition put_delimiter :: "bytes \<times> nat \<Rightarrow> (bytes \<times> nat) option" where
  "put_delimiter = (\<lambda>(m, dst). map_option (\<lambda>m'. (m', dst + 1)) (put_bytes m dst [APPFMT_DELIMITER]))"

definition APPFMT_ShortStrToBuf :: "bytes \<Rightarrow> nat \<Rightarrow> bytes \<times> nat \<Rightarrow> (bytes \<times> nat) option" where
  "APPFMT_ShortStrToBuf src n x = Option.bind (APPFMT_ShortStrToBufNoDelim src n x) put_delimiter"

definition APPFMT_StrToBuf :: "bytes \<Rightarrow> nat \<Rightarrow> bytes \<times> nat \<Rightarrow> (bytes \<times> nat) option" where
  "APPFMT_StrToBuf src n = (\<lambda>(m, dst).
    case get_bytes src 0 n of None \<Rightarrow> None
    | Some bs \<Rightarrow> (case put_bytes m dst bs of None \<Rightarrow> None | Some m' \<Rightarrow> put_delimiter (m', dst + n)))"

definition APPFMT_CharToBuf :: "u8 \<Rightarrow> bytes \<times> nat \<Rightarrow> (bytes \<times> nat) option" where
  "APPFMT_CharToBuf c = (\<lambda>(m, dst).
    case put_bytes m dst [c] of None \<Rightarrow> None | Some m' \<Rightarrow> put_delimiter (m', dst + 1))"

lemma copy_unit_eq:
  "s + k \<le> length src \<Longrightarrow> d + k \<le> length m \<Longrightarrow>
    copy_unit k src (s, d, m) = Some (s + k, d + k, take d m @ take k (drop s src) @ drop (d + k) m)"
  by (simp add: copy_unit_def get_bytes_def put_bytes_def)

text \<open>After the units up to bit \<open>i\<close>, what is below that bit of the length has been copied.\<close>

definition copied :: "bytes \<Rightarrow> bytes \<Rightarrow> nat \<Rightarrow> nat \<Rightarrow> nat \<times> nat \<times> bytes" where
  "copied src m dst n = (n, dst + n, take dst m @ take n src @ drop (dst + n) m)"

lemma when_bit_copied:
  assumes "n \<le> length src" "dst + n \<le> length m"
  shows "when_bit n i src (copied src m dst (n mod 2 ^ i)) = Some (copied src m dst (n mod 2 ^ Suc i))"
proof (cases "bit n i")
  case True
  define a where "a = n mod 2 ^ i"
  have next_part: "n mod 2 ^ Suc i = a + 2 ^ i"
    using True take_bit_Suc_from_most [of i n] by (simp add: a_def take_bit_eq_mod)
  have le: "a + 2 ^ i \<le> n" unfolding next_part [symmetric] by simp
  define m' where "m' = take dst m @ take a src @ drop (dst + a) m"
  have len: "length m' = length m" using assms le by (simp add: m'_def)
  have "copy_unit (2 ^ i) src (a, dst + a, m')
      = Some (a + 2 ^ i, dst + a + 2 ^ i, take (dst + a) m' @ take (2 ^ i) (drop a src) @ drop (dst + a + 2 ^ i) m')"
    using assms le len by (intro copy_unit_eq) simp_all
  also have "take (dst + a) m' = take dst m @ take a src" using assms le by (simp add: m'_def)
  also have "drop (dst + a + 2 ^ i) m' = drop (dst + a + 2 ^ i) m" using assms le by (simp add: m'_def ac_simps)
  finally show ?thesis
    unfolding next_part using True
    by (simp add: when_bit_def copied_def take_add add.assoc flip: a_def m'_def)
next
  case False
  then have "n mod 2 ^ Suc i = n mod 2 ^ i"
    using take_bit_Suc_from_most [of i n] by (simp add: take_bit_eq_mod)
  with False show ?thesis by (simp add: when_bit_def)
qed

lemma ShortStr_eq:
  assumes "n \<le> length src" "dst + n \<le> length m"
  shows "APPFMT_ShortStrToBufNoDelim src n (m, dst) =
    Some (take dst m @ take (n mod 16) src @ drop (dst + n mod 16) m, dst + n)"
proof -
  define x where "x i = copied src m dst (n mod 2 ^ i)" for i :: nat
  have w: "when_bit n i src (x i) = Some (x (Suc i))" for i
    unfolding x_def by (rule when_bit_copied [OF assms])
  have "when_bit n 0 src (0, dst, m) = Some (x 1)" using w [of 0] by (simp add: x_def copied_def)
  moreover have "when_bit n 1 src (x 1) = Some (x 2)" using w [of 1] by (simp add: numeral_2_eq_2)
  moreover have "when_bit n 2 src (x 2) = Some (x 3)" using w [of 2] by (simp add: eval_nat_numeral)
  moreover have "when_bit n 3 src (x 3) = Some (x 4)" using w [of 3] by (simp add: eval_nat_numeral)
  moreover have "x 4 = (n mod 16, dst + n mod 16, take dst m @ take (n mod 16) src @ drop (dst + n mod 16) m)"
    by (simp add: x_def copied_def)
  ultimately show ?thesis by (simp add: APPFMT_ShortStrToBufNoDelim_def)
qed

section \<open>16-bit numbers\<close>

text \<open>An entry of the table: the length of a text and the eight bytes that hold it.\<close>

record u16_entry =
  StrLen :: u8
  Str :: bytes

text \<open>\<open>InitU16StrMap\<close>: \<open>buf\<close> is the array on the stack, of eight bytes, which the numbers share.\<close>

fun init_entries :: "nat list \<Rightarrow> bytes \<Rightarrow> u16_entry list" where
  "init_entries [] buf = []"
| "init_entries (i # js) buf =
    (let s = decimal_text i;
         buf' = take 7 s @ [0] @ drop (length (take 7 s) + 1) buf in
     \<lparr>StrLen = of_nat (length (takeWhile (\<lambda>c. c \<noteq> 0) buf')), Str = take 8 buf'\<rparr> # init_entries js buf')"

definition InitU16StrMap :: "bytes \<Rightarrow> u16_entry list" where
  "InitU16StrMap buf = init_entries [0..<65536] buf"

definition APPFMT_U16ToBuf :: "u16_entry list \<Rightarrow> u16 \<Rightarrow> bytes \<times> nat \<Rightarrow> (bytes \<times> nat) option" where
  "APPFMT_U16ToBuf u16Map x = (\<lambda>(m, dst).
    if unat x < length u16Map then
      (case put_bytes m dst (Str (u16Map ! unat x)) of None \<Rightarrow> None
       | Some m' \<Rightarrow> put_delimiter (m', dst + unat (StrLen (u16Map ! unat x))))
    else None)"

definition APPFMT_U8ToBuf :: "u16_entry list \<Rightarrow> u8 \<Rightarrow> bytes \<times> nat \<Rightarrow> (bytes \<times> nat) option" where
  "APPFMT_U8ToBuf u16Map x = APPFMT_U16ToBuf u16Map (ucast x)"

lemma decimal_text_no_nul: "0 \<notin> set (decimal_text n)"
proof (induction n rule: decimal_text.induct)
  case (1 n)
  have "(48 + of_nat (n mod 10) :: u8) \<noteq> 0"
  proof
    assume "(48 + of_nat (n mod 10) :: u8) = 0"
    then have "(of_nat (48 + n mod 10) :: u8) = 0" by (simp only: of_nat_add of_nat_numeral)
    then have "(48 + n mod 10) mod 256 = 0" by (simp only: word_of_nat_eq_0_iff) (simp add: dvd_eq_mod_eq_0)
    moreover have "48 + n mod 10 < 256" using mod_less_divisor [of 10 n] by linarith
    ultimately show False by simp
  qed
  then show ?case using 1 by (subst decimal_text.simps) simp
qed

text \<open>An entry holds the text of its number and has room for the terminating NUL.\<close>

definition holds_text :: "nat \<Rightarrow> u16_entry \<Rightarrow> bool" where
  "holds_text i e \<longleftrightarrow> length (Str e) = 8 \<and> unat (StrLen e) = length (decimal_text i) \<and>
    take (length (decimal_text i)) (Str e) = decimal_text i"

lemma init_entries_hold:
  "length buf = 8 \<Longrightarrow> \<forall>i\<in>set js. i < 65536 \<Longrightarrow>
    length (init_entries js buf) = length js \<and> (\<forall>k<length js. holds_text (js ! k) (init_entries js buf ! k))"
proof (induction js arbitrary: buf)
  case (Cons i js)
  define s where "s = decimal_text i"
  define buf' where "buf' = s @ [0] @ drop (length s + 1) buf"
  have "length s \<le> 5" using Cons.prems(2) length_decimal_text [of i 4] by (simp add: s_def)
  then have seven: "take 7 s = s" and len: "length buf' = 8" using Cons.prems(1) by (simp_all add: buf'_def)
  have upto_nul: "takeWhile (\<lambda>c. c \<noteq> 0) buf' = s"
    using decimal_text_no_nul [of i] by (auto simp: buf'_def s_def takeWhile_append)
  have step: "init_entries (i # js) buf = \<lparr>StrLen = of_nat (length s), Str = buf'\<rparr> # init_entries js buf'"
    using upto_nul len seven by (simp add: Let_def flip: s_def) (simp add: buf'_def)
  have "holds_text i \<lparr>StrLen = of_nat (length s), Str = buf'\<rparr>"
    using len \<open>length s \<le> 5\<close> by (simp add: holds_text_def s_def [symmetric] unat_of_nat) (simp add: buf'_def)
  moreover have "\<forall>k\<in>set js. k < 65536" using Cons.prems(2) by simp
  ultimately show ?case
    using Cons.IH [OF len] by (simp only: step) (auto simp: nth_Cons split: nat.splits)
qed simp

lemma U16_eq:
  assumes "length buf = 8" "dst + 8 \<le> length m"
  shows "\<exists>m'. APPFMT_U16ToBuf (InitU16StrMap buf) x (m, dst) = Some (m', dst + length (decimal_text (unat x)) + 1) \<and>
    length m' = length m \<and>
    take (dst + length (decimal_text (unat x)) + 1) m' = take dst m @ decimal_text (unat x) @ [APPFMT_DELIMITER]"
proof -
  define s where "s = decimal_text (unat x)"
  define e where "e = InitU16StrMap buf ! unat x"
  have x: "unat x < 65536" using unsigned_less [of x] by simp
  have len: "length (InitU16StrMap buf) = 65536" and e: "holds_text (unat x) e"
    using init_entries_hold [OF assms(1), of "[0..<65536]"] x by (simp_all add: InitU16StrMap_def e_def)
  have s5: "length s \<le> 5" using x length_decimal_text [of "unat x" 4] by (simp add: s_def)
  define m1 where "m1 = take dst m @ Str e @ drop (dst + 8) m"
  define m2 where "m2 = take (dst + length s) m1 @ [APPFMT_DELIMITER] @ drop (dst + length s + 1) m1"
  have "put_bytes m dst (Str e) = Some m1" using e assms(2) by (simp add: holds_text_def put_bytes_def m1_def)
  moreover have m1: "length m1 = length m" "take (dst + length s) m1 = take dst m @ s"
    using e assms(2) s5 by (simp_all add: holds_text_def m1_def s_def)
  moreover have "put_bytes m1 (dst + length s) [APPFMT_DELIMITER] = Some m2"
    using m1(1) assms(2) s5 by (simp add: put_bytes_def m2_def)
  ultimately have "APPFMT_U16ToBuf (InitU16StrMap buf) x (m, dst) = Some (m2, dst + length s + 1)"
    using x len e by (simp add: APPFMT_U16ToBuf_def put_delimiter_def holds_text_def flip: e_def s_def)
  moreover have "length m2 = length m" "take (dst + length s + 1) m2 = take dst m @ s @ [APPFMT_DELIMITER]"
    using m1 assms(2) s5 by (simp_all add: m2_def)
  ultimately show ?thesis by (auto simp: s_def)
qed

section \<open>Records\<close>

text \<open>A field of a record, the macro that appends it, and its text.\<close>

datatype field = CharField u8 | StrField bytes | ShortField bytes | U16Field u16 | U8Field u8

fun put_field :: "u16_entry list \<Rightarrow> field \<Rightarrow> bytes \<times> nat \<Rightarrow> (bytes \<times> nat) option" where
  "put_field u16Map (CharField c) = APPFMT_CharToBuf c"
| "put_field u16Map (StrField s) = APPFMT_StrToBuf s (length s)"
| "put_field u16Map (ShortField s) = APPFMT_ShortStrToBuf s (length s)"
| "put_field u16Map (U16Field x) = APPFMT_U16ToBuf u16Map x"
| "put_field u16Map (U8Field x) = APPFMT_U8ToBuf u16Map x"

fun put_fields :: "u16_entry list \<Rightarrow> field list \<Rightarrow> bytes \<times> nat \<Rightarrow> (bytes \<times> nat) option" where
  "put_fields u16Map [] x = Some x"
| "put_fields u16Map (f # fs) x = Option.bind (put_field u16Map f x) (put_fields u16Map fs)"

fun record_field_text :: "field \<Rightarrow> bytes" where
  "record_field_text (CharField c) = [c]"
| "record_field_text (StrField s) = s"
| "record_field_text (ShortField s) = s"
| "record_field_text (U16Field x) = decimal_text (unat x)"
| "record_field_text (U8Field x) = decimal_text (unat x)"

fun short_field :: "field \<Rightarrow> bool" where
  "short_field (ShortField s) \<longleftrightarrow> length s < 16"
| "short_field _ \<longleftrightarrow> True"

definition record_text :: "field list \<Rightarrow> bytes" where
  "record_text fs = concat (map (\<lambda>f. record_field_text f @ [APPFMT_DELIMITER]) fs)"

text \<open>What appending bytes to a buffer means: the bytes in front of the pointer, and no others, count.\<close>

definition appends :: "bytes \<times> nat \<Rightarrow> bytes \<Rightarrow> (bytes \<times> nat) option \<Rightarrow> bool" where
  "appends x s y \<longleftrightarrow> (\<exists>m'. y = Some (m', snd x + length s) \<and> length m' = length (fst x) \<and>
    take (snd x + length s) m' = take (snd x) (fst x) @ s)"

lemma appends_delimited:
  assumes "dst + length s + 1 \<le> length m" "length m' = length m" "take (dst + length s) m' = take dst m @ s"
  shows "appends (m, dst) (s @ [APPFMT_DELIMITER]) (put_delimiter (m', dst + length s))"
  using assms by (simp add: appends_def put_delimiter_def put_bytes_def)

lemma unat_u8_u16: "unat (ucast (x :: u8) :: u16) = unat x"
proof -
  have "unat x < 2 ^ 16" using unsigned_less [of x, where ?'a = nat] by simp
  then show ?thesis by (simp add: unsigned_ucast_eq take_bit_nat_eq_self)
qed

lemma put_field_appends:
  assumes buf: "length buf = 8" and room: "dst + length (record_field_text f) + 8 \<le> length m" and short: "short_field f"
  shows "appends (m, dst) (record_field_text f @ [APPFMT_DELIMITER]) (put_field (InitU16StrMap buf) f (m, dst))"
proof (cases f)
  case (CharField c)
  with room appends_delimited [of dst "[c]" m "take dst m @ [c] @ drop (dst + 1) m"] show ?thesis
    by (simp add: APPFMT_CharToBuf_def put_bytes_def)
next
  case (StrField s)
  with room appends_delimited [of dst s m "take dst m @ s @ drop (dst + length s) m"] show ?thesis
    by (simp add: APPFMT_StrToBuf_def put_bytes_def get_bytes_def)
next
  case (ShortField s)
  with room short ShortStr_eq [of "length s" s dst m]
    appends_delimited [of dst s m "take dst m @ s @ drop (dst + length s) m"] show ?thesis
    by (simp add: APPFMT_ShortStrToBuf_def)
next
  case (U16Field x)
  with room U16_eq [OF buf, of dst m x] show ?thesis by (auto simp: appends_def)
next
  case (U8Field x)
  with room U16_eq [OF buf, of dst m "ucast x"] show ?thesis
    by (auto simp: appends_def APPFMT_U8ToBuf_def unat_u8_u16)
qed

lemma appends_trans:
  assumes "appends x s y" "\<And>z. y = Some z \<Longrightarrow> length (fst z) = length (fst x) \<Longrightarrow> snd z = snd x + length s \<Longrightarrow> appends z t (g z)"
  shows "appends x (s @ t) (Option.bind y g)"
proof -
  obtain m' where m': "y = Some (m', snd x + length s)" "length m' = length (fst x)"
    "take (snd x + length s) m' = take (snd x) (fst x) @ s"
    using assms(1) by (auto simp: appends_def)
  from assms(2) [OF m'(1)] m'(2) have "appends (m', snd x + length s) t (g (m', snd x + length s))" by simp
  with m' show ?thesis by (auto simp: appends_def add.assoc)
qed

lemma put_fields_appends:
  "length buf = 8 \<Longrightarrow> dst + length (record_text fs) + 8 \<le> length m \<Longrightarrow> \<forall>f\<in>set fs. short_field f \<Longrightarrow>
    appends (m, dst) (record_text fs) (put_fields (InitU16StrMap buf) fs (m, dst))"
proof (induction fs arbitrary: m dst)
  case Nil
  then show ?case by (simp add: appends_def record_text_def)
next
  case (Cons f fs)
  have text_eq: "record_text (f # fs) = (record_field_text f @ [APPFMT_DELIMITER]) @ record_text fs"
    by (simp add: record_text_def)
  have "appends (m, dst) (record_field_text f @ [APPFMT_DELIMITER]) (put_field (InitU16StrMap buf) f (m, dst))"
    using Cons.prems by (intro put_field_appends) (simp_all add: text_eq)
  then show ?case
    unfolding text_eq put_fields.simps
  proof (rule appends_trans)
    fix z :: "bytes \<times> nat"
    assume z: "length (fst z) = length (fst (m, dst))" "snd z = snd (m, dst) + length (record_field_text f @ [APPFMT_DELIMITER])"
    have "appends (fst z, snd z) (record_text fs) (put_fields (InitU16StrMap buf) fs (fst z, snd z))"
      using Cons.prems z by (intro Cons.IH) (simp_all add: text_eq)
    then show "appends z (record_text fs) (put_fields (InitU16StrMap buf) fs z)" by simp
  qed
qed

text \<open>A string of sixteen bytes or more leaves a gap: the pointer moves on by its length.\<close>

lemma short_string_gap:
  "16 \<le> length src \<Longrightarrow> length src < 32 \<Longrightarrow> dst + length src \<le> length m \<Longrightarrow>
    APPFMT_ShortStrToBufNoDelim src (length src) (m, dst) =
      Some (take dst m @ take (length src - 16) src @ drop (dst + (length src - 16)) m, dst + length src)"
  using ShortStr_eq [of "length src" src dst m] mod_if [of "length src" 16] by simp

text \<open>\<open>Int2Hex\<close> writes nothing for zero.\<close>

lemma Int2Hex_zero: "Int2Hex hexArray 0 dest = Some (dest, 0)"
  by (simp add: Int2Hex_def digit_loop.simps)

end
