(* ===== verification/Log_Line.thy ===== *)
theory Log_Line
  imports Prelude
begin

text \<open>
  \<open>log_log\<close> of \<open>C/logging/log.c\<close>: a line is put together in a buffer of 512 bytes by calls of \<open>snprintf\<close>,
  whose results are added up.  What they print is a parameter, the pieces of the line; \<open>None\<close> is an
  access outside of the buffer.
\<close>

definition LIBC_LOG_BUF_SIZE :: nat where
  "LIBC_LOG_BUF_SIZE = 512"

definition LOG_LEVEL_ERROR :: int where "LOG_LEVEL_ERROR = 4"
definition LOG_LEVEL_FATAL :: int where "LOG_LEVEL_FATAL = 5"

text \<open>The pieces: date and time, thread, level and source, message, error.\<close>

record log_pieces =
  lp_time :: bytes
  lp_thread :: bytes
  lp_source :: bytes
  lp_message :: bytes
  lp_errno :: bytes

text \<open>\<open>snprintf\<close>: at most \<open>n\<close> bytes with the NUL, nothing at all if \<open>n\<close> is 0.\<close>

definition snprintf_at :: "bytes \<Rightarrow> nat \<Rightarrow> nat \<Rightarrow> bytes \<Rightarrow> bytes option" where
  "snprintf_at m p n s = (if n = 0 then Some m else put_bytes m p (take (n - 1) s @ [0]))"

text \<open>\<open>log_len += snprintf(log_buf + log_len, LIBC_LOG_BUF_SIZE - log_len, ...)\<close>; the difference is unsigned.\<close>

definition room_left :: "nat \<Rightarrow> nat" where
  "room_left len = unat (of_nat LIBC_LOG_BUF_SIZE - of_nat len :: u64)"

definition print_piece :: "bytes \<Rightarrow> bytes \<times> nat \<Rightarrow> (bytes \<times> nat) option" where
  "print_piece s = (\<lambda>(m, len). map_option (\<lambda>m'. (m', len + length s)) (snprintf_at m len (room_left len) s))"

fun print_pieces :: "bytes list \<Rightarrow> bytes \<times> nat \<Rightarrow> (bytes \<times> nat) option" where
  "print_pieces [] x = Some x"
| "print_pieces (s # ss) x = Option.bind (print_piece s x) (print_pieces ss)"

text \<open>The newline and the NUL, where there is room.\<close>

definition end_line :: "bytes \<times> nat \<Rightarrow> (bytes \<times> nat) option" where
  "end_line = (\<lambda>(m, len).
    case (if len < LIBC_LOG_BUF_SIZE then map_option (\<lambda>m'. (m', len + 1)) (put_bytes m len [10]) else Some (m, len)) of
      None \<Rightarrow> None
    | Some (m, len) \<Rightarrow>
      if len < LIBC_LOG_BUF_SIZE then map_option (\<lambda>m'. (m', len)) (put_bytes m len [0]) else Some (m, len))"

definition line_pieces :: "int \<Rightarrow> bool \<Rightarrow> int \<Rightarrow> log_pieces \<Rightarrow> bytes list" where
  "line_pieces level sysflag errno ps =
    [lp_time ps, lp_thread ps, lp_source ps, lp_message ps] @
    (if sysflag \<and> level \<ge> LOG_LEVEL_ERROR \<and> errno \<noteq> 0 then [lp_errno ps] else [])"

text \<open>What the output function gets, if anything, and whether the program is aborted; \<open>m\<close> is \<open>log_buf\<close>.\<close>

definition log_log :: "int \<Rightarrow> int \<Rightarrow> bool \<Rightarrow> int \<Rightarrow> log_pieces \<Rightarrow> bytes \<Rightarrow> (bytes option \<times> bool) option" where
  "log_log logger_level level sysflag errno ps m =
    (if level < logger_level then Some (None, False)
     else case Option.bind (print_pieces (line_pieces level sysflag errno ps) (m, 0)) end_line of
       None \<Rightarrow> None
     | Some (m', len) \<Rightarrow> (case get_bytes m' 0 len of None \<Rightarrow> None | Some out \<Rightarrow> Some (Some out, level = LOG_LEVEL_FATAL)))"

text \<open>The buffer after the text \<open>s\<close> has been printed.\<close>

definition line_holds :: "bytes \<Rightarrow> bytes \<times> nat \<Rightarrow> bool" where
  "line_holds s x \<longleftrightarrow> length (fst x) = 512 \<and> snd x = length s \<and> take (min 511 (length s)) (fst x) = take 511 s \<and>
    (512 \<le> length s \<longrightarrow> fst x ! 511 = 0)"

lemma room_left_eq: "len \<le> 512 \<Longrightarrow> room_left len = 512 - len"
proof -
  assume len: "len \<le> 512"
  have "(of_nat LIBC_LOG_BUF_SIZE - of_nat len :: u64) = of_nat (512 - len)"
    using len by (simp add: LIBC_LOG_BUF_SIZE_def of_nat_diff)
  moreover have "512 - len < 2 ^ LENGTH(64)" by simp
  ultimately show ?thesis unfolding room_left_def by (simp only: unat_of_nat mod_less)
qed

lemma room_left_wraps:
  assumes "512 < len" "len < 2 ^ 63"
  shows "512 < room_left len"
proof -
  have "(of_nat LIBC_LOG_BUF_SIZE - of_nat len :: u64) = of_nat (2 ^ 64 + 512 - len)"
    using assms by (simp add: LIBC_LOG_BUF_SIZE_def of_nat_diff)
  moreover have "2 ^ 64 + 512 - len < 2 ^ LENGTH(64)" using assms by simp
  ultimately have "room_left len = 2 ^ 64 + 512 - len" unfolding room_left_def by (simp only: unat_of_nat mod_less)
  with assms show ?thesis by simp
qed

lemma print_piece_room:
  assumes "line_holds s x" "length s \<le> 512"
  shows "\<exists>y. print_piece t x = Some y \<and> line_holds (s @ t) y"
proof -
  obtain m where x: "x = (m, length s)" and m: "length m = 512" using assms(1) by (cases x) (simp add: line_holds_def)
  show ?thesis
  proof (cases "length s = 512")
    case True
    then have "print_piece t x = Some (m, length s + length t)" by (simp add: print_piece_def x room_left_eq snprintf_at_def)
    with assms(1) True show ?thesis by (simp add: line_holds_def x)
  next
    case False
    define k where "k = 511 - length s"
    define m' where "m' = take (length s) m @ (take k t @ [0]) @ drop (length s + length (take k t @ [0])) m"
    have k: "length s + k = 511" "length s \<le> 511" using False assms(2) by (simp_all add: k_def)
    have "print_piece t x = Some (m', length s + length t)"
      using k m by (simp add: print_piece_def x room_left_eq snprintf_at_def put_bytes_def m'_def k_def)
    moreover have "line_holds (s @ t) (m', length s + length t)"
    proof -
      have s: "take (length s) m = s" using assms(1) k(2) by (simp add: line_holds_def x)
      have len: "length m' = 512" using m k by (simp add: m'_def)
      have cut: "take 511 (s @ t) = s @ take k t" using k by (simp add: k_def)
      have "min 511 (length (s @ t)) = length (s @ take k t)" using k by simp
      then have "take (min 511 (length (s @ t))) m' = s @ take k t"
        by (simp only: m'_def s) (simp, simp add: min_def)
      moreover have "m' ! 511 = 0" if "512 \<le> length (s @ t)"
      proof -
        have "length (s @ take k t) = 511" using that k by simp
        moreover have "m' = (s @ take k t) @ 0 # drop (length s + length (take k t @ [0])) m" by (simp add: m'_def s)
        ultimately show ?thesis by (metis nth_append_length)
      qed
      ultimately show ?thesis using len cut by (simp add: line_holds_def)
    qed
    ultimately show ?thesis by blast
  qed
qed

lemma print_piece_overrun:
  assumes "line_holds s x" "512 < length s" "length s < 2 ^ 63"
  shows "print_piece t x = None"
  using assms room_left_wraps [OF assms(2,3)]
  by (cases x) (simp add: print_piece_def snprintf_at_def put_bytes_def line_holds_def)

lemma print_pieces_room:
  "line_holds s x \<Longrightarrow> length s \<le> 512 \<Longrightarrow> length (s @ concat ss) < 2 ^ 63 \<Longrightarrow>
    (print_pieces ss x = None \<longrightarrow> 512 < length (s @ concat ss)) \<and>
    (\<forall>y. print_pieces ss x = Some y \<longrightarrow> line_holds (s @ concat ss) y)"
proof (induction ss arbitrary: s x)
  case (Cons t ss)
  obtain y where y: "print_piece t x = Some y" "line_holds (s @ t) y"
    using print_piece_room [OF Cons.prems(1,2)] by blast
  show ?case
  proof (cases "length (s @ t) \<le> 512")
    case True
    with Cons.IH [OF y(2) True] Cons.prems(3) y(1) show ?thesis by simp
  next
    case False
    then have long: "512 < length (s @ t)" "length (s @ t) < 2 ^ 63" using Cons.prems(3) by simp_all
    show ?thesis
      using print_piece_overrun [OF y(2) long] y False by (cases ss) simp_all
  qed
qed simp

lemma end_line_room:
  assumes "line_holds s x" "length s < 512"
  shows "\<exists>m'. end_line x = Some (m', length s + 1) \<and> length m' = 512 \<and> take (length s + 1) m' = s @ [10]"
proof -
  obtain m where x: "x = (m, length s)" and m: "length m = 512" and s: "take (length s) m = s"
    using assms by (cases x) (simp add: line_holds_def)
  define m1 where "m1 = s @ [10] @ drop (length s + 1) m"
  have m1: "put_bytes m (length s) [10] = Some m1" "length m1 = 512" "take (length s + 1) m1 = s @ [10]"
    using m s assms(2) by (simp_all add: put_bytes_def m1_def)
  show ?thesis
  proof (cases "length s + 1 < 512")
    case True
    define m2 where "m2 = (s @ [10]) @ [0] @ drop (length s + 1 + 1) m1"
    have "put_bytes m1 (length s + 1) [0] = Some m2" "length m2 = 512" "take (length s + 1) m2 = s @ [10]"
      using m1(2,3) True by (simp_all add: put_bytes_def m2_def)
    with m1(1) True assms(2) show ?thesis by (simp add: end_line_def x LIBC_LOG_BUF_SIZE_def)
  next
    case False
    with m1 assms(2) show ?thesis by (simp add: end_line_def x LIBC_LOG_BUF_SIZE_def)
  qed
qed

text \<open>
  C40 (log lines).  A line that is logged is written if its pieces are shorter than the buffer, with a newline
  behind them; if they fill it exactly, without its last byte, a NUL in its place; and if they are
  longer, \<open>log_log\<close> leaves its buffer.
\<close>

theorem log_log_exact:
  assumes "logger_level \<le> level" "length m = 512" "length (concat (line_pieces level sysflag errno ps)) < 2 ^ 63"
  shows "log_log logger_level level sysflag errno ps m =
    (let s = concat (line_pieces level sysflag errno ps) in
     if length s < 512 then Some (Some (s @ [10]), level = LOG_LEVEL_FATAL)
     else if length s = 512 then Some (Some (take 511 s @ [0]), level = LOG_LEVEL_FATAL)
     else None)"
proof -
  define s where "s = concat (line_pieces level sysflag errno ps)"
  define y where "y = print_pieces (line_pieces level sysflag errno ps) (m, 0)"
  have start: "line_holds [] (m, 0)" using assms(2) by (simp add: line_holds_def)
  have y: "(y = None \<longrightarrow> 512 < length s) \<and> (\<forall>z. y = Some z \<longrightarrow> line_holds s z)"
    using print_pieces_room [OF start, of "line_pieces level sysflag errno ps"] assms(3) by (simp add: s_def y_def)
  consider (short) z where "y = Some z" "line_holds s z" "length s < 512"
    | (full) z where "y = Some z" "line_holds s z" "length s = 512"
    | (long) z where "y = Some z" "line_holds s z" "512 < length s" | (out) "y = None" "512 < length s"
    using y by (cases y) (auto, meson linorder_less_linear)
  then show ?thesis
  proof cases
    case short
    obtain m' where "end_line z = Some (m', length s + 1)" "length m' = 512" "take (length s + 1) m' = s @ [10]"
      using end_line_room [OF short(2,3)] by blast
    with short assms(1) show ?thesis by (simp add: log_log_def get_bytes_def flip: y_def s_def)
  next
    case full
    obtain m' where m': "z = (m', 512)" "length m' = 512" "take 511 m' = take 511 s" "m' ! 511 = 0"
      using full(2,3) by (cases z) (simp add: line_holds_def)
    then have "take 512 m' = take 511 s @ [0]" using take_Suc_conv_app_nth [of 511 m'] by simp
    with full assms(1) m' show ?thesis
      by (simp add: log_log_def get_bytes_def end_line_def LIBC_LOG_BUF_SIZE_def flip: y_def s_def)
  next
    case long
    obtain m' where "z = (m', length s)" "length m' = 512" using long(2) by (cases z) (simp add: line_holds_def)
    with long assms(1) show ?thesis
      by (simp add: log_log_def get_bytes_def end_line_def LIBC_LOG_BUF_SIZE_def flip: y_def s_def)
  next
    case out
    with assms(1) show ?thesis by (simp add: log_log_def flip: y_def s_def)
  qed
qed

definition demo_pieces :: "bytes \<Rightarrow> log_pieces" where
  "demo_pieces msg = \<lparr>lp_time = [49], lp_thread = [50], lp_source = [51], lp_message = msg, lp_errno = [53]\<rparr>"

lemma log_log_exact_witness:
  "log_log 0 4 True 2 (demo_pieces [52]) (replicate 512 0) = Some (Some [49, 50, 51, 52, 53, 10], False) \<and>
   log_log 0 5 False 0 (demo_pieces (replicate 600 52)) (replicate 512 0) = None"
  using log_log_exact [of 0 4 "replicate 512 0" True 2 "demo_pieces [52]"]
    log_log_exact [of 0 5 "replicate 512 0" False 0 "demo_pieces (replicate 600 52)"]
  by (simp add: line_pieces_def demo_pieces_def LOG_LEVEL_ERROR_def LOG_LEVEL_FATAL_def)

end
