(* ===== verification/Log_Async.thy ===== *)
theory Log_Async
  imports Prelude
begin

text \<open>
  The asynchronous logger \<open>C/logging/log_async.c\<close>: the threads of the application append messages to a
  buffer under a mutex, a thread of its own takes full buffers and writes them to the file.  Buffers
  are structs at addresses, the pointers to them are modelled as they are assigned, and the list
  \<open>buffers\<close> is the list of the addresses in its ring (\<open>Intrusive_List\<close>).  \<open>None\<close> is an access through a
  null pointer or to a buffer that has been freed.
\<close>

section \<open>Buffers\<close>

definition AYSNC_BUF_SIZE :: nat where
  "AYSNC_BUF_SIZE = 4000000"

record log_buffer =
  lb_buf :: "nat \<Rightarrow> u8"
  lb_avail :: nat
  lb_len :: nat

definition fresh_buffer :: log_buffer where
  "fresh_buffer = \<lparr>lb_buf = (\<lambda>i. 0), lb_avail = AYSNC_BUF_SIZE, lb_len = 0\<rparr>"

text \<open>\<open>append\<close>: \<open>memcpy\<close> writes to the start of the buffer.\<close>

definition append_msg :: "log_buffer \<Rightarrow> bytes \<Rightarrow> log_buffer" where
  "append_msg b msg =
    (if lb_avail b > length msg
     then b\<lparr>lb_buf := (\<lambda>i. if i < length msg then msg ! i else lb_buf b i),
            lb_len := lb_len b + length msg, lb_avail := lb_avail b - length msg\<rparr>
     else b)"

text \<open>The two threads share the memory, two pointers and the list; the second one has two pointers, a
  list and a place in its loop of its own.  \<open>log_out\<close> is what \<open>log_file_append\<close> has got.\<close>

datatype backend = At_lock | At_write | At_free | At_alloc

record log_state =
  log_mem :: "nat \<Rightarrow> log_buffer option"
  currentBuffer :: "nat option"
  nextBuffer :: "nat option"
  buffers :: "nat list"
  buffers_len :: nat
  newBuffer1 :: "nat option"
  newBuffer2 :: "nat option"
  buffersToWrite :: "nat list"
  backend_at :: backend
  log_out :: bytes

definition buf_at :: "nat option \<Rightarrow> log_state \<Rightarrow> log_buffer option" where
  "buf_at p s = (case p of None \<Rightarrow> None | Some a \<Rightarrow> log_mem s a)"

text \<open>\<open>buf_alloc\<close>, with the address that \<open>malloc\<close> returns.\<close>

definition buf_alloc :: "nat \<Rightarrow> log_state \<Rightarrow> log_state" where
  "buf_alloc a s = s\<lparr>log_mem := (log_mem s)(a \<mapsto> fresh_buffer)\<rparr>"

definition append_current :: "bytes \<Rightarrow> log_state \<Rightarrow> log_state option" where
  "append_current msg s =
    (case currentBuffer s of None \<Rightarrow> None
     | Some c \<Rightarrow> (case log_mem s c of None \<Rightarrow> None
       | Some b \<Rightarrow> Some (s\<lparr>log_mem := (log_mem s)(c \<mapsto> append_msg b msg)\<rparr>)))"

section \<open>The threads of the application\<close>

text \<open>\<open>ptr_move\<close> sets its own parameter to null, not the caller's pointer.\<close>

definition ptr_move :: "nat option \<Rightarrow> nat option" where
  "ptr_move p = p"

definition push_current :: "log_state \<Rightarrow> log_state option" where
  "push_current s =
    (case (currentBuffer s, buf_at (currentBuffer s) s) of
      (Some c, Some b) \<Rightarrow> Some (s\<lparr>buffers := buffers s @ [c], buffers_len := buffers_len s + 1\<rparr>)
    | _ \<Rightarrow> None)"

definition log_async_get_log :: "nat \<Rightarrow> bytes \<Rightarrow> log_state \<Rightarrow> log_state option" where
  "log_async_get_log a msg s =
    (case buf_at (currentBuffer s) s of None \<Rightarrow> None
     | Some b \<Rightarrow>
       if lb_avail b > length msg then append_current msg s
       else (case push_current s of None \<Rightarrow> None
         | Some s1 \<Rightarrow>
           append_current msg
             (if nextBuffer s1 = None then s1\<lparr>currentBuffer := ptr_move (nextBuffer s1)\<rparr>
              else (buf_alloc a s1)\<lparr>currentBuffer := Some a\<rparr>)))"

section \<open>The thread behind them\<close>

text \<open>One round of the loop in \<open>log_async_output\<close>: what it does under the mutex, the output, the release of
  the buffers, and the allocation of new ones.\<close>

definition backend_lock :: "log_state \<Rightarrow> log_state option" where
  "backend_lock s =
    (case (currentBuffer s, buf_at (currentBuffer s) s) of
      (Some c, Some b) \<Rightarrow>
        Some (s\<lparr>currentBuffer := ptr_move (newBuffer1 s), buffersToWrite := buffers s @ [c], buffers := [],
          buffers_len := 0, nextBuffer := (if nextBuffer s = None then ptr_move (newBuffer2 s) else nextBuffer s),
          backend_at := At_write\<rparr>)
    | _ \<Rightarrow> None)"

fun write_buffers :: "(nat \<Rightarrow> log_buffer option) \<Rightarrow> nat list \<Rightarrow> bytes \<Rightarrow> bytes option" where
  "write_buffers m [] out = Some out"
| "write_buffers m (a # as) out =
    (case m a of None \<Rightarrow> None
     | Some b \<Rightarrow> write_buffers m as (out @ map (lb_buf b) [0..<lb_len b]))"

definition backend_write :: "log_state \<Rightarrow> log_state option" where
  "backend_write s =
    map_option (\<lambda>out. s\<lparr>log_out := out, backend_at := At_free\<rparr>) (write_buffers (log_mem s) (buffersToWrite s) (log_out s))"

text \<open>Freeing a buffer twice is an access to a freed buffer.\<close>

fun free_buffers :: "nat list \<Rightarrow> (nat \<Rightarrow> log_buffer option) \<Rightarrow> (nat \<Rightarrow> log_buffer option) option" where
  "free_buffers [] m = Some m"
| "free_buffers (a # as) m = (case m a of None \<Rightarrow> None | Some b \<Rightarrow> free_buffers as (m(a := None)))"

definition backend_free :: "log_state \<Rightarrow> log_state option" where
  "backend_free s =
    map_option (\<lambda>m. s\<lparr>log_mem := m, backend_at := At_alloc\<rparr>) (free_buffers (buffersToWrite s) (log_mem s))"

definition backend_alloc :: "nat \<Rightarrow> nat \<Rightarrow> log_state \<Rightarrow> log_state" where
  "backend_alloc a1 a2 s =
    (buf_alloc a2 (buf_alloc a1 s))\<lparr>newBuffer1 := Some a1, newBuffer2 := Some a2, backend_at := At_lock\<rparr>"

definition backend_step :: "nat \<Rightarrow> nat \<Rightarrow> log_state \<Rightarrow> log_state option" where
  "backend_step a1 a2 s =
    (case backend_at s of At_lock \<Rightarrow> backend_lock s | At_write \<Rightarrow> backend_write s
     | At_free \<Rightarrow> backend_free s | At_alloc \<Rightarrow> Some (backend_alloc a1 a2 s))"

section \<open>Runs\<close>

text \<open>\<open>log_async_init\<close>, and the start of \<open>log_async_output\<close>, which it waits for: four buffers.\<close>

definition log_async_init :: "nat \<Rightarrow> nat \<Rightarrow> nat \<Rightarrow> nat \<Rightarrow> log_state" where
  "log_async_init a b c d =
    \<lparr>log_mem = [a \<mapsto> fresh_buffer, b \<mapsto> fresh_buffer, c \<mapsto> fresh_buffer, d \<mapsto> fresh_buffer],
     currentBuffer = Some a, nextBuffer = Some b, buffers = [], buffers_len = 0,
     newBuffer1 = Some c, newBuffer2 = Some d, buffersToWrite = [], backend_at = At_lock, log_out = []\<rparr>"

text \<open>Every interleaving of calls with the loop: \<open>log_run ms s\<close> says that \<open>s\<close> can be reached by calls with the
  messages \<open>ms\<close>, latest first.\<close>

inductive log_run :: "bytes list \<Rightarrow> log_state \<Rightarrow> bool" where
  start: "distinct [a, b, c, d] \<Longrightarrow> log_run [] (log_async_init a b c d)"
| call: "log_run ms s \<Longrightarrow> log_mem s a = None \<Longrightarrow> log_async_get_log a msg s = Some s' \<Longrightarrow> log_run (msg # ms) s'"
| loop: "log_run ms s \<Longrightarrow> log_mem s a1 = None \<Longrightarrow> log_mem s a2 = None \<Longrightarrow> a1 \<noteq> a2 \<Longrightarrow>
    backend_step a1 a2 s = Some s' \<Longrightarrow> log_run ms s'"

text \<open>The messages that fit into a buffer; the others are dropped.\<close>

definition fitting :: "bytes list \<Rightarrow> bytes list" where
  "fitting ms = filter (\<lambda>m. length m < AYSNC_BUF_SIZE) ms"

definition total_length :: "bytes list \<Rightarrow> nat" where
  "total_length ms = sum_list (map length ms)"

section \<open>Ownership\<close>

text \<open>The buffers that are to be written, while they have not been freed, and those the threads may touch.\<close>

definition to_write :: "log_state \<Rightarrow> nat list" where
  "to_write s = (if backend_at s = At_write \<or> backend_at s = At_free then buffersToWrite s else [])"

definition spare :: "log_state \<Rightarrow> nat list" where
  "spare s = (if backend_at s = At_lock then [the (newBuffer1 s)] else [])"

definition log_owned :: "log_state \<Rightarrow> nat list" where
  "log_owned s = the (currentBuffer s) # buffers s @ to_write s @ spare s"

definition lengths :: "(nat \<Rightarrow> log_buffer option) \<Rightarrow> nat list \<Rightarrow> nat" where
  "lengths m as = sum_list (map (\<lambda>a. lb_len (the (m a))) as)"

definition buffer_ok :: "log_buffer option \<Rightarrow> bool" where
  "buffer_ok p \<longleftrightarrow> (\<exists>b. p = Some b \<and> lb_len b + lb_avail b = AYSNC_BUF_SIZE)"

text \<open>The buffers in use are different, they have not been freed, and they hold what has not been written.\<close>

definition log_inv :: "bytes list \<Rightarrow> log_state \<Rightarrow> bool" where
  "log_inv ms s \<longleftrightarrow>
    currentBuffer s \<noteq> None \<and> nextBuffer s \<noteq> None \<and> (backend_at s = At_lock \<longrightarrow> newBuffer1 s \<noteq> None) \<and>
    distinct (log_owned s) \<and> (\<forall>a\<in>set (log_owned s). buffer_ok (log_mem s a)) \<and>
    (backend_at s = At_lock \<longrightarrow> lb_len (the (log_mem s (the (newBuffer1 s)))) = 0) \<and>
    buffers_len s = length (buffers s) \<and>
    length (log_out s) + lengths (log_mem s) (the (currentBuffer s) # buffers s @
      (if backend_at s = At_write then buffersToWrite s else [])) = total_length (fitting ms)"

section \<open>Calls\<close>

lemma lengths_simps [simp]:
  "lengths m [] = 0" "lengths m (a # as) = lb_len (the (m a)) + lengths m as"
  "lengths m (as @ bs) = lengths m as + lengths m bs"
  by (simp_all add: lengths_def)

lemma lengths_upd: "a \<notin> set as \<Longrightarrow> lengths (m(a := b)) as = lengths m as"
  by (induction as) auto

lemma append_msg_ok: "buffer_ok (Some b) \<Longrightarrow> buffer_ok (Some (append_msg b msg))"
  by (auto simp: buffer_ok_def append_msg_def)

lemma append_msg_len: "lb_len (append_msg b msg) = lb_len b + (if lb_avail b > length msg then length msg else 0)"
  by (simp add: append_msg_def)

lemma total_length_fitting:
  "total_length (fitting (msg # ms)) = (if length msg < AYSNC_BUF_SIZE then length msg else 0) + total_length (fitting ms)"
  by (simp add: total_length_def fitting_def)

lemma fresh_ok: "buffer_ok (Some fresh_buffer)" "lb_avail fresh_buffer = AYSNC_BUF_SIZE" "lb_len fresh_buffer = 0"
  by (simp_all add: buffer_ok_def fresh_buffer_def)

lemma buffer_ok_Some: "buffer_ok (m a) \<Longrightarrow> \<exists>b. m a = Some b"
  by (auto simp: buffer_ok_def)

lemma owned_fresh:
  assumes "log_inv ms s" "log_mem s a = None"
  shows "a \<notin> set (log_owned s)"
proof
  assume "a \<in> set (log_owned s)"
  with assms(1) have "buffer_ok (log_mem s a)" by (simp add: log_inv_def)
  with assms(2) show False by (simp add: buffer_ok_def)
qed

lemma get_log_inv:
  assumes inv: "log_inv ms s" and a: "log_mem s a = None"
  shows "\<exists>s'. log_async_get_log a msg s = Some s' \<and> log_inv (msg # ms) s'"
proof -
  obtain c where c: "currentBuffer s = Some c" using inv by (auto simp: log_inv_def)
  have "buffer_ok (log_mem s c)" using inv c by (simp add: log_inv_def log_owned_def)
  then obtain b where b: "log_mem s c = Some b" "buffer_ok (Some b)" "lb_avail b \<le> AYSNC_BUF_SIZE"
    by (auto simp: buffer_ok_def)
  have apart: "c \<notin> set (buffers s @ to_write s @ spare s)" using inv c by (simp add: log_inv_def log_owned_def)
  have fresh: "a \<notin> set (log_owned s)" "a \<noteq> c" using owned_fresh [OF inv a] a b(1) by auto
  show ?thesis
  proof (cases "lb_avail b > length msg")
    case True
    define s' where "s' = s\<lparr>log_mem := (log_mem s)(c \<mapsto> append_msg b msg)\<rparr>"
    have "log_async_get_log a msg s = Some s'"
      using c b(1) True by (simp add: log_async_get_log_def buf_at_def append_current_def s'_def)
    moreover have "log_inv (msg # ms) s'"
    proof -
      have "log_owned s' = log_owned s" by (simp add: s'_def log_owned_def to_write_def spare_def)
      moreover have "buffer_ok (log_mem s' x)" if "x \<in> set (log_owned s)" for x
        using that inv append_msg_ok [OF b(2)] by (cases "x = c") (auto simp: s'_def log_inv_def)
      moreover have "backend_at s = At_lock \<Longrightarrow> the (newBuffer1 s) \<noteq> c" using apart by (simp add: spare_def)
      moreover have "c \<notin> set (if backend_at s = At_write then buffersToWrite s else [])"
        using apart by (auto simp: to_write_def split: if_splits)
      ultimately show ?thesis
        using inv apart c b True
        by (auto simp: log_inv_def s'_def lengths_upd append_msg_len total_length_fitting)
    qed
    ultimately show ?thesis by blast
  next
    case False
    define s' where "s' = s\<lparr>log_mem := (log_mem s)(a \<mapsto> append_msg fresh_buffer msg), currentBuffer := Some a,
      buffers := buffers s @ [c], buffers_len := buffers_len s + 1\<rparr>"
    obtain y where "nextBuffer s = Some y" using inv by (auto simp: log_inv_def)
    then have "log_async_get_log a msg s = Some s'"
      using c b(1) False
      by (simp add: log_async_get_log_def buf_at_def append_current_def push_current_def buf_alloc_def s'_def)
    moreover have "log_inv (msg # ms) s'"
    proof -
      have own: "log_owned s' = a # buffers s @ [c] @ to_write s @ spare s"
        by (simp add: s'_def log_owned_def to_write_def spare_def)
      have parts: "log_owned s = c # buffers s @ to_write s @ spare s" using c by (simp add: log_owned_def)
      have mem: "log_mem s' x = (if x = a then Some (append_msg fresh_buffer msg) else log_mem s x)" for x
        by (simp add: s'_def)
      have "buffer_ok (log_mem s' x)" if "x \<in> set (log_owned s')" for x
      proof (cases "x = a")
        case False
        with that have "x \<in> set (log_owned s)" by (auto simp: own parts)
        with inv False show ?thesis by (simp add: mem log_inv_def)
      qed (simp add: mem append_msg_ok [OF fresh_ok(1)])
      moreover have "distinct (log_owned s')" using inv fresh by (auto simp: log_inv_def own parts)
      moreover have "backend_at s = At_lock \<Longrightarrow> the (newBuffer1 s) \<noteq> a" using fresh by (auto simp: log_owned_def spare_def)
      moreover have "a \<notin> set (buffers s)" "a \<notin> set (if backend_at s = At_write then buffersToWrite s else [])"
        using fresh by (auto simp: log_owned_def to_write_def)
      ultimately show ?thesis
        using inv fresh c
        by (auto simp: log_inv_def s'_def lengths_upd append_msg_len total_length_fitting fresh_ok)
    qed
    ultimately show ?thesis by blast
  qed
qed

section \<open>The loop\<close>

lemma write_buffers_length:
  "\<forall>a\<in>set as. buffer_ok (m a) \<Longrightarrow>
    \<exists>out'. write_buffers m as out = Some out' \<and> length out' = length out + lengths m as"
proof (induction as arbitrary: out)
  case (Cons a as)
  then obtain b where "m a = Some b" by (auto simp: buffer_ok_def)
  with Cons.IH [of "out @ map (lb_buf b) [0..<lb_len b]"] Cons.prems show ?case by (simp add: add.assoc)
qed simp

lemma free_buffers_total:
  "distinct as \<Longrightarrow> \<forall>a\<in>set as. buffer_ok (m a) \<Longrightarrow>
    \<exists>m'. free_buffers as m = Some m' \<and> (\<forall>x. m' x = (if x \<in> set as then None else m x))"
proof (induction as arbitrary: m)
  case (Cons a as)
  from Cons.prems(2) obtain b where b: "m a = Some b" by (auto simp: buffer_ok_def)
  have "\<forall>x\<in>set as. buffer_ok ((m(a := None)) x)" using Cons.prems by auto
  from Cons.IH [OF _ this] Cons.prems(1) obtain m' where
    "free_buffers as (m(a := None)) = Some m'" "\<forall>x. m' x = (if x \<in> set as then None else (m(a := None)) x)"
    by (auto simp del: fun_upd_apply)
  with b show ?case by auto
qed simp

lemma lengths_cong: "(\<And>a. a \<in> set as \<Longrightarrow> m a = m' a) \<Longrightarrow> lengths m as = lengths m' as"
  by (induction as) auto

lemma backend_inv:
  assumes inv: "log_inv ms s" and a: "log_mem s a1 = None" "log_mem s a2 = None" "a1 \<noteq> a2"
  shows "\<exists>s'. backend_step a1 a2 s = Some s' \<and> log_inv ms s'"
proof -
  obtain c where c: "currentBuffer s = Some c" using inv by (auto simp: log_inv_def)
  have own: "log_owned s = c # buffers s @ to_write s @ spare s" using c by (simp add: log_owned_def)
  have ok: "\<forall>x\<in>set (log_owned s). buffer_ok (log_mem s x)" and dist: "distinct (log_owned s)"
    using inv by (simp_all add: log_inv_def)
  show ?thesis
  proof (cases "backend_at s")
    case At_lock
    then obtain n where n: "newBuffer1 s = Some n" using inv by (auto simp: log_inv_def)
    obtain y where y: "nextBuffer s = Some y" using inv by (auto simp: log_inv_def)
    obtain b where "log_mem s c = Some b" using ok own by (auto dest: buffer_ok_Some)
    then have "backend_step a1 a2 s = Some (s\<lparr>currentBuffer := Some n, buffersToWrite := buffers s @ [c], buffers := [],
        buffers_len := 0, nextBuffer := nextBuffer s, backend_at := At_write\<rparr>)"
      using At_lock c n y by (simp add: backend_step_def backend_lock_def buf_at_def ptr_move_def)
    moreover have "log_inv ms (s\<lparr>currentBuffer := Some n, buffersToWrite := buffers s @ [c], buffers := [],
        buffers_len := 0, nextBuffer := nextBuffer s, backend_at := At_write\<rparr>)"
      using inv At_lock n c ok dist own by (auto simp: log_inv_def log_owned_def to_write_def spare_def)
    ultimately show ?thesis by blast
  next
    case At_write
    have "\<forall>x\<in>set (buffersToWrite s). buffer_ok (log_mem s x)" using ok own At_write by (simp add: to_write_def)
    from write_buffers_length [OF this, of "log_out s"] obtain out' where
      "write_buffers (log_mem s) (buffersToWrite s) (log_out s) = Some out'"
      "length out' = length (log_out s) + lengths (log_mem s) (buffersToWrite s)" by blast
    then show ?thesis
      using inv At_write c
      by (auto simp: backend_step_def backend_write_def log_inv_def log_owned_def to_write_def spare_def)
  next
    case At_free
    have parts: "log_owned s = c # buffers s @ buffersToWrite s" using own At_free by (simp add: to_write_def spare_def)
    have "distinct (buffersToWrite s)" "\<forall>x\<in>set (buffersToWrite s). buffer_ok (log_mem s x)"
      using ok dist by (simp_all add: parts)
    from free_buffers_total [OF this] obtain m' where m': "free_buffers (buffersToWrite s) (log_mem s) = Some m'"
      "\<forall>x. m' x = (if x \<in> set (buffersToWrite s) then None else log_mem s x)" by blast
    have same: "m' x = log_mem s x" if "x \<in> set (c # buffers s)" for x using that dist m'(2) by (auto simp: parts)
    have "lengths m' (c # buffers s) = lengths (log_mem s) (c # buffers s)" by (rule lengths_cong) (rule same)
    then have "log_inv ms (s\<lparr>log_mem := m', backend_at := At_alloc\<rparr>)"
      using inv At_free c same dist ok by (simp add: log_inv_def log_owned_def to_write_def spare_def)
    with m'(1) At_free show ?thesis by (simp add: backend_step_def backend_free_def)
  next
    case At_alloc
    have parts: "log_owned s = c # buffers s" using own At_alloc by (simp add: to_write_def spare_def)
    have apart: "a1 \<notin> set (log_owned s)" "a2 \<notin> set (log_owned s)" using owned_fresh [OF inv] a by simp_all
    have "log_inv ms (backend_alloc a1 a2 s)"
      using inv At_alloc c apart a(3) ok dist
      by (simp add: log_inv_def log_owned_def to_write_def spare_def backend_alloc_def buf_alloc_def parts lengths_upd fresh_ok)
    with At_alloc show ?thesis by (simp add: backend_step_def)
  qed
qed

lemma log_run_inv: "log_run ms s \<Longrightarrow> log_inv ms s"
proof (induction rule: log_run.induct)
  case (start a b c d)
  then show ?case
    by (auto simp: log_inv_def log_async_init_def log_owned_def to_write_def spare_def fresh_ok total_length_def fitting_def)
next
  case (call ms s a msg s')
  then show ?case using get_log_inv [of ms s a msg] by auto
next
  case (loop ms s a1 a2 s')
  then show ?case using backend_inv [of ms s a1 a2] by auto
qed

section \<open>Properties\<close>


text \<open>
  C39 (a round of the back end writes everything).  From every state that can be reached in which the back
  end is about to take the mutex, its next two steps, if no call comes between, bring the output to the
  length of all messages that fit into a buffer.
\<close>

theorem log_async_drains:
  assumes "log_run ms s" "backend_at s = At_lock" "log_mem s a1 = None" "log_mem s a2 = None" "a1 \<noteq> a2"
  shows "\<exists>s1 s2. backend_step a1 a2 s = Some s1 \<and> backend_step a1 a2 s1 = Some s2 \<and> log_run ms s2 \<and>
    buffers s2 = [] \<and> length (log_out s2) = total_length (fitting ms)"
proof -
  note inv = log_run_inv [OF assms(1)]
  obtain s1 where s1: "backend_step a1 a2 s = Some s1" using backend_inv [OF inv assms(3-5)] by blast
  then have at: "backend_at s1 = At_write" "buffers s1 = []" "currentBuffer s1 = newBuffer1 s" "log_mem s1 = log_mem s"
    using assms(2) by (auto simp: backend_step_def backend_lock_def ptr_move_def split: option.splits)
  have run1: "log_run ms s1" by (rule log_run.loop [OF assms(1,3-5) s1])
  have free1: "log_mem s1 a1 = None" "log_mem s1 a2 = None" using assms(3,4) at(4) by simp_all
  obtain s2 where s2: "backend_step a1 a2 s1 = Some s2"
    using backend_inv [OF log_run_inv [OF run1] free1 assms(5)] by blast
  then have at2: "backend_at s2 = At_free" "buffers s2 = []" "currentBuffer s2 = newBuffer1 s" "log_mem s2 = log_mem s"
    using at by (auto simp: backend_step_def backend_write_def)
  have run2: "log_run ms s2" by (rule log_run.loop [OF run1 free1 assms(5) s2])
  have "lb_len (the (log_mem s (the (newBuffer1 s)))) = 0" using inv assms(2) by (simp add: log_inv_def)
  then have "length (log_out s2) = total_length (fitting ms)"
    using log_run_inv [OF run2] at2 by (simp add: log_inv_def)
  with s1 s2 run2 at2(2) show ?thesis by blast
qed

section \<open>A session\<close>

definition log_start :: log_state where
  "log_start = log_async_init 0 1 2 3"

definition log_session :: "bytes list \<Rightarrow> log_state option" where
  "log_session ms = fold (\<lambda>m p. Option.bind p (log_async_get_log 4 m)) ms (Some log_start)"

lemma log_start_run: "log_run [] log_start"
  unfolding log_start_def by (rule log_run.start) simp


lemma log_call_run: "log_run [[1, 2]] (the (log_async_get_log 4 [1, 2] log_start))"
  by (rule log_run.call [OF log_start_run, of 4 "[1, 2]"])
    (simp_all add: log_start_def log_async_init_def log_async_get_log_def buf_at_def append_current_def fresh_buffer_def AYSNC_BUF_SIZE_def)

lemma log_async_drains_witness:
  "\<exists>s1 s2. backend_step 4 5 (the (log_async_get_log 4 [1, 2] log_start)) = Some s1 \<and>
    backend_step 4 5 s1 = Some s2 \<and> length (log_out s2) = 2"
proof -
  have "backend_at (the (log_async_get_log 4 [1, 2] log_start)) = At_lock"
    "log_mem (the (log_async_get_log 4 [1, 2] log_start)) 4 = None" "log_mem (the (log_async_get_log 4 [1, 2] log_start)) 5 = None"
    by (simp_all add: log_start_def log_async_init_def log_async_get_log_def buf_at_def append_current_def fresh_buffer_def AYSNC_BUF_SIZE_def)
  from log_async_drains [OF log_call_run this] show ?thesis
    by (auto simp: total_length_def fitting_def AYSNC_BUF_SIZE_def)
qed

text \<open>
  The text is another matter: every message is copied to the start of its buffer, so that the second one
  overwrites the first, and the file gets the bytes behind it, which nobody has written.
\<close>

lemma log_async_overwrites:
  "(case Option.bind (Option.bind (log_session [[1, 2], [3]]) (backend_step 4 5)) (backend_step 4 5) of
      None \<Rightarrow> None | Some s \<Rightarrow> Some (log_out s)) = Some [3, 2, 0]"
  by (simp add: log_session_def log_start_def log_async_init_def log_async_get_log_def buf_at_def append_current_def
      append_msg_def fresh_buffer_def AYSNC_BUF_SIZE_def backend_step_def backend_lock_def backend_write_def ptr_move_def
      upt_rec)

end
