(* ===== verification/Log_File.thy ===== *)
theory Log_File
  imports Prelude
begin

text \<open>
  The log file \<open>C/logging/log_file.c\<close>: output is appended to a stream, and a new one is opened when the
  old one has become too long or the day has changed.  What \<open>fwrite\<close> returns and the time are parameters;
  \<open>None\<close> is an access outside of the message or through a null stream.
\<close>

definition SECONDS_PER_DAY :: int where
  "SECONDS_PER_DAY = 86400"

text \<open>\<open>streams\<close> are the contents of all streams that have been opened, the latest one, \<open>fp\<close>, first.\<close>

record log_file =
  streams :: "bytes list"
  written_bytes :: nat
  start_day :: int
  last_flush_time :: int
  flush_interval :: int
  roll_size :: nat
  flushes :: nat

definition log_file_flush :: "log_file \<Rightarrow> log_file" where
  "log_file_flush f = f\<lparr>flushes := flushes f + 1\<rparr>"

definition log_file_roll :: "int \<Rightarrow> log_file \<Rightarrow> log_file" where
  "log_file_roll now f = f\<lparr>streams := [] # streams f, start_day := cdiv now SECONDS_PER_DAY,
     last_flush_time := now, written_bytes := 0\<rparr>"

definition fwrite_bytes :: "nat \<Rightarrow> bytes \<Rightarrow> log_file \<Rightarrow> log_file option" where
  "fwrite_bytes r bs f =
    (case streams f of [] \<Rightarrow> None | t # ts \<Rightarrow> Some (f\<lparr>streams := (t @ take r bs) # ts\<rparr>))"

text \<open>The loop of \<open>file_append\<close> after the first call; \<open>rs\<close> are the results of the calls to come, 0 when they
  are used up.  Each call reads \<open>len\<close> bytes from \<open>msg + n\<close>.\<close>

fun retry_loop :: "nat list \<Rightarrow> bytes \<Rightarrow> nat \<Rightarrow> nat \<Rightarrow> log_file \<Rightarrow> log_file option" where
  "retry_loop rs msg n 0 f = Some f"
| "retry_loop rs msg n (Suc remain) f =
    (case get_bytes msg n (length msg) of None \<Rightarrow> None
     | Some bs \<Rightarrow>
       (case rs of [] \<Rightarrow> Some f
        | x # rs' \<Rightarrow>
          if x = 0 then Some f
          else (case fwrite_bytes x bs f of None \<Rightarrow> None
            | Some f' \<Rightarrow> retry_loop rs' msg (n + x) (Suc remain - x) f')))"

definition file_append :: "nat list \<Rightarrow> bytes \<Rightarrow> log_file \<Rightarrow> log_file option" where
  "file_append rs msg f =
    (let r = (case rs of [] \<Rightarrow> 0 | r # _ \<Rightarrow> r) in
     case fwrite_bytes r msg f of None \<Rightarrow> None
     | Some f' \<Rightarrow> map_option (\<lambda>f''. f''\<lparr>written_bytes := written_bytes f'' + length msg\<rparr>)
         (retry_loop (tl rs) msg r (length msg - r) f'))"

definition log_file_append :: "nat list \<Rightarrow> int \<Rightarrow> bytes \<Rightarrow> log_file \<Rightarrow> log_file option" where
  "log_file_append rs now msg f =
    map_option (\<lambda>f'.
      if written_bytes f' > roll_size f' then log_file_roll now f'
      else if cdiv now SECONDS_PER_DAY \<noteq> start_day f' then log_file_roll now f'
      else if now - last_flush_time f' > flush_interval f' then log_file_flush (f'\<lparr>last_flush_time := now\<rparr>)
      else f') (file_append rs msg f)"

section \<open>Complete writes\<close>

lemma file_append_complete:
  "streams f = t # ts \<Longrightarrow>
    file_append (length msg # rs) msg f =
      Some (f\<lparr>streams := (t @ msg) # ts, written_bytes := written_bytes f + length msg\<rparr>)"
  by (simp add: file_append_def fwrite_bytes_def)

text \<open>The open stream is as long as the counter says and no longer than the limit, and the others are
  beyond the limit by no more than one message.\<close>

definition file_ok :: "nat \<Rightarrow> log_file \<Rightarrow> bool" where
  "file_ok k f \<longleftrightarrow> streams f \<noteq> [] \<and> written_bytes f = length (hd (streams f)) \<and> written_bytes f \<le> roll_size f \<and>
    (\<forall>t\<in>set (tl (streams f)). length t \<le> roll_size f + k)"

fun append_all :: "(int \<times> bytes) list \<Rightarrow> log_file \<Rightarrow> log_file option" where
  "append_all [] f = Some f"
| "append_all ((now, msg) # ms) f = Option.bind (log_file_append [length msg] now msg f) (append_all ms)"

lemma log_file_append_ok:
  assumes "file_ok k f" "length msg \<le> k"
  shows "\<exists>f'. log_file_append [length msg] now msg f = Some f' \<and> file_ok k f' \<and> roll_size f' = roll_size f \<and>
    concat (rev (streams f')) = concat (rev (streams f)) @ msg"
proof -
  obtain t ts where s: "streams f = t # ts" using assms(1) by (cases "streams f") (auto simp: file_ok_def)
  with assms file_append_complete [OF s, of msg "[]"] show ?thesis
    by (auto simp: log_file_append_def file_ok_def log_file_roll_def log_file_flush_def)
qed

text \<open>As long as \<open>fwrite\<close> takes what it is given, the streams hold the messages, in order.\<close>

lemma append_all_ok:
  "file_ok k f \<Longrightarrow> \<forall>(now, msg)\<in>set ms. length msg \<le> k \<Longrightarrow>
    \<exists>f'. append_all ms f = Some f' \<and> file_ok k f' \<and>
      concat (rev (streams f')) = concat (rev (streams f)) @ concat (map snd ms)"
proof (induction ms arbitrary: f)
  case (Cons m ms)
  obtain now msg where m: "m = (now, msg)" by (cases m)
  obtain f1 where f1: "log_file_append [length msg] now msg f = Some f1" "file_ok k f1"
    "concat (rev (streams f1)) = concat (rev (streams f)) @ msg"
    using log_file_append_ok [OF Cons.prems(1), of msg now] Cons.prems(2) m by auto
  from Cons.IH [OF f1(2)] Cons.prems(2) f1 m show ?case by auto
qed simp

section \<open>Incomplete writes\<close>

text \<open>After a part of the message has been written, the next call is given the whole length again, from the
  middle of the message, and reads behind it.\<close>

lemma file_append_partial:
  assumes "0 < r" "r < length msg"
  shows "file_append (r # rs) msg f = None"
proof -
  obtain k where k: "length msg - r = Suc k" using assms(2) by (metis Suc_diff_Suc)
  have "get_bytes msg r (length msg) = None" using assms by (simp add: get_bytes_def)
  then have "retry_loop rs msg r (length msg - r) f' = None" for f' by (simp add: k)
  then show ?thesis by (simp add: file_append_def split: option.split)
qed

end
