(* ===== verification/Spec2Isabelle.thy ===== *)
theory Spec2Isabelle
  imports Intrusive_List Kcp_Examples Pico_Examples Http_Correct Http_Url_Text Cjson_Correct Cjson_Free
    Cuckoo_Hash Simple_Hash Ini_Correct Int_To_Str Log_Line Log_Async Log_File
begin

text \<open>
  \<^bold>\<open>Verification library for the C components of coding-demo.\<close>

  The repository is a collection of C, C++, Go and Shell programs.  What it has of logic of its own, as
  opposed to calls of the operating system, of DPDK or of the C library, sits in a handful of C files
  that are compiled into the demos: a reliable transport over datagrams, three HTTP parsers, a JSON
  library, and the intrusive lists beneath them.  These are modelled here, operation by operation and
  in the order of the source.  File names are relative to \<open>src/\<close>.

  \<^bold>\<open>Parts and theories\<close>

  \<^item> \<open>Prelude\<close>: the C integer types as words (\<open>u8\<close>, \<open>u16\<close>, \<open>u32\<close>, \<open>i32\<close>), C division, bytes, and
    the lemmas on lists and words that several parts use.

  \<^item> \<open>Intrusive_List\<close>: \<open>struct list_node\<close> of \<open>C/container/list.h\<close> and \<open>struct IQUEUEHEAD\<close> of
    \<open>CPP/muduo/src/kcp/ikcp.h\<close>.  The heap maps addresses to nodes; every macro is its sequence of
    pointer assignments.  The predicate \<open>ring\<close> says which list of addresses a head denotes, and the locale
    \<open>intrusive_queue\<close> is the contract both implementations fulfil: they act on a ring as list operations
    do.  This is what allows the KCP theories to have lists for queues.

  \<^item> \<open>Kcp_Base\<close>, \<open>Kcp_Ops\<close>: \<open>CPP/muduo/src/kcp/ikcp.c\<close>.  \<open>IKCPSEG\<close> and \<open>ikcpcb\<close> are the structs, with the
    four queues as lists of segments; each function of the file is a function on the control block.
    \<open>Kcp_Frames\<close> holds what each of them leaves alone, \<open>Kcp_Send\<close>, \<open>Kcp_Recv\<close>, \<open>Kcp_Input\<close> and
    \<open>Kcp_Flush\<close> the invariants and the behaviour of the two halves, of \<open>ikcp_input\<close> and of \<open>ikcp_flush\<close>.
    \<open>Kcp_System\<close> puts two endpoints and a network that loses, repeats and reorders datagrams into one step
    relation; \<open>Kcp_Examples\<close> is a concrete session.

  \<^item> \<open>Pico_Scan\<close>, \<open>Pico_Parse\<close>, \<open>Pico_Chunked\<close>, \<open>Pico_Zzq\<close>: \<open>picohttpparser.c\<close> and its trimmed variant
    \<open>picohttpparser_zzq.c\<close> under \<open>C/dpdk/http-field-parser-bench\<close>.  A pointer into the buffer is the rest of
    the buffer, and a read at its end is an outcome of its own (\<open>POob\<close>).  The vectorised search is modelled
    block by block from the documented behaviour of its one instruction; the argument \<open>sse\<close> selects the
    build.  \<open>Pico_Grammar\<close> is the specification (the texts of requests and responses, with their parts),
    \<open>Pico_Correct\<close> has the properties, \<open>Pico_Examples\<close> concrete messages.  The locales \<open>scanner\<close> and
    \<open>exact_scanner\<close> are the contract between a loop over bytes and the vectorised search in front of it.

  \<^item> \<open>Http_Base\<close>, \<open>Http_Machine\<close>, \<open>Http_Line\<close>, \<open>Http_Header\<close>, \<open>Http_Exec\<close>: the streaming parser
    \<open>C/dpdk/http-field-parser-bench/http_parser.c\<close>.  One round of the \<open>switch\<close> is a definition for each group
    of \<open>case\<close> labels; \<open>step\<close> is the outcome of a round, with the ways control can leave it.  The callbacks of
    the application are parameters, functions on its own state and the parser; \<open>Http_Contract\<close> says what
    is expected of them.  \<open>Http_Safety\<close> has the invariant of the rounds and \<open>Http_Correct\<close> the properties.

  \<^item> \<open>Http_Url\<close>: \<open>parse_url_char\<close>, shared with the streaming parser, and \<open>http_parser_parse_url\<close>.
    \<open>Http_Url_Correct\<close> has bounds and ports, \<open>Http_Url_Text\<close> the round trip.

  \<^item> \<open>Cjson_Base\<close>, \<open>Cjson_Parse\<close>, \<open>Cjson_Print\<close>, \<open>Cjson_Minify\<close>, \<open>Cjson_Tree\<close>: \<open>C/dpdk/cjson/cjson2/cJSON.c\<close>
    and \<open>cJSON.h\<close>.  An item is a tree, \<open>CJSON\<close>, of the fields of its struct and its children.  \<open>Cjson_Safety\<close>,
    \<open>Cjson_Typed\<close> and \<open>Cjson_Utf8\<close> are about the parser, \<open>Cjson_Render\<close> about the printer, \<open>Cjson_Roundtrip\<close>
    about both, \<open>Cjson_Strip\<close> about the minifier, \<open>Cjson_Equal\<close> about comparison and duplication.
    \<open>Cjson_Correct\<close> has the properties.

  \<^item> \<open>Cjson_Heap\<close>: the operations of the same file that link and unlink items, on memory: structs at
    addresses, with \<open>next\<close>, \<open>prev\<close> and \<open>child\<close>.  \<open>Cjson_Chain\<close> relates them to list operations and
    \<open>Cjson_Free\<close> deletes whole forests.

  \<^item> \<open>Hash_Table\<close>, \<open>Cuckoo_Hash\<close>, \<open>Simple_Hash\<close>: \<open>C/hash/cuckoohash/cuckoohash.c\<close> and
    \<open>C/hash/simplehash/simplehash.c\<close>.  The locale \<open>entry_table\<close> is the contract of an insertion, which adds an
    entry or changes nothing; both tables fulfil it, over the multiset of their entries.

  \<^item> \<open>Ini_Parse\<close>, \<open>Ini_Correct\<close>: \<open>C/iniparse/ini.c\<close>, line by line, with the handler of the application as a
    parameter; the second theory has the text of a file and what it means.

  \<^item> \<open>Log_Line\<close>, \<open>Log_Async\<close>, \<open>Log_File\<close>: \<open>log.c\<close>, \<open>log_async.c\<close> and \<open>log_file.c\<close> of \<open>C/logging\<close>: a line in its
    buffer, the threads that share the buffers, as a step relation over all interleavings, and the
    file.

  \<^item> \<open>Int_To_Str\<close>: \<open>C/dpdk/int2str/int2str.h\<close> and \<open>int2str.c\<close>, the macros that append the fields of a record.
\<close>

text \<open>
  \<^bold>\<open>What the lemmas show\<close>

  \<^item> KCP.  In every run of two endpoints the messages that have been received are a prefix of the messages
    that have been sent, with their boundaries, whatever the network does.  The proof rests on an
    invariant for each half: the send buffer is sorted and lies in a window behind \<open>snd_una\<close>, the receive
    buffer is sorted, free of duplicates, and lies in the window behind \<open>rcv_nxt\<close>.  Both are stated on
    offsets, so that sequence numbers may wrap.  \<open>ikcp_input\<close> keeps them for every datagram, well-formed or
    not, and reads nothing outside of it; \<open>ikcp_flush\<close> moves what the window admits and packs what is due
    into datagrams no longer than the mtu.

  \<^item> Pico parsers.  They accept exactly the texts of the grammar and return their parts, in both builds;
    they never read outside of the buffer; the completeness check of an incremental parse changes
    nothing; the chunked decoder implements a machine that takes one byte at a time, hence decodes what the
    encoding yields, in pieces of any size.  The trimmed variant agrees, and has one read behind
    its buffer.

  \<^item> Streaming parser.  On a parser in order and with callbacks that keep their contract every call
    returns, with no assertion failing and no read outside the buffer or a table; the parser is in order
    afterwards; a call that reports nothing has consumed its input.  URLs are taken apart into what
    they were put together from, up to the 16 bits of an offset.

  \<^item> JSON.  The parser returns on every text, reads nothing behind it, and yields well-typed items; the
    printer implements a renderer, whatever its buffer; printing and parsing are inverse; minifying
    removes what formatting added; comparison decides the equality of values.  In memory, a sequence of
    additions, insertions and detachments does to an array what the list operations do, and
    deletion frees each struct and each string that the items own, once.

  \<^item> The smaller parts.  An insertion into the cuckoo table keeps all entries, however far they move, for
    the moves follow a route without repetition to an empty cell; linear probing ends.  The parser for
    INI files reads back what was written, whatever blanks and comments surround it.  The logger
    touches no freed buffer in any interleaving and accounts for the length of every message; its lines
    are right up to the size of their buffer.  Lemmas next to these show where the code goes wrong:
    keys 0, negative and displaced in the hash tables, comments taken for values, log messages that
    overwrite each other, log lines that leave the buffer.

  \<^bold>\<open>Bounds and fuel\<close>

  Loops are structural recursions over the bytes in front of them wherever the code moves a pointer
  towards an end.  Two recursions have fuel.  The rounds of \<open>http_parser_execute\<close> start with five for each
  byte and five more: a byte is looked at again only when a rank below five falls, which
  \<open>Http_Safety\<close> proves, so that the fuel never ends.  The JSON parser starts with two for each byte and
  five more, which bounds nesting and loops together; \<open>Cjson_Safety\<close> proves that it never ends.  Both
  results are parts of the properties that the parsers return.  Walks along \<open>next\<close> pointers in memory are
  \<open>partial_function\<close>s, whose value \<open>None\<close> is a walk that does not end or that leaves the memory.
  Machine integers keep their width where the code can make them wrap: in KCP throughout, in the counters
  of the HTTP parsers, in the fields of a URL, and in the line and depth counters of JSON.

  \<^bold>\<open>Assumptions on what is not in the repository\<close>

  The allocator answers a request by its size; every failure it may choose is covered.  A \<open>double\<close> is a
  value of a type parameter and what the C library does with it is the record \<open>fp\<close>; the round trip needs
  that \<open>strtod\<close> reads back what \<open>sprintf\<close> wrote, comparison that equality of doubles is an equivalence on the
  values at hand, safety of the parser that \<open>strtod\<close> stays inside the text it is given.  The concrete
  instances in \<open>Cjson_Correct\<close>, where doubles are integers, fulfil all of them.  Callbacks of the
  application and the output function of KCP are parameters.

  \<^bold>\<open>Not modelled\<close>

  The copies of \<open>http_parser.c\<close>, \<open>picohttpparser.c\<close> and \<open>cJSON.c\<close> in other directories repeat the text of
  the variants modelled here or differ by vector intrinsics.  The C++ library under \<open>CPP/muduo\<close> and the
  connection layer over KCP wrap sockets, threads and events; the DPDK applications, the socket and
  process examples and the benchmark drivers consist of calls of libraries; \<open>nlohmann/json.hpp\<close> and
  \<open>curl.h\<close> are third-party.  Of the modelled files, log output and the release of memory in KCP are left
  out, since they do not act on the state; of the logger, the texts of time, thread and file names and
  the attributes of its thread; of the hash tables, functions without a body, printing, and two
  hash functions that draw random numbers and are never called.
\<close>

end
